(* ===== verification/Sotfs_Prelude.thy ===== *)
theory Sotfs_Prelude
  imports
    Main
    "HOL-Library.Word"
    "HOL-Library.Char_ord"
    "HOL-Library.List_Lexorder"
    "HOL-Library.Product_Lexorder"
begin

text \<open>
  Shared ground of the development: the machine-integer abbreviations, the outcome type of
  every modelled Rust function, and executable models of the two standard-library containers
  the type graph is built from, \<open>BTreeSet\<close> (a strictly ascending list) and \<open>BTreeMap\<close> (an
  association list with strictly ascending keys).  Iteration order is part of those types, and
  the code relies on it (directory listings, first-match scans), so the models keep it.
\<close>

section \<open>Machine integers\<close>

type_synonym u8 = "8 word"
type_synonym u16 = "16 word"
type_synonym u32 = "32 word"
type_synonym u64 = "64 word"

text \<open>The saturating \<open>u64\<close> operations of the Rust standard library.\<close>

definition saturating_add_u64 :: "u64 \<Rightarrow> u64 \<Rightarrow> u64" where
  "saturating_add_u64 a b = (if unat a + unat b < 2 ^ 64 then a + b else - 1)"

definition saturating_sub_u64 :: "u64 \<Rightarrow> u64 \<Rightarrow> u64" where
  "saturating_sub_u64 a b = (if b \<le> a then a - b else 0)"

lemma unat_saturating_add_u64:
  "unat (saturating_add_u64 a b) = min (unat a + unat b) (2 ^ 64 - 1)"
proof -
  have "unat (- 1 :: u64) = 2 ^ 64 - 1"
    by (simp add: unsigned_minus_1_eq_mask mask_eq_exp_minus_1)
  then show ?thesis
    by (auto simp: saturating_add_u64_def unat_word_ariths)
qed

lemma unat_saturating_sub_u64:
  "unat (saturating_sub_u64 a b) = unat a - unat b"
  by (auto simp: saturating_sub_u64_def unat_sub word_le_nat_alt)

section \<open>Collections of simplification rules\<close>

named_theorems frame_simps \<open>fields an operation leaves alone\<close>
named_theorems slot_simps \<open>contents of an arena after an operation\<close>
named_theorems view_simps \<open>abstract view of a graph after an operation\<close>
named_theorems guard_defs \<open>unfolding of early-return guards\<close>

section \<open>Ordered sets: \<open>BTreeSet\<close>\<close>

type_synonym 'a bset = "'a list"

fun bset_insert :: "'a::linorder \<Rightarrow> 'a bset \<Rightarrow> 'a bset" where
  "bset_insert x [] = [x]"
| "bset_insert x (y # ys) =
     (if x < y then x # y # ys else if x = y then y # ys else y # bset_insert x ys)"

definition bset_remove :: "'a \<Rightarrow> 'a bset \<Rightarrow> 'a bset" where
  "bset_remove x s = filter (\<lambda>y. y \<noteq> x) s"

definition bset_ok :: "'a::linorder bset \<Rightarrow> bool" where
  "bset_ok s = sorted_wrt (<) s"

lemma set_bset_insert [simp]: "set (bset_insert x s) = insert x (set s)"
  by (induction s) auto

lemma set_bset_remove [simp]: "set (bset_remove x s) = set s - {x}"
  by (auto simp: bset_remove_def)

lemma bset_ok_Nil [simp]: "bset_ok []"
  by (simp add: bset_ok_def)

lemma bset_ok_insert [simp]: "bset_ok s \<Longrightarrow> bset_ok (bset_insert x s)"
  by (induction s) (auto simp: bset_ok_def)

lemma bset_ok_remove [simp]: "bset_ok s \<Longrightarrow> bset_ok (bset_remove x s)"
  by (simp add: bset_ok_def bset_remove_def sorted_wrt_filter)

lemma bset_ok_distinct: "bset_ok s \<Longrightarrow> distinct s"
  unfolding bset_ok_def by (induction s) auto

lemma bset_insert_absorb: "bset_ok s \<Longrightarrow> x \<in> set s \<Longrightarrow> bset_insert x s = s"
  by (induction s) (auto simp: bset_ok_def)

section \<open>Ordered maps: \<open>BTreeMap\<close>\<close>

type_synonym ('k, 'v) bmap = "('k \<times> 'v) list"

abbreviation bmap_get :: "('k, 'v) bmap \<Rightarrow> 'k \<Rightarrow> 'v option" where
  "bmap_get m k \<equiv> map_of m k"

fun bmap_insert :: "'k::linorder \<Rightarrow> 'v \<Rightarrow> ('k, 'v) bmap \<Rightarrow> ('k, 'v) bmap" where
  "bmap_insert k v [] = [(k, v)]"
| "bmap_insert k v (x # xs) =
     (if k < fst x then (k, v) # x # xs
      else if k = fst x then (k, v) # xs
      else x # bmap_insert k v xs)"

definition bmap_remove :: "'k \<Rightarrow> ('k, 'v) bmap \<Rightarrow> ('k, 'v) bmap" where
  "bmap_remove k m = filter (\<lambda>x. fst x \<noteq> k) m"

text \<open>\<open>if let Some(v) = m.get_mut(&k) { *v = f(v) }\<close>\<close>

definition bmap_modify :: "'k::linorder \<Rightarrow> ('v \<Rightarrow> 'v) \<Rightarrow> ('k, 'v) bmap \<Rightarrow> ('k, 'v) bmap" where
  "bmap_modify k f m =
     (case bmap_get m k of None \<Rightarrow> m | Some v \<Rightarrow> bmap_insert k (f v) m)"

text \<open>\<open>m.entry(k).or_default()\<close> followed by an update of the entry\<close>

definition bmap_entry :: "'k::linorder \<Rightarrow> 'v \<Rightarrow> ('v \<Rightarrow> 'v) \<Rightarrow> ('k, 'v) bmap \<Rightarrow> ('k, 'v) bmap" where
  "bmap_entry k dflt f m =
     bmap_insert k (f (case bmap_get m k of None \<Rightarrow> dflt | Some v \<Rightarrow> v)) m"

definition bmap_ok :: "('k::linorder, 'v) bmap \<Rightarrow> bool" where
  "bmap_ok m = sorted_wrt (<) (map fst m)"

lemma bmap_get_insert [simp]: "map_of (bmap_insert k v m) = (map_of m)(k \<mapsto> v)"
  by (induction m) (auto simp: fun_eq_iff)

lemma bmap_get_remove [simp]: "map_of (bmap_remove k m) = (map_of m)(k := None)"
  by (induction m) (auto simp: bmap_remove_def fun_eq_iff)

lemma bmap_get_modify:
  "map_of (bmap_modify k f m) = (map_of m)(k := map_option f (map_of m k))"
  by (auto simp: bmap_modify_def fun_eq_iff split: option.splits)

lemma bmap_get_entry:
  "map_of (bmap_entry k dflt f m) =
     (map_of m)(k \<mapsto> f (case map_of m k of None \<Rightarrow> dflt | Some v \<Rightarrow> v))"
  by (simp add: bmap_entry_def)

lemma keys_bmap_insert: "fst ` set (bmap_insert k v m) = insert k (fst ` set m)"
  by (metis bmap_get_insert dom_fun_upd dom_map_of_conv_image_fst option.distinct(1))

lemma bmap_ok_Nil [simp]: "bmap_ok []"
  by (simp add: bmap_ok_def)

lemma bmap_ok_insert [simp]:
  assumes "bmap_ok m"
  shows "bmap_ok (bmap_insert k v m)"
  using assms
proof (induction m)
  case Nil
  then show ?case by (simp add: bmap_ok_def)
next
  case (Cons x xs)
  then have "bmap_ok (bmap_insert k v xs)" by (simp add: bmap_ok_def)
  moreover have "fst ` set (bmap_insert k v xs) = insert k (fst ` set xs)"
    by (rule keys_bmap_insert)
  ultimately show ?case using Cons.prems by (auto simp: bmap_ok_def)
qed

lemma bmap_ok_remove [simp]: "bmap_ok m \<Longrightarrow> bmap_ok (bmap_remove k m)"
  unfolding bmap_ok_def bmap_remove_def
  by (induction m) auto

lemma bmap_ok_modify [simp]: "bmap_ok m \<Longrightarrow> bmap_ok (bmap_modify k f m)"
  by (simp add: bmap_modify_def split: option.split)

lemma bmap_ok_entry [simp]: "bmap_ok m \<Longrightarrow> bmap_ok (bmap_entry k dflt f m)"
  by (simp add: bmap_entry_def)

lemma bmap_ok_distinct: "bmap_ok m \<Longrightarrow> distinct (map fst m)"
  unfolding bmap_ok_def by (induction m) auto

lemma bmap_in_set_iff: "bmap_ok m \<Longrightarrow> (k, v) \<in> set m \<longleftrightarrow> map_of m k = Some v"
  by (auto dest: bmap_ok_distinct map_of_SomeD)

lemma bmap_ran: "bmap_ok m \<Longrightarrow> (\<forall>(k, v) \<in> set m. P k v) \<longleftrightarrow> (\<forall>k v. map_of m k = Some v \<longrightarrow> P k v)"
  by (auto simp: bmap_in_set_iff)

end
