(* ===== verification/Sotfs_Types.thy ===== *)
theory Sotfs_Types
  imports Sotfs_Prelude
begin

text \<open>
  The data types of \<open>sotfs-graph/src/types.rs\<close> and \<open>sotfs-graph/src/error.rs\<close>: identifiers,
  node and edge types, attribute structures, the capability rights lattice and the error type.
  Identifiers are \<open>nat\<close>: they index arenas and containers, and the two places where their
  width matters (the \<open>u64\<close> counters and the truncating cast to a \<open>u32\<close> slot) write the
  wrap-around out.  Attribute values are machine words.
\<close>

section \<open>Identifiers\<close>

type_synonym timestamp = u64
type_synonym inode_id = nat
type_synonym dir_id = nat
type_synonym cap_id = nat
type_synonym txn_id = nat
type_synonym version_id = nat
type_synonym block_id = nat
type_synonym xattr_id = nat
type_synonym edge_id = nat

text \<open>
  \<open>now()\<close> reads the system clock.  It is the environment, so an operation takes the readings
  as a parameter: \<open>clk i\<close> is what the \<open>i\<close>-th call of \<open>now()\<close> in program order returns.
\<close>

type_synonym clock = "nat \<Rightarrow> timestamp"

datatype node_id =
    NInode inode_id
  | NDirectory dir_id
  | NCapability cap_id
  | NTransaction txn_id
  | NVersion version_id
  | NBlock block_id
  | NXAttr xattr_id

section \<open>Node types\<close>

datatype vnode_type = Regular | Directory | Symlink | CharDevice | BlockDevice

type_synonym permissions = u16

definition DIR_DEFAULT :: permissions where "DIR_DEFAULT = 493"
definition FILE_DEFAULT :: permissions where "FILE_DEFAULT = 420"

record inode =
  inode_id :: inode_id
  vtype :: vnode_type
  permissions :: permissions
  uid :: u32
  gid :: u32
  isize :: u64
  link_count :: u32
  ctime :: timestamp
  mtime :: timestamp
  atime :: timestamp

definition new_file :: "timestamp \<Rightarrow> inode_id \<Rightarrow> permissions \<Rightarrow> u32 \<Rightarrow> u32 \<Rightarrow> inode" where
  "new_file now i perm u g =
     \<lparr>inode_id = i, vtype = Regular, permissions = perm, uid = u, gid = g, isize = 0,
      link_count = 0, ctime = now, mtime = now, atime = now\<rparr>"

definition new_dir :: "timestamp \<Rightarrow> inode_id \<Rightarrow> permissions \<Rightarrow> u32 \<Rightarrow> u32 \<Rightarrow> inode" where
  "new_dir now i perm u g =
     \<lparr>inode_id = i, vtype = Directory, permissions = perm, uid = u, gid = g, isize = 0,
      link_count = 0, ctime = now, mtime = now, atime = now\<rparr>"

record directory =
  dir_id :: dir_id
  dir_inode_id :: inode_id

section \<open>Capabilities\<close>

type_synonym rights = u8

definition READ :: u8 where "READ = 1"
definition WRITE :: u8 where "WRITE = 2"
definition EXECUTE :: u8 where "EXECUTE = 4"
definition GRANT :: u8 where "GRANT = 8"
definition REVOKE :: u8 where "REVOKE = 16"
definition RIGHTS_ALL :: rights where "RIGHTS_ALL = 31"

definition rights_contains :: "rights \<Rightarrow> u8 \<Rightarrow> bool" where
  "rights_contains r right \<longleftrightarrow> and r right = right"

definition is_subset_of :: "rights \<Rightarrow> rights \<Rightarrow> bool" where
  "is_subset_of r other \<longleftrightarrow> and r other = r"

definition restrict :: "rights \<Rightarrow> rights \<Rightarrow> rights" where
  "restrict r m = and r m"

record capability =
  capability_id :: cap_id
  cap_rights :: rights
  epoch :: u64

record cap_context =
  ctx_cap_id :: "cap_id option"
  ctx_domain_id :: u64

definition cap_context_anonymous :: cap_context where
  "cap_context_anonymous = \<lparr>ctx_cap_id = None, ctx_domain_id = 0\<rparr>"

definition cap_context_new :: "cap_id option \<Rightarrow> u64 \<Rightarrow> cap_context" where
  "cap_context_new c d = \<lparr>ctx_cap_id = c, ctx_domain_id = d\<rparr>"

section \<open>Transactions, versions, blocks, attributes\<close>

datatype tx_state = TxActive | TxPreparing | TxCommitted | TxAborted
datatype tx_tier = Tier0 | Tier1 | Tier2

record transaction =
  tx_id :: txn_id
  tx_tier :: tx_tier
  tx_state :: tx_state
  read_set :: "inode_id bset"
  write_set :: "inode_id bset"
  begin_ts :: timestamp

record version =
  version_id :: version_id
  version_timestamp :: timestamp
  version_root_inode_id :: inode_id

record block =
  block_id :: block_id
  sector_start :: u64
  sector_count :: u64
  refcount :: u32

datatype xattr_namespace = XUser | XSystem | XSecurity | XTrusted

record xattr =
  xattr_id :: xattr_id
  xattr_namespace :: xattr_namespace
  xattr_name :: string
  xattr_value :: "u8 list"

datatype acl_tag = UserObj | AclUser | GroupObj | AclGroup | AclMask | AclOther

record acl_entry =
  acl_tag :: acl_tag
  acl_qualifier :: u32
  acl_permissions :: permissions

record quota =
  inode_limit :: u64
  inode_usage :: u64
  byte_limit :: u64
  byte_usage :: u64

definition quota_new :: "u64 \<Rightarrow> u64 \<Rightarrow> quota" where
  "quota_new il bl = \<lparr>inode_limit = il, inode_usage = 0, byte_limit = bl, byte_usage = 0\<rparr>"

definition check_inode :: "quota \<Rightarrow> bool" where
  "check_inode q \<longleftrightarrow> inode_limit q = 0 \<or> inode_usage q < inode_limit q"

text \<open>The addition wraps, as \<open>u64\<close> addition does in a release build.\<close>

definition check_bytes :: "quota \<Rightarrow> u64 \<Rightarrow> bool" where
  "check_bytes q additional \<longleftrightarrow>
     byte_limit q = 0 \<or> byte_usage q + additional \<le> byte_limit q"

section \<open>Edges\<close>

text \<open>The fields are, in the source's order, \<open>id\<close>, \<open>src\<close>, \<open>tgt\<close> and the edge's label.\<close>

datatype edge =
    Contains edge_id dir_id inode_id string
  | Grants edge_id cap_id inode_id rights
  | Delegates edge_id cap_id cap_id
  | DerivedFrom edge_id version_id version_id
  | Supersedes edge_id inode_id inode_id
  | PointsTo edge_id inode_id block_id u64
  | HasXattr edge_id inode_id xattr_id

fun edge_id :: "edge \<Rightarrow> edge_id" where
  "edge_id (Contains i _ _ _) = i"
| "edge_id (Grants i _ _ _) = i"
| "edge_id (Delegates i _ _) = i"
| "edge_id (DerivedFrom i _ _) = i"
| "edge_id (Supersedes i _ _) = i"
| "edge_id (PointsTo i _ _ _) = i"
| "edge_id (HasXattr i _ _) = i"

fun src_node :: "edge \<Rightarrow> node_id" where
  "src_node (Contains _ s _ _) = NDirectory s"
| "src_node (Grants _ s _ _) = NCapability s"
| "src_node (Delegates _ s _) = NCapability s"
| "src_node (DerivedFrom _ s _) = NVersion s"
| "src_node (Supersedes _ s _) = NInode s"
| "src_node (PointsTo _ s _ _) = NInode s"
| "src_node (HasXattr _ s _) = NInode s"

text \<open>The target of a \<open>PointsTo\<close> edge is a block, but the source maps it to an inode node.\<close>

fun tgt_node :: "edge \<Rightarrow> node_id" where
  "tgt_node (Contains _ _ t _) = NInode t"
| "tgt_node (Grants _ _ t _) = NInode t"
| "tgt_node (Delegates _ _ t) = NCapability t"
| "tgt_node (DerivedFrom _ _ t) = NVersion t"
| "tgt_node (Supersedes _ _ t) = NInode t"
| "tgt_node (PointsTo _ _ t _) = NInode t"
| "tgt_node (HasXattr _ _ t) = NXAttr t"

section \<open>Errors and outcomes\<close>

text \<open>
  What an invariant check found.  The source formats these facts into a message; the model
  keeps the facts.
\<close>

datatype violation =
    LinkCountMismatch inode_id u32 u32
  | DuplicateName dir_id string
  | MissingSelfRef dir_id
  | HardLinkToDir inode_id nat
  | DanglingEdge edge_id bool bool
  | RefcountMismatch block_id u32 u32
  | DirCycle dir_id
  | CapNotMonotonic cap_id cap_id
  | IndexWrongSrc edge_id dir_id dir_id
  | IndexMismatch dir_id string edge_id edge_id
  | IndexMissing dir_id string edge_id
  | IndexStale dir_id string edge_id
  | IndexNonContains edge_id
  | IndexMissingEdge edge_id
  | CommitNonActive

datatype resource = ResInode | ResBytes

datatype graph_error =
    InodeNotFound inode_id
  | DirNotFound dir_id
  | CapNotFound cap_id
  | BlockNotFound block_id
  | EdgeNotFound edge_id
  | NameExists dir_id string
  | DirNotEmpty dir_id
  | LinkToDirectory inode_id
  | LinkCountExceeded u32
  | WouldCreateCycle
  | NameNotFound string
  | NotADirectory inode_id
  | NotAFile inode_id
  | OutOfIds
  | XAttrNotFound string
  | XAttrExists string
  | XAttrTooLarge nat
  | NotASymlink inode_id
  | SymlinkLoop
  | QuotaExceeded dir_id resource
  | CapInsufficientRights u8 u8
  | InvariantViolation violation

text \<open>
  The outcome of a call: \<open>Ok\<close> and \<open>Err\<close> are the two constructors of \<open>Result\<close>; \<open>Panic\<close> is an
  unwound call (an \<open>unwrap\<close> of \<open>None\<close>, a slice out of range); \<open>Diverge\<close> is a loop that does not
  return.  An operation on \<open>&mut TypeGraph\<close> returns the outcome and the graph it leaves behind,
  whatever the outcome is.
\<close>

datatype 'a res = Ok 'a | Err graph_error | Panic | Diverge

fun is_ok :: "'a res \<Rightarrow> bool" where
  "is_ok (Ok _) = True"
| "is_ok _ = False"

section \<open>The rights lattice\<close>

lemma is_subset_of_refl [simp]: "is_subset_of r r"
  by (simp add: is_subset_of_def)

lemma is_subset_of_trans: "is_subset_of a b \<Longrightarrow> is_subset_of b c \<Longrightarrow> is_subset_of a c"
  unfolding is_subset_of_def by (metis and.assoc)

lemma is_subset_of_antisym: "is_subset_of a b \<Longrightarrow> is_subset_of b a \<Longrightarrow> a = b"
  unfolding is_subset_of_def by (metis and.commute)

lemma restrict_subset: "is_subset_of (restrict r m) r" "is_subset_of (restrict r m) m"
  by (simp_all add: is_subset_of_def restrict_def and.assoc and.commute and.left_commute)

lemma rights_contains_mono:
  "is_subset_of a b \<Longrightarrow> rights_contains a n \<Longrightarrow> rights_contains b n"
  unfolding is_subset_of_def rights_contains_def by (metis and.assoc and.commute)

lemma rights_contains_restrict:
  "rights_contains (restrict r m) n \<longleftrightarrow> rights_contains r n \<and> rights_contains m n"
  unfolding rights_contains_def restrict_def
  by (auto simp: bit_eq_iff bit_and_iff)

end
