(* ===== verification/Sotfs_Arena.thy ===== *)
theory Sotfs_Arena
  imports Sotfs_Types
begin

text \<open>
  The fixed-capacity slot arena of \<open>sotfs-graph/src/arena.rs\<close>: its state, every operation,
  its safety invariant (an occupied slot is initialised), and the contract \<open>slot_store\<close> that
  the type graph relies on.  \<open>CAPACITY\<close> is a constant parameter of the Rust type and a field
  here; \<open>data\<close> is indexed storage whose uninitialised slots are \<open>None\<close>; the used prefix of
  the \<open>free_list\<close> array is a list whose head is the top of the stack.  The model is that of a
  release build, where the \<open>debug_assert!\<close> of \<open>alloc\<close> is absent.
\<close>

section \<open>State and operations\<close>

type_synonym arena_id = nat

datatype slot_state = Vacant | Occupied

record 'a arena =
  ar_capacity :: nat
  ar_data :: "nat \<Rightarrow> 'a option"
  ar_state :: "nat \<Rightarrow> slot_state"
  ar_len :: nat
  ar_free_list :: "arena_id list"
  ar_next_bump :: nat

definition ar_new :: "nat \<Rightarrow> 'a arena" where
  "ar_new capacity =
     \<lparr>ar_capacity = capacity, ar_data = (\<lambda>_. None), ar_state = (\<lambda>_. Vacant), ar_len = 0,
      ar_free_list = [], ar_next_bump = 0\<rparr>"

definition ar_alloc :: "'a \<Rightarrow> 'a arena \<Rightarrow> arena_id option \<times> 'a arena" where
  "ar_alloc v a =
     (case (case ar_free_list a of
              s # rest \<Rightarrow> Some (s, a\<lparr>ar_free_list := rest\<rparr>)
            | [] \<Rightarrow>
                (if ar_next_bump a < ar_capacity a
                 then Some (ar_next_bump a, a\<lparr>ar_next_bump := ar_next_bump a + 1\<rparr>)
                 else None)) of
        None \<Rightarrow> (None, a)
      | Some (slot, a') \<Rightarrow>
          (Some slot,
           a'\<lparr>ar_data := (ar_data a')(slot := Some v),
              ar_state := (ar_state a')(slot := Occupied),
              ar_len := ar_len a' + 1\<rparr>))"

definition ar_insert_at :: "arena_id \<Rightarrow> 'a \<Rightarrow> 'a arena \<Rightarrow> bool \<times> 'a arena" where
  "ar_insert_at slot v a =
     (if slot \<ge> ar_capacity a then (False, a)
      else if ar_state a slot = Occupied then (False, a)
      else (True,
        a\<lparr>ar_next_bump := (if slot \<ge> ar_next_bump a then slot + 1 else ar_next_bump a),
          ar_data := (ar_data a)(slot := Some v),
          ar_state := (ar_state a)(slot := Occupied),
          ar_len := ar_len a + 1\<rparr>))"

definition push_free :: "arena_id \<Rightarrow> 'a arena \<Rightarrow> 'a arena" where
  "push_free slot a =
     (if length (ar_free_list a) < ar_capacity a
      then a\<lparr>ar_free_list := slot # ar_free_list a\<rparr> else a)"

definition ar_dealloc :: "arena_id \<Rightarrow> 'a arena \<Rightarrow> bool \<times> 'a arena" where
  "ar_dealloc slot a =
     (if slot \<ge> ar_capacity a \<or> ar_state a slot \<noteq> Occupied then (False, a)
      else (True, push_free slot
        (a\<lparr>ar_data := (ar_data a)(slot := None),
           ar_state := (ar_state a)(slot := Vacant),
           ar_len := ar_len a - 1\<rparr>)))"

definition ar_remove :: "arena_id \<Rightarrow> 'a arena \<Rightarrow> 'a option \<times> 'a arena" where
  "ar_remove slot a =
     (if slot \<ge> ar_capacity a \<or> ar_state a slot \<noteq> Occupied then (None, a)
      else (ar_data a slot, push_free slot
        (a\<lparr>ar_data := (ar_data a)(slot := None),
           ar_state := (ar_state a)(slot := Vacant),
           ar_len := ar_len a - 1\<rparr>)))"

definition ar_get :: "'a arena \<Rightarrow> arena_id \<Rightarrow> 'a option" where
  "ar_get a slot =
     (if slot \<ge> ar_capacity a \<or> ar_state a slot \<noteq> Occupied then None else ar_data a slot)"

text \<open>A write through the reference that \<open>get_mut\<close> returns.\<close>

definition ar_get_mut :: "arena_id \<Rightarrow> ('a \<Rightarrow> 'a) \<Rightarrow> 'a arena \<Rightarrow> 'a arena" where
  "ar_get_mut slot f a =
     (if slot \<ge> ar_capacity a \<or> ar_state a slot \<noteq> Occupied then a
      else a\<lparr>ar_data := (ar_data a)(slot := map_option f (ar_data a slot))\<rparr>)"

definition ar_contains :: "'a arena \<Rightarrow> arena_id \<Rightarrow> bool" where
  "ar_contains a slot \<longleftrightarrow> slot < ar_capacity a \<and> ar_state a slot = Occupied"

definition ar_is_empty :: "'a arena \<Rightarrow> bool" where
  "ar_is_empty a \<longleftrightarrow> ar_len a = 0"

text \<open>The \<open>u64\<close> conveniences cast the key to a \<open>u32\<close> slot, dropping the high bits.\<close>

definition key_slot :: "nat \<Rightarrow> arena_id" where
  "key_slot key = key mod 2 ^ 32"

definition ar_insert :: "nat \<Rightarrow> 'a \<Rightarrow> 'a arena \<Rightarrow> bool \<times> 'a arena" where
  "ar_insert key v a = ar_insert_at (key_slot key) v a"

definition ar_remove_by_key :: "nat \<Rightarrow> 'a arena \<Rightarrow> 'a option \<times> 'a arena" where
  "ar_remove_by_key key a = ar_remove (key_slot key) a"

definition ar_get_by_key :: "'a arena \<Rightarrow> nat \<Rightarrow> 'a option" where
  "ar_get_by_key a key = ar_get a (key_slot key)"

definition ar_get_mut_by_key :: "nat \<Rightarrow> ('a \<Rightarrow> 'a) \<Rightarrow> 'a arena \<Rightarrow> 'a arena" where
  "ar_get_mut_by_key key f a = ar_get_mut (key_slot key) f a"

definition ar_contains_key :: "'a arena \<Rightarrow> nat \<Rightarrow> bool" where
  "ar_contains_key a key \<longleftrightarrow> ar_contains a (key_slot key)"

text \<open>
  The iterators walk the slots below the bump pointer in ascending order, one \<open>next\<close> at a
  time: \<open>ar_iter\<close> the sequence of values it yields.
\<close>

fun ar_iter_from :: "'a arena \<Rightarrow> nat list \<Rightarrow> (arena_id \<times> 'a) list" where
  "ar_iter_from a [] = []"
| "ar_iter_from a (i # is) =
     (if ar_state a i = Occupied
      then (case ar_data a i of Some v \<Rightarrow> [(i, v)] | None \<Rightarrow> []) @ ar_iter_from a is
      else ar_iter_from a is)"

definition ar_iter :: "'a arena \<Rightarrow> (arena_id \<times> 'a) list" where
  "ar_iter a = ar_iter_from a [0..<ar_next_bump a]"

definition ar_keys :: "'a arena \<Rightarrow> arena_id list" where
  "ar_keys a = filter (\<lambda>i. ar_state a i = Occupied) [0..<ar_next_bump a]"

definition ar_values :: "'a arena \<Rightarrow> 'a list" where
  "ar_values a = map snd (ar_iter a)"

text \<open>Rewriting every value through \<open>iter_mut\<close>.\<close>

definition ar_iter_mut :: "(arena_id \<Rightarrow> 'a \<Rightarrow> 'a) \<Rightarrow> 'a arena \<Rightarrow> 'a arena" where
  "ar_iter_mut f a =
     a\<lparr>ar_data := (\<lambda>i. if i < ar_next_bump a \<and> ar_state a i = Occupied
                        then map_option (f i) (ar_data a i) else ar_data a i)\<rparr>"

text \<open>\<open>clone\<close> copies the occupied slots below the bump pointer into fresh storage.\<close>

definition ar_clone :: "'a arena \<Rightarrow> 'a arena" where
  "ar_clone a =
     a\<lparr>ar_data := (\<lambda>i. if i < ar_next_bump a \<and> ar_state a i = Occupied
                        then ar_data a i else None)\<rparr>"

section \<open>The safety invariant\<close>

lemma not_occupied: "s \<noteq> Occupied \<longleftrightarrow> s = Vacant"
  by (cases s) auto

definition ar_inv :: "'a arena \<Rightarrow> bool" where
  "ar_inv a \<longleftrightarrow>
     (\<forall>i. ar_state a i = Occupied \<longleftrightarrow> ar_data a i \<noteq> None) \<and>
     (\<forall>i. ar_state a i = Occupied \<longrightarrow> i < ar_next_bump a) \<and>
     ar_next_bump a \<le> ar_capacity a \<and>
     ar_len a = card {i. ar_state a i = Occupied} \<and>
     (\<forall>s \<in> set (ar_free_list a). s < ar_next_bump a) \<and>
     length (ar_free_list a) \<le> ar_capacity a"

lemma ar_inv_finite: "ar_inv a \<Longrightarrow> finite {i. ar_state a i = Occupied}"
  by (rule finite_subset [of _ "{..< ar_next_bump a}"]) (auto simp: ar_inv_def)

lemma ar_inv_len: "ar_inv a \<Longrightarrow> card {i. ar_state a i = Occupied} = ar_len a"
  by (simp add: ar_inv_def)

lemma ar_inv_new [simp]: "ar_inv (ar_new n)"
  by (simp add: ar_inv_def ar_new_def)

lemma push_free_simps [simp]:
  "ar_capacity (push_free s a) = ar_capacity a" "ar_data (push_free s a) = ar_data a"
  "ar_state (push_free s a) = ar_state a" "ar_len (push_free s a) = ar_len a"
  "ar_next_bump (push_free s a) = ar_next_bump a"
  by (simp_all add: push_free_def)

lemma set_push_free: "set (ar_free_list (push_free s a)) \<subseteq> insert s (set (ar_free_list a))"
  by (auto simp: push_free_def)

lemma length_push_free:
  "length (ar_free_list a) \<le> ar_capacity a \<Longrightarrow> length (ar_free_list (push_free s a)) \<le> ar_capacity a"
  by (auto simp: push_free_def)

lemma ar_inv_insert_at:
  assumes "ar_inv a"
  shows "ar_inv (snd (ar_insert_at i v a))"
proof (cases "i < ar_capacity a \<and> ar_state a i = Vacant")
  case True
  have "{j. ((ar_state a)(i := Occupied)) j = Occupied} = insert i {j. ar_state a j = Occupied}"
    by auto
  then have "card {j. ((ar_state a)(i := Occupied)) j = Occupied} = Suc (ar_len a)"
    using True ar_inv_finite [OF assms] ar_inv_len [OF assms]
    by (simp del: fun_upd_apply)
  with True assms show ?thesis
    unfolding ar_insert_at_def ar_inv_def by (auto simp: less_Suc_eq intro: less_le_trans)
next
  case False
  then show ?thesis
    using assms by (auto simp: ar_insert_at_def intro: slot_state.exhaust)
qed

lemma ar_inv_free_slot:
  assumes "ar_inv a" and "ar_state a i = Occupied"
  shows "ar_inv (push_free i (a\<lparr>ar_data := (ar_data a)(i := None),
           ar_state := (ar_state a)(i := Vacant), ar_len := ar_len a - 1\<rparr>))"
    (is "ar_inv (push_free i ?b)")
proof -
  have "{j. ((ar_state a)(i := Vacant)) j = Occupied} = {j. ar_state a j = Occupied} - {i}"
    by auto
  then have "card {j. ((ar_state a)(i := Vacant)) j = Occupied} = ar_len a - 1"
    using assms(2) ar_inv_finite [OF assms(1)] ar_inv_len [OF assms(1)]
    by (simp del: fun_upd_apply)
  moreover have "set (ar_free_list (push_free i ?b)) \<subseteq> insert i (set (ar_free_list a))"
    using set_push_free [of i ?b] by simp
  moreover have "length (ar_free_list (push_free i ?b)) \<le> ar_capacity a"
    using assms(1) length_push_free [of ?b i] by (simp add: ar_inv_def)
  ultimately show ?thesis
    using assms unfolding ar_inv_def by auto
qed

lemma ar_inv_remove: "ar_inv a \<Longrightarrow> ar_inv (snd (ar_remove i a))"
  using ar_inv_free_slot [of a i] by (auto simp: ar_remove_def)

lemma ar_inv_dealloc: "ar_inv a \<Longrightarrow> ar_inv (snd (ar_dealloc i a))"
  using ar_inv_free_slot [of a i] by (auto simp: ar_dealloc_def)

lemma ar_inv_get_mut: "ar_inv a \<Longrightarrow> ar_inv (ar_get_mut i f a)"
  unfolding ar_get_mut_def ar_inv_def by auto

lemma ar_inv_iter_mut: "ar_inv a \<Longrightarrow> ar_inv (ar_iter_mut f a)"
  unfolding ar_iter_mut_def ar_inv_def by auto

lemma ar_clone_eq: "ar_inv a \<Longrightarrow> ar_clone a = a"
  by (cases a) (auto simp: ar_clone_def ar_inv_def fun_eq_iff)

section \<open>The contract of the slot store\<close>

text \<open>
  What the type graph relies on when it keeps nodes and edges in an arena under identifiers
  it chooses itself: \<open>insert_at\<close>, \<open>get\<close>, \<open>get_mut\<close>, \<open>remove\<close> and the iterator.
\<close>

locale slot_store =
  fixes get :: "'s \<Rightarrow> nat \<Rightarrow> 'a option"
    and put :: "nat \<Rightarrow> 'a \<Rightarrow> 's \<Rightarrow> bool \<times> 's"
    and upd :: "nat \<Rightarrow> ('a \<Rightarrow> 'a) \<Rightarrow> 's \<Rightarrow> 's"
    and del :: "nat \<Rightarrow> 's \<Rightarrow> 'a option \<times> 's"
    and entries :: "'s \<Rightarrow> (nat \<times> 'a) list"
    and cap :: "'s \<Rightarrow> nat"
    and inv :: "'s \<Rightarrow> bool"
  assumes get_bound: "inv s \<Longrightarrow> get s i = Some v \<Longrightarrow> i < cap s"
    and put_ok: "inv s \<Longrightarrow> fst (put i v s) \<longleftrightarrow> i < cap s \<and> get s i = None"
    and get_put: "inv s \<Longrightarrow> get (snd (put i v s)) =
                   (if fst (put i v s) then (get s)(i \<mapsto> v) else get s)"
    and get_upd: "inv s \<Longrightarrow> get (upd i f s) = (get s)(i := map_option f (get s i))"
    and del_val: "inv s \<Longrightarrow> fst (del i s) = get s i"
    and get_del: "inv s \<Longrightarrow> get (snd (del i s)) = (get s)(i := None)"
    and entries_get: "inv s \<Longrightarrow> (i, v) \<in> set (entries s) \<longleftrightarrow> get s i = Some v"
    and entries_sorted: "inv s \<Longrightarrow> sorted_wrt (<) (map fst (entries s))"
    and inv_put: "inv s \<Longrightarrow> inv (snd (put i v s))"
    and inv_upd: "inv s \<Longrightarrow> inv (upd i f s)"
    and inv_del: "inv s \<Longrightarrow> inv (snd (del i s))"
    and cap_put: "cap (snd (put i v s)) = cap s"
    and cap_upd: "cap (upd i f s) = cap s"
    and cap_del: "cap (snd (del i s)) = cap s"
begin

lemma put_fresh:
  "inv s \<Longrightarrow> i < cap s \<Longrightarrow> get s i = None \<Longrightarrow> get (snd (put i v s)) = (get s)(i \<mapsto> v)"
  by (simp add: get_put put_ok)

lemma put_out_of_range: "inv s \<Longrightarrow> cap s \<le> i \<Longrightarrow> get (snd (put i v s)) = get s"
  by (simp add: get_put put_ok)

lemma put_del: "inv s \<Longrightarrow> i < cap s \<Longrightarrow> get s i = None \<Longrightarrow>
    get (snd (del i (snd (put i v s)))) = get s"
  by (auto simp: get_del inv_put put_fresh)

lemma finite_dom: "inv s \<Longrightarrow> finite (dom (get s))"
  by (rule finite_subset [of _ "{..< cap s}"]) (auto dest: get_bound)

lemma distinct_entries: "inv s \<Longrightarrow> distinct (map fst (entries s))"
  using entries_sorted strict_sorted_iff by blast

lemma entries_eq_Nil: "inv s \<Longrightarrow> entries s = [] \<longleftrightarrow> get s = Map.empty"
  using entries_get [of s] by (cases "entries s") (force simp: fun_eq_iff)+

lemma entries_all: "inv s \<Longrightarrow>
    (\<forall>x \<in> set (entries s). P (fst x) (snd x)) \<longleftrightarrow> (\<forall>i v. get s i = Some v \<longrightarrow> P i v)"
  using entries_get [of s] by force

text \<open>Counting with the iterator is counting the contents.\<close>

lemma count_entries:
  assumes "inv s"
  shows "length (filter (\<lambda>x. P (fst x) (snd x)) (entries s)) =
         card {i. \<exists>v. get s i = Some v \<and> P i v}"
proof -
  let ?xs = "filter (\<lambda>x. P (fst x) (snd x)) (entries s)"
  have d: "distinct (map fst ?xs)"
    using distinct_entries [OF assms] by (simp add: distinct_map_filter)
  have "set (map fst ?xs) = {i. \<exists>v. get s i = Some v \<and> P i v}"
    using entries_get [OF assms] by force
  then show ?thesis
    using distinct_card [OF d] by simp
qed

end

section \<open>The arena meets the contract\<close>

lemma ar_get_inv: "ar_inv a \<Longrightarrow> ar_get a i = ar_data a i"
  unfolding ar_get_def ar_inv_def
  by (metis (no_types, lifting) le_trans not_le option.exhaust_sel)

lemma ar_contains_get: "ar_inv a \<Longrightarrow> ar_contains a i \<longleftrightarrow> ar_get a i \<noteq> None"
  unfolding ar_get_def ar_contains_def ar_inv_def by auto

lemma ar_iter_from_set:
  "ar_inv a \<Longrightarrow> (i, v) \<in> set (ar_iter_from a is) \<longleftrightarrow> i \<in> set is \<and> ar_data a i = Some v"
  by (induction "is") (auto simp: ar_inv_def split: option.splits)

lemma ar_iter_from_keys:
  "ar_inv a \<Longrightarrow> map fst (ar_iter_from a is) = filter (\<lambda>i. ar_state a i = Occupied) is"
  by (induction "is") (auto simp: ar_inv_def split: option.splits)

lemma ar_keys_iter: "ar_inv a \<Longrightarrow> ar_keys a = map fst (ar_iter a)"
  by (simp add: ar_keys_def ar_iter_def ar_iter_from_keys)

interpretation ar: slot_store ar_get ar_insert_at ar_get_mut ar_remove ar_iter ar_capacity ar_inv
proof (unfold_locales, goal_cases)
  case (1 s i v)
  then show ?case by (auto simp: ar_get_def split: if_splits)
next
  case (2 s i v)
  then show ?case
    by (auto simp: ar_insert_at_def ar_get_def ar_inv_def intro: slot_state.exhaust)
next
  case (3 s i v)
  then show ?case
    by (auto simp: ar_insert_at_def ar_get_def fun_eq_iff)
next
  case (4 s i f)
  then show ?case by (auto simp: ar_get_mut_def ar_get_def fun_eq_iff)
next
  case (5 s i)
  then show ?case by (auto simp: ar_remove_def ar_get_def)
next
  case (6 s i)
  then show ?case by (auto simp: ar_remove_def ar_get_def fun_eq_iff)
next
  case (7 s i v)
  then show ?case
    by (auto simp: ar_iter_def ar_iter_from_set ar_get_inv ar_inv_def)
next
  case (8 s)
  then show ?case
    by (auto simp: ar_iter_def ar_iter_from_keys intro!: sorted_wrt_filter)
next
  case (9 s i v)
  then show ?case by (rule ar_inv_insert_at)
next
  case (10 s i f)
  then show ?case by (rule ar_inv_get_mut)
next
  case (11 s i)
  then show ?case by (rule ar_inv_remove)
qed (simp_all add: ar_insert_at_def ar_get_mut_def ar_remove_def)

lemmas arena_simps [slot_simps] =
  ar.put_fresh ar.put_out_of_range ar.get_upd ar.get_del ar.del_val
  ar.inv_put ar.inv_upd ar.inv_del ar.cap_put ar.cap_upd ar.cap_del

lemma ar_get_new [simp]: "ar_get (ar_new n) i = None"
  by (simp add: ar_new_def ar_get_def)

lemma ar_capacity_new [simp]: "ar_capacity (ar_new n) = n"
  by (simp add: ar_new_def)

section \<open>Allocation discipline\<close>

text \<open>
  \<open>alloc\<close> additionally relies on the free list holding exactly vacant slots, once each.  It is
  kept by \<open>alloc\<close>, \<open>dealloc\<close> and \<open>remove\<close>.
\<close>

definition ar_alloc_inv :: "'a arena \<Rightarrow> bool" where
  "ar_alloc_inv a \<longleftrightarrow>
     ar_inv a \<and> distinct (ar_free_list a) \<and>
     set (ar_free_list a) = {i. i < ar_next_bump a \<and> ar_state a i = Vacant}"

lemma ar_alloc_inv_new [simp]: "ar_alloc_inv (ar_new n)"
  by (simp add: ar_alloc_inv_def ar_new_def ar_inv_def)

lemma alloc_inv_free_card:
  assumes "ar_alloc_inv a"
  shows "ar_len a + length (ar_free_list a) = ar_next_bump a"
proof -
  let ?O = "{i. ar_state a i = Occupied}" and ?F = "{i. i < ar_next_bump a \<and> ar_state a i = Vacant}"
  have inv: "ar_inv a" and d: "distinct (ar_free_list a)" and F: "set (ar_free_list a) = ?F"
    using assms by (auto simp: ar_alloc_inv_def)
  have "?O \<union> ?F = {..< ar_next_bump a}"
    using inv by (auto simp: ar_inv_def simp flip: not_occupied)
  moreover have "?O \<inter> ?F = {}" by auto
  moreover have "finite ?F" by simp
  ultimately have "card ?O + card ?F = ar_next_bump a"
    using card_Un_disjoint [OF ar_inv_finite [OF inv]] by (metis card_lessThan)
  then show ?thesis
    using distinct_card [OF d] F ar_inv_len [OF inv] by simp
qed

lemma push_free_alloc:
  "length (ar_free_list a) < ar_capacity a \<Longrightarrow> ar_free_list (push_free i a) = i # ar_free_list a"
  by (simp add: push_free_def)

lemma alloc_inv_remove:
  assumes "ar_alloc_inv a"
  shows "ar_alloc_inv (snd (ar_remove i a))"
proof (cases "i < ar_capacity a \<and> ar_state a i = Occupied")
  case False
  then show ?thesis using assms by (auto simp: ar_remove_def)
next
  case True
  have inv: "ar_inv a" using assms by (simp add: ar_alloc_inv_def)
  have lt: "i < ar_next_bump a" using True inv by (simp add: ar_inv_def)
  have "0 < card {j. ar_state a j = Occupied}"
    using True ar_inv_finite [OF inv] by (auto simp: card_gt_0_iff)
  then have "0 < ar_len a" using ar_inv_len [OF inv] by simp
  then have "length (ar_free_list a) < ar_capacity a"
    using alloc_inv_free_card [OF assms] inv by (simp add: ar_inv_def)
  then have fl: "ar_free_list (snd (ar_remove i a)) = i # ar_free_list a"
    using True by (simp add: ar_remove_def push_free_def)
  moreover have "ar_inv (snd (ar_remove i a))"
    by (rule ar_inv_remove [OF inv])
  ultimately show ?thesis
    using assms True lt by (auto simp: ar_alloc_inv_def ar_remove_def)
qed

lemma alloc_inv_dealloc: "ar_alloc_inv a \<Longrightarrow> ar_alloc_inv (snd (ar_dealloc i a))"
  using alloc_inv_remove [of a i] by (auto simp: ar_remove_def ar_dealloc_def split: if_splits)

lemma ar_alloc_cases:
  obtains (Reuse) s rest where "ar_free_list a = s # rest"
      and "ar_alloc v a = (Some s, a\<lparr>ar_free_list := rest, ar_data := (ar_data a)(s := Some v),
             ar_state := (ar_state a)(s := Occupied), ar_len := ar_len a + 1\<rparr>)"
  | (Bump) "ar_free_list a = []" and "ar_next_bump a < ar_capacity a"
      and "ar_alloc v a = (Some (ar_next_bump a), a\<lparr>ar_next_bump := ar_next_bump a + 1,
             ar_data := (ar_data a)(ar_next_bump a := Some v),
             ar_state := (ar_state a)(ar_next_bump a := Occupied), ar_len := ar_len a + 1\<rparr>)"
  | (Full) "ar_free_list a = []" and "\<not> ar_next_bump a < ar_capacity a"
      and "ar_alloc v a = (None, a)"
  by (cases "ar_free_list a"; cases "ar_next_bump a < ar_capacity a")
     (auto simp: ar_alloc_def)

lemma alloc_slot:
  assumes "ar_alloc_inv a" and "ar_alloc v a = (Some i, a')"
  shows "ar_get a i = None" and "i < ar_capacity a" and "ar_get a' = (ar_get a)(i \<mapsto> v)"
proof -
  have inv: "ar_inv a" and F: "set (ar_free_list a) = {i. i < ar_next_bump a \<and> ar_state a i = Vacant}"
    using assms(1) by (auto simp: ar_alloc_inv_def)
  have *: "i < ar_capacity a \<and> ar_state a i = Vacant \<and> ar_get a' = (ar_get a)(i \<mapsto> v)"
  proof (cases rule: ar_alloc_cases [of a v])
    case (Reuse s rest)
    then have "s \<in> set (ar_free_list a)" by simp
    then have "s < ar_capacity a \<and> ar_state a s = Vacant"
      using F inv by (auto simp: ar_inv_def)
    then show ?thesis using Reuse(2) assms(2) by (auto simp: ar_get_def fun_eq_iff)
  next
    case Bump
    then have "ar_state a (ar_next_bump a) = Vacant"
      using inv by (auto simp: ar_inv_def simp flip: not_occupied)
    then show ?thesis using Bump assms(2) by (auto simp: ar_get_def fun_eq_iff)
  next
    case Full
    then show ?thesis using assms(2) by simp
  qed
  then show "ar_get a i = None" "i < ar_capacity a" "ar_get a' = (ar_get a)(i \<mapsto> v)"
    by (auto simp: ar_get_def)
qed

lemma card_occupied_upd:
  "ar_inv a \<Longrightarrow> ar_state a s = Vacant \<Longrightarrow>
     card {i. ((ar_state a)(s := Occupied)) i = Occupied} = Suc (ar_len a)"
proof -
  assume inv: "ar_inv a" and s: "ar_state a s = Vacant"
  have "{i. ((ar_state a)(s := Occupied)) i = Occupied} = insert s {i. ar_state a i = Occupied}"
    by auto
  then show ?thesis
    using s ar_inv_finite [OF inv] ar_inv_len [OF inv] by (simp del: fun_upd_apply)
qed

lemma alloc_inv_alloc:
  assumes "ar_alloc_inv a"
  shows "ar_alloc_inv (snd (ar_alloc v a))"
proof -
  have inv: "ar_inv a" and d: "distinct (ar_free_list a)"
    and F: "set (ar_free_list a) = {i. i < ar_next_bump a \<and> ar_state a i = Vacant}"
    using assms by (auto simp: ar_alloc_inv_def)
  show ?thesis
  proof (cases rule: ar_alloc_cases [of a v])
    case (Reuse s rest)
    then have "s \<in> set (ar_free_list a)" by simp
    then have s: "s < ar_next_bump a" "ar_state a s = Vacant" using F by auto
    have "set rest = set (ar_free_list a) - {s}" using d Reuse(1) by auto
    then have "set rest = {i. i < ar_next_bump a \<and> ((ar_state a)(s := Occupied)) i = Vacant}"
      using F by auto
    moreover have "distinct rest" using d Reuse(1) by simp
    moreover note card_occupied_upd [OF inv s(2)]
    moreover have "ar_inv (snd (ar_alloc v a))"
      using inv Reuse s card_occupied_upd [OF inv s(2)]
      unfolding ar_inv_def by (auto simp del: fun_upd_apply) (auto split: if_splits)
    ultimately show ?thesis using Reuse by (simp add: ar_alloc_inv_def)
  next
    case Bump
    have s: "ar_state a (ar_next_bump a) = Vacant"
      using inv by (auto simp: ar_inv_def simp flip: not_occupied)
    have "ar_inv (snd (ar_alloc v a))"
      using inv Bump card_occupied_upd [OF inv s]
      unfolding ar_inv_def by (auto simp del: fun_upd_apply) (auto split: if_splits simp: less_Suc_eq)
    then show ?thesis using Bump F by (auto simp: ar_alloc_inv_def less_Suc_eq)
  next
    case Full
    then show ?thesis using assms by simp
  qed
qed

section \<open>Properties\<close>

text \<open>
  Under the allocation discipline \<open>alloc\<close> fails exactly when every slot is occupied;
  otherwise it hands out a slot that was vacant, stores the value there, disturbs no other
  slot and keeps the discipline.
\<close>

theorem arena_alloc_correct:
  assumes "ar_alloc_inv a"
  shows "case ar_alloc v a of
           (None, a') \<Rightarrow> a' = a \<and> ar_len a = ar_capacity a
         | (Some i, a') \<Rightarrow> i < ar_capacity a \<and> ar_get a i = None \<and>
             ar_get a' = (ar_get a)(i \<mapsto> v) \<and> ar_len a' = ar_len a + 1 \<and> ar_alloc_inv a'"
proof (cases "ar_alloc v a")
  case (Pair r a')
  show ?thesis
  proof (cases r)
    case None
    then show ?thesis
      using Pair alloc_inv_free_card [OF assms] assms
      by (cases rule: ar_alloc_cases [of a v]) (auto simp: ar_alloc_inv_def ar_inv_def)
  next
    case (Some i)
    have "ar_len a' = ar_len a + 1"
      using Pair Some by (cases rule: ar_alloc_cases [of a v]) auto
    then show ?thesis
      using Pair Some alloc_slot [OF assms] alloc_inv_alloc [OF assms, of v] by simp
  qed
qed

theorem arena_alloc_correct_witness:
  "ar_alloc_inv (ar_new 2) \<and>
   (case ar_alloc (7::nat) (ar_new 2) of
      (None, a') \<Rightarrow> a' = ar_new 2 \<and> ar_len (ar_new 2 :: nat arena) = ar_capacity (ar_new 2 :: nat arena)
    | (Some i, a') \<Rightarrow> i < ar_capacity (ar_new 2 :: nat arena) \<and> ar_get (ar_new 2) i = (None :: nat option) \<and>
        ar_get a' = (ar_get (ar_new 2))(i \<mapsto> 7) \<and>
        ar_len a' = ar_len (ar_new 2 :: nat arena) + 1 \<and> ar_alloc_inv a')"
  using arena_alloc_correct [OF ar_alloc_inv_new, where v = "7::nat" and n1 = 2] ar_alloc_inv_new
  by blast

text \<open>
  C13: mixing \<open>insert_at\<close> with \<open>alloc\<close> breaks the arena.  \<open>insert_at\<close> into a slot that was freed
  leaves the slot on the free list, so the next \<open>alloc\<close> returns the occupied slot, overwrites
  its value and counts it twice.
\<close>

theorem arena_insert_at_then_alloc_overwrites:
  assumes "ar_inv a" and "ar_get a i = Some u" and "length (ar_free_list a) < ar_capacity a"
  shows "let b = snd (ar_insert_at i v (snd (ar_remove i a))); (r, c) = ar_alloc w b in
           ar_get b i = Some v \<and> r = Some i \<and> ar_get c i = Some w \<and>
           ar_len c = ar_len b + 1 \<and> dom (ar_get c) = dom (ar_get b)"
proof -
  let ?b = "snd (ar_insert_at i v (snd (ar_remove i a)))"
  have i: "i < ar_capacity a" "ar_state a i = Occupied"
    using assms(2) by (auto simp: ar_get_def split: if_splits)
  have fl: "ar_free_list ?b = i # ar_free_list a" and cap: "ar_capacity ?b = ar_capacity a"
    using i assms(3) by (auto simp: ar_insert_at_def ar_remove_def push_free_def)
  have v: "ar_get ?b i = Some v"
    using assms(1) i by (simp add: slot_simps)
  moreover have "dom (ar_get (snd (ar_alloc w ?b))) = dom (ar_get ?b)"
    using v by (auto simp: ar_alloc_def fl ar_get_def dom_def split: if_splits)
  ultimately show ?thesis
    using i cap fl by (simp add: ar_alloc_def ar_get_def Let_def split: prod.split)
qed

theorem arena_insert_at_then_alloc_overwrites_witness:
  "let b = snd (ar_insert_at 0 20 (snd (ar_remove 0 (snd (ar_insert_at 0 10 (ar_new 4))))));
       (r, c) = ar_alloc (30::nat) b in
     ar_get b 0 = Some 20 \<and> r = Some 0 \<and> ar_get c 0 = Some 30 \<and>
     ar_len c = ar_len b + 1 \<and> dom (ar_get c) = dom (ar_get b)"
  by (rule arena_insert_at_then_alloc_overwrites [where u = "10::nat"])
     (simp_all add: ar_get_def ar_insert_at_def ar_new_def ar_inv_def)

end
