(* ===== verification/Sotfs_Index.thy ===== *)
theory Sotfs_Index
  imports Sotfs_Prelude
begin

text \<open>
  The secondary indexes of the type graph.  Most are of type \<open>BTreeMap<K, BTreeSet<V>>\<close> and are
  maintained with two idioms: \<open>m.entry(k).or_default().insert(v)\<close> and
  \<open>if let Some(s) = m.get_mut(&k) { s.remove(&v) }\<close>.  The locale \<open>multi_index\<close> states what those
  operations promise, and derives the fact the graph needs: an index that is exactly the
  inverse image of a partial function stays so when the function is extended at a fresh point,
  cut, or moved.
\<close>

section \<open>Operations\<close>

definition mi_get :: "('k, 'v bset) bmap \<Rightarrow> 'k \<Rightarrow> 'v bset" where
  "mi_get m k = (case bmap_get m k of None \<Rightarrow> [] | Some s \<Rightarrow> s)"

definition mi_add :: "'k::linorder \<Rightarrow> 'v::linorder \<Rightarrow> ('k, 'v bset) bmap \<Rightarrow> ('k, 'v bset) bmap" where
  "mi_add k v m = bmap_entry k [] (bset_insert v) m"

definition mi_del :: "'k::linorder \<Rightarrow> 'v::linorder \<Rightarrow> ('k, 'v bset) bmap \<Rightarrow> ('k, 'v bset) bmap" where
  "mi_del k v m = bmap_modify k (bset_remove v) m"

definition mi_ok :: "('k::linorder, 'v::linorder bset) bmap \<Rightarrow> bool" where
  "mi_ok m \<longleftrightarrow> bmap_ok m \<and> (\<forall>k s. bmap_get m k = Some s \<longrightarrow> bset_ok s)"

section \<open>Contract\<close>

locale multi_index =
  fixes members :: "'m \<Rightarrow> 'k \<Rightarrow> 'v set"
    and add :: "'k \<Rightarrow> 'v \<Rightarrow> 'm \<Rightarrow> 'm"
    and del :: "'k \<Rightarrow> 'v \<Rightarrow> 'm \<Rightarrow> 'm"
    and clear :: "'k \<Rightarrow> 'm \<Rightarrow> 'm"
    and inv :: "'m \<Rightarrow> bool"
  assumes members_add: "members (add k v m) j = (if j = k then insert v (members m k) else members m j)"
    and members_del: "members (del k v m) j = (if j = k then members m k - {v} else members m j)"
    and members_clear: "members (clear k m) j = (if j = k then {} else members m j)"
    and inv_add: "inv m \<Longrightarrow> inv (add k v m)"
    and inv_del: "inv m \<Longrightarrow> inv (del k v m)"
    and inv_clear: "inv m \<Longrightarrow> inv (clear k m)"
begin

definition exact :: "'m \<Rightarrow> ('v \<rightharpoonup> 'k) \<Rightarrow> bool" where
  "exact m f \<longleftrightarrow> (\<forall>k. members m k = {v. f v = Some k})"

lemma exactD: "exact m f \<Longrightarrow> v \<in> members m k \<longleftrightarrow> f v = Some k"
  by (simp add: exact_def)

lemma exact_add: "exact m f \<Longrightarrow> f v = None \<Longrightarrow> exact (add k v m) (f(v \<mapsto> k))"
  by (auto simp: exact_def members_add)

lemma exact_del: "exact m f \<Longrightarrow> f v = Some k \<Longrightarrow> exact (del k v m) (f(v := None))"
  by (auto simp: exact_def members_del)

lemma exact_move: "exact m f \<Longrightarrow> f v = Some k \<Longrightarrow> exact (add j v (del k v m)) (f(v \<mapsto> j))"
  by (auto simp: exact_def members_add members_del)

lemma exact_clear: "exact m f \<Longrightarrow> k \<notin> ran f \<Longrightarrow> exact (clear k m) f"
  by (auto simp: exact_def members_clear ran_def)

lemma exact_same: "exact m f \<Longrightarrow> (\<And>v. g v = f v) \<Longrightarrow> exact m g"
  by (simp add: exact_def)

end

lemma mi_get_add: "mi_get (mi_add k v m) j = (if j = k then bset_insert v (mi_get m k) else mi_get m j)"
  by (auto simp: mi_get_def mi_add_def bmap_get_entry split: option.splits)

lemma mi_get_del: "mi_get (mi_del k v m) j = (if j = k then bset_remove v (mi_get m k) else mi_get m j)"
  by (auto simp: mi_get_def mi_del_def bmap_get_modify bset_remove_def split: option.splits)

lemma mi_get_clear: "mi_get (bmap_remove k m) j = (if j = k then [] else mi_get m j)"
  by (simp add: mi_get_def)

interpretation mi: multi_index "\<lambda>m k. set (mi_get m k)" mi_add mi_del bmap_remove mi_ok
proof (unfold_locales, goal_cases)
  case (1 k v m j)
  then show ?case by (simp add: mi_get_add)
next
  case (2 k v m j)
  then show ?case by (simp add: mi_get_del)
next
  case (3 k m j)
  then show ?case by (simp add: mi_get_clear)
next
  case (4 m k v)
  then show ?case
    by (auto simp: mi_ok_def mi_add_def bmap_get_entry split: option.splits)
next
  case (5 m k v)
  then show ?case
    by (auto simp: mi_ok_def mi_del_def bmap_get_modify split: if_splits)
next
  case (6 m k)
  then show ?case by (auto simp: mi_ok_def)
qed

abbreviation mi_exact :: "('k::linorder, 'v::linorder bset) bmap \<Rightarrow> ('v \<rightharpoonup> 'k) \<Rightarrow> bool" where
  "mi_exact m f \<equiv> multi_index.exact (\<lambda>m k. set (mi_get m k)) m f"

lemma mi_exact_iff: "mi_exact m f \<longleftrightarrow> (\<forall>k v. v \<in> set (mi_get m k) \<longleftrightarrow> f v = Some k)"
  unfolding mi.exact_def by blast

lemma mi_exact_set: "mi_exact m f \<Longrightarrow> set (mi_get m k) = {v. f v = Some k}"
  by (simp add: mi.exact_def)

lemma mi_ok_Nil [simp]: "mi_ok []"
  by (simp add: mi_ok_def)

lemma mi_get_Nil [simp]: "mi_get [] k = []"
  by (simp add: mi_get_def)

lemma mi_ok_get: "mi_ok m \<Longrightarrow> bset_ok (mi_get m k)"
  by (auto simp: mi_ok_def mi_get_def split: option.splits)

lemma mi_ok_distinct: "mi_ok m \<Longrightarrow> distinct (mi_get m k)"
  by (simp add: mi_ok_get bset_ok_distinct)

text \<open>
  The unique indexes (\<open>dir_name_idx\<close>, \<open>dir_for_inode_idx\<close>) are maps: exactness says they are
  the inverse of an injective partial function.
\<close>

definition map_exact :: "('k, 'v) bmap \<Rightarrow> ('v \<rightharpoonup> 'k) \<Rightarrow> bool" where
  "map_exact m f \<longleftrightarrow> (\<forall>k v. f v = Some k \<longleftrightarrow> bmap_get m k = Some v)"

lemma map_exactD: "map_exact m f \<Longrightarrow> bmap_get m k = Some v \<longleftrightarrow> f v = Some k"
  by (simp add: map_exact_def)

lemma map_exact_inj: "map_exact m f \<Longrightarrow> f v = Some k \<Longrightarrow> f w = Some k \<Longrightarrow> v = w"
  by (metis map_exactD option.inject)

lemma map_exact_insert:
  "map_exact m f \<Longrightarrow> f v = None \<Longrightarrow> bmap_get m k = None \<Longrightarrow>
     map_exact (bmap_insert k v m) (f(v \<mapsto> k))"
  unfolding map_exact_def by auto (metis option.distinct(1) option.inject)+

lemma map_exact_remove:
  "map_exact m f \<Longrightarrow> f v = Some k \<Longrightarrow> map_exact (bmap_remove k m) (f(v := None))"
  unfolding map_exact_def by auto (metis option.distinct(1) option.inject)+

lemma map_exact_rename:
  "map_exact m f \<Longrightarrow> f v = Some k \<Longrightarrow> bmap_get m j = None \<Longrightarrow>
     map_exact (bmap_insert j v (bmap_remove k m)) (f(v \<mapsto> j))"
  unfolding map_exact_def by auto (metis option.distinct(1) option.inject)+

end
