(* ===== verification/Sotfs_Provenance.thy ===== *)
theory Sotfs_Provenance
  imports Sotfs_Types
begin

text \<open>
  The provenance log of \<open>sotfs-graph/src/provenance.rs\<close>: the append-only list of entries and
  the six queries over it.
\<close>

datatype prov_op =
    PCreate | PMkdir | PUnlink | PRmdir | PLink | PRename | PWrite | PChmod | PChown
  | PSetxattr | PRemovexattr | PSymlink | PSetAcl | PCapDerive | PCapRevoke | PRead | PStat
  | POpen | PTruncate

record provenance_entry =
  pe_timestamp :: u64
  pe_op :: prov_op
  pe_inode_id :: inode_id
  pe_cap_id :: "cap_id option"
  pe_domain_id :: u64
  pe_detail :: string

type_synonym provenance_log = "provenance_entry list"

definition prov_new :: provenance_log where
  "prov_new = []"

definition prov_record ::
    "u64 \<Rightarrow> prov_op \<Rightarrow> inode_id \<Rightarrow> cap_id option \<Rightarrow> u64 \<Rightarrow> string \<Rightarrow> provenance_log \<Rightarrow> provenance_log"
  where
  "prov_record t op ino cap dom_id detail entries =
     entries @ [\<lparr>pe_timestamp = t, pe_op = op, pe_inode_id = ino, pe_cap_id = cap,
                 pe_domain_id = dom_id, pe_detail = detail\<rparr>]"

definition prov_push :: "provenance_entry \<Rightarrow> provenance_log \<Rightarrow> provenance_log" where
  "prov_push e entries = entries @ [e]"

definition prov_drain :: "provenance_log \<Rightarrow> provenance_entry list \<times> provenance_log" where
  "prov_drain entries = (entries, [])"

section \<open>Queries\<close>

definition in_window :: "u64 \<Rightarrow> u64 \<Rightarrow> provenance_entry \<Rightarrow> bool" where
  "in_window t_start t_end e \<longleftrightarrow> pe_timestamp e \<ge> t_start \<and> pe_timestamp e \<le> t_end"

fun caps_for_inode_in_window ::
    "provenance_log \<Rightarrow> inode_id \<Rightarrow> u64 \<Rightarrow> u64 \<Rightarrow> (cap_id \<times> prov_op \<times> u64) list" where
  "caps_for_inode_in_window [] ino t_start t_end = []"
| "caps_for_inode_in_window (e # es) ino t_start t_end =
     (if pe_inode_id e = ino \<and> in_window t_start t_end e
      then (case pe_cap_id e of
              Some cid \<Rightarrow> [(cid, pe_op e, pe_timestamp e)]
            | None \<Rightarrow> [])
      else []) @ caps_for_inode_in_window es ino t_start t_end"

fun inodes_touched_by_cap ::
    "provenance_log \<Rightarrow> cap_id \<Rightarrow> u64 \<Rightarrow> u64 \<Rightarrow> (inode_id \<times> prov_op \<times> u64) list" where
  "inodes_touched_by_cap [] cap t_start t_end = []"
| "inodes_touched_by_cap (e # es) cap t_start t_end =
     (if in_window t_start t_end e \<and> pe_cap_id e = Some cap
      then [(pe_inode_id e, pe_op e, pe_timestamp e)]
      else []) @ inodes_touched_by_cap es cap t_start t_end"

definition provenance_chain :: "provenance_log \<Rightarrow> inode_id \<Rightarrow> provenance_entry list" where
  "provenance_chain entries ino = filter (\<lambda>e. pe_inode_id e = ino) entries"

definition ops_by_domain :: "provenance_log \<Rightarrow> u64 \<Rightarrow> u64 \<Rightarrow> u64 \<Rightarrow> provenance_entry list" where
  "ops_by_domain entries dom_id t_start t_end =
     filter (\<lambda>e. pe_domain_id e = dom_id \<and> in_window t_start t_end e) entries"

text \<open>
  The window loop of \<open>burst_detect\<close>.  Its step is the caller's \<open>window_size\<close>, so it may not end:
  \<open>None\<close> is "does not return".
\<close>

partial_function (option) burst_loop ::
    "u64 list \<Rightarrow> u64 \<Rightarrow> u64 \<Rightarrow> u64 \<Rightarrow> (u64 \<times> nat) list \<Rightarrow> (u64 \<times> nat) list option" where
  "burst_loop relevant window_size t_max t windows =
     (if t \<le> t_max then
        burst_loop relevant window_size t_max (t + window_size)
          (let count = length (filter (\<lambda>ts. ts \<ge> t \<and> ts < t + window_size) relevant)
           in if count > 0 then windows @ [(t, count)] else windows)
      else Some windows)"

declare burst_loop.simps [code]

definition burst_detect :: "provenance_log \<Rightarrow> inode_id \<Rightarrow> u64 \<Rightarrow> (u64 \<times> nat) list option" where
  "burst_detect entries ino window_size =
     (let relevant = map pe_timestamp (filter (\<lambda>e. pe_inode_id e = ino) entries) in
      if relevant = [] then Some []
      else burst_loop relevant window_size (last relevant) (hd relevant) [])"

record prov_activity_summary =
  distinct_caps :: nat
  distinct_inodes :: nat
  total_ops :: nat
  sum_t_start :: u64
  sum_t_end :: u64

fun summary_loop ::
    "provenance_log \<Rightarrow> u64 \<Rightarrow> u64 \<Rightarrow> cap_id bset \<Rightarrow> inode_id bset \<Rightarrow> nat
       \<Rightarrow> cap_id bset \<times> inode_id bset \<times> nat" where
  "summary_loop [] t_start t_end caps inodes op_count = (caps, inodes, op_count)"
| "summary_loop (e # es) t_start t_end caps inodes op_count =
     (if in_window t_start t_end e
      then summary_loop es t_start t_end
             (case pe_cap_id e of Some cid \<Rightarrow> bset_insert cid caps | None \<Rightarrow> caps)
             (bset_insert (pe_inode_id e) inodes) (op_count + 1)
      else summary_loop es t_start t_end caps inodes op_count)"

definition activity_summary :: "provenance_log \<Rightarrow> u64 \<Rightarrow> u64 \<Rightarrow> prov_activity_summary" where
  "activity_summary entries t_start t_end =
     (case summary_loop entries t_start t_end [] [] 0 of
        (caps, inodes, op_count) \<Rightarrow>
          \<lparr>distinct_caps = length caps, distinct_inodes = length inodes, total_ops = op_count,
           sum_t_start = t_start, sum_t_end = t_end\<rparr>)"

end
