(* ===== verification/Sotfs_Graph.thy ===== *)
theory Sotfs_Graph
  imports Sotfs_Arena Sotfs_Index Sotfs_Provenance
begin

text \<open>
  The type graph of \<open>sotfs-graph/src/graph.rs\<close>: the state \<open>TypeGraph\<close>, its construction, the
  identifier allocators, the arena-backed accessors, the capability check, name lookup and path
  resolution.
\<close>

section \<open>State\<close>

definition LINK_MAX :: u32 where "LINK_MAX = 65535"
definition NODE_CAPACITY :: nat where "NODE_CAPACITY = 65536"
definition EDGE_CAPACITY :: nat where "EDGE_CAPACITY = 131072"

text \<open>A typed \<open>u64\<close> identifier becomes an arena slot by a truncating cast to \<open>u32\<close>.\<close>

definition id_to_arena :: "nat \<Rightarrow> arena_id" where
  "id_to_arena i = i mod 2 ^ 32"

record type_graph =
  inodes :: "inode arena"
  dirs :: "directory arena"
  caps :: "capability arena"
  transactions :: "transaction arena"
  versions :: "version arena"
  blocks :: "block arena"
  edges :: "edge arena"
  dir_contains :: "(dir_id, edge_id bset) bmap"
  inode_incoming_contains :: "(inode_id, edge_id bset) bmap"
  inode_points_to :: "(inode_id, edge_id bset) bmap"
  cap_grants :: "(cap_id, edge_id) bmap"
  cap_parent :: "(cap_id, cap_id) bmap"
  cap_children :: "(cap_id, cap_id bset) bmap"
  file_data :: "(inode_id, u8 list) bmap"
  xattrs :: "(xattr_id, xattr) bmap"
  inode_xattrs :: "(inode_id, xattr_id bset) bmap"
  next_xattr :: nat
  symlink_targets :: "(inode_id, string) bmap"
  dir_for_inode_idx :: "(inode_id, dir_id) bmap"
  dir_name_idx :: "(dir_id \<times> string, edge_id) bmap"
  acls :: "(inode_id, acl_entry list) bmap"
  quotas :: "(dir_id, quota) bmap"
  prov_log :: "provenance_log option"
  cap_ctx :: cap_context
  next_inode :: nat
  next_dir :: nat
  next_cap :: nat
  next_txn :: nat
  next_version :: nat
  next_block :: nat
  next_edge :: nat
  root_dir :: dir_id
  root_inode :: inode_id

section \<open>Identifier allocation\<close>

text \<open>The counters are \<open>u64\<close>; the increment wraps.\<close>

definition succ_u64 :: "nat \<Rightarrow> nat" where
  "succ_u64 n = (n + 1) mod 2 ^ 64"

definition alloc_inode_id :: "type_graph \<Rightarrow> inode_id \<times> type_graph" where
  "alloc_inode_id g = (next_inode g, g\<lparr>next_inode := succ_u64 (next_inode g)\<rparr>)"

definition alloc_dir_id :: "type_graph \<Rightarrow> dir_id \<times> type_graph" where
  "alloc_dir_id g = (next_dir g, g\<lparr>next_dir := succ_u64 (next_dir g)\<rparr>)"

definition alloc_xattr_id :: "type_graph \<Rightarrow> xattr_id \<times> type_graph" where
  "alloc_xattr_id g = (next_xattr g, g\<lparr>next_xattr := succ_u64 (next_xattr g)\<rparr>)"

definition alloc_cap_id :: "type_graph \<Rightarrow> cap_id \<times> type_graph" where
  "alloc_cap_id g = (next_cap g, g\<lparr>next_cap := succ_u64 (next_cap g)\<rparr>)"

definition alloc_block_id :: "type_graph \<Rightarrow> block_id \<times> type_graph" where
  "alloc_block_id g = (next_block g, g\<lparr>next_block := succ_u64 (next_block g)\<rparr>)"

definition alloc_edge_id :: "type_graph \<Rightarrow> edge_id \<times> type_graph" where
  "alloc_edge_id g = (next_edge g, g\<lparr>next_edge := succ_u64 (next_edge g)\<rparr>)"

section \<open>Arena-backed accessors\<close>

text \<open>
  The inserters drop the \<open>bool\<close> that \<open>insert_at\<close> returns: an identifier beyond the arena's
  capacity, or an occupied slot, is silently ignored.
\<close>

definition insert_inode :: "inode_id \<Rightarrow> inode \<Rightarrow> type_graph \<Rightarrow> type_graph" where
  "insert_inode i n g = g\<lparr>inodes := snd (ar_insert_at (id_to_arena i) n (inodes g))\<rparr>"

definition insert_dir :: "dir_id \<Rightarrow> directory \<Rightarrow> type_graph \<Rightarrow> type_graph" where
  "insert_dir d dir g =
     g\<lparr>dirs := snd (ar_insert_at (id_to_arena d) dir (dirs g)),
       dir_for_inode_idx := bmap_insert (dir_inode_id dir) d (dir_for_inode_idx g)\<rparr>"

definition insert_cap :: "cap_id \<Rightarrow> capability \<Rightarrow> type_graph \<Rightarrow> type_graph" where
  "insert_cap c cap g = g\<lparr>caps := snd (ar_insert_at (id_to_arena c) cap (caps g))\<rparr>"

definition insert_block :: "block_id \<Rightarrow> block \<Rightarrow> type_graph \<Rightarrow> type_graph" where
  "insert_block b blk g = g\<lparr>blocks := snd (ar_insert_at (id_to_arena b) blk (blocks g))\<rparr>"

definition insert_edge :: "edge_id \<Rightarrow> edge \<Rightarrow> type_graph \<Rightarrow> type_graph" where
  "insert_edge i e g =
     (let g = (case e of
                 Contains _ src _ name \<Rightarrow>
                   g\<lparr>dir_name_idx := bmap_insert (src, name) i (dir_name_idx g)\<rparr>
               | _ \<Rightarrow> g)
      in g\<lparr>edges := snd (ar_insert_at (id_to_arena i) e (edges g))\<rparr>)"

definition get_inode :: "type_graph \<Rightarrow> inode_id \<Rightarrow> inode option" where
  "get_inode g i = ar_get (inodes g) (id_to_arena i)"

definition get_inode_mut :: "inode_id \<Rightarrow> (inode \<Rightarrow> inode) \<Rightarrow> type_graph \<Rightarrow> type_graph" where
  "get_inode_mut i f g = g\<lparr>inodes := ar_get_mut (id_to_arena i) f (inodes g)\<rparr>"

definition get_dir :: "type_graph \<Rightarrow> dir_id \<Rightarrow> directory option" where
  "get_dir g d = ar_get (dirs g) (id_to_arena d)"

definition get_cap :: "type_graph \<Rightarrow> cap_id \<Rightarrow> capability option" where
  "get_cap g c = ar_get (caps g) (id_to_arena c)"

definition get_block :: "type_graph \<Rightarrow> block_id \<Rightarrow> block option" where
  "get_block g b = ar_get (blocks g) (id_to_arena b)"

definition get_block_mut :: "block_id \<Rightarrow> (block \<Rightarrow> block) \<Rightarrow> type_graph \<Rightarrow> type_graph" where
  "get_block_mut b f g = g\<lparr>blocks := ar_get_mut (id_to_arena b) f (blocks g)\<rparr>"

definition get_edge :: "type_graph \<Rightarrow> edge_id \<Rightarrow> edge option" where
  "get_edge g e = ar_get (edges g) (id_to_arena e)"

definition get_edge_mut :: "edge_id \<Rightarrow> (edge \<Rightarrow> edge) \<Rightarrow> type_graph \<Rightarrow> type_graph" where
  "get_edge_mut e f g = g\<lparr>edges := ar_get_mut (id_to_arena e) f (edges g)\<rparr>"

definition contains_inode :: "type_graph \<Rightarrow> inode_id \<Rightarrow> bool" where
  "contains_inode g i = ar_contains (inodes g) (id_to_arena i)"

definition contains_dir :: "type_graph \<Rightarrow> dir_id \<Rightarrow> bool" where
  "contains_dir g d = ar_contains (dirs g) (id_to_arena d)"

definition contains_cap :: "type_graph \<Rightarrow> cap_id \<Rightarrow> bool" where
  "contains_cap g c = ar_contains (caps g) (id_to_arena c)"

definition contains_txn :: "type_graph \<Rightarrow> txn_id \<Rightarrow> bool" where
  "contains_txn g t = ar_contains (transactions g) (id_to_arena t)"

definition contains_version :: "type_graph \<Rightarrow> version_id \<Rightarrow> bool" where
  "contains_version g v = ar_contains (versions g) (id_to_arena v)"

definition contains_block :: "type_graph \<Rightarrow> block_id \<Rightarrow> bool" where
  "contains_block g b = ar_contains (blocks g) (id_to_arena b)"

definition remove_inode :: "inode_id \<Rightarrow> type_graph \<Rightarrow> inode option \<times> type_graph" where
  "remove_inode i g =
     (case ar_remove (id_to_arena i) (inodes g) of (r, a) \<Rightarrow> (r, g\<lparr>inodes := a\<rparr>))"

definition remove_dir :: "dir_id \<Rightarrow> type_graph \<Rightarrow> directory option \<times> type_graph" where
  "remove_dir d g =
     (case ar_remove (id_to_arena d) (dirs g) of
        (removed, a) \<Rightarrow>
          (let g = g\<lparr>dirs := a\<rparr> in
           (removed,
            case removed of
              Some dir \<Rightarrow>
                g\<lparr>dir_for_inode_idx := bmap_remove (dir_inode_id dir) (dir_for_inode_idx g)\<rparr>
            | None \<Rightarrow> g)))"

definition remove_block :: "block_id \<Rightarrow> type_graph \<Rightarrow> block option \<times> type_graph" where
  "remove_block b g =
     (case ar_remove (id_to_arena b) (blocks g) of (r, a) \<Rightarrow> (r, g\<lparr>blocks := a\<rparr>))"

definition remove_edge :: "edge_id \<Rightarrow> type_graph \<Rightarrow> edge option \<times> type_graph" where
  "remove_edge i g =
     (case ar_remove (id_to_arena i) (edges g) of
        (None, a) \<Rightarrow> (None, g\<lparr>edges := a\<rparr>)
      | (Some e, a) \<Rightarrow>
          (let g = g\<lparr>edges := a\<rparr> in
           (Some e,
            case e of
              Contains _ src _ name \<Rightarrow>
                g\<lparr>dir_name_idx := bmap_remove (src, name) (dir_name_idx g)\<rparr>
            | _ \<Rightarrow> g)))"

text \<open>The names and targets of a \<open>Contains\<close> edge, rewritten in place.\<close>

fun set_name :: "string \<Rightarrow> edge \<Rightarrow> edge" where
  "set_name n (Contains i s t _) = Contains i s t n"
| "set_name n e = e"

fun set_contains_tgt :: "inode_id \<Rightarrow> edge \<Rightarrow> edge" where
  "set_contains_tgt t (Contains i s _ n) = Contains i s t n"
| "set_contains_tgt t e = e"

definition rename_contains_edge :: "edge_id \<Rightarrow> string \<Rightarrow> type_graph \<Rightarrow> bool \<times> type_graph" where
  "rename_contains_edge eid new_name g =
     (case get_edge g eid of
        Some (Contains _ src _ old_name) \<Rightarrow>
          (if old_name = new_name then (True, g)
           else
             (let g = g\<lparr>dir_name_idx := bmap_remove (src, old_name) (dir_name_idx g)\<rparr>;
                  g = g\<lparr>dir_name_idx := bmap_insert (src, new_name) eid (dir_name_idx g)\<rparr>
              in (True, get_edge_mut eid (set_name new_name) g)))
      | _ \<Rightarrow> (False, g))"

section \<open>Construction\<close>

definition empty_graph :: type_graph where
  "empty_graph =
     \<lparr>inodes = ar_new NODE_CAPACITY, dirs = ar_new NODE_CAPACITY, caps = ar_new NODE_CAPACITY,
      transactions = ar_new NODE_CAPACITY, versions = ar_new NODE_CAPACITY,
      blocks = ar_new NODE_CAPACITY, edges = ar_new EDGE_CAPACITY,
      dir_contains = [], inode_incoming_contains = [], inode_points_to = [], cap_grants = [],
      cap_parent = [], cap_children = [], file_data = [], xattrs = [], inode_xattrs = [],
      next_xattr = 1, symlink_targets = [], dir_for_inode_idx = [], dir_name_idx = [],
      acls = [], quotas = [], prov_log = None, cap_ctx = cap_context_anonymous,
      next_inode = 2, next_dir = 2, next_cap = 1, next_txn = 1, next_version = 1,
      next_block = 1, next_edge = 2, root_dir = 1, root_inode = 1\<rparr>"

definition new_boxed :: "clock \<Rightarrow> type_graph" where
  "new_boxed clk =
     (let i = 1; d = 1; dot_edge_id = 1;
          root_i = new_dir (clk 0) i DIR_DEFAULT 0 0;
          root_d = \<lparr>dir_id = d, dir_inode_id = i\<rparr>;
          dot_edge = Contains dot_edge_id d i ''.'';
          g = empty_graph;
          ri = root_i\<lparr>link_count := 1\<rparr>;
          g = g\<lparr>inodes := snd (ar_insert_at (id_to_arena i) ri (inodes g))\<rparr>;
          g = g\<lparr>dirs := snd (ar_insert_at (id_to_arena d) root_d (dirs g))\<rparr>;
          g = g\<lparr>dir_for_inode_idx := bmap_insert i d (dir_for_inode_idx g)\<rparr>;
          g = g\<lparr>edges := snd (ar_insert_at (id_to_arena dot_edge_id) dot_edge (edges g))\<rparr>;
          g = g\<lparr>dir_contains := mi_add d dot_edge_id (dir_contains g)\<rparr>;
          g = g\<lparr>inode_incoming_contains := mi_add i dot_edge_id (inode_incoming_contains g)\<rparr>
      in g\<lparr>dir_name_idx := bmap_insert (d, ''.'') dot_edge_id (dir_name_idx g)\<rparr>)"

section \<open>Consistency of the name index\<close>

text \<open>\<open>None\<close> is \<open>Ok(())\<close>, \<open>Some v\<close> the first inconsistency found.\<close>

fun idx_forward_edges :: "type_graph \<Rightarrow> dir_id \<Rightarrow> edge_id list \<Rightarrow> violation option" where
  "idx_forward_edges g d [] = None"
| "idx_forward_edges g d (eid # eids) =
     (case get_edge g eid of
        Some (Contains _ src _ name) \<Rightarrow>
          (if src \<noteq> d then Some (IndexWrongSrc eid d src)
           else (case bmap_get (dir_name_idx g) (d, name) of
                   Some got \<Rightarrow>
                     (if got = eid then idx_forward_edges g d eids
                      else Some (IndexMismatch d name got eid))
                 | None \<Rightarrow> Some (IndexMissing d name eid)))
      | _ \<Rightarrow> idx_forward_edges g d eids)"

fun idx_forward :: "type_graph \<Rightarrow> (dir_id \<times> edge_id bset) list \<Rightarrow> violation option" where
  "idx_forward g [] = None"
| "idx_forward g ((d, eids) # rest) =
     (case idx_forward_edges g d eids of
        Some v \<Rightarrow> Some v
      | None \<Rightarrow> idx_forward g rest)"

fun idx_reverse :: "type_graph \<Rightarrow> ((dir_id \<times> string) \<times> edge_id) list \<Rightarrow> violation option" where
  "idx_reverse g [] = None"
| "idx_reverse g (((d, name), eid) # rest) =
     (case get_edge g eid of
        Some (Contains _ src _ n) \<Rightarrow>
          (if src = d \<and> n = name then idx_reverse g rest
           else Some (IndexStale d name eid))
      | Some _ \<Rightarrow> Some (IndexNonContains eid)
      | None \<Rightarrow> Some (IndexMissingEdge eid))"

definition check_dir_name_idx_consistency :: "type_graph \<Rightarrow> violation option" where
  "check_dir_name_idx_consistency g =
     (case idx_forward g (dir_contains g) of
        Some v \<Rightarrow> Some v
      | None \<Rightarrow> idx_reverse g (dir_name_idx g))"

fun idx_entries_of_dir :: "type_graph \<Rightarrow> dir_id \<Rightarrow> edge_id list \<Rightarrow> ((dir_id \<times> string) \<times> edge_id) list" where
  "idx_entries_of_dir g d [] = []"
| "idx_entries_of_dir g d (eid # eids) =
     (case get_edge g eid of
        Some (Contains _ _ _ name) \<Rightarrow> [((d, name), eid)]
      | _ \<Rightarrow> []) @ idx_entries_of_dir g d eids"

definition rebuild_dir_name_idx :: "type_graph \<Rightarrow> type_graph" where
  "rebuild_dir_name_idx g =
     (let g = g\<lparr>dir_name_idx := []\<rparr>;
          entries = concat (map (\<lambda>(d, eids). idx_entries_of_dir g d eids) (dir_contains g))
      in g\<lparr>dir_name_idx := fold (\<lambda>(k, v) m. bmap_insert k v m) entries (dir_name_idx g)\<rparr>)"

section \<open>Provenance and capability context\<close>

definition enable_prov_log :: "type_graph \<Rightarrow> type_graph" where
  "enable_prov_log g = g\<lparr>prov_log := Some prov_new\<rparr>"

definition disable_prov_log :: "type_graph \<Rightarrow> type_graph" where
  "disable_prov_log g = g\<lparr>prov_log := None\<rparr>"

definition take_prov_log :: "type_graph \<Rightarrow> provenance_log option \<times> type_graph" where
  "take_prov_log g = (prov_log g, g\<lparr>prov_log := None\<rparr>)"

definition record_prov :: "timestamp \<Rightarrow> prov_op \<Rightarrow> inode_id \<Rightarrow> string \<Rightarrow> type_graph \<Rightarrow> type_graph" where
  "record_prov now op i detail g =
     (let ctx = cap_ctx g in
      case prov_log g of
        Some log \<Rightarrow>
          g\<lparr>prov_log := Some (prov_record now op i (ctx_cap_id ctx) (ctx_domain_id ctx) detail log)\<rparr>
      | None \<Rightarrow> g)"

definition record_prov_full ::
    "timestamp \<Rightarrow> prov_op \<Rightarrow> inode_id \<Rightarrow> cap_id option \<Rightarrow> u64 \<Rightarrow> string \<Rightarrow> type_graph \<Rightarrow> type_graph" where
  "record_prov_full now op i cap dom_id detail g =
     (case prov_log g of
        Some log \<Rightarrow> g\<lparr>prov_log := Some (prov_record now op i cap dom_id detail log)\<rparr>
      | None \<Rightarrow> g)"

definition set_cap_ctx :: "cap_context \<Rightarrow> type_graph \<Rightarrow> type_graph" where
  "set_cap_ctx ctx g = g\<lparr>cap_ctx := ctx\<rparr>"

definition clear_cap_ctx :: "type_graph \<Rightarrow> type_graph" where
  "clear_cap_ctx g = g\<lparr>cap_ctx := cap_context_anonymous\<rparr>"

definition require_cap :: "type_graph \<Rightarrow> u8 \<Rightarrow> unit res" where
  "require_cap g needed =
     (case ctx_cap_id (cap_ctx g) of
        None \<Rightarrow> Ok ()
      | Some cid \<Rightarrow>
          (case get_cap g cid of
             None \<Rightarrow> Err (CapNotFound cid)
           | Some cap \<Rightarrow>
               (if \<not> rights_contains (cap_rights cap) needed
                then Err (CapInsufficientRights needed (cap_rights cap))
                else Ok ())))"

section \<open>Name lookup\<close>

fun scan_name :: "type_graph \<Rightarrow> string \<Rightarrow> edge_id list \<Rightarrow> edge option" where
  "scan_name g name [] = None"
| "scan_name g name (eid # eids) =
     (case get_edge g eid of
        Some (Contains i s t n) \<Rightarrow>
          (if n = name then get_edge g eid else scan_name g name eids)
      | _ \<Rightarrow> scan_name g name eids)"

definition lookup_name :: "type_graph \<Rightarrow> dir_id \<Rightarrow> string \<Rightarrow> edge option" where
  "lookup_name g d name =
     (if dir_name_idx g \<noteq> []
      then (case bmap_get (dir_name_idx g) (d, name) of
              None \<Rightarrow> None
            | Some eid \<Rightarrow> get_edge g eid)
      else (case bmap_get (dir_contains g) d of
              None \<Rightarrow> None
            | Some eids \<Rightarrow> scan_name g name eids))"

definition resolve_name :: "type_graph \<Rightarrow> dir_id \<Rightarrow> string \<Rightarrow> inode_id option" where
  "resolve_name g d name =
     (case lookup_name g d name of
        Some (Contains _ _ tgt _) \<Rightarrow> Some tgt
      | _ \<Rightarrow> None)"

fun list_entries :: "type_graph \<Rightarrow> edge_id list \<Rightarrow> (string \<times> inode_id) list" where
  "list_entries g [] = []"
| "list_entries g (eid # eids) =
     (case get_edge g eid of
        Some (Contains _ _ tgt name) \<Rightarrow> [(name, tgt)]
      | _ \<Rightarrow> []) @ list_entries g eids"

definition list_dir :: "type_graph \<Rightarrow> dir_id \<Rightarrow> (string \<times> inode_id) list" where
  "list_dir g d =
     (case bmap_get (dir_contains g) d of
        Some eids \<Rightarrow> list_entries g eids
      | None \<Rightarrow> [])"

definition dir_for_inode :: "type_graph \<Rightarrow> inode_id \<Rightarrow> dir_id option" where
  "dir_for_inode g i = bmap_get (dir_for_inode_idx g) i"

definition parent_dir :: "type_graph \<Rightarrow> dir_id \<Rightarrow> dir_id option" where
  "parent_dir g d =
     (case resolve_name g d ''..'' of
        None \<Rightarrow> None
      | Some parent_inode \<Rightarrow> dir_for_inode g parent_inode)"

section \<open>Path resolution\<close>

text \<open>\<open>str::split\<close> on a character: at least one piece, empty pieces kept.\<close>

fun split_on :: "char \<Rightarrow> string \<Rightarrow> string list" where
  "split_on c [] = [[]]"
| "split_on c (x # xs) =
     (if x = c then [] # split_on c xs
      else (case split_on c xs of
              w # ws \<Rightarrow> (x # w) # ws
            | [] \<Rightarrow> [[x]]))"

fun resolve_components ::
    "type_graph \<Rightarrow> string list \<Rightarrow> dir_id \<Rightarrow> inode_id \<Rightarrow> (dir_id \<times> inode_id) res" where
  "resolve_components g [] current_dir current_inode = Ok (current_dir, current_inode)"
| "resolve_components g (c # cs) current_dir current_inode =
     (if c = ''..'' then
        (case resolve_name g current_dir ''..'' of
           Some parent_inode \<Rightarrow>
             (case dir_for_inode g parent_inode of
                None \<Rightarrow> Err (NotADirectory parent_inode)
              | Some d \<Rightarrow> resolve_components g cs d parent_inode)
         | None \<Rightarrow> resolve_components g cs current_dir current_inode)
      else
        (case resolve_name g current_dir c of
           None \<Rightarrow> Err (NameNotFound c)
         | Some target \<Rightarrow>
             (case get_inode g target of
                Some n \<Rightarrow>
                  (if vtype n = Directory then
                     (case dir_for_inode g target of
                        None \<Rightarrow> Err (NotADirectory target)
                      | Some d \<Rightarrow> resolve_components g cs d target)
                   else resolve_components g cs current_dir target)
              | None \<Rightarrow> resolve_components g cs current_dir target)))"

definition resolve_path :: "type_graph \<Rightarrow> string \<Rightarrow> (dir_id \<times> inode_id) res" where
  "resolve_path g path =
     (let components = filter (\<lambda>c. c \<noteq> [] \<and> c \<noteq> ''.'') (split_on CHR ''/'' path)
      in resolve_components g components (root_dir g) (root_inode g))"

definition trim_end_slashes :: "string \<Rightarrow> string" where
  "trim_end_slashes path = rev (dropWhile (\<lambda>c. c = CHR ''/'') (rev path))"

fun rfind :: "char \<Rightarrow> string \<Rightarrow> nat option" where
  "rfind c [] = None"
| "rfind c (x # xs) =
     (case rfind c xs of
        Some p \<Rightarrow> Some (p + 1)
      | None \<Rightarrow> (if x = c then Some 0 else None))"

definition resolve_parent :: "type_graph \<Rightarrow> string \<Rightarrow> (dir_id \<times> string) res" where
  "resolve_parent g path0 =
     (let path = trim_end_slashes path0;
          (parent_path, name) =
            (case rfind CHR ''/'' path of
               Some pos \<Rightarrow> ((if pos = 0 then ''/'' else take pos path), drop (pos + 1) path)
             | None \<Rightarrow> (''/'', path))
      in case resolve_path g parent_path of
           Ok (pd, _) \<Rightarrow> Ok (pd, name)
         | Err e \<Rightarrow> Err e
         | Panic \<Rightarrow> Panic
         | Diverge \<Rightarrow> Diverge)"

end
