(* ===== verification/Sotfs_Cycles.thy ===== *)
theory Sotfs_Cycles
  imports Sotfs_Graph
begin

text \<open>
  The two depth-first searches over the directory tree in \<open>sotfs-graph/src/graph.rs\<close>:
  \<open>is_ancestor\<close>, which guards a cross-directory rename, and \<open>has_cycle_from\<close>, which the
  invariant checker uses.  The searches recurse through a loop over edges and thread a visited
  set, so they take fuel; \<open>dfs_fuel\<close> is proved to be enough on every graph, well-formed or not.
\<close>

section \<open>Searches\<close>

text \<open>
  The nested tests of the loop bodies: the edge is a \<open>Contains\<close> edge with a user name, its
  target is a directory inode, and that inode has a directory node.
\<close>

definition child_dir_of :: "type_graph \<Rightarrow> edge_id \<Rightarrow> dir_id option" where
  "child_dir_of g eid =
     (case get_edge g eid of
        Some (Contains _ _ tgt name) \<Rightarrow>
          (if name = ''.'' \<or> name = ''..'' then None
           else (case get_inode g tgt of
                   Some n \<Rightarrow> (if vtype n = Directory then dir_for_inode g tgt else None)
                 | None \<Rightarrow> None))
      | _ \<Rightarrow> None)"

fun is_descendant_of ::
    "nat \<Rightarrow> type_graph \<Rightarrow> dir_id \<Rightarrow> dir_id \<Rightarrow> dir_id bset \<Rightarrow> (bool \<times> dir_id bset) option"
  and descend_edges ::
    "nat \<Rightarrow> type_graph \<Rightarrow> edge_id list \<Rightarrow> dir_id \<Rightarrow> dir_id bset \<Rightarrow> (bool \<times> dir_id bset) option"
  where
  "is_descendant_of 0 g current target visited = None"
| "is_descendant_of (Suc n) g current target visited =
     (if current \<in> set visited then Some (False, visited)
      else descend_edges n g (mi_get (dir_contains g) current) target (bset_insert current visited))"
| "descend_edges n g [] target visited = Some (False, visited)"
| "descend_edges n g (eid # eids) target visited =
     (case child_dir_of g eid of
        None \<Rightarrow> descend_edges n g eids target visited
      | Some child_dir \<Rightarrow>
          (if child_dir = target then Some (True, visited)
           else (case is_descendant_of n g child_dir target visited of
                   None \<Rightarrow> None
                 | Some (r, visited') \<Rightarrow>
                     (if r then Some (True, visited')
                      else descend_edges n g eids target visited'))))"

fun has_cycle_from ::
    "nat \<Rightarrow> type_graph \<Rightarrow> dir_id \<Rightarrow> dir_id bset \<Rightarrow> (bool \<times> dir_id bset) option"
  and cycle_edges ::
    "nat \<Rightarrow> type_graph \<Rightarrow> edge_id list \<Rightarrow> dir_id bset \<Rightarrow> (bool \<times> dir_id bset) option"
  where
  "has_cycle_from 0 g start visited = None"
| "has_cycle_from (Suc n) g start visited =
     (if start \<in> set visited then Some (True, visited)
      else (case cycle_edges n g (mi_get (dir_contains g) start) (bset_insert start visited) of
              None \<Rightarrow> None
            | Some (r, visited') \<Rightarrow>
                (if r then Some (True, visited') else Some (False, bset_remove start visited'))))"
| "cycle_edges n g [] visited = Some (False, visited)"
| "cycle_edges n g (eid # eids) visited =
     (case child_dir_of g eid of
        None \<Rightarrow> cycle_edges n g eids visited
      | Some child_dir \<Rightarrow>
          (case has_cycle_from n g child_dir visited of
             None \<Rightarrow> None
           | Some (r, visited') \<Rightarrow>
               (if r then Some (True, visited') else cycle_edges n g eids visited')))"

definition dfs_fuel :: "type_graph \<Rightarrow> nat" where
  "dfs_fuel g = Suc (Suc (length (dir_contains g)))"

definition is_ancestor :: "type_graph \<Rightarrow> dir_id \<Rightarrow> dir_id \<Rightarrow> bool option" where
  "is_ancestor g ancestor_dir descendant_dir =
     (if ancestor_dir = descendant_dir then Some True
      else map_option fst (is_descendant_of (dfs_fuel g) g ancestor_dir descendant_dir []))"

section \<open>The directory tree\<close>

text \<open>\<open>child_rel\<close> relates a directory to those its user-named edges lead to.\<close>

definition child_rel :: "type_graph \<Rightarrow> (dir_id \<times> dir_id) set" where
  "child_rel g = {(p, c). \<exists>e \<in> set (mi_get (dir_contains g) p). child_dir_of g e = Some c}"

definition children_via :: "type_graph \<Rightarrow> edge_id list \<Rightarrow> dir_id set" where
  "children_via g es = {c. \<exists>e \<in> set es. child_dir_of g e = Some c}"

lemma children_via_simps [simp]:
  "children_via g [] = {}"
  "children_via g (e # es) =
     (case child_dir_of g e of None \<Rightarrow> {} | Some c \<Rightarrow> {c}) \<union> children_via g es"
  by (auto simp: children_via_def split: option.splits)

lemma children_via_rel: "children_via g (mi_get (dir_contains g) p) = child_rel g `` {p}"
  by (auto simp: children_via_def child_rel_def)

section \<open>The fuel is enough\<close>

abbreviation dir_keys :: "type_graph \<Rightarrow> dir_id set" where
  "dir_keys g \<equiv> fst ` set (dir_contains g)"

lemma no_key_no_edges: "d \<notin> dir_keys g \<Longrightarrow> mi_get (dir_contains g) d = []"
  by (simp add: mi_get_def map_of_eq_None_iff [THEN iffD2])

lemma card_keys_diff:
  "d \<in> dir_keys g \<Longrightarrow> d \<notin> V \<Longrightarrow> insert d V \<subseteq> W \<Longrightarrow> card (dir_keys g - W) < card (dir_keys g - V)"
  by (rule psubset_card_mono) auto

lemma descend_visited_mono:
  "is_descendant_of n g c t V = Some (r, V') \<Longrightarrow> set V \<subseteq> set V'"
  "descend_edges n g es t V = Some (r, V') \<Longrightarrow> set V \<subseteq> set V'"
proof (induction n g c t V and n g es t V arbitrary: r V' and r V'
       rule: is_descendant_of_descend_edges.induct)
  case (2 n g c t V)
  then show ?case by (fastforce split: if_splits)
next
  case (4 n g e es t V)
  then show ?case by (fastforce split: option.splits if_splits prod.splits)
qed auto

lemma descend_enough_fuel:
  "card (dir_keys g - set V) < n \<Longrightarrow> is_descendant_of n g c t V \<noteq> None"
  "es = [] \<or> card (dir_keys g - set V) < n \<Longrightarrow> descend_edges n g es t V \<noteq> None"
proof (induction n g c t V and n g es t V rule: is_descendant_of_descend_edges.induct)
  case (2 n g c t V)
  have "mi_get (dir_contains g) c = [] \<or> card (dir_keys g - set (bset_insert c V)) < n"
    if "c \<notin> set V"
  proof (cases "c \<in> dir_keys g")
    case True
    then show ?thesis
      using card_keys_diff [of c g "set V" "insert c (set V)"] that 2(2) by simp
  next
    case False
    then show ?thesis by (simp add: no_key_no_edges)
  qed
  then show ?case using 2(1) by (cases "c \<in> set V") (simp_all del: not_None_eq)
next
  case (4 n g e es t V)
  have lt: "card (dir_keys g - set V) < n" using 4(4) by simp
  have later: "card (dir_keys g - set V') < n" if "is_descendant_of n g c t V = Some (r, V')" for c r V'
    using lt descend_visited_mono(1) [OF that]
    by (meson Diff_mono List.finite_set card_mono finite_Diff finite_imageI le_less_trans subset_refl)
  show ?case
  proof (cases "child_dir_of g e")
    case None
    then show ?thesis using 4(1) lt by simp
  next
    case (Some c)
    show ?thesis
    proof (cases "c = t")
      case True
      then show ?thesis using Some by simp
    next
      case False
      with 4(2) [OF Some] lt obtain r V' where d: "is_descendant_of n g c t V = Some (r, V')"
        by auto
      show ?thesis
        using 4(3) [OF Some False d] later [OF d] d Some False by (cases r) auto
    qed
  qed
qed auto

lemma cycle_visited:
  "has_cycle_from n g c V = Some (False, V') \<Longrightarrow> set V' = set V"
  "cycle_edges n g es V = Some (False, V') \<Longrightarrow> set V' = set V"
proof (induction n g c V and n g es V arbitrary: V' and V'
       rule: has_cycle_from_cycle_edges.induct)
  case (2 n g c V)
  then show ?case by (fastforce split: if_splits option.splits prod.splits)
next
  case (4 n g e es V)
  then show ?case by (fastforce split: option.splits if_splits prod.splits)
qed auto

lemma cycle_enough_fuel:
  "card (dir_keys g - set V) < n \<Longrightarrow> has_cycle_from n g c V \<noteq> None"
  "es = [] \<or> card (dir_keys g - set V) < n \<Longrightarrow> cycle_edges n g es V \<noteq> None"
proof (induction n g c V and n g es V rule: has_cycle_from_cycle_edges.induct)
  case (2 n g c V)
  have "mi_get (dir_contains g) c = [] \<or> card (dir_keys g - set (bset_insert c V)) < n"
    if "c \<notin> set V"
  proof (cases "c \<in> dir_keys g")
    case True
    then show ?thesis
      using card_keys_diff [of c g "set V" "insert c (set V)"] that 2(2) by simp
  next
    case False
    then show ?thesis by (simp add: no_key_no_edges)
  qed
  then show ?case using 2(1)
    by (cases "c \<in> set V") (auto simp del: not_None_eq split: option.split prod.split)
next
  case (4 n g e es V)
  have lt: "card (dir_keys g - set V) < n" using 4(4) by simp
  show ?case
  proof (cases "child_dir_of g e")
    case None
    then show ?thesis using 4(1) lt by simp
  next
    case (Some c)
    with 4(2) [OF Some] lt obtain r V' where d: "has_cycle_from n g c V = Some (r, V')"
      by auto
    show ?thesis
    proof (cases r)
      case True
      then show ?thesis using d Some by simp
    next
      case False
      then show ?thesis
        using 4(3) [OF Some d] cycle_visited(1) [of n g c V V'] lt d Some by simp
    qed
  qed
qed auto

lemma card_keys_fuel: "card (dir_keys g - V) < dfs_fuel g"
proof -
  have "card (dir_keys g - V) \<le> card (dir_keys g)"
    by (simp add: card_Diff_subset_Int)
  also have "\<dots> \<le> length (dir_contains g)"
    by (metis card_length length_map set_map)
  finally show ?thesis by (simp add: dfs_fuel_def)
qed

section \<open>Correctness of the descendant search\<close>

lemma descend_sound:
  "is_descendant_of n g c t V = Some (True, V') \<Longrightarrow> (c, t) \<in> (child_rel g)\<^sup>+"
  "descend_edges n g es t V = Some (True, V') \<Longrightarrow>
     \<exists>c \<in> children_via g es. (c, t) \<in> (child_rel g)\<^sup>*"
proof (induction n g c t V and n g es t V arbitrary: V' and V'
       rule: is_descendant_of_descend_edges.induct)
  case (2 n g c t V)
  then obtain d where "(c, d) \<in> child_rel g" "(d, t) \<in> (child_rel g)\<^sup>*"
    by (auto simp: children_via_rel split: if_splits)
  then show ?case by (rule rtrancl_into_trancl2)
next
  case (4 n g e es t V)
  then show ?case
    by (auto split: option.splits if_splits prod.splits dest!: trancl_into_rtrancl)
       (metis trancl_into_rtrancl)?
qed auto

text \<open>
  A failed search leaves behind a set of visited directories that contains the start, and every
  directory it added has all its children in the set and the target among none of them.
\<close>

lemma descend_complete:
  "is_descendant_of n g c t V = Some (False, V') \<Longrightarrow>
     c \<in> set V' \<and> (\<forall>x \<in> set V' - set V. child_rel g `` {x} \<subseteq> set V' \<and> t \<notin> child_rel g `` {x})"
  "descend_edges n g es t V = Some (False, V') \<Longrightarrow>
     children_via g es \<subseteq> set V' \<and> t \<notin> children_via g es \<and>
     (\<forall>x \<in> set V' - set V. child_rel g `` {x} \<subseteq> set V' \<and> t \<notin> child_rel g `` {x})"
proof (induction n g c t V and n g es t V arbitrary: V' and V'
       rule: is_descendant_of_descend_edges.induct)
  case (2 n g c t V)
  show ?case
  proof (cases "c \<in> set V")
    case True
    then show ?thesis using 2(2) by auto
  next
    case False
    then have d: "descend_edges n g (mi_get (dir_contains g) c) t (bset_insert c V) = Some (False, V')"
      using 2(2) by simp
    then show ?thesis
      using 2(1) [OF False d] descend_visited_mono(2) [OF d] by (auto simp: children_via_rel)
  qed
next
  case (4 n g e es t V)
  show ?case
  proof (cases "child_dir_of g e")
    case None
    then show ?thesis using 4(1) 4(4) by simp
  next
    case (Some c)
    with 4(4) obtain V1 where ct: "c \<noteq> t" and d1: "is_descendant_of n g c t V = Some (False, V1)"
      and d2: "descend_edges n g es t V1 = Some (False, V')"
      by (auto split: if_splits option.splits prod.splits)
    have sub: "set V1 \<subseteq> set V'" by (rule descend_visited_mono(2) [OF d2])
    have new: "c \<in> set V1"
      "\<forall>x \<in> set V1 - set V. child_rel g `` {x} \<subseteq> set V1 \<and> t \<notin> child_rel g `` {x}"
      using 4(2) [OF Some ct d1] by blast+
    have rest: "children_via g es \<subseteq> set V'" "t \<notin> children_via g es"
      "\<forall>x \<in> set V' - set V1. child_rel g `` {x} \<subseteq> set V' \<and> t \<notin> child_rel g `` {x}"
      using 4(3) [OF Some ct d1 refl _ d2] by simp_all
    have "child_rel g `` {x} \<subseteq> set V' \<and> t \<notin> child_rel g `` {x}" if "x \<in> set V' - set V" for x
      using that new(2) rest(3) sub by (cases "x \<in> set V1") blast+
    then show ?thesis
      using Some ct sub new(1) rest(1,2) by auto
  qed
qed auto

lemma closed_no_reach:
  assumes "\<forall>x \<in> S. r `` {x} \<subseteq> S \<and> t \<notin> r `` {x}" and "c \<in> S"
  shows "(c, t) \<notin> r\<^sup>+"
proof
  assume "(c, t) \<in> r\<^sup>+"
  then have "c \<in> S \<longrightarrow> False"
    by (induction rule: converse_trancl_induct) (use assms(1) in blast)+
  with assms(2) show False by simp
qed

lemma is_descendant_of_iff:
  "\<exists>V. is_descendant_of (dfs_fuel g) g c t [] = Some ((c, t) \<in> (child_rel g)\<^sup>+, V)"
proof -
  obtain r V where d: "is_descendant_of (dfs_fuel g) g c t [] = Some (r, V)"
    using descend_enough_fuel(1) [of g "[]" "dfs_fuel g" c t] card_keys_fuel [of g "{}"] by auto
  have "r \<longleftrightarrow> (c, t) \<in> (child_rel g)\<^sup>+"
    using d descend_sound(1) [of "dfs_fuel g" g c t "[]" V]
      descend_complete(1) [of "dfs_fuel g" g c t "[]" V] closed_no_reach [of "set V" "child_rel g" t c]
    by (cases r) auto
  then show ?thesis using d by auto
qed

section \<open>Correctness of the cycle search\<close>

lemma cycle_complete:
  "has_cycle_from n g c V = Some (False, V') \<Longrightarrow>
     \<forall>y. (c, y) \<in> (child_rel g)\<^sup>* \<longrightarrow> y \<notin> set V \<and> (y, y) \<notin> (child_rel g)\<^sup>+"
  "cycle_edges n g es V = Some (False, V') \<Longrightarrow>
     \<forall>c \<in> children_via g es. \<forall>y. (c, y) \<in> (child_rel g)\<^sup>* \<longrightarrow>
        y \<notin> set V \<and> (y, y) \<notin> (child_rel g)\<^sup>+"
proof (induction n g c V and n g es V arbitrary: V' and V'
       rule: has_cycle_from_cycle_edges.induct)
  case (2 n g c V)
  then obtain V1 where c: "c \<notin> set V"
    and d: "cycle_edges n g (mi_get (dir_contains g) c) (bset_insert c V) = Some (False, V1)"
    by (auto split: if_splits option.splits prod.splits)
  have *: "\<forall>d. (c, d) \<in> child_rel g \<longrightarrow>
      (\<forall>y. (d, y) \<in> (child_rel g)\<^sup>* \<longrightarrow> y \<noteq> c \<and> y \<notin> set V \<and> (y, y) \<notin> (child_rel g)\<^sup>+)"
    using 2(1) [OF c d] by (auto simp: children_via_rel)
  have "(c, c) \<notin> (child_rel g)\<^sup>+"
    using * by (metis tranclD)
  then show ?case
    using * c by (metis converse_rtranclE)
next
  case (4 n g e es V)
  show ?case
  proof (cases "child_dir_of g e")
    case None
    then show ?thesis using 4(1) 4(4) by simp
  next
    case (Some c)
    with 4(4) obtain V1 where d1: "has_cycle_from n g c V = Some (False, V1)"
      and d2: "cycle_edges n g es V1 = Some (False, V')"
      by (auto split: if_splits option.splits prod.splits)
    show ?thesis
      using 4(2) [OF Some d1] 4(3) [OF Some d1 _ _ d2] cycle_visited(1) [OF d1] Some by auto
  qed
qed auto

lemma cycle_sound:
  "has_cycle_from n g c V = Some (True, V') \<Longrightarrow> (\<forall>v \<in> set V. (v, c) \<in> (child_rel g)\<^sup>+) \<Longrightarrow>
     \<exists>y. (c, y) \<in> (child_rel g)\<^sup>* \<and> (y, y) \<in> (child_rel g)\<^sup>+"
  "cycle_edges n g es V = Some (True, V') \<Longrightarrow>
     (\<forall>v \<in> set V. \<forall>c \<in> children_via g es. (v, c) \<in> (child_rel g)\<^sup>+) \<Longrightarrow>
     \<exists>c \<in> children_via g es. \<exists>y. (c, y) \<in> (child_rel g)\<^sup>* \<and> (y, y) \<in> (child_rel g)\<^sup>+"
proof (induction n g c V and n g es V arbitrary: V' and V'
       rule: has_cycle_from_cycle_edges.induct)
  case (2 n g c V)
  show ?case
  proof (cases "c \<in> set V")
    case True
    then show ?thesis using 2(3) by blast
  next
    case False
    then obtain V1 where d: "cycle_edges n g (mi_get (dir_contains g) c) (bset_insert c V) = Some (True, V1)"
      using 2(2) by (auto split: option.splits prod.splits if_splits)
    have "\<forall>v \<in> set (bset_insert c V). \<forall>d \<in> children_via g (mi_get (dir_contains g) c).
            (v, d) \<in> (child_rel g)\<^sup>+"
      using 2(3) by (auto simp: children_via_rel intro: trancl_into_trancl)
    from 2(1) [OF False d this] show ?thesis
      by (auto simp: children_via_rel) (meson converse_rtrancl_into_rtrancl)
  qed
next
  case (4 n g e es V)
  show ?case
  proof (cases "child_dir_of g e")
    case None
    then show ?thesis using 4(1) 4(4,5) by simp
  next
    case (Some c)
    show ?thesis
    proof (cases "\<exists>V1. has_cycle_from n g c V = Some (True, V1)")
      case True
      then show ?thesis using 4(2) [OF Some] 4(5) Some by auto
    next
      case False
      with 4(4) Some obtain V1 where d1: "has_cycle_from n g c V = Some (False, V1)"
        and d2: "cycle_edges n g es V1 = Some (True, V')"
        by (auto split: if_splits option.splits prod.splits)
      show ?thesis
        using 4(3) [OF Some d1 _ _ d2] cycle_visited(1) [OF d1] 4(5) Some by auto
    qed
  qed
qed auto

lemma has_cycle_from_iff:
  "\<exists>V. has_cycle_from (dfs_fuel g) g c [] =
         Some (\<exists>y. (c, y) \<in> (child_rel g)\<^sup>* \<and> (y, y) \<in> (child_rel g)\<^sup>+, V)"
proof -
  obtain r V where d: "has_cycle_from (dfs_fuel g) g c [] = Some (r, V)"
    using cycle_enough_fuel(1) [of g "[]" "dfs_fuel g" c] card_keys_fuel [of g "{}"] by auto
  have "r \<longleftrightarrow> (\<exists>y. (c, y) \<in> (child_rel g)\<^sup>* \<and> (y, y) \<in> (child_rel g)\<^sup>+)"
    using d cycle_sound(1) [of "dfs_fuel g" g c "[]" V] cycle_complete(1) [of "dfs_fuel g" g c "[]" V]
    by (cases r) auto
  then show ?thesis using d by auto
qed

lemma is_ancestor_iff: "is_ancestor g a d = Some ((a, d) \<in> (child_rel g)\<^sup>*)"
proof (cases "a = d")
  case True
  then show ?thesis by (simp add: is_ancestor_def)
next
  case False
  then show ?thesis
    using is_descendant_of_iff [of g a d] by (auto simp: is_ancestor_def rtrancl_eq_or_trancl)
qed

section \<open>Properties\<close>

text \<open>
  \<open>has_cycle_from\<close>, started with an empty path, returns on every graph and answers whether a
  directory that lies on a cycle of user-named entries can be reached from the start.
\<close>

theorem has_cycle_from_correct:
  "map_option fst (has_cycle_from (dfs_fuel g) g start []) =
     Some (\<exists>y. (start, y) \<in> (child_rel g)\<^sup>* \<and> (y, y) \<in> (child_rel g)\<^sup>+)"
  using has_cycle_from_iff [of g start] by auto

end
