(* ===== verification/Sotfs_Abstract.thy ===== *)
theory Sotfs_Abstract
  imports Sotfs_Types
begin

text \<open>
  The specification level: an abstract file system is a map of inodes, a map from directories to
  their inodes and a map from (directory, name) to inode.  \<open>fs_ok\<close> is the well-formedness the
  design documents demand of the type graph; the abstract operations say what each rewriting
  rule does to the three maps, and each is shown to keep \<open>fs_ok\<close>.
\<close>

section \<open>State\<close>

record fs =
  fs_inode :: "inode_id \<rightharpoonup> inode"
  fs_dir :: "dir_id \<rightharpoonup> inode_id"
  fs_name :: "dir_id \<times> string \<rightharpoonup> inode_id"
  fs_root :: dir_id

definition user_name :: "string \<Rightarrow> bool" where
  "user_name n \<longleftrightarrow> n \<noteq> ''.'' \<and> n \<noteq> ''..''"

lemma user_name_simps [simp]: "\<not> user_name ''.''" "\<not> user_name ''..''"
  by (simp_all add: user_name_def)

lemma user_nameD: "user_name n \<Longrightarrow> n \<noteq> ''.'' \<and> n \<noteq> ''..'' \<and> ''.'' \<noteq> n \<and> ''..'' \<noteq> n"
  by (auto simp: user_name_def)

text \<open>The entries a link count counts: all but the \<open>..\<close> entries.\<close>

definition links :: "fs \<Rightarrow> inode_id \<Rightarrow> (dir_id \<times> string) set" where
  "links f i = {k. fs_name f k = Some i \<and> snd k \<noteq> ''..''}"

text \<open>\<open>dir_entry f k c\<close>: the user-named entry \<open>k\<close> leads to directory \<open>c\<close>.\<close>

definition dir_entry :: "fs \<Rightarrow> dir_id \<times> string \<Rightarrow> dir_id \<Rightarrow> bool" where
  "dir_entry f k c \<longleftrightarrow> user_name (snd k) \<and> (\<exists>i. fs_name f k = Some i \<and> fs_dir f c = Some i)"

definition fs_child :: "fs \<Rightarrow> (dir_id \<times> dir_id) set" where
  "fs_child f = {(p, c). \<exists>n. dir_entry f (p, n) c}"

definition is_dir :: "fs \<Rightarrow> inode_id \<Rightarrow> bool" where
  "is_dir f i \<longleftrightarrow> (\<exists>x. fs_inode f i = Some x \<and> vtype x = Directory)"

section \<open>Well-formedness\<close>

text \<open>No dangling entries.\<close>

definition names_ok :: "fs \<Rightarrow> bool" where
  "names_ok f \<longleftrightarrow> finite (dom (fs_name f)) \<and>
     (\<forall>d n i. fs_name f (d, n) = Some i \<longrightarrow> fs_dir f d \<noteq> None \<and> fs_inode f i \<noteq> None)"

text \<open>
  Directories are exactly the directory inodes, one to one, and each has a \<open>.\<close> entry for itself.
\<close>

definition dirs_match :: "fs \<Rightarrow> bool" where
  "dirs_match f \<longleftrightarrow>
     (\<forall>d i. fs_dir f d = Some i \<longrightarrow> is_dir f i \<and> fs_name f (d, ''.'') = Some i) \<and>
     (\<forall>d e i. fs_dir f d = Some i \<longrightarrow> fs_dir f e = Some i \<longrightarrow> d = e) \<and>
     (\<forall>i. is_dir f i \<longrightarrow> (\<exists>d. fs_dir f d = Some i))"

definition links_ok :: "fs \<Rightarrow> bool" where
  "links_ok f \<longleftrightarrow> (\<forall>i x. fs_inode f i = Some x \<longrightarrow> unat (link_count x) = card (links f i))"

text \<open>
  The directories form a tree: no cycle, at most one user-named entry leads to a directory, none
  to the root, and \<open>..\<close> of any other directory is the directory that holds its entry.
\<close>

definition tree_ok :: "fs \<Rightarrow> bool" where
  "tree_ok f \<longleftrightarrow>
     acyclic (fs_child f) \<and>
     (\<forall>k l c. dir_entry f k c \<longrightarrow> dir_entry f l c \<longrightarrow> k = l) \<and>
     fs_dir f (fs_root f) \<noteq> None \<and> (\<forall>k. \<not> dir_entry f k (fs_root f)) \<and>
     fs_name f (fs_root f, ''..'') = None \<and>
     (\<forall>c. c \<noteq> fs_root f \<longrightarrow> fs_dir f c \<noteq> None \<longrightarrow>
        (\<exists>k. dir_entry f k c \<and> fs_name f (c, ''..'') = fs_dir f (fst k)))"

definition fs_ok :: "fs \<Rightarrow> bool" where
  "fs_ok f \<longleftrightarrow> names_ok f \<and> dirs_match f \<and> links_ok f \<and> tree_ok f"

section \<open>Consequences\<close>

lemma fs_ok_entry:
  "fs_ok f \<Longrightarrow> fs_name f (d, n) = Some i \<Longrightarrow> fs_dir f d \<noteq> None"
  "fs_ok f \<Longrightarrow> fs_name f (d, n) = Some i \<Longrightarrow> fs_inode f i \<noteq> None"
  by (simp_all add: fs_ok_def names_ok_def)

lemma fs_ok_dir:
  "fs_ok f \<Longrightarrow> fs_dir f d = Some i \<Longrightarrow> is_dir f i"
  "fs_ok f \<Longrightarrow> fs_dir f d = Some i \<Longrightarrow> fs_name f (d, ''.'') = Some i"
  "fs_ok f \<Longrightarrow> fs_dir f d = Some i \<Longrightarrow> fs_dir f e = Some i \<Longrightarrow> d = e"
  "fs_ok f \<Longrightarrow> is_dir f i \<Longrightarrow> \<exists>d. fs_dir f d = Some i"
  unfolding fs_ok_def dirs_match_def by blast+

lemma fs_ok_links:
  "fs_ok f \<Longrightarrow> fs_inode f i = Some x \<Longrightarrow> unat (link_count x) = card (links f i)"
  by (simp add: fs_ok_def links_ok_def)

lemma finite_links: "fs_ok f \<Longrightarrow> finite (links f i)"
  by (rule finite_subset [of _ "dom (fs_name f)"]) (auto simp: links_def fs_ok_def names_ok_def)

lemma fs_ok_tree:
  "fs_ok f \<Longrightarrow> acyclic (fs_child f)"
  "fs_ok f \<Longrightarrow> dir_entry f k c \<Longrightarrow> dir_entry f l c \<Longrightarrow> k = l"
  "fs_ok f \<Longrightarrow> fs_dir f (fs_root f) \<noteq> None"
  "fs_ok f \<Longrightarrow> \<not> dir_entry f k (fs_root f)"
  "fs_ok f \<Longrightarrow> fs_name f (fs_root f, ''..'') = None"
  "fs_ok f \<Longrightarrow> c \<noteq> fs_root f \<Longrightarrow> fs_dir f c \<noteq> None \<Longrightarrow>
     \<exists>k. dir_entry f k c \<and> fs_name f (c, ''..'') = fs_dir f (fst k)"
  unfolding fs_ok_def tree_ok_def by blast+

lemma child_irrefl: "fs_ok f \<Longrightarrow> (d, d) \<notin> fs_child f"
  using fs_ok_tree(1) [of f] by (auto simp: acyclic_def)

lemma dir_entry_dir: "fs_ok f \<Longrightarrow> dir_entry f k c \<Longrightarrow> fs_dir f (fst k) \<noteq> None"
  using fs_ok_entry(1) [of f "fst k" "snd k"] by (auto simp: dir_entry_def)

text \<open>A \<open>..\<close> entry leads to the inode of the directory that holds the entry of its directory.\<close>

lemma dotdot_parent:
  assumes ok: "fs_ok f" and dd: "fs_name f (d, ''..'') = Some j"
  obtains n p where "dir_entry f (p, n) d" "fs_dir f p = Some j"
proof -
  have "fs_dir f d \<noteq> None" using fs_ok_entry(1) [OF ok dd] .
  moreover have "d \<noteq> fs_root f" using fs_ok_tree(5) [OF ok] dd by auto
  ultimately show thesis
    using fs_ok_tree(6) [OF ok, of d] that dd by (metis prod.collapse)
qed

lemma dotdot_of_child:
  assumes ok: "fs_ok f" and "dir_entry f k c"
  shows "fs_name f (c, ''..'') = fs_dir f (fst k)"
proof -
  have "c \<noteq> fs_root f" using fs_ok_tree(4) [OF ok] assms(2) by blast
  moreover have "fs_dir f c \<noteq> None" using assms(2) by (auto simp: dir_entry_def)
  ultimately show ?thesis
    using fs_ok_tree(6) [OF ok, of c] fs_ok_tree(2) [OF ok assms(2)] by blast
qed

lemma dotdot_is_dir: "fs_ok f \<Longrightarrow> fs_name f (d, ''..'') = Some j \<Longrightarrow> is_dir f j"
  by (metis dotdot_parent fs_ok_dir(1))

lemma dot_entry: "fs_ok f \<Longrightarrow> fs_name f (d, ''.'') = Some i \<Longrightarrow> fs_dir f d = Some i"
  using fs_ok_entry(1) [of f d "''.''" i] fs_ok_dir(2) [of f d] by force

lemma dot_is_dir: "fs_ok f \<Longrightarrow> fs_name f (d, ''.'') = Some i \<Longrightarrow> is_dir f i"
  by (metis dot_entry fs_ok_dir(1))

lemma file_entry_user:
  "fs_ok f \<Longrightarrow> fs_name f (d, n) = Some i \<Longrightarrow> \<not> is_dir f i \<Longrightarrow> user_name n"
  unfolding user_name_def using dot_is_dir dotdot_is_dir by metis

section \<open>Abstract operations\<close>

definition fs_create :: "dir_id \<Rightarrow> string \<Rightarrow> inode_id \<Rightarrow> inode \<Rightarrow> fs \<Rightarrow> fs" where
  "fs_create d n i x f =
     f\<lparr>fs_inode := (fs_inode f)(i \<mapsto> x), fs_name := (fs_name f)((d, n) \<mapsto> i)\<rparr>"

definition fs_mkdir :: "dir_id \<Rightarrow> string \<Rightarrow> inode_id \<Rightarrow> dir_id \<Rightarrow> inode \<Rightarrow> inode_id \<Rightarrow> fs \<Rightarrow> fs" where
  "fs_mkdir d n i c x p f =
     f\<lparr>fs_inode := (fs_inode f)(i \<mapsto> x), fs_dir := (fs_dir f)(c \<mapsto> i),
       fs_name := (fs_name f)((d, n) \<mapsto> i, (c, ''.'') \<mapsto> i, (c, ''..'') \<mapsto> p)\<rparr>"

definition fs_rmdir :: "dir_id \<Rightarrow> string \<Rightarrow> inode_id \<Rightarrow> dir_id \<Rightarrow> fs \<Rightarrow> fs" where
  "fs_rmdir d n i c f =
     f\<lparr>fs_inode := (fs_inode f)(i := None), fs_dir := (fs_dir f)(c := None),
       fs_name := (fs_name f)((d, n) := None, (c, ''.'') := None, (c, ''..'') := None)\<rparr>"

definition fs_link :: "dir_id \<Rightarrow> string \<Rightarrow> inode_id \<Rightarrow> inode \<Rightarrow> fs \<Rightarrow> fs" where
  "fs_link d n i x f =
     f\<lparr>fs_inode := (fs_inode f)(i \<mapsto> x\<lparr>link_count := link_count x + 1\<rparr>),
       fs_name := (fs_name f)((d, n) \<mapsto> i)\<rparr>"

definition fs_unlink :: "dir_id \<Rightarrow> string \<Rightarrow> inode_id \<Rightarrow> inode \<Rightarrow> fs \<Rightarrow> fs" where
  "fs_unlink d n i x f =
     f\<lparr>fs_inode := (fs_inode f)(i := (if link_count x = 1 then None
                                      else Some (x\<lparr>link_count := link_count x - 1\<rparr>))),
       fs_name := (fs_name f)((d, n) := None)\<rparr>"

text \<open>The move of a directory to another directory also moves its \<open>..\<close> entry.\<close>

definition fs_rename :: "dir_id \<Rightarrow> string \<Rightarrow> dir_id \<Rightarrow> string \<Rightarrow> inode_id \<Rightarrow> fs \<Rightarrow> fs" where
  "fs_rename d n e m i f =
     f\<lparr>fs_name := (\<lambda>k. if \<exists>c. d \<noteq> e \<and> fs_dir f c = Some i \<and> k = (c, ''..'') then fs_dir f e
                       else ((fs_name f)((d, n) := None, (e, m) \<mapsto> i)) k)\<rparr>"

section \<open>Preservation\<close>

lemma fs_create_simps [simp]:
  "fs_inode (fs_create d n i x f) = (fs_inode f)(i \<mapsto> x)"
  "fs_dir (fs_create d n i x f) = fs_dir f" "fs_root (fs_create d n i x f) = fs_root f"
  "fs_name (fs_create d n i x f) = (fs_name f)((d, n) \<mapsto> i)"
  by (simp_all add: fs_create_def)

lemma fs_link_simps [simp]:
  "fs_inode (fs_link d n i x f) = (fs_inode f)(i \<mapsto> x\<lparr>link_count := link_count x + 1\<rparr>)"
  "fs_dir (fs_link d n i x f) = fs_dir f" "fs_root (fs_link d n i x f) = fs_root f"
  "fs_name (fs_link d n i x f) = (fs_name f)((d, n) \<mapsto> i)"
  by (simp_all add: fs_link_def)

lemma fs_unlink_simps [simp]:
  "fs_inode (fs_unlink d n i x f) =
     (fs_inode f)(i := (if link_count x = 1 then None
                        else Some (x\<lparr>link_count := link_count x - 1\<rparr>)))"
  "fs_dir (fs_unlink d n i x f) = fs_dir f" "fs_root (fs_unlink d n i x f) = fs_root f"
  "fs_name (fs_unlink d n i x f) = (fs_name f)((d, n) := None)"
  by (simp_all add: fs_unlink_def)

lemma fs_mkdir_simps [simp]:
  "fs_inode (fs_mkdir d n i c x p f) = (fs_inode f)(i \<mapsto> x)"
  "fs_dir (fs_mkdir d n i c x p f) = (fs_dir f)(c \<mapsto> i)"
  "fs_root (fs_mkdir d n i c x p f) = fs_root f"
  "fs_name (fs_mkdir d n i c x p f) =
     (fs_name f)((d, n) \<mapsto> i, (c, ''.'') \<mapsto> i, (c, ''..'') \<mapsto> p)"
  by (simp_all add: fs_mkdir_def)

lemma fs_rmdir_simps [simp]:
  "fs_inode (fs_rmdir d n i c f) = (fs_inode f)(i := None)"
  "fs_dir (fs_rmdir d n i c f) = (fs_dir f)(c := None)"
  "fs_root (fs_rmdir d n i c f) = fs_root f"
  "fs_name (fs_rmdir d n i c f) =
     (fs_name f)((d, n) := None, (c, ''.'') := None, (c, ''..'') := None)"
  by (simp_all add: fs_rmdir_def)

text \<open>The link sets after one entry is added or removed.\<close>

lemma links_upd:
  "fs_name g = (fs_name f)(k \<mapsto> i) \<Longrightarrow> fs_name f k = None \<Longrightarrow> snd k \<noteq> ''..'' \<Longrightarrow>
     links g j = (if j = i then insert k (links f j) else links f j)"
  by (auto simp: links_def)

lemma links_del:
  "fs_name g = (fs_name f)(k := None) \<Longrightarrow> fs_name f k = Some i \<Longrightarrow> snd k \<noteq> ''..'' \<Longrightarrow>
     links g j = (if j = i then links f j - {k} else links f j)"
  by (auto simp: links_def)

lemma links_none: "fs_ok f \<Longrightarrow> fs_inode f i = None \<Longrightarrow> links f i = {}"
  using fs_ok_entry(2) [of f] by (fastforce simp: links_def)

text \<open>Operations on files leave the directory tree alone.\<close>

lemma tree_ok_cong:
  assumes "tree_ok f" "\<And>k c. dir_entry g k c = dir_entry f k c" "fs_dir g = fs_dir f"
    "fs_root g = fs_root f" "\<And>d. fs_name g (d, ''..'') = fs_name f (d, ''..'')"
  shows "tree_ok g"
  using assms(1) unfolding tree_ok_def fs_child_def assms(2-5) .

lemma dirs_match_cong:
  assumes "dirs_match f" "\<And>i. is_dir g i = is_dir f i" "fs_dir g = fs_dir f"
    "\<And>d. fs_name g (d, ''.'') = fs_name f (d, ''.'')"
  shows "dirs_match g"
  using assms(1) unfolding dirs_match_def assms(2-4) .

lemma dir_entry_file:
  assumes "fs_ok f" "\<not> is_dir f i" "fs_dir g = fs_dir f"
    and "fs_name f (d, n) = None \<or> fs_name f (d, n) = Some i"
    and "fs_name g = (fs_name f)((d, n) := v)" "v = None \<or> v = Some i"
  shows "dir_entry g k c = dir_entry f k c"
proof -
  have "fs_dir f c \<noteq> Some i" using fs_ok_dir(1) [OF assms(1)] assms(2) by blast
  then show ?thesis using assms(3-6) by (auto simp: dir_entry_def)
qed

theorem fs_create_ok:
  assumes ok: "fs_ok f" and d: "fs_dir f d \<noteq> None" and n: "user_name n" "fs_name f (d, n) = None"
    and i: "fs_inode f i = None" and x: "vtype x \<noteq> Directory" "link_count x = 1"
  shows "fs_ok (fs_create d n i x f)"
proof -
  let ?f = "fs_create d n i x f"
  have isd: "is_dir ?f j = is_dir f j" for j
    using i x(1) by (auto simp: is_dir_def)
  have nd: "\<not> is_dir f i" using i by (simp add: is_dir_def)
  have "names_ok ?f"
    using ok d i by (auto simp: names_ok_def fs_ok_def)
  moreover have "dirs_match ?f"
    by (rule dirs_match_cong [of f]) (use ok n(1) in \<open>auto simp: fs_ok_def isd user_name_def\<close>)
  moreover have "links ?f j = (if j = i then {(d, n)} else links f j)" for j
    using links_upd [of ?f f "(d, n)" i j] links_none [OF ok i] n by (auto simp: user_name_def)
  then have "links_ok ?f"
    using fs_ok_links [OF ok] x(2) by (auto simp: links_ok_def)
  moreover have "tree_ok ?f"
    using tree_ok_cong [of f ?f] dir_entry_file [OF ok nd, of ?f d n "Some i"] ok n user_nameD [OF n(1)]
    by (simp add: fs_ok_def)
  ultimately show ?thesis by (simp add: fs_ok_def)
qed

theorem fs_link_ok:
  assumes ok: "fs_ok f" and d: "fs_dir f d \<noteq> None" and n: "user_name n" "fs_name f (d, n) = None"
    and i: "fs_inode f i = Some x" and x: "vtype x \<noteq> Directory" "link_count x < 65535"
  shows "fs_ok (fs_link d n i x f)"
proof -
  let ?f = "fs_link d n i x f"
  have isd: "is_dir ?f j = is_dir f j" for j
    using i x(1) by (auto simp: is_dir_def)
  have nd: "\<not> is_dir f i" using i x by (simp add: is_dir_def)
  have "names_ok ?f"
    using ok d i by (auto simp: names_ok_def fs_ok_def)
  moreover have "dirs_match ?f"
    by (rule dirs_match_cong [of f]) (use ok n(1) in \<open>auto simp: fs_ok_def isd user_name_def\<close>)
  moreover have "links ?f j = (if j = i then insert (d, n) (links f i) else links f j)" for j
    using links_upd [of ?f f "(d, n)" i j] n by (auto simp: user_name_def)
  moreover have "(d, n) \<notin> links f i" using n(2) by (simp add: links_def)
  moreover have "unat (link_count x + 1) = unat (link_count x) + 1"
    using x(2) by (simp add: word_less_nat_alt unat_word_ariths)
  ultimately have "links_ok ?f"
    using fs_ok_links [OF ok] finite_links [OF ok] i by (auto simp: links_ok_def)
  moreover have "tree_ok ?f"
    using tree_ok_cong [of f ?f] dir_entry_file [OF ok nd, of ?f d n "Some i"] ok n user_nameD [OF n(1)]
    by (simp add: fs_ok_def)
  ultimately show ?thesis
    using \<open>names_ok ?f\<close> \<open>dirs_match ?f\<close> by (simp add: fs_ok_def)
qed

theorem fs_unlink_ok:
  assumes ok: "fs_ok f" and n: "user_name n" "fs_name f (d, n) = Some i"
    and i: "fs_inode f i = Some x" and x: "vtype x \<noteq> Directory"
  shows "fs_ok (fs_unlink d n i x f)"
proof -
  let ?f = "fs_unlink d n i x f"
  have isd: "is_dir ?f j = is_dir f j" for j
    using i x by (auto simp: is_dir_def)
  have nd: "\<not> is_dir f i" using i x by (simp add: is_dir_def)
  have L: "links ?f j = (if j = i then links f i - {(d, n)} else links f j)" for j
    using links_del [of ?f f "(d, n)" i j] n by (auto simp: user_name_def)
  have mem: "(d, n) \<in> links f i" using n by (simp add: links_def user_name_def)
  have card: "card (links f i - {(d, n)}) = unat (link_count x) - 1" "0 < unat (link_count x)"
    using fs_ok_links [OF ok i] finite_links [OF ok, of i] mem by (auto simp: card_gt_0_iff)
  have lc: "unat (link_count x - 1) = unat (link_count x) - 1"
    using card(2) by (metis unat_gt_0 unat_minus_one)
  have only: "(e, m) = (d, n)" if "link_count x = 1" "fs_name f (e, m) = Some i" for e m
  proof -
    have "links f i - {(d, n)} = {}"
      using card(1) that(1) finite_links [OF ok, of i] by simp
    moreover have "(e, m) \<in> links f i"
      using that(2) file_entry_user [OF ok _ nd] by (auto simp: links_def user_name_def)
    ultimately show ?thesis by blast
  qed
  have "names_ok ?f"
    using ok i only unfolding names_ok_def fs_ok_def by auto
  moreover have "dirs_match ?f"
    by (rule dirs_match_cong [of f]) (use ok n(1) in \<open>auto simp: fs_ok_def isd user_name_def\<close>)
  moreover have "links_ok ?f"
    using fs_ok_links [OF ok] card lc by (auto simp: links_ok_def L)
  moreover have "tree_ok ?f"
    using tree_ok_cong [of f ?f] dir_entry_file [OF ok nd, of ?f d n "None"] ok n user_nameD [OF n(1)]
    by (simp add: fs_ok_def)
  ultimately show ?thesis by (simp add: fs_ok_def)
qed

text \<open>The shape of the tree when the entry of one directory is set to \<open>k\<close>.\<close>

lemma child_set_entry:
  assumes "\<And>l b. dir_entry g l b \<longleftrightarrow> (if b = c then l = (d, n) else dir_entry f l b)"
  shows "fs_child g \<subseteq> insert (d, c) (fs_child f)"
  using assms by (auto simp: fs_child_def split: if_splits)

lemma acyclic_set_entry:
  assumes "acyclic (fs_child f)"
    and "\<And>l b. dir_entry g l b \<longleftrightarrow> (if b = c then l = (d, n) else dir_entry f l b)"
    and "(c, d) \<notin> (fs_child f)\<^sup>*"
  shows "acyclic (fs_child g)"
  using acyclic_subset [OF _ child_set_entry [OF assms(2)]] assms(1,3) by (simp add: acyclic_insert)

lemma dir_entry_mkdir:
  assumes ok: "fs_ok f" and d: "fs_dir f d = Some p" and n: "user_name n" "fs_name f (d, n) = None"
    and i: "fs_inode f i = None" and c: "fs_dir f c = None"
  shows "dir_entry (fs_mkdir d n i c x p f) l b \<longleftrightarrow> (if b = c then l = (d, n) else dir_entry f l b)"
proof -
  have noname: "fs_name f (c, m) = None" for m
    using fs_ok_entry(1) [OF ok, of c m] c by (cases "fs_name f (c, m)") auto
  have notgt: "fs_name f k \<noteq> Some i" for k
    using fs_ok_entry(2) [OF ok, of "fst k" "snd k" i] i by auto
  have nodir: "fs_dir f b \<noteq> Some i" for b
    using fs_ok_dir(1) [OF ok, of b i] i by (auto simp: is_dir_def)
  have "c \<noteq> d" using c d by auto
  then show ?thesis
    using notgt nodir n user_nameD [OF n(1)] noname by (cases l) (auto simp: dir_entry_def c)
qed

theorem fs_mkdir_ok:
  assumes ok: "fs_ok f" and d: "fs_dir f d = Some p" and n: "user_name n" "fs_name f (d, n) = None"
    and i: "fs_inode f i = None" and c: "fs_dir f c = None"
    and x: "vtype x = Directory" "link_count x = 2"
  shows "fs_ok (fs_mkdir d n i c x p f)"
proof -
  let ?f = "fs_mkdir d n i c x p f"
  have noname: "fs_name f (c, m) = None" for m
    using fs_ok_entry(1) [OF ok, of c m] c by (cases "fs_name f (c, m)") auto
  have notgt: "fs_name f k \<noteq> Some i" for k
    using fs_ok_entry(2) [OF ok, of "fst k" "snd k" i] i by auto
  have nodir: "fs_dir f b \<noteq> Some i" for b
    using fs_ok_dir(1) [OF ok, of b i] i by (auto simp: is_dir_def)
  have cd: "c \<noteq> d" and pi: "is_dir f p" and "p \<noteq> i"
    using c d fs_ok_dir(1) [OF ok d] nodir by auto
  note nn = user_nameD [OF n(1)]
  have isd: "is_dir ?f j \<longleftrightarrow> j = i \<or> is_dir f j" for j
    using x(1) by (auto simp: is_dir_def)
  have de: "dir_entry ?f l b \<longleftrightarrow> (if b = c then l = (d, n) else dir_entry f l b)" for l b
    by (rule dir_entry_mkdir [OF ok d n i c])
  have "names_ok ?f"
    using ok d pi by (auto simp: names_ok_def fs_ok_def is_dir_def)
  moreover have "dirs_match ?f"
    unfolding dirs_match_def isd using fs_ok_dir [OF ok] nodir nn cd c
    by (auto simp del: not_None_eq) (metis option.distinct(1))
  moreover have L: "links ?f j = (if j = i then {(d, n), (c, ''.'')} else links f j)" for j
    using notgt nn noname n(2) cd by (auto simp: links_def)
  have "links_ok ?f"
    using fs_ok_links [OF ok] x(2) nn by (auto simp: links_ok_def L)
  moreover have "tree_ok ?f"
    unfolding tree_ok_def
  proof (intro conjI allI impI)
    have "(c, e) \<notin> fs_child f" for e
      using noname by (auto simp: fs_child_def dir_entry_def)
    then have "(c, d) \<notin> (fs_child f)\<^sup>*"
      using cd by (metis converse_rtranclE)
    then show "acyclic (fs_child ?f)"
      by (rule acyclic_set_entry [OF fs_ok_tree(1) [OF ok] de])
    show "fs_dir ?f (fs_root ?f) \<noteq> None" using fs_ok_tree(3) [OF ok] by simp
    have "c \<noteq> fs_root f" using c fs_ok_tree(3) [OF ok] by auto
    then show "\<not> dir_entry ?f k (fs_root ?f)" for k
      using de fs_ok_tree(4) [OF ok] by simp
    show "fs_name ?f (fs_root ?f, ''..'') = None"
      using \<open>c \<noteq> fs_root f\<close> fs_ok_tree(5) [OF ok] nn by simp
    fix k l b assume "dir_entry ?f k b" "dir_entry ?f l b"
    then show "k = l" using de fs_ok_tree(2) [OF ok] by (auto split: if_splits)
  next
    fix b assume b: "b \<noteq> fs_root ?f" "fs_dir ?f b \<noteq> None"
    show "\<exists>k. dir_entry ?f k b \<and> fs_name ?f (b, ''..'') = fs_dir ?f (fst k)"
    proof (cases "b = c")
      case True
      then show ?thesis using de [of "(d, n)" b] d cd nn by (intro exI [of _ "(d, n)"]) simp
    next
      case False
      then obtain k where k: "dir_entry f k b" "fs_name f (b, ''..'') = fs_dir f (fst k)"
        using fs_ok_tree(6) [OF ok, of b] b by auto
      then have "fst k \<noteq> c" using dir_entry_dir [OF ok k(1)] c by auto
      then show ?thesis
        using k False de [of k b] nn by (intro exI [of _ k]) simp
    qed
  qed
  ultimately show ?thesis by (simp add: fs_ok_def)
qed

lemma dir_entry_rmdir:
  assumes ok: "fs_ok f" and n: "fs_name f (d, n) = Some i" and c: "fs_dir f c = Some i"
  shows "dir_entry (fs_rmdir d n i c f) l b \<longleftrightarrow> b \<noteq> c \<and> dir_entry f l b"
proof -
  have "fs_dir f b \<noteq> Some i" if "b \<noteq> c" using fs_ok_dir(3) [OF ok c] that by blast
  then show ?thesis using n by (cases "l = (d, n)") (auto simp: dir_entry_def)
qed

theorem fs_rmdir_ok:
  assumes ok: "fs_ok f" and n: "user_name n" "fs_name f (d, n) = Some i"
    and c: "fs_dir f c = Some i" and empty: "\<And>m. user_name m \<Longrightarrow> fs_name f (c, m) = None"
  shows "fs_ok (fs_rmdir d n i c f)"
proof -
  let ?f = "fs_rmdir d n i c f"
  note nn = user_nameD [OF n(1)]
  have en: "dir_entry f (d, n) c" using n c by (simp add: dir_entry_def)
  have croot: "c \<noteq> fs_root f" using en fs_ok_tree(4) [OF ok] by blast
  have dc: "d \<noteq> c" using empty n by auto
  have nochild: "\<not> dir_entry f k b" if "fst k = c" for k b
    using empty [of "snd k"] that by (cases k) (auto simp: dir_entry_def)
  have nodd: "fs_name f (b, ''..'') \<noteq> Some i" for b
  proof
    assume "fs_name f (b, ''..'') = Some i"
    then obtain m q where "dir_entry f (q, m) b" "fs_dir f q = Some i"
      using dotdot_parent [OF ok] by metis
    then show False using fs_ok_dir(3) [OF ok _ c, of q] nochild by auto
  qed
  have tgt: "k = (d, n) \<or> k = (c, ''.'')" if "fs_name f k = Some i" for k
  proof (cases "user_name (snd k)")
    case True
    then have "dir_entry f k c" using that c by (simp add: dir_entry_def)
    then show ?thesis using fs_ok_tree(2) [OF ok en] by blast
  next
    case False
    then show ?thesis
      using nodd dot_entry [OF ok, of "fst k" i] fs_ok_dir(3) [OF ok _ c] that
      by (cases k) (auto simp: user_name_def)
  qed
  have isd: "is_dir ?f j \<longleftrightarrow> j \<noteq> i \<and> is_dir f j" for j by (simp add: is_dir_def)
  have src: "fs_name f (c, m) = None" if "m \<noteq> ''.''" "m \<noteq> ''..''" for m
    using empty [of m] that by (simp add: user_name_def)
  have de: "dir_entry ?f l b \<longleftrightarrow> b \<noteq> c \<and> dir_entry f l b" for l b
    by (rule dir_entry_rmdir [OF ok n(2) c])
  have "names_ok ?f"
    using ok src tgt unfolding names_ok_def fs_ok_def by (auto split: if_splits)
  moreover have "dirs_match ?f"
    unfolding dirs_match_def isd
  proof (intro conjI allI impI)
    fix b j assume "fs_dir ?f b = Some j"
    then have b: "b \<noteq> c" "fs_dir f b = Some j" by (auto split: if_splits)
    then show "j \<noteq> i" "is_dir f j" "fs_name ?f (b, ''.'') = Some j"
      using fs_ok_dir(1-3) [OF ok] c nn by auto
    fix e assume "fs_dir ?f e = Some j"
    then show "b = e" using fs_ok_dir(3) [OF ok b(2)] by (auto split: if_splits)
  next
    fix j assume j: "j \<noteq> i \<and> is_dir f j"
    then obtain b where "fs_dir f b = Some j" using fs_ok_dir(4) [OF ok] by blast
    then show "\<exists>b. fs_dir ?f b = Some j" using j c by (intro exI [of _ b]) auto
  qed
  moreover have "links ?f j = links f j" if "j \<noteq> i" for j
    using that n fs_ok_dir(2) [OF ok c] by (auto simp: links_def)
  then have "links_ok ?f"
    using fs_ok_links [OF ok] by (auto simp: links_ok_def)
  moreover have "tree_ok ?f"
    unfolding tree_ok_def
  proof (intro conjI allI impI)
    have "fs_child ?f \<subseteq> fs_child f" using de by (auto simp: fs_child_def)
    then show "acyclic (fs_child ?f)" by (rule acyclic_subset [OF fs_ok_tree(1) [OF ok]])
    show "fs_dir ?f (fs_root ?f) \<noteq> None" using croot fs_ok_tree(3) [OF ok] by simp
    show "\<not> dir_entry ?f k (fs_root ?f)" for k
      using de fs_ok_tree(4) [OF ok] by simp
    show "fs_name ?f (fs_root ?f, ''..'') = None"
      using fs_ok_tree(5) [OF ok] by simp
    fix k l b assume "dir_entry ?f k b" "dir_entry ?f l b"
    then show "k = l" using de fs_ok_tree(2) [OF ok] by blast
  next
    fix b assume b: "b \<noteq> fs_root ?f" "fs_dir ?f b \<noteq> None"
    then have bc: "b \<noteq> c" by auto
    then obtain k where k: "dir_entry f k b" "fs_name f (b, ''..'') = fs_dir f (fst k)"
      using fs_ok_tree(6) [OF ok, of b] b by auto
    moreover have "fst k \<noteq> c" using nochild k(1) by blast
    ultimately show "\<exists>k. dir_entry ?f k b \<and> fs_name ?f (b, ''..'') = fs_dir ?f (fst k)"
      using bc de [of k b] nn by (intro exI [of _ k]) simp
  qed
  ultimately show ?thesis by (simp add: fs_ok_def)
qed

text \<open>A new or removed leaf changes nobody else's ancestors.\<close>

lemma ancestors_leaf:
  assumes "r' = insert (p, c) r" "\<And>y. (c, y) \<notin> r" "d \<noteq> c"
  shows "(a, d) \<in> r'\<^sup>* \<longleftrightarrow> (a, d) \<in> r\<^sup>*"
proof -
  have "(c, d) \<notin> r\<^sup>*" using assms(2,3) by (metis converse_rtranclE)
  then show ?thesis unfolding assms(1) rtrancl_insert by blast
qed

lemma ancestors_mkdir:
  assumes "fs_ok f" "fs_dir f d = Some p" "user_name n" "fs_name f (d, n) = None"
    "fs_inode f i = None" "fs_dir f c = None"
  shows "(a, d) \<in> (fs_child (fs_mkdir d n i c x p f))\<^sup>* \<longleftrightarrow> (a, d) \<in> (fs_child f)\<^sup>*"
proof (rule ancestors_leaf [where p = d and c = c])
  have "\<not> dir_entry f l c" for l using assms(6) by (auto simp: dir_entry_def)
  then show "fs_child (fs_mkdir d n i c x p f) = insert (d, c) (fs_child f)"
    by (auto simp: fs_child_def dir_entry_mkdir [OF assms] split: if_splits)
  show "(c, y) \<notin> fs_child f" for y
    using fs_ok_entry(1) [OF assms(1), of c] assms(6) by (auto simp: fs_child_def dir_entry_def)
  show "d \<noteq> c" using assms(2,6) by auto
qed

lemma ancestors_rmdir:
  assumes ok: "fs_ok f" and n: "user_name n" "fs_name f (d, n) = Some i"
    and c: "fs_dir f c = Some i" and empty: "\<And>m. user_name m \<Longrightarrow> fs_name f (c, m) = None"
  shows "(a, d) \<in> (fs_child (fs_rmdir d n i c f))\<^sup>* \<longleftrightarrow> (a, d) \<in> (fs_child f)\<^sup>*"
proof (rule ancestors_leaf [where p = d and c = c, symmetric])
  have en: "dir_entry f (d, n) c" using n c by (simp add: dir_entry_def)
  then show "fs_child f = insert (d, c) (fs_child (fs_rmdir d n i c f))"
    using fs_ok_tree(2) [OF ok en] by (auto simp: fs_child_def dir_entry_rmdir [OF ok n(2) c])
  show "(c, y) \<notin> fs_child (fs_rmdir d n i c f)" for y
    using empty by (auto simp: fs_child_def dir_entry_rmdir [OF ok n(2) c] dir_entry_def)
  show "d \<noteq> c" using empty n by auto
qed

lemma fs_rename_simps [simp]:
  "fs_inode (fs_rename d n e m i f) = fs_inode f" "fs_dir (fs_rename d n e m i f) = fs_dir f"
  "fs_root (fs_rename d n e m i f) = fs_root f"
  "fs_name (fs_rename d n e m i f) =
     (\<lambda>k. if \<exists>c. d \<noteq> e \<and> fs_dir f c = Some i \<and> k = (c, ''..'') then fs_dir f e
          else ((fs_name f)((d, n) := None, (e, m) \<mapsto> i)) k)"
  by (simp_all add: fs_rename_def)

theorem fs_rename_ok:
  assumes ok: "fs_ok f" and n: "user_name n" "fs_name f (d, n) = Some i"
    and m: "user_name m" "fs_name f (e, m) = None" and e: "fs_dir f e \<noteq> None"
    and nocycle: "\<And>c. fs_dir f c = Some i \<Longrightarrow> (c, e) \<notin> (fs_child f)\<^sup>*"
  shows "fs_ok (fs_rename d n e m i f)"
proof -
  let ?f = "fs_rename d n e m i f"
  note nn = user_nameD [OF n(1)] and mm = user_nameD [OF m(1)]
  have isd: "is_dir ?f j = is_dir f j" for j by (simp add: is_dir_def)
  obtain j where j: "fs_dir f e = Some j" using e by blast
  have name: "fs_name ?f (b, l) = ((fs_name f)((d, n) := None, (e, m) \<mapsto> i)) (b, l)"
    if "l \<noteq> ''..''" for b l
    using that by simp
  have "names_ok ?f"
    unfolding names_ok_def
  proof (intro conjI allI impI)
    have "dom (fs_name ?f) \<subseteq> insert (e, m) (dom (fs_name f) \<union> {(c, ''..'') | c. fs_dir f c = Some i})"
      by (auto split: if_splits)
    moreover have "{(c, ''..'') | c. fs_dir f c = Some i} \<subseteq> {(THE c. fs_dir f c = Some i, ''..'')}"
      using fs_ok_dir(3) [OF ok] by (auto intro!: the_equality [symmetric])
    ultimately show "finite (dom (fs_name ?f))"
      using ok by (auto simp: fs_ok_def names_ok_def dest: finite_subset)
    fix b l t assume "fs_name ?f (b, l) = Some t"
    then show "fs_dir ?f b \<noteq> None" "fs_inode ?f t \<noteq> None"
      using fs_ok_entry [OF ok] n(2) j fs_ok_dir(1) [OF ok j]
      by (auto simp: is_dir_def split: if_splits)
  qed
  moreover have "dirs_match ?f"
    by (rule dirs_match_cong [of f]) (use ok nn mm in \<open>simp_all add: isd fs_ok_def\<close>)
  moreover have "links_ok ?f"
    unfolding links_ok_def
  proof (intro allI impI)
    fix t x assume x: "fs_inode ?f t = Some x"
    have L: "links ?f t = (if t = i then insert (e, m) (links f i - {(d, n)}) else links f t)"
      using n(2) m(2) nn mm by (auto simp: links_def)
    have "(d, n) \<in> links f i" "(e, m) \<notin> links f i"
      using n nn m by (auto simp: links_def)
    then have "card (links ?f t) = card (links f t)"
      using finite_links [OF ok, of i] card_Suc_Diff1 [of "links f i" "(d, n)"] by (simp add: L)
    then show "unat (link_count x) = card (links ?f t)"
      using fs_ok_links [OF ok, of t x] x by simp
  qed
  moreover have "tree_ok ?f"
  proof (cases "\<exists>c. fs_dir f c = Some i")
    case False
    then have nd: "\<not> is_dir f i" using fs_ok_dir(4) [OF ok] by blast
    have "dir_entry ?f l b = dir_entry f l b" for l b
      using False n(2) m(2) by (cases l) (auto simp: dir_entry_def)
    then show ?thesis
      using tree_ok_cong [of f ?f] ok False nn mm by (simp add: fs_ok_def)
  next
    case True
    then obtain c where c: "fs_dir f c = Some i" by blast
    have uniq: "b = c" if "fs_dir f b = Some i" for b using fs_ok_dir(3) [OF ok that c] .
    have en: "dir_entry f (d, n) c" using n c by (simp add: dir_entry_def)
    have croot: "c \<noteq> fs_root f" using en fs_ok_tree(4) [OF ok] by blast
    have ce: "c \<noteq> e" using nocycle [OF c] by auto
    have other: "l = (d, n)" if "user_name (snd l)" "fs_name f l = Some i" for l
      using fs_ok_tree(2) [OF ok en, of l] that c by (simp add: dir_entry_def)
    have entry: "dir_entry ?f l b \<longleftrightarrow> user_name (snd l) \<and>
        (\<exists>t. ((fs_name f)((d, n) := None, (e, m) \<mapsto> i)) l = Some t \<and> fs_dir f b = Some t)" for l b
      using user_nameD [of "snd l"] by (cases l) (auto simp: dir_entry_def)
    have de: "dir_entry ?f l b \<longleftrightarrow> (if b = c then l = (e, m) else dir_entry f l b)" for l b
    proof -
      have nb: "fs_dir f b = Some i \<longleftrightarrow> b = c" using uniq c by blast
      consider "l = (e, m)" | "l = (d, n)" "l \<noteq> (e, m)" | "l \<noteq> (d, n)" "l \<noteq> (e, m)" by blast
      then show ?thesis
      proof cases
        case 1
        then show ?thesis using m c by (simp add: entry nb dir_entry_def)
      next
        case 2
        then show ?thesis using n c user_nameD [OF n(1)] by (simp add: entry nb dir_entry_def)
      next
        case 3
        then show ?thesis using other [of l] c by (auto simp: entry dir_entry_def)
      qed
    qed
    show ?thesis
      unfolding tree_ok_def
    proof (intro conjI allI impI)
      show "acyclic (fs_child ?f)"
        by (rule acyclic_set_entry [OF fs_ok_tree(1) [OF ok] de nocycle [OF c]])
      show "fs_dir ?f (fs_root ?f) \<noteq> None" using fs_ok_tree(3) [OF ok] by simp
      show "\<not> dir_entry ?f k (fs_root ?f)" for k
        using de fs_ok_tree(4) [OF ok] croot by simp
      show "fs_name ?f (fs_root ?f, ''..'') = None"
        using fs_ok_tree(5) [OF ok] croot uniq mm by auto
      fix k l b assume "dir_entry ?f k b" "dir_entry ?f l b"
      then show "k = l" using de fs_ok_tree(2) [OF ok] by (metis (full_types))
    next
      fix b assume b: "b \<noteq> fs_root ?f" "fs_dir ?f b \<noteq> None"
      show "\<exists>k. dir_entry ?f k b \<and> fs_name ?f (b, ''..'') = fs_dir ?f (fst k)"
      proof (cases "b = c")
        case True
        have "fs_name f (c, ''..'') = fs_dir f d" using dotdot_of_child [OF ok en] by simp
        then show ?thesis
          using True de [of "(e, m)" b] c nn mm by (intro exI [of _ "(e, m)"]) auto
      next
        case False
        then obtain k where "dir_entry f k b" "fs_name f (b, ''..'') = fs_dir f (fst k)"
          using fs_ok_tree(6) [OF ok, of b] b by auto
        then show ?thesis
          using False de [of k b] uniq nn mm by (intro exI [of _ k]) auto
      qed
    qed
  qed
  ultimately show ?thesis by (simp add: fs_ok_def)
qed

end
