(* ===== verification/Sotfs_View.thy ===== *)
theory Sotfs_View
  imports Sotfs_Cycles Sotfs_Abstract
begin

text \<open>
  The consistency of the type graph's representation, and the abstract file system it stands
  for.  \<open>edges_ok\<close>, \<open>dirs_ok\<close>, \<open>inodes_ok\<close> and \<open>blocks_ok\<close> say that every secondary index is
  exactly the projection of the arenas it indexes; \<open>fs_of\<close> forgets the representation and keeps
  inodes, directories and the map from (directory, name) to inode.  The edit steps that the
  operations of \<open>sotfs-ops\<close> are made of are defined here, each with its effect on the view.
\<close>

section \<open>Projections of edges\<close>

fun contains_src :: "edge \<Rightarrow> dir_id option" where
  "contains_src (Contains _ s _ _) = Some s"
| "contains_src _ = None"

fun contains_tgt :: "edge \<Rightarrow> inode_id option" where
  "contains_tgt (Contains _ _ t _) = Some t"
| "contains_tgt _ = None"

fun contains_key :: "edge \<Rightarrow> (dir_id \<times> string) option" where
  "contains_key (Contains _ s _ n) = Some (s, n)"
| "contains_key _ = None"

fun points_src :: "edge \<Rightarrow> inode_id option" where
  "points_src (PointsTo _ s _ _) = Some s"
| "points_src _ = None"

fun points_tgt :: "edge \<Rightarrow> block_id option" where
  "points_tgt (PointsTo _ _ t _) = Some t"
| "points_tgt _ = None"

abbreviation edge_at :: "type_graph \<Rightarrow> edge_id \<rightharpoonup> edge" where
  "edge_at g \<equiv> ar_get (edges g)"

abbreviation inode_at :: "type_graph \<Rightarrow> inode_id \<rightharpoonup> inode" where
  "inode_at g \<equiv> ar_get (inodes g)"

abbreviation dir_at :: "type_graph \<Rightarrow> dir_id \<rightharpoonup> directory" where
  "dir_at g \<equiv> ar_get (dirs g)"

abbreviation block_at :: "type_graph \<Rightarrow> block_id \<rightharpoonup> block" where
  "block_at g \<equiv> ar_get (blocks g)"

definition proj :: "(edge \<Rightarrow> 'b option) \<Rightarrow> (edge_id \<rightharpoonup> edge) \<Rightarrow> edge_id \<rightharpoonup> 'b" where
  "proj p E e = Option.bind (E e) p"

lemma proj_upd [simp]: "proj p (E(e \<mapsto> x)) = (proj p E)(e := p x)"
  by (auto simp: proj_def fun_eq_iff)

lemma proj_del [simp]: "proj p (E(e := None)) = (proj p E)(e := None)"
  by (auto simp: proj_def fun_eq_iff)

lemma proj_None: "E e = None \<Longrightarrow> proj p E e = None"
  by (simp add: proj_def)

lemma proj_Some: "E e = Some x \<Longrightarrow> proj p E e = p x"
  by (simp add: proj_def)

lemma proj_eq_Some: "proj p E e = Some v \<longleftrightarrow> (\<exists>x. E e = Some x \<and> p x = Some v)"
  by (simp add: proj_def bind_eq_Some_conv)

lemma contains_src_iff: "contains_src x = Some d \<longleftrightarrow> (\<exists>i t n. x = Contains i d t n)"
  by (cases x) auto

lemma contains_tgt_iff: "contains_tgt x = Some t \<longleftrightarrow> (\<exists>i d n. x = Contains i d t n)"
  by (cases x) auto

lemma contains_key_iff: "contains_key x = Some (d, n) \<longleftrightarrow> (\<exists>i t. x = Contains i d t n)"
  by (cases x) auto

lemma points_src_iff: "points_src x = Some s \<longleftrightarrow> (\<exists>i t off. x = PointsTo i s t off)"
  by (cases x) auto

lemma points_tgt_iff: "points_tgt x = Some t \<longleftrightarrow> (\<exists>i s off. x = PointsTo i s t off)"
  by (cases x) auto

section \<open>Consistent representation\<close>

definition edges_ok :: "type_graph \<Rightarrow> bool" where
  "edges_ok g \<longleftrightarrow>
     ar_inv (edges g) \<and> ar_capacity (edges g) = EDGE_CAPACITY \<and>
     mi_ok (dir_contains g) \<and> mi_ok (inode_incoming_contains g) \<and> mi_ok (inode_points_to g) \<and>
     bmap_ok (dir_name_idx g) \<and>
     mi_exact (dir_contains g) (proj contains_src (edge_at g)) \<and>
     mi_exact (inode_incoming_contains g) (proj contains_tgt (edge_at g)) \<and>
     mi_exact (inode_points_to g) (proj points_src (edge_at g)) \<and>
     map_exact (dir_name_idx g) (proj contains_key (edge_at g)) \<and>
     (\<forall>e x. edge_at g e = Some x \<longrightarrow> edge_id x = e \<and> e < next_edge g)"

definition dirs_ok :: "type_graph \<Rightarrow> bool" where
  "dirs_ok g \<longleftrightarrow>
     ar_inv (dirs g) \<and> ar_capacity (dirs g) = NODE_CAPACITY \<and> bmap_ok (dir_for_inode_idx g) \<and>
     map_exact (dir_for_inode_idx g) (\<lambda>d. map_option dir_inode_id (dir_at g d)) \<and>
     (\<forall>d x. dir_at g d = Some x \<longrightarrow> dir_id x = d \<and> d < next_dir g)"

definition inodes_ok :: "type_graph \<Rightarrow> bool" where
  "inodes_ok g \<longleftrightarrow>
     ar_inv (inodes g) \<and> ar_capacity (inodes g) = NODE_CAPACITY \<and>
     (\<forall>i x. inode_at g i = Some x \<longrightarrow> inode_id x = i \<and> i < next_inode g)"

text \<open>Blocks: every \<open>PointsTo\<close> edge leads to a block, and the reference count counts them.\<close>

definition refs_to :: "(edge_id \<rightharpoonup> edge) \<Rightarrow> block_id \<Rightarrow> edge_id set" where
  "refs_to E b = {e. proj points_tgt E e = Some b}"

definition blocks_ok :: "type_graph \<Rightarrow> bool" where
  "blocks_ok g \<longleftrightarrow>
     ar_inv (blocks g) \<and> ar_capacity (blocks g) = NODE_CAPACITY \<and>
     (\<forall>b x. block_at g b = Some x \<longrightarrow> block_id x = b \<and> b < next_block g \<and>
        unat (refcount x) = card (refs_to (edge_at g) b) \<and> refs_to (edge_at g) b \<noteq> {}) \<and>
     (\<forall>e b. proj points_tgt (edge_at g) e = Some b \<longrightarrow> block_at g b \<noteq> None) \<and>
     (\<forall>e i. proj points_src (edge_at g) e = Some i \<longrightarrow> inode_at g i \<noteq> None)"

definition rep_ok :: "type_graph \<Rightarrow> bool" where
  "rep_ok g \<longleftrightarrow> edges_ok g \<and> dirs_ok g \<and> inodes_ok g \<and> blocks_ok g"

section \<open>The abstract file system\<close>

definition names_of :: "type_graph \<Rightarrow> dir_id \<times> string \<rightharpoonup> inode_id" where
  "names_of g k = Option.bind (Option.bind (bmap_get (dir_name_idx g) k) (edge_at g)) contains_tgt"

definition fs_of :: "type_graph \<Rightarrow> fs" where
  "fs_of g =
     \<lparr>fs_inode = inode_at g, fs_dir = (\<lambda>d. map_option dir_inode_id (dir_at g d)),
      fs_name = names_of g, fs_root = root_dir g\<rparr>"

lemma fs_of_simps [simp]:
  "fs_inode (fs_of g) = inode_at g"
  "fs_dir (fs_of g) = (\<lambda>d. map_option dir_inode_id (dir_at g d))"
  "fs_name (fs_of g) = names_of g"
  "fs_root (fs_of g) = root_dir g"
  by (simp_all add: fs_of_def)

section \<open>Canonical identifiers\<close>

text \<open>
  An identifier is canonical when the cast to an arena slot keeps it.  Everything stored is
  canonical, because the capacities are far below \<open>2 ^ 32\<close>.
\<close>

definition canonical :: "nat \<Rightarrow> bool" where
  "canonical i \<longleftrightarrow> i < 2 ^ 32"

lemma id_to_arena_canonical [simp]: "canonical i \<Longrightarrow> id_to_arena i = i"
  by (simp add: canonical_def id_to_arena_def)

lemma canonical_small:
  "i < NODE_CAPACITY \<Longrightarrow> canonical i" "i < EDGE_CAPACITY \<Longrightarrow> canonical i"
  by (simp_all add: canonical_def NODE_CAPACITY_def EDGE_CAPACITY_def)

lemma edges_okD:
  assumes "edges_ok g"
  shows "ar_inv (edges g)" "ar_capacity (edges g) = EDGE_CAPACITY"
    "mi_ok (dir_contains g)" "mi_ok (inode_incoming_contains g)" "mi_ok (inode_points_to g)"
    "bmap_ok (dir_name_idx g)"
    "mi_exact (dir_contains g) (proj contains_src (edge_at g))"
    "mi_exact (inode_incoming_contains g) (proj contains_tgt (edge_at g))"
    "mi_exact (inode_points_to g) (proj points_src (edge_at g))"
    "map_exact (dir_name_idx g) (proj contains_key (edge_at g))"
    "edge_at g e = Some x \<Longrightarrow> edge_id x = e" "edge_at g e = Some x \<Longrightarrow> e < next_edge g"
  using assms unfolding edges_ok_def by blast+

lemma edge_canonical: "edges_ok g \<Longrightarrow> edge_at g e = Some x \<Longrightarrow> canonical e"
  using ar.get_bound [of "edges g" e x] by (auto simp: edges_ok_def intro: canonical_small)

lemma get_edge_at: "edges_ok g \<Longrightarrow> edge_at g e = Some x \<Longrightarrow> get_edge g e = Some x"
  using edge_canonical [of g e x] by (simp add: get_edge_def)

lemma inode_canonical: "inodes_ok g \<Longrightarrow> inode_at g i = Some x \<Longrightarrow> canonical i"
  using ar.get_bound [of "inodes g" i x] by (auto simp: inodes_ok_def intro: canonical_small)

lemma get_inode_at: "inodes_ok g \<Longrightarrow> inode_at g i = Some x \<Longrightarrow> get_inode g i = Some x"
  using inode_canonical [of g i x] by (simp add: get_inode_def)

lemma dir_canonical: "dirs_ok g \<Longrightarrow> dir_at g d = Some x \<Longrightarrow> canonical d"
  using ar.get_bound [of "dirs g" d x] by (auto simp: dirs_ok_def intro: canonical_small)

lemma get_dir_at: "dirs_ok g \<Longrightarrow> dir_at g d = Some x \<Longrightarrow> get_dir g d = Some x"
  using dir_canonical [of g d x] by (simp add: get_dir_def)

lemma block_canonical: "blocks_ok g \<Longrightarrow> block_at g b = Some x \<Longrightarrow> canonical b"
  using ar.get_bound [of "blocks g" b x] by (auto simp: blocks_ok_def intro: canonical_small)

section \<open>Reading through the indexes\<close>

lemma name_idx_iff:
  "edges_ok g \<Longrightarrow> bmap_get (dir_name_idx g) (d, n) = Some e \<longleftrightarrow> (\<exists>t. edge_at g e = Some (Contains e d t n))"
  using map_exactD [OF edges_okD(10), of g "(d, n)" e] edges_okD(11)
  by (fastforce simp: proj_eq_Some contains_key_iff)

lemma names_of_iff:
  "edges_ok g \<Longrightarrow> names_of g (d, n) = Some t \<longleftrightarrow> (\<exists>e. edge_at g e = Some (Contains e d t n))"
  by (fastforce simp: names_of_def bind_eq_Some_conv name_idx_iff contains_tgt_iff)

lemma dir_edges_iff:
  "edges_ok g \<Longrightarrow> e \<in> set (mi_get (dir_contains g) d) \<longleftrightarrow> (\<exists>t n. edge_at g e = Some (Contains e d t n))"
  using mi.exactD [OF edges_okD(7), of g e d] edges_okD(11)
  by (fastforce simp: proj_eq_Some contains_src_iff)

lemma incoming_iff:
  "edges_ok g \<Longrightarrow>
     e \<in> set (mi_get (inode_incoming_contains g) t) \<longleftrightarrow> (\<exists>d n. edge_at g e = Some (Contains e d t n))"
  using mi.exactD [OF edges_okD(8), of g e t] edges_okD(11)
  by (fastforce simp: proj_eq_Some contains_tgt_iff)

lemma edge_key_unique:
  assumes "edges_ok g" "edge_at g e = Some (Contains i d t n)" "edge_at g e' = Some (Contains i' d t' n)"
  shows "e = e'"
proof -
  have "bmap_get (dir_name_idx g) (d, n) = Some e" "bmap_get (dir_name_idx g) (d, n) = Some e'"
    using map_exactD [OF edges_okD(10) [OF assms(1)]] assms(2,3) by (auto simp: proj_def)
  then show ?thesis by simp
qed

lemma dir_for_inode_iff:
  "dirs_ok g \<Longrightarrow> dir_for_inode g i = Some d \<longleftrightarrow> fs_dir (fs_of g) d = Some i"
  by (auto simp: dirs_ok_def dir_for_inode_def map_exact_def)

lemma scan_name_None: "(\<forall>e \<in> set es. get_edge g e = None) \<Longrightarrow> scan_name g n es = None"
  by (induction es) auto

lemma lookup_name_eq:
  assumes "edges_ok g"
  shows "lookup_name g d n = Option.bind (bmap_get (dir_name_idx g) (d, n)) (edge_at g)"
proof (cases "dir_name_idx g = []")
  case False
  show ?thesis
  proof (cases "bmap_get (dir_name_idx g) (d, n)")
    case (Some e)
    then obtain t where "edge_at g e = Some (Contains e d t n)"
      using name_idx_iff [OF assms] by blast
    then show ?thesis
      using False Some get_edge_at [OF assms] by (simp add: lookup_name_def)
  qed (simp add: lookup_name_def False)
next
  case True
  then have "mi_get (dir_contains g) d = []"
    using dir_edges_iff [OF assms, of _ d] name_idx_iff [OF assms, of d]
    by (metis last_in_set map_of.simps(1) option.distinct(1))
  then show ?thesis
    using True by (auto simp: lookup_name_def mi_get_def split: option.splits)
qed

lemma resolve_name_eq: "edges_ok g \<Longrightarrow> resolve_name g d n = names_of g (d, n)"
  by (auto simp: resolve_name_def lookup_name_eq names_of_def split: option.splits bind_splits edge.splits)

lemma parent_dir_iff:
  "edges_ok g \<Longrightarrow> dirs_ok g \<Longrightarrow>
     parent_dir g d = Some p \<longleftrightarrow>
       (\<exists>i. names_of g (d, ''..'') = Some i \<and> fs_dir (fs_of g) p = Some i)"
  using dir_for_inode_iff [of g] by (auto simp: parent_dir_def resolve_name_eq split: option.splits)

section \<open>Edit steps\<close>

text \<open>
  Every operation adds a \<open>Contains\<close> edge with the same three statements: \<open>insert_edge\<close>, then
  the edge joins the directory's set and the inode's incoming set.
\<close>

definition attach_contains :: "edge_id \<Rightarrow> dir_id \<Rightarrow> inode_id \<Rightarrow> string \<Rightarrow> type_graph \<Rightarrow> type_graph" where
  "attach_contains eid d i name g =
     (let g = insert_edge eid (Contains eid d i name) g;
          g = g\<lparr>dir_contains := mi_add d eid (dir_contains g)\<rparr>
      in g\<lparr>inode_incoming_contains := mi_add i eid (inode_incoming_contains g)\<rparr>)"

text \<open>Removing one: \<open>remove_edge\<close>, then the edge leaves both sets.\<close>

definition unindex_contains :: "edge_id \<Rightarrow> dir_id \<Rightarrow> inode_id \<Rightarrow> type_graph \<Rightarrow> type_graph" where
  "unindex_contains eid d i g =
     (let g = g\<lparr>dir_contains := mi_del d eid (dir_contains g)\<rparr>
      in g\<lparr>inode_incoming_contains := mi_del i eid (inode_incoming_contains g)\<rparr>)"

definition detach_contains :: "edge_id \<Rightarrow> dir_id \<Rightarrow> inode_id \<Rightarrow> type_graph \<Rightarrow> type_graph" where
  "detach_contains eid d i g = unindex_contains eid d i (snd (remove_edge eid g))"

text \<open>Moving the target of an edge, as the rename of a directory does with its \<open>..\<close> edge.\<close>

definition retarget_contains :: "edge_id \<Rightarrow> inode_id \<Rightarrow> inode_id \<Rightarrow> type_graph \<Rightarrow> type_graph" where
  "retarget_contains eid old_tgt new_tgt g =
     (let g = g\<lparr>inode_incoming_contains := mi_del old_tgt eid (inode_incoming_contains g)\<rparr>;
          g = get_edge_mut eid (set_contains_tgt new_tgt) g
      in g\<lparr>inode_incoming_contains := mi_add new_tgt eid (inode_incoming_contains g)\<rparr>)"

text \<open>What the edit steps leave alone.\<close>

lemma attach_frame [frame_simps]:
  "inodes (attach_contains e d i n g) = inodes g" "dirs (attach_contains e d i n g) = dirs g"
  "blocks (attach_contains e d i n g) = blocks g" "caps (attach_contains e d i n g) = caps g"
  "next_inode (attach_contains e d i n g) = next_inode g"
  "next_dir (attach_contains e d i n g) = next_dir g"
  "next_edge (attach_contains e d i n g) = next_edge g"
  "next_block (attach_contains e d i n g) = next_block g"
  "inode_points_to (attach_contains e d i n g) = inode_points_to g"
  "dir_for_inode_idx (attach_contains e d i n g) = dir_for_inode_idx g"
  "root_dir (attach_contains e d i n g) = root_dir g"
  "root_inode (attach_contains e d i n g) = root_inode g"
  "quotas (attach_contains e d i n g) = quotas g"
  "cap_ctx (attach_contains e d i n g) = cap_ctx g"
  by (simp_all add: attach_contains_def insert_edge_def)

lemma remove_edge_frame [frame_simps]:
  "inodes (snd (remove_edge e g)) = inodes g" "dirs (snd (remove_edge e g)) = dirs g"
  "blocks (snd (remove_edge e g)) = blocks g" "caps (snd (remove_edge e g)) = caps g"
  "next_inode (snd (remove_edge e g)) = next_inode g"
  "next_dir (snd (remove_edge e g)) = next_dir g"
  "next_edge (snd (remove_edge e g)) = next_edge g"
  "next_block (snd (remove_edge e g)) = next_block g"
  "dir_contains (snd (remove_edge e g)) = dir_contains g"
  "inode_incoming_contains (snd (remove_edge e g)) = inode_incoming_contains g"
  "inode_points_to (snd (remove_edge e g)) = inode_points_to g"
  "dir_for_inode_idx (snd (remove_edge e g)) = dir_for_inode_idx g"
  "root_dir (snd (remove_edge e g)) = root_dir g"
  "root_inode (snd (remove_edge e g)) = root_inode g"
  "quotas (snd (remove_edge e g)) = quotas g"
  "cap_ctx (snd (remove_edge e g)) = cap_ctx g"
  by (simp_all add: remove_edge_def Let_def split: prod.split option.split edge.split)

lemma detach_frame [frame_simps]:
  "inodes (detach_contains e d i g) = inodes g" "dirs (detach_contains e d i g) = dirs g"
  "blocks (detach_contains e d i g) = blocks g" "caps (detach_contains e d i g) = caps g"
  "next_inode (detach_contains e d i g) = next_inode g"
  "next_dir (detach_contains e d i g) = next_dir g"
  "next_edge (detach_contains e d i g) = next_edge g"
  "next_block (detach_contains e d i g) = next_block g"
  "inode_points_to (detach_contains e d i g) = inode_points_to g"
  "dir_for_inode_idx (detach_contains e d i g) = dir_for_inode_idx g"
  "root_dir (detach_contains e d i g) = root_dir g"
  "root_inode (detach_contains e d i g) = root_inode g"
  "quotas (detach_contains e d i g) = quotas g"
  "cap_ctx (detach_contains e d i g) = cap_ctx g"
  by (simp_all add: detach_contains_def unindex_contains_def frame_simps)

lemma retarget_frame [frame_simps]:
  "inodes (retarget_contains e old t g) = inodes g" "dirs (retarget_contains e old t g) = dirs g"
  "blocks (retarget_contains e old t g) = blocks g" "caps (retarget_contains e old t g) = caps g"
  "next_inode (retarget_contains e old t g) = next_inode g"
  "next_dir (retarget_contains e old t g) = next_dir g"
  "next_edge (retarget_contains e old t g) = next_edge g"
  "next_block (retarget_contains e old t g) = next_block g"
  "inode_points_to (retarget_contains e old t g) = inode_points_to g"
  "dir_for_inode_idx (retarget_contains e old t g) = dir_for_inode_idx g"
  "root_dir (retarget_contains e old t g) = root_dir g"
  "root_inode (retarget_contains e old t g) = root_inode g"
  "quotas (retarget_contains e old t g) = quotas g"
  "cap_ctx (retarget_contains e old t g) = cap_ctx g"
  by (simp_all add: retarget_contains_def get_edge_mut_def)

section \<open>Attaching an edge\<close>

lemma attach_edge_at:
  assumes "edges_ok g" "e < EDGE_CAPACITY" "edge_at g e = None"
  shows "edge_at (attach_contains e d i n g) = (edge_at g)(e \<mapsto> Contains e d i n)"
  using edges_okD(1,2) [OF assms(1)] assms(2,3)
  by (simp add: attach_contains_def insert_edge_def canonical_small slot_simps)

lemma edge_gone: "edges_ok g \<Longrightarrow> names_of g (d, n) = None \<Longrightarrow> edge_at g e \<noteq> Some (Contains e d t n)"
  using names_of_iff [of g d n t] by auto

lemma attach_edges_ok:
  assumes ok: "edges_ok g" and e: "e < EDGE_CAPACITY" "e < next_edge g" "edge_at g e = None"
    and fresh: "names_of g (d, n) = None"
  shows "edges_ok (attach_contains e d i n g)"
proof -
  let ?g = "attach_contains e d i n g"
  note E = attach_edge_at [OF ok e(1,3)]
  have key: "bmap_get (dir_name_idx g) (d, n) = None"
    using name_idx_iff [OF ok, of d n] edge_gone [OF ok fresh]
    by (cases "bmap_get (dir_name_idx g) (d, n)") blast+
  have fields: "edges ?g = snd (ar_insert_at e (Contains e d i n) (edges g))"
    "dir_contains ?g = mi_add d e (dir_contains g)"
    "inode_incoming_contains ?g = mi_add i e (inode_incoming_contains g)"
    "dir_name_idx ?g = bmap_insert (d, n) e (dir_name_idx g)"
    using e(1) by (simp_all add: attach_contains_def insert_edge_def canonical_small)
  have "mi_exact (dir_contains ?g) (proj contains_src (edge_at ?g))"
    using mi.exact_add [OF edges_okD(7) [OF ok]] e(3) by (simp add: fields(2) E proj_None)
  moreover have "mi_exact (inode_incoming_contains ?g) (proj contains_tgt (edge_at ?g))"
    using mi.exact_add [OF edges_okD(8) [OF ok]] e(3) by (simp add: fields(3) E proj_None)
  moreover have "mi_exact (inode_points_to ?g) (proj points_src (edge_at ?g))"
    using mi.exact_same [OF edges_okD(9) [OF ok]] e(3) by (auto simp: frame_simps E proj_None)
  moreover have "map_exact (dir_name_idx ?g) (proj contains_key (edge_at ?g))"
    using map_exact_insert [OF edges_okD(10) [OF ok]] e(3) key by (simp add: fields(4) E proj_None)
  moreover have "\<forall>e' x. edge_at ?g e' = Some x \<longrightarrow> edge_id x = e' \<and> e' < next_edge ?g"
    using edges_okD(11,12) [OF ok] e(2) by (simp add: E frame_simps)
  moreover have "ar_inv (edges ?g)" "ar_capacity (edges ?g) = EDGE_CAPACITY"
    using edges_okD(1,2) [OF ok] by (simp_all add: fields(1) ar.inv_put ar.cap_put)
  moreover have "mi_ok (dir_contains ?g)" "mi_ok (inode_incoming_contains ?g)"
    "mi_ok (inode_points_to ?g)" "bmap_ok (dir_name_idx ?g)"
    using edges_okD(3-6) [OF ok] by (simp_all add: fields(2-4) frame_simps mi.inv_add)
  ultimately show ?thesis
    unfolding edges_ok_def by blast
qed

lemma names_of_ext:
  assumes "edges_ok g" "edges_ok g'"
    and "\<And>d n t. (\<exists>e. edge_at g' e = Some (Contains e d t n)) \<longleftrightarrow> f (d, n) = Some t"
  shows "names_of g' = f"
proof
  fix k :: "dir_id \<times> string"
  obtain d n where k: "k = (d, n)" by (cases k)
  have "names_of g' k = Some t \<longleftrightarrow> f k = Some t" for t
    using assms(3) names_of_iff [OF assms(2)] by (simp add: k)
  then show "names_of g' k = f k" by (metis option.exhaust)
qed

lemma ex_upd_other:
  "w \<noteq> Q e \<Longrightarrow> E e \<noteq> Q e \<Longrightarrow> (\<exists>e'. (E(e := w)) e' = Q e') \<longleftrightarrow> (\<exists>e'. E e' = Q e')"
  by (metis fun_upd_apply)

lemma ex_upd_same:
  "(\<And>e'. E e' = Q e' \<Longrightarrow> e' = e) \<Longrightarrow> (\<exists>e'. (E(e := w)) e' = Q e') \<longleftrightarrow> w = Q e"
  by (metis fun_upd_apply)

lemmas edge_upd_simps =
  ex_upd_other [where Q = "\<lambda>e'. Some (Contains e' d t n)" for d t n]
  ex_upd_same [where Q = "\<lambda>e'. Some (Contains e' d t n)" for d t n]

lemma attach_names:
  assumes ok: "edges_ok g" and e: "e < EDGE_CAPACITY" "e < next_edge g" "edge_at g e = None"
    and fresh: "names_of g (d, n) = None"
  shows "names_of (attach_contains e d i n g) = (names_of g)((d, n) \<mapsto> i)"
proof (rule names_of_ext [OF ok attach_edges_ok [OF assms]])
  fix d' n' t
  show "(\<exists>e'. edge_at (attach_contains e d i n g) e' = Some (Contains e' d' t n')) \<longleftrightarrow>
        ((names_of g)((d, n) \<mapsto> i)) (d', n') = Some t"
  proof (cases "(d', n') = (d, n)")
    case True
    then show ?thesis
      using edge_upd_simps(2) [of "edge_at g" d t n e "Some (Contains e d i n)"] edge_gone [OF ok fresh]
      unfolding attach_edge_at [OF ok e(1,3)] by auto
  next
    case False
    then have "Some (Contains e d i n) \<noteq> Some (Contains e d' t n')" "edge_at g e \<noteq> Some (Contains e d' t n')"
      using e(3) by auto
    from edge_upd_simps(1) [where E = "edge_at g", OF this] show ?thesis
      using names_of_iff [OF ok, of d' n' t] False unfolding attach_edge_at [OF ok e(1,3)] by auto
  qed
qed

section \<open>Detaching an edge\<close>

lemma detach_fields:
  assumes "edges_ok g" "edge_at g e = Some (Contains e d i n)"
  shows "edges (detach_contains e d i g) = snd (ar_remove e (edges g))"
    "dir_contains (detach_contains e d i g) = mi_del d e (dir_contains g)"
    "inode_incoming_contains (detach_contains e d i g) = mi_del i e (inode_incoming_contains g)"
    "dir_name_idx (detach_contains e d i g) = bmap_remove (d, n) (dir_name_idx g)"
proof -
  obtain a where "ar_remove e (edges g) = (Some (Contains e d i n), a)"
    using ar.del_val [OF edges_okD(1) [OF assms(1)], of e] assms(2)
    by (cases "ar_remove e (edges g)") auto
  then show "edges (detach_contains e d i g) = snd (ar_remove e (edges g))"
    "dir_contains (detach_contains e d i g) = mi_del d e (dir_contains g)"
    "inode_incoming_contains (detach_contains e d i g) = mi_del i e (inode_incoming_contains g)"
    "dir_name_idx (detach_contains e d i g) = bmap_remove (d, n) (dir_name_idx g)"
    using edge_canonical [OF assms]
    by (simp_all add: detach_contains_def unindex_contains_def remove_edge_def)
qed

lemma detach_edge_at:
  assumes "edges_ok g" "edge_at g e = Some (Contains e d i n)"
  shows "edge_at (detach_contains e d i g) = (edge_at g)(e := None)"
  using edges_okD(1) [OF assms(1)] by (simp add: detach_fields(1) [OF assms] slot_simps)

lemma detach_edges_ok:
  assumes ok: "edges_ok g" and e: "edge_at g e = Some (Contains e d i n)"
  shows "edges_ok (detach_contains e d i g)"
proof -
  let ?g = "detach_contains e d i g"
  note E = detach_edge_at [OF assms] and fields = detach_fields [OF assms]
  have "mi_exact (dir_contains ?g) (proj contains_src (edge_at ?g))"
    using mi.exact_del [OF edges_okD(7) [OF ok]] e by (simp add: fields(2) E proj_Some)
  moreover have "mi_exact (inode_incoming_contains ?g) (proj contains_tgt (edge_at ?g))"
    using mi.exact_del [OF edges_okD(8) [OF ok]] e by (simp add: fields(3) E proj_Some)
  moreover have "mi_exact (inode_points_to ?g) (proj points_src (edge_at ?g))"
    using mi.exact_same [OF edges_okD(9) [OF ok]] e by (auto simp: frame_simps E proj_Some)
  moreover have "map_exact (dir_name_idx ?g) (proj contains_key (edge_at ?g))"
    using map_exact_remove [OF edges_okD(10) [OF ok]] e by (simp add: fields(4) E proj_Some)
  moreover have "\<forall>e' x. edge_at ?g e' = Some x \<longrightarrow> edge_id x = e' \<and> e' < next_edge ?g"
    using edges_okD(11,12) [OF ok] by (simp add: E frame_simps)
  moreover have "ar_inv (edges ?g)" "ar_capacity (edges ?g) = EDGE_CAPACITY"
    using edges_okD(1,2) [OF ok] by (simp_all add: fields(1) ar.inv_del ar.cap_del)
  moreover have "mi_ok (dir_contains ?g)" "mi_ok (inode_incoming_contains ?g)"
    "mi_ok (inode_points_to ?g)" "bmap_ok (dir_name_idx ?g)"
    using edges_okD(3-6) [OF ok] by (simp_all add: fields(2-4) frame_simps mi.inv_del)
  ultimately show ?thesis
    unfolding edges_ok_def by blast
qed

lemma detach_names:
  assumes ok: "edges_ok g" and e: "edge_at g e = Some (Contains e d i n)"
  shows "names_of (detach_contains e d i g) = (names_of g)((d, n) := None)"
proof (rule names_of_ext [OF ok detach_edges_ok [OF assms]])
  fix d' n' t
  show "(\<exists>e'. edge_at (detach_contains e d i g) e' = Some (Contains e' d' t n')) \<longleftrightarrow>
        ((names_of g)((d, n) := None)) (d', n') = Some t"
  proof (cases "(d', n') = (d, n)")
    case True
    then show ?thesis
      using edge_upd_simps(2) [of "edge_at g" d t n e "None"] edge_key_unique [OF ok e]
      unfolding detach_edge_at [OF assms] by auto
  next
    case False
    then have "None \<noteq> Some (Contains e d' t n')" "edge_at g e \<noteq> Some (Contains e d' t n')"
      using e by auto
    from edge_upd_simps(1) [where E = "edge_at g", OF this] show ?thesis
      using names_of_iff [OF ok, of d' n' t] False unfolding detach_edge_at [OF assms] by auto
  qed
qed

section \<open>Moving an edge\<close>

lemma retarget_fields:
  assumes "edges_ok g" "edge_at g e = Some (Contains e d old n)"
  shows "edges (retarget_contains e old new g) = ar_get_mut e (set_contains_tgt new) (edges g)"
    "dir_contains (retarget_contains e old new g) = dir_contains g"
    "inode_incoming_contains (retarget_contains e old new g) =
       mi_add new e (mi_del old e (inode_incoming_contains g))"
    "dir_name_idx (retarget_contains e old new g) = dir_name_idx g"
  using edge_canonical [OF assms] by (simp_all add: retarget_contains_def get_edge_mut_def)

lemma retarget_edge_at:
  assumes "edges_ok g" "edge_at g e = Some (Contains e d old n)"
  shows "edge_at (retarget_contains e old new g) = (edge_at g)(e \<mapsto> Contains e d new n)"
  using edges_okD(1) [OF assms(1)] assms(2) by (simp add: retarget_fields(1) [OF assms] slot_simps)

lemma retarget_edges_ok:
  assumes ok: "edges_ok g" and e: "edge_at g e = Some (Contains e d old n)"
  shows "edges_ok (retarget_contains e old new g)"
proof -
  let ?g = "retarget_contains e old new g"
  note E = retarget_edge_at [OF assms] and fields = retarget_fields [OF assms]
  have "mi_exact (dir_contains ?g) (proj contains_src (edge_at ?g))"
    using mi.exact_same [OF edges_okD(7) [OF ok]] e by (auto simp: fields(2) E proj_Some)
  moreover have "mi_exact (inode_incoming_contains ?g) (proj contains_tgt (edge_at ?g))"
    using mi.exact_move [OF edges_okD(8) [OF ok]] e by (simp add: fields(3) E proj_Some)
  moreover have "mi_exact (inode_points_to ?g) (proj points_src (edge_at ?g))"
    using mi.exact_same [OF edges_okD(9) [OF ok]] e by (auto simp: frame_simps E proj_Some)
  moreover have "map_exact (dir_name_idx ?g) (proj contains_key (edge_at ?g))"
    using edges_okD(10) [OF ok] e by (simp add: fields(4) E fun_upd_idem proj_Some)
  moreover have "\<forall>e' x. edge_at ?g e' = Some x \<longrightarrow> edge_id x = e' \<and> e' < next_edge ?g"
    using edges_okD(11,12) [OF ok] e by (auto simp: E frame_simps)
  moreover have "ar_inv (edges ?g)" "ar_capacity (edges ?g) = EDGE_CAPACITY"
    using edges_okD(1,2) [OF ok] by (simp_all add: fields(1) ar.inv_upd ar.cap_upd)
  moreover have "mi_ok (dir_contains ?g)" "mi_ok (inode_incoming_contains ?g)"
    "mi_ok (inode_points_to ?g)" "bmap_ok (dir_name_idx ?g)"
    using edges_okD(3-6) [OF ok] by (simp_all add: fields(2-4) frame_simps mi.inv_del mi.inv_add)
  ultimately show ?thesis
    unfolding edges_ok_def by blast
qed

lemma retarget_names:
  assumes ok: "edges_ok g" and e: "edge_at g e = Some (Contains e d old n)"
  shows "names_of (retarget_contains e old new g) = (names_of g)((d, n) \<mapsto> new)"
proof (rule names_of_ext [OF ok retarget_edges_ok [OF assms]])
  fix d' n' t
  show "(\<exists>e'. edge_at (retarget_contains e old new g) e' = Some (Contains e' d' t n')) \<longleftrightarrow>
        ((names_of g)((d, n) \<mapsto> new)) (d', n') = Some t"
  proof (cases "(d', n') = (d, n)")
    case True
    then show ?thesis
      using edge_upd_simps(2) [of "edge_at g" d t n e "Some (Contains e d new n)"] edge_key_unique [OF ok e]
      unfolding retarget_edge_at [OF assms] by auto
  next
    case False
    then have "Some (Contains e d new n) \<noteq> Some (Contains e d' t n')" "edge_at g e \<noteq> Some (Contains e d' t n')"
      using e by auto
    from edge_upd_simps(1) [where E = "edge_at g", OF this] show ?thesis
      using names_of_iff [OF ok, of d' n' t] False unfolding retarget_edge_at [OF assms] by auto
  qed
qed

end
