(* ===== verification/Sotfs_Ops.thy ===== *)
theory Sotfs_Ops
  imports Sotfs_View
begin

text \<open>
  The rewriting rules of \<open>sotfs-ops/src/lib.rs\<close> that change the directory tree, and the quota
  walks they call.  An operation takes the graph and returns its outcome together with the graph
  it leaves behind; \<open>clk i\<close> is the reading of its \<open>i\<close>-th call site of \<open>now()\<close>.
\<close>

section \<open>Early returns\<close>

text \<open>The \<open>?\<close> operator on a check that does not change the graph.\<close>

fun try_res :: "'a res \<Rightarrow> type_graph \<Rightarrow> ('a \<Rightarrow> 'b res \<times> type_graph) \<Rightarrow> 'b res \<times> type_graph" where
  "try_res (Ok x) g k = k x"
| "try_res (Err e) g k = (Err e, g)"
| "try_res Panic g k = (Panic, g)"
| "try_res Diverge g k = (Diverge, g)"

text \<open>The \<open>?\<close> operator on an operation that does.\<close>

fun and_then :: "'a res \<times> type_graph \<Rightarrow> ('a \<Rightarrow> type_graph \<Rightarrow> 'b res \<times> type_graph) \<Rightarrow> 'b res \<times> type_graph"
  where
  "and_then (r, g) k = try_res r g (\<lambda>x. k x g)"

fun ok_or :: "'a option \<Rightarrow> graph_error \<Rightarrow> 'a res" where
  "ok_or (Some x) e = Ok x"
| "ok_or None e = Err e"

text \<open>A loop that may not return.\<close>

fun returns :: "type_graph option \<Rightarrow> type_graph \<Rightarrow> (type_graph \<Rightarrow> 'b res \<times> type_graph) \<Rightarrow> 'b res \<times> type_graph"
  where
  "returns (Some g') g k = k g'"
| "returns None g k = (Diverge, g)"

section \<open>Quotas\<close>

partial_function (option) check_quota_inode_loop :: "type_graph \<Rightarrow> dir_id \<Rightarrow> unit res option" where
  "check_quota_inode_loop g d =
     (if (case bmap_get (quotas g) d of Some q \<Rightarrow> \<not> check_inode q | None \<Rightarrow> False)
      then Some (Err (QuotaExceeded d ResInode))
      else (case parent_dir g d of
              None \<Rightarrow> Some (Ok ())
            | Some p \<Rightarrow> (if p = d then Some (Ok ()) else check_quota_inode_loop g p)))"

declare check_quota_inode_loop.simps [code]

definition check_quota_inode :: "type_graph \<Rightarrow> dir_id \<Rightarrow> unit res" where
  "check_quota_inode g d = (case check_quota_inode_loop g d of None \<Rightarrow> Diverge | Some r \<Rightarrow> r)"

partial_function (option) check_quota_bytes_loop ::
    "type_graph \<Rightarrow> u64 \<Rightarrow> dir_id \<Rightarrow> unit res option" where
  "check_quota_bytes_loop g additional d =
     (if (case bmap_get (quotas g) d of Some q \<Rightarrow> \<not> check_bytes q additional | None \<Rightarrow> False)
      then Some (Err (QuotaExceeded d ResBytes))
      else (case parent_dir g d of
              None \<Rightarrow> Some (Ok ())
            | Some p \<Rightarrow> (if p = d then Some (Ok ()) else check_quota_bytes_loop g additional p)))"

declare check_quota_bytes_loop.simps [code]

definition check_quota_bytes :: "type_graph \<Rightarrow> dir_id \<Rightarrow> u64 \<Rightarrow> unit res" where
  "check_quota_bytes g d additional =
     (case check_quota_bytes_loop g additional d of None \<Rightarrow> Diverge | Some r \<Rightarrow> r)"

text \<open>The deltas are \<open>i64\<close>; their casts to \<open>u64\<close> are exact, as both are non-negative there.\<close>

definition apply_delta :: "int \<Rightarrow> u64 \<Rightarrow> u64" where
  "apply_delta delta usage =
     (if delta > 0 then saturating_add_u64 usage (word_of_int delta)
      else saturating_sub_u64 usage (word_of_int (- delta)))"

definition quota_apply :: "int \<Rightarrow> int \<Rightarrow> quota \<Rightarrow> quota" where
  "quota_apply delta_inodes delta_bytes q =
     q\<lparr>inode_usage := apply_delta delta_inodes (inode_usage q),
       byte_usage := apply_delta delta_bytes (byte_usage q)\<rparr>"

partial_function (option) update_quota_loop ::
    "int \<Rightarrow> int \<Rightarrow> type_graph \<Rightarrow> dir_id \<Rightarrow> type_graph option" where
  "update_quota_loop delta_inodes delta_bytes g d =
     (let g = g\<lparr>quotas := bmap_modify d (quota_apply delta_inodes delta_bytes) (quotas g)\<rparr> in
      case parent_dir g d of
        None \<Rightarrow> Some g
      | Some p \<Rightarrow> (if p = d then Some g else update_quota_loop delta_inodes delta_bytes g p))"

declare update_quota_loop.simps [code]

definition update_quota :: "type_graph \<Rightarrow> dir_id \<Rightarrow> int \<Rightarrow> int \<Rightarrow> type_graph option" where
  "update_quota g d delta_inodes delta_bytes = update_quota_loop delta_inodes delta_bytes g d"

section \<open>Creating\<close>

definition bad_name :: "string \<Rightarrow> bool" where
  "bad_name name \<longleftrightarrow> name = [] \<or> name = ''.'' \<or> name = ''..'' \<or>
     CHR ''/'' \<in> set name \<or> CHR 0x00 \<in> set name"

definition create_file ::
    "clock \<Rightarrow> type_graph \<Rightarrow> dir_id \<Rightarrow> string \<Rightarrow> u32 \<Rightarrow> u32 \<Rightarrow> permissions \<Rightarrow> inode_id res \<times> type_graph"
  where
  "create_file clk g parent name u gi perm =
     try_res (require_cap g WRITE) g (\<lambda>_.
     if bad_name name then (Err (NameNotFound name), g)
     else if resolve_name g parent name \<noteq> None then (Err (NameExists parent name), g)
     else if \<not> contains_dir g parent then (Err (DirNotFound parent), g)
     else try_res (check_quota_inode g parent) g (\<lambda>_.
       let (i, g) = alloc_inode_id g;
           (eid, g) = alloc_edge_id g;
           inode = (new_file (clk 0) i perm u gi)\<lparr>link_count := 1\<rparr>;
           g = insert_inode i inode g;
           g = attach_contains eid parent i name g
       in returns (update_quota g parent 1 0) g (\<lambda>g.
            (Ok i, record_prov (clk 1) PCreate i name g))))"

record create_result =
  cr_inode_id :: inode_id
  cr_dir_id :: "dir_id option"

definition mkdir ::
    "clock \<Rightarrow> type_graph \<Rightarrow> dir_id \<Rightarrow> string \<Rightarrow> u32 \<Rightarrow> u32 \<Rightarrow> permissions \<Rightarrow> create_result res \<times> type_graph"
  where
  "mkdir clk g parent name u gi perm =
     try_res (require_cap g WRITE) g (\<lambda>_.
     if bad_name name then (Err (NameNotFound name), g)
     else if resolve_name g parent name \<noteq> None then (Err (NameExists parent name), g)
     else try_res (ok_or (get_dir g parent) (DirNotFound parent)) g (\<lambda>pd.
     try_res (check_quota_inode g parent) g (\<lambda>_.
       let parent_inode = dir_inode_id pd;
           (i, g) = alloc_inode_id g;
           (d, g) = alloc_dir_id g;
           (entry_edge, g) = alloc_edge_id g;
           (dot_edge, g) = alloc_edge_id g;
           (dotdot_edge, g) = alloc_edge_id g;
           inode = (new_dir (clk 0) i perm u gi)\<lparr>link_count := 2\<rparr>;
           g = insert_inode i inode g;
           g = insert_dir d \<lparr>dir_id = d, dir_inode_id = i\<rparr> g;
           g = attach_contains entry_edge parent i name g;
           g = attach_contains dot_edge d i ''.'' g;
           g = attach_contains dotdot_edge d parent_inode ''..'' g
       in returns (update_quota g parent 1 0) g (\<lambda>g.
            (Ok \<lparr>cr_inode_id = i, cr_dir_id = Some d\<rparr>, record_prov (clk 1) PMkdir i name g)))))"

section \<open>Removing a directory\<close>

fun has_user_entry :: "type_graph \<Rightarrow> edge_id list \<Rightarrow> bool" where
  "has_user_entry g [] = False"
| "has_user_entry g (eid # eids) =
     (case get_edge g eid of
        Some (Contains _ _ _ n) \<Rightarrow> (if n \<noteq> ''.'' \<and> n \<noteq> ''..'' then True else has_user_entry g eids)
      | _ \<Rightarrow> has_user_entry g eids)"

definition is_entry :: "type_graph \<Rightarrow> inode_id \<Rightarrow> string \<Rightarrow> edge_id \<Rightarrow> bool" where
  "is_entry g t name eid =
     (case get_edge g eid of
        Some (Contains _ _ tgt n) \<Rightarrow> tgt = t \<and> n = name
      | _ \<Rightarrow> False)"

text \<open>One iteration of the removal loop.\<close>

definition remove_contains :: "edge_id \<Rightarrow> type_graph \<Rightarrow> type_graph" where
  "remove_contains eid g =
     (case remove_edge eid g of
        (Some (Contains _ src tgt _), g) \<Rightarrow> unindex_contains eid src tgt g
      | (_, g) \<Rightarrow> g)"

definition rmdir :: "clock \<Rightarrow> type_graph \<Rightarrow> dir_id \<Rightarrow> string \<Rightarrow> unit res \<times> type_graph" where
  "rmdir clk g parent name =
     try_res (require_cap g WRITE) g (\<lambda>_.
     if name = ''.'' \<or> name = ''..'' then (Err (NameNotFound name), g)
     else try_res (ok_or (resolve_name g parent name) (NameNotFound name)) g (\<lambda>t.
     try_res (ok_or (get_inode g t) (InodeNotFound t)) g (\<lambda>inode.
     if vtype inode \<noteq> Directory then (Err (NotADirectory t), g)
     else try_res (ok_or (dir_for_inode g t) (NotADirectory t)) g (\<lambda>td.
     if has_user_entry g (mi_get (dir_contains g) td) then (Err (DirNotEmpty td), g)
     else
       (let edges_to_remove =
              filter (is_entry g t name) (mi_get (dir_contains g) parent) @
              mi_get (dir_contains g) td;
            g = fold remove_contains edges_to_remove g;
            g = snd (remove_inode t g);
            g = snd (remove_dir td g);
            g = g\<lparr>dir_contains := bmap_remove td (dir_contains g)\<rparr>;
            g = g\<lparr>inode_incoming_contains := bmap_remove t (inode_incoming_contains g)\<rparr>
        in returns (update_quota g parent (- 1) 0) g (\<lambda>g.
             (Ok (), record_prov (clk 0) PRmdir t name g)))))))"

section \<open>Hard links\<close>

definition link :: "clock \<Rightarrow> type_graph \<Rightarrow> dir_id \<Rightarrow> string \<Rightarrow> inode_id \<Rightarrow> unit res \<times> type_graph" where
  "link clk g d name t =
     try_res (require_cap g WRITE) g (\<lambda>_.
     if name = ''.'' \<or> name = ''..'' then (Err (NameNotFound name), g)
     else if resolve_name g d name \<noteq> None then (Err (NameExists d name), g)
     else try_res (ok_or (get_inode g t) (InodeNotFound t)) g (\<lambda>inode.
     if vtype inode = Directory then (Err (LinkToDirectory t), g)
     else if link_count inode \<ge> LINK_MAX then (Err (LinkCountExceeded LINK_MAX), g)
     else
       (let (eid, g) = alloc_edge_id g;
            g = attach_contains eid d t name g
        in if get_inode g t = None then (Panic, g)
           else
             (let g = get_inode_mut t (\<lambda>n. n\<lparr>link_count := link_count n + 1\<rparr>) g
              in (Ok (), record_prov (clk 0) PLink t name g)))))"

fun find_named :: "type_graph \<Rightarrow> string \<Rightarrow> edge_id list \<Rightarrow> (edge_id \<times> inode_id) option" where
  "find_named g name [] = None"
| "find_named g name (eid # eids) =
     (case get_edge g eid of
        Some (Contains _ _ tgt n) \<Rightarrow> (if n = name then Some (eid, tgt) else find_named g name eids)
      | _ \<Rightarrow> find_named g name eids)"

text \<open>One iteration of the loop that releases the extents of a freed inode.\<close>

definition drop_extent :: "edge_id \<Rightarrow> type_graph \<Rightarrow> type_graph" where
  "drop_extent eid g =
     (case remove_edge eid g of
        (Some (PointsTo _ _ b _), g) \<Rightarrow>
          (case get_block g b of
             Some blk \<Rightarrow>
               (let g = get_block_mut b (\<lambda>x. x\<lparr>refcount := refcount x - 1\<rparr>) g
                in if refcount blk - 1 = 0 then snd (remove_block b g) else g)
           | None \<Rightarrow> g)
      | (_, g) \<Rightarrow> g)"

definition gc_inode :: "inode_id \<Rightarrow> type_graph \<Rightarrow> type_graph" where
  "gc_inode t g =
     (let pts_edges = mi_get (inode_points_to g) t;
          g = g\<lparr>inode_points_to := bmap_remove t (inode_points_to g)\<rparr>;
          g = fold drop_extent pts_edges g;
          g = snd (remove_inode t g)
      in g\<lparr>inode_incoming_contains := bmap_remove t (inode_incoming_contains g)\<rparr>)"

definition unlink :: "clock \<Rightarrow> type_graph \<Rightarrow> dir_id \<Rightarrow> string \<Rightarrow> unit res \<times> type_graph" where
  "unlink clk g d name =
     try_res (require_cap g WRITE) g (\<lambda>_.
     if name = ''.'' \<or> name = ''..'' then (Err (NameNotFound name), g)
     else try_res (ok_or (bmap_get (dir_contains g) d) (DirNotFound d)) g (\<lambda>eids.
     try_res (ok_or (find_named g name eids) (NameNotFound name)) g (\<lambda>(eid, t).
     try_res (ok_or (get_inode g t) (InodeNotFound t)) g (\<lambda>inode.
     if vtype inode = Directory then (Err (NotAFile t), g)
     else
       (let g = detach_contains eid d t g
        in case get_inode g t of
             None \<Rightarrow> (Panic, g)
           | Some n \<Rightarrow>
               (let g = get_inode_mut t (\<lambda>n. n\<lparr>link_count := link_count n - 1\<rparr>) g;
                    freed = (link_count n - 1 = 0);
                    g = (if freed then gc_inode t g else g)
                in returns (if freed then update_quota g d (- 1) 0 else Some g) g (\<lambda>g.
                     (Ok (), record_prov (clk 0) PUnlink t name g))))))))"

section \<open>Renaming\<close>

text \<open>An existing destination is unlinked, or removed when it is a directory.\<close>

definition replace_dst :: "clock \<Rightarrow> type_graph \<Rightarrow> dir_id \<Rightarrow> string \<Rightarrow> inode_id option \<Rightarrow> unit res \<times> type_graph"
  where
  "replace_dst clk g d name dst =
     (case dst of
        None \<Rightarrow> (Ok (), g)
      | Some di \<Rightarrow>
          try_res (ok_or (get_inode g di) (InodeNotFound di)) g (\<lambda>n.
          if vtype n = Directory then rmdir clk g d name else unlink clk g d name))"

definition rename_same_dir ::
    "clock \<Rightarrow> type_graph \<Rightarrow> dir_id \<Rightarrow> string \<Rightarrow> string \<Rightarrow> unit res \<times> type_graph" where
  "rename_same_dir clk g d src_name dst_name =
     try_res (ok_or (resolve_name g d src_name) (NameNotFound src_name)) g (\<lambda>src_inode.
     if src_name = dst_name then (Ok (), g)
     else and_then (replace_dst clk g d dst_name (resolve_name g d dst_name)) (\<lambda>_ g.
     try_res (ok_or (bmap_get (dir_contains g) d) (DirNotFound d)) g (\<lambda>eids.
     try_res (ok_or (find (is_entry g src_inode src_name) eids) (NameNotFound src_name)) g (\<lambda>eid.
       (Ok (), snd (rename_contains_edge eid dst_name g))))))"

text \<open>The \<open>..\<close> edge of a directory that moved under \<open>dst_dir\<close>.\<close>

definition is_dotdot :: "type_graph \<Rightarrow> edge_id \<Rightarrow> bool" where
  "is_dotdot g eid =
     (case get_edge g eid of
        Some (Contains _ _ _ n) \<Rightarrow> n = ''..''
      | _ \<Rightarrow> False)"

definition move_dotdot :: "inode_id \<Rightarrow> dir_id \<Rightarrow> type_graph \<Rightarrow> type_graph" where
  "move_dotdot src_inode dst_dir g =
     (case get_inode g src_inode of
        None \<Rightarrow> g
      | Some inode \<Rightarrow>
          if vtype inode \<noteq> Directory then g
          else (case (dir_for_inode g src_inode, get_dir g dst_dir) of
             (Some child_dir, Some dd) \<Rightarrow>
               (case find (is_dotdot g) (mi_get (dir_contains g) child_dir) of
                  None \<Rightarrow> g
                | Some eid \<Rightarrow>
                    (case get_edge g eid of
                       Some (Contains _ _ old _) \<Rightarrow> retarget_contains eid old (dir_inode_id dd) g
                     | _ \<Rightarrow> g\<lparr>inode_incoming_contains :=
                              mi_add (dir_inode_id dd) eid (inode_incoming_contains g)\<rparr>))
           | _ \<Rightarrow> g))"

definition would_cycle :: "type_graph \<Rightarrow> inode_id \<Rightarrow> dir_id \<Rightarrow> bool option" where
  "would_cycle g src_inode dst_dir =
     (case get_inode g src_inode of
        None \<Rightarrow> Some False
      | Some inode \<Rightarrow>
          if vtype inode \<noteq> Directory then Some False
          else (case dir_for_inode g src_inode of
                  None \<Rightarrow> Some False
                | Some src_child_dir \<Rightarrow> is_ancestor g src_child_dir dst_dir))"

definition rename_cross_dir ::
    "clock \<Rightarrow> type_graph \<Rightarrow> dir_id \<Rightarrow> string \<Rightarrow> dir_id \<Rightarrow> string \<Rightarrow> unit res \<times> type_graph" where
  "rename_cross_dir clk g src_dir src_name dst_dir dst_name =
     try_res (ok_or (resolve_name g src_dir src_name) (NameNotFound src_name)) g (\<lambda>src_inode.
     let dst_exists = resolve_name g dst_dir dst_name in
     case would_cycle g src_inode dst_dir of
       None \<Rightarrow> (Diverge, g)
     | Some True \<Rightarrow> (Err WouldCreateCycle, g)
     | Some False \<Rightarrow>
         and_then (replace_dst clk g dst_dir dst_name dst_exists) (\<lambda>_ g.
         try_res (ok_or (bmap_get (dir_contains g) src_dir) (DirNotFound src_dir)) g (\<lambda>eids.
         try_res (ok_or (find (is_entry g src_inode src_name) eids) (NameNotFound src_name)) g (\<lambda>src_edge.
           let g = detach_contains src_edge src_dir src_inode g;
               (new_edge, g) = alloc_edge_id g;
               g = attach_contains new_edge dst_dir src_inode dst_name g
           in (Ok (), move_dotdot src_inode dst_dir g)))))"

definition rename ::
    "clock \<Rightarrow> type_graph \<Rightarrow> dir_id \<Rightarrow> string \<Rightarrow> dir_id \<Rightarrow> string \<Rightarrow> unit res \<times> type_graph" where
  "rename clk g src_dir src_name dst_dir dst_name =
     try_res (require_cap g WRITE) g (\<lambda>_.
     if src_name = ''.'' \<or> src_name = ''..'' \<or> dst_name = ''.'' \<or> dst_name = ''..''
     then (Err (NameNotFound src_name), g)
     else
       (let (result, g) =
              (if src_dir = dst_dir then rename_same_dir clk g src_dir src_name dst_name
               else rename_cross_dir clk g src_dir src_name dst_dir dst_name)
        in if is_ok result
           then (let inode = (case resolve_name g dst_dir dst_name of Some i \<Rightarrow> i | None \<Rightarrow> 0)
                 in (result, record_prov (clk 1) PRename inode dst_name g))
           else (result, g)))"

section \<open>Extents\<close>

definition write_block :: "type_graph \<Rightarrow> inode_id \<Rightarrow> u64 \<Rightarrow> u64 \<Rightarrow> u64 \<Rightarrow> block_id res \<times> type_graph" where
  "write_block g i offset start cnt =
     try_res (require_cap g WRITE) g (\<lambda>_.
     if \<not> contains_inode g i then (Err (InodeNotFound i), g)
     else
       (let (b, g) = alloc_block_id g;
            (eid, g) = alloc_edge_id g;
            g = insert_block b \<lparr>block_id = b, sector_start = start, sector_count = cnt, refcount = 1\<rparr> g;
            g = insert_edge eid (PointsTo eid i b offset) g
        in (Ok b, g\<lparr>inode_points_to := mi_add i eid (inode_points_to g)\<rparr>)))"

end
