(* ===== verification/Sotfs_Steps.thy ===== *)
theory Sotfs_Steps
  imports Sotfs_Ops
begin

text \<open>
  What every edit step of the operations does to the representation invariant \<open>rep_ok\<close> and to
  the abstract view \<open>fs_of\<close>.  The proofs of the operations only chain these lemmas.
\<close>

section \<open>Fields the invariant does not read\<close>

lemma names_of_cong: "dir_name_idx g' = dir_name_idx g \<Longrightarrow> edges g' = edges g \<Longrightarrow> names_of g' = names_of g"
  by (simp add: names_of_def fun_eq_iff)

lemma rep_ok_quotas [simp]: "rep_ok (g\<lparr>quotas := q\<rparr>) = rep_ok g" "fs_of (g\<lparr>quotas := q\<rparr>) = fs_of g"
  by (simp_all add: rep_ok_def edges_ok_def dirs_ok_def inodes_ok_def blocks_ok_def fs_of_def
      names_of_def fun_eq_iff)

lemma rep_ok_prov_log [simp]:
  "rep_ok (g\<lparr>prov_log := q\<rparr>) = rep_ok g" "fs_of (g\<lparr>prov_log := q\<rparr>) = fs_of g"
  by (simp_all add: rep_ok_def edges_ok_def dirs_ok_def inodes_ok_def blocks_ok_def fs_of_def
      names_of_def fun_eq_iff)

lemma rep_ok_file_data [simp]:
  "rep_ok (g\<lparr>file_data := q\<rparr>) = rep_ok g" "fs_of (g\<lparr>file_data := q\<rparr>) = fs_of g"
  by (simp_all add: rep_ok_def edges_ok_def dirs_ok_def inodes_ok_def blocks_ok_def fs_of_def
      names_of_def fun_eq_iff)

lemma rep_ok_symlink_targets [simp]:
  "rep_ok (g\<lparr>symlink_targets := q\<rparr>) = rep_ok g" "fs_of (g\<lparr>symlink_targets := q\<rparr>) = fs_of g"
  by (simp_all add: rep_ok_def edges_ok_def dirs_ok_def inodes_ok_def blocks_ok_def fs_of_def
      names_of_def fun_eq_iff)

lemma record_prov_frame [frame_simps]:
  "root_dir (record_prov t op i s g) = root_dir g" "root_inode (record_prov t op i s g) = root_inode g"
  "inodes (record_prov t op i s g) = inodes g" "edges (record_prov t op i s g) = edges g"
  "next_inode (record_prov t op i s g) = next_inode g" "next_dir (record_prov t op i s g) = next_dir g"
  "next_edge (record_prov t op i s g) = next_edge g" "next_block (record_prov t op i s g) = next_block g"
  "quotas (record_prov t op i s g) = quotas g" "file_data (record_prov t op i s g) = file_data g"
  "blocks (record_prov t op i s g) = blocks g" "dirs (record_prov t op i s g) = dirs g"
  "inode_points_to (record_prov t op i s g) = inode_points_to g"
  "caps (record_prov t op i s g) = caps g" "cap_ctx (record_prov t op i s g) = cap_ctx g"
  by (simp_all add: record_prov_def Let_def split: option.split)

lemma record_prov_view [simp]:
  "rep_ok (record_prov t op i s g) = rep_ok g" "fs_of (record_prov t op i s g) = fs_of g"
  by (simp_all add: record_prov_def Let_def split: option.split)

section \<open>Counters\<close>

lemma succ_u64_small: "n < EDGE_CAPACITY \<Longrightarrow> succ_u64 n = n + 1" "n < NODE_CAPACITY \<Longrightarrow> succ_u64 n = n + 1"
  by (simp_all add: succ_u64_def EDGE_CAPACITY_def NODE_CAPACITY_def)

lemma next_edge_step:
  "rep_ok g \<Longrightarrow> next_edge g \<le> k \<Longrightarrow> rep_ok (g\<lparr>next_edge := k\<rparr>)" "fs_of (g\<lparr>next_edge := k\<rparr>) = fs_of g"
  by (auto simp: rep_ok_def edges_ok_def dirs_ok_def inodes_ok_def blocks_ok_def fs_of_def
      names_of_def fun_eq_iff intro: less_le_trans [of _ "next_edge g"])

lemma names_of_counters [simp]:
  "names_of (g\<lparr>next_edge := k\<rparr>) = names_of g" "names_of (g\<lparr>next_inode := k\<rparr>) = names_of g"
  "names_of (g\<lparr>next_dir := k\<rparr>) = names_of g"
  by (simp_all add: names_of_def fun_eq_iff)

lemma next_inode_step:
  "rep_ok g \<Longrightarrow> next_inode g \<le> k \<Longrightarrow> rep_ok (g\<lparr>next_inode := k\<rparr>)" "fs_of (g\<lparr>next_inode := k\<rparr>) = fs_of g"
  by (auto simp: rep_ok_def edges_ok_def dirs_ok_def inodes_ok_def blocks_ok_def fs_of_def
      names_of_def fun_eq_iff intro: less_le_trans [of _ "next_inode g"])

lemma next_dir_step:
  "rep_ok g \<Longrightarrow> next_dir g \<le> k \<Longrightarrow> rep_ok (g\<lparr>next_dir := k\<rparr>)" "fs_of (g\<lparr>next_dir := k\<rparr>) = fs_of g"
  by (auto simp: rep_ok_def edges_ok_def dirs_ok_def inodes_ok_def blocks_ok_def fs_of_def
      names_of_def fun_eq_iff intro: less_le_trans [of _ "next_dir g"])

lemma next_block_step:
  "rep_ok g \<Longrightarrow> next_block g \<le> k \<Longrightarrow> rep_ok (g\<lparr>next_block := k\<rparr>)" "fs_of (g\<lparr>next_block := k\<rparr>) = fs_of g"
  by (auto simp: rep_ok_def edges_ok_def dirs_ok_def inodes_ok_def blocks_ok_def fs_of_def
      names_of_def fun_eq_iff intro: less_le_trans [of _ "next_block g"])

section \<open>Edges between directories and inodes\<close>

lemma blocks_ok_cong:
  assumes "blocks_ok g" "blocks g' = blocks g" "next_block g' = next_block g"
    and "proj points_tgt (edge_at g') = proj points_tgt (edge_at g)"
    and "proj points_src (edge_at g') = proj points_src (edge_at g)"
    and "dom (inode_at g) \<subseteq> dom (inode_at g')"
  shows "blocks_ok g'"
  using assms(1,6) unfolding blocks_ok_def refs_to_def assms(2-5) by blast

lemma dirs_ok_cong:
  "dirs_ok g \<Longrightarrow> dirs g' = dirs g \<Longrightarrow> dir_for_inode_idx g' = dir_for_inode_idx g \<Longrightarrow>
     next_dir g' = next_dir g \<Longrightarrow> dirs_ok g'"
  by (simp add: dirs_ok_def)

lemma inodes_ok_cong:
  "inodes_ok g \<Longrightarrow> inodes g' = inodes g \<Longrightarrow> next_inode g' = next_inode g \<Longrightarrow> inodes_ok g'"
  by (simp add: inodes_ok_def)

lemma edges_ok_cong:
  "edges_ok g \<Longrightarrow> edges g' = edges g \<Longrightarrow> dir_contains g' = dir_contains g \<Longrightarrow>
     inode_incoming_contains g' = inode_incoming_contains g \<Longrightarrow>
     inode_points_to g' = inode_points_to g \<Longrightarrow> dir_name_idx g' = dir_name_idx g \<Longrightarrow>
     next_edge g' = next_edge g \<Longrightarrow> edges_ok g'"
  by (simp add: edges_ok_def)

lemma rep_okD: "rep_ok g \<Longrightarrow> edges_ok g" "rep_ok g \<Longrightarrow> dirs_ok g" "rep_ok g \<Longrightarrow> inodes_ok g"
  "rep_ok g \<Longrightarrow> blocks_ok g"
  by (simp_all add: rep_ok_def)

lemma fresh_edge: "rep_ok g \<Longrightarrow> next_edge g \<le> e \<Longrightarrow> edge_at g e = None"
  using edges_okD(12) [OF rep_okD(1), of g e] by (cases "edge_at g e") fastforce+

lemma fresh_inode: "rep_ok g \<Longrightarrow> next_inode g \<le> i \<Longrightarrow> inode_at g i = None"
  by (cases "inode_at g i") (auto simp: rep_ok_def inodes_ok_def simp flip: not_le)

lemma fresh_dir: "rep_ok g \<Longrightarrow> next_dir g \<le> d \<Longrightarrow> dir_at g d = None"
  by (cases "dir_at g d") (auto simp: rep_ok_def dirs_ok_def simp flip: not_le)

lemma fresh_block: "rep_ok g \<Longrightarrow> next_block g \<le> b \<Longrightarrow> block_at g b = None"
  by (cases "block_at g b") (auto simp: rep_ok_def blocks_ok_def simp flip: not_le)

lemma fs_of_name_step:
  assumes "inodes g' = inodes g" "dirs g' = dirs g" "root_dir g' = root_dir g" "names_of g' = f"
  shows "fs_of g' = (fs_of g)\<lparr>fs_name := f\<rparr>"
  using assms by (simp add: fs_of_def)

lemma attach_step:
  assumes ok: "rep_ok g" and e: "e < EDGE_CAPACITY" "e < next_edge g" "edge_at g e = None"
    and fresh: "names_of g (d, n) = None"
  shows "rep_ok (attach_contains e d i n g)"
    and "fs_of (attach_contains e d i n g) = (fs_of g)\<lparr>fs_name := (names_of g)((d, n) \<mapsto> i)\<rparr>"
proof -
  note E = attach_edge_at [OF rep_okD(1) [OF ok] e(1,3)]
  show "rep_ok (attach_contains e d i n g)"
    unfolding rep_ok_def
    using attach_edges_ok [OF rep_okD(1) [OF ok] e fresh] dirs_ok_cong [OF rep_okD(2) [OF ok]]
      inodes_ok_cong [OF rep_okD(3) [OF ok]] blocks_ok_cong [OF rep_okD(4) [OF ok]] e(3)
    by (simp add: frame_simps E fun_upd_idem proj_None)
  show "fs_of (attach_contains e d i n g) = (fs_of g)\<lparr>fs_name := (names_of g)((d, n) \<mapsto> i)\<rparr>"
    by (rule fs_of_name_step) (simp_all add: frame_simps attach_names [OF rep_okD(1) [OF ok] e fresh])
qed

lemma detach_step:
  assumes ok: "rep_ok g" and e: "edge_at g e = Some (Contains e d i n)"
  shows "rep_ok (detach_contains e d i g)"
    and "fs_of (detach_contains e d i g) = (fs_of g)\<lparr>fs_name := (names_of g)((d, n) := None)\<rparr>"
proof -
  note E = detach_edge_at [OF rep_okD(1) [OF ok] e]
  show "rep_ok (detach_contains e d i g)"
    unfolding rep_ok_def
    using detach_edges_ok [OF rep_okD(1) [OF ok] e] dirs_ok_cong [OF rep_okD(2) [OF ok]]
      inodes_ok_cong [OF rep_okD(3) [OF ok]] blocks_ok_cong [OF rep_okD(4) [OF ok]] e
    by (simp add: frame_simps E fun_upd_idem proj_Some)
  show "fs_of (detach_contains e d i g) = (fs_of g)\<lparr>fs_name := (names_of g)((d, n) := None)\<rparr>"
    by (rule fs_of_name_step) (simp_all add: frame_simps detach_names [OF rep_okD(1) [OF ok] e])
qed

lemma retarget_step:
  assumes ok: "rep_ok g" and e: "edge_at g e = Some (Contains e d old n)"
  shows "rep_ok (retarget_contains e old new g)"
    and "fs_of (retarget_contains e old new g) = (fs_of g)\<lparr>fs_name := (names_of g)((d, n) \<mapsto> new)\<rparr>"
proof -
  note E = retarget_edge_at [OF rep_okD(1) [OF ok] e]
  show "rep_ok (retarget_contains e old new g)"
    unfolding rep_ok_def
    using retarget_edges_ok [OF rep_okD(1) [OF ok] e] dirs_ok_cong [OF rep_okD(2) [OF ok]]
      inodes_ok_cong [OF rep_okD(3) [OF ok]] blocks_ok_cong [OF rep_okD(4) [OF ok]] e
    by (simp add: frame_simps E fun_upd_idem proj_Some)
  show "fs_of (retarget_contains e old new g) = (fs_of g)\<lparr>fs_name := (names_of g)((d, n) \<mapsto> new)\<rparr>"
    by (rule fs_of_name_step) (simp_all add: frame_simps retarget_names [OF rep_okD(1) [OF ok] e])
qed

section \<open>Nodes\<close>

lemma insert_inode_step:
  assumes ok: "rep_ok g" and i: "i < NODE_CAPACITY" "i < next_inode g" "inode_at g i = None"
    and x: "inode_id x = i"
  shows "rep_ok (insert_inode i x g)"
    and "fs_of (insert_inode i x g) = (fs_of g)\<lparr>fs_inode := (inode_at g)(i \<mapsto> x)\<rparr>"
proof -
  have inv: "ar_inv (inodes g)" "ar_capacity (inodes g) = NODE_CAPACITY"
    using ok by (auto simp: rep_ok_def inodes_ok_def)
  have I: "inode_at (insert_inode i x g) = (inode_at g)(i \<mapsto> x)"
    using inv i by (simp add: insert_inode_def canonical_small slot_simps)
  have "inodes_ok (insert_inode i x g)"
    using rep_okD(3) [OF ok] i x unfolding inodes_ok_def I
    by (auto simp: insert_inode_def canonical_small slot_simps)
  moreover have "blocks_ok (insert_inode i x g)"
    by (rule blocks_ok_cong [OF rep_okD(4) [OF ok]]) (auto simp: I, simp_all add: insert_inode_def)
  ultimately show "rep_ok (insert_inode i x g)"
    using edges_ok_cong [OF rep_okD(1) [OF ok]] dirs_ok_cong [OF rep_okD(2) [OF ok]]
    by (simp add: rep_ok_def insert_inode_def)
  show "fs_of (insert_inode i x g) = (fs_of g)\<lparr>fs_inode := (inode_at g)(i \<mapsto> x)\<rparr>"
    using I names_of_cong [of "insert_inode i x g" g] by (simp add: fs_of_def insert_inode_def)
qed

lemma update_inode_step:
  assumes ok: "rep_ok g" and i: "inode_at g i = Some x" and f: "inode_id (f x) = inode_id x"
  shows "rep_ok (get_inode_mut i f g)"
    and "fs_of (get_inode_mut i f g) = (fs_of g)\<lparr>fs_inode := (inode_at g)(i \<mapsto> f x)\<rparr>"
proof -
  have inv: "ar_inv (inodes g)" "ar_capacity (inodes g) = NODE_CAPACITY" and c: "canonical i"
    using ok inode_canonical [OF rep_okD(3) [OF ok] i] by (auto simp: rep_ok_def inodes_ok_def)
  have I: "inode_at (get_inode_mut i f g) = (inode_at g)(i \<mapsto> f x)"
    using inv i c by (simp add: get_inode_mut_def slot_simps)
  have "inodes_ok (get_inode_mut i f g)"
    using rep_okD(3) [OF ok] i f c unfolding inodes_ok_def I
    by (auto simp: get_inode_mut_def slot_simps)
  moreover have "blocks_ok (get_inode_mut i f g)"
    by (rule blocks_ok_cong [OF rep_okD(4) [OF ok]]) (auto simp: I, simp_all add: get_inode_mut_def)
  ultimately show "rep_ok (get_inode_mut i f g)"
    using edges_ok_cong [OF rep_okD(1) [OF ok]] dirs_ok_cong [OF rep_okD(2) [OF ok]]
    by (simp add: rep_ok_def get_inode_mut_def)
  show "fs_of (get_inode_mut i f g) = (fs_of g)\<lparr>fs_inode := (inode_at g)(i \<mapsto> f x)\<rparr>"
    using I names_of_cong [of "get_inode_mut i f g" g] by (simp add: fs_of_def get_inode_mut_def)
qed

lemma remove_inode_step:
  assumes ok: "rep_ok g" and i: "canonical i"
    and unused: "\<And>e. proj points_src (edge_at g) e \<noteq> Some i"
  shows "rep_ok (snd (remove_inode i g))"
    and "fs_of (snd (remove_inode i g)) = (fs_of g)\<lparr>fs_inode := (inode_at g)(i := None)\<rparr>"
proof -
  have inv: "ar_inv (inodes g)" "ar_capacity (inodes g) = NODE_CAPACITY"
    using ok by (auto simp: rep_ok_def inodes_ok_def)
  have eq: "snd (remove_inode i g) = g\<lparr>inodes := snd (ar_remove i (inodes g))\<rparr>"
    using i by (simp add: remove_inode_def split: prod.split)
  have I: "inode_at (snd (remove_inode i g)) = (inode_at g)(i := None)"
    using inv by (simp add: eq slot_simps)
  have "inodes_ok (snd (remove_inode i g))"
    using rep_okD(3) [OF ok] unfolding inodes_ok_def I by (auto simp: eq slot_simps)
  moreover have "blocks_ok (snd (remove_inode i g))"
    using rep_okD(4) [OF ok] unused unfolding blocks_ok_def I by (auto simp: eq)
  ultimately show "rep_ok (snd (remove_inode i g))"
    using edges_ok_cong [OF rep_okD(1) [OF ok]] dirs_ok_cong [OF rep_okD(2) [OF ok]]
    by (simp add: rep_ok_def eq)
  show "fs_of (snd (remove_inode i g)) = (fs_of g)\<lparr>fs_inode := (inode_at g)(i := None)\<rparr>"
    using I names_of_cong [of "snd (remove_inode i g)" g] by (simp add: fs_of_def eq)
qed

lemma insert_dir_step:
  assumes ok: "rep_ok g" and d: "d < NODE_CAPACITY" "d < next_dir g" "dir_at g d = None"
    and x: "dir_id x = d" "dir_for_inode g (dir_inode_id x) = None"
  shows "rep_ok (insert_dir d x g)"
    and "fs_of (insert_dir d x g) = (fs_of g)\<lparr>fs_dir := (fs_dir (fs_of g))(d \<mapsto> dir_inode_id x)\<rparr>"
proof -
  have inv: "ar_inv (dirs g)" "ar_capacity (dirs g) = NODE_CAPACITY"
    and ex: "map_exact (dir_for_inode_idx g) (\<lambda>d. map_option dir_inode_id (dir_at g d))"
    using ok by (auto simp: rep_ok_def dirs_ok_def)
  have D: "dir_at (insert_dir d x g) = (dir_at g)(d \<mapsto> x)"
    using inv d by (simp add: insert_dir_def canonical_small slot_simps)
  have upd: "(\<lambda>b. map_option dir_inode_id (((dir_at g)(d \<mapsto> x)) b)) =
      (\<lambda>b. map_option dir_inode_id (dir_at g b))(d \<mapsto> dir_inode_id x)"
    by (simp add: fun_eq_iff)
  have "map_exact (dir_for_inode_idx (insert_dir d x g))
          (\<lambda>b. map_option dir_inode_id (dir_at (insert_dir d x g) b))"
    using map_exact_insert [OF ex, of d "dir_inode_id x"] d(3) x(2)
    unfolding D upd by (simp add: insert_dir_def dir_for_inode_def)
  then have "dirs_ok (insert_dir d x g)"
    using rep_okD(2) [OF ok] d x unfolding dirs_ok_def D
    by (auto simp: insert_dir_def canonical_small slot_simps)
  moreover have "blocks_ok (insert_dir d x g)"
    by (rule blocks_ok_cong [OF rep_okD(4) [OF ok]]) (simp_all add: insert_dir_def)
  ultimately show "rep_ok (insert_dir d x g)"
    using edges_ok_cong [OF rep_okD(1) [OF ok]] inodes_ok_cong [OF rep_okD(3) [OF ok]]
    by (simp add: rep_ok_def insert_dir_def)
  show "fs_of (insert_dir d x g) = (fs_of g)\<lparr>fs_dir := (fs_dir (fs_of g))(d \<mapsto> dir_inode_id x)\<rparr>"
    using D upd names_of_cong [of "insert_dir d x g" g] by (simp add: fs_of_def insert_dir_def)
qed

lemma remove_dir_step:
  assumes ok: "rep_ok g" and d: "dir_at g d = Some x"
  shows "rep_ok (snd (remove_dir d g))"
    and "fs_of (snd (remove_dir d g)) = (fs_of g)\<lparr>fs_dir := (fs_dir (fs_of g))(d := None)\<rparr>"
proof -
  have inv: "ar_inv (dirs g)" "ar_capacity (dirs g) = NODE_CAPACITY"
    and ex: "map_exact (dir_for_inode_idx g) (\<lambda>d. map_option dir_inode_id (dir_at g d))"
    and c: "canonical d"
    using ok dir_canonical [OF rep_okD(2) [OF ok] d] by (auto simp: rep_ok_def dirs_ok_def)
  have rm: "ar_remove d (dirs g) = (Some x, snd (ar_remove d (dirs g)))"
    using ar.del_val [OF inv(1), of d] d by (cases "ar_remove d (dirs g)") simp
  have eq: "snd (remove_dir d g) = g\<lparr>dirs := snd (ar_remove d (dirs g)),
      dir_for_inode_idx := bmap_remove (dir_inode_id x) (dir_for_inode_idx g)\<rparr>"
    using c by (subst remove_dir_def, simp, subst rm) simp
  have D: "dir_at (snd (remove_dir d g)) = (dir_at g)(d := None)"
    using inv by (simp add: eq slot_simps)
  have upd: "(\<lambda>b. map_option dir_inode_id (((dir_at g)(d := None)) b)) =
      (\<lambda>b. map_option dir_inode_id (dir_at g b))(d := None)"
    by (simp add: fun_eq_iff)
  have "map_exact (dir_for_inode_idx (snd (remove_dir d g)))
          (\<lambda>b. map_option dir_inode_id (dir_at (snd (remove_dir d g)) b))"
    using map_exact_remove [OF ex, of d "dir_inode_id x"] d unfolding D upd by (simp add: eq)
  then have "dirs_ok (snd (remove_dir d g))"
    using rep_okD(2) [OF ok] unfolding dirs_ok_def D by (auto simp: eq slot_simps)
  moreover have "blocks_ok (snd (remove_dir d g))"
    by (rule blocks_ok_cong [OF rep_okD(4) [OF ok]]) (simp_all add: eq)
  ultimately show "rep_ok (snd (remove_dir d g))"
    using edges_ok_cong [OF rep_okD(1) [OF ok]] inodes_ok_cong [OF rep_okD(3) [OF ok]]
    by (simp add: rep_ok_def eq)
  show "fs_of (snd (remove_dir d g)) = (fs_of g)\<lparr>fs_dir := (fs_dir (fs_of g))(d := None)\<rparr>"
    using D upd names_of_cong [of "snd (remove_dir d g)" g] by (simp add: fs_of_def eq)
qed

section \<open>Dropping empty index entries\<close>

lemma clear_dir_step:
  assumes ok: "rep_ok g" and "\<And>e t n. edge_at g e \<noteq> Some (Contains e d t n)"
  shows "rep_ok (g\<lparr>dir_contains := bmap_remove d (dir_contains g)\<rparr>)"
    and "fs_of (g\<lparr>dir_contains := bmap_remove d (dir_contains g)\<rparr>) = fs_of g"
proof -
  have "d \<notin> ran (proj contains_src (edge_at g))"
    using assms(2) edges_okD(11) [OF rep_okD(1) [OF ok]]
    by (fastforce simp: ran_def proj_eq_Some contains_src_iff)
  then show "rep_ok (g\<lparr>dir_contains := bmap_remove d (dir_contains g)\<rparr>)"
    using ok by (auto simp: rep_ok_def edges_ok_def dirs_ok_def inodes_ok_def blocks_ok_def
        mi.inv_clear mi.exact_clear)
qed (simp add: fs_of_def names_of_def fun_eq_iff)

lemma clear_incoming_step:
  assumes ok: "rep_ok g" and "\<And>e d n. edge_at g e \<noteq> Some (Contains e d t n)"
  shows "rep_ok (g\<lparr>inode_incoming_contains := bmap_remove t (inode_incoming_contains g)\<rparr>)"
    and "fs_of (g\<lparr>inode_incoming_contains := bmap_remove t (inode_incoming_contains g)\<rparr>) = fs_of g"
proof -
  have "t \<notin> ran (proj contains_tgt (edge_at g))"
    using assms(2) edges_okD(11) [OF rep_okD(1) [OF ok]]
    by (fastforce simp: ran_def proj_eq_Some contains_tgt_iff)
  then show "rep_ok (g\<lparr>inode_incoming_contains := bmap_remove t (inode_incoming_contains g)\<rparr>)"
    using ok by (auto simp: rep_ok_def edges_ok_def dirs_ok_def inodes_ok_def blocks_ok_def
        mi.inv_clear mi.exact_clear)
qed (simp add: fs_of_def names_of_def fun_eq_iff)

end
