(* ===== verification/Sotfs_WellFormed.thy ===== *)
theory Sotfs_WellFormed
  imports Sotfs_Steps
begin

text \<open>
  Well-formed graphs: consistent representation, well-formed abstract file system, and a root
  directory whose inode is the recorded root inode.  The fresh graph is well-formed; on a
  well-formed graph \<open>..\<close> leads to the unique parent, so the quota walks end at the root, and
  their effect on every ancestor is determined.
\<close>

definition no_dir_extents :: "type_graph \<Rightarrow> bool" where
  "no_dir_extents g \<longleftrightarrow> (\<forall>i. is_dir (fs_of g) i \<longrightarrow> mi_get (inode_points_to g) i = [])"

definition well_formed :: "type_graph \<Rightarrow> bool" where
  "well_formed g \<longleftrightarrow>
     rep_ok g \<and> fs_ok (fs_of g) \<and> fs_dir (fs_of g) (root_dir g) = Some (root_inode g) \<and>
     no_dir_extents g"

lemma well_formedD:
  "well_formed g \<Longrightarrow> rep_ok g" "well_formed g \<Longrightarrow> fs_ok (fs_of g)"
  "well_formed g \<Longrightarrow> edges_ok g" "well_formed g \<Longrightarrow> dirs_ok g" "well_formed g \<Longrightarrow> inodes_ok g"
  "well_formed g \<Longrightarrow> blocks_ok g" "well_formed g \<Longrightarrow> fs_dir (fs_of g) (root_dir g) = Some (root_inode g)"
  "well_formed g \<Longrightarrow> is_dir (fs_of g) i \<Longrightarrow> mi_get (inode_points_to g) i = []"
  by (simp_all add: well_formed_def rep_ok_def no_dir_extents_def)

lemma well_formedI:
  "rep_ok g \<Longrightarrow> fs_of g = f \<Longrightarrow> fs_ok f \<Longrightarrow> fs_dir f (root_dir g) = Some (root_inode g) \<Longrightarrow>
     (\<And>i. is_dir f i \<Longrightarrow> mi_get (inode_points_to g) i = []) \<Longrightarrow> well_formed g"
  by (auto simp: well_formed_def no_dir_extents_def)

lemma well_formed_quotas [simp]: "well_formed (g\<lparr>quotas := q\<rparr>) = well_formed g"
  by (simp add: well_formed_def no_dir_extents_def)

lemma well_formed_record_prov [simp]: "well_formed (record_prov t op i s g) = well_formed g"
  by (simp add: well_formed_def frame_simps no_dir_extents_def)

lemma fresh_extents:
  assumes ok: "rep_ok g" and i: "inode_at g i = None"
  shows "mi_get (inode_points_to g) i = []"
proof -
  have "proj points_src (edge_at g) e \<noteq> Some i" for e
    using rep_okD(4) [OF ok] i unfolding blocks_ok_def by blast
  then have "e \<notin> set (mi_get (inode_points_to g) i)" for e
    using mi.exactD [OF edges_okD(9) [OF rep_okD(1) [OF ok]]] by blast
  then show ?thesis by (metis list.set_intros(1) neq_Nil_conv)
qed

lemma no_extents_no_edges:
  "edges_ok g \<Longrightarrow> mi_get (inode_points_to g) i = [] \<Longrightarrow> proj points_src (edge_at g) e \<noteq> Some i"
  using mi.exactD [OF edges_okD(9), of g e i] by auto

section \<open>The fresh graph\<close>

lemma empty_graph_rep: "rep_ok empty_graph"
  by (simp add: empty_graph_def rep_ok_def edges_ok_def dirs_ok_def inodes_ok_def blocks_ok_def
      mi_exact_iff map_exact_def proj_def EDGE_CAPACITY_def NODE_CAPACITY_def)

lemma new_boxed_steps:
  "new_boxed clk =
     attach_contains 1 1 1 ''.'' (insert_dir 1 \<lparr>dir_id = 1, dir_inode_id = 1\<rparr>
       (insert_inode 1 ((new_dir (clk 0) 1 DIR_DEFAULT 0 0)\<lparr>link_count := 1\<rparr>) empty_graph))"
  by (simp add: new_boxed_def attach_contains_def insert_edge_def insert_dir_def insert_inode_def Let_def)

lemma empty_view:
  "inode_at empty_graph = Map.empty" "dir_at empty_graph = Map.empty" "edge_at empty_graph = Map.empty"
  "names_of empty_graph = Map.empty" "root_dir empty_graph = 1" "root_inode empty_graph = 1"
  "next_inode empty_graph = 2" "next_dir empty_graph = 2" "next_edge empty_graph = 2"
  "dir_for_inode empty_graph i = None"
  by (simp_all add: empty_graph_def names_of_def dir_for_inode_def fun_eq_iff)

lemma new_boxed_view:
  "rep_ok (new_boxed clk) \<and>
   fs_of (new_boxed clk) =
     \<lparr>fs_inode = [1 \<mapsto> (new_dir (clk 0) 1 DIR_DEFAULT 0 0)\<lparr>link_count := 1\<rparr>], fs_dir = [1 \<mapsto> 1],
      fs_name = [(1, ''.'') \<mapsto> 1], fs_root = 1\<rparr> \<and>
   root_dir (new_boxed clk) = 1 \<and> root_inode (new_boxed clk) = 1"
proof -
  let ?x = "(new_dir (clk 0) 1 DIR_DEFAULT 0 0)\<lparr>link_count := 1\<rparr>"
  let ?g1 = "insert_inode 1 ?x empty_graph"
  let ?g2 = "insert_dir 1 \<lparr>dir_id = 1, dir_inode_id = 1\<rparr> ?g1"
  have 1: "rep_ok ?g1 \<and> fs_of ?g1 = (fs_of empty_graph)\<lparr>fs_inode := [1 \<mapsto> ?x]\<rparr>"
    using insert_inode_step [OF empty_graph_rep, of 1 ?x]
    by (simp add: empty_view NODE_CAPACITY_def new_dir_def del: One_nat_def)
  have f1: "next_dir ?g1 = 2" "dir_at ?g1 = Map.empty" "dir_for_inode ?g1 1 = None"
    "next_edge ?g1 = 2" "edge_at ?g1 = Map.empty" "names_of ?g1 = Map.empty"
    using 1 by (simp_all add: insert_inode_def dir_for_inode_def empty_graph_def names_of_def
        fun_eq_iff del: One_nat_def)
  have 2: "rep_ok ?g2 \<and> fs_of ?g2 = (fs_of ?g1)\<lparr>fs_dir := [1 \<mapsto> 1]\<rparr>"
    using insert_dir_step [of ?g1 1 "\<lparr>dir_id = 1, dir_inode_id = 1\<rparr>"] 1
    by (simp add: f1 NODE_CAPACITY_def empty_view del: One_nat_def)
  have f2: "next_edge ?g2 = 2" "edge_at ?g2 = Map.empty" "names_of ?g2 = Map.empty"
    using f1 by (simp_all add: insert_dir_def names_of_def fun_eq_iff del: One_nat_def)
  have "rep_ok (new_boxed clk) \<and> fs_of (new_boxed clk) = (fs_of ?g2)\<lparr>fs_name := [(1, ''.'') \<mapsto> 1]\<rparr>"
    unfolding new_boxed_steps using attach_step [of ?g2 1 1 "''.''" 1] 2
    by (simp add: f2 EDGE_CAPACITY_def del: One_nat_def)
  then show ?thesis
    using 1 2 by (simp add: fs_of_def empty_view del: One_nat_def)
       (simp add: new_boxed_def empty_graph_def Let_def)
qed

lemma new_boxed_well_formed: "well_formed (new_boxed clk)"
proof -
  let ?f = "fs_of (new_boxed clk)"
  note view = new_boxed_view [of clk, THEN conjunct2, THEN conjunct1]
  have de: "\<not> dir_entry ?f k c" for k c
    by (cases k) (auto simp: view dir_entry_def)
  have "{k. fs_name ?f k = Some 1 \<and> snd k \<noteq> ''..''} = {(1, ''.'')}"
    by (auto simp: view split: if_splits)
  then have "links_ok ?f"
    by (simp add: links_ok_def links_def view)
  moreover have "tree_ok ?f"
    using de by (simp add: tree_ok_def fs_child_def acyclic_def del: fs_of_simps) (simp add: view)
  moreover have "dirs_match ?f"
    by (auto simp: dirs_match_def is_dir_def view new_dir_def split: if_splits)
  ultimately show ?thesis
    using new_boxed_view [of clk]
    by (simp add: well_formed_def fs_ok_def names_ok_def no_dir_extents_def)
      (simp add: new_boxed_def empty_graph_def Let_def)
qed

section \<open>Reading a well-formed graph\<close>

lemma resolve_name_view: "well_formed g \<Longrightarrow> resolve_name g d n = fs_name (fs_of g) (d, n)"
  by (simp add: resolve_name_eq well_formedD)

lemma names_in_view: "well_formed g \<Longrightarrow> names_of g (d, n) = Some i \<Longrightarrow>
    (\<exists>x. inode_at g i = Some x) \<and> (\<exists>x. dir_at g d = Some x)"
  using fs_ok_entry [OF well_formedD(2), of g d n i] by auto

lemma contains_dir_view: "well_formed g \<Longrightarrow> canonical d \<Longrightarrow> contains_dir g d \<longleftrightarrow> fs_dir (fs_of g) d \<noteq> None"
  using well_formedD(4) [of g]
  by (auto simp: contains_dir_def ar_contains_get dirs_ok_def)

lemma child_dir_of_view:
  assumes wf: "well_formed g" and e: "edge_at g e = Some (Contains e d t n)"
  shows "child_dir_of g e = Some c \<longleftrightarrow> user_name n \<and> fs_dir (fs_of g) c = Some t"
proof -
  have nm: "names_of g (d, n) = Some t"
    using e names_of_iff [OF well_formedD(3) [OF wf]] by blast
  then obtain x where x: "inode_at g t = Some x" using names_in_view [OF wf] by blast
  have "vtype x = Directory" if "fs_dir (fs_of g) c = Some t"
    using fs_ok_dir(1) [OF well_formedD(2) [OF wf] that] x by (simp add: is_dir_def)
  then show ?thesis
    using get_edge_at [OF well_formedD(3) [OF wf] e] get_inode_at [OF well_formedD(5) [OF wf] x]
      dir_for_inode_iff [OF well_formedD(4) [OF wf], of t c]
    by (auto simp: child_dir_of_def user_name_def)
qed

lemma child_rel_view: "well_formed g \<Longrightarrow> child_rel g = fs_child (fs_of g)"
  using dir_edges_iff [OF well_formedD(3), of g] child_dir_of_view [of g]
    names_of_iff [OF well_formedD(3), of g]
  by (fastforce simp: child_rel_def fs_child_def dir_entry_def)

lemma parent_dir_view:
  assumes wf: "well_formed g"
  shows "parent_dir g d = Some p \<longleftrightarrow> (p, d) \<in> fs_child (fs_of g)"
proof
  assume "parent_dir g d = Some p"
  then obtain i where i: "fs_name (fs_of g) (d, ''..'') = Some i" "fs_dir (fs_of g) p = Some i"
    using parent_dir_iff [OF well_formedD(3) [OF wf] well_formedD(4) [OF wf]] by auto
  obtain n q where "dir_entry (fs_of g) (q, n) d" "fs_dir (fs_of g) q = Some i"
    by (rule dotdot_parent [OF well_formedD(2) [OF wf] i(1)])
  moreover from this have "q = p" using fs_ok_dir(3) [OF well_formedD(2) [OF wf]] i(2) by blast
  ultimately show "(p, d) \<in> fs_child (fs_of g)" by (auto simp: fs_child_def)
next
  assume "(p, d) \<in> fs_child (fs_of g)"
  then obtain n where e: "dir_entry (fs_of g) (p, n) d" by (auto simp: fs_child_def)
  then have "fs_name (fs_of g) (d, ''..'') = fs_dir (fs_of g) p" "fs_dir (fs_of g) p \<noteq> None"
    using dotdot_of_child [OF well_formedD(2) [OF wf] e] dir_entry_dir [OF well_formedD(2) [OF wf] e]
    by simp_all
  then show "parent_dir g d = Some p"
    using parent_dir_iff [OF well_formedD(3) [OF wf] well_formedD(4) [OF wf], of d p] by auto
qed

section \<open>Ancestors\<close>

lemma finite_child: "fs_ok f \<Longrightarrow> finite (fs_child f)"
proof -
  assume ok: "fs_ok f"
  have "fs_child f \<subseteq> fst ` dom (fs_name f) \<times> fst ` dom (fs_name f)"
    using fs_ok_dir(2) [OF ok] by (force simp: fs_child_def dir_entry_def)
  moreover have "finite (dom (fs_name f))" using ok by (simp add: fs_ok_def names_ok_def)
  ultimately show ?thesis by (meson finite_SigmaI finite_imageI finite_subset)
qed

lemma wf_child: "fs_ok f \<Longrightarrow> wf (fs_child f)"
  by (simp add: finite_acyclic_wf finite_child fs_ok_tree(1))

lemma ancestors_step:
  assumes ok: "fs_ok f" and "(p, d) \<in> fs_child f"
  shows "(a, d) \<in> (fs_child f)\<^sup>* \<longleftrightarrow> a = d \<or> (a, p) \<in> (fs_child f)\<^sup>*"
proof -
  have "q = p" if "(q, d) \<in> fs_child f" for q
    using fs_ok_tree(2) [OF ok, of "(q, n)" d "(p, m)" for n m] assms(2) that
    by (auto simp: fs_child_def)
  then show ?thesis using assms(2) by (metis rtrancl.simps)
qed

lemma ancestors_top:
  "(\<And>p. (p, d) \<notin> fs_child f) \<Longrightarrow> (a, d) \<in> (fs_child f)\<^sup>* \<longleftrightarrow> a = d"
  by (metis rtrancl.simps)

lemma not_own_ancestor:
  "fs_ok f \<Longrightarrow> (p, d) \<in> fs_child f \<Longrightarrow> (d, p) \<notin> (fs_child f)\<^sup>*"
  using fs_ok_tree(1) [of f] by (metis acyclic_def rtrancl_into_trancl1)

abbreviation ancestor_or_self :: "type_graph \<Rightarrow> dir_id \<Rightarrow> dir_id \<Rightarrow> bool" where
  "ancestor_or_self g a d \<equiv> (a, d) \<in> (fs_child (fs_of g))\<^sup>*"

section \<open>The quota walks\<close>

lemma name_lookup_quotas [simp]:
  "get_edge (g\<lparr>quotas := q\<rparr>) e = get_edge g e" "dir_for_inode (g\<lparr>quotas := q\<rparr>) i = dir_for_inode g i"
  by (simp_all add: get_edge_def dir_for_inode_def)

lemma scan_name_quotas [simp]: "scan_name (g\<lparr>quotas := q\<rparr>) n es = scan_name g n es"
  by (induction es) (simp_all split: option.split edge.split)

lemma parent_dir_quotas [simp]: "parent_dir (g\<lparr>quotas := q\<rparr>) d = parent_dir g d"
  by (simp add: parent_dir_def resolve_name_def lookup_name_def cong: option.case_cong)

text \<open>What a walk that applies \<open>F\<close> to every ancestor's quota leaves behind.\<close>

definition quotas_after :: "(quota \<Rightarrow> quota) \<Rightarrow> type_graph \<Rightarrow> dir_id \<Rightarrow> dir_id \<rightharpoonup> quota" where
  "quotas_after F g d a =
     (if ancestor_or_self g a d then map_option F (bmap_get (quotas g) a) else bmap_get (quotas g) a)"

lemma update_quota_loop_spec:
  assumes wf: "well_formed g"
  shows "\<exists>q. update_quota_loop di db (g\<lparr>quotas := q0\<rparr>) d = Some (g\<lparr>quotas := q\<rparr>) \<and>
           map_of q = (\<lambda>a. if ancestor_or_self g a d then map_option (quota_apply di db) (map_of q0 a)
                           else map_of q0 a)"
  using wf_child [OF well_formedD(2) [OF wf]]
proof (induction d arbitrary: q0)
  case (less d)
  let ?q1 = "bmap_modify d (quota_apply di db) q0"
  note unfold = update_quota_loop.simps [of di db "g\<lparr>quotas := q0\<rparr>" d]
  show ?case
  proof (cases "parent_dir g d")
    case None
    then have "ancestor_or_self g a d \<longleftrightarrow> a = d" for a
      by (intro ancestors_top) (simp flip: parent_dir_view [OF wf])
    then have "map_of ?q1 = (\<lambda>a. if ancestor_or_self g a d
        then map_option (quota_apply di db) (map_of q0 a) else map_of q0 a)"
      by (simp add: bmap_get_modify fun_eq_iff)
    moreover have "update_quota_loop di db (g\<lparr>quotas := q0\<rparr>) d = Some (g\<lparr>quotas := ?q1\<rparr>)"
      by (subst unfold) (simp add: None)
    ultimately show ?thesis by blast
  next
    case (Some p)
    then have pd: "(p, d) \<in> fs_child (fs_of g)" by (simp add: parent_dir_view [OF wf])
    then have ne: "p \<noteq> d" using child_irrefl [OF well_formedD(2) [OF wf]] by auto
    note anc = ancestors_step [OF well_formedD(2) [OF wf] pd]
      not_own_ancestor [OF well_formedD(2) [OF wf] pd]
    obtain q where q: "update_quota_loop di db (g\<lparr>quotas := ?q1\<rparr>) p = Some (g\<lparr>quotas := q\<rparr>)"
      "map_of q = (\<lambda>a. if ancestor_or_self g a p then map_option (quota_apply di db) (map_of ?q1 a)
                       else map_of ?q1 a)"
      using less [OF pd, of ?q1] by blast
    have "map_of q = (\<lambda>a. if ancestor_or_self g a d
        then map_option (quota_apply di db) (map_of q0 a) else map_of q0 a)"
      using anc by (simp add: q(2) bmap_get_modify fun_eq_iff)
    moreover have "update_quota_loop di db (g\<lparr>quotas := q0\<rparr>) d = Some (g\<lparr>quotas := q\<rparr>)"
      by (subst unfold) (simp add: Some ne q(1))
    ultimately show ?thesis by blast
  qed
qed

lemma update_quota_total:
  assumes "well_formed g"
  obtains q where "update_quota g d di db = Some (g\<lparr>quotas := q\<rparr>)"
    "map_of q = quotas_after (quota_apply di db) g d"
proof -
  obtain q where "update_quota_loop di db g d = Some (g\<lparr>quotas := q\<rparr>)"
    "map_of q = quotas_after (quota_apply di db) g d"
    using update_quota_loop_spec [OF assms, of di db "quotas g" d]
    by (auto simp: quotas_after_def fun_eq_iff)
  then show thesis using that [of q] by (simp add: update_quota_def)
qed

lemma check_quota_inode_spec:
  assumes wf: "well_formed g"
  shows "check_quota_inode g d = Ok () \<and>
           (\<forall>a q. ancestor_or_self g a d \<longrightarrow> bmap_get (quotas g) a = Some q \<longrightarrow> check_inode q) \<or>
         (\<exists>a q. check_quota_inode g d = Err (QuotaExceeded a ResInode) \<and> ancestor_or_self g a d \<and>
                bmap_get (quotas g) a = Some q \<and> \<not> check_inode q)"
  unfolding check_quota_inode_def
  using wf_child [OF well_formedD(2) [OF wf]]
proof (induction d)
  case (less d)
  note unfold = check_quota_inode_loop.simps [of g d]
  show ?case
  proof (cases "case bmap_get (quotas g) d of Some q \<Rightarrow> \<not> check_inode q | None \<Rightarrow> False")
    case True
    then show ?thesis by (auto simp: unfold split: option.splits)
  next
    case ok: False
    show ?thesis
    proof (cases "parent_dir g d")
      case None
      then have "ancestor_or_self g a d \<longleftrightarrow> a = d" for a
        by (intro ancestors_top) (simp flip: parent_dir_view [OF wf])
      then show ?thesis
        using None ok by (auto simp: unfold split: option.splits)
    next
      case (Some p)
      then have pd: "(p, d) \<in> fs_child (fs_of g)" by (simp add: parent_dir_view [OF wf])
      then have ne: "p \<noteq> d" using child_irrefl [OF well_formedD(2) [OF wf]] by auto
      then have "check_quota_inode_loop g d = check_quota_inode_loop g p"
        using ok Some by (subst unfold) simp
      then show ?thesis
        using less [OF pd] ok ancestors_step [OF well_formedD(2) [OF wf] pd]
        by (auto split: option.splits)
    qed
  qed
qed

lemma check_quota_inode_cases:
  assumes "well_formed g"
  obtains "check_quota_inode g d = Ok ()" | e where "check_quota_inode g d = Err e"
  using check_quota_inode_spec [OF assms, of d] by blast

end
