(* ===== verification/Sotfs_Extents.thy ===== *)
theory Sotfs_Extents
  imports Sotfs_Steps
begin

text \<open>
  The extents of files: \<open>write_block\<close> adds a block with one reference, and the last \<open>unlink\<close> of a
  file drops its \<open>PointsTo\<close> edges one by one, decrementing reference counts and removing the
  blocks that reach zero.  Both keep the block part of \<open>rep_ok\<close>.
\<close>

section \<open>Dropping one extent\<close>

text \<open>
  The loop runs after the inode's entry has left \<open>inode_points_to\<close>.  For the induction the
  index is updated edge by edge instead; \<open>drop_extents_index\<close> below relates the two.
\<close>

definition drop_extent_idx :: "inode_id \<Rightarrow> edge_id \<Rightarrow> type_graph \<Rightarrow> type_graph" where
  "drop_extent_idx t e g = (drop_extent e g)\<lparr>inode_points_to := mi_del t e (inode_points_to g)\<rparr>"

lemma drop_extent_fields:
  assumes ok: "rep_ok g" and e: "edge_at g e = Some (PointsTo e t b off)"
  obtains blk where "block_at g b = Some blk"
    and "drop_extent e g = g\<lparr>edges := snd (ar_remove e (edges g)),
           blocks := (let bl = ar_get_mut b (\<lambda>x. x\<lparr>refcount := refcount x - 1\<rparr>) (blocks g)
                      in if refcount blk - 1 = 0 then snd (ar_remove b bl) else bl)\<rparr>"
proof -
  have "proj points_tgt (edge_at g) e = Some b" using e by (simp add: proj_def)
  then obtain blk where blk: "block_at g b = Some blk"
    using rep_okD(4) [OF ok] unfolding blocks_ok_def by blast
  have rm: "ar_remove e (edges g) = (Some (PointsTo e t b off), snd (ar_remove e (edges g)))"
    using ar.del_val [OF edges_okD(1) [OF rep_okD(1) [OF ok]], of e] e by (cases "ar_remove e (edges g)") simp
  have c: "canonical e" "canonical b"
    using edge_canonical [OF rep_okD(1) [OF ok] e] block_canonical [OF rep_okD(4) [OF ok] blk] by simp_all
  have "remove_edge e g = (Some (PointsTo e t b off), g\<lparr>edges := snd (ar_remove e (edges g))\<rparr>)"
    using c(1) by (subst remove_edge_def, simp, subst rm) simp
  then have "drop_extent e g = g\<lparr>edges := snd (ar_remove e (edges g)),
           blocks := (let bl = ar_get_mut b (\<lambda>x. x\<lparr>refcount := refcount x - 1\<rparr>) (blocks g)
                      in if refcount blk - 1 = 0 then snd (ar_remove b bl) else bl)\<rparr>"
    using blk c(2)
    by (simp add: drop_extent_def get_block_def get_block_mut_def remove_block_def Let_def split: prod.split)
  then show thesis using that blk by blast
qed

lemma refs_to_del: "refs_to (E(e := None)) b = refs_to E b - {e}"
  by (auto simp: refs_to_def)

lemma refs_to_finite: "edges_ok g \<Longrightarrow> finite (refs_to (edge_at g) b)"
  by (rule finite_subset [of _ "dom (edge_at g)"])
     (auto simp: refs_to_def proj_eq_Some intro: ar.finite_dom edges_okD(1))

lemma points_del_edges_ok:
  assumes ok: "edges_ok g" and e: "edge_at g e = Some (PointsTo e t b off)"
  shows "edges_ok (g\<lparr>edges := snd (ar_remove e (edges g)), blocks := bl,
           inode_points_to := mi_del t e (inode_points_to g)\<rparr>)" (is "edges_ok ?g")
proof -
  have E: "ar_get (snd (ar_remove e (edges g))) = (edge_at g)(e := None)"
    using edges_okD(1) [OF ok] by (simp add: slot_simps)
  have same: "mi_exact (dir_contains g) (proj contains_src (edge_at ?g))"
    "mi_exact (inode_incoming_contains g) (proj contains_tgt (edge_at ?g))"
    using mi.exact_same [OF edges_okD(7) [OF ok]] mi.exact_same [OF edges_okD(8) [OF ok]] e
    by (auto simp: E proj_Some)
  have pts: "mi_exact (inode_points_to ?g) (proj points_src (edge_at ?g))"
    using mi.exact_del [OF edges_okD(9) [OF ok]] e by (simp add: E proj_Some)
  have "proj contains_key (edge_at ?g) = proj contains_key (edge_at g)"
    using e by (auto simp: E fun_eq_iff proj_Some)
  then have "map_exact (dir_name_idx ?g) (proj contains_key (edge_at ?g))"
    using edges_okD(10) [OF ok] by simp
  moreover have "\<forall>e' x. edge_at ?g e' = Some x \<longrightarrow> edge_id x = e' \<and> e' < next_edge ?g"
    using edges_okD(11,12) [OF ok] by (simp add: E)
  moreover have "ar_inv (edges ?g)" "ar_capacity (edges ?g) = EDGE_CAPACITY"
    using edges_okD(1,2) [OF ok] by (simp_all add: ar.inv_del ar.cap_del)
  moreover have "mi_ok (dir_contains ?g)" "mi_ok (inode_incoming_contains ?g)"
    "mi_ok (inode_points_to ?g)" "bmap_ok (dir_name_idx ?g)"
    using edges_okD(3-6) [OF ok] by (simp_all add: mi.inv_del)
  ultimately show ?thesis
    using same pts unfolding edges_ok_def by simp
qed

lemma drop_extent_step:
  assumes ok: "rep_ok g" and e: "edge_at g e = Some (PointsTo e t b off)"
  shows "rep_ok (drop_extent_idx t e g)" and "fs_of (drop_extent_idx t e g) = fs_of g"
    and "edge_at (drop_extent_idx t e g) = (edge_at g)(e := None)"
proof -
  let ?g = "drop_extent_idx t e g"
  obtain blk where blk: "block_at g b = Some blk"
    and d: "drop_extent e g = g\<lparr>edges := snd (ar_remove e (edges g)),
           blocks := (let bl = ar_get_mut b (\<lambda>x. x\<lparr>refcount := refcount x - 1\<rparr>) (blocks g)
                      in if refcount blk - 1 = 0 then snd (ar_remove b bl) else bl)\<rparr>"
    by (rule drop_extent_fields [OF assms])
  note edges = rep_okD(1) [OF ok] and blocks = rep_okD(4) [OF ok, unfolded blocks_ok_def]
  show E: "edge_at ?g = (edge_at g)(e := None)"
    using edges_okD(1) [OF edges] by (simp add: drop_extent_idx_def d slot_simps)
  have binv: "ar_inv (blocks g)" using blocks by simp
  have B: "block_at ?g = (if refcount blk - 1 = 0 then (block_at g)(b := None)
                          else (block_at g)(b \<mapsto> blk\<lparr>refcount := refcount blk - 1\<rparr>))"
    using binv blk by (simp add: drop_extent_idx_def d slot_simps Let_def)
  have mem: "e \<in> refs_to (edge_at g) b" using e by (simp add: refs_to_def proj_def)
  have other: "e \<notin> refs_to (edge_at g) c" if "c \<noteq> b" for c
    using e that by (simp add: refs_to_def proj_def)
  have rc: "unat (refcount blk) = card (refs_to (edge_at g) b)" using blocks blk by blast
  have card: "card (refs_to (edge_at g) b - {e}) = unat (refcount blk) - 1" "0 < unat (refcount blk)"
    using rc mem refs_to_finite [OF edges, of b] by (auto simp: card_gt_0_iff)
  have minus: "unat (refcount blk - 1) = unat (refcount blk) - 1"
    using card(2) by (metis unat_gt_0 unat_minus_one)
  have gone: "refs_to (edge_at g) b - {e} = {}" if "refcount blk - 1 = 0"
    using card(1) that minus refs_to_finite [OF edges, of b] by simp
  have nonempty: "refs_to (edge_at g) b - {e} \<noteq> {}" if "refcount blk - 1 \<noteq> 0"
    using card(1) that minus by (metis card.empty unat_eq_zero)
  have frame: "next_block ?g = next_block g" "inodes ?g = inodes g"
    by (simp_all add: drop_extent_idx_def d)
  have "edges_ok ?g"
    using points_del_edges_ok [OF edges e] by (simp add: drop_extent_idx_def d)
  moreover have "dirs_ok ?g" "inodes_ok ?g"
    using dirs_ok_cong [OF rep_okD(2) [OF ok]] inodes_ok_cong [OF rep_okD(3) [OF ok]]
    by (simp_all add: drop_extent_idx_def d)
  moreover have "blocks_ok ?g"
    unfolding blocks_ok_def
  proof (intro conjI allI impI)
    show "ar_inv (blocks ?g)" "ar_capacity (blocks ?g) = NODE_CAPACITY"
      using blocks by (simp_all add: drop_extent_idx_def d slot_simps Let_def)
    fix c x assume "block_at ?g c = Some x"
    then have x: "c = b \<and> refcount blk - 1 \<noteq> 0 \<and> x = blk\<lparr>refcount := refcount blk - 1\<rparr> \<or>
        c \<noteq> b \<and> block_at g c = Some x"
      unfolding B by (auto split: if_splits)
    then show "block_id x = c" "c < next_block ?g"
      using blocks blk unfolding frame by auto
    show "refs_to (edge_at ?g) c \<noteq> {}" "unat (refcount x) = card (refs_to (edge_at ?g) c)"
      using x blocks blk card(1) minus nonempty other [of c] unfolding E refs_to_del by auto
  next
    fix e' c assume "proj points_tgt (edge_at ?g) e' = Some c"
    then have e': "e' \<in> refs_to (edge_at g) c - {e}"
      by (auto simp: E refs_to_def split: if_splits)
    then have "block_at g c \<noteq> None" using blocks by (auto simp: refs_to_def)
    then show "block_at ?g c \<noteq> None" using e' gone by (cases "c = b") (auto simp: B)
  next
    fix e' i assume "proj points_src (edge_at ?g) e' = Some i"
    then show "inode_at ?g i \<noteq> None"
      using blocks unfolding frame E by (auto split: if_splits)
  qed
  ultimately show ok': "rep_ok ?g" by (simp add: rep_ok_def)
  have "names_of ?g = names_of g"
  proof (rule names_of_ext [OF edges rep_okD(1) [OF ok']])
    fix d n u
    show "(\<exists>e'. edge_at ?g e' = Some (Contains e' d u n)) \<longleftrightarrow> names_of g (d, n) = Some u"
      unfolding E using names_of_iff [OF edges, of d n u] e
        edge_upd_simps(1) [where E = "edge_at g" and w = None and e = e and d = d and t = u and n = n]
      by simp
  qed
  then show "fs_of ?g = fs_of g"
    by (simp add: fs_of_def) (simp add: drop_extent_idx_def d)
qed

section \<open>Dropping all extents of a file\<close>

lemma remove_edge_points:
  "remove_edge e (g\<lparr>inode_points_to := X\<rparr>) =
     (case remove_edge e g of (r, g') \<Rightarrow> (r, g'\<lparr>inode_points_to := X\<rparr>))"
  by (simp add: remove_edge_def Let_def split: prod.split option.split edge.split)

lemma drop_extent_points [simp]:
  "inode_points_to (drop_extent e g) = inode_points_to g"
  "drop_extent e (g\<lparr>inode_points_to := X\<rparr>) = (drop_extent e g)\<lparr>inode_points_to := X\<rparr>"
proof -
  obtain r h where h: "remove_edge e g = (r, h)" by (cases "remove_edge e g")
  have "inode_points_to h = inode_points_to g"
    using remove_edge_frame(11) [of e g] h by simp
  then show "inode_points_to (drop_extent e g) = inode_points_to g"
    by (simp add: drop_extent_def h get_block_mut_def remove_block_def Let_def
        split: option.split edge.split prod.split)
  show "drop_extent e (g\<lparr>inode_points_to := X\<rparr>) = (drop_extent e g)\<lparr>inode_points_to := X\<rparr>"
    by (simp add: drop_extent_def remove_edge_points h get_block_def get_block_mut_def
        remove_block_def Let_def split: option.split edge.split prod.split)
qed

lemma drop_extents_index:
  "fold drop_extent es (g\<lparr>inode_points_to := X\<rparr>) =
     (fold (drop_extent_idx t) es g)\<lparr>inode_points_to := X\<rparr>"
proof (induction es arbitrary: g)
  case (Cons e es)
  have "fold drop_extent (e # es) (g\<lparr>inode_points_to := X\<rparr>) =
      fold drop_extent es ((drop_extent_idx t e g)\<lparr>inode_points_to := X\<rparr>)"
    by (simp add: drop_extent_idx_def)
  then show ?case using Cons.IH by simp
qed simp

lemma drop_extents_step:
  assumes "rep_ok g" "distinct es" "\<And>e. e \<in> set es \<Longrightarrow> \<exists>b off. edge_at g e = Some (PointsTo e t b off)"
  defines "h \<equiv> fold (drop_extent_idx t) es g"
  shows "rep_ok h \<and> fs_of h = fs_of g \<and> edge_at h = (\<lambda>e. if e \<in> set es then None else edge_at g e) \<and>
         (\<forall>k. k \<noteq> t \<longrightarrow> mi_get (inode_points_to h) k = mi_get (inode_points_to g) k)"
  unfolding h_def using assms(1-3)
proof (induction es arbitrary: g)
  case Nil
  then show ?case by simp
next
  case (Cons e es)
  obtain b off where e: "edge_at g e = Some (PointsTo e t b off)" using Cons.prems(3) by force
  note step = drop_extent_step [OF Cons.prems(1) e]
  have "\<exists>b off. edge_at (drop_extent_idx t e g) e' = Some (PointsTo e' t b off)" if "e' \<in> set es" for e'
    using Cons.prems(2,3) that by (auto simp: step(3))
  note IH = Cons.IH [OF step(1) _ this]
  have "mi_get (inode_points_to (drop_extent_idx t e g)) k = mi_get (inode_points_to g) k" if "k \<noteq> t" for k
    using that by (simp add: drop_extent_idx_def mi_get_del)
  then show ?case
    using IH Cons.prems(2) step(2) by (auto simp: step(3) fun_eq_iff)
qed

lemma gc_extents_step:
  fixes t :: inode_id
  assumes ok: "rep_ok g"
  defines "h \<equiv> fold drop_extent (mi_get (inode_points_to g) t)
                 (g\<lparr>inode_points_to := bmap_remove t (inode_points_to g)\<rparr>)"
  shows "rep_ok h" and "fs_of h = fs_of g" and "proj points_src (edge_at h) e \<noteq> Some t"
    and "edge_at h e = Some (Contains i d u n) \<Longrightarrow> edge_at g e = Some (Contains i d u n)"
proof -
  let ?es = "mi_get (inode_points_to g) t"
  let ?h = "fold (drop_extent_idx t) ?es g"
  note edges = rep_okD(1) [OF ok]
  have es: "e \<in> set ?es \<longleftrightarrow> (\<exists>b off. edge_at g e = Some (PointsTo e t b off))" for e
    using mi.exactD [OF edges_okD(9) [OF edges], of e t] edges_okD(11) [OF edges, of e]
    by (fastforce simp: proj_eq_Some points_src_iff)
  have h: "h = ?h\<lparr>inode_points_to := bmap_remove t (inode_points_to g)\<rparr>"
    unfolding h_def by (rule drop_extents_index)
  have s: "rep_ok ?h" "fs_of ?h = fs_of g"
    "edge_at ?h = (\<lambda>e. if e \<in> set ?es then None else edge_at g e)"
    "\<And>k. k \<noteq> t \<Longrightarrow> mi_get (inode_points_to ?h) k = mi_get (inode_points_to g) k"
    using drop_extents_step [OF ok mi_ok_distinct [OF edges_okD(5) [OF edges]], where t = t] es by blast+
  have none: "proj points_src (edge_at ?h) e \<noteq> Some t" for e
    using es [of e] edges_okD(11) [OF edges, of e]
    by (fastforce simp: s(3) proj_eq_Some points_src_iff)
  show "proj points_src (edge_at h) e \<noteq> Some t" using none [of e] by (simp add: h)
  show "edge_at h e = Some (Contains i d u n) \<Longrightarrow> edge_at g e = Some (Contains i d u n)"
    by (auto simp: h s(3) split: if_splits)
  have "mi_exact (bmap_remove t (inode_points_to g)) (proj points_src (edge_at ?h))"
    unfolding mi_exact_iff
  proof (intro allI)
    fix k e'
    show "e' \<in> set (mi_get (bmap_remove t (inode_points_to g)) k) \<longleftrightarrow>
          proj points_src (edge_at ?h) e' = Some k"
      by (cases "k = t") (use none [of e'] s(4) [of k] mi.exactD [OF edges_okD(9) [OF rep_okD(1) [OF s(1)]], of e' k]
          in \<open>simp_all add: mi_get_clear\<close>)
  qed
  then show "rep_ok h"
    using s(1) mi.inv_clear [OF edges_okD(5) [OF edges]]
    by (simp add: h rep_ok_def edges_ok_def dirs_ok_def inodes_ok_def blocks_ok_def)
  show "fs_of h = fs_of g"
    using s(2) by (simp add: h fs_of_def names_of_def fun_eq_iff)
qed

lemma gc_inode_step:
  assumes ok: "rep_ok g" and t: "canonical t" and "\<And>e d n. edge_at g e \<noteq> Some (Contains e d t n)"
  shows "rep_ok (gc_inode t g)"
    and "fs_of (gc_inode t g) = (fs_of g)\<lparr>fs_inode := (inode_at g)(t := None)\<rparr>"
proof -
  let ?h = "fold drop_extent (mi_get (inode_points_to g) t)
                 (g\<lparr>inode_points_to := bmap_remove t (inode_points_to g)\<rparr>)"
  let ?k = "snd (remove_inode t ?h)"
  note h = gc_extents_step [OF ok, of t]
  note k = remove_inode_step [OF h(1) t h(3)]
  have "edges ?k = edges ?h" by (simp add: remove_inode_def split: prod.split)
  then have "edge_at ?k e \<noteq> Some (Contains e d t n)" for e d n
    using h(4) [of e e d t n] assms(3) [of e d n] by auto
  note c = clear_incoming_step [OF k(1) this]
  have eq: "gc_inode t g = ?k\<lparr>inode_incoming_contains := bmap_remove t (inode_incoming_contains ?k)\<rparr>"
    by (simp add: gc_inode_def Let_def)
  show "rep_ok (gc_inode t g)" unfolding eq by (rule c(1))
  have "inode_at ?h = inode_at g" using arg_cong [OF h(2), of fs_inode] by simp
  then show "fs_of (gc_inode t g) = (fs_of g)\<lparr>fs_inode := (inode_at g)(t := None)\<rparr>"
    unfolding eq c(2) k(2) by (simp add: h(2))
qed

lemma drop_extent_frame [frame_simps]:
  "root_dir (drop_extent e g) = root_dir g" "root_inode (drop_extent e g) = root_inode g"
  "quotas (drop_extent e g) = quotas g" "next_edge (drop_extent e g) = next_edge g"
  "next_inode (drop_extent e g) = next_inode g" "next_dir (drop_extent e g) = next_dir g"
proof -
  obtain r h where h: "remove_edge e g = (r, h)" by (cases "remove_edge e g")
  have "root_dir h = root_dir g" "root_inode h = root_inode g" "quotas h = quotas g"
    "next_edge h = next_edge g" "next_inode h = next_inode g" "next_dir h = next_dir g"
    using remove_edge_frame [of e g] h by simp_all
  then show "root_dir (drop_extent e g) = root_dir g" "root_inode (drop_extent e g) = root_inode g"
    "quotas (drop_extent e g) = quotas g" "next_edge (drop_extent e g) = next_edge g"
    "next_inode (drop_extent e g) = next_inode g" "next_dir (drop_extent e g) = next_dir g"
    by (simp_all add: drop_extent_def h get_block_mut_def remove_block_def Let_def
        split: option.split edge.split prod.split)
qed

lemma drop_extents_frame [frame_simps]:
  "root_dir (fold drop_extent es g) = root_dir g" "root_inode (fold drop_extent es g) = root_inode g"
  "quotas (fold drop_extent es g) = quotas g" "next_edge (fold drop_extent es g) = next_edge g"
  "next_inode (fold drop_extent es g) = next_inode g" "next_dir (fold drop_extent es g) = next_dir g"
  "inode_points_to (fold drop_extent es g) = inode_points_to g"
  by (induction es arbitrary: g) (simp_all add: frame_simps)

lemma gc_frame [frame_simps]:
  "root_dir (gc_inode t g) = root_dir g" "root_inode (gc_inode t g) = root_inode g"
  "quotas (gc_inode t g) = quotas g" "next_edge (gc_inode t g) = next_edge g"
  "next_inode (gc_inode t g) = next_inode g" "next_dir (gc_inode t g) = next_dir g"
  "inode_points_to (gc_inode t g) = bmap_remove t (inode_points_to g)"
  by (simp_all add: gc_inode_def Let_def remove_inode_def frame_simps split: prod.split)

section \<open>Adding an extent\<close>

lemma add_extent_step:
  fixes off :: u64
  assumes ok: "rep_ok g" and b: "b < NODE_CAPACITY" "b < next_block g" "block_at g b = None"
    and e: "e < EDGE_CAPACITY" "e < next_edge g" "edge_at g e = None"
    and i: "inode_at g i \<noteq> None" and x: "block_id x = b" "refcount x = 1"
  defines "h \<equiv> insert_edge e (PointsTo e i b off) (insert_block b x g)"
  defines "g' \<equiv> h\<lparr>inode_points_to := mi_add i e (inode_points_to h)\<rparr>"
  shows "rep_ok g'" and "fs_of g' = fs_of g" and "block_at g' = (block_at g)(b \<mapsto> x)"
    and "edge_at g' = (edge_at g)(e \<mapsto> PointsTo e i b off)"
proof -
  note edges = rep_okD(1) [OF ok] and blocks = rep_okD(4) [OF ok, unfolded blocks_ok_def]
  have g': "g' = g\<lparr>edges := snd (ar_insert_at e (PointsTo e i b off) (edges g)),
      blocks := snd (ar_insert_at b x (blocks g)), inode_points_to := mi_add i e (inode_points_to g)\<rparr>"
    using b(1) e(1) by (simp add: g'_def h_def insert_edge_def insert_block_def canonical_small)
  show E: "edge_at g' = (edge_at g)(e \<mapsto> PointsTo e i b off)"
    using edges_okD(1,2) [OF edges] e by (simp add: g' slot_simps)
  show B: "block_at g' = (block_at g)(b \<mapsto> x)"
    using blocks b by (simp add: g' slot_simps)
  have frame: "dir_contains g' = dir_contains g" "inode_incoming_contains g' = inode_incoming_contains g"
    "dir_name_idx g' = dir_name_idx g" "next_edge g' = next_edge g" "next_block g' = next_block g"
    "inodes g' = inodes g" "dirs g' = dirs g" "inode_points_to g' = mi_add i e (inode_points_to g)"
    by (simp_all add: g')
  have same: "proj contains_src (edge_at g') = proj contains_src (edge_at g)"
    "proj contains_tgt (edge_at g') = proj contains_tgt (edge_at g)"
    "proj contains_key (edge_at g') = proj contains_key (edge_at g)"
    using e(3) by (auto simp: E fun_eq_iff proj_None)
  have none: "refs_to (edge_at g) b = {}"
    using blocks b(3) unfolding refs_to_def by (metis (mono_tags, lifting) Collect_empty_eq)
  have R: "refs_to (edge_at g') c = (if c = b then {e} else refs_to (edge_at g) c)" for c
    using e(3) none by (auto simp: E refs_to_def proj_None)
  have "mi_exact (inode_points_to g') (proj points_src (edge_at g'))"
    using mi.exact_add [OF edges_okD(9) [OF edges]] e(3) by (simp add: frame E proj_None)
  moreover have "\<forall>e' y. edge_at g' e' = Some y \<longrightarrow> edge_id y = e' \<and> e' < next_edge g'"
    using edges_okD(11,12) [OF edges] e(2) by (simp add: E frame)
  moreover have "ar_inv (edges g')" "ar_capacity (edges g') = EDGE_CAPACITY"
    using edges_okD(1,2) [OF edges] by (simp_all add: g' slot_simps)
  ultimately have "edges_ok g'"
    using edges_okD(3-10) [OF edges] unfolding edges_ok_def frame same by (simp add: mi.inv_add)
  moreover have "dirs_ok g'" "inodes_ok g'"
    using dirs_ok_cong [OF rep_okD(2) [OF ok]] inodes_ok_cong [OF rep_okD(3) [OF ok]]
    by (simp_all add: g')
  moreover have "blocks_ok g'"
    unfolding blocks_ok_def
  proof (intro conjI allI impI)
    show "ar_inv (blocks g')" "ar_capacity (blocks g') = NODE_CAPACITY"
      using blocks by (simp_all add: g' slot_simps)
    fix c y assume "block_at g' c = Some y"
    then show "block_id y = c" "c < next_block g'" "refs_to (edge_at g') c \<noteq> {}"
      "unat (refcount y) = card (refs_to (edge_at g') c)"
      using blocks b x unfolding R frame B by (auto split: if_splits)
  next
    fix e' c assume "proj points_tgt (edge_at g') e' = Some c"
    then show "block_at g' c \<noteq> None"
      using blocks unfolding E B by (auto split: if_splits)
  next
    fix e' j assume "proj points_src (edge_at g') e' = Some j"
    then show "inode_at g' j \<noteq> None"
      using blocks i unfolding E frame by (auto split: if_splits)
  qed
  ultimately show ok': "rep_ok g'" by (simp add: rep_ok_def)
  have "names_of g' k = names_of g k" for k
  proof -
    have "Option.bind (edge_at g' e') contains_tgt = Option.bind (edge_at g e') contains_tgt" for e'
      using e(3) by (simp add: E)
    then show ?thesis by (auto simp: names_of_def frame split: bind_splits)
  qed
  then show "fs_of g' = fs_of g"
    by (simp add: fs_of_def frame fun_eq_iff) (simp add: g')
qed

end
