(* ===== verification/Sotfs_Namespace.thy ===== *)
theory Sotfs_Namespace
  imports Sotfs_WellFormed Sotfs_Extents
begin

text \<open>
  Correctness of the rewriting rules: on a well-formed graph each operation returns, an error
  leaves the graph as it was and names the first guard that failed, and a success yields a
  well-formed graph whose abstract view is the abstract operation's result.
\<close>

declare One_nat_def [simp del]

section \<open>Guards\<close>

lemma require_cap_cases:
  obtains "require_cap g r = Ok ()" | e where "require_cap g r = Err e"
proof -
  have "require_cap g r = Ok () \<or> (\<exists>e. require_cap g r = Err e)"
    by (simp add: require_cap_def split: option.split)
  then show thesis using that by blast
qed

lemma user_name_of_good: "\<not> bad_name n \<Longrightarrow> user_name n"
  by (simp add: bad_name_def user_name_def)

text \<open>
  The end of an operation: charge the quotas of all ancestors and log.  The walk runs on the new
  graph \<open>g'\<close>, but the ancestors of \<open>d\<close> are those it had before.
\<close>

lemma finish:
  assumes wf: "well_formed g'" and q: "quotas g' = quotas g"
    and anc: "\<And>a. ancestor_or_self g' a d = ancestor_or_self g a d"
  obtains q where "update_quota g' d di db = Some (g'\<lparr>quotas := q\<rparr>)"
    and "map_of q = quotas_after (quota_apply di db) g d"
proof -
  obtain q where "update_quota g' d di db = Some (g'\<lparr>quotas := q\<rparr>)"
    "map_of q = quotas_after (quota_apply di db) g' d"
    by (rule update_quota_total [OF wf, of d di db])
  moreover have "quotas_after (quota_apply di db) g' d = quotas_after (quota_apply di db) g d"
    by (simp add: quotas_after_def q anc fun_eq_iff)
  ultimately show thesis using that [of q] by simp
qed

lemma child_cong: "(\<And>k c. dir_entry f k c = dir_entry f' k c) \<Longrightarrow> fs_child f = fs_child f'"
  by (simp add: fs_child_def)

lemma child_create:
  assumes "fs_ok f" "fs_inode f i = None" "fs_name f (d, n) = None"
  shows "fs_child (fs_create d n i x f) = fs_child f"
  by (rule child_cong, rule dir_entry_file [OF assms(1), where i = i and d = d and n = n and v = "Some i"])
     (use assms in \<open>simp_all add: is_dir_def\<close>)

section \<open>Creating a file\<close>

lemma new_leaf:
  assumes wf: "well_formed g" and d: "fs_dir (fs_of g) d \<noteq> None"
    and n: "user_name n" "names_of g (d, n) = None"
    and cap: "next_inode g < NODE_CAPACITY" "next_edge g < EDGE_CAPACITY"
    and x: "inode_id x = next_inode g" "vtype x \<noteq> Directory" "link_count x = 1"
    and g1: "rep_ok g1" "fs_of g1 = fs_of g" "edges g1 = edges g" "inode_points_to g1 = inode_points_to g"
      "next_inode g1 = next_inode g + 1" "next_edge g1 = next_edge g + 1" "root_inode g1 = root_inode g"
  defines "g' \<equiv> attach_contains (next_edge g) d (next_inode g) n (insert_inode (next_inode g) x g1)"
  shows "well_formed g'" and "fs_of g' = fs_create d n (next_inode g) x (fs_of g)"
    and "quotas g' = quotas g1"
proof -
  let ?i = "next_inode g" and ?e = "next_edge g" and ?g2 = "insert_inode (next_inode g) x g1"
  have I: "inode_at g1 = inode_at g" "names_of g1 = names_of g"
    using g1(2) by (metis fs_of_simps(1), metis fs_of_simps(3))
  have fresh: "inode_at g ?i = None" "edge_at g ?e = None"
    using fresh_inode fresh_edge well_formedD(1) [OF wf] by auto
  note s2 = insert_inode_step [OF g1(1) cap(1), of x]
  have ok2: "rep_ok ?g2" "fs_of ?g2 = (fs_of g)\<lparr>fs_inode := (inode_at g)(?i \<mapsto> x)\<rparr>"
    using s2 x(1) fresh(1) g1(2,5) by (simp_all add: I)
  have f2: "edges ?g2 = edges g" "next_edge ?g2 = ?e + 1" "names_of ?g2 = names_of g"
    using g1(3,6) arg_cong [OF ok2(2), of fs_name] by simp_all (simp_all add: insert_inode_def)
  note s3 = attach_step [OF ok2(1) cap(2), of d n ?i]
  have ok3: "rep_ok g'" and view: "fs_of g' = fs_create d n ?i x (fs_of g)"
    using s3 f2 fresh(2) n(2) by (simp_all add: g'_def ok2(2) fs_create_def)
  have "root_dir g' = root_dir g" "root_inode g' = root_inode g"
    using g1(7) fs_of_simps(4) [of g1] g1(2)
    by (simp_all add: g'_def frame_simps insert_inode_def)
  moreover have "fs_ok (fs_create d n ?i x (fs_of g))"
    by (rule fs_create_ok [OF well_formedD(2) [OF wf] d n(1)]) (use n(2) fresh x in simp_all)
  moreover have "inode_points_to g' = inode_points_to g"
    using g1(4) by (simp add: g'_def frame_simps insert_inode_def)
  then have "mi_get (inode_points_to g') j = []" if "is_dir (fs_create d n ?i x (fs_of g)) j" for j
    using that x(2) well_formedD(8) [OF wf, of j] by (auto simp: is_dir_def split: if_splits)
  ultimately show "well_formed g'"
    using well_formedI [OF ok3 view] well_formedD(7) [OF wf] by simp
  show "fs_of g' = fs_create d n (next_inode g) x (fs_of g)" by (rule view)
  show "quotas g' = quotas g1" by (simp add: g'_def frame_simps insert_inode_def)
qed

lemma create_file_contract:
  assumes wf: "well_formed g" and c: "canonical d"
    and cap: "next_inode g < NODE_CAPACITY" "next_edge g < EDGE_CAPACITY"
  shows "case create_file clk g d n u gi p of
      (Ok i, g') \<Rightarrow>
        require_cap g WRITE = Ok () \<and> \<not> bad_name n \<and> fs_dir (fs_of g) d \<noteq> None \<and>
        fs_name (fs_of g) (d, n) = None \<and> check_quota_inode g d = Ok () \<and>
        i = next_inode g \<and> well_formed g' \<and>
        fs_of g' = fs_create d n i ((new_file (clk 0) i p u gi)\<lparr>link_count := 1\<rparr>) (fs_of g) \<and>
        bmap_get (quotas g') = quotas_after (quota_apply 1 0) g d
    | (Err e, g') \<Rightarrow> g' = g \<and>
        (require_cap g WRITE = Err e \<or> bad_name n \<and> e = NameNotFound n \<or>
         fs_name (fs_of g) (d, n) \<noteq> None \<and> e = NameExists d n \<or>
         fs_dir (fs_of g) d = None \<and> e = DirNotFound d \<or> check_quota_inode g d = Err e)
    | _ \<Rightarrow> False"
proof (cases "\<exists>e. require_cap g WRITE = Err e \<or> bad_name n \<or> fs_name (fs_of g) (d, n) \<noteq> None \<or>
    fs_dir (fs_of g) d = None \<or> check_quota_inode g d = Err e")
  case True
  then show ?thesis
    by (cases rule: require_cap_cases [of g WRITE]; cases rule: check_quota_inode_cases [OF wf, of d])
       (auto simp: create_file_def resolve_name_view [OF wf] contains_dir_view [OF wf c]
             simp del: fs_of_simps)
next
  case False
  let ?i = "next_inode g" and ?x = "(new_file (clk 0) (next_inode g) p u gi)\<lparr>link_count := 1\<rparr>"
  let ?g1 = "g\<lparr>next_inode := next_inode g + 1, next_edge := next_edge g + 1\<rparr>"
  let ?g' = "attach_contains (next_edge g) d ?i n (insert_inode ?i ?x ?g1)"
  have ok: "require_cap g WRITE = Ok ()" "check_quota_inode g d = Ok ()"
    using False by (metis require_cap_cases, metis check_quota_inode_cases [OF wf])
  have good: "\<not> bad_name n" "names_of g (d, n) = None" "fs_dir (fs_of g) d \<noteq> None"
    using False by auto
  have g1: "rep_ok ?g1" "fs_of ?g1 = fs_of g"
    using next_edge_step [where g = "g\<lparr>next_inode := next_inode g + 1\<rparr>" and k = "next_edge g + 1"]
      next_inode_step [where g = g and k = "next_inode g + 1"] well_formedD(1) [OF wf] by simp_all
  note new = new_leaf [OF wf good(3) user_name_of_good [OF good(1)] good(2) cap _ _ _ g1, of ?x]
  have wf': "well_formed ?g'" and view: "fs_of ?g' = fs_create d n ?i ?x (fs_of g)"
    and q: "quotas ?g' = quotas g"
    using new by (simp_all add: new_file_def)
  have "fs_child (fs_of ?g') = fs_child (fs_of g)"
    unfolding view by (rule child_create [OF well_formedD(2) [OF wf]])
      (use fresh_inode [OF well_formedD(1) [OF wf]] good in simp_all)
  then have anc: "ancestor_or_self ?g' a d = ancestor_or_self g a d" for a by (simp only:)
  obtain qs where fin: "update_quota ?g' d 1 0 = Some (?g'\<lparr>quotas := qs\<rparr>)"
    "map_of qs = quotas_after (quota_apply 1 0) g d"
    by (rule finish [OF wf' q anc, of 1 0])
  have "create_file clk g d n u gi p = (Ok ?i, record_prov (clk 1) PCreate ?i n (?g'\<lparr>quotas := qs\<rparr>))"
    using good ok
    by (simp add: create_file_def resolve_name_eq well_formedD [OF wf] contains_dir_view [OF wf c]
        alloc_inode_id_def alloc_edge_id_def succ_u64_small cap fin(1) Let_def del: One_nat_def)
  then show ?thesis
    using ok good wf' view fin(2) by (simp add: frame_simps)
qed

section \<open>Hard links\<close>

lemma inode_at_canonical: "canonical i \<Longrightarrow> get_inode g i = inode_at g i"
  by (simp add: get_inode_def)

lemma link_contract:
  assumes wf: "well_formed g" and c: "canonical t" and d: "fs_dir (fs_of g) d \<noteq> None"
    and cap: "next_edge g < EDGE_CAPACITY"
  shows "case link clk g d n t of
      (Ok _, g') \<Rightarrow>
        require_cap g WRITE = Ok () \<and> user_name n \<and> fs_name (fs_of g) (d, n) = None \<and>
        (\<exists>x. fs_inode (fs_of g) t = Some x \<and> vtype x \<noteq> Directory \<and> link_count x < LINK_MAX \<and>
             fs_of g' = fs_link d n t x (fs_of g)) \<and>
        well_formed g' \<and> quotas g' = quotas g
    | (Err e, g') \<Rightarrow> g' = g \<and>
        (require_cap g WRITE = Err e \<or> \<not> user_name n \<and> e = NameNotFound n \<or>
         fs_name (fs_of g) (d, n) \<noteq> None \<and> e = NameExists d n \<or>
         fs_inode (fs_of g) t = None \<and> e = InodeNotFound t \<or>
         is_dir (fs_of g) t \<and> e = LinkToDirectory t \<or>
         (\<exists>x. fs_inode (fs_of g) t = Some x \<and> link_count x \<ge> LINK_MAX \<and> e = LinkCountExceeded LINK_MAX))
    | _ \<Rightarrow> False"
proof (cases "require_cap g WRITE = Ok () \<and> user_name n \<and> names_of g (d, n) = None \<and>
    (\<exists>x. inode_at g t = Some x \<and> vtype x \<noteq> Directory \<and> link_count x < LINK_MAX)")
  case False
  then show ?thesis
    by (cases rule: require_cap_cases [of g WRITE]; cases "inode_at g t"; cases "names_of g (d, n)")
       (auto simp: link_def resolve_name_eq well_formedD [OF wf] inode_at_canonical [OF c] is_dir_def
             user_name_def not_less)
next
  case True
  then obtain x where x: "inode_at g t = Some x" "vtype x \<noteq> Directory" "link_count x < LINK_MAX"
    and ok: "require_cap g WRITE = Ok ()" and n: "user_name n" "names_of g (d, n) = None" by blast
  let ?e = "next_edge g" and ?f = "\<lambda>n. n\<lparr>link_count := link_count n + 1\<rparr>"
  let ?g1 = "g\<lparr>next_edge := next_edge g + 1\<rparr>"
  let ?g2 = "attach_contains ?e d t n ?g1"
  let ?g3 = "get_inode_mut t ?f ?g2"
  have 1: "rep_ok ?g1" "fs_of ?g1 = fs_of g"
    using next_edge_step [where g = g and k = "?e + 1"] well_formedD(1) [OF wf] by simp_all
  have n1: "names_of ?g1 (d, n) = None" using n(2) by (simp add: names_of_def)
  have 2: "rep_ok ?g2" "fs_of ?g2 = (fs_of g)\<lparr>fs_name := (names_of g)((d, n) \<mapsto> t)\<rparr>"
    using attach_step [OF 1(1) cap _ _ n1, of t] fresh_edge [OF well_formedD(1) [OF wf]]
      arg_cong [OF 1(2), of fs_name] 1(2) by simp_all
  have I2: "inode_at ?g2 = inode_at g" by (simp add: frame_simps)
  have x2: "inode_at ?g2 t = Some x" using x(1) I2 by simp
  have 3: "rep_ok ?g3" "fs_of ?g3 = fs_link d n t x (fs_of g)"
    using update_inode_step [OF 2(1) x2, of ?f] by (simp_all add: 2(2) I2 fs_link_def)
  have "fs_ok (fs_link d n t x (fs_of g))"
    by (rule fs_link_ok [OF well_formedD(2) [OF wf] d n(1)]) (use n x in \<open>simp_all add: LINK_MAX_def\<close>)
  moreover have "mi_get (inode_points_to ?g3) j = []" if "is_dir (fs_link d n t x (fs_of g)) j" for j
    using that x well_formedD(8) [OF wf, of j]
    by (auto simp: is_dir_def get_inode_mut_def frame_simps split: if_splits)
  ultimately have "well_formed ?g3"
    using well_formedI [OF 3] well_formedD(7) [OF wf]
    by (simp add: get_inode_mut_def frame_simps)
  moreover have "link clk g d n t = (Ok (), record_prov (clk 0) PLink t n ?g3)"
    using ok n x user_nameD [OF n(1)] x2
    by (simp add: link_def resolve_name_eq well_formedD [OF wf] inode_at_canonical [OF c]
        alloc_edge_id_def succ_u64_small cap Let_def not_le del: One_nat_def)
  ultimately show ?thesis
    using ok n x 3(2) by (simp add: frame_simps get_inode_mut_def)
qed

section \<open>Removing a link\<close>

lemma find_named_Some:
  "edges_ok g \<Longrightarrow> \<forall>e \<in> set es. e \<in> set (mi_get (dir_contains g) d) \<Longrightarrow>
     find_named g n es = Some (e, t) \<Longrightarrow> edge_at g e = Some (Contains e d t n)"
proof (induction es)
  case (Cons a es)
  then obtain u m where "edge_at g a = Some (Contains a d u m)"
    using dir_edges_iff [of g a d] by auto
  then show ?case using Cons get_edge_at [of g a] by (auto split: if_splits)
qed simp

lemma find_named_None:
  "edges_ok g \<Longrightarrow> \<forall>e \<in> set es. e \<in> set (mi_get (dir_contains g) d) \<Longrightarrow>
     find_named g n es = None \<Longrightarrow> e \<in> set es \<Longrightarrow> edge_at g e \<noteq> Some (Contains e d t n)"
proof (induction es)
  case (Cons a es)
  then obtain u m where "edge_at g a = Some (Contains a d u m)"
    using dir_edges_iff [of g a d] by auto
  then show ?case using Cons get_edge_at [of g a] by (auto split: if_splits)
qed simp

lemma find_named_dir:
  assumes wf: "well_formed g" and es: "bmap_get (dir_contains g) d = Some es"
  shows "find_named g n es = None \<longleftrightarrow> names_of g (d, n) = None"
    and "find_named g n es = Some (e, t) \<Longrightarrow>
           edge_at g e = Some (Contains e d t n) \<and> names_of g (d, n) = Some t"
proof -
  have set: "set es = set (mi_get (dir_contains g) d)" using es by (simp add: mi_get_def)
  note ok = well_formedD(3) [OF wf]
  note fn = find_named_Some [OF ok, of es d n] find_named_None [OF ok, of es d n]
  have None: "names_of g (d, n) = None" if "find_named g n es = None"
    using fn(2) [OF _ that] set names_of_iff [OF ok, of d n] dir_edges_iff [OF ok, of _ d]
    by (cases "names_of g (d, n)") blast+
  show Some: "find_named g n es = Some (e, t) \<Longrightarrow>
      edge_at g e = Some (Contains e d t n) \<and> names_of g (d, n) = Some t" for e t
    using fn(1) set names_of_iff [OF ok, of d n t] by blast
  show "find_named g n es = None \<longleftrightarrow> names_of g (d, n) = None"
    using None Some by (cases "find_named g n es") auto
qed

lemma no_dir_entries: "well_formed g \<Longrightarrow> bmap_get (dir_contains g) d = None \<Longrightarrow> names_of g (d, n) = None"
  using dir_edges_iff [OF well_formedD(3), of g _ d] names_of_iff [OF well_formedD(3), of g d n]
  by (cases "names_of g (d, n)") (auto simp: mi_get_def)

lemma unlink_contract:
  assumes wf: "well_formed g"
  shows "case unlink clk g d n of
      (Ok _, g') \<Rightarrow>
        require_cap g WRITE = Ok () \<and> user_name n \<and> well_formed g' \<and> next_edge g' = next_edge g \<and>
        (\<exists>t x. fs_name (fs_of g) (d, n) = Some t \<and> fs_inode (fs_of g) t = Some x \<and>
               vtype x \<noteq> Directory \<and> fs_of g' = fs_unlink d n t x (fs_of g) \<and>
               bmap_get (quotas g') = (if link_count x = 1 then quotas_after (quota_apply (- 1) 0) g d
                                       else bmap_get (quotas g)))
    | (Err e, g') \<Rightarrow> g' = g \<and>
        (require_cap g WRITE = Err e \<or> \<not> user_name n \<and> e = NameNotFound n \<or>
         fs_name (fs_of g) (d, n) = None \<and> (e = DirNotFound d \<or> e = NameNotFound n) \<or>
         (\<exists>t. fs_name (fs_of g) (d, n) = Some t \<and> is_dir (fs_of g) t \<and> e = NotAFile t))
    | _ \<Rightarrow> False"
proof (cases "require_cap g WRITE = Ok () \<and> user_name n \<and>
    (\<exists>t. names_of g (d, n) = Some t \<and> \<not> is_dir (fs_of g) t)")
  case False
  show ?thesis
  proof (cases "bmap_get (dir_contains g) d")
    case None
    then show ?thesis
      using no_dir_entries [OF wf None, of n]
      by (cases rule: require_cap_cases [of g WRITE]) (auto simp: unlink_def user_name_def)
  next
    case (Some es)
    show ?thesis
    proof (cases "find_named g n es")
      case None
      then have "names_of g (d, n) = None" using find_named_dir(1) [OF wf Some] by blast
      then show ?thesis
        using None Some
        by (cases rule: require_cap_cases [of g WRITE]) (auto simp: unlink_def user_name_def)
    next
      case (Some et)
      then obtain e t where et: "find_named g n es = Some (e, t)" by (cases et) auto
      have nm: "names_of g (d, n) = Some t"
        using find_named_dir(2) [OF wf \<open>bmap_get (dir_contains g) d = Some es\<close> et] by blast
      then obtain x where "inode_at g t = Some x" using names_in_view [OF wf] by blast
      then show ?thesis
        using False nm et \<open>bmap_get (dir_contains g) d = Some es\<close>
          get_inode_at [OF well_formedD(5) [OF wf], of t x]
        by (cases rule: require_cap_cases [of g WRITE])
           (auto simp: unlink_def user_name_def is_dir_def)
    qed
  qed
next
  case True
  then obtain t where ok: "require_cap g WRITE = Ok ()" and n: "user_name n" "names_of g (d, n) = Some t"
    and nd: "\<not> is_dir (fs_of g) t" by blast
  obtain es where es: "bmap_get (dir_contains g) d = Some es"
    using no_dir_entries [OF wf, of d n] n(2) by (cases "bmap_get (dir_contains g) d") auto
  obtain e where e: "find_named g n es = Some (e, t)" "edge_at g e = Some (Contains e d t n)"
    using find_named_dir [OF wf es] n(2) by (cases "find_named g n es") fastforce+
  obtain x where x: "inode_at g t = Some x" using names_in_view [OF wf n(2)] by blast
  then have ct: "canonical t" and xt: "vtype x \<noteq> Directory"
    using inode_canonical [OF well_formedD(5) [OF wf]] nd by (auto simp: is_dir_def)
  let ?f = "\<lambda>n. n\<lparr>link_count := link_count n - 1\<rparr>"
  let ?g1 = "detach_contains e d t g" and ?g2 = "get_inode_mut t ?f (detach_contains e d t g)"
  let ?g3 = "if link_count x = 1 then gc_inode t ?g2 else ?g2"
  note 1 = detach_step [OF well_formedD(1) [OF wf] e(2)]
  have I1: "inode_at ?g1 = inode_at g" by (simp add: frame_simps)
  have x1: "inode_at ?g1 t = Some x" using x I1 by simp
  have 2: "rep_ok ?g2" "fs_of ?g2 = (fs_of g)\<lparr>fs_name := (names_of g)((d, n) := None),
      fs_inode := (inode_at g)(t \<mapsto> ?f x)\<rparr>"
    using update_inode_step [OF 1(1) x1, of ?f] by (simp_all add: 1(2) I1)
  note final = fs_unlink_ok [OF well_formedD(2) [OF wf] n(1), of d t x]
  have fok: "fs_ok (fs_unlink d n t x (fs_of g))" using final n(2) x xt by simp
  have 3: "rep_ok ?g3 \<and> fs_of ?g3 = fs_unlink d n t x (fs_of g)"
  proof (cases "link_count x = 1")
    case True
    have "names_of ?g2 (b, m) \<noteq> Some t" for b m
      using fs_ok_entry(2) [OF fok, of b m t] arg_cong [OF 2(2), of fs_name] True by auto
    then have "edge_at ?g2 a \<noteq> Some (Contains a b t m)" for a b m
      using names_of_iff [OF rep_okD(1) [OF 2(1)], of b m t] by blast
    note gc = gc_inode_step [OF 2(1) ct this]
    have "inode_at ?g2 = (inode_at g)(t \<mapsto> ?f x)"
      using arg_cong [OF 2(2), of fs_inode] by simp
    then show ?thesis
      using gc True by (simp add: 2(2) fs_unlink_def)
  next
    case False
    then show ?thesis using 2 by (simp add: fs_unlink_def)
  qed
  have roots: "root_dir ?g3 = root_dir g" "root_inode ?g3 = root_inode g" "quotas ?g3 = quotas g"
    by (simp_all add: get_inode_mut_def frame_simps gc_frame)
  have pts: "inode_points_to ?g3 = inode_points_to g \<or>
      inode_points_to ?g3 = bmap_remove t (inode_points_to g)"
    by (simp add: get_inode_mut_def frame_simps)
  have ext: "mi_get (inode_points_to ?g3) j = []" if "is_dir (fs_unlink d n t x (fs_of g)) j" for j
  proof -
    have "is_dir (fs_of g) j" using that x xt by (auto simp: is_dir_def split: if_splits)
    then show ?thesis using pts well_formedD(8) [OF wf, of j] by (auto simp: mi_get_clear)
  qed
  have wf': "well_formed ?g3"
    using well_formedI [OF conjunct1 [OF 3] conjunct2 [OF 3] fok _ ext] roots well_formedD(7) [OF wf] by simp
  have "fs_child (fs_of ?g3) = fs_child (fs_of g)"
    unfolding conjunct2 [OF 3]
    by (rule child_cong, rule dir_entry_file [OF well_formedD(2) [OF wf] nd, where d = d and n = n and v = None])
       (use n in simp_all)
  then have anc: "ancestor_or_self ?g3 a d = ancestor_or_self g a d" for a by (simp only:)
  obtain qs where fin: "update_quota ?g3 d (- 1) 0 = Some (?g3\<lparr>quotas := qs\<rparr>)"
    "map_of qs = quotas_after (quota_apply (- 1) 0) g d"
    by (rule finish [OF wf' roots(3) anc, of "- 1" 0])
  let ?g4 = "if link_count x = 1 then ?g3\<lparr>quotas := qs\<rparr> else ?g3"
  have eq: "unlink clk g d n = (Ok (), record_prov (clk 0) PUnlink t n ?g4)"
  proof -
    have gx: "get_inode g t = Some x" "get_inode ?g1 t = Some x"
      using inode_at_canonical [OF ct] x x1 by metis+
    have zero: "link_count x - 1 = 0 \<longleftrightarrow> link_count x = 1" by simp
    show ?thesis
      unfolding unlink_def ok try_res.simps es ok_or.simps e(1) prod.case gx Let_def option.case zero
      using user_nameD [OF n(1)] xt fin(1) by (cases "link_count x = 1") simp_all
  qed
  have view: "fs_of ?g4 = fs_unlink d n t x (fs_of g)" "well_formed ?g4"
    using 3 wf' by (cases "link_count x = 1"; simp)+
  have qs: "map_of (quotas ?g4) =
      (if link_count x = 1 then quotas_after (quota_apply (- 1) 0) g d else map_of (quotas g))"
    using fin(2) roots(3) by (cases "link_count x = 1") simp_all
  have cnt: "next_edge ?g4 = next_edge g" by (simp add: get_inode_mut_def frame_simps)
  show ?thesis
    unfolding eq prod.case res.case
    by (intro conjI exI [of _ t] exI [of _ x])
       (use ok n x xt view qs cnt in \<open>simp_all only: fs_of_simps frame_simps record_prov_view well_formed_record_prov\<close>, simp)
qed

end
