(* ===== verification/Sotfs_Directories.thy ===== *)
theory Sotfs_Directories
  imports Sotfs_Namespace
begin

text \<open>
  Correctness of \<open>mkdir\<close> and \<open>rmdir\<close>: the directory node, its \<open>.\<close> and \<open>..\<close> entries and the
  entry in the parent appear and disappear together.
\<close>

section \<open>Making a directory\<close>

lemma dir_for_inode_fresh:
  "well_formed g \<Longrightarrow> inode_at g i = None \<Longrightarrow> dir_for_inode g i = None"
  using dir_for_inode_iff [OF well_formedD(4), of g i] fs_ok_dir(1) [OF well_formedD(2), of g _ i]
  by (cases "dir_for_inode g i") (auto simp: is_dir_def)

lemma new_directory:
  assumes wf: "well_formed g" and d: "fs_dir (fs_of g) d = Some p"
    and n: "user_name n" "names_of g (d, n) = None"
    and cap: "next_inode g < NODE_CAPACITY" "next_dir g < NODE_CAPACITY" "next_edge g + 2 < EDGE_CAPACITY"
    and x: "inode_id x = next_inode g" "vtype x = Directory" "link_count x = 2"
  defines "g1 \<equiv> g\<lparr>next_inode := next_inode g + 1, next_dir := next_dir g + 1, next_edge := next_edge g + 3\<rparr>"
  defines "g2 \<equiv> insert_inode (next_inode g) x g1"
  defines "g3 \<equiv> insert_dir (next_dir g) \<lparr>dir_id = next_dir g, dir_inode_id = next_inode g\<rparr> g2"
  defines "g4 \<equiv> attach_contains (next_edge g) d (next_inode g) n g3"
  defines "g5 \<equiv> attach_contains (next_edge g + 1) (next_dir g) (next_inode g) ''.'' g4"
  defines "g6 \<equiv> attach_contains (next_edge g + 2) (next_dir g) p ''..'' g5"
  shows "well_formed g6" and "fs_of g6 = fs_mkdir d n (next_inode g) (next_dir g) x p (fs_of g)"
    and "quotas g6 = quotas g"
proof -
  let ?i = "next_inode g" and ?d = "next_dir g" and ?e = "next_edge g"
  note wfD = well_formedD [OF wf]
  have 1: "rep_ok g1" "fs_of g1 = fs_of g"
    using next_inode_step [where g = g and k = "?i + 1"]
      next_dir_step [where g = "g\<lparr>next_inode := ?i + 1\<rparr>" and k = "?d + 1"]
      next_edge_step [where g = "g\<lparr>next_inode := ?i + 1, next_dir := ?d + 1\<rparr>" and k = "?e + 3"] wfD(1)
    by (simp_all add: g1_def)
  have fi: "inode_at g ?i = None" and fd: "dir_at g ?d = None" and fe: "\<And>k. ?e \<le> k \<Longrightarrow> edge_at g k = None"
    using fresh_inode fresh_dir fresh_edge wfD(1) by auto
  have newnames: "names_of g (?d, m) = None" for m
    using names_in_view [OF wf, of ?d m] fd by (cases "names_of g (?d, m)") auto
  have dne: "?d \<noteq> d" using d fd by auto
  have f1: "inodes g1 = inodes g" "next_inode g1 = ?i + 1" by (simp_all add: g1_def)
  have 2: "rep_ok g2" "fs_of g2 = (fs_of g)\<lparr>fs_inode := (inode_at g)(?i \<mapsto> x)\<rparr>"
    using insert_inode_step [OF 1(1) cap(1), of x] x(1) fi 1(2) by (simp_all add: g2_def f1)
  have f2: "dirs g2 = dirs g" "next_dir g2 = ?d + 1" "dir_for_inode g2 ?i = None"
    using dir_for_inode_fresh [OF wf fi] by (simp_all add: g2_def g1_def insert_inode_def dir_for_inode_def)
  have 3: "rep_ok g3" "fs_of g3 = (fs_of g2)\<lparr>fs_dir := (fs_dir (fs_of g))(?d \<mapsto> ?i)\<rparr>"
    using insert_dir_step [OF 2(1) cap(2), of "\<lparr>dir_id = ?d, dir_inode_id = ?i\<rparr>"] fd
    by (simp_all add: g3_def f2)
  have f3: "edges g3 = edges g" "next_edge g3 = ?e + 3"
    by (simp_all add: g3_def g2_def g1_def insert_dir_def insert_inode_def)
  have n3: "names_of g3 = names_of g" using arg_cong [OF 3(2), of fs_name] by (simp add: 2(2))
  have 4: "rep_ok g4" "fs_of g4 = (fs_of g3)\<lparr>fs_name := (names_of g)((d, n) \<mapsto> ?i)\<rparr>"
    and e4: "edge_at g4 = (edge_at g)(?e \<mapsto> Contains ?e d ?i n)" "next_edge g4 = ?e + 3"
    using attach_step [OF 3(1), of ?e d n ?i] attach_edge_at [OF rep_okD(1) [OF 3(1)], of ?e d ?i n]
      cap(3) fe n(2) n3 by (simp_all add: g4_def frame_simps f3)
  have n4: "names_of g4 = (names_of g)((d, n) \<mapsto> ?i)" using arg_cong [OF 4(2), of fs_name] by simp
  have 5: "rep_ok g5" "fs_of g5 = (fs_of g4)\<lparr>fs_name := (names_of g4)((?d, ''.'') \<mapsto> ?i)\<rparr>"
    and e5: "edge_at g5 = (edge_at g4)(?e + 1 \<mapsto> Contains (?e + 1) ?d ?i ''.'')" "next_edge g5 = ?e + 3"
    using attach_step [OF 4(1), of "?e + 1" ?d "''.''" ?i]
      attach_edge_at [OF rep_okD(1) [OF 4(1)], of "?e + 1" ?d ?i "''.''"]
      cap(3) fe newnames dne n4 by (simp_all add: g5_def frame_simps e4)
  have n5: "names_of g5 = (names_of g4)((?d, ''.'') \<mapsto> ?i)" using arg_cong [OF 5(2), of fs_name] by simp
  have 6: "rep_ok g6" "fs_of g6 = (fs_of g5)\<lparr>fs_name := (names_of g5)((?d, ''..'') \<mapsto> p)\<rparr>"
    using attach_step [OF 5(1), of "?e + 2" ?d "''..''" p] cap(3) fe newnames dne n4 n5
    by (simp_all add: g6_def frame_simps e4 e5)
  show view: "fs_of g6 = fs_mkdir d n ?i ?d x p (fs_of g)"
    by (simp add: 6(2) 5(2) 4(2) 3(2) 2(2) n5 n4 fs_mkdir_def)
  have frame: "root_dir g6 = root_dir g" "root_inode g6 = root_inode g"
    by (simp_all add: g6_def g5_def g4_def g3_def g2_def g1_def frame_simps insert_dir_def insert_inode_def)
  show "quotas g6 = quotas g"
    by (simp add: g6_def g5_def g4_def g3_def g2_def g1_def frame_simps insert_dir_def insert_inode_def)
  have "fs_ok (fs_mkdir d n ?i ?d x p (fs_of g))"
    by (rule fs_mkdir_ok [OF wfD(2) d n(1)]) (use n(2) fi fd x in simp_all)
  moreover have "root_dir g \<noteq> ?d" using wfD(7) fd by auto
  moreover have "mi_get (inode_points_to g6) j = []" if "is_dir (fs_mkdir d n ?i ?d x p (fs_of g)) j" for j
  proof -
    have "inode_points_to g6 = inode_points_to g"
      by (simp add: g6_def g5_def g4_def g3_def g2_def g1_def frame_simps insert_dir_def insert_inode_def)
    then show ?thesis
      using that wfD(8) [of j] fresh_extents [OF wfD(1) fi] by (auto simp: is_dir_def split: if_splits)
  qed
  ultimately show "well_formed g6"
    using well_formedI [OF 6(1) view] wfD(7) by (simp add: frame)
qed

lemma mkdir_contract:
  assumes wf: "well_formed g" and c: "canonical d"
    and cap: "next_inode g < NODE_CAPACITY" "next_dir g < NODE_CAPACITY" "next_edge g + 2 < EDGE_CAPACITY"
  shows "case mkdir clk g d n u gi p of
      (Ok r, g') \<Rightarrow>
        require_cap g WRITE = Ok () \<and> \<not> bad_name n \<and> fs_name (fs_of g) (d, n) = None \<and>
        check_quota_inode g d = Ok () \<and> r = \<lparr>cr_inode_id = next_inode g, cr_dir_id = Some (next_dir g)\<rparr> \<and>
        well_formed g' \<and>
        (\<exists>j. fs_dir (fs_of g) d = Some j \<and>
             fs_of g' = fs_mkdir d n (next_inode g) (next_dir g)
               ((new_dir (clk 0) (next_inode g) p u gi)\<lparr>link_count := 2\<rparr>) j (fs_of g)) \<and>
        bmap_get (quotas g') = quotas_after (quota_apply 1 0) g d
    | (Err e, g') \<Rightarrow> g' = g \<and>
        (require_cap g WRITE = Err e \<or> bad_name n \<and> e = NameNotFound n \<or>
         fs_name (fs_of g) (d, n) \<noteq> None \<and> e = NameExists d n \<or>
         fs_dir (fs_of g) d = None \<and> e = DirNotFound d \<or> check_quota_inode g d = Err e)
    | _ \<Rightarrow> False"
proof (cases "\<exists>e. require_cap g WRITE = Err e \<or> bad_name n \<or> fs_name (fs_of g) (d, n) \<noteq> None \<or>
    fs_dir (fs_of g) d = None \<or> check_quota_inode g d = Err e")
  case True
  have "get_dir g d = dir_at g d" using c by (simp add: get_dir_def)
  then show ?thesis
    using True
    by (cases rule: require_cap_cases [of g WRITE]; cases rule: check_quota_inode_cases [OF wf, of d];
        cases "dir_at g d"; cases "names_of g (d, n)")
       (auto simp: mkdir_def resolve_name_eq well_formedD [OF wf])
next
  case False
  have ok: "require_cap g WRITE = Ok ()" "check_quota_inode g d = Ok ()"
    using False by (metis require_cap_cases, metis check_quota_inode_cases [OF wf])
  obtain dd where dd: "dir_at g d = Some dd" using False by auto
  then have d: "fs_dir (fs_of g) d = Some (dir_inode_id dd)" by simp
  have good: "\<not> bad_name n" "names_of g (d, n) = None"
    using False by auto
  let ?x = "(new_dir (clk 0) (next_inode g) p u gi)\<lparr>link_count := 2\<rparr>"
  let ?i = "next_inode g" and ?d = "next_dir g" and ?e = "next_edge g"
  let ?g' = "attach_contains (?e + 2) ?d (dir_inode_id dd) ''..'' (attach_contains (?e + 1) ?d ?i ''.''
      (attach_contains ?e d ?i n (insert_dir ?d \<lparr>dir_id = ?d, dir_inode_id = ?i\<rparr> (insert_inode ?i ?x
        (g\<lparr>next_inode := ?i + 1, next_dir := ?d + 1, next_edge := ?e + 3\<rparr>)))))"
  note new = new_directory [OF wf d user_name_of_good [OF good(1)] good(2) cap, of ?x]
  have wf': "well_formed ?g'" and q: "quotas ?g' = quotas g"
    and view: "fs_of ?g' = fs_mkdir d n ?i ?d ?x (dir_inode_id dd) (fs_of g)"
    using new by (simp_all add: new_dir_def)
  have "ancestor_or_self ?g' a d = ancestor_or_self g a d" for a
    unfolding view using fresh_inode fresh_dir well_formedD(1) [OF wf] good
    by (intro ancestors_mkdir [OF well_formedD(2) [OF wf] d user_name_of_good]) simp_all
  then obtain qs where fin: "update_quota ?g' d 1 0 = Some (?g'\<lparr>quotas := qs\<rparr>)"
    "map_of qs = quotas_after (quota_apply 1 0) g d"
    by (rule finish [OF wf' q, of d 1 0])
  have e: "succ_u64 ?e = ?e + 1" "succ_u64 (?e + 1) = ?e + 2" "succ_u64 (?e + 2) = ?e + 3"
    using cap(3) by (simp_all add: succ_u64_small)
  have eq: "mkdir clk g d n u gi p =
      (Ok \<lparr>cr_inode_id = ?i, cr_dir_id = Some ?d\<rparr>, record_prov (clk 1) PMkdir ?i n (?g'\<lparr>quotas := qs\<rparr>))"
    using good ok dd c fin(1)
    by (simp add: mkdir_def resolve_name_eq well_formedD [OF wf] get_dir_def
        alloc_inode_id_def alloc_dir_id_def alloc_edge_id_def succ_u64_small cap e Let_def
        del: add_2_eq_Suc add_2_eq_Suc')
  show ?thesis
    unfolding eq prod.case res.case
    by (intro conjI exI [of _ "dir_inode_id dd"])
       (use ok good wf' view d fin(2) in \<open>simp_all add: frame_simps\<close>)
qed

section \<open>Removing a directory\<close>

lemma has_user_entry_view:
  assumes ok: "edges_ok g" and "\<forall>e \<in> set es. e \<in> set (mi_get (dir_contains g) d)"
  shows "has_user_entry g es \<longleftrightarrow> (\<exists>e \<in> set es. \<exists>t n. user_name n \<and> edge_at g e = Some (Contains e d t n))"
  using assms(2)
proof (induction es)
  case (Cons a es)
  then obtain u m where a: "edge_at g a = Some (Contains a d u m)"
    using dir_edges_iff [OF ok, of a d] by auto
  then show ?case using Cons get_edge_at [OF ok a] by (auto simp: user_name_def)
qed simp

lemma has_user_entry_dir:
  assumes ok: "edges_ok g"
  shows "has_user_entry g (mi_get (dir_contains g) d) \<longleftrightarrow> (\<exists>m. user_name m \<and> names_of g (d, m) \<noteq> None)"
proof -
  have "has_user_entry g (mi_get (dir_contains g) d) \<longleftrightarrow>
      (\<exists>e t n. user_name n \<and> edge_at g e = Some (Contains e d t n))"
    using has_user_entry_view [OF ok, of "mi_get (dir_contains g) d" d] dir_edges_iff [OF ok, of _ d] by blast
  then show ?thesis using names_of_iff [OF ok, of d] by (metis not_None_eq)
qed

text \<open>The removal loop over a list of distinct \<open>Contains\<close> edges.\<close>

lemma remove_contains_eq:
  assumes ok: "edges_ok g" and e: "edge_at g e = Some (Contains e d t n)"
  shows "remove_contains e g = detach_contains e d t g"
proof -
  have "fst (remove_edge e g) = Some (Contains e d t n)"
    using ar.del_val [OF edges_okD(1) [OF ok], of e] e edge_canonical [OF ok e]
    by (cases "ar_remove e (edges g)") (auto simp: remove_edge_def Let_def split: option.splits)
  then show ?thesis
    by (cases "remove_edge e g") (simp add: remove_contains_def detach_contains_def)
qed

definition names_without :: "type_graph \<Rightarrow> edge_id set \<Rightarrow> dir_id \<times> string \<rightharpoonup> inode_id" where
  "names_without g S k =
     (if \<exists>e \<in> S. \<exists>t. edge_at g e = Some (Contains e (fst k) t (snd k)) then None else names_of g k)"

lemma remove_loop_step:
  assumes "rep_ok g" "distinct es" "\<And>e. e \<in> set es \<Longrightarrow> \<exists>d t n. edge_at g e = Some (Contains e d t n)"
  defines "h \<equiv> fold remove_contains es g"
  shows "rep_ok h \<and> fs_of h = (fs_of g)\<lparr>fs_name := names_without g (set es)\<rparr> \<and>
         edge_at h = (\<lambda>e. if e \<in> set es then None else edge_at g e) \<and>
         quotas h = quotas g \<and> root_inode h = root_inode g \<and> inodes h = inodes g \<and>
         dirs h = dirs g \<and> inode_points_to h = inode_points_to g \<and> next_edge h = next_edge g"
  unfolding h_def using assms(1-3)
proof (induction es arbitrary: g)
  case Nil
  have "names_without g (set []) = names_of g" by (simp add: names_without_def fun_eq_iff)
  then show ?case using Nil by (simp add: fs_of_def)
next
  case (Cons e es)
  obtain d t n where e: "edge_at g e = Some (Contains e d t n)" using Cons.prems(3) [of e] by auto
  let ?g = "detach_contains e d t g"
  note edges = rep_okD(1) [OF Cons.prems(1)]
  note s = detach_step [OF Cons.prems(1) e]
  have E: "edge_at ?g = (edge_at g)(e := None)" by (rule detach_edge_at [OF edges e])
  have N: "names_of ?g = (names_of g)((d, n) := None)" by (rule detach_names [OF edges e])
  have "\<exists>d t n. edge_at ?g e' = Some (Contains e' d t n)" if "e' \<in> set es" for e'
    using Cons.prems(2,3) that by (auto simp: E)
  note IH = Cons.IH [OF s(1) _ this]
  have "names_without ?g (set es) k = names_without g (set (e # es)) k" for k
  proof (cases "k = (d, n)")
    case True
    then show ?thesis using e by (auto simp: names_without_def N)
  next
    case False
    then have "\<not> (\<exists>t'. edge_at g e = Some (Contains e (fst k) t' (snd k)))" using e by (cases k) auto
    moreover have "e \<notin> set es" using Cons.prems(2) by simp
    ultimately show ?thesis
      using False by (auto simp: names_without_def N E)
  qed
  then have "names_without ?g (set es) = names_without g (set (e # es))" by (rule ext)
  then show ?case
    using IH Cons.prems(2) by (auto simp: remove_contains_eq [OF edges e] E s(2) frame_simps fun_eq_iff)
qed

text \<open>The edges \<open>rmdir\<close> collects, and the names that remain without them.\<close>

lemma filter_one: "distinct xs \<Longrightarrow> x \<in> set xs \<Longrightarrow> filter (\<lambda>a. a = x) xs = [x]"
  by (induction xs) (auto simp: filter_empty_conv)

lemma rmdir_edges:
  assumes ok: "edges_ok g" and e: "edge_at g e = Some (Contains e d t n)"
  shows "filter (is_entry g t n) (mi_get (dir_contains g) d) = [e]"
proof -
  have "is_entry g t n a \<longleftrightarrow> a = e" if mem: "a \<in> set (mi_get (dir_contains g) d)" for a
  proof -
    obtain u m where a: "edge_at g a = Some (Contains a d u m)"
      using mem dir_edges_iff [OF ok, of a d] by blast
    then have "is_entry g t n a \<longleftrightarrow> u = t \<and> m = n"
      using get_edge_at [OF ok a] by (simp add: is_entry_def)
    then show ?thesis using a e edge_key_unique [OF ok a, of e e t] by auto
  qed
  then have "filter (is_entry g t n) (mi_get (dir_contains g) d) =
      filter (\<lambda>a. a = e) (mi_get (dir_contains g) d)"
    by (rule filter_cong [OF refl])
  moreover have "e \<in> set (mi_get (dir_contains g) d)" using dir_edges_iff [OF ok, of e d] e by blast
  moreover have "distinct (mi_get (dir_contains g) d)" by (rule mi_ok_distinct [OF edges_okD(3) [OF ok]])
  ultimately show ?thesis
    by (simp add: filter_one)
qed

lemma rmdir_names:
  assumes ok: "edges_ok g" and e: "edge_at g e = Some (Contains e d t n)"
    and empty: "\<And>m. user_name m \<Longrightarrow> names_of g (c, m) = None" and dc: "d \<noteq> c"
  shows "names_without g (set (e # mi_get (dir_contains g) c)) =
           (names_of g)((d, n) := None, (c, ''.'') := None, (c, ''..'') := None)"
proof
  fix k :: "dir_id \<times> string"
  obtain b m where k: "k = (b, m)" by (cases k)
  let ?S = "set (e # mi_get (dir_contains g) c)"
  let ?removed = "\<exists>a \<in> ?S. \<exists>u. edge_at g a = Some (Contains a b u m)"
  show "names_without g ?S k =
      ((names_of g)((d, n) := None, (c, ''.'') := None, (c, ''..'') := None)) k"
  proof (cases "b = c")
    case True
    have "?removed \<or> names_of g (c, m) = None"
      using names_of_iff [OF ok, of c m] dir_edges_iff [OF ok, of _ c] True
      by (cases "names_of g (c, m)") fastforce+
    then show ?thesis
      using True empty [of m] dc by (auto simp: names_without_def k user_name_def)
  next
    case False
    have "a \<in> ?S \<and> edge_at g a = Some (Contains a b u m) \<longleftrightarrow>
        a = e \<and> b = d \<and> u = t \<and> m = n" for a u
      using False e dir_edges_iff [OF ok, of a c] by auto
    then have "?removed \<longleftrightarrow> b = d \<and> m = n" by blast
    then show ?thesis
      using False by (auto simp: names_without_def k)
  qed
qed

text \<open>Everything \<open>rmdir\<close> does to the graph before the quota walk.\<close>

definition rmdir_graph :: "type_graph \<Rightarrow> dir_id \<Rightarrow> string \<Rightarrow> inode_id \<Rightarrow> dir_id \<Rightarrow> type_graph" where
  "rmdir_graph g d n t c =
     (let g = fold remove_contains (filter (is_entry g t n) (mi_get (dir_contains g) d) @
                                    mi_get (dir_contains g) c) g;
          g = snd (remove_inode t g);
          g = snd (remove_dir c g);
          g = g\<lparr>dir_contains := bmap_remove c (dir_contains g)\<rparr>
      in g\<lparr>inode_incoming_contains := bmap_remove t (inode_incoming_contains g)\<rparr>)"

lemma rmdir_graph_correct:
  assumes wf: "well_formed g" and n: "user_name n" "names_of g (d, n) = Some t"
    and c: "fs_dir (fs_of g) c = Some t" and empty: "\<And>m. user_name m \<Longrightarrow> names_of g (c, m) = None"
  shows "well_formed (rmdir_graph g d n t c)"
    and "fs_of (rmdir_graph g d n t c) = fs_rmdir d n t c (fs_of g)"
    and "quotas (rmdir_graph g d n t c) = quotas g" and "next_edge (rmdir_graph g d n t c) = next_edge g"
proof -
  note wfD = well_formedD [OF wf]
  obtain e where e: "edge_at g e = Some (Contains e d t n)"
    using names_of_iff [OF wfD(3)] n(2) by blast
  have dc: "d \<noteq> c" using empty n by auto
  obtain dd where dd: "dir_at g c = Some dd" using c by auto
  have isd: "is_dir (fs_of g) t" by (rule fs_ok_dir(1) [OF wfD(2) c])
  obtain x where x: "inode_at g t = Some x" using isd by (auto simp: is_dir_def)
  have ct: "canonical t" by (rule inode_canonical [OF wfD(5) x])
  have fok: "fs_ok (fs_rmdir d n t c (fs_of g))"
    by (rule fs_rmdir_ok [OF wfD(2) n(1) _ c]) (use n(2) empty in simp_all)
  let ?es = "e # mi_get (dir_contains g) c"
  let ?h = "fold remove_contains ?es g"
  have "distinct ?es"
    using mi_ok_distinct [OF edges_okD(3) [OF wfD(3)]] dir_edges_iff [OF wfD(3), of e c] e dc by auto
  moreover have "\<exists>d t n. edge_at g a = Some (Contains a d t n)" if "a \<in> set ?es" for a
    using that e dir_edges_iff [OF wfD(3), of a c] by auto
  ultimately have h: "rep_ok ?h" "fs_of ?h = (fs_of g)\<lparr>fs_name := names_without g (set ?es)\<rparr>"
    "edge_at ?h = (\<lambda>a. if a \<in> set ?es then None else edge_at g a)" "quotas ?h = quotas g"
    "root_inode ?h = root_inode g" "inodes ?h = inodes g" "dirs ?h = dirs g"
    "inode_points_to ?h = inode_points_to g" "next_edge ?h = next_edge g"
    using remove_loop_step [OF wfD(1), of ?es] by blast+
  have names: "names_without g (insert e (set (mi_get (dir_contains g) c))) =
      (names_of g)((d, n) := None, (c, ''.'') := None, (c, ''..'') := None)"
    using rmdir_names [OF wfD(3) e _ dc] empty by simp
  have nh: "names_of ?h = fs_name (fs_rmdir d n t c (fs_of g))"
    using arg_cong [OF h(2), of fs_name] names by simp
  note [simp del] = fold_Cons
  let ?k = "snd (remove_inode t ?h)"
  have "proj points_src (edge_at ?h) a \<noteq> Some t" for a
    using no_extents_no_edges [OF rep_okD(1) [OF h(1)], of t a] wfD(8) [OF isd] h(8) by simp
  note k = remove_inode_step [OF h(1) ct this]
  have kf: "dirs ?k = dirs g" "edges ?k = edges ?h" "inode_points_to ?k = inode_points_to g"
    "root_inode ?k = root_inode g" "quotas ?k = quotas g" "next_edge ?k = next_edge g"
    by (simp_all add: remove_inode_def h split: prod.split)
  have ck: "dir_at ?k c = Some dd" using dd kf(1) by simp
  let ?l = "snd (remove_dir c ?k)"
  note l = remove_dir_step [OF k(1) ck]
  have lf: "edges ?l = edges ?h" "inode_points_to ?l = inode_points_to g"
    "root_inode ?l = root_inode g" "quotas ?l = quotas g" "next_edge ?l = next_edge g"
    by (simp_all add: remove_dir_def kf Let_def split: prod.split option.split)
  have noedge: "edge_at ?l a \<noteq> Some (Contains a c u m)" for a u m
    using dir_edges_iff [OF wfD(3), of a c] by (auto simp: lf h(3))
  let ?m = "?l\<lparr>dir_contains := bmap_remove c (dir_contains ?l)\<rparr>"
  note m = clear_dir_step [OF l(1) noedge]
  have "names_of ?h (b, p) \<noteq> Some t" for b p
    using fs_ok_entry(2) [OF fok, of b p t] by (auto simp: nh)
  then have notgt: "edge_at ?m a \<noteq> Some (Contains a b t p)" for a b p
    using names_of_iff [OF rep_okD(1) [OF h(1)], of b p t] by (auto simp: lf)
  note q = clear_incoming_step [OF m(1) notgt]
  have eq: "rmdir_graph g d n t c =
      ?m\<lparr>inode_incoming_contains := bmap_remove t (inode_incoming_contains ?m)\<rparr>"
    by (simp add: rmdir_graph_def rmdir_edges [OF wfD(3) e] Let_def)
  show view: "fs_of (rmdir_graph g d n t c) = fs_rmdir d n t c (fs_of g)"
    using arg_cong [OF k(2), of fs_dir]
    unfolding eq q(2) m(2) l(2) k(2) h(2) by (simp add: fs_rmdir_def h(6) kf(1) names)
  show "quotas (rmdir_graph g d n t c) = quotas g" "next_edge (rmdir_graph g d n t c) = next_edge g"
    by (simp_all add: eq lf)
  have okr: "rep_ok (rmdir_graph g d n t c)" unfolding eq by (rule q(1))
  have "root_dir (rmdir_graph g d n t c) = root_dir g"
    using arg_cong [OF view, of fs_root] by simp
  moreover have "root_inode (rmdir_graph g d n t c) = root_inode g"
    by (simp add: eq lf)
  moreover have "root_dir g \<noteq> c"
  proof -
    have "dir_entry (fs_of g) (d, n) c" using n c by (simp add: dir_entry_def)
    then show ?thesis using fs_ok_tree(4) [OF wfD(2), of "(d, n)"] by auto
  qed
  moreover have "mi_get (inode_points_to (rmdir_graph g d n t c)) j = []"
    if "is_dir (fs_rmdir d n t c (fs_of g)) j" for j
    using that wfD(8) [of j] by (auto simp: eq lf is_dir_def split: if_splits)
  ultimately show "well_formed (rmdir_graph g d n t c)"
    using well_formedI [OF okr view fok] wfD(7) by simp
qed

lemma rmdir_contract:
  assumes wf: "well_formed g"
  shows "case rmdir clk g d n of
      (Ok _, g') \<Rightarrow>
        require_cap g WRITE = Ok () \<and> user_name n \<and> well_formed g' \<and> next_edge g' = next_edge g \<and>
        (\<exists>t c. fs_name (fs_of g) (d, n) = Some t \<and> fs_dir (fs_of g) c = Some t \<and>
               (\<forall>m. user_name m \<longrightarrow> fs_name (fs_of g) (c, m) = None) \<and>
               fs_of g' = fs_rmdir d n t c (fs_of g)) \<and>
        bmap_get (quotas g') = quotas_after (quota_apply (- 1) 0) g d
    | (Err e, g') \<Rightarrow> g' = g \<and>
        (require_cap g WRITE = Err e \<or> \<not> user_name n \<and> e = NameNotFound n \<or>
         fs_name (fs_of g) (d, n) = None \<and> e = NameNotFound n \<or>
         (\<exists>t. fs_name (fs_of g) (d, n) = Some t \<and> \<not> is_dir (fs_of g) t \<and> e = NotADirectory t) \<or>
         (\<exists>t c m. fs_name (fs_of g) (d, n) = Some t \<and> fs_dir (fs_of g) c = Some t \<and>
                  user_name m \<and> fs_name (fs_of g) (c, m) \<noteq> None \<and> e = DirNotEmpty c))
    | _ \<Rightarrow> False"
proof (cases "require_cap g WRITE = Ok () \<and> user_name n \<and>
    (\<exists>t. names_of g (d, n) = Some t \<and> is_dir (fs_of g) t)")
  case False
  show ?thesis
  proof (cases "names_of g (d, n)")
    case None
    then show ?thesis
      by (cases rule: require_cap_cases [of g WRITE])
         (auto simp: rmdir_def resolve_name_eq well_formedD [OF wf] user_name_def)
  next
    case (Some t)
    then obtain x where "inode_at g t = Some x" using names_in_view [OF wf] by blast
    then show ?thesis
      using False Some get_inode_at [OF well_formedD(5) [OF wf], of t x]
      by (cases rule: require_cap_cases [of g WRITE])
         (auto simp: rmdir_def resolve_name_eq well_formedD [OF wf] user_name_def is_dir_def)
  qed
next
  case True
  note wfD = well_formedD [OF wf]
  from True obtain t where ok: "require_cap g WRITE = Ok ()" and n: "user_name n" "names_of g (d, n) = Some t"
    and isd: "is_dir (fs_of g) t" by blast
  obtain c where c: "fs_dir (fs_of g) c = Some t" using fs_ok_dir(4) [OF wfD(2) isd] by blast
  obtain x where x: "inode_at g t = Some x" "vtype x = Directory" using isd by (auto simp: is_dir_def)
  have read: "resolve_name g d n = Some t" "get_inode g t = Some x" "dir_for_inode g t = Some c"
    using n(2) get_inode_at [OF wfD(5) x(1)] dir_for_inode_iff [OF wfD(4)] c
    by (simp_all add: resolve_name_eq [OF wfD(3)])
  note hue = has_user_entry_dir [OF wfD(3), of c]
  show ?thesis
  proof (cases "has_user_entry g (mi_get (dir_contains g) c)")
    case True
    then have "rmdir clk g d n = (Err (DirNotEmpty c), g)"
      using ok read x(2) user_nameD [OF n(1)] by (simp add: rmdir_def)
    then show ?thesis using n c True hue by auto
  next
    case False
    let ?g' = "rmdir_graph g d n t c"
    have empty: "names_of g (c, m) = None" if "user_name m" for m using False hue that by blast
    have r: "well_formed ?g'" "fs_of ?g' = fs_rmdir d n t c (fs_of g)" "quotas ?g' = quotas g"
      "next_edge ?g' = next_edge g"
      using rmdir_graph_correct [OF wf n c] empty by blast+
    have nc: "fs_name (fs_of g) (d, n) = Some t" using n(2) by simp
    have "ancestor_or_self ?g' a d = ancestor_or_self g a d" for a
      using ancestors_rmdir [OF wfD(2) n(1) nc c, of a] empty by (simp only: r(2) fs_of_simps)
    then obtain qs where fin: "update_quota ?g' d (- 1) 0 = Some (?g'\<lparr>quotas := qs\<rparr>)"
      "map_of qs = quotas_after (quota_apply (- 1) 0) g d"
      by (rule finish [OF r(1) r(3), of d "- 1" 0])
    have eq: "rmdir clk g d n = (Ok (), record_prov (clk 0) PRmdir t n (?g'\<lparr>quotas := qs\<rparr>))"
      using ok read x(2) user_nameD [OF n(1)] False fin(1)
      unfolding rmdir_def rmdir_graph_def Let_def by simp
    show ?thesis
      unfolding eq prod.case res.case
      by (intro conjI exI [of _ t] exI [of _ c])
         (use ok n c empty r fin(2) in \<open>simp_all add: frame_simps\<close>)
  qed
qed

end
