(* ===== verification/Sotfs_Rename.thy ===== *)
theory Sotfs_Rename
  imports Sotfs_Directories
begin

text \<open>
  Correctness of \<open>rename\<close>: the replaced destination, the in-place rename within a directory, the
  move between directories with its cycle guard and the update of \<open>..\<close>.
\<close>

section \<open>Replacing the destination\<close>

definition fs_replaced :: "dir_id \<Rightarrow> string \<Rightarrow> fs \<Rightarrow> fs \<Rightarrow> bool" where
  "fs_replaced e m f f' \<longleftrightarrow>
     (fs_name f (e, m) = None \<and> f' = f) \<or>
     (\<exists>t x. fs_name f (e, m) = Some t \<and> fs_inode f t = Some x \<and> vtype x \<noteq> Directory \<and>
            f' = fs_unlink e m t x f) \<or>
     (\<exists>t c. fs_name f (e, m) = Some t \<and> fs_dir f c = Some t \<and>
            (\<forall>l. user_name l \<longrightarrow> fs_name f (c, l) = None) \<and> f' = fs_rmdir e m t c f)"

lemma replace_dst_correct:
  assumes wf: "well_formed g" and cap: "require_cap g WRITE = Ok ()" and m: "user_name m"
  shows "case replace_dst clk g e m (names_of g (e, m)) of
      (Ok _, g') \<Rightarrow> well_formed g' \<and> fs_replaced e m (fs_of g) (fs_of g') \<and> next_edge g' = next_edge g \<and>
                   (names_of g (e, m) = None \<longrightarrow> g' = g)
    | (Err err, g') \<Rightarrow> g' = g \<and>
        (\<exists>t c l. fs_name (fs_of g) (e, m) = Some t \<and> fs_dir (fs_of g) c = Some t \<and>
               user_name l \<and> fs_name (fs_of g) (c, l) \<noteq> None \<and> err = DirNotEmpty c)
    | _ \<Rightarrow> False"
proof (cases "names_of g (e, m)")
  case None
  then show ?thesis using wf by (simp add: replace_dst_def fs_replaced_def)
next
  case (Some t)
  then obtain x where x: "inode_at g t = Some x" using names_in_view [OF wf] by blast
  have gx: "get_inode g t = Some x" by (rule get_inode_at [OF well_formedD(5) [OF wf] x])
  show ?thesis
  proof (cases "vtype x = Directory")
    case True
    then have "is_dir (fs_of g) t" using x by (simp add: is_dir_def)
    then show ?thesis
      using rmdir_contract [OF wf, where clk = clk and d = e and n = m] Some gx True cap m
      by (auto simp: replace_dst_def fs_replaced_def split: res.splits prod.splits)
  next
    case False
    then have "\<not> is_dir (fs_of g) t" using x by (simp add: is_dir_def)
    then show ?thesis
      using unlink_contract [OF wf, where clk = clk and d = e and n = m] Some gx False cap m
        no_dir_entries [OF wf, of e m] find_named_dir [OF wf, of e]
      by (auto simp: replace_dst_def fs_replaced_def split: res.splits prod.splits)
  qed
qed

text \<open>The source of the rename survives the replacement of another entry.\<close>

lemma replaced_source:
  assumes ok: "fs_ok f" and rep: "fs_replaced e m f f'" and m: "user_name m"
    and src: "fs_name f (d, n) = Some i" "user_name n" and ne: "(d, n) \<noteq> (e, m)"
    and e: "fs_dir f e \<noteq> None"
  shows "fs_name f' (d, n) = Some i" and "fs_name f' (e, m) = None" and "fs_dir f' e \<noteq> None"
    and "fs_child f' \<subseteq> fs_child f" and "fs_dir f' c = Some i \<Longrightarrow> fs_dir f c = Some i"
    and "fs_root f' = fs_root f"
proof -
  note nn = user_nameD [OF src(2)] and mm = user_nameD [OF m]
  consider "fs_name f (e, m) = None" "f' = f"
    | t x where "fs_name f (e, m) = Some t" "fs_inode f t = Some x" "vtype x \<noteq> Directory"
        "f' = fs_unlink e m t x f"
    | t c where "fs_name f (e, m) = Some t" "fs_dir f c = Some t"
        "\<forall>l. user_name l \<longrightarrow> fs_name f (c, l) = None" "f' = fs_rmdir e m t c f"
    using rep unfolding fs_replaced_def by auto
  then have "fs_name f' (d, n) = Some i \<and> fs_name f' (e, m) = None \<and> fs_dir f' e \<noteq> None \<and>
      fs_child f' \<subseteq> fs_child f \<and> (\<forall>c. fs_dir f' c = Some i \<longrightarrow> fs_dir f c = Some i) \<and>
      fs_root f' = fs_root f"
  proof cases
    case 1
    then show ?thesis using src e by simp
  next
    case leaf: (2 t x)
    then have "\<not> is_dir f t" by (simp add: is_dir_def)
    then have "fs_child f' = fs_child f"
      using leaf by (intro child_cong dir_entry_file [OF ok, where d = e and n = m and v = None]) simp_all
    then show ?thesis using leaf src e ne by auto
  next
    case dir: (3 t c)
    have "fs_child f' \<subseteq> fs_child f"
      using dir_entry_rmdir [OF ok dir(1,2)] dir(4) by (auto simp: fs_child_def)
    moreover have "d \<noteq> c" using dir(3) src by auto
    moreover have "e \<noteq> c" using dir(1,3) m by auto
    ultimately show ?thesis using dir src e ne nn mm by auto
  qed
  then show "fs_name f' (d, n) = Some i" "fs_name f' (e, m) = None" "fs_dir f' e \<noteq> None"
    "fs_child f' \<subseteq> fs_child f" "fs_dir f' c = Some i \<Longrightarrow> fs_dir f c = Some i" "fs_root f' = fs_root f"
    by blast+
qed

section \<open>The edge that moves\<close>

lemma find_filter: "find P xs = (case filter P xs of [] \<Rightarrow> None | x # _ \<Rightarrow> Some x)"
  by (induction xs) auto

lemma find_entry:
  assumes wf: "well_formed g" and n: "names_of g (d, n) = Some i"
  obtains es e where "bmap_get (dir_contains g) d = Some es" "find (is_entry g i n) es = Some e"
    "edge_at g e = Some (Contains e d i n)"
proof -
  obtain e where e: "edge_at g e = Some (Contains e d i n)"
    using names_of_iff [OF well_formedD(3) [OF wf]] n by blast
  obtain es where es: "bmap_get (dir_contains g) d = Some es"
    using no_dir_entries [OF wf, of d n] n by (cases "bmap_get (dir_contains g) d") auto
  have "filter (is_entry g i n) es = [e]"
    using rmdir_edges [OF well_formedD(3) [OF wf] e] es by (simp add: mi_get_def)
  then show thesis using that es e by (simp add: find_filter)
qed

lemma rename_edge_step:
  assumes ok: "rep_ok g" and e: "edge_at g e = Some (Contains e d i n)"
    and m: "names_of g (d, m) = None" "n \<noteq> m"
  defines "g' \<equiv> snd (rename_contains_edge e m g)"
  shows "rep_ok g'" and "fs_of g' = (fs_of g)\<lparr>fs_name := (names_of g)((d, n) := None, (d, m) \<mapsto> i)\<rparr>"
    and "root_inode g' = root_inode g" "quotas g' = quotas g" "inode_points_to g' = inode_points_to g"
    and "next_edge g' = next_edge g"
proof -
  note edges = rep_okD(1) [OF ok]
  have c: "canonical e" and ge: "get_edge g e = Some (Contains e d i n)"
    using edge_canonical [OF edges e] get_edge_at [OF edges e] by simp_all
  have g': "g' = g\<lparr>dir_name_idx := bmap_insert (d, m) e (bmap_remove (d, n) (dir_name_idx g)),
      edges := ar_get_mut e (set_name m) (edges g)\<rparr>"
    using m(2) c by (simp add: g'_def rename_contains_edge_def ge get_edge_mut_def Let_def)
  have E: "edge_at g' = (edge_at g)(e \<mapsto> Contains e d i m)"
    using edges_okD(1) [OF edges] e by (simp add: g' slot_simps)
  have key: "bmap_get (dir_name_idx g) (d, m) = None"
    using name_idx_iff [OF edges, of d m] edge_gone [OF edges m(1)]
    by (cases "bmap_get (dir_name_idx g) (d, m)") blast+
  have same: "proj contains_src (edge_at g') = proj contains_src (edge_at g)"
    "proj contains_tgt (edge_at g') = proj contains_tgt (edge_at g)"
    "proj points_src (edge_at g') = proj points_src (edge_at g)"
    "proj points_tgt (edge_at g') = proj points_tgt (edge_at g)"
    using e by (auto simp: E fun_eq_iff proj_Some)
  have frame: "dir_contains g' = dir_contains g" "inode_incoming_contains g' = inode_incoming_contains g"
    "inode_points_to g' = inode_points_to g" "next_edge g' = next_edge g" "inodes g' = inodes g"
    "dirs g' = dirs g" "root_dir g' = root_dir g"
    by (simp_all add: g')
  have idx: "dir_name_idx g' = bmap_insert (d, m) e (bmap_remove (d, n) (dir_name_idx g))"
    by (simp add: g')
  have "map_exact (dir_name_idx g') (proj contains_key (edge_at g'))"
    using map_exact_rename [OF edges_okD(10) [OF edges] _ key, of e "(d, n)"] e
    by (simp add: E idx proj_Some)
  moreover have "\<forall>e' x. edge_at g' e' = Some x \<longrightarrow> edge_id x = e' \<and> e' < next_edge g'"
    using edges_okD(11,12) [OF edges] e by (auto simp: E frame)
  moreover have "ar_inv (edges g')" "ar_capacity (edges g') = EDGE_CAPACITY" "bmap_ok (dir_name_idx g')"
    using edges_okD(1,2,6) [OF edges] by (simp_all add: g' slot_simps)
  ultimately have ok': "edges_ok g'"
    using edges_okD(3-9) [OF edges] unfolding edges_ok_def frame same by blast
  moreover have "blocks_ok g'"
    by (rule blocks_ok_cong [OF rep_okD(4) [OF ok] _ _ same(4) same(3)]) (simp_all add: g')
  moreover have "dirs_ok g'" "inodes_ok g'"
    using dirs_ok_cong [OF rep_okD(2) [OF ok]] inodes_ok_cong [OF rep_okD(3) [OF ok]]
    by (simp_all add: g')
  ultimately show "rep_ok g'" by (simp add: rep_ok_def)
  have "names_of g' = (names_of g)((d, n) := None, (d, m) \<mapsto> i)"
  proof (rule names_of_ext [OF edges ok'])
    fix b l t
    show "(\<exists>e'. edge_at g' e' = Some (Contains e' b t l)) \<longleftrightarrow>
          ((names_of g)((d, n) := None, (d, m) \<mapsto> i)) (b, l) = Some t"
    proof (cases "b = d \<and> (l = n \<or> l = m)")
      case True
      then show ?thesis
        using edge_upd_simps(2) [of "edge_at g" d t l e "Some (Contains e d i m)"]
          edge_key_unique [OF edges e] edge_gone [OF edges m(1)] m(2) unfolding E by auto
    next
      case False
      then have "Some (Contains e d i m) \<noteq> Some (Contains e b t l)"
        "edge_at g e \<noteq> Some (Contains e b t l)" using e by auto
      from edge_upd_simps(1) [where E = "edge_at g", OF this] show ?thesis
        using names_of_iff [OF edges, of b l t] False unfolding E by auto
    qed
  qed
  then show "fs_of g' = (fs_of g)\<lparr>fs_name := (names_of g)((d, n) := None, (d, m) \<mapsto> i)\<rparr>"
    using fs_of_name_step [OF frame(5,6,7)] by blast
  show "root_inode g' = root_inode g" "quotas g' = quotas g" "inode_points_to g' = inode_points_to g"
    "next_edge g' = next_edge g" by (simp_all add: g')
qed

section \<open>The cycle guard\<close>

lemma would_cycle_view:
  assumes wf: "well_formed g" and i: "names_of g (d, n) = Some i"
  shows "would_cycle g i e = Some (\<exists>c. fs_dir (fs_of g) c = Some i \<and> ancestor_or_self g c e)"
proof -
  note wfD = well_formedD [OF wf]
  obtain x where x: "inode_at g i = Some x" using names_in_view [OF wf i] by blast
  have gx: "get_inode g i = Some x" by (rule get_inode_at [OF wfD(5) x])
  show ?thesis
  proof (cases "vtype x = Directory")
    case True
    then obtain c where c: "fs_dir (fs_of g) c = Some i"
      using fs_ok_dir(4) [OF wfD(2), of i] x by (auto simp: is_dir_def)
    then have di: "dir_for_inode g i = Some c" using dir_for_inode_iff [OF wfD(4)] by blast
    have "would_cycle g i e = Some (ancestor_or_self g c e)"
      by (simp add: would_cycle_def gx True di is_ancestor_iff child_rel_view [OF wf] del: fs_of_simps)
    moreover have "(\<exists>b. fs_dir (fs_of g) b = Some i \<and> ancestor_or_self g b e) \<longleftrightarrow> ancestor_or_self g c e"
      using fs_ok_dir(3) [OF wfD(2) _ c] c by blast
    ultimately show ?thesis by (simp only:)
  next
    case False
    then have "fs_dir (fs_of g) c \<noteq> Some i" for c
      using fs_ok_dir(1) [OF wfD(2), of c i] x by (auto simp: is_dir_def)
    then show ?thesis using gx False by (simp add: would_cycle_def del: fs_of_simps)
  qed
qed

section \<open>Moving the parent entry of a directory\<close>

lemma move_dotdot_file:
  "get_inode g i = Some x \<Longrightarrow> vtype x \<noteq> Directory \<Longrightarrow> move_dotdot i e g = g"
  by (simp add: move_dotdot_def)

lemma find_dotdot:
  assumes ok: "edges_ok g" and n: "names_of g (c, ''..'') = Some j"
  obtains a where "find (is_dotdot g) (mi_get (dir_contains g) c) = Some a"
    "edge_at g a = Some (Contains a c j ''..'')"
proof -
  obtain b where b: "edge_at g b = Some (Contains b c j ''..'')" using names_of_iff [OF ok] n by blast
  then have "b \<in> set (mi_get (dir_contains g) c)" "is_dotdot g b"
    using dir_edges_iff [OF ok, of b c] get_edge_at [OF ok b] by (auto simp: is_dotdot_def)
  then obtain a where a: "find (is_dotdot g) (mi_get (dir_contains g) c) = Some a"
    by (metis find_None_iff not_Some_eq)
  then have "is_dotdot g a" "a \<in> set (mi_get (dir_contains g) c)"
    by (auto simp: find_Some_iff)
  then obtain t n where "edge_at g a = Some (Contains a c t n)" "n = ''..''"
    using dir_edges_iff [OF ok, of a c] get_edge_at [OF ok, of a] by (fastforce simp: is_dotdot_def)
  then show thesis using that [OF a] edge_key_unique [OF ok b, of a a t] b by simp
qed

lemma move_dotdot_dir:
  assumes ok: "rep_ok g" and x: "inode_at g i = Some x" "vtype x = Directory"
    and c: "fs_dir (fs_of g) c = Some i" and e: "dir_at g e = Some dd"
    and dots: "names_of g (c, ''..'') = Some j"
  shows "rep_ok (move_dotdot i e g)"
    and "fs_of (move_dotdot i e g) = (fs_of g)\<lparr>fs_name := (names_of g)((c, ''..'') \<mapsto> dir_inode_id dd)\<rparr>"
    and "root_inode (move_dotdot i e g) = root_inode g" "quotas (move_dotdot i e g) = quotas g"
    and "inode_points_to (move_dotdot i e g) = inode_points_to g"
proof -
  note edges = rep_okD(1) [OF ok]
  obtain a where a: "find (is_dotdot g) (mi_get (dir_contains g) c) = Some a"
    "edge_at g a = Some (Contains a c j ''..'')" by (rule find_dotdot [OF edges dots])
  have "dir_for_inode g i = Some c" using dir_for_inode_iff [OF rep_okD(2) [OF ok]] c by blast
  then have eq: "move_dotdot i e g = retarget_contains a j (dir_inode_id dd) g"
    using get_inode_at [OF rep_okD(3) [OF ok] x(1)] get_dir_at [OF rep_okD(2) [OF ok] e]
      get_edge_at [OF edges a(2)] a(1) x(2) by (simp add: move_dotdot_def)
  show "rep_ok (move_dotdot i e g)"
    "fs_of (move_dotdot i e g) = (fs_of g)\<lparr>fs_name := (names_of g)((c, ''..'') \<mapsto> dir_inode_id dd)\<rparr>"
    "root_inode (move_dotdot i e g) = root_inode g" "quotas (move_dotdot i e g) = quotas g"
    "inode_points_to (move_dotdot i e g) = inode_points_to g"
    using retarget_step [OF ok a(2)] by (simp_all add: eq frame_simps)
qed

section \<open>Rename\<close>

definition dir_not_empty :: "fs \<Rightarrow> dir_id \<Rightarrow> string \<Rightarrow> graph_error \<Rightarrow> bool" where
  "dir_not_empty f e m err \<longleftrightarrow>
     (\<exists>t c l. fs_name f (e, m) = Some t \<and> fs_dir f c = Some t \<and> user_name l \<and>
              fs_name f (c, l) \<noteq> None \<and> err = DirNotEmpty c)"

lemma fs_rename_well_formed:
  assumes g1: "well_formed g1" and ok: "rep_ok g'" and view: "fs_of g' = fs_rename d n e m i (fs_of g1)"
    and n: "user_name n" "names_of g1 (d, n) = Some i" and m: "user_name m" "names_of g1 (e, m) = None"
    and e: "fs_dir (fs_of g1) e \<noteq> None"
    and nocycle: "\<And>c. fs_dir (fs_of g1) c = Some i \<Longrightarrow> (c, e) \<notin> (fs_child (fs_of g1))\<^sup>*"
    and frame: "root_inode g' = root_inode g1" "inode_points_to g' = inode_points_to g1"
  shows "well_formed g'"
proof (rule well_formedI [OF ok view])
  show "fs_ok (fs_rename d n e m i (fs_of g1))"
    by (rule fs_rename_ok [OF well_formedD(2) [OF g1] n(1) _ m(1) _ e nocycle]) (use n m in simp_all)
  have "root_dir g' = root_dir g1" using arg_cong [OF view, of fs_root] by simp
  then show "fs_dir (fs_rename d n e m i (fs_of g1)) (root_dir g') = Some (root_inode g')"
    using well_formedD(7) [OF g1] by (simp add: frame)
  show "mi_get (inode_points_to g') j = []" if "is_dir (fs_rename d n e m i (fs_of g1)) j" for j
    using that well_formedD(8) [OF g1, of j] by (simp add: frame is_dir_def)
qed

lemma same_dir_acyclic:
  assumes "fs_ok f" "fs_name f (d, n) = Some i" "user_name n" "fs_dir f c = Some i"
  shows "(c, d) \<notin> (fs_child f)\<^sup>*"
proof (rule not_own_ancestor [OF assms(1)])
  show "(d, c) \<in> fs_child f" using assms by (auto simp: fs_child_def dir_entry_def)
qed

lemma fs_rename_same: "fs_rename d n d m i f = f\<lparr>fs_name := (fs_name f)((d, n) := None, (d, m) \<mapsto> i)\<rparr>"
  unfolding fs_rename_def by (rule arg_cong [where f = "\<lambda>x. f\<lparr>fs_name := x\<rparr>"]) (simp add: fun_eq_iff)

lemma fs_rename_leaf:
  "(\<And>c. fs_dir f c \<noteq> Some i) \<Longrightarrow>
   fs_rename d n e m i f = f\<lparr>fs_name := (fs_name f)((d, n) := None, (e, m) \<mapsto> i)\<rparr>"
  unfolding fs_rename_def by (rule arg_cong [where f = "\<lambda>x. f\<lparr>fs_name := x\<rparr>"]) (simp add: fun_eq_iff)

lemma fs_rename_dir:
  assumes "d \<noteq> e" "fs_dir f e = Some j" "\<And>b. fs_dir f b = Some i \<longleftrightarrow> b = c"
  shows "fs_rename d n e m i f =
    f\<lparr>fs_name := (fs_name f)((d, n) := None, (e, m) \<mapsto> i, (c, ''..'') \<mapsto> j)\<rparr>"
  unfolding fs_rename_def
  by (rule arg_cong [where f = "\<lambda>x. f\<lparr>fs_name := x\<rparr>"]) (use assms in \<open>auto simp: fun_eq_iff\<close>)

lemma rename_same_dir_correct:
  assumes wf: "well_formed g" and cap: "require_cap g WRITE = Ok ()"
    and n: "user_name n" "names_of g (d, n) = Some i" and m: "user_name m" and ne: "n \<noteq> m"
  shows "case rename_same_dir clk g d n m of
      (Ok _, g') \<Rightarrow> well_formed g' \<and>
        (\<exists>f. fs_replaced d m (fs_of g) f \<and> fs_of g' = fs_rename d n d m i f) \<and>
        (names_of g (d, m) = None \<longrightarrow> quotas g' = quotas g)
    | (Err err, g') \<Rightarrow> g' = g \<and> dir_not_empty (fs_of g) d m err
    | _ \<Rightarrow> False"
proof -
  note read = resolve_name_eq [OF well_formedD(3) [OF wf]]
  have d: "fs_dir (fs_of g) d \<noteq> None" using names_in_view [OF wf n(2)] by auto
  obtain r g1 where r: "replace_dst clk g d m (names_of g (d, m)) = (r, g1)"
    by (cases "replace_dst clk g d m (names_of g (d, m))")
  note spec = replace_dst_correct [OF wf cap m, where clk = clk and e = d, unfolded r prod.case]
  show ?thesis
  proof (cases r)
    case (Ok u)
    then have g1: "well_formed g1" "fs_replaced d m (fs_of g) (fs_of g1)"
      and same: "names_of g (d, m) = None \<longrightarrow> g1 = g" using spec by simp_all
    note src = replaced_source [OF well_formedD(2) [OF wf] g1(2) m _ n(1) _ d, of d i]
    have n1: "names_of g1 (d, n) = Some i" "names_of g1 (d, m) = None" and d1: "fs_dir (fs_of g1) d \<noteq> None"
      using src(1-3) n(2) ne by simp_all
    obtain es e where es: "bmap_get (dir_contains g1) d = Some es" "find (is_entry g1 i n) es = Some e"
      "edge_at g1 e = Some (Contains e d i n)" by (rule find_entry [OF g1(1) n1(1)])
    let ?g' = "snd (rename_contains_edge e m g1)"
    note step = rename_edge_step [OF well_formedD(1) [OF g1(1)] es(3) n1(2) ne]
    have view: "fs_of ?g' = fs_rename d n d m i (fs_of g1)"
      unfolding step(2) fs_rename_same by simp
    have "well_formed ?g'"
      by (rule fs_rename_well_formed [OF g1(1) step(1) view n(1) n1(1) m n1(2) d1 _ step(3) step(5)])
         (rule same_dir_acyclic [OF well_formedD(2) [OF g1(1)], where n = n], use n1 n in simp_all)
    moreover have "rename_same_dir clk g d n m = (Ok (), ?g')"
      using n(2) ne r Ok es by (simp add: rename_same_dir_def read)
    ultimately show ?thesis using view g1(2) same step(4) by auto
  next
    case (Err err)
    then show ?thesis using spec n(2) ne r by (auto simp: rename_same_dir_def read dir_not_empty_def)
  qed (use spec in simp_all)
qed

lemma cross_move_step:
  assumes g1: "well_formed g1" and n: "user_name n" "names_of g1 (d, n) = Some i"
    and m: "user_name m" "names_of g1 (e, m) = None" and ne: "d \<noteq> e" and e: "dir_at g1 e = Some dd"
    and edge: "edge_at g1 a = Some (Contains a d i n)" and cap: "next_edge g1 < EDGE_CAPACITY"
  defines "g2 \<equiv> (detach_contains a d i g1)\<lparr>next_edge := next_edge g1 + 1\<rparr>"
  defines "g3 \<equiv> attach_contains (next_edge g1) e i m g2"
  defines "g' \<equiv> move_dotdot i e g3"
  shows "rep_ok g'" and "fs_of g' = fs_rename d n e m i (fs_of g1)"
    and "root_inode g' = root_inode g1" "quotas g' = quotas g1" "inode_points_to g' = inode_points_to g1"
proof -
  note wfD = well_formedD [OF g1] and nn = user_nameD [OF n(1)] and mm = user_nameD [OF m(1)]
  note s1 = detach_step [OF wfD(1) edge]
  have E1: "edge_at (detach_contains a d i g1) = (edge_at g1)(a := None)"
    by (rule detach_edge_at [OF wfD(3) edge])
  have 2: "rep_ok g2" "fs_of g2 = (fs_of g1)\<lparr>fs_name := (names_of g1)((d, n) := None)\<rparr>"
    using next_edge_step [where g = "detach_contains a d i g1" and k = "next_edge g1 + 1"] s1
    by (simp_all add: g2_def frame_simps)
  have n2: "names_of g2 = (names_of g1)((d, n) := None)" using arg_cong [OF 2(2), of fs_name] by simp
  have "edge_at g2 (next_edge g1) = None"
    using E1 fresh_edge [OF wfD(1), of "next_edge g1"] by (simp add: g2_def)
  then have 3: "rep_ok g3" "fs_of g3 = (fs_of g2)\<lparr>fs_name := (names_of g2)((e, m) \<mapsto> i)\<rparr>"
    using attach_step [OF 2(1) cap, of e m i] n2 m(2) by (simp_all add: g3_def) (simp_all add: g2_def)
  have n3: "names_of g3 = (names_of g1)((d, n) := None, (e, m) \<mapsto> i)"
    using arg_cong [OF 3(2), of fs_name] n2 by simp
  have f3: "root_inode g3 = root_inode g1" "quotas g3 = quotas g1" "inode_points_to g3 = inode_points_to g1"
    "inodes g3 = inodes g1" "dirs g3 = dirs g1"
    by (simp_all add: g3_def g2_def frame_simps)
  obtain x where x: "inode_at g3 i = Some x" using names_in_view [OF g1 n(2)] by (auto simp: f3)
  have "rep_ok g' \<and> fs_of g' = fs_rename d n e m i (fs_of g1) \<and>
      root_inode g' = root_inode g1 \<and> quotas g' = quotas g1 \<and> inode_points_to g' = inode_points_to g1"
  proof (cases "\<exists>c. fs_dir (fs_of g1) c = Some i")
    case True
    then obtain c where c: "fs_dir (fs_of g1) c = Some i" by blast
    have isd: "vtype x = Directory" using fs_ok_dir(1) [OF wfD(2) c] x by (auto simp: is_dir_def f3)
    have c3: "fs_dir (fs_of g3) c = Some i" using c by (simp add: f3)
    have en: "dir_entry (fs_of g1) (d, n) c" using n c by (simp add: dir_entry_def)
    have "names_of g1 (c, ''..'') = fs_dir (fs_of g1) d"
      using dotdot_of_child [OF wfD(2) en] by simp
    moreover have "fs_dir (fs_of g1) d \<noteq> None" using names_in_view [OF g1 n(2)] by auto
    ultimately obtain j where "names_of g3 (c, ''..'') = Some j" using nn mm by (auto simp: n3)
    then have mv: "rep_ok g'" "fs_of g' = (fs_of g3)\<lparr>fs_name := (names_of g3)((c, ''..'') \<mapsto> dir_inode_id dd)\<rparr>"
      "root_inode g' = root_inode g3" "quotas g' = quotas g3" "inode_points_to g' = inode_points_to g3"
      using move_dotdot_dir [OF 3(1) x isd c3, of e dd j] e by (simp_all add: g'_def f3)
    have "fs_dir (fs_of g1) b = Some i \<longleftrightarrow> b = c" for b
      using fs_ok_dir(3) [OF wfD(2) _ c] c by blast
    then have "fs_of g' = fs_rename d n e m i (fs_of g1)"
      using e unfolding mv(2) n3 3(2) 2(2) by (subst fs_rename_dir [OF ne]) simp_all
    then show ?thesis using mv f3 by simp
  next
    case False
    then have "\<not> is_dir (fs_of g1) i" using fs_ok_dir(4) [OF wfD(2), of i] by blast
    then have "vtype x \<noteq> Directory" using x by (auto simp: is_dir_def f3)
    then have "g' = g3"
      unfolding g'_def using get_inode_at [OF rep_okD(3) [OF 3(1)] x] by (intro move_dotdot_file)
    moreover have "fs_of g3 = fs_rename d n e m i (fs_of g1)"
      unfolding 3(2) 2(2) n2 using False by (subst fs_rename_leaf) simp_all
    ultimately show ?thesis using 3(1) f3 by simp
  qed
  then show "rep_ok g'" "fs_of g' = fs_rename d n e m i (fs_of g1)" "root_inode g' = root_inode g1"
    "quotas g' = quotas g1" "inode_points_to g' = inode_points_to g1" by simp_all
qed

definition into_itself :: "fs \<Rightarrow> inode_id \<Rightarrow> dir_id \<Rightarrow> bool" where
  "into_itself f i e \<longleftrightarrow> (\<exists>c. fs_dir f c = Some i \<and> (c, e) \<in> (fs_child f)\<^sup>*)"

lemma rename_cross_dir_correct:
  assumes wf: "well_formed g" and cap: "require_cap g WRITE = Ok ()"
    and n: "user_name n" "names_of g (d, n) = Some i" and m: "user_name m" and ne: "d \<noteq> e"
    and e: "fs_dir (fs_of g) e \<noteq> None" and room: "next_edge g < EDGE_CAPACITY"
  shows "case rename_cross_dir clk g d n e m of
      (Ok _, g') \<Rightarrow> well_formed g' \<and> \<not> into_itself (fs_of g) i e \<and>
        (\<exists>f. fs_replaced e m (fs_of g) f \<and> fs_of g' = fs_rename d n e m i f) \<and>
        (names_of g (e, m) = None \<longrightarrow> quotas g' = quotas g)
    | (Err err, g') \<Rightarrow> g' = g \<and>
        (into_itself (fs_of g) i e \<and> err = WouldCreateCycle \<or> dir_not_empty (fs_of g) e m err)
    | _ \<Rightarrow> False"
proof (cases "into_itself (fs_of g) i e")
  case True
  have "would_cycle g i e = Some True"
    using True unfolding would_cycle_view [OF wf n(2)] into_itself_def by blast
  then have "rename_cross_dir clk g d n e m = (Err WouldCreateCycle, g)"
    using n(2) by (simp add: rename_cross_dir_def resolve_name_eq [OF well_formedD(3) [OF wf]])
  then show ?thesis using True by simp
next
  case False
  note read = resolve_name_eq [OF well_formedD(3) [OF wf]]
  have nocyc: "would_cycle g i e = Some False"
    using False unfolding would_cycle_view [OF wf n(2)] into_itself_def by blast
  obtain r g1 where r: "replace_dst clk g e m (names_of g (e, m)) = (r, g1)"
    by (cases "replace_dst clk g e m (names_of g (e, m))")
  note spec = replace_dst_correct [OF wf cap m, where clk = clk and e = e, unfolded r prod.case]
  show ?thesis
  proof (cases r)
    case (Ok u)
    then have g1: "well_formed g1" "fs_replaced e m (fs_of g) (fs_of g1)" "next_edge g1 = next_edge g"
      and same: "names_of g (e, m) = None \<longrightarrow> g1 = g" using spec by simp_all
    note src = replaced_source [OF well_formedD(2) [OF wf] g1(2) m _ n(1) _ e,
        where d = d and i = i]
    have n1: "names_of g1 (d, n) = Some i" "names_of g1 (e, m) = None" and e1: "fs_dir (fs_of g1) e \<noteq> None"
      using src(1-3) n(2) ne by simp_all
    obtain dd where dd: "dir_at g1 e = Some dd" using e1 by auto
    obtain es a where es: "bmap_get (dir_contains g1) d = Some es" "find (is_entry g1 i n) es = Some a"
      "edge_at g1 a = Some (Contains a d i n)" by (rule find_entry [OF g1(1) n1(1)])
    let ?g2 = "(detach_contains a d i g1)\<lparr>next_edge := next_edge g1 + 1\<rparr>"
    let ?g' = "move_dotdot i e (attach_contains (next_edge g1) e i m ?g2)"
    have room1: "next_edge g1 < EDGE_CAPACITY" using room g1(3) by simp
    note step = cross_move_step [OF g1(1) n(1) n1(1) m n1(2) ne dd es(3) room1]
    have "(c, e) \<notin> (fs_child (fs_of g1))\<^sup>*" if "fs_dir (fs_of g1) c = Some i" for c
    proof -
      have "fs_dir (fs_of g) c = Some i" "fs_child (fs_of g1) \<subseteq> fs_child (fs_of g)"
        using src(4,5) n(2) ne that by (simp_all del: fs_of_simps(2))
      then show ?thesis using False rtrancl_mono unfolding into_itself_def by blast
    qed
    then have "well_formed ?g'"
      by (rule fs_rename_well_formed [OF g1(1) step(1,2) n(1) n1(1) m n1(2) e1 _ step(3,5)])
    moreover have "next_edge (detach_contains a d i g1) = next_edge g1" by (simp add: frame_simps)
    then have "rename_cross_dir clk g d n e m = (Ok (), ?g')"
      using n(2) r Ok es nocyc succ_u64_small(1) [OF room1]
      by (simp add: rename_cross_dir_def read alloc_edge_id_def Let_def)
    ultimately show ?thesis using step(2,4) g1(2) same False by auto
  next
    case (Err err)
    then have "rename_cross_dir clk g d n e m = (Err err, g)"
      using spec n(2) r nocyc by (simp add: rename_cross_dir_def read)
    then show ?thesis using spec Err by (simp add: dir_not_empty_def)
  qed (use spec in simp_all)
qed

text \<open>
  What a rename does to the tree, with the destination directory present.  The source does not
  check that it is (and \<open>rename_cross_dir\<close> would then leave an edge from a missing directory).
\<close>

lemma rename_contract:
  assumes wf: "well_formed g" and e: "fs_dir (fs_of g) e \<noteq> None" and room: "next_edge g < EDGE_CAPACITY"
  shows "case rename clk g d n e m of
      (Ok _, g') \<Rightarrow>
        require_cap g WRITE = Ok () \<and> user_name n \<and> user_name m \<and> well_formed g' \<and>
        (\<exists>i. fs_name (fs_of g) (d, n) = Some i \<and>
           (if (d, n) = (e, m) then fs_of g' = fs_of g
            else \<not> into_itself (fs_of g) i e \<and>
                 (\<exists>f. fs_replaced e m (fs_of g) f \<and> fs_of g' = fs_rename d n e m i f))) \<and>
        (fs_name (fs_of g) (e, m) = None \<longrightarrow> quotas g' = quotas g)
    | (Err err, g') \<Rightarrow> g' = g \<and>
        (require_cap g WRITE = Err err \<or> \<not> (user_name n \<and> user_name m) \<and> err = NameNotFound n \<or>
         fs_name (fs_of g) (d, n) = None \<and> err = NameNotFound n \<or>
         (\<exists>i. fs_name (fs_of g) (d, n) = Some i \<and> into_itself (fs_of g) i e) \<and> err = WouldCreateCycle \<or>
         dir_not_empty (fs_of g) e m err)
    | _ \<Rightarrow> False"
proof (cases "require_cap g WRITE = Ok () \<and> user_name n \<and> user_name m")
  case False
  then show ?thesis
    by (cases rule: require_cap_cases [of g WRITE]) (auto simp: rename_def user_name_def)
next
  case True
  then have cap: "require_cap g WRITE = Ok ()" and un: "user_name n" and um: "user_name m" by auto
  note read = resolve_name_eq [OF well_formedD(3) [OF wf]]
  let ?r = "if d = e then rename_same_dir clk g d n m else rename_cross_dir clk g d n e m"
  have run: "rename clk g d n e m = (case ?r of (result, g) \<Rightarrow>
      if is_ok result then (result, record_prov (clk 1) PRename
          (case resolve_name g e m of Some i \<Rightarrow> i | None \<Rightarrow> 0) m g) else (result, g))"
    unfolding rename_def Let_def using cap un um by (simp add: user_name_def)
  show ?thesis
  proof (cases "names_of g (d, n)")
    case None
    then have "?r = (Err (NameNotFound n), g)"
      by (cases "d = e") (simp_all add: rename_same_dir_def rename_cross_dir_def read)
    then show ?thesis unfolding run using None by simp
  next
    case i: (Some i)
    have inside: "\<not> into_itself (fs_of g) i d"
      using same_dir_acyclic [OF well_formedD(2) [OF wf], of d n i] i un
      unfolding into_itself_def by (simp del: fs_of_simps(2))
    consider "d = e" "n = m" | "d = e" "n \<noteq> m" | "d \<noteq> e" by blast
    then show ?thesis
    proof cases
      case 1
      then have "?r = (Ok (), g)" using i by (simp add: rename_same_dir_def read)
      then show ?thesis unfolding run using 1 i wf True by (simp add: frame_simps)
    next
      case 2
      obtain r g1 where r: "rename_same_dir clk g d n m = (r, g1)"
        by (cases "rename_same_dir clk g d n m")
      show ?thesis
        using rename_same_dir_correct [OF wf cap un i um 2(2), where clk = clk] 2 i un um inside cap
        unfolding run r by (cases r) (auto simp: r frame_simps simp del: fs_of_simps(1,2,4))
    next
      case 3
      obtain r g1 where r: "rename_cross_dir clk g d n e m = (r, g1)"
        by (cases "rename_cross_dir clk g d n e m")
      show ?thesis
        using rename_cross_dir_correct [OF wf cap un i um 3 e room, where clk = clk] 3 i un um cap
        unfolding run r by (cases r) (auto simp: r frame_simps simp del: fs_of_simps(1,2,4))
    qed
  qed
qed

end
