(* ===== verification/Sotfs_Data.thy ===== *)
theory Sotfs_Data
  imports Sotfs_Namespace
begin

text \<open>
  File contents and inode attributes, from \<open>sotfs-ops/src/lib.rs\<close>: extents (\<open>write_block\<close>), the
  in-memory data of regular files (\<open>write_data\<close>, \<open>read_data\<close>, \<open>truncate\<close>), \<open>chmod\<close>, \<open>chown\<close> and
  symbolic links, with the contract of each.  Offsets and sizes are \<open>u64\<close> (\<open>usize\<close> on the 64-bit
  targets), and their additions wrap as in a release build.
\<close>

section \<open>Byte vectors\<close>

text \<open>\<open>Vec::resize(n, 0)\<close>.  A vector cannot grow past \<open>isize::MAX\<close> bytes: that is a panic.\<close>

definition vec_resize :: "nat \<Rightarrow> u8 list \<Rightarrow> u8 list" where
  "vec_resize n buf = take n buf @ replicate (n - length buf) 0"

definition VEC_MAX :: nat where "VEC_MAX = 2 ^ 63 - 1"

definition resize_panics :: "nat \<Rightarrow> u8 list \<Rightarrow> bool" where
  "resize_panics n buf \<longleftrightarrow> n > length buf \<and> n > VEC_MAX"

text \<open>\<open>buf[s..e].copy_from_slice(d)\<close>, for a range inside the vector of the length of \<open>d\<close>.\<close>

definition write_at :: "nat \<Rightarrow> u8 list \<Rightarrow> u8 list \<Rightarrow> u8 list" where
  "write_at s d buf = take s buf @ d @ drop (s + length d) buf"

lemma length_vec_resize [simp]: "length (vec_resize n buf) = n"
  by (simp add: vec_resize_def)

lemma nth_vec_resize: "k < n \<Longrightarrow> vec_resize n buf ! k = (if k < length buf then buf ! k else 0)"
  by (simp add: vec_resize_def nth_append)

lemma length_write_at: "s + length d \<le> length buf \<Longrightarrow> length (write_at s d buf) = length buf"
  by (simp add: write_at_def)

lemma nth_write_at:
  "s + length d \<le> length buf \<Longrightarrow> k < length buf \<Longrightarrow>
   write_at s d buf ! k = (if s \<le> k \<and> k < s + length d then d ! (k - s) else buf ! k)"
  by (auto simp: write_at_def nth_append)

section \<open>Reading and writing\<close>

text \<open>\<open>g.file_data.entry(i).or_default()\<close>\<close>

definition data_or_default :: "type_graph \<Rightarrow> inode_id \<Rightarrow> u8 list" where
  "data_or_default g i = (case bmap_get (file_data g) i of None \<Rightarrow> [] | Some b \<Rightarrow> b)"

definition put_data :: "inode_id \<Rightarrow> u8 list \<Rightarrow> type_graph \<Rightarrow> type_graph" where
  "put_data i buf g = g\<lparr>file_data := bmap_insert i buf (file_data g)\<rparr>"

definition write_data :: "clock \<Rightarrow> type_graph \<Rightarrow> inode_id \<Rightarrow> u64 \<Rightarrow> u8 list \<Rightarrow> nat res \<times> type_graph" where
  "write_data clk g i offset data =
     try_res (require_cap g WRITE) g (\<lambda>_.
     try_res (ok_or (get_inode g i) (InodeNotFound i)) g (\<lambda>n.
     if vtype n \<noteq> Regular then (Err (NotAFile i), g)
     else
       (let buf = data_or_default g i;
            end_pos = offset + word_of_nat (length data)
        in if length buf < unat end_pos \<and> resize_panics (unat end_pos) buf
           then (Panic, put_data i buf g)
           else
             (let buf = (if length buf < unat end_pos then vec_resize (unat end_pos) buf else buf)
              in if end_pos < offset \<or> unat (end_pos - offset) \<noteq> length data
                 then (Panic, put_data i buf g)
                 else
                   (let buf = write_at (unat offset) data buf;
                        new_size = word_of_nat (length buf);
                        g = put_data i buf g;
                        g = get_inode_mut i (\<lambda>n. n\<lparr>isize := new_size, mtime := clk 0\<rparr>) g
                    in (Ok (length data), record_prov (clk 1) PWrite i [] g))))))"

definition read_data :: "type_graph \<Rightarrow> inode_id \<Rightarrow> u64 \<Rightarrow> u64 \<Rightarrow> u8 list res" where
  "read_data g i offset sz =
     (case get_inode g i of
        None \<Rightarrow> Err (InodeNotFound i)
      | Some n \<Rightarrow>
          if vtype n \<noteq> Regular then Err (NotAFile i)
          else (case bmap_get (file_data g) i of
                  None \<Rightarrow> Ok []
                | Some buf \<Rightarrow>
                    (let start = min (unat offset) (length buf);
                         end_pos = min (unat (word_of_nat start + sz)) (length buf)
                     in if start > end_pos then Panic
                        else Ok (take (end_pos - start) (drop start buf)))))"

definition truncate :: "clock \<Rightarrow> type_graph \<Rightarrow> inode_id \<Rightarrow> u64 \<Rightarrow> unit res \<times> type_graph" where
  "truncate clk g i new_size =
     try_res (require_cap g WRITE) g (\<lambda>_.
     try_res (ok_or (get_inode g i) (InodeNotFound i)) g (\<lambda>n.
     if vtype n \<noteq> Regular then (Err (NotAFile i), g)
     else
       (let buf = data_or_default g i
        in if resize_panics (unat new_size) buf then (Panic, put_data i buf g)
           else
             (let g = put_data i (vec_resize (unat new_size) buf) g;
                  g = get_inode_mut i (\<lambda>n. n\<lparr>isize := new_size, mtime := clk 0\<rparr>) g
              in (Ok (), record_prov (clk 1) PTruncate i [] g)))))"

section \<open>Permissions and owner\<close>

definition chmod :: "clock \<Rightarrow> type_graph \<Rightarrow> inode_id \<Rightarrow> permissions \<Rightarrow> unit res \<times> type_graph" where
  "chmod clk g i mode =
     try_res (require_cap g GRANT) g (\<lambda>_.
     try_res (ok_or (get_inode g i) (InodeNotFound i)) g (\<lambda>_.
       let g = get_inode_mut i (\<lambda>n. n\<lparr>permissions := mode\<rparr>) g
       in (Ok (), record_prov (clk 0) PChmod i [] g)))"

definition set_owner :: "u32 option \<Rightarrow> u32 option \<Rightarrow> inode \<Rightarrow> inode" where
  "set_owner u gi n =
     (let n = (case u of Some u \<Rightarrow> n\<lparr>uid := u\<rparr> | None \<Rightarrow> n)
      in (case gi of Some gi \<Rightarrow> n\<lparr>gid := gi\<rparr> | None \<Rightarrow> n))"

definition chown :: "clock \<Rightarrow> type_graph \<Rightarrow> inode_id \<Rightarrow> u32 option \<Rightarrow> u32 option \<Rightarrow> unit res \<times> type_graph" where
  "chown clk g i u gi =
     try_res (require_cap g GRANT) g (\<lambda>_.
     try_res (ok_or (get_inode g i) (InodeNotFound i)) g (\<lambda>_.
       let g = get_inode_mut i (set_owner u gi) g
       in (Ok (), record_prov (clk 0) PChown i [] g)))"

section \<open>Symbolic links\<close>

definition new_symlink :: "timestamp \<Rightarrow> inode_id \<Rightarrow> string \<Rightarrow> u32 \<Rightarrow> u32 \<Rightarrow> inode" where
  "new_symlink now i target u gi =
     \<lparr>inode_id = i, vtype = Symlink, permissions = 511, uid = u, gid = gi,
      isize = word_of_nat (length target), link_count = 1, ctime = now, mtime = now, atime = now\<rparr>"

definition symlink ::
    "clock \<Rightarrow> type_graph \<Rightarrow> dir_id \<Rightarrow> string \<Rightarrow> string \<Rightarrow> u32 \<Rightarrow> u32 \<Rightarrow> inode_id res \<times> type_graph" where
  "symlink clk g parent name target u gi =
     try_res (require_cap g WRITE) g (\<lambda>_.
     if bad_name name then (Err (NameNotFound name), g)
     else if resolve_name g parent name \<noteq> None then (Err (NameExists parent name), g)
     else if \<not> contains_dir g parent then (Err (DirNotFound parent), g)
     else try_res (check_quota_inode g parent) g (\<lambda>_.
       let (i, g) = alloc_inode_id g;
           (eid, g) = alloc_edge_id g;
           g = insert_inode i (new_symlink (clk 0) i target u gi) g;
           g = g\<lparr>symlink_targets := bmap_insert i target (symlink_targets g)\<rparr>;
           g = attach_contains eid parent i name g
       in returns (update_quota g parent 1 0) g (\<lambda>g.
            (Ok i, record_prov (clk 1) PSymlink i name g))))"

definition readlink :: "type_graph \<Rightarrow> inode_id \<Rightarrow> string res" where
  "readlink g i =
     (case get_inode g i of
        None \<Rightarrow> Err (InodeNotFound i)
      | Some n \<Rightarrow>
          if vtype n \<noteq> Symlink then Err (NotASymlink i)
          else ok_or (bmap_get (symlink_targets g) i) (NotASymlink i))"

section \<open>Changing attributes\<close>

text \<open>An update of an inode that keeps its identity, type and link count keeps the graph well-formed.\<close>

definition attr_only :: "(inode \<Rightarrow> inode) \<Rightarrow> bool" where
  "attr_only f \<longleftrightarrow>
     (\<forall>x. inode_id (f x) = inode_id x \<and> vtype (f x) = vtype x \<and> link_count (f x) = link_count x)"

lemma attr_is_dir:
  "fs_inode f i = Some x \<Longrightarrow> vtype y = vtype x \<Longrightarrow>
     is_dir (f\<lparr>fs_inode := (fs_inode f)(i \<mapsto> y)\<rparr>) j = is_dir f j"
  by (simp add: is_dir_def)

lemma attr_fs_ok:
  assumes ok: "fs_ok f" and x: "fs_inode f i = Some x" and y: "vtype y = vtype x" "link_count y = link_count x"
  shows "fs_ok (f\<lparr>fs_inode := (fs_inode f)(i \<mapsto> y)\<rparr>)"
proof -
  let ?f = "f\<lparr>fs_inode := (fs_inode f)(i \<mapsto> y)\<rparr>"
  have same: "links ?f j = links f j" "dir_entry ?f k c = dir_entry f k c" for j k c
    by (simp_all add: links_def dir_entry_def)
  have "names_ok ?f" using ok by (simp add: fs_ok_def names_ok_def)
  moreover have "dirs_match ?f"
    using ok attr_is_dir [OF x y(1)] by (simp add: fs_ok_def dirs_match_def)
  moreover have "links_ok ?f" using ok x y(2) by (simp add: fs_ok_def links_ok_def same)
  moreover have "tree_ok ?f" using ok by (simp add: fs_ok_def tree_ok_def fs_child_def same)
  ultimately show ?thesis by (simp add: fs_ok_def)
qed

lemma set_attr_step:
  assumes wf: "well_formed g" and x: "inode_at g i = Some x" and f: "attr_only f"
  shows "well_formed (get_inode_mut i f g)"
    and "fs_of (get_inode_mut i f g) = (fs_of g)\<lparr>fs_inode := (inode_at g)(i \<mapsto> f x)\<rparr>"
proof -
  have fx: "inode_id (f x) = inode_id x" "vtype (f x) = vtype x" "link_count (f x) = link_count x"
    using f by (simp_all add: attr_only_def)
  note step = update_inode_step [where f = f, OF well_formedD(1) [OF wf] x fx(1)]
  show "fs_of (get_inode_mut i f g) = (fs_of g)\<lparr>fs_inode := (inode_at g)(i \<mapsto> f x)\<rparr>" by (rule step(2))
  show "well_formed (get_inode_mut i f g)"
  proof (rule well_formedI [OF step])
    have "fs_inode (fs_of g) i = Some x" using x by simp
    from attr_fs_ok [OF well_formedD(2) [OF wf] this fx(2,3)] attr_is_dir [OF this fx(2)]
    show "fs_ok ((fs_of g)\<lparr>fs_inode := (inode_at g)(i \<mapsto> f x)\<rparr>)"
      and "is_dir ((fs_of g)\<lparr>fs_inode := (inode_at g)(i \<mapsto> f x)\<rparr>) j \<Longrightarrow>
        mi_get (inode_points_to (get_inode_mut i f g)) j = []" for j
      using well_formedD(8) [OF wf, of j] by (simp_all add: get_inode_mut_def)
  qed (use well_formedD(7) [OF wf] in \<open>simp_all add: get_inode_mut_def\<close>)
qed

lemma well_formed_file_data [simp]: "well_formed (g\<lparr>file_data := q\<rparr>) = well_formed g"
  by (simp add: well_formed_def no_dir_extents_def)

lemma well_formed_symlink_targets [simp]: "well_formed (g\<lparr>symlink_targets := q\<rparr>) = well_formed g"
  by (simp add: well_formed_def no_dir_extents_def)

lemma put_data_frame [simp]:
  "well_formed (put_data i b g) = well_formed g" "fs_of (put_data i b g) = fs_of g"
  "inodes (put_data i b g) = inodes g"
  by (simp_all add: put_data_def)

lemma get_inode_mut_frame [frame_simps]:
  "file_data (get_inode_mut i f g) = file_data g" "quotas (get_inode_mut i f g) = quotas g"
  "blocks (get_inode_mut i f g) = blocks g" "edges (get_inode_mut i f g) = edges g"
  by (simp_all add: get_inode_mut_def)

text \<open>Identifiers that are stored are canonical, so a canonical lookup reads the view.\<close>

lemma get_inode_view: "well_formed g \<Longrightarrow> canonical i \<Longrightarrow> get_inode g i = fs_inode (fs_of g) i"
  by (simp add: get_inode_def)

section \<open>Contracts\<close>

definition grows_to :: "nat \<Rightarrow> nat \<Rightarrow> u8 list \<Rightarrow> u8 list \<Rightarrow> bool" where
  "grows_to off n old new \<longleftrightarrow> length new = max (length old) (off + n)"

definition stores_at :: "nat \<Rightarrow> u8 list \<Rightarrow> u8 list \<Rightarrow> u8 list \<Rightarrow> bool" where
  "stores_at off data old new \<longleftrightarrow>
     (\<forall>k < length new. new ! k =
        (if off \<le> k \<and> k < off + length data then data ! (k - off)
         else if k < length old then old ! k else 0))"

lemma write_at_resize:
  assumes "buf = (if length old < off + length d then vec_resize (off + length d) old else old)"
  shows "grows_to off (length d) old (write_at off d buf)" and "stores_at off d old (write_at off d buf)"
  using assms by (auto simp: grows_to_def stores_at_def length_write_at nth_write_at nth_vec_resize)

lemma write_data_contract:
  assumes wf: "well_formed g" and c: "canonical i" and room: "unat off + length data \<le> VEC_MAX"
  shows "case write_data clk g i off data of
      (Ok n, g') \<Rightarrow>
        require_cap g WRITE = Ok () \<and> n = length data \<and> well_formed g' \<and>
        (\<exists>x. fs_inode (fs_of g) i = Some x \<and> vtype x = Regular \<and>
           (let new = data_or_default g' i in
            grows_to (unat off) (length data) (data_or_default g i) new \<and>
            stores_at (unat off) data (data_or_default g i) new \<and>
            bmap_get (file_data g') = (bmap_get (file_data g))(i \<mapsto> new) \<and>
            fs_of g' = (fs_of g)\<lparr>fs_inode := (fs_inode (fs_of g))
              (i \<mapsto> x\<lparr>isize := word_of_nat (length new), mtime := clk 0\<rparr>)\<rparr>)) \<and>
        quotas g' = quotas g
    | (Err e, g') \<Rightarrow> g' = g \<and>
        (require_cap g WRITE = Err e \<or> fs_inode (fs_of g) i = None \<and> e = InodeNotFound i \<or>
         (\<exists>x. fs_inode (fs_of g) i = Some x \<and> vtype x \<noteq> Regular \<and> e = NotAFile i))
    | _ \<Rightarrow> False"
proof (cases "require_cap g WRITE = Ok () \<and> (\<exists>x. inode_at g i = Some x \<and> vtype x = Regular)")
  case False
  then show ?thesis
    by (cases rule: require_cap_cases [of g WRITE]; cases "inode_at g i")
       (auto simp: write_data_def get_inode_view [OF wf c])
next
  case True
  then obtain x where ok: "require_cap g WRITE = Ok ()" and x: "inode_at g i = Some x" "vtype x = Regular"
    by blast
  let ?old = "data_or_default g i"
  let ?buf = "if length ?old < unat off + length data then vec_resize (unat off + length data) ?old else ?old"
  let ?new = "write_at (unat off) data ?buf"
  let ?f = "\<lambda>n. n\<lparr>isize := word_of_nat (length ?new), mtime := clk 0\<rparr>"
  have d: "unat (word_of_nat (length data) :: u64) = length data"
    using room by (simp add: VEC_MAX_def unat_of_nat)
  have e: "unat (off + word_of_nat (length data)) = unat off + length data"
    using room by (subst unat_add_lem [THEN iffD1]) (simp_all add: d VEC_MAX_def)
  have nowrap: "\<not> off + word_of_nat (length data) < off"
    by (simp add: word_less_nat_alt e)
  have run: "write_data clk g i off data =
      (Ok (length data), record_prov (clk 1) PWrite i [] (get_inode_mut i ?f (put_data i ?new g)))"
    using ok x room nowrap
    by (simp add: write_data_def get_inode_view [OF wf c] resize_panics_def Let_def e d not_le)
  have xa: "inode_at (put_data i ?new g) i = Some x" using x by simp
  have "attr_only ?f" by (simp add: attr_only_def)
  note step = set_attr_step [where f = ?f, OF _ xa this]
  define h where "h = record_prov (clk 1) PWrite i [] (get_inode_mut i ?f (put_data i ?new g))"
  have "file_data h = bmap_insert i ?new (file_data g)" "quotas h = quotas g"
    by (simp_all add: h_def put_data_def frame_simps)
  moreover from this have "data_or_default h i = ?new" by (simp add: data_or_default_def)
  moreover have "well_formed h"
    "fs_of h = (fs_of g)\<lparr>fs_inode := (inode_at g)(i \<mapsto> x\<lparr>isize := word_of_nat (length ?new), mtime := clk 0\<rparr>)\<rparr>"
    using step wf by (simp_all add: h_def)
  moreover note write_at_resize [OF refl, where old = ?old and off = "unat off" and d = data]
  ultimately show ?thesis
    using x ok unfolding run h_def [symmetric] by (simp add: Let_def)
qed

text \<open>
  Reading never fails on a regular file as long as the end of the range is representable; with a
  start and a size whose sum passes \<open>usize::MAX\<close> the slice panics.
\<close>

lemma read_data_contract:
  assumes wf: "well_formed g" and c: "canonical i" and x: "inode_at g i = Some x" "vtype x = Regular"
    and len: "length (data_or_default g i) \<le> VEC_MAX"
  shows "read_data g i off sz =
    (if length (data_or_default g i) < unat off \<and> length (data_or_default g i) + unat sz \<ge> 2 ^ 64 \<or>
        unat off \<le> length (data_or_default g i) \<and> unat off + unat sz \<ge> 2 ^ 64
     then (if data_or_default g i = [] then Ok [] else Panic)
     else Ok (take (unat sz) (drop (unat off) (data_or_default g i))))"
proof (cases "bmap_get (file_data g) i")
  case None
  then show ?thesis by (simp add: read_data_def get_inode_view [OF wf c] x data_or_default_def)
next
  case (Some buf)
  let ?s = "min (unat off) (length buf)"
  have b: "data_or_default g i = buf" and l: "length buf < 2 ^ 63"
    using Some len by (simp_all add: data_or_default_def VEC_MAX_def)
  have s: "unat (word_of_nat ?s :: u64) = ?s"
    using l by (simp add: unat_of_nat)
  have sum: "unat (word_of_nat ?s + sz) = (?s + unat sz) mod 2 ^ 64"
    by (simp add: unat_word_ariths s)
  have sz: "unat sz < 2 ^ 64" using unsigned_less [of sz] by simp
  have run: "read_data g i off sz =
      (let end_pos = min ((?s + unat sz) mod 2 ^ 64) (length buf)
       in if ?s > end_pos then Panic else Ok (take (end_pos - ?s) (drop ?s buf)))"
    by (simp add: read_data_def get_inode_view [OF wf c] x Some Let_def sum)
  have bad: "length buf < unat off \<and> length buf + unat sz \<ge> 2 ^ 64 \<or>
      unat off \<le> length buf \<and> unat off + unat sz \<ge> 2 ^ 64 \<longleftrightarrow> ?s + unat sz \<ge> 2 ^ 64"
    by (simp add: min_def)
  show ?thesis
  proof (cases "?s + unat sz < 2 ^ 64")
    case True
    then have "(?s + unat sz) mod 2 ^ 64 = ?s + unat sz" by simp
    then show ?thesis
      unfolding run b bad using True by (simp add: Let_def min_def)
  next
    case False
    then have "(?s + unat sz) mod 2 ^ 64 = ?s + unat sz - 2 ^ 64"
      using sz l by (simp add: mod_if)
    moreover have "?s + unat sz - 2 ^ 64 < ?s" "buf \<noteq> []" using False sz by auto
    ultimately show ?thesis
      unfolding run b bad using False by (simp add: Let_def)
  qed
qed

lemma truncate_contract:
  assumes wf: "well_formed g" and c: "canonical i" and room: "unat sz \<le> VEC_MAX"
  shows "case truncate clk g i sz of
      (Ok _, g') \<Rightarrow>
        require_cap g WRITE = Ok () \<and> well_formed g' \<and>
        (\<exists>x. fs_inode (fs_of g) i = Some x \<and> vtype x = Regular \<and>
           bmap_get (file_data g') = (bmap_get (file_data g))(i \<mapsto> vec_resize (unat sz) (data_or_default g i)) \<and>
           fs_of g' = (fs_of g)\<lparr>fs_inode := (fs_inode (fs_of g))(i \<mapsto> x\<lparr>isize := sz, mtime := clk 0\<rparr>)\<rparr>) \<and>
        quotas g' = quotas g
    | (Err e, g') \<Rightarrow> g' = g \<and>
        (require_cap g WRITE = Err e \<or> fs_inode (fs_of g) i = None \<and> e = InodeNotFound i \<or>
         (\<exists>x. fs_inode (fs_of g) i = Some x \<and> vtype x \<noteq> Regular \<and> e = NotAFile i))
    | _ \<Rightarrow> False"
proof (cases "require_cap g WRITE = Ok () \<and> (\<exists>x. inode_at g i = Some x \<and> vtype x = Regular)")
  case False
  then show ?thesis
    by (cases rule: require_cap_cases [of g WRITE]; cases "inode_at g i")
       (auto simp: truncate_def get_inode_view [OF wf c])
next
  case True
  then obtain x where ok: "require_cap g WRITE = Ok ()" and x: "inode_at g i = Some x" "vtype x = Regular"
    by blast
  let ?new = "vec_resize (unat sz) (data_or_default g i)"
  let ?f = "\<lambda>n. n\<lparr>isize := sz, mtime := clk 0\<rparr>"
  have run: "truncate clk g i sz = (Ok (), record_prov (clk 1) PTruncate i [] (get_inode_mut i ?f (put_data i ?new g)))"
    using ok x room by (simp add: truncate_def get_inode_view [OF wf c] resize_panics_def Let_def)
  have xa: "inode_at (put_data i ?new g) i = Some x" using x by simp
  have "attr_only ?f" by (simp add: attr_only_def)
  note step = set_attr_step [where f = ?f, OF _ xa this]
  show ?thesis
    using step wf x ok unfolding run by (simp add: frame_simps) (simp add: put_data_def)
qed

text \<open>The operations that only change attributes.\<close>

definition attr_change :: "type_graph \<Rightarrow> inode_id \<Rightarrow> (inode \<Rightarrow> inode) \<Rightarrow> unit res \<times> type_graph \<Rightarrow> bool" where
  "attr_change g i f r \<longleftrightarrow>
     (case r of
        (Ok _, g') \<Rightarrow>
          require_cap g GRANT = Ok () \<and> well_formed g' \<and>
          (\<exists>x. fs_inode (fs_of g) i = Some x \<and>
               fs_of g' = (fs_of g)\<lparr>fs_inode := (fs_inode (fs_of g))(i \<mapsto> f x)\<rparr>) \<and>
          file_data g' = file_data g \<and> quotas g' = quotas g
      | (Err e, g') \<Rightarrow> g' = g \<and>
          (require_cap g GRANT = Err e \<or> fs_inode (fs_of g) i = None \<and> e = InodeNotFound i)
      | _ \<Rightarrow> False)"

lemma attr_change_run:
  assumes wf: "well_formed g" and c: "canonical i" and f: "attr_only f"
  shows "attr_change g i f
    (try_res (require_cap g GRANT) g (\<lambda>_. try_res (ok_or (get_inode g i) (InodeNotFound i)) g (\<lambda>_.
       (Ok (), record_prov t op i [] (get_inode_mut i f g)))))"
proof (cases "inode_at g i")
  case None
  then show ?thesis
    by (cases rule: require_cap_cases [of g GRANT]) (simp_all add: attr_change_def get_inode_view [OF wf c])
next
  case (Some x)
  then show ?thesis
    using set_attr_step [OF wf Some f]
    by (cases rule: require_cap_cases [of g GRANT])
       (simp_all add: attr_change_def get_inode_view [OF wf c] frame_simps)
qed

lemma chmod_contract:
  "well_formed g \<Longrightarrow> canonical i \<Longrightarrow> attr_change g i (\<lambda>x. x\<lparr>permissions := mode\<rparr>) (chmod clk g i mode)"
  unfolding chmod_def Let_def by (rule attr_change_run) (simp_all add: attr_only_def)

lemma chown_contract:
  "well_formed g \<Longrightarrow> canonical i \<Longrightarrow> attr_change g i (set_owner u gi) (chown clk g i u gi)"
  unfolding chown_def Let_def
  by (rule attr_change_run) (simp_all add: attr_only_def set_owner_def Let_def split: option.split)

lemma symlink_contract:
  assumes wf: "well_formed g" and c: "canonical d"
    and cap: "next_inode g < NODE_CAPACITY" "next_edge g < EDGE_CAPACITY"
  shows "case symlink clk g d n target u gi of
      (Ok i, g') \<Rightarrow>
        require_cap g WRITE = Ok () \<and> \<not> bad_name n \<and> fs_dir (fs_of g) d \<noteq> None \<and>
        fs_name (fs_of g) (d, n) = None \<and> check_quota_inode g d = Ok () \<and>
        i = next_inode g \<and> well_formed g' \<and>
        fs_of g' = fs_create d n i (new_symlink (clk 0) i target u gi) (fs_of g) \<and>
        bmap_get (quotas g') = quotas_after (quota_apply 1 0) g d \<and>
        readlink g' i = Ok target
    | (Err e, g') \<Rightarrow> g' = g \<and>
        (require_cap g WRITE = Err e \<or> bad_name n \<and> e = NameNotFound n \<or>
         fs_name (fs_of g) (d, n) \<noteq> None \<and> e = NameExists d n \<or>
         fs_dir (fs_of g) d = None \<and> e = DirNotFound d \<or> check_quota_inode g d = Err e)
    | _ \<Rightarrow> False"
proof (cases "\<exists>e. require_cap g WRITE = Err e \<or> bad_name n \<or> fs_name (fs_of g) (d, n) \<noteq> None \<or>
    fs_dir (fs_of g) d = None \<or> check_quota_inode g d = Err e")
  case True
  then show ?thesis
    by (cases rule: require_cap_cases [of g WRITE]; cases rule: check_quota_inode_cases [OF wf, of d])
       (auto simp: symlink_def resolve_name_view [OF wf] contains_dir_view [OF wf c]
             simp del: fs_of_simps)
next
  case False
  let ?i = "next_inode g" and ?x = "new_symlink (clk 0) (next_inode g) target u gi"
  let ?s = "bmap_insert (next_inode g) target (symlink_targets g)"
  let ?g1 = "g\<lparr>next_inode := next_inode g + 1, next_edge := next_edge g + 1, symlink_targets := ?s\<rparr>"
  let ?g' = "attach_contains (next_edge g) d ?i n (insert_inode ?i ?x ?g1)"
  have ok: "require_cap g WRITE = Ok ()" "check_quota_inode g d = Ok ()"
    using False by (metis require_cap_cases, metis check_quota_inode_cases [OF wf])
  have good: "\<not> bad_name n" "names_of g (d, n) = None" "fs_dir (fs_of g) d \<noteq> None"
    using False by auto
  have g1: "rep_ok ?g1" "fs_of ?g1 = fs_of g"
    using next_edge_step [where g = "g\<lparr>next_inode := next_inode g + 1\<rparr>" and k = "next_edge g + 1"]
      next_inode_step [where g = g and k = "next_inode g + 1"] well_formedD(1) [OF wf] by simp_all
  note new = new_leaf [OF wf good(3) user_name_of_good [OF good(1)] good(2) cap _ _ _ g1, of ?x]
  have wf': "well_formed ?g'" and view: "fs_of ?g' = fs_create d n ?i ?x (fs_of g)"
    and q: "quotas ?g' = quotas g"
    using new by (simp_all add: new_symlink_def)
  have "fs_child (fs_of ?g') = fs_child (fs_of g)"
    unfolding view by (rule child_create [OF well_formedD(2) [OF wf]])
      (use fresh_inode [OF well_formedD(1) [OF wf]] good in simp_all)
  then have anc: "ancestor_or_self ?g' a d = ancestor_or_self g a d" for a by (simp only:)
  obtain qs where fin: "update_quota ?g' d 1 0 = Some (?g'\<lparr>quotas := qs\<rparr>)"
    "map_of qs = quotas_after (quota_apply 1 0) g d"
    by (rule finish [OF wf' q anc, of 1 0])
  let ?h = "record_prov (clk 1) PSymlink ?i n (?g'\<lparr>quotas := qs\<rparr>)"
  have shift: "(insert_inode ?i ?x (g\<lparr>next_inode := next_inode g + 1, next_edge := next_edge g + 1\<rparr>))
      \<lparr>symlink_targets := ?s\<rparr> = insert_inode ?i ?x ?g1"
    "symlink_targets (insert_inode ?i ?x (g\<lparr>next_inode := next_inode g + 1, next_edge := next_edge g + 1\<rparr>)) =
      symlink_targets g"
    by (simp_all add: insert_inode_def)
  have "symlink clk g d n target u gi = (Ok ?i, ?h)"
    using good ok
    by (simp add: symlink_def resolve_name_eq well_formedD [OF wf] contains_dir_view [OF wf c]
        alloc_inode_id_def alloc_edge_id_def succ_u64_small cap fin(1) shift Let_def del: One_nat_def)
  moreover have "readlink ?h ?i = Ok target"
  proof -
    have "inode_at ?h ?i = Some ?x" using arg_cong [OF view, of fs_inode] by (simp add: frame_simps fs_create_def)
    moreover have "symlink_targets ?h = ?s"
      by (simp add: record_prov_def attach_contains_def insert_edge_def insert_inode_def Let_def split: option.split)
    ultimately show ?thesis
      using cap(1) by (simp add: readlink_def get_inode_def canonical_small new_symlink_def)
  qed
  ultimately show ?thesis
    using ok good wf' view fin(2) by (simp add: frame_simps)
qed

text \<open>
  A new extent.  The target must not be a directory: the source does not check this, and removing a
  directory would leave its extents behind.
\<close>

lemma contains_inode_view: "well_formed g \<Longrightarrow> canonical i \<Longrightarrow> contains_inode g i \<longleftrightarrow> fs_inode (fs_of g) i \<noteq> None"
  using well_formedD(5) [of g] by (auto simp: contains_inode_def ar_contains_get inodes_ok_def)

lemma write_block_contract:
  assumes wf: "well_formed g" and c: "canonical i" and leaf: "\<not> is_dir (fs_of g) i"
    and cap: "next_block g < NODE_CAPACITY" "next_edge g < EDGE_CAPACITY"
  shows "case write_block g i off start cnt of
      (Ok b, g') \<Rightarrow>
        require_cap g WRITE = Ok () \<and> fs_inode (fs_of g) i \<noteq> None \<and> well_formed g' \<and>
        fs_of g' = fs_of g \<and> b = next_block g \<and>
        block_at g' = (block_at g)(b \<mapsto> \<lparr>block_id = b, sector_start = start, sector_count = cnt, refcount = 1\<rparr>) \<and>
        edge_at g' = (edge_at g)(next_edge g \<mapsto> PointsTo (next_edge g) i b off) \<and> quotas g' = quotas g
    | (Err e, g') \<Rightarrow> g' = g \<and>
        (require_cap g WRITE = Err e \<or> fs_inode (fs_of g) i = None \<and> e = InodeNotFound i)
    | _ \<Rightarrow> False"
proof (cases "require_cap g WRITE = Ok () \<and> inode_at g i \<noteq> None")
  case False
  then show ?thesis
    by (cases rule: require_cap_cases [of g WRITE]; cases "inode_at g i")
       (auto simp: write_block_def contains_inode_view [OF wf c])
next
  case True
  let ?b = "next_block g" and ?e = "next_edge g"
  let ?x = "\<lparr>block_id = ?b, sector_start = start, sector_count = cnt, refcount = 1\<rparr>"
  let ?g1 = "g\<lparr>next_block := ?b + 1, next_edge := ?e + 1\<rparr>"
  let ?h = "insert_edge ?e (PointsTo ?e i ?b off) (insert_block ?b ?x ?g1)"
  let ?g' = "?h\<lparr>inode_points_to := mi_add i ?e (inode_points_to ?h)\<rparr>"
  have g1: "rep_ok ?g1" "fs_of ?g1 = fs_of g"
    using next_edge_step [where g = "g\<lparr>next_block := ?b + 1\<rparr>" and k = "?e + 1"]
      next_block_step [where g = g and k = "?b + 1"] well_formedD(1) [OF wf] by simp_all
  have fresh: "block_at ?g1 ?b = None" "edge_at ?g1 ?e = None"
    using fresh_block fresh_edge well_formedD(1) [OF wf] by auto
  note step = add_extent_step [OF g1(1) cap(1) _ fresh(1) cap(2) _ fresh(2), of i ?x off]
  have step': "rep_ok ?g'" "fs_of ?g' = fs_of g" "block_at ?g' = (block_at g)(?b \<mapsto> ?x)"
    "edge_at ?g' = (edge_at g)(?e \<mapsto> PointsTo ?e i ?b off)"
    using step True g1(2) by simp_all
  have frame: "root_dir ?g' = root_dir g" "root_inode ?g' = root_inode g" "quotas ?g' = quotas g"
    "inode_points_to ?g' = mi_add i ?e (inode_points_to g)"
    by (simp_all add: insert_edge_def insert_block_def)
  have "well_formed ?g'"
  proof (rule well_formedI [OF step'(1,2) well_formedD(2) [OF wf]])
    show "fs_dir (fs_of g) (root_dir ?g') = Some (root_inode ?g')"
      using well_formedD(7) [OF wf] by (simp add: frame)
    show "mi_get (inode_points_to ?g') j = []" if "is_dir (fs_of g) j" for j
      using that leaf well_formedD(8) [OF wf that] by (auto simp: frame mi_get_add)
  qed
  moreover have "write_block g i off start cnt = (Ok ?b, ?g')"
    using True by (simp add: write_block_def contains_inode_view [OF wf c] alloc_block_id_def
        alloc_edge_id_def succ_u64_small cap Let_def)
  ultimately show ?thesis using True step'(2-4) frame(3) by simp
qed

end
