(* ===== verification/Sotfs_Attributes.thy ===== *)
theory Sotfs_Attributes
  imports Sotfs_Data
begin

text \<open>
  Extended attributes, access control lists and quota settings, from \<open>sotfs-ops/src/lib.rs\<close>.
  An attribute is a node of its own, reached by a \<open>HasXattr\<close> edge; an access control list is
  stored beside the inode and mirrored by capabilities with \<open>Grants\<close> edges.
\<close>

section \<open>Extended attributes\<close>

text \<open>The first attribute of the inode, in the order of identifiers, with this namespace and name.\<close>

fun find_xattr ::
    "(xattr_id, xattr) bmap \<Rightarrow> xattr_namespace \<Rightarrow> string \<Rightarrow> xattr_id list \<Rightarrow> (xattr_id \<times> xattr) option" where
  "find_xattr m ns name [] = None"
| "find_xattr m ns name (x # xs) =
     (case bmap_get m x of
        Some xa \<Rightarrow>
          (if xattr_namespace xa = ns \<and> xattr_name xa = name then Some (x, xa)
           else find_xattr m ns name xs)
      | None \<Rightarrow> find_xattr m ns name xs)"

definition setxattr ::
    "clock \<Rightarrow> type_graph \<Rightarrow> inode_id \<Rightarrow> xattr_namespace \<Rightarrow> string \<Rightarrow> u8 list \<Rightarrow> xattr_id res \<times> type_graph"
  where
  "setxattr clk g i ns name v =
     try_res (require_cap g WRITE) g (\<lambda>_.
     if \<not> contains_inode g i then (Err (InodeNotFound i), g)
     else if length v > 65536 then (Err (XAttrTooLarge (length v)), g)
     else (case find_xattr (xattrs g) ns name (mi_get (inode_xattrs g) i) of
        Some (x, _) \<Rightarrow>
          (Ok x, g\<lparr>xattrs := bmap_modify x (\<lambda>xa. xa\<lparr>xattr_value := v\<rparr>) (xattrs g)\<rparr>)
      | None \<Rightarrow>
          (let (x, g) = alloc_xattr_id g;
               (eid, g) = alloc_edge_id g;
               g = g\<lparr>xattrs := bmap_insert x
                      \<lparr>xattr_id = x, xattr_namespace = ns, xattr_name = name, xattr_value = v\<rparr> (xattrs g)\<rparr>;
               g = insert_edge eid (HasXattr eid i x) g;
               g = g\<lparr>inode_xattrs := mi_add i x (inode_xattrs g)\<rparr>
           in (Ok x, record_prov (clk 0) PSetxattr i name g))))"

definition getxattr :: "type_graph \<Rightarrow> inode_id \<Rightarrow> xattr_namespace \<Rightarrow> string \<Rightarrow> u8 list res" where
  "getxattr g i ns name =
     (if \<not> contains_inode g i then Err (InodeNotFound i)
      else (case find_xattr (xattrs g) ns name (mi_get (inode_xattrs g) i) of
              Some (_, xa) \<Rightarrow> Ok (xattr_value xa)
            | None \<Rightarrow> Err (XAttrNotFound name)))"

definition is_xattr_edge :: "type_graph \<Rightarrow> inode_id \<Rightarrow> xattr_id \<Rightarrow> edge_id \<Rightarrow> bool" where
  "is_xattr_edge g i x a =
     (case ar_get (edges g) a of
        Some (HasXattr _ src tgt) \<Rightarrow> src = i \<and> tgt = x
      | _ \<Rightarrow> False)"

definition removexattr ::
    "clock \<Rightarrow> type_graph \<Rightarrow> inode_id \<Rightarrow> xattr_namespace \<Rightarrow> string \<Rightarrow> unit res \<times> type_graph" where
  "removexattr clk g i ns name =
     try_res (require_cap g WRITE) g (\<lambda>_.
     if \<not> contains_inode g i then (Err (InodeNotFound i), g)
     else (case find_xattr (xattrs g) ns name (mi_get (inode_xattrs g) i) of
        None \<Rightarrow> (Err (XAttrNotFound name), g)
      | Some (x, _) \<Rightarrow>
          (let g = g\<lparr>xattrs := bmap_remove x (xattrs g)\<rparr>;
               g = g\<lparr>inode_xattrs := mi_del i x (inode_xattrs g)\<rparr>;
               g = (case find (is_xattr_edge g i x) (ar_keys (edges g)) of
                      Some eid \<Rightarrow> snd (remove_edge eid g)
                    | None \<Rightarrow> g)
           in (Ok (), record_prov (clk 0) PRemovexattr i name g))))"

fun xattr_names :: "(xattr_id, xattr) bmap \<Rightarrow> xattr_id list \<Rightarrow> (xattr_namespace \<times> string) list" where
  "xattr_names m [] = []"
| "xattr_names m (x # xs) =
     (case bmap_get m x of
        Some xa \<Rightarrow> [(xattr_namespace xa, xattr_name xa)]
      | None \<Rightarrow> []) @ xattr_names m xs"

definition listxattr :: "type_graph \<Rightarrow> inode_id \<Rightarrow> (xattr_namespace \<times> string) list res" where
  "listxattr g i =
     (if \<not> contains_inode g i then Err (InodeNotFound i)
      else Ok (xattr_names (xattrs g) (mi_get (inode_xattrs g) i)))"

section \<open>Access control lists\<close>

definition perms_to_rights :: "permissions \<Rightarrow> rights" where
  "perms_to_rights mode =
     (let bits = 0;
          bits = (if and mode 4 \<noteq> 0 then or bits READ else bits);
          bits = (if and mode 2 \<noteq> 0 then or bits WRITE else bits);
          bits = (if and mode 1 \<noteq> 0 then or bits EXECUTE else bits)
      in bits)"

text \<open>The \<open>Grants\<close> edges that lead to an inode, in slot order.\<close>

definition grants_to :: "type_graph \<Rightarrow> inode_id \<Rightarrow> edge_id list" where
  "grants_to g i =
     map fst (filter (\<lambda>(_, e). case e of Grants _ _ tgt _ \<Rightarrow> tgt = i | _ \<Rightarrow> False) (ar_iter (edges g)))"

text \<open>One iteration of the loop that purges them; the list collects the capabilities to drop.\<close>

definition purge_grant :: "edge_id \<Rightarrow> cap_id list \<times> type_graph \<Rightarrow> cap_id list \<times> type_graph" where
  "purge_grant eid s =
     (case s of (drop_caps, g) \<Rightarrow>
        (case remove_edge eid g of
           (Some (Grants _ src _ _), g) \<Rightarrow>
             (drop_caps @ [src], g\<lparr>cap_grants := bmap_remove src (cap_grants g)\<rparr>)
         | (_, g) \<Rightarrow> (drop_caps, g)))"

definition drop_cap :: "cap_id \<Rightarrow> type_graph \<Rightarrow> type_graph" where
  "drop_cap c g = g\<lparr>caps := snd (ar_remove (id_to_arena c) (caps g))\<rparr>"

definition acl_mask :: "acl_entry list \<Rightarrow> rights option" where
  "acl_mask entries =
     map_option (\<lambda>e. perms_to_rights (acl_permissions e)) (find (\<lambda>e. acl_tag e = AclMask) entries)"

definition entry_rights :: "rights option \<Rightarrow> acl_entry \<Rightarrow> rights" where
  "entry_rights m e =
     (let r = perms_to_rights (acl_permissions e)
      in if acl_tag e \<in> {AclUser, AclGroup, GroupObj}
         then (case m of Some m \<Rightarrow> restrict r m | None \<Rightarrow> r)
         else r)"

definition grant_entry :: "rights option \<Rightarrow> inode_id \<Rightarrow> acl_entry \<Rightarrow> type_graph \<Rightarrow> type_graph" where
  "grant_entry m i e g =
     (if acl_tag e = AclMask then g
      else (let r = entry_rights m e in
        if r = 0 then g
        else
          (let (c, g) = alloc_cap_id g;
               (eid, g) = alloc_edge_id g;
               g = insert_cap c \<lparr>capability_id = c, cap_rights = r, epoch = 0\<rparr> g;
               g = insert_edge eid (Grants eid c i r) g
           in g\<lparr>cap_grants := bmap_insert c eid (cap_grants g)\<rparr>)))"

definition setacl :: "clock \<Rightarrow> type_graph \<Rightarrow> inode_id \<Rightarrow> acl_entry list \<Rightarrow> unit res \<times> type_graph" where
  "setacl clk g i entries =
     try_res (require_cap g GRANT) g (\<lambda>_.
     if \<not> contains_inode g i then (Err (InodeNotFound i), g)
     else
       (let (caps_to_drop, g) = fold purge_grant (grants_to g i) ([], g);
            g = fold drop_cap caps_to_drop g;
            g = g\<lparr>acls := bmap_insert i entries (acls g)\<rparr>;
            g = fold (grant_entry (acl_mask entries) i) entries g
        in (Ok (), record_prov (clk 0) PSetAcl i [] g)))"

definition getacl :: "type_graph \<Rightarrow> inode_id \<Rightarrow> acl_entry list res" where
  "getacl g i =
     (case get_inode g i of
        None \<Rightarrow> Err (InodeNotFound i)
      | Some n \<Rightarrow>
          (case bmap_get (acls g) i of
             Some acl \<Rightarrow> Ok acl
           | None \<Rightarrow>
               (let mode = permissions n in
                Ok [\<lparr>acl_tag = UserObj, acl_qualifier = 0, acl_permissions = and (drop_bit 6 mode) 7\<rparr>,
                    \<lparr>acl_tag = GroupObj, acl_qualifier = 0, acl_permissions = and (drop_bit 3 mode) 7\<rparr>,
                    \<lparr>acl_tag = AclOther, acl_qualifier = 0, acl_permissions = and mode 7\<rparr>])))"

section \<open>Quota settings\<close>

definition set_quota :: "type_graph \<Rightarrow> dir_id \<Rightarrow> u64 \<Rightarrow> u64 \<Rightarrow> unit res \<times> type_graph" where
  "set_quota g d inode_lim byte_lim =
     try_res (require_cap g GRANT) g (\<lambda>_.
     if \<not> contains_dir g d then (Err (DirNotFound d), g)
     else (Ok (), g\<lparr>quotas := bmap_insert d (quota_new inode_lim byte_lim) (quotas g)\<rparr>))"

definition get_quota :: "type_graph \<Rightarrow> dir_id \<Rightarrow> quota option res" where
  "get_quota g d =
     (if \<not> contains_dir g d then Err (DirNotFound d) else Ok (bmap_get (quotas g) d))"

section \<open>Edges outside the tree\<close>

text \<open>Adding and removing edges that are neither \<open>Contains\<close> nor \<open>PointsTo\<close> leaves the view alone.\<close>

fun plain_edge :: "edge \<Rightarrow> bool" where
  "plain_edge (Contains _ _ _ _) = False"
| "plain_edge (PointsTo _ _ _ _) = False"
| "plain_edge _ = True"

lemma plain_proj [simp]:
  "plain_edge x \<Longrightarrow> contains_src x = None" "plain_edge x \<Longrightarrow> contains_tgt x = None"
  "plain_edge x \<Longrightarrow> contains_key x = None" "plain_edge x \<Longrightarrow> points_src x = None"
  "plain_edge x \<Longrightarrow> points_tgt x = None"
  by (cases x; simp)+

lemma plain_insert: "plain_edge x \<Longrightarrow> insert_edge e x g = g\<lparr>edges := snd (ar_insert_at (id_to_arena e) x (edges g))\<rparr>"
  by (cases x) (simp_all add: insert_edge_def)

lemma plain_remove:
  assumes "ar_inv (edges g)" "edge_at g e = Some x" "plain_edge x" "canonical e"
  shows "remove_edge e g = (Some x, g\<lparr>edges := snd (ar_remove e (edges g))\<rparr>)"
proof -
  obtain a where "ar_remove e (edges g) = (Some x, a)"
    using ar.del_val [OF assms(1), of e] assms(2) by (cases "ar_remove e (edges g)") simp
  then show ?thesis
    using assms(3,4) by (cases x) (simp_all add: remove_edge_def)
qed

text \<open>A graph that differs from \<open>g\<close> in plain edges only.\<close>

lemma plain_rep:
  assumes ok: "rep_ok g" and inv: "ar_inv E" "ar_capacity E = EDGE_CAPACITY"
    and at: "\<And>e x. ar_get E e = Some x \<Longrightarrow> edge_at g e \<noteq> Some x \<Longrightarrow> plain_edge x \<and> edge_id x = e \<and> e < next_edge g"
    and gone: "\<And>e x. edge_at g e = Some x \<Longrightarrow> ar_get E e \<noteq> Some x \<Longrightarrow> plain_edge x"
  shows "rep_ok (g\<lparr>edges := E\<rparr>)" and "fs_of (g\<lparr>edges := E\<rparr>) = fs_of g"
proof -
  note edges = rep_okD(1) [OF ok]
  have P: "proj p (ar_get E) = proj p (edge_at g)" if "\<And>x. plain_edge x \<Longrightarrow> p x = None" for p :: "edge \<Rightarrow> 'b option"
  proof
    fix e
    show "proj p (ar_get E) e = proj p (edge_at g) e"
    proof (cases "ar_get E e = edge_at g e")
      case False
      have "p x = None" if "ar_get E e = Some x" for x
      proof -
        have "edge_at g e \<noteq> Some x" using that False by simp
        then show ?thesis using at [OF that] \<open>\<And>x. plain_edge x \<Longrightarrow> p x = None\<close> by blast
      qed
      moreover have "p x = None" if "edge_at g e = Some x" for x
      proof -
        have "ar_get E e \<noteq> Some x" using that False by simp
        then show ?thesis using gone [OF that] \<open>\<And>x. plain_edge x \<Longrightarrow> p x = None\<close> by blast
      qed
      ultimately show ?thesis by (cases "ar_get E e"; cases "edge_at g e") (simp_all add: proj_def)
    qed (simp add: proj_def)
  qed
  have same: "proj contains_src (ar_get E) = proj contains_src (edge_at g)"
    "proj contains_tgt (ar_get E) = proj contains_tgt (edge_at g)"
    "proj contains_key (ar_get E) = proj contains_key (edge_at g)"
    "proj points_src (ar_get E) = proj points_src (edge_at g)"
    "proj points_tgt (ar_get E) = proj points_tgt (edge_at g)"
    by (rule P; simp)+
  have "\<forall>e x. ar_get E e = Some x \<longrightarrow> edge_id x = e \<and> e < next_edge g"
  proof (intro allI impI)
    fix e x assume x: "ar_get E e = Some x"
    show "edge_id x = e \<and> e < next_edge g"
      using at [OF x] edges_okD(11,12) [OF edges, of e x] by (cases "edge_at g e = Some x") simp_all
  qed
  then have ok': "edges_ok (g\<lparr>edges := E\<rparr>)"
    using edges_okD(3-10) [OF edges] inv by (simp add: edges_ok_def same)
  moreover have "blocks_ok (g\<lparr>edges := E\<rparr>)"
    by (rule blocks_ok_cong [OF rep_okD(4) [OF ok]]) (simp_all add: same)
  moreover have "dirs_ok (g\<lparr>edges := E\<rparr>)" "inodes_ok (g\<lparr>edges := E\<rparr>)"
    using rep_okD(2,3) [OF ok] by (simp_all add: dirs_ok_def inodes_ok_def)
  ultimately show "rep_ok (g\<lparr>edges := E\<rparr>)" by (simp add: rep_ok_def)
  have "names_of (g\<lparr>edges := E\<rparr>) = names_of g"
  proof (rule names_of_ext [OF edges ok'])
    fix d n t
    have "(\<exists>e. ar_get E e = Some (Contains e d t n)) \<longleftrightarrow> (\<exists>e. edge_at g e = Some (Contains e d t n))"
    proof
      assume "\<exists>e. ar_get E e = Some (Contains e d t n)"
      then obtain e where "ar_get E e = Some (Contains e d t n)" ..
      then show "\<exists>e. edge_at g e = Some (Contains e d t n)" using at [of e] by fastforce
    next
      assume "\<exists>e. edge_at g e = Some (Contains e d t n)"
      then obtain e where "edge_at g e = Some (Contains e d t n)" ..
      then show "\<exists>e. ar_get E e = Some (Contains e d t n)" using gone [of e] by fastforce
    qed
    then show "(\<exists>e. edge_at (g\<lparr>edges := E\<rparr>) e = Some (Contains e d t n)) \<longleftrightarrow> names_of g (d, n) = Some t"
      using names_of_iff [OF edges, of d n t] by simp
  qed
  then show "fs_of (g\<lparr>edges := E\<rparr>) = fs_of g" by (simp add: fs_of_def)
qed

lemma plain_well_formed:
  assumes wf: "well_formed g" and inv: "ar_inv E" "ar_capacity E = EDGE_CAPACITY"
    and at: "\<And>e x. ar_get E e = Some x \<Longrightarrow> edge_at g e \<noteq> Some x \<Longrightarrow> plain_edge x \<and> edge_id x = e \<and> e < next_edge g"
    and gone: "\<And>e x. edge_at g e = Some x \<Longrightarrow> ar_get E e \<noteq> Some x \<Longrightarrow> plain_edge x"
  shows "well_formed (g\<lparr>edges := E\<rparr>)" and "fs_of (g\<lparr>edges := E\<rparr>) = fs_of g"
proof -
  note rep = plain_rep [OF well_formedD(1) [OF wf] inv at gone]
  show "fs_of (g\<lparr>edges := E\<rparr>) = fs_of g" by (rule rep(2)) simp_all
  show "well_formed (g\<lparr>edges := E\<rparr>)"
    by (rule well_formedI [OF rep well_formedD(2) [OF wf]])
       (use well_formedD(7,8) [OF wf] in simp_all)
qed

lemma names_of_attr_fields [simp]:
  "names_of (g\<lparr>xattrs := a\<rparr>) = names_of g" "names_of (g\<lparr>inode_xattrs := b\<rparr>) = names_of g"
  "names_of (g\<lparr>next_xattr := n\<rparr>) = names_of g" "names_of (g\<lparr>caps := c\<rparr>) = names_of g"
  "names_of (g\<lparr>cap_grants := d\<rparr>) = names_of g" "names_of (g\<lparr>next_cap := n\<rparr>) = names_of g"
  "names_of (g\<lparr>acls := l\<rparr>) = names_of g"
  by (simp_all add: names_of_def fun_eq_iff)

lemma fs_of_attr_fields [simp]:
  "fs_of (g\<lparr>xattrs := a\<rparr>) = fs_of g" "fs_of (g\<lparr>inode_xattrs := b\<rparr>) = fs_of g"
  "fs_of (g\<lparr>next_xattr := n\<rparr>) = fs_of g" "fs_of (g\<lparr>caps := c\<rparr>) = fs_of g"
  "fs_of (g\<lparr>cap_grants := d\<rparr>) = fs_of g" "fs_of (g\<lparr>next_cap := n\<rparr>) = fs_of g"
  "fs_of (g\<lparr>acls := l\<rparr>) = fs_of g"
  by (simp_all add: fs_of_def)

lemma well_formed_attr_fields [simp]:
  "well_formed (g\<lparr>xattrs := a\<rparr>) = well_formed g" "well_formed (g\<lparr>inode_xattrs := b\<rparr>) = well_formed g"
  "well_formed (g\<lparr>next_xattr := n\<rparr>) = well_formed g" "well_formed (g\<lparr>caps := c\<rparr>) = well_formed g"
  "well_formed (g\<lparr>cap_grants := d\<rparr>) = well_formed g" "well_formed (g\<lparr>next_cap := n\<rparr>) = well_formed g"
  "well_formed (g\<lparr>acls := l\<rparr>) = well_formed g"
  by (simp_all add: well_formed_def no_dir_extents_def rep_ok_def edges_ok_def dirs_ok_def inodes_ok_def
      blocks_ok_def)

lemma well_formed_next_edge: "well_formed g \<Longrightarrow> next_edge g \<le> k \<Longrightarrow> well_formed (g\<lparr>next_edge := k\<rparr>)"
  using next_edge_step [where g = g and k = k]
  by (simp add: well_formed_def no_dir_extents_def del: fs_of_simps)

lemma add_plain_edge:
  assumes wf: "well_formed g" and cap: "next_edge g < EDGE_CAPACITY"
    and x: "plain_edge x" "edge_id x = next_edge g"
  defines "E \<equiv> snd (ar_insert_at (next_edge g) x (edges g))"
  shows "well_formed (g\<lparr>next_edge := next_edge g + 1, edges := E\<rparr>)"
    and "fs_of (g\<lparr>next_edge := next_edge g + 1, edges := E\<rparr>) = fs_of g"
    and "ar_get E = (edge_at g)(next_edge g \<mapsto> x)" and "ar_inv E" and "ar_capacity E = EDGE_CAPACITY"
proof -
  note edges = well_formedD(3) [OF wf]
  have fresh: "edge_at g (next_edge g) = None" by (rule fresh_edge [OF well_formedD(1) [OF wf]]) simp
  show E: "ar_get E = (edge_at g)(next_edge g \<mapsto> x)"
    using edges_okD(1,2) [OF edges] cap fresh by (simp add: E_def slot_simps)
  show inv: "ar_inv E" "ar_capacity E = EDGE_CAPACITY"
    using edges_okD(1,2) [OF edges] by (simp_all add: E_def slot_simps)
  let ?g = "g\<lparr>next_edge := next_edge g + 1\<rparr>"
  have wf': "well_formed ?g" by (rule well_formed_next_edge [OF wf]) simp
  have at: "plain_edge y \<and> edge_id y = e \<and> e < next_edge ?g"
    if "ar_get E e = Some y" "edge_at ?g e \<noteq> Some y" for e y
    using that x by (auto simp: E split: if_splits)
  have gone: "plain_edge y" if "edge_at ?g e = Some y" "ar_get E e \<noteq> Some y" for e y
    using that fresh by (auto simp: E split: if_splits)
  show "well_formed (g\<lparr>next_edge := next_edge g + 1, edges := E\<rparr>)"
    by (rule plain_well_formed(1) [OF wf' inv at gone])
  have "fs_of (?g\<lparr>edges := E\<rparr>) = fs_of ?g" by (rule plain_well_formed(2) [OF wf' inv at gone])
  then show "fs_of (g\<lparr>next_edge := next_edge g + 1, edges := E\<rparr>) = fs_of g"
    using next_edge_step(2) [where g = g and k = "next_edge g + 1"] by simp
qed

lemma del_plain_edge:
  assumes wf: "well_formed g" and e: "edge_at g e = Some x" and x: "plain_edge x"
  defines "g' \<equiv> snd (remove_edge e g)"
  shows "remove_edge e g = (Some x, g')" and "g' = g\<lparr>edges := edges g'\<rparr>"
    and "well_formed g'" and "fs_of g' = fs_of g" and "edge_at g' = (edge_at g)(e := None)"
proof -
  note edges = well_formedD(3) [OF wf]
  let ?E = "snd (ar_remove e (edges g))"
  note rm = plain_remove [OF edges_okD(1) [OF edges] e x edge_canonical [OF edges e]]
  then have g': "g' = g\<lparr>edges := ?E\<rparr>" by (simp add: g'_def)
  show "remove_edge e g = (Some x, g')" "g' = g\<lparr>edges := edges g'\<rparr>" using rm by (simp_all add: g')
  have E: "ar_get ?E = (edge_at g)(e := None)"
    using edges_okD(1) [OF edges] by (simp add: slot_simps)
  then show "edge_at g' = (edge_at g)(e := None)" by (simp add: g')
  have inv: "ar_inv ?E" "ar_capacity ?E = EDGE_CAPACITY"
    using edges_okD(1,2) [OF edges] by (simp_all add: slot_simps)
  have at: "plain_edge y \<and> edge_id y = e' \<and> e' < next_edge g"
    if "ar_get ?E e' = Some y" "edge_at g e' \<noteq> Some y" for e' y
    using that by (auto simp: E split: if_splits)
  have gone: "plain_edge y" if "edge_at g e' = Some y" "ar_get ?E e' \<noteq> Some y" for e' y
    using that e x by (auto simp: E split: if_splits)
  show "well_formed g'" "fs_of g' = fs_of g"
    unfolding g' using plain_well_formed [OF wf inv at gone] by simp_all
qed

section \<open>The attributes of an inode\<close>

text \<open>The abstract contents: a map from (namespace, name) to value for every inode.\<close>

definition xattr_of :: "type_graph \<Rightarrow> inode_id \<Rightarrow> xattr_namespace \<times> string \<rightharpoonup> u8 list" where
  "xattr_of g i k =
     map_option (\<lambda>(_, xa). xattr_value xa) (find_xattr (xattrs g) (fst k) (snd k) (mi_get (inode_xattrs g) i))"

abbreviation xattr_ids :: "type_graph \<Rightarrow> inode_id \<Rightarrow> xattr_id set" where
  "xattr_ids g i \<equiv> set (mi_get (inode_xattrs g) i)"

definition named :: "xattr_namespace \<Rightarrow> string \<Rightarrow> xattr \<Rightarrow> bool" where
  "named ns n xa \<longleftrightarrow> xattr_namespace xa = ns \<and> xattr_name xa = n"

lemma named_value [simp]: "named ns n (xa\<lparr>xattr_value := v\<rparr>) = named ns n xa"
  by (simp add: named_def)

text \<open>The index lists exactly the attributes the inode has \<open>HasXattr\<close> edges to, each over one edge.\<close>

definition xattr_edges_exact :: "type_graph \<Rightarrow> bool" where
  "xattr_edges_exact g \<longleftrightarrow>
     (\<forall>i x. x \<in> xattr_ids g i \<longleftrightarrow> (\<exists>e. edge_at g e = Some (HasXattr e i x))) \<and>
     (\<forall>e e' i j x. edge_at g e = Some (HasXattr e i x) \<longrightarrow> edge_at g e' = Some (HasXattr e' j x) \<longrightarrow> e = e')"

definition xattr_ids_bound :: "type_graph \<Rightarrow> bool" where
  "xattr_ids_bound g \<longleftrightarrow>
     (\<forall>i x. x \<in> xattr_ids g i \<longrightarrow> x < next_xattr g \<and> bmap_get (xattrs g) x \<noteq> None)"

definition xattr_names_unique :: "type_graph \<Rightarrow> bool" where
  "xattr_names_unique g \<longleftrightarrow>
     (\<forall>i ns n x y xa ya. x \<in> xattr_ids g i \<longrightarrow> y \<in> xattr_ids g i \<longrightarrow> bmap_get (xattrs g) x = Some xa \<longrightarrow>
        bmap_get (xattrs g) y = Some ya \<longrightarrow> named ns n xa \<longrightarrow> named ns n ya \<longrightarrow> x = y)"

definition xattrs_ok :: "type_graph \<Rightarrow> bool" where
  "xattrs_ok g \<longleftrightarrow>
     mi_ok (inode_xattrs g) \<and> xattr_edges_exact g \<and> xattr_ids_bound g \<and> xattr_names_unique g"

lemma xattrs_okD:
  assumes "xattrs_ok g"
  shows "mi_ok (inode_xattrs g)" "x \<in> xattr_ids g i \<longleftrightarrow> (\<exists>e. edge_at g e = Some (HasXattr e i x))"
    and "edge_at g e = Some (HasXattr e i x) \<Longrightarrow> edge_at g e' = Some (HasXattr e' j x) \<Longrightarrow> e = e'"
    and "x \<in> xattr_ids g i \<Longrightarrow> x < next_xattr g" "x \<in> xattr_ids g i \<Longrightarrow> \<exists>xa. bmap_get (xattrs g) x = Some xa"
    and "x \<in> xattr_ids g i \<Longrightarrow> y \<in> xattr_ids g i \<Longrightarrow> bmap_get (xattrs g) x = Some xa \<Longrightarrow>
      bmap_get (xattrs g) y = Some ya \<Longrightarrow> named ns n xa \<Longrightarrow> named ns n ya \<Longrightarrow> x = y"
    and "x \<in> xattr_ids g i \<Longrightarrow> x \<in> xattr_ids g j \<Longrightarrow> i = j"
proof -
  have ex: "xattr_edges_exact g" and bd: "xattr_ids_bound g" and un: "xattr_names_unique g"
    using assms by (simp_all add: xattrs_ok_def)
  show "mi_ok (inode_xattrs g)" using assms by (simp add: xattrs_ok_def)
  show ids: "x \<in> xattr_ids g i \<longleftrightarrow> (\<exists>e. edge_at g e = Some (HasXattr e i x))" for x i
    using ex by (simp add: xattr_edges_exact_def)
  show uniq: "edge_at g e = Some (HasXattr e i x) \<Longrightarrow> edge_at g e' = Some (HasXattr e' j x) \<Longrightarrow> e = e'"
    for e e' i j x using ex unfolding xattr_edges_exact_def by blast
  show "x \<in> xattr_ids g i \<Longrightarrow> x < next_xattr g" "x \<in> xattr_ids g i \<Longrightarrow> \<exists>xa. bmap_get (xattrs g) x = Some xa"
    using bd unfolding xattr_ids_bound_def by blast+
  show "x \<in> xattr_ids g i \<Longrightarrow> y \<in> xattr_ids g i \<Longrightarrow> bmap_get (xattrs g) x = Some xa \<Longrightarrow>
      bmap_get (xattrs g) y = Some ya \<Longrightarrow> named ns n xa \<Longrightarrow> named ns n ya \<Longrightarrow> x = y"
    using un unfolding xattr_names_unique_def by blast
  show "i = j" if xs: "x \<in> xattr_ids g i" "x \<in> xattr_ids g j"
  proof -
    obtain e where e: "edge_at g e = Some (HasXattr e i x)" using ids xs(1) by blast
    obtain e' where e': "edge_at g e' = Some (HasXattr e' j x)" using ids xs(2) by blast
    show ?thesis using uniq [OF e e'] e e' by simp
  qed
qed

lemma find_xattr_Some:
  "find_xattr m ns n xs = Some (x, xa) \<Longrightarrow> x \<in> set xs \<and> bmap_get m x = Some xa \<and> named ns n xa"
  by (induction xs) (auto simp: named_def split: option.splits if_splits)

lemma find_xattr_None:
  "find_xattr m ns n xs = None \<longleftrightarrow> (\<forall>x \<in> set xs. \<forall>xa. bmap_get m x = Some xa \<longrightarrow> \<not> named ns n xa)"
  by (induction xs) (auto simp: named_def split: option.splits)

lemma find_xattr_iff:
  assumes "xattrs_ok g"
  shows "find_xattr (xattrs g) ns n (mi_get (inode_xattrs g) i) = Some (x, xa) \<longleftrightarrow>
    x \<in> xattr_ids g i \<and> bmap_get (xattrs g) x = Some xa \<and> named ns n xa"
proof
  assume x: "x \<in> xattr_ids g i \<and> bmap_get (xattrs g) x = Some xa \<and> named ns n xa"
  then obtain y ya where y: "find_xattr (xattrs g) ns n (mi_get (inode_xattrs g) i) = Some (y, ya)"
    using find_xattr_None [of "xattrs g" ns n "mi_get (inode_xattrs g) i"] by (metis not_Some_eq prod.exhaust)
  with find_xattr_Some [OF this] xattrs_okD(6) [OF assms] x
  have "y = x" by blast
  then show "find_xattr (xattrs g) ns n (mi_get (inode_xattrs g) i) = Some (x, xa)"
    using y find_xattr_Some [OF y] x by simp
qed (rule find_xattr_Some)

lemma xattr_of_iff:
  assumes "xattrs_ok g"
  shows "xattr_of g i (ns, n) = Some v \<longleftrightarrow>
    (\<exists>x xa. x \<in> xattr_ids g i \<and> bmap_get (xattrs g) x = Some xa \<and> named ns n xa \<and> xattr_value xa = v)"
  using find_xattr_iff [OF assms, of ns n i] by (fastforce simp: xattr_of_def)

lemma xattr_ofI:
  assumes "xattrs_ok g"
    and "\<And>v. (\<exists>x xa. x \<in> xattr_ids g i \<and> bmap_get (xattrs g) x = Some xa \<and> named ns n xa \<and> xattr_value xa = v)
           \<longleftrightarrow> r = Some v"
  shows "xattr_of g i (ns, n) = r"
  using xattr_of_iff [OF assms(1), of i ns n] assms(2) by (metis not_Some_eq)

section \<open>Setting an attribute\<close>

definition xattr_set :: "inode_id \<Rightarrow> xattr_namespace \<times> string \<Rightarrow> u8 list option \<Rightarrow> type_graph \<Rightarrow> type_graph \<Rightarrow> bool" where
  "xattr_set i k v g g' \<longleftrightarrow> (\<forall>j l. xattr_of g' j l = (if j = i \<and> l = k then v else xattr_of g j l))"

text \<open>Replacing the value of an attribute in place.\<close>

lemma xattr_update:
  fixes v :: "u8 list"
  assumes ok: "xattrs_ok g" and x: "find_xattr (xattrs g) ns n (mi_get (inode_xattrs g) i) = Some (x, xa)"
  defines "g' \<equiv> g\<lparr>xattrs := bmap_modify x (\<lambda>xa. xa\<lparr>xattr_value := v\<rparr>) (xattrs g)\<rparr>"
  shows "xattrs_ok g'" and "xattr_set i (ns, n) (Some v) g g'"
proof -
  note x = find_xattr_Some [OF x] and okD = xattrs_okD [OF ok]
  have X: "bmap_get (xattrs g') = (bmap_get (xattrs g))(x \<mapsto> xa\<lparr>xattr_value := v\<rparr>)"
    using x by (auto simp: g'_def bmap_get_modify fun_eq_iff)
  have same: "inode_xattrs g' = inode_xattrs g" "edges g' = edges g" "next_xattr g' = next_xattr g"
    by (simp_all add: g'_def)
  have get: "(\<exists>ya. bmap_get (xattrs g') y = Some ya \<and> named ms m ya \<and> P y (xattr_value ya)) \<longleftrightarrow>
      (\<exists>ya. bmap_get (xattrs g) y = Some ya \<and> named ms m ya \<and> P y (if y = x then v else xattr_value ya))"
    for y ms m P using x by (simp add: X named_def)
  have nm: "named ms m ya' \<longleftrightarrow> named ms m ya"
    if "bmap_get (xattrs g') y = Some ya'" "bmap_get (xattrs g) y = Some ya" for y ya ya' ms m
    using that x by (auto simp: X named_def split: if_splits)
  have "xattr_names_unique g'"
    unfolding xattr_names_unique_def same
  proof (intro allI impI)
    fix j ms m y z ya za
    assume yz: "y \<in> xattr_ids g j" "z \<in> xattr_ids g j" "bmap_get (xattrs g') y = Some ya"
      "bmap_get (xattrs g') z = Some za" "named ms m ya" "named ms m za"
    then obtain ya0 za0 where "bmap_get (xattrs g) y = Some ya0" "bmap_get (xattrs g) z = Some za0"
      using okD(5) by blast
    then show "y = z" using okD(6) [OF yz(1,2)] nm [OF yz(3)] nm [OF yz(4)] yz(5,6) by blast
  qed
  then show ok': "xattrs_ok g'"
    using ok unfolding xattrs_ok_def xattr_edges_exact_def xattr_ids_bound_def same
    by (auto simp: X)
  show "xattr_set i (ns, n) (Some v) g g'"
    unfolding xattr_set_def
  proof (intro allI)
    fix j and l :: "xattr_namespace \<times> string"
    obtain ms m where l: "l = (ms, m)" by (cases l)
    have mine: "y = x" if "y \<in> xattr_ids g i" "bmap_get (xattrs g) y = Some ya" "named ns n ya" for y ya
      using okD(6) [OF that(1) _ that(2)] x that(3) by blast
    have other: "(j = i \<and> l = (ns, n)) \<or> \<not> (x \<in> xattr_ids g j \<and> named ms m xa)"
      using x okD(7) by (auto simp: l named_def)
    show "xattr_of g' j l = (if j = i \<and> l = (ns, n) then Some v else xattr_of g j l)"
    proof (cases "j = i \<and> l = (ns, n)")
      case True
      then have "xattr_of g' j l = Some v"
        using x xattr_of_iff [OF ok', of i ns n v] get [of x ns n "\<lambda>y w. w = v"] by (auto simp: l same)
      then show ?thesis using True by simp
    next
      case False
      have "xattr_of g' j (ms, m) = xattr_of g j (ms, m)"
      proof (rule xattr_ofI [OF ok'])
        fix w
        show "(\<exists>y ya. y \<in> xattr_ids g' j \<and> bmap_get (xattrs g') y = Some ya \<and> named ms m ya \<and> xattr_value ya = w)
            \<longleftrightarrow> xattr_of g j (ms, m) = Some w"
          using other False x unfolding xattr_of_iff [OF ok] same by (auto simp: X)
      qed
      then have "xattr_of g' j l = xattr_of g j l" by (simp only: l)
      then show ?thesis by (simp only: False if_False)
    qed
  qed
qed

text \<open>A new attribute.\<close>

lemma xattr_add:
  assumes ok: "xattrs_ok g" and none: "find_xattr (xattrs g) ns n (mi_get (inode_xattrs g) i) = None"
    and X': "xattrs g' = bmap_insert (next_xattr g)
      \<lparr>xattr_id = next_xattr g, xattr_namespace = ns, xattr_name = n, xattr_value = v\<rparr> (xattrs g)"
    and I: "inode_xattrs g' = mi_add i (next_xattr g) (inode_xattrs g)"
    and E: "edge_at g' = (edge_at g)(e \<mapsto> HasXattr e i (next_xattr g))" "edge_at g e = None"
    and N: "next_xattr g' = next_xattr g + 1"
  shows "xattrs_ok g'" and "xattr_set i (ns, n) (Some v) g g'"
proof -
  let ?x = "next_xattr g"
  let ?xa = "\<lparr>xattr_id = ?x, xattr_namespace = ns, xattr_name = n, xattr_value = v\<rparr>"
  note okD = xattrs_okD [OF ok]
  have X: "bmap_get (xattrs g') = (bmap_get (xattrs g))(?x \<mapsto> ?xa)"
    unfolding X' by (rule bmap_get_insert)
  have ids: "xattr_ids g' j = (if j = i then insert ?x (xattr_ids g j) else xattr_ids g j)" for j
    by (simp add: I mi_get_add)
  have new: "?x \<notin> xattr_ids g j" for j using okD(4) [of ?x j] by blast
  then have noedge: "edge_at g a \<noteq> Some (HasXattr a j ?x)" for a j using okD(2) by blast
  have free: "\<not> named ns n ya" if "y \<in> xattr_ids g i" "bmap_get (xattrs g) y = Some ya" for y ya
    using none that unfolding find_xattr_None by blast
  have edge: "edge_at g' a = Some (HasXattr a j y) \<longleftrightarrow>
      edge_at g a = Some (HasXattr a j y) \<or> a = e \<and> j = i \<and> y = ?x" for a j y
    using E by auto
  have "xattr_edges_exact g'"
    unfolding xattr_edges_exact_def edge ids using okD(2,3) noedge by auto
  moreover have "xattr_ids_bound g'"
    unfolding xattr_ids_bound_def ids N X using okD(4,5) by (auto intro: trans_less_add1)
  moreover have "xattr_names_unique g'"
    unfolding xattr_names_unique_def
  proof (intro allI impI)
    fix j ms m y z ya za
    assume yz: "y \<in> xattr_ids g' j" "z \<in> xattr_ids g' j" "bmap_get (xattrs g') y = Some ya"
      "bmap_get (xattrs g') z = Some za" "named ms m ya" "named ms m za"
    have old: "w \<in> xattr_ids g j \<and> bmap_get (xattrs g) w = Some wa"
      if "w \<in> xattr_ids g' j" "bmap_get (xattrs g') w = Some wa" "w \<noteq> ?x" for w wa
      using that by (simp add: ids X split: if_splits)
    have clash: False if "w \<in> xattr_ids g j" "bmap_get (xattrs g) w = Some wa" "named ms m wa"
      "?x \<in> xattr_ids g' j" "named ms m xa" "bmap_get (xattrs g') ?x = Some xa" for w wa xa
    proof -
      have "j = i" using that(4) new by (simp add: ids split: if_splits)
      moreover have "ms = ns" "m = n" using that(5,6) by (auto simp: X named_def)
      ultimately show False using free that(1,2,3) by blast
    qed
    show "y = z"
      using yz old [of y ya] old [of z za] okD(6) [of y j z ya za ms m] clash
      by (cases "y = ?x"; cases "z = ?x") blast+
  qed
  ultimately show ok': "xattrs_ok g'"
    using okD(1) unfolding xattrs_ok_def by (simp add: I mi.inv_add)
  show "xattr_set i (ns, n) (Some v) g g'"
    unfolding xattr_set_def
  proof (intro allI)
    fix j and l :: "xattr_namespace \<times> string"
    obtain ms m where l: "l = (ms, m)" by (cases l)
    have "xattr_of g' j (ms, m) = (if j = i \<and> (ms, m) = (ns, n) then Some v else xattr_of g j (ms, m))"
    proof (rule xattr_ofI [OF ok'])
      fix w
      have split: "y \<in> xattr_ids g' j \<and> bmap_get (xattrs g') y = Some ya \<and> named ms m ya \<and> xattr_value ya = w \<longleftrightarrow>
          y \<in> xattr_ids g j \<and> bmap_get (xattrs g) y = Some ya \<and> named ms m ya \<and> xattr_value ya = w \<or>
          y = ?x \<and> j = i \<and> ya = ?xa \<and> named ms m ?xa \<and> v = w" for y ya
        unfolding ids X using new [of j] by auto
      have "(\<exists>y ya. y \<in> xattr_ids g' j \<and> bmap_get (xattrs g') y = Some ya \<and> named ms m ya \<and> xattr_value ya = w)
          \<longleftrightarrow> xattr_of g j (ms, m) = Some w \<or> j = i \<and> named ms m ?xa \<and> v = w"
        unfolding xattr_of_iff [OF ok] split ex_disj_distrib by simp
      moreover have "xattr_of g i (ns, n) \<noteq> Some w" using free unfolding xattr_of_iff [OF ok] by blast
      ultimately show "(\<exists>y ya. y \<in> xattr_ids g' j \<and> bmap_get (xattrs g') y = Some ya \<and> named ms m ya \<and> xattr_value ya = w)
          \<longleftrightarrow> (if j = i \<and> (ms, m) = (ns, n) then Some v else xattr_of g j (ms, m)) = Some w"
        by (auto simp: named_def)
    qed
    then show "xattr_of g' j l = (if j = i \<and> l = (ns, n) then Some v else xattr_of g j l)"
      by (simp add: l)
  qed
qed

lemma well_formed_next_xattr_edge:
  fixes nx i z :: nat and xs :: "(xattr_id, xattr) bmap"
  assumes wf: "well_formed g" and cap: "next_edge g < EDGE_CAPACITY" and x: "plain_edge y" "edge_id y = next_edge g"
  defines "g1 \<equiv> insert_edge (next_edge g) y (g\<lparr>next_xattr := nx, next_edge := next_edge g + 1, xattrs := xs\<rparr>)"
  defines "g' \<equiv> g1\<lparr>inode_xattrs := mi_add i z (inode_xattrs g1)\<rparr>"
  shows "well_formed g' \<and> fs_of g' = fs_of g \<and> edge_at g' = (edge_at g)(next_edge g \<mapsto> y) \<and>
    inode_xattrs g' = mi_add i z (inode_xattrs g) \<and> xattrs g' = xs \<and> next_xattr g' = nx \<and> quotas g' = quotas g"
proof -
  note add = add_plain_edge [OF wf cap x]
  let ?E = "snd (ar_insert_at (next_edge g) y (edges g))"
  have "g' = (g\<lparr>next_edge := next_edge g + 1, edges := ?E\<rparr>)
      \<lparr>next_xattr := nx, xattrs := xs, inode_xattrs := mi_add i z (inode_xattrs g)\<rparr>"
    using cap by (simp add: g'_def g1_def plain_insert [OF x(1)] canonical_small)
  then show ?thesis using add by simp
qed

lemma setxattr_contract:
  assumes wf: "well_formed g" and ok: "xattrs_ok g" and c: "canonical i"
    and cap: "next_edge g < EDGE_CAPACITY" "next_xattr g + 1 < 2 ^ 64"
  shows "case setxattr clk g i ns n v of
      (Ok x, g') \<Rightarrow>
        require_cap g WRITE = Ok () \<and> fs_inode (fs_of g) i \<noteq> None \<and> length v \<le> 65536 \<and>
        well_formed g' \<and> fs_of g' = fs_of g \<and> xattrs_ok g' \<and> xattr_set i (ns, n) (Some v) g g' \<and>
        quotas g' = quotas g
    | (Err e, g') \<Rightarrow> g' = g \<and>
        (require_cap g WRITE = Err e \<or> fs_inode (fs_of g) i = None \<and> e = InodeNotFound i \<or>
         length v > 65536 \<and> e = XAttrTooLarge (length v))
    | _ \<Rightarrow> False"
proof (cases "require_cap g WRITE = Ok () \<and> inode_at g i \<noteq> None \<and> length v \<le> 65536")
  case False
  then show ?thesis
    by (cases rule: require_cap_cases [of g WRITE]; cases "inode_at g i")
       (auto simp: setxattr_def contains_inode_view [OF wf c])
next
  case True
  show ?thesis
  proof (cases "find_xattr (xattrs g) ns n (mi_get (inode_xattrs g) i)")
    case (Some p)
    obtain x xa where p: "p = (x, xa)" by (cases p)
    have "setxattr clk g i ns n v = (Ok x, g\<lparr>xattrs := bmap_modify x (\<lambda>xa. xa\<lparr>xattr_value := v\<rparr>) (xattrs g)\<rparr>)"
      using True Some by (simp add: setxattr_def contains_inode_view [OF wf c] p)
    then show ?thesis using xattr_update [OF ok Some [unfolded p], of v] wf True by simp
  next
    case None
    let ?e = "next_edge g" and ?x = "next_xattr g"
    let ?y = "HasXattr ?e i ?x"
    let ?xs = "bmap_insert ?x \<lparr>xattr_id = ?x, xattr_namespace = ns, xattr_name = n, xattr_value = v\<rparr> (xattrs g)"
    let ?g1 = "insert_edge ?e ?y (g\<lparr>next_xattr := ?x + 1, next_edge := ?e + 1, xattrs := ?xs\<rparr>)"
    let ?g' = "?g1\<lparr>inode_xattrs := mi_add i ?x (inode_xattrs ?g1)\<rparr>"
    have "plain_edge ?y" "edge_id ?y = ?e" by simp_all
    note step = well_formed_next_xattr_edge [OF wf cap(1) this, where nx = "?x + 1" and xs = ?xs and i = i and z = ?x]
    have "setxattr clk g i ns n v = (Ok ?x, record_prov (clk 0) PSetxattr i n ?g')"
      using True None cap
      by (simp add: setxattr_def contains_inode_view [OF wf c] alloc_xattr_id_def alloc_edge_id_def
          succ_u64_small succ_u64_def [of ?x] Let_def)
    moreover have "edge_at g ?e = None" by (rule fresh_edge [OF well_formedD(1) [OF wf]]) simp
    then have "xattrs_ok ?g'" "xattr_set i (ns, n) (Some v) g ?g'"
      using xattr_add [OF ok None, where g' = ?g' and v = v and e = ?e] step by simp_all
    moreover have "xattrs_ok (record_prov (clk 0) PSetxattr i n ?g') = xattrs_ok ?g'"
      "xattr_set i (ns, n) (Some v) g (record_prov (clk 0) PSetxattr i n ?g') = xattr_set i (ns, n) (Some v) g ?g'"
      by (simp_all add: record_prov_def Let_def xattrs_ok_def xattr_edges_exact_def xattr_ids_bound_def
          xattr_names_unique_def xattr_set_def xattr_of_def split: option.split)
    ultimately show ?thesis using True step by (simp add: frame_simps)
  qed
qed

section \<open>Removing an attribute\<close>

lemma xattr_del:
  assumes ok: "xattrs_ok g" and x: "x \<in> xattr_ids g i" "bmap_get (xattrs g) x = Some xa" "named ns n xa"
    and X: "xattrs g' = bmap_remove x (xattrs g)" and I: "inode_xattrs g' = mi_del i x (inode_xattrs g)"
    and E: "edge_at g' = (edge_at g)(e := None)" "edge_at g e = Some (HasXattr e i x)"
    and N: "next_xattr g' = next_xattr g"
  shows "xattrs_ok g'" and "xattr_set i (ns, n) None g g'"
proof -
  note okD = xattrs_okD [OF ok]
  have elsewhere: "x \<notin> xattr_ids g j" if "j \<noteq> i" for j using okD(7) x(1) that by blast
  have ids: "y \<in> xattr_ids g' j \<longleftrightarrow> y \<in> xattr_ids g j \<and> y \<noteq> x" for y j
    using elsewhere [of j] by (auto simp: I mi_get_del)
  have get: "bmap_get (xattrs g') y = Some ya \<longleftrightarrow> bmap_get (xattrs g) y = Some ya \<and> y \<noteq> x" for y ya
    by (simp add: X)
  have edge: "edge_at g' a = Some (HasXattr a j y) \<longleftrightarrow> edge_at g a = Some (HasXattr a j y) \<and> y \<noteq> x" for a j y
  proof (cases "a = e")
    case False
    then have "edge_at g a \<noteq> Some (HasXattr a j x)" using okD(3) [OF _ E(2)] by blast
    then show ?thesis using False by (auto simp: E(1))
  qed (simp add: E)
  have "xattr_edges_exact g'"
    unfolding xattr_edges_exact_def ids edge using okD(2,3) by blast
  moreover have "xattr_ids_bound g'"
    unfolding xattr_ids_bound_def ids N using okD(4,5) by (auto simp: X)
  moreover have "xattr_names_unique g'"
    unfolding xattr_names_unique_def ids get using okD(6) by blast
  ultimately show ok': "xattrs_ok g'"
    using okD(1) unfolding xattrs_ok_def by (simp add: I mi.inv_del)
  show "xattr_set i (ns, n) None g g'"
    unfolding xattr_set_def
  proof (intro allI)
    fix j and l :: "xattr_namespace \<times> string"
    obtain ms m where l: "l = (ms, m)" by (cases l)
    have mine: "y = x" if "y \<in> xattr_ids g i" "bmap_get (xattrs g) y = Some ya" "named ns n ya" for y ya
      using okD(6) [OF that(1) x(1) that(2) x(2) that(3) x(3)] .
    have "xattr_of g' j (ms, m) = (if j = i \<and> (ms, m) = (ns, n) then None else xattr_of g j (ms, m))"
    proof (rule xattr_ofI [OF ok'])
      fix w
      have hit: "y = x \<longleftrightarrow> j = i \<and> (ms, m) = (ns, n)"
        if "y \<in> xattr_ids g j" "bmap_get (xattrs g) y = Some ya" "named ms m ya" for y ya
      proof
        assume "y = x"
        then show "j = i \<and> (ms, m) = (ns, n)" using that x elsewhere [of j] by (auto simp: named_def)
      next
        assume "j = i \<and> (ms, m) = (ns, n)"
        then show "y = x" using that mine by blast
      qed
      have "y \<in> xattr_ids g' j \<and> bmap_get (xattrs g') y = Some ya \<and> named ms m ya \<and> xattr_value ya = w \<longleftrightarrow>
          (y \<in> xattr_ids g j \<and> bmap_get (xattrs g) y = Some ya \<and> named ms m ya \<and> xattr_value ya = w) \<and>
          \<not> (j = i \<and> (ms, m) = (ns, n))" for y ya
        unfolding ids get using hit [of y ya] by blast
      then show "(\<exists>y ya. y \<in> xattr_ids g' j \<and> bmap_get (xattrs g') y = Some ya \<and> named ms m ya \<and> xattr_value ya = w)
          \<longleftrightarrow> (if j = i \<and> (ms, m) = (ns, n) then None else xattr_of g j (ms, m)) = Some w"
        unfolding if_distrib [of "\<lambda>r. r = Some w"] xattr_of_iff [OF ok] by simp
    qed
    then show "xattr_of g' j l = (if j = i \<and> l = (ns, n) then None else xattr_of g j l)"
      by (simp only: l)
  qed
qed

lemma removexattr_contract:
  assumes wf: "well_formed g" and ok: "xattrs_ok g" and c: "canonical i"
  shows "case removexattr clk g i ns n of
      (Ok _, g') \<Rightarrow>
        require_cap g WRITE = Ok () \<and> fs_inode (fs_of g) i \<noteq> None \<and> xattr_of g i (ns, n) \<noteq> None \<and>
        well_formed g' \<and> fs_of g' = fs_of g \<and> xattrs_ok g' \<and> xattr_set i (ns, n) None g g' \<and>
        quotas g' = quotas g
    | (Err e, g') \<Rightarrow> g' = g \<and>
        (require_cap g WRITE = Err e \<or> fs_inode (fs_of g) i = None \<and> e = InodeNotFound i \<or>
         xattr_of g i (ns, n) = None \<and> e = XAttrNotFound n)
    | _ \<Rightarrow> False"
proof (cases "require_cap g WRITE = Ok () \<and> inode_at g i \<noteq> None")
  case False
  then show ?thesis
    by (cases rule: require_cap_cases [of g WRITE]; cases "inode_at g i")
       (auto simp: removexattr_def contains_inode_view [OF wf c])
next
  case True
  note edges = well_formedD(3) [OF wf]
  show ?thesis
  proof (cases "find_xattr (xattrs g) ns n (mi_get (inode_xattrs g) i)")
    case None
    then show ?thesis using True by (simp add: removexattr_def contains_inode_view [OF wf c] xattr_of_def)
  next
    case (Some p)
    obtain x xa where p: "p = (x, xa)" by (cases p)
    have x: "x \<in> xattr_ids g i" "bmap_get (xattrs g) x = Some xa" "named ns n xa"
      using find_xattr_Some [OF Some [unfolded p]] by auto
    obtain e where e: "edge_at g e = Some (HasXattr e i x)" using xattrs_okD(2) [OF ok] x(1) by blast
    have keys: "a \<in> set (ar_keys (edges g)) \<longleftrightarrow> edge_at g a \<noteq> None" for a
      using ar.entries_get [OF edges_okD(1) [OF edges]]
      by (force simp: ar_keys_iter [OF edges_okD(1) [OF edges]])
    have "find (is_xattr_edge g i x) (ar_keys (edges g)) \<noteq> None"
      using e keys by (auto simp: find_None_iff is_xattr_edge_def)
    then obtain a where a: "find (is_xattr_edge g i x) (ar_keys (edges g)) = Some a" by blast
    then have "is_xattr_edge g i x a" by (auto simp: find_Some_iff)
    then obtain b where "edge_at g a = Some (HasXattr b i x)"
      by (auto simp: is_xattr_edge_def split: option.splits edge.splits)
    moreover from this have "b = a" using edges_okD(11) [OF edges, of a] by auto
    ultimately have a_e: "edge_at g a = Some (HasXattr a i x)" by simp
    let ?g1 = "g\<lparr>xattrs := bmap_remove x (xattrs g), inode_xattrs := mi_del i x (inode_xattrs g)\<rparr>"
    let ?g' = "snd (remove_edge a ?g1)"
    have wf1: "well_formed ?g1" using wf by simp
    have e1: "edge_at ?g1 a = Some (HasXattr a i x)" using a_e by simp
    have pl: "plain_edge (HasXattr a i x)" by simp
    note step = del_plain_edge [OF wf1 e1 pl]
    have frame: "inode_xattrs ?g' = mi_del i x (inode_xattrs g)" "xattrs ?g' = bmap_remove x (xattrs g)"
      "next_xattr ?g' = next_xattr g" "quotas ?g' = quotas g"
      by (subst step(2), simp)+
    have at: "edge_at ?g' = (edge_at g)(a := None)" "well_formed ?g'" "fs_of ?g' = fs_of g"
      using step by simp_all
    note del = xattr_del [OF ok x frame(2,1) at(1) a_e frame(3)]
    have "is_xattr_edge ?g1 i x = is_xattr_edge g i x" by (simp add: is_xattr_edge_def fun_eq_iff)
    then have "removexattr clk g i ns n = (Ok (), record_prov (clk 0) PRemovexattr i n ?g')"
      using True Some a by (simp add: removexattr_def contains_inode_view [OF wf c] p Let_def)
    moreover have "xattrs_ok (record_prov (clk 0) PRemovexattr i n ?g') = xattrs_ok ?g'"
      "xattr_set i (ns, n) None g (record_prov (clk 0) PRemovexattr i n ?g') = xattr_set i (ns, n) None g ?g'"
      by (simp_all add: record_prov_def Let_def xattrs_ok_def xattr_edges_exact_def xattr_ids_bound_def
          xattr_names_unique_def xattr_set_def xattr_of_def split: option.split)
    ultimately show ?thesis using True at del frame(4) Some by (simp add: frame_simps xattr_of_def)
  qed
qed

end
