(* ===== verification/Sotfs_Frames.thy ===== *)
theory Sotfs_Frames
  imports Sotfs_Rename Sotfs_Attributes
begin

text \<open>
  What the operations leave alone: no operation touches the capability context, and the operations
  on the tree leave capabilities, contents and attributes alone and move the counters by known
  amounts.
\<close>

section \<open>The quota walk only writes quotas\<close>

lemma update_quota_loop_frame:
  assumes "update_quota_loop di db g d = Some g'"
  shows "\<exists>q. g' = g\<lparr>quotas := q\<rparr>"
proof (rule update_quota_loop.raw_induct [where P = "\<lambda>di db g d g'. \<exists>q. g' = g\<lparr>quotas := q\<rparr>", OF _ assms],
    goal_cases)
  case (1 loop di db g d g')
  let ?g = "g\<lparr>quotas := bmap_modify d (quota_apply di db) (quotas g)\<rparr>"
  show ?case
  proof (cases "parent_dir g d = None \<or> parent_dir g d = Some d")
    case True
    then have "g' = ?g" using 1(2) by (auto simp: Let_def)
    then show ?thesis by blast
  next
    case False
    then obtain p where p: "parent_dir g d = Some p" "p \<noteq> d" by auto
    then have "loop di db ?g p = Some g'" using 1(2) by (simp add: Let_def)
    then obtain q where "g' = ?g\<lparr>quotas := q\<rparr>" using 1(1) by blast
    then show ?thesis by auto
  qed
qed

lemma update_quota_frame: "update_quota g d di db = Some g' \<Longrightarrow> \<exists>q. g' = g\<lparr>quotas := q\<rparr>"
  unfolding update_quota_def by (rule update_quota_loop_frame)

section \<open>Untouched fields\<close>

text \<open>Everything outside the tree, the quotas and the log.\<close>

definition same_rest :: "type_graph \<Rightarrow> type_graph \<Rightarrow> bool" where
  "same_rest g g' \<longleftrightarrow>
     caps g' = caps g \<and> cap_ctx g' = cap_ctx g \<and> next_cap g' = next_cap g \<and>
     cap_grants g' = cap_grants g \<and> cap_parent g' = cap_parent g \<and> transactions g' = transactions g \<and>
     versions g' = versions g \<and> acls g' = acls g \<and>
     file_data g' = file_data g \<and> xattrs g' = xattrs g \<and> inode_xattrs g' = inode_xattrs g \<and>
     next_xattr g' = next_xattr g \<and> symlink_targets g' = symlink_targets g \<and> next_block g' = next_block g \<and>
     root_dir g' = root_dir g \<and> root_inode g' = root_inode g"

lemma same_rest_refl [simp]: "same_rest g g"
  by (simp add: same_rest_def)

lemma same_rest_trans: "same_rest g h \<Longrightarrow> same_rest h k \<Longrightarrow> same_rest g k"
  by (simp add: same_rest_def)

lemma same_rest_require_cap: "same_rest g g' \<Longrightarrow> require_cap g' r = require_cap g r"
  by (cases "ctx_cap_id (cap_ctx g)") (simp_all add: same_rest_def require_cap_def get_cap_def)

lemma rest_fields [simp]:
  "same_rest g (g'\<lparr>quotas := q\<rparr>) = same_rest g g'"
  "same_rest g (record_prov t op i s g') = same_rest g g'"
  "same_rest g (g'\<lparr>next_edge := k\<rparr>) = same_rest g g'" "same_rest g (g'\<lparr>next_inode := k\<rparr>) = same_rest g g'"
  "same_rest g (g'\<lparr>next_dir := k\<rparr>) = same_rest g g'"
  "same_rest g (insert_inode i x g') = same_rest g g'" "same_rest g (insert_dir d y g') = same_rest g g'"
  "same_rest g (attach_contains e d i n g') = same_rest g g'"
  by (simp_all add: same_rest_def record_prov_def Let_def insert_inode_def insert_dir_def attach_contains_def
      insert_edge_def split: option.split)

lemma counter_fields [simp]:
  "next_inode (insert_inode i x g) = next_inode g" "next_dir (insert_inode i x g) = next_dir g"
  "next_edge (insert_inode i x g) = next_edge g" "next_inode (insert_dir d y g) = next_inode g"
  "next_dir (insert_dir d y g) = next_dir g" "next_edge (insert_dir d y g) = next_edge g"
  by (simp_all add: insert_inode_def insert_dir_def)

lemma returns_frame:
  assumes "returns (update_quota g d di db) g k = (Ok r, g')"
  obtains q where "k (g\<lparr>quotas := q\<rparr>) = (Ok r, g')"
  using assms update_quota_frame [of g d di db] by (cases "update_quota g d di db") auto

lemma try_res_Ok: "try_res r g k = (Ok x, g') \<Longrightarrow> \<exists>y. r = Ok y \<and> k y = (Ok x, g')"
  by (cases r) simp_all

lemma create_file_frame:
  assumes "create_file clk g d n u gi p = (Ok i, g')"
  shows "same_rest g g'" "next_inode g' = succ_u64 (next_inode g)" "next_dir g' = next_dir g"
    "next_edge g' = succ_u64 (next_edge g)"
  using assms
  by (auto simp: create_file_def alloc_inode_id_def alloc_edge_id_def Let_def frame_simps
      dest!: try_res_Ok elim!: returns_frame split: if_splits)

lemma mkdir_frame:
  assumes "mkdir clk g d n u gi p = (Ok r, g')"
  shows "same_rest g g'" "next_inode g' = succ_u64 (next_inode g)" "next_dir g' = succ_u64 (next_dir g)"
    "next_edge g' = succ_u64 (succ_u64 (succ_u64 (next_edge g)))"
  using assms
  by (auto simp: mkdir_def alloc_inode_id_def alloc_dir_id_def alloc_edge_id_def Let_def frame_simps
      dest!: try_res_Ok elim!: returns_frame split: if_splits)

section \<open>Success\<close>

lemma no_quotas: "well_formed g \<Longrightarrow> quotas g = [] \<Longrightarrow> check_quota_inode g d = Ok ()"
  using check_quota_inode_spec [of g d] by auto

text \<open>With the guards satisfied and no quotas configured the two creating operations succeed.\<close>

lemma create_file_runs:
  assumes wf: "well_formed g" "quotas g = []" "require_cap g WRITE = Ok ()" "canonical d"
    and cap: "next_inode g < NODE_CAPACITY" "next_edge g < EDGE_CAPACITY"
    and n: "\<not> bad_name n" "fs_name (fs_of g) (d, n) = None" "fs_dir (fs_of g) d \<noteq> None"
  shows "create_file clk g d n u gi p = (Ok (next_inode g), snd (create_file clk g d n u gi p))"
proof -
  obtain r g' where r: "create_file clk g d n u gi p = (r, g')"
    by (cases "create_file clk g d n u gi p")
  then show ?thesis
    using create_file_contract [OF wf(1,4) cap, where clk = clk and n = n and u = u and gi = gi and p = p]
      wf n no_quotas [OF wf(1,2), of d]
    by (cases r) (simp_all del: fs_of_simps)
qed

lemma mkdir_runs:
  assumes wf: "well_formed g" "quotas g = []" "require_cap g WRITE = Ok ()" "canonical d"
    and cap: "next_inode g < NODE_CAPACITY" "next_dir g < NODE_CAPACITY" "next_edge g + 2 < EDGE_CAPACITY"
    and n: "\<not> bad_name n" "fs_name (fs_of g) (d, n) = None" "fs_dir (fs_of g) d \<noteq> None"
  shows "mkdir clk g d n u gi p =
    (Ok \<lparr>cr_inode_id = next_inode g, cr_dir_id = Some (next_dir g)\<rparr>, snd (mkdir clk g d n u gi p))"
proof -
  obtain r g' where r: "mkdir clk g d n u gi p = (r, g')"
    by (cases "mkdir clk g d n u gi p")
  then show ?thesis
    using mkdir_contract [OF wf(1,4) cap, where clk = clk and n = n and u = u and gi = gi and p = p]
      wf n no_quotas [OF wf(1,2), of d]
    by (cases r) (simp_all del: fs_of_simps)
qed

end
