(* ===== verification/Sotfs_Examples.thy ===== *)
theory Sotfs_Examples
  imports Sotfs_Frames
begin

text \<open>
  Four small concrete graphs, built by running the model: the fresh file system, one with a file,
  one with a subdirectory and one with both.
\<close>

lemma room: "2 < NODE_CAPACITY" "3 < NODE_CAPACITY" "2 < EDGE_CAPACITY" "3 < EDGE_CAPACITY" "4 < EDGE_CAPACITY"
  "5 < EDGE_CAPACITY" "6 < EDGE_CAPACITY"
  by (simp_all add: NODE_CAPACITY_def EDGE_CAPACITY_def)

definition root_graph :: type_graph where
  "root_graph = new_boxed (\<lambda>_. 0)"

definition file_graph :: type_graph where
  "file_graph = snd (create_file (\<lambda>_. 0) root_graph 1 ''a'' 0 0 420)"

definition dir_graph :: type_graph where
  "dir_graph = snd (mkdir (\<lambda>_. 0) root_graph 1 ''d'' 0 0 493)"

definition both_graph :: type_graph where
  "both_graph = snd (mkdir (\<lambda>_. 0) file_graph 1 ''d'' 0 0 493)"

section \<open>The fresh file system\<close>

lemma root_graph_ok: "well_formed root_graph"
  unfolding root_graph_def by (rule new_boxed_well_formed)

lemma root_graph_rest: "same_rest empty_graph root_graph"
  by (simp add: root_graph_def new_boxed_steps)

lemma root_graph_facts:
  "require_cap root_graph r = Ok ()" "next_inode root_graph = 2" "next_dir root_graph = 2"
  "next_edge root_graph = 2" "next_block root_graph = 1" "fs_dir (fs_of root_graph) 1 = Some 1"
  "next_xattr root_graph = 1" "next_cap root_graph = 1" "fs_name (fs_of root_graph) = [(1, ''.'') \<mapsto> 1]"
  "quotas root_graph = []" "file_data root_graph = []" "inode_xattrs root_graph = []"
  "blocks root_graph = ar_new NODE_CAPACITY"
proof -
  have "require_cap empty_graph r = Ok ()"
    by (simp add: require_cap_def empty_graph_def cap_context_anonymous_def)
  then show "require_cap root_graph r = Ok ()"
    using same_rest_require_cap [OF root_graph_rest] by simp
  show "next_block root_graph = 1" "next_xattr root_graph = 1" "next_cap root_graph = 1"
    "file_data root_graph = []" "inode_xattrs root_graph = []"
    using root_graph_rest by (simp_all add: same_rest_def empty_graph_def)
  show "next_inode root_graph = 2" "next_dir root_graph = 2" "next_edge root_graph = 2"
    "quotas root_graph = []" "blocks root_graph = ar_new NODE_CAPACITY"
    by (simp_all add: root_graph_def new_boxed_steps frame_simps)
       (simp_all add: insert_dir_def insert_inode_def empty_graph_def)
  show "fs_dir (fs_of root_graph) 1 = Some 1" "fs_name (fs_of root_graph) = [(1, ''.'') \<mapsto> 1]"
    using new_boxed_view [of "\<lambda>_. 0"] by (simp_all add: root_graph_def del: fs_of_simps)
qed

lemma small_canonical: "canonical 1" "canonical 2"
  by (simp_all add: canonical_def)

lemma root_graph_inode: "fs_inode (fs_of root_graph) 1 \<noteq> None"
  using new_boxed_view [of "\<lambda>_. 0"] by (simp add: root_graph_def del: fs_of_simps)

lemma root_graph_edges: "edge_at root_graph = [1 \<mapsto> Contains 1 1 1 ''.'']"
  by (simp add: root_graph_def new_boxed_def empty_graph_def Let_def id_to_arena_def ar_insert_at_def
      ar_get_def ar_new_def EDGE_CAPACITY_def fun_eq_iff)

lemma root_graph_xattrs: "xattrs_ok root_graph"
  by (simp add: xattrs_ok_def xattr_edges_exact_def xattr_ids_bound_def xattr_names_unique_def root_graph_facts
      root_graph_edges mi_ok_def)

section \<open>With a file\<close>

lemma file_graph_run: "create_file (\<lambda>_. 0) root_graph 1 ''a'' 0 0 420 = (Ok 2, file_graph)"
  unfolding file_graph_def
  by (rule create_file_runs [of root_graph, unfolded root_graph_facts])
     (simp_all add: root_graph_ok root_graph_facts small_canonical room bad_name_def del: fs_of_simps)

lemma file_graph_ok:
  "well_formed file_graph"
  "fs_of file_graph = fs_create 1 ''a'' 2 ((new_file 0 2 420 0 0)\<lparr>link_count := 1\<rparr>) (fs_of root_graph)"
proof -
  have "next_inode root_graph < NODE_CAPACITY" "next_edge root_graph < EDGE_CAPACITY"
    by (simp_all add: root_graph_facts NODE_CAPACITY_def EDGE_CAPACITY_def)
  from create_file_contract [OF root_graph_ok small_canonical(1) this, where clk = "\<lambda>_. 0" and n = "''a''" and u = 0 and gi = 0 and p = 420]
  show "well_formed file_graph"
    "fs_of file_graph = fs_create 1 ''a'' 2 ((new_file 0 2 420 0 0)\<lparr>link_count := 1\<rparr>) (fs_of root_graph)"
    unfolding file_graph_run by simp_all
qed

lemma file_graph_quotas: "quotas file_graph = []"
proof -
  have "bmap_get (quotas file_graph) = quotas_after (quota_apply 1 0) root_graph 1"
    using create_file_contract [OF root_graph_ok small_canonical(1), where clk = "\<lambda>_. 0" and n = "''a''"
        and u = 0 and gi = 0 and p = 420] file_graph_run root_graph_facts room
    by simp
  also have "\<dots> = Map.empty" by (simp add: quotas_after_def root_graph_facts fun_eq_iff)
  finally show ?thesis by simp
qed

lemma file_graph_facts:
  "require_cap file_graph r = Ok ()" "next_inode file_graph = 3" "next_dir file_graph = 2"
  "next_edge file_graph = 3" "next_block file_graph = 1" "next_xattr file_graph = 1" "next_cap file_graph = 1"
  "file_data file_graph = []" "inode_xattrs file_graph = []" "quotas file_graph = []"
  using create_file_frame [OF file_graph_run] root_graph_facts same_rest_require_cap [of root_graph file_graph]
    file_graph_quotas
  by (simp_all add: same_rest_def succ_u64_def)

lemma file_graph_view:
  "fs_name (fs_of file_graph) = [(1, ''.'') \<mapsto> 1, (1, ''a'') \<mapsto> 2]" "fs_dir (fs_of file_graph) 1 = Some 1"
  "fs_inode (fs_of file_graph) 2 = Some ((new_file 0 2 420 0 0)\<lparr>link_count := 1\<rparr>)"
  unfolding file_graph_ok(2) using root_graph_facts(6,9) by (simp_all add: fs_create_def)

lemma file_graph_leaf: "\<not> is_dir (fs_of file_graph) 2"
  using file_graph_view(3) by (simp add: is_dir_def new_file_def)

section \<open>With a subdirectory\<close>

lemma dir_graph_run:
  "mkdir (\<lambda>_. 0) root_graph 1 ''d'' 0 0 493 = (Ok \<lparr>cr_inode_id = 2, cr_dir_id = Some 2\<rparr>, dir_graph)"
  unfolding dir_graph_def
  by (rule mkdir_runs [of root_graph, unfolded root_graph_facts])
     (simp_all add: root_graph_ok root_graph_facts small_canonical room bad_name_def del: fs_of_simps)

lemma dir_graph_ok:
  "well_formed dir_graph"
  "fs_of dir_graph = fs_mkdir 1 ''d'' 2 2 ((new_dir 0 2 493 0 0)\<lparr>link_count := 2\<rparr>) 1 (fs_of root_graph)"
proof -
  have "next_inode root_graph < NODE_CAPACITY" "next_dir root_graph < NODE_CAPACITY"
    "next_edge root_graph + 2 < EDGE_CAPACITY"
    by (simp_all add: root_graph_facts NODE_CAPACITY_def EDGE_CAPACITY_def)
  from mkdir_contract [OF root_graph_ok small_canonical(1) this, where clk = "\<lambda>_. 0" and n = "''d''" and u = 0 and gi = 0 and p = 493]
  show "well_formed dir_graph"
    "fs_of dir_graph = fs_mkdir 1 ''d'' 2 2 ((new_dir 0 2 493 0 0)\<lparr>link_count := 2\<rparr>) 1 (fs_of root_graph)"
    unfolding dir_graph_run using root_graph_facts by (simp_all del: fs_of_simps)
qed

lemma dir_graph_facts:
  "require_cap dir_graph r = Ok ()" "next_inode dir_graph = 3" "next_edge dir_graph = 5"
  using mkdir_frame [OF dir_graph_run] root_graph_facts same_rest_require_cap [of root_graph dir_graph]
  by (simp_all add: succ_u64_def)

lemma dir_graph_view:
  "fs_name (fs_of dir_graph) = [(1, ''.'') \<mapsto> 1, (1, ''d'') \<mapsto> 2, (2, ''.'') \<mapsto> 2, (2, ''..'') \<mapsto> 1]"
  "fs_dir (fs_of dir_graph) 1 = Some 1" "fs_dir (fs_of dir_graph) 2 = Some 2"
  unfolding dir_graph_ok(2) using root_graph_facts(6,9) by (simp_all add: fs_mkdir_def)

section \<open>With a file and a subdirectory\<close>

lemma both_graph_run:
  "mkdir (\<lambda>_. 0) file_graph 1 ''d'' 0 0 493 = (Ok \<lparr>cr_inode_id = 3, cr_dir_id = Some 2\<rparr>, both_graph)"
  unfolding both_graph_def
  by (rule mkdir_runs [of file_graph, unfolded file_graph_facts])
     (simp_all add: file_graph_ok(1) file_graph_facts file_graph_view small_canonical room bad_name_def
        del: fs_of_simps)

lemma both_graph_ok:
  "well_formed both_graph"
  "fs_of both_graph = fs_mkdir 1 ''d'' 3 2 ((new_dir 0 3 493 0 0)\<lparr>link_count := 2\<rparr>) 1 (fs_of file_graph)"
proof -
  have "next_inode file_graph < NODE_CAPACITY" "next_dir file_graph < NODE_CAPACITY"
    "next_edge file_graph + 2 < EDGE_CAPACITY"
    by (simp_all add: file_graph_facts NODE_CAPACITY_def EDGE_CAPACITY_def)
  from mkdir_contract [OF file_graph_ok(1) small_canonical(1) this, where clk = "\<lambda>_. 0" and n = "''d''" and u = 0 and gi = 0 and p = 493]
  show "well_formed both_graph"
    "fs_of both_graph = fs_mkdir 1 ''d'' 3 2 ((new_dir 0 3 493 0 0)\<lparr>link_count := 2\<rparr>) 1 (fs_of file_graph)"
    unfolding both_graph_run using file_graph_facts file_graph_view by (simp_all del: fs_of_simps)
qed

lemma both_graph_facts: "require_cap both_graph r = Ok ()" "next_edge both_graph = 6"
  using mkdir_frame [OF both_graph_run] file_graph_facts same_rest_require_cap [of file_graph both_graph]
  by (simp_all add: succ_u64_def)

lemma both_graph_view:
  "fs_name (fs_of both_graph) =
     [(1, ''.'') \<mapsto> 1, (1, ''a'') \<mapsto> 2, (1, ''d'') \<mapsto> 3, (2, ''.'') \<mapsto> 3, (2, ''..'') \<mapsto> 1]"
  "fs_dir (fs_of both_graph) 2 = Some 3"
  "fs_inode (fs_of both_graph) 2 = Some ((new_file 0 2 420 0 0)\<lparr>link_count := 1\<rparr>)"
  unfolding both_graph_ok(2) using file_graph_view by (simp_all add: fs_mkdir_def)

end
