(* ===== verification/Sotfs_Operations.thy ===== *)
theory Sotfs_Operations
  imports Sotfs_Examples
begin

text \<open>
  What the operations of \<open>sotfs-ops/src/lib.rs\<close> promise, one theorem each, with an application to a
  concrete graph.  The proofs are in the theories of the components.
\<close>

text \<open>
  C5: on a well-formed graph with room left, \<open>create_file\<close> returns.  It succeeds only when the write
  right, the name, the parent directory and the quotas of every ancestor allow it, and then adds
  exactly one inode with one link under the next free number and charges every ancestor's quota; an
  error leaves the graph as it was and names the guard that failed.
\<close>

theorem create_file_correct:
  assumes wf: "well_formed g" and c: "canonical d"
    and cap: "next_inode g < NODE_CAPACITY" "next_edge g < EDGE_CAPACITY"
  shows "case create_file clk g d n u gi p of
      (Ok i, g') \<Rightarrow>
        require_cap g WRITE = Ok () \<and> \<not> bad_name n \<and> fs_dir (fs_of g) d \<noteq> None \<and>
        fs_name (fs_of g) (d, n) = None \<and> check_quota_inode g d = Ok () \<and>
        i = next_inode g \<and> well_formed g' \<and>
        fs_of g' = fs_create d n i ((new_file (clk 0) i p u gi)\<lparr>link_count := 1\<rparr>) (fs_of g) \<and>
        bmap_get (quotas g') = quotas_after (quota_apply 1 0) g d
    | (Err e, g') \<Rightarrow> g' = g \<and>
        (require_cap g WRITE = Err e \<or> bad_name n \<and> e = NameNotFound n \<or>
         fs_name (fs_of g) (d, n) \<noteq> None \<and> e = NameExists d n \<or>
         fs_dir (fs_of g) d = None \<and> e = DirNotFound d \<or> check_quota_inode g d = Err e)
    | _ \<Rightarrow> False"
  by (rule create_file_contract [OF assms])

theorem create_file_correct_witness:
  "\<exists>g'. create_file (\<lambda>_. 0) root_graph 1 ''a'' 0 0 420 = (Ok 2, g') \<and> well_formed g' \<and>
     fs_name (fs_of g') (1, ''a'') = Some 2"
  using create_file_correct [OF root_graph_ok small_canonical(1), where clk = "\<lambda>_. 0" and n = "''a''"
      and u = 0 and gi = 0 and p = 420] file_graph_run
  by (simp add: root_graph_facts room fs_create_def del: fs_of_simps)

text \<open>
  C6: on a well-formed graph with room left, \<open>mkdir\<close> returns.  A success adds one directory inode
  with two links, its directory and the three entries (the name, \<open>.\<close> and \<open>..\<close>), and charges the
  quotas of all ancestors; an error leaves the graph as it was.
\<close>

theorem mkdir_correct:
  assumes wf: "well_formed g" and c: "canonical d"
    and cap: "next_inode g < NODE_CAPACITY" "next_dir g < NODE_CAPACITY" "next_edge g + 2 < EDGE_CAPACITY"
  shows "case mkdir clk g d n u gi p of
      (Ok r, g') \<Rightarrow>
        require_cap g WRITE = Ok () \<and> \<not> bad_name n \<and> fs_name (fs_of g) (d, n) = None \<and>
        check_quota_inode g d = Ok () \<and> r = \<lparr>cr_inode_id = next_inode g, cr_dir_id = Some (next_dir g)\<rparr> \<and>
        well_formed g' \<and>
        (\<exists>j. fs_dir (fs_of g) d = Some j \<and>
             fs_of g' = fs_mkdir d n (next_inode g) (next_dir g)
               ((new_dir (clk 0) (next_inode g) p u gi)\<lparr>link_count := 2\<rparr>) j (fs_of g)) \<and>
        bmap_get (quotas g') = quotas_after (quota_apply 1 0) g d
    | (Err e, g') \<Rightarrow> g' = g \<and>
        (require_cap g WRITE = Err e \<or> bad_name n \<and> e = NameNotFound n \<or>
         fs_name (fs_of g) (d, n) \<noteq> None \<and> e = NameExists d n \<or>
         fs_dir (fs_of g) d = None \<and> e = DirNotFound d \<or> check_quota_inode g d = Err e)
    | _ \<Rightarrow> False"
  by (rule mkdir_contract [OF assms])

theorem mkdir_correct_witness:
  "\<exists>r g'. mkdir (\<lambda>_. 0) root_graph 1 ''d'' 0 0 493 = (Ok r, g') \<and> well_formed g' \<and>
     fs_name (fs_of g') (2, ''..'') = Some 1"
  using mkdir_correct [OF root_graph_ok small_canonical(1), where clk = "\<lambda>_. 0" and n = "''d''"
      and u = 0 and gi = 0 and p = 493] dir_graph_run dir_graph_view(1)
  by (simp add: root_graph_facts room)

text \<open>
  C7: \<open>rmdir\<close> returns on every well-formed graph.  It succeeds exactly on an entry that leads to a
  directory without entries of its own other than \<open>.\<close> and \<open>..\<close>; then inode, directory and the three
  entries are gone, every ancestor's quota is credited and the graph is well-formed again.
\<close>

theorem rmdir_correct:
  assumes wf: "well_formed g"
  shows "case rmdir clk g d n of
      (Ok _, g') \<Rightarrow>
        require_cap g WRITE = Ok () \<and> user_name n \<and> well_formed g' \<and> next_edge g' = next_edge g \<and>
        (\<exists>t c. fs_name (fs_of g) (d, n) = Some t \<and> fs_dir (fs_of g) c = Some t \<and>
               (\<forall>m. user_name m \<longrightarrow> fs_name (fs_of g) (c, m) = None) \<and>
               fs_of g' = fs_rmdir d n t c (fs_of g)) \<and>
        bmap_get (quotas g') = quotas_after (quota_apply (- 1) 0) g d
    | (Err e, g') \<Rightarrow> g' = g \<and>
        (require_cap g WRITE = Err e \<or> \<not> user_name n \<and> e = NameNotFound n \<or>
         fs_name (fs_of g) (d, n) = None \<and> e = NameNotFound n \<or>
         (\<exists>t. fs_name (fs_of g) (d, n) = Some t \<and> \<not> is_dir (fs_of g) t \<and> e = NotADirectory t) \<or>
         (\<exists>t c m. fs_name (fs_of g) (d, n) = Some t \<and> fs_dir (fs_of g) c = Some t \<and>
                  user_name m \<and> fs_name (fs_of g) (c, m) \<noteq> None \<and> e = DirNotEmpty c))
    | _ \<Rightarrow> False"
  by (rule rmdir_contract [OF assms])

theorem rmdir_correct_witness:
  "well_formed dir_graph \<and>
   (case rmdir (\<lambda>_. 0) dir_graph 1 ''d'' of
      (Ok _, g') \<Rightarrow> well_formed g' \<and> fs_dir (fs_of g') 2 = None
    | _ \<Rightarrow> False)"
proof -
  have "is_dir (fs_of dir_graph) 2"
    using fs_ok_dir(1) [OF well_formedD(2) [OF dir_graph_ok(1)] dir_graph_view(3)] .
  moreover have "c = 2" if "fs_dir (fs_of dir_graph) c = Some 2" for c
    using fs_ok_dir(3) [OF well_formedD(2) [OF dir_graph_ok(1)] that dir_graph_view(3)] .
  ultimately show ?thesis
    using rmdir_correct [OF dir_graph_ok(1), where clk = "\<lambda>_. 0" and d = 1 and n = "''d''"]
    by (auto simp: dir_graph_ok(1) dir_graph_facts dir_graph_view user_name_def fs_rmdir_def
        split: res.splits prod.splits if_splits simp del: fs_of_simps)
qed

text \<open>
  C9: with the directory present, \<open>link\<close> adds the name and one link to a non-directory inode that has
  fewer than \<open>LINK_MAX\<close> links, and refuses an existing name, a missing inode, a directory and an
  inode with \<open>LINK_MAX\<close> links, leaving the graph as it was.
\<close>

theorem link_correct:
  assumes wf: "well_formed g" and c: "canonical t" and d: "fs_dir (fs_of g) d \<noteq> None"
    and cap: "next_edge g < EDGE_CAPACITY"
  shows "case link clk g d n t of
      (Ok _, g') \<Rightarrow>
        require_cap g WRITE = Ok () \<and> user_name n \<and> fs_name (fs_of g) (d, n) = None \<and>
        (\<exists>x. fs_inode (fs_of g) t = Some x \<and> vtype x \<noteq> Directory \<and> link_count x < LINK_MAX \<and>
             fs_of g' = fs_link d n t x (fs_of g)) \<and>
        well_formed g' \<and> quotas g' = quotas g
    | (Err e, g') \<Rightarrow> g' = g \<and>
        (require_cap g WRITE = Err e \<or> \<not> user_name n \<and> e = NameNotFound n \<or>
         fs_name (fs_of g) (d, n) \<noteq> None \<and> e = NameExists d n \<or>
         fs_inode (fs_of g) t = None \<and> e = InodeNotFound t \<or>
         is_dir (fs_of g) t \<and> e = LinkToDirectory t \<or>
         (\<exists>x. fs_inode (fs_of g) t = Some x \<and> link_count x \<ge> LINK_MAX \<and> e = LinkCountExceeded LINK_MAX))
    | _ \<Rightarrow> False"
  by (rule link_contract [OF assms])

theorem link_correct_witness:
  "case link (\<lambda>_. 0) file_graph 1 ''b'' 2 of
     (Ok _, g') \<Rightarrow> well_formed g' \<and> fs_name (fs_of g') (1, ''b'') = Some 2
   | _ \<Rightarrow> False"
  using link_correct [OF file_graph_ok(1) small_canonical(2), where clk = "\<lambda>_. 0" and d = 1 and n = "''b''"]
    file_graph_leaf
  by (auto simp: file_graph_facts file_graph_view room user_name_def fs_link_def LINK_MAX_def new_file_def word_le_nat_alt
      split: res.splits prod.splits simp del: fs_of_simps)

text \<open>
  C8: \<open>unlink\<close> returns on every well-formed graph.  It removes one name of a non-directory inode;
  with the last link it also frees the inode and its extents and credits every ancestor's quota.
\<close>

theorem unlink_correct:
  assumes wf: "well_formed g"
  shows "case unlink clk g d n of
      (Ok _, g') \<Rightarrow>
        require_cap g WRITE = Ok () \<and> user_name n \<and> well_formed g' \<and> next_edge g' = next_edge g \<and>
        (\<exists>t x. fs_name (fs_of g) (d, n) = Some t \<and> fs_inode (fs_of g) t = Some x \<and>
               vtype x \<noteq> Directory \<and> fs_of g' = fs_unlink d n t x (fs_of g) \<and>
               bmap_get (quotas g') = (if link_count x = 1 then quotas_after (quota_apply (- 1) 0) g d
                                       else bmap_get (quotas g)))
    | (Err e, g') \<Rightarrow> g' = g \<and>
        (require_cap g WRITE = Err e \<or> \<not> user_name n \<and> e = NameNotFound n \<or>
         fs_name (fs_of g) (d, n) = None \<and> (e = DirNotFound d \<or> e = NameNotFound n) \<or>
         (\<exists>t. fs_name (fs_of g) (d, n) = Some t \<and> is_dir (fs_of g) t \<and> e = NotAFile t))
    | _ \<Rightarrow> False"
  by (rule unlink_contract [OF assms])

theorem unlink_correct_witness:
  "case unlink (\<lambda>_. 0) file_graph 1 ''a'' of
     (Ok _, g') \<Rightarrow> well_formed g' \<and> fs_inode (fs_of g') 2 = None
   | _ \<Rightarrow> False"
  using unlink_correct [OF file_graph_ok(1), where clk = "\<lambda>_. 0" and d = 1 and n = "''a''"] file_graph_leaf
  by (auto simp: file_graph_facts file_graph_view user_name_def fs_unlink_def
      split: res.splits prod.splits simp del: fs_of_simps)

text \<open>
  C4: with the destination directory present, \<open>rename\<close> returns.  A success moves exactly one name,
  after unlinking or removing an existing destination, and redirects the \<open>..\<close> entry of a directory
  that changed its parent; moving a directory into its own subtree is refused, and every error
  leaves the graph as it was.
\<close>

theorem rename_correct:
  assumes wf: "well_formed g" and e: "fs_dir (fs_of g) e \<noteq> None" and room: "next_edge g < EDGE_CAPACITY"
  shows "case rename clk g d n e m of
      (Ok _, g') \<Rightarrow>
        require_cap g WRITE = Ok () \<and> user_name n \<and> user_name m \<and> well_formed g' \<and>
        (\<exists>i. fs_name (fs_of g) (d, n) = Some i \<and>
           (if (d, n) = (e, m) then fs_of g' = fs_of g
            else \<not> into_itself (fs_of g) i e \<and>
                 (\<exists>f. fs_replaced e m (fs_of g) f \<and> fs_of g' = fs_rename d n e m i f))) \<and>
        (fs_name (fs_of g) (e, m) = None \<longrightarrow> quotas g' = quotas g)
    | (Err err, g') \<Rightarrow> g' = g \<and>
        (require_cap g WRITE = Err err \<or> \<not> (user_name n \<and> user_name m) \<and> err = NameNotFound n \<or>
         fs_name (fs_of g) (d, n) = None \<and> err = NameNotFound n \<or>
         (\<exists>i. fs_name (fs_of g) (d, n) = Some i \<and> into_itself (fs_of g) i e) \<and> err = WouldCreateCycle \<or>
         dir_not_empty (fs_of g) e m err)
    | _ \<Rightarrow> False"
  by (rule rename_contract [OF assms])

theorem rename_correct_witness:
  "case rename (\<lambda>_. 0) both_graph 1 ''a'' 2 ''b'' of
     (Ok _, g') \<Rightarrow> well_formed g' \<and> fs_name (fs_of g') (2, ''b'') = Some 2
   | _ \<Rightarrow> False"
proof -
  have leaf: "fs_dir (fs_of both_graph) c \<noteq> Some 2" for c
    using fs_ok_dir(1) [OF well_formedD(2) [OF both_graph_ok(1)], of c 2] both_graph_view(3)
    by (auto simp: is_dir_def new_file_def simp del: fs_of_simps)
  then have "\<not> into_itself (fs_of both_graph) 2 2" unfolding into_itself_def by blast
  then show ?thesis
    using rename_correct [OF both_graph_ok(1), where clk = "\<lambda>_. 0" and d = 1 and n = "''a''" and e = 2
        and m = "''b''"] leaf
    by (auto simp: both_graph_facts both_graph_view room user_name_def fs_replaced_def fs_rename_def
        dir_not_empty_def split: res.splits prod.splits simp del: fs_of_simps)
qed

text \<open>
  \<open>symlink\<close> has the guards of \<open>create_file\<close>; a success adds one symlink inode whose size is the
  length of the target, and \<open>readlink\<close> then returns the target unchanged.
\<close>

theorem symlink_correct:
  assumes wf: "well_formed g" and c: "canonical d"
    and cap: "next_inode g < NODE_CAPACITY" "next_edge g < EDGE_CAPACITY"
  shows "case symlink clk g d n target u gi of
      (Ok i, g') \<Rightarrow>
        require_cap g WRITE = Ok () \<and> \<not> bad_name n \<and> fs_dir (fs_of g) d \<noteq> None \<and>
        fs_name (fs_of g) (d, n) = None \<and> check_quota_inode g d = Ok () \<and>
        i = next_inode g \<and> well_formed g' \<and>
        fs_of g' = fs_create d n i (new_symlink (clk 0) i target u gi) (fs_of g) \<and>
        bmap_get (quotas g') = quotas_after (quota_apply 1 0) g d \<and>
        readlink g' i = Ok target
    | (Err e, g') \<Rightarrow> g' = g \<and>
        (require_cap g WRITE = Err e \<or> bad_name n \<and> e = NameNotFound n \<or>
         fs_name (fs_of g) (d, n) \<noteq> None \<and> e = NameExists d n \<or>
         fs_dir (fs_of g) d = None \<and> e = DirNotFound d \<or> check_quota_inode g d = Err e)
    | _ \<Rightarrow> False"
  by (rule symlink_contract [OF assms])

theorem symlink_correct_witness:
  "case symlink (\<lambda>_. 0) root_graph 1 ''s'' ''/a'' 0 0 of
     (Ok i, g') \<Rightarrow> i = 2 \<and> readlink g' i = Ok ''/a''
   | _ \<Rightarrow> False"
  using symlink_correct [OF root_graph_ok small_canonical(1), where clk = "\<lambda>_. 0" and n = "''s''"
      and target = "''/a''" and u = 0 and gi = 0] no_quotas [OF root_graph_ok root_graph_facts(10), of 1]
  by (auto simp: root_graph_facts room bad_name_def split: res.splits prod.splits simp del: fs_of_simps)

text \<open>
  C11: as long as the end of the range is at most \<open>isize::MAX\<close>, \<open>write_data\<close> returns.  On a regular
  file it stores the bytes at the offset, fills a gap with zeros, keeps all other bytes, never shrinks
  the file, and sets the inode's size to the new length and its modification time; other files are
  untouched.
\<close>

theorem write_data_correct:
  assumes wf: "well_formed g" and c: "canonical i" and room: "unat off + length data \<le> VEC_MAX"
  shows "case write_data clk g i off data of
      (Ok n, g') \<Rightarrow>
        require_cap g WRITE = Ok () \<and> n = length data \<and> well_formed g' \<and>
        (\<exists>x. fs_inode (fs_of g) i = Some x \<and> vtype x = Regular \<and>
           (let new = data_or_default g' i in
            grows_to (unat off) (length data) (data_or_default g i) new \<and>
            stores_at (unat off) data (data_or_default g i) new \<and>
            bmap_get (file_data g') = (bmap_get (file_data g))(i \<mapsto> new) \<and>
            fs_of g' = (fs_of g)\<lparr>fs_inode := (fs_inode (fs_of g))
              (i \<mapsto> x\<lparr>isize := word_of_nat (length new), mtime := clk 0\<rparr>)\<rparr>)) \<and>
        quotas g' = quotas g
    | (Err e, g') \<Rightarrow> g' = g \<and>
        (require_cap g WRITE = Err e \<or> fs_inode (fs_of g) i = None \<and> e = InodeNotFound i \<or>
         (\<exists>x. fs_inode (fs_of g) i = Some x \<and> vtype x \<noteq> Regular \<and> e = NotAFile i))
    | _ \<Rightarrow> False"
  by (rule write_data_contract [OF assms])

theorem write_data_correct_witness:
  "case write_data (\<lambda>_. 0) file_graph 2 1 [7] of
     (Ok n, g') \<Rightarrow> n = 1 \<and> length (data_or_default g' 2) = 2 \<and> data_or_default g' 2 ! 0 = 0 \<and>
       data_or_default g' 2 ! 1 = 7
   | _ \<Rightarrow> False"
  using write_data_correct [OF file_graph_ok(1) small_canonical(2), where clk = "\<lambda>_. 0" and off = 1 and data = "[7]"]
  by (auto simp: file_graph_facts file_graph_view VEC_MAX_def new_file_def data_or_default_def grows_to_def
      stores_at_def Let_def split: res.splits prod.splits simp del: fs_of_simps)

text \<open>
  \<open>write_block\<close> on a non-directory adds one block with reference count one and one \<open>PointsTo\<close>
  edge at the offset, and leaves the tree as it is.
\<close>

theorem write_block_correct:
  assumes wf: "well_formed g" and c: "canonical i" and leaf: "\<not> is_dir (fs_of g) i"
    and cap: "next_block g < NODE_CAPACITY" "next_edge g < EDGE_CAPACITY"
  shows "case write_block g i off start cnt of
      (Ok b, g') \<Rightarrow>
        require_cap g WRITE = Ok () \<and> fs_inode (fs_of g) i \<noteq> None \<and> well_formed g' \<and>
        fs_of g' = fs_of g \<and> b = next_block g \<and>
        block_at g' = (block_at g)(b \<mapsto> \<lparr>block_id = b, sector_start = start, sector_count = cnt, refcount = 1\<rparr>) \<and>
        edge_at g' = (edge_at g)(next_edge g \<mapsto> PointsTo (next_edge g) i b off) \<and> quotas g' = quotas g
    | (Err e, g') \<Rightarrow> g' = g \<and>
        (require_cap g WRITE = Err e \<or> fs_inode (fs_of g) i = None \<and> e = InodeNotFound i)
    | _ \<Rightarrow> False"
  by (rule write_block_contract [OF assms])

theorem write_block_correct_witness:
  "case write_block file_graph 2 0 100 8 of
     (Ok b, g') \<Rightarrow> b = 1 \<and> well_formed g' \<and> fs_of g' = fs_of file_graph
   | _ \<Rightarrow> False"
proof -
  have "1 < NODE_CAPACITY" "3 < EDGE_CAPACITY" by (simp_all add: NODE_CAPACITY_def EDGE_CAPACITY_def)
  then show ?thesis
    using write_block_correct [OF file_graph_ok(1) small_canonical(2) file_graph_leaf, where off = 0
        and start = 100 and cnt = 8]
    by (auto simp: file_graph_facts file_graph_view split: res.splits prod.splits simp del: fs_of_simps)
qed

text \<open>
  C12: \<open>setxattr\<close> sets exactly the one attribute (namespace, name) of the one inode, whether it
  existed or not, and keeps the attribute index exact; a value longer than 64 KiB, a missing inode and
  a missing right are refused without effect.
\<close>

theorem setxattr_correct:
  assumes wf: "well_formed g" and ok: "xattrs_ok g" and c: "canonical i"
    and cap: "next_edge g < EDGE_CAPACITY" "next_xattr g + 1 < 2 ^ 64"
  shows "case setxattr clk g i ns n v of
      (Ok x, g') \<Rightarrow>
        require_cap g WRITE = Ok () \<and> fs_inode (fs_of g) i \<noteq> None \<and> length v \<le> 65536 \<and>
        well_formed g' \<and> fs_of g' = fs_of g \<and> xattrs_ok g' \<and> xattr_set i (ns, n) (Some v) g g' \<and>
        quotas g' = quotas g
    | (Err e, g') \<Rightarrow> g' = g \<and>
        (require_cap g WRITE = Err e \<or> fs_inode (fs_of g) i = None \<and> e = InodeNotFound i \<or>
         length v > 65536 \<and> e = XAttrTooLarge (length v))
    | _ \<Rightarrow> False"
  by (rule setxattr_contract [OF assms])

theorem setxattr_correct_witness:
  "case setxattr (\<lambda>_. 0) root_graph 1 XUser ''k'' [1, 2] of
     (Ok _, g') \<Rightarrow> xattr_of g' 1 (XUser, ''k'') = Some [1, 2]
   | _ \<Rightarrow> False"
  using setxattr_correct [OF root_graph_ok root_graph_xattrs small_canonical(1), where clk = "\<lambda>_. 0"
      and ns = XUser and n = "''k''" and v = "[1, 2]"]
  by (auto simp: root_graph_facts root_graph_inode room xattr_set_def
      split: res.splits prod.splits simp del: fs_of_simps)

text \<open>
  \<open>removexattr\<close> removes exactly the one attribute and its edge, and reports an attribute
  that is not there.
\<close>

theorem removexattr_correct:
  assumes wf: "well_formed g" and ok: "xattrs_ok g" and c: "canonical i"
  shows "case removexattr clk g i ns n of
      (Ok _, g') \<Rightarrow>
        require_cap g WRITE = Ok () \<and> fs_inode (fs_of g) i \<noteq> None \<and> xattr_of g i (ns, n) \<noteq> None \<and>
        well_formed g' \<and> fs_of g' = fs_of g \<and> xattrs_ok g' \<and> xattr_set i (ns, n) None g g' \<and>
        quotas g' = quotas g
    | (Err e, g') \<Rightarrow> g' = g \<and>
        (require_cap g WRITE = Err e \<or> fs_inode (fs_of g) i = None \<and> e = InodeNotFound i \<or>
         xattr_of g i (ns, n) = None \<and> e = XAttrNotFound n)
    | _ \<Rightarrow> False"
  by (rule removexattr_contract [OF assms])

theorem removexattr_correct_witness:
  "case removexattr (\<lambda>_. 0) root_graph 1 XUser ''k'' of
     (Err e, g') \<Rightarrow> e = XAttrNotFound ''k'' \<and> g' = root_graph
   | _ \<Rightarrow> False"
  using removexattr_correct [OF root_graph_ok root_graph_xattrs small_canonical(1), where clk = "\<lambda>_. 0"
      and ns = XUser and n = "''k''"]
  by (auto simp: root_graph_facts root_graph_inode xattr_of_def split: res.splits prod.splits simp del: fs_of_simps)

end
