(* ===== verification/Sotfs_Invariants.thy ===== *)
theory Sotfs_Invariants
  imports Sotfs_Examples
begin

text \<open>
  The runtime checker of \<open>sotfs-graph/src/graph.rs\<close>: \<open>check_invariants\<close> and the checks it runs, in
  their order.  Each check is characterised on graphs with a consistent representation, and the
  whole checker is shown to accept exactly the graphs with the stated properties.
\<close>

section \<open>The loops\<close>

text \<open>A \<open>for\<close> loop whose body returns early on a violation.\<close>

fun for_each :: "('a \<Rightarrow> unit res) \<Rightarrow> 'a list \<Rightarrow> unit res" where
  "for_each f [] = Ok ()"
| "for_each f (x # xs) =
     (case f x of
        Ok _ \<Rightarrow> for_each f xs
      | Err e \<Rightarrow> Err e
      | Panic \<Rightarrow> Panic
      | Diverge \<Rightarrow> Diverge)"

text \<open>The \<open>?\<close> operator between checks.\<close>

fun and_check :: "unit res \<Rightarrow> unit res \<Rightarrow> unit res" where
  "and_check (Ok _) r = r"
| "and_check (Err e) r = Err e"
| "and_check Panic r = Panic"
| "and_check Diverge r = Diverge"

definition ensure :: "bool \<Rightarrow> violation \<Rightarrow> unit res" where
  "ensure b v = (if b then Ok () else Err (InvariantViolation v))"

section \<open>The checks\<close>

definition counts_as_link :: "type_graph \<Rightarrow> edge_id \<Rightarrow> bool" where
  "counts_as_link g eid =
     (case get_edge g eid of
        Some (Contains _ _ _ name) \<Rightarrow> name \<noteq> ''..''
      | _ \<Rightarrow> False)"

definition check_link_count_consistency :: "type_graph \<Rightarrow> unit res" where
  "check_link_count_consistency g =
     for_each (\<lambda>(i, inode).
       let cnt = (word_of_nat (length (filter (counts_as_link g) (mi_get (inode_incoming_contains g) i))) :: u32)
       in ensure (link_count inode = cnt) (LinkCountMismatch i (link_count inode) cnt))
     (ar_iter (inodes g))"

fun unique_names_loop :: "type_graph \<Rightarrow> dir_id \<Rightarrow> edge_id list \<Rightarrow> string bset \<Rightarrow> unit res" where
  "unique_names_loop g d [] names = Ok ()"
| "unique_names_loop g d (eid # eids) names =
     (case get_edge g eid of
        Some (Contains _ _ _ name) \<Rightarrow>
          (if name \<in> set names then Err (InvariantViolation (DuplicateName d name))
           else unique_names_loop g d eids (bset_insert name names))
      | _ \<Rightarrow> unique_names_loop g d eids names)"

definition check_unique_names :: "type_graph \<Rightarrow> unit res" where
  "check_unique_names g = for_each (\<lambda>(d, eids). unique_names_loop g d eids []) (dir_contains g)"

definition is_self_ref :: "type_graph \<Rightarrow> inode_id \<Rightarrow> edge_id \<Rightarrow> bool" where
  "is_self_ref g i eid =
     (case get_edge g eid of
        Some (Contains _ _ tgt name) \<Rightarrow> name = ''.'' \<and> tgt = i
      | _ \<Rightarrow> False)"

definition check_dir_self_ref :: "type_graph \<Rightarrow> unit res" where
  "check_dir_self_ref g =
     for_each (\<lambda>(d, dir).
       ensure (list_ex (is_self_ref g (dir_inode_id dir)) (mi_get (dir_contains g) d)) (MissingSelfRef d))
     (ar_iter (dirs g))"

definition user_named :: "type_graph \<Rightarrow> edge_id \<Rightarrow> bool" where
  "user_named g eid =
     (case get_edge g eid of
        Some (Contains _ _ _ name) \<Rightarrow> name \<noteq> ''.'' \<and> name \<noteq> ''..''
      | _ \<Rightarrow> False)"

definition check_no_hard_link_to_dir :: "type_graph \<Rightarrow> unit res" where
  "check_no_hard_link_to_dir g =
     for_each (\<lambda>(i, inode).
       if vtype inode \<noteq> Directory then Ok ()
       else (let n = length (filter (user_named g) (mi_get (inode_incoming_contains g) i))
             in ensure (n \<le> 1) (HardLinkToDir i n)))
     (ar_iter (inodes g))"

fun node_exists :: "type_graph \<Rightarrow> node_id \<Rightarrow> bool" where
  "node_exists g (NInode i) = contains_inode g i"
| "node_exists g (NDirectory d) = contains_dir g d"
| "node_exists g (NCapability c) = contains_cap g c"
| "node_exists g (NTransaction t) = contains_txn g t"
| "node_exists g (NVersion v) = contains_version g v"
| "node_exists g (NBlock b) = contains_block g b"
| "node_exists g (NXAttr x) = (bmap_get (xattrs g) x \<noteq> None)"

definition check_no_dangling_edges :: "type_graph \<Rightarrow> unit res" where
  "check_no_dangling_edges g =
     for_each (\<lambda>(eid, e).
       let src_exists = node_exists g (src_node e);
           tgt_exists = node_exists g (tgt_node e)
       in ensure (src_exists \<and> tgt_exists) (DanglingEdge eid src_exists tgt_exists))
     (ar_iter (edges g))"

definition points_to_block :: "block_id \<Rightarrow> edge \<Rightarrow> bool" where
  "points_to_block b e = (case e of PointsTo _ _ tgt _ \<Rightarrow> tgt = b | _ \<Rightarrow> False)"

definition check_block_refcount :: "type_graph \<Rightarrow> unit res" where
  "check_block_refcount g =
     for_each (\<lambda>(b, blk).
       let actual = (word_of_nat (length (filter (points_to_block b) (ar_values (edges g)))) :: u32)
       in ensure (refcount blk = actual) (RefcountMismatch b (refcount blk) actual))
     (ar_iter (blocks g))"

definition check_no_dir_cycles :: "type_graph \<Rightarrow> unit res" where
  "check_no_dir_cycles g =
     for_each (\<lambda>(d, _).
       case has_cycle_from (dfs_fuel g) g d [] of
         None \<Rightarrow> Diverge
       | Some (cyclic, _) \<Rightarrow> ensure (\<not> cyclic) (DirCycle d))
     (ar_iter (dirs g))"

definition check_cap_monotonicity :: "type_graph \<Rightarrow> unit res" where
  "check_cap_monotonicity g =
     for_each (\<lambda>(child_id, parent_id).
       case (get_cap g child_id, get_cap g parent_id) of
         (Some child, Some parent) \<Rightarrow>
           ensure (is_subset_of (cap_rights child) (cap_rights parent)) (CapNotMonotonic child_id parent_id)
       | _ \<Rightarrow> Ok ())
     (cap_parent g)"

definition check_invariants :: "type_graph \<Rightarrow> unit res" where
  "check_invariants g =
     and_check (check_link_count_consistency g)
    (and_check (check_unique_names g)
    (and_check (check_dir_self_ref g)
    (and_check (check_no_dangling_edges g)
    (and_check (check_block_refcount g)
    (and_check (check_no_dir_cycles g)
    (and_check (check_cap_monotonicity g)
    (and_check (check_no_hard_link_to_dir g)
      (case check_dir_name_idx_consistency g of
         None \<Rightarrow> Ok ()
       | Some v \<Rightarrow> Err (InvariantViolation v)))))))))"

section \<open>Loops and early returns\<close>

lemma for_each_Ok: "for_each f xs = Ok () \<longleftrightarrow> (\<forall>x \<in> set xs. f x = Ok ())"
  by (induction xs) (auto split: res.splits)

lemma for_each_pairs_Ok:
  "for_each (\<lambda>(k, v). f k v) xs = Ok () \<longleftrightarrow> (\<forall>k v. (k, v) \<in> set xs \<longrightarrow> f k v = Ok ())"
  by (auto simp: for_each_Ok)

lemma for_each_arena_Ok:
  "ar_inv a \<Longrightarrow> for_each (\<lambda>(i, x). f i x) (ar_iter a) = Ok () \<longleftrightarrow>
     (\<forall>i x. ar_get a i = Some x \<longrightarrow> f i x = Ok ())"
  by (simp add: for_each_pairs_Ok ar.entries_get)

lemma ensure_Ok [simp]: "ensure b v = Ok () \<longleftrightarrow> b"
  by (simp add: ensure_def)

lemma and_check_Ok: "and_check a b = Ok () \<longleftrightarrow> a = Ok () \<and> b = Ok ()"
  by (cases a) auto

text \<open>A check answers: it accepts or reports a violation, and neither panics nor runs forever.\<close>

definition answers :: "unit res \<Rightarrow> bool" where
  "answers r \<longleftrightarrow> r = Ok () \<or> (\<exists>v. r = Err (InvariantViolation v))"

lemma answers_ensure [intro]: "answers (ensure b v)"
  by (simp add: answers_def ensure_def)

lemma answers_Ok [intro]: "answers (Ok ())"
  by (simp add: answers_def)

lemma answers_for_each [intro]: "(\<And>x. answers (f x)) \<Longrightarrow> answers (for_each f xs)"
proof (induction xs)
  case (Cons x xs)
  then have "answers (f x)" "answers (for_each f xs)" by blast+
  then show ?case by (auto simp: answers_def)
qed (simp add: answers_def)

lemma answers_and_check [intro]: "answers a \<Longrightarrow> answers b \<Longrightarrow> answers (and_check a b)"
  unfolding answers_def by auto

lemma answers_unique_names [intro]: "answers (unique_names_loop g d es names)"
  by (induction es arbitrary: names) (auto simp: answers_def split: option.split edge.split)

lemma answers_cycle [intro]:
  "answers (case has_cycle_from (dfs_fuel g) g d [] of None \<Rightarrow> Diverge
            | Some (c, _) \<Rightarrow> ensure (\<not> c) v)"
  using has_cycle_from_iff [of g d] by auto

lemma answers_cap_pair [intro]:
  "answers (case (get_cap g c, get_cap g p) of
     (Some child, Some parent) \<Rightarrow> ensure (P child parent) v
   | _ \<Rightarrow> Ok ())"
  by (cases "get_cap g c"; cases "get_cap g p") auto

lemma answers_checks:
  "answers (check_link_count_consistency g)" "answers (check_unique_names g)"
  "answers (check_dir_self_ref g)" "answers (check_no_dangling_edges g)"
  "answers (check_block_refcount g)" "answers (check_no_dir_cycles g)"
  "answers (check_cap_monotonicity g)" "answers (check_no_hard_link_to_dir g)"
proof -
  show "answers (check_link_count_consistency g)" "answers (check_unique_names g)"
    "answers (check_dir_self_ref g)" "answers (check_no_dangling_edges g)" "answers (check_block_refcount g)"
    unfolding check_link_count_consistency_def check_unique_names_def check_dir_self_ref_def
      check_no_dangling_edges_def check_block_refcount_def Let_def
    by (intro answers_for_each; auto)+
  show "answers (check_no_dir_cycles g)"
    unfolding check_no_dir_cycles_def
    by (intro answers_for_each) (use answers_cycle in \<open>simp add: split_def\<close>)
  show "answers (check_cap_monotonicity g)"
    unfolding check_cap_monotonicity_def
    by (intro answers_for_each) (use answers_cap_pair in \<open>simp add: split_def\<close>)
  show "answers (check_no_hard_link_to_dir g)"
    unfolding check_no_hard_link_to_dir_def Let_def by (intro answers_for_each) auto
qed

lemma check_invariants_answers: "answers (check_invariants g)"
  unfolding check_invariants_def
  by (intro answers_and_check answers_checks) (simp add: answers_def split: option.split)

section \<open>What each check decides\<close>

lemma edge_match:
  "edges_ok g \<Longrightarrow> edge_at g e = Some (Contains i d t n) \<Longrightarrow> get_edge g e = Some (Contains e d t n)"
  using get_edge_at [of g e] edges_okD(11) [of g e] by fastforce

lemma incoming_edge:
  "edges_ok g \<Longrightarrow> e \<in> set (mi_get (inode_incoming_contains g) i) \<Longrightarrow>
     \<exists>d n. get_edge g e = Some (Contains e d i n)"
  using incoming_iff [of g e i] edge_match [of g e] by blast

lemma filter_incoming:
  assumes ok: "edges_ok g"
  shows "length (filter P (mi_get (inode_incoming_contains g) i)) =
         card {e. (\<exists>d n. edge_at g e = Some (Contains e d i n)) \<and> P e}"
proof -
  have "distinct (mi_get (inode_incoming_contains g) i)"
    using mi_ok_distinct edges_okD(4) [OF ok] by blast
  then have "length (filter P (mi_get (inode_incoming_contains g) i)) =
      card (set (filter P (mi_get (inode_incoming_contains g) i)))"
    by (metis distinct_card distinct_filter)
  also have "set (filter P (mi_get (inode_incoming_contains g) i)) =
      {e. (\<exists>d n. edge_at g e = Some (Contains e d i n)) \<and> P e}"
    using incoming_iff [OF ok, of _ i] by auto
  finally show ?thesis .
qed

text \<open>Entries and edges are in one-to-one correspondence.\<close>

lemma card_entries:
  assumes ok: "edges_ok g"
  shows "card {e. \<exists>d n. edge_at g e = Some (Contains e d i n) \<and> P d n} =
         card {k. names_of g k = Some i \<and> P (fst k) (snd k)}" (is "card ?E = card ?K")
proof -
  let ?key = "\<lambda>e. the (Option.bind (edge_at g e) contains_key)"
  have "bij_betw ?key ?E ?K"
  proof (rule bij_betwI')
    fix e e' assume "e \<in> ?E" "e' \<in> ?E"
    then show "(?key e = ?key e') = (e = e')"
      using edge_key_unique [OF ok] by auto
  next
    fix e assume "e \<in> ?E"
    then obtain d n where e: "edge_at g e = Some (Contains e d i n)" "P d n" by blast
    then have "names_of g (d, n) = Some i" using names_of_iff [OF ok] by blast
    then show "?key e \<in> ?K" using e by simp
  next
    fix k assume "k \<in> ?K"
    then obtain d n where k: "k = (d, n)" "names_of g (d, n) = Some i" "P d n" by (cases k) auto
    then obtain e where e: "edge_at g e = Some (Contains e d i n)"
      using names_of_iff [OF ok] by blast
    then have "?key e = k" by (simp add: k(1))
    then show "\<exists>e \<in> ?E. k = ?key e" using e k(3) by blast
  qed
  then show ?thesis by (rule bij_betw_same_card)
qed

lemma links_counted:
  assumes ok: "edges_ok g"
  shows "length (filter (counts_as_link g) (mi_get (inode_incoming_contains g) i)) = card (links (fs_of g) i)"
proof -
  have "{e. (\<exists>d n. edge_at g e = Some (Contains e d i n)) \<and> counts_as_link g e} =
      {e. \<exists>d n. edge_at g e = Some (Contains e d i n) \<and> n \<noteq> ''..''}"
    by (auto simp: counts_as_link_def edge_match [OF ok])
  then show ?thesis
    using card_entries [OF ok, of i "\<lambda>_ n. n \<noteq> ''..''"] by (simp add: filter_incoming [OF ok] links_def)
qed

text \<open>The number of edges fits a \<open>u32\<close>, so the cast in the check loses nothing.\<close>

lemma edge_count_bound:
  assumes ok: "edges_ok g" and sub: "\<And>e. e \<in> S \<Longrightarrow> edge_at g e \<noteq> None"
  shows "card S < 2 ^ 32" "finite S"
proof -
  have "S \<subseteq> {..<EDGE_CAPACITY}"
    using sub ar.get_bound [OF edges_okD(1) [OF ok]] edges_okD(2) [OF ok] by fastforce
  then have "card S \<le> EDGE_CAPACITY" and "finite S"
    using card_mono [of "{..<EDGE_CAPACITY}" S] finite_subset by auto
  then show "card S < 2 ^ 32" "finite S" by (simp_all add: EDGE_CAPACITY_def)
qed

lemma u32_of_nat_eq: "n < 2 ^ 32 \<Longrightarrow> (x :: u32) = word_of_nat n \<longleftrightarrow> unat x = n"
  by (simp add: word_unat_eq_iff unat_of_nat take_bit_nat_eq_self)

lemma check_links_Ok:
  assumes e: "edges_ok g" and i: "inodes_ok g"
  shows "check_link_count_consistency g = Ok () \<longleftrightarrow> links_ok (fs_of g)"
proof -
  have "card (links (fs_of g) i) < 2 ^ 32" for i
  proof -
    have "card {e. \<exists>d n. edge_at g e = Some (Contains e d i n) \<and> n \<noteq> ''..''} < 2 ^ 32"
      by (rule edge_count_bound [OF e]) auto
    then show ?thesis
      using card_entries [OF e, of i "\<lambda>_ n. n \<noteq> ''..''"] by (simp add: links_def)
  qed
  moreover have "ar_inv (inodes g)" using i by (simp add: inodes_ok_def)
  ultimately show ?thesis
    by (auto simp: check_link_count_consistency_def for_each_arena_Ok Let_def links_ok_def links_counted [OF e]
        u32_of_nat_eq)
qed

lemma unique_names_Ok:
  "edges_ok g \<Longrightarrow> distinct es \<Longrightarrow> \<forall>e \<in> set es. \<exists>t n. edge_at g e = Some (Contains e d t n) \<and> n \<notin> set names \<Longrightarrow>
     unique_names_loop g d es names = Ok ()"
proof (induction es arbitrary: names)
  case (Cons e es)
  then obtain t n where en: "edge_at g e = Some (Contains e d t n)" "n \<notin> set names" by auto
  have "\<exists>t m. edge_at g f = Some (Contains f d t m) \<and> m \<notin> set (bset_insert n names)" if "f \<in> set es" for f
  proof -
    have "\<exists>t m. edge_at g f = Some (Contains f d t m) \<and> m \<notin> set names"
      using Cons.prems(3) that by (meson list.set_intros(2))
    then obtain t' m where f: "edge_at g f = Some (Contains f d t' m)" "m \<notin> set names" by blast
    have "m \<noteq> n" using edge_key_unique [OF Cons.prems(1) en(1)] f(1) Cons.prems(2) that by auto
    then show ?thesis using f by simp
  qed
  then have "unique_names_loop g d es (bset_insert n names) = Ok ()"
    using Cons.IH Cons.prems(1,2) by simp
  then show ?case using en edge_match [OF Cons.prems(1) en(1)] by simp
qed simp

lemma check_names_Ok: "edges_ok g \<Longrightarrow> check_unique_names g = Ok ()"
proof -
  assume ok: "edges_ok g"
  have "unique_names_loop g d es [] = Ok ()" if "(d, es) \<in> set (dir_contains g)" for d es
  proof -
    have mi: "mi_ok (dir_contains g)" by (rule edges_okD(3) [OF ok])
    then have "mi_get (dir_contains g) d = es"
      using that by (simp add: mi_get_def mi_ok_def bmap_in_set_iff)
    moreover from this have "distinct es" using mi_ok_distinct [OF mi, of d] by simp
    ultimately show ?thesis
      using unique_names_Ok [OF ok, of es d "[]"] dir_edges_iff [OF ok, of _ d] by auto
  qed
  then show ?thesis by (auto simp: check_unique_names_def for_each_Ok)
qed

definition self_refs :: "fs \<Rightarrow> bool" where
  "self_refs f \<longleftrightarrow> (\<forall>d i. fs_dir f d = Some i \<longrightarrow> fs_name f (d, ''.'') = Some i)"

lemma check_self_refs_Ok:
  assumes e: "edges_ok g" and d: "dirs_ok g"
  shows "check_dir_self_ref g = Ok () \<longleftrightarrow> self_refs (fs_of g)"
proof -
  have "list_ex (is_self_ref g i) (mi_get (dir_contains g) d) \<longleftrightarrow> names_of g (d, ''.'') = Some i" for d i
  proof -
    have "is_self_ref g i x \<longleftrightarrow> edge_at g x = Some (Contains x d i ''.'')"
      if "x \<in> set (mi_get (dir_contains g) d)" for x
      using that edge_match [OF e, of x] by (auto simp: is_self_ref_def dir_edges_iff [OF e])
    then show ?thesis
      using dir_edges_iff [OF e, of _ d] by (auto simp: list_ex_iff names_of_iff [OF e])
  qed
  moreover have "ar_inv (dirs g)" using d by (simp add: dirs_ok_def)
  ultimately show ?thesis
    by (auto simp: check_dir_self_ref_def for_each_arena_Ok self_refs_def)
qed

definition no_hard_link_to_dir :: "fs \<Rightarrow> bool" where
  "no_hard_link_to_dir f \<longleftrightarrow>
     (\<forall>i. is_dir f i \<longrightarrow> card {k. fs_name f k = Some i \<and> user_name (snd k)} \<le> 1)"

lemma check_hard_links_Ok:
  assumes e: "edges_ok g" and i: "inodes_ok g"
  shows "check_no_hard_link_to_dir g = Ok () \<longleftrightarrow> no_hard_link_to_dir (fs_of g)"
proof -
  have "{e. (\<exists>d n. edge_at g e = Some (Contains e d i n)) \<and> user_named g e} =
      {e. \<exists>d n. edge_at g e = Some (Contains e d i n) \<and> user_name n}" for i
    by (auto simp: user_named_def user_name_def edge_match [OF e])
  then have "length (filter (user_named g) (mi_get (inode_incoming_contains g) i)) =
      card {k. names_of g k = Some i \<and> user_name (snd k)}" for i
    using card_entries [OF e, of i "\<lambda>_ n. user_name n"] by (simp add: filter_incoming [OF e])
  moreover have "ar_inv (inodes g)" using i by (simp add: inodes_ok_def)
  ultimately show ?thesis
    by (auto simp: check_no_hard_link_to_dir_def for_each_arena_Ok Let_def no_hard_link_to_dir_def is_dir_def)
qed

definition no_dangling :: "type_graph \<Rightarrow> bool" where
  "no_dangling g \<longleftrightarrow> (\<forall>e x. edge_at g e = Some x \<longrightarrow>
     node_exists g (src_node x) \<and> node_exists g (tgt_node x))"

lemma check_dangling_Ok:
  "edges_ok g \<Longrightarrow> check_no_dangling_edges g = Ok () \<longleftrightarrow> no_dangling g"
  using edges_okD(1) [of g]
  by (auto simp: check_no_dangling_edges_def for_each_arena_Ok Let_def no_dangling_def)

lemma points_to_block_iff: "points_to_block b x \<longleftrightarrow> points_tgt x = Some b"
  by (cases x) (auto simp: points_to_block_def)

lemma refs_counted:
  assumes e: "edges_ok g"
  shows "length (filter (points_to_block b) (ar_values (edges g))) = card (refs_to (edge_at g) b)"
proof -
  have "{e. \<exists>x. edge_at g e = Some x \<and> points_to_block b x} = refs_to (edge_at g) b"
    by (auto simp: refs_to_def proj_eq_Some points_to_block_iff)
  then show ?thesis
    using ar.count_entries [OF edges_okD(1) [OF e], of "\<lambda>_. points_to_block b"]
    by (simp add: ar_values_def filter_map o_def)
qed

lemma check_refcount_Ok:
  assumes e: "edges_ok g" and b: "blocks_ok g"
  shows "check_block_refcount g = Ok ()"
proof -
  have "card (refs_to (edge_at g) b) < 2 ^ 32" for b
    by (rule edge_count_bound [OF e]) (auto simp: refs_to_def proj_eq_Some)
  moreover have "ar_inv (blocks g)" using b by (simp add: blocks_ok_def)
  ultimately show ?thesis
    using b by (auto simp: check_block_refcount_def for_each_arena_Ok Let_def refs_counted [OF e] u32_of_nat_eq blocks_ok_def)
qed

definition caps_monotone :: "type_graph \<Rightarrow> bool" where
  "caps_monotone g \<longleftrightarrow>
     (\<forall>c p x y. bmap_get (cap_parent g) c = Some p \<longrightarrow> get_cap g c = Some x \<longrightarrow> get_cap g p = Some y \<longrightarrow>
        is_subset_of (cap_rights x) (cap_rights y))"

lemma check_caps_Ok:
  assumes "bmap_ok (cap_parent g)"
  shows "check_cap_monotonicity g = Ok () \<longleftrightarrow> caps_monotone g"
proof -
  have "(case (get_cap g c, get_cap g p) of
           (Some child, Some parent) \<Rightarrow> ensure (is_subset_of (cap_rights child) (cap_rights parent)) v
         | _ \<Rightarrow> Ok ()) = Ok () \<longleftrightarrow>
        (\<forall>x y. get_cap g c = Some x \<longrightarrow> get_cap g p = Some y \<longrightarrow> is_subset_of (cap_rights x) (cap_rights y))" for c p v
    by (cases "get_cap g c"; cases "get_cap g p") auto
  then show ?thesis
    by (simp add: check_cap_monotonicity_def for_each_pairs_Ok caps_monotone_def bmap_in_set_iff [OF assms])
qed

lemma child_dir_of_Some: "child_dir_of g e = Some c \<Longrightarrow> \<exists>i. dir_for_inode g i = Some c"
proof (cases "get_edge g e")
  case (Some x)
  then show "child_dir_of g e = Some c \<Longrightarrow> ?thesis"
    by (cases x) (auto simp: child_dir_of_def split: option.split_asm if_split_asm)
qed (simp add: child_dir_of_def)

lemma child_stored:
  "dirs_ok g \<Longrightarrow> (p, c) \<in> child_rel g \<Longrightarrow> dir_at g c \<noteq> None"
  using dir_for_inode_iff [of g _ c] child_dir_of_Some by (fastforce simp: child_rel_def)

lemma check_cycles_Ok:
  assumes d: "dirs_ok g"
  shows "check_no_dir_cycles g = Ok () \<longleftrightarrow> acyclic (child_rel g)"
proof -
  let ?r = "child_rel g"
  have 1: "(case has_cycle_from (dfs_fuel g) g c [] of None \<Rightarrow> Diverge
            | Some (b, _) \<Rightarrow> ensure (\<not> b) v) = Ok () \<longleftrightarrow>
           (\<forall>y. (c, y) \<in> ?r\<^sup>* \<longrightarrow> (y, y) \<notin> ?r\<^sup>+)" for c v
    using has_cycle_from_iff [of g c] by auto
  have "(\<exists>c. dir_at g c \<noteq> None \<and> (c, y) \<in> ?r\<^sup>*)" if y: "(y, y) \<in> ?r\<^sup>+" for y
    using child_stored [OF d] tranclD2 [OF y] by blast
  then have "acyclic ?r \<longleftrightarrow> (\<forall>c x. dir_at g c = Some x \<longrightarrow> (\<forall>y. (c, y) \<in> ?r\<^sup>* \<longrightarrow> (y, y) \<notin> ?r\<^sup>+))"
    unfolding acyclic_def by blast
  moreover have "ar_inv (dirs g)" using d by (simp add: dirs_ok_def)
  ultimately show ?thesis
    by (simp add: check_no_dir_cycles_def for_each_arena_Ok 1)
qed

lemma idx_forward_edges_None:
  assumes "edges_ok g"
  shows "\<forall>e \<in> set es. \<exists>t n. edge_at g e = Some (Contains e d t n) \<Longrightarrow> idx_forward_edges g d es = None"
proof (induction es)
  case (Cons e es)
  then obtain t n where "edge_at g e = Some (Contains e d t n)" by auto
  then have "get_edge g e = Some (Contains e d t n)" "bmap_get (dir_name_idx g) (d, n) = Some e"
    using get_edge_at [OF assms] name_idx_iff [OF assms] by auto
  then show ?case using Cons by simp
qed simp

lemma idx_forward_None: "\<forall>(d, es) \<in> set xs. idx_forward_edges g d es = None \<Longrightarrow> idx_forward g xs = None"
  by (induction xs) auto

lemma idx_reverse_None:
  "\<forall>((d, n), e) \<in> set xs. \<exists>i t. get_edge g e = Some (Contains i d t n) \<Longrightarrow> idx_reverse g xs = None"
  by (induction g xs rule: idx_reverse.induct) auto

lemma check_idx_None:
  assumes ok: "edges_ok g"
  shows "check_dir_name_idx_consistency g = None"
proof -
  have "idx_forward_edges g d es = None" if "(d, es) \<in> set (dir_contains g)" for d es
  proof (rule idx_forward_edges_None [OF ok])
    have "mi_get (dir_contains g) d = es"
      using that edges_okD(3) [OF ok] by (simp add: mi_get_def mi_ok_def bmap_in_set_iff)
    then show "\<forall>e \<in> set es. \<exists>t n. edge_at g e = Some (Contains e d t n)"
      using dir_edges_iff [OF ok, of _ d] by blast
  qed
  then have "idx_forward g (dir_contains g) = None" by (intro idx_forward_None) auto
  moreover have "\<exists>i t. get_edge g e = Some (Contains i d t n)" if "((d, n), e) \<in> set (dir_name_idx g)" for d n e
    using that name_idx_iff [OF ok, of d n e] get_edge_at [OF ok, of e]
    by (auto simp: bmap_in_set_iff [OF edges_okD(6) [OF ok]])
  then have "idx_reverse g (dir_name_idx g) = None" by (intro idx_reverse_None) auto
  ultimately show ?thesis by (simp add: check_dir_name_idx_consistency_def)
qed

section \<open>The whole checker\<close>

lemma check_invariants_Ok:
  assumes ok: "rep_ok g" and caps: "bmap_ok (cap_parent g)"
  shows "check_invariants g = Ok () \<longleftrightarrow>
     links_ok (fs_of g) \<and> self_refs (fs_of g) \<and> no_dangling g \<and> acyclic (child_rel g) \<and>
     caps_monotone g \<and> no_hard_link_to_dir (fs_of g)"
  using ok
  by (simp add: check_invariants_def and_check_Ok rep_ok_def check_links_Ok check_names_Ok check_self_refs_Ok
      check_dangling_Ok check_refcount_Ok check_cycles_Ok check_caps_Ok [OF caps] check_hard_links_Ok check_idx_None)

text \<open>The edges that are not entries; the operations that add them are the attribute and block operations.\<close>

definition entry_edges_only :: "type_graph \<Rightarrow> bool" where
  "entry_edges_only g \<longleftrightarrow> (\<forall>e x. edge_at g e = Some x \<longrightarrow> contains_key x \<noteq> None)"

lemma contains_node_exists:
  assumes wf: "well_formed g" and e: "edge_at g e = Some (Contains i d t n)"
  shows "node_exists g (NDirectory d) \<and> node_exists g (NInode t)"
proof -
  have "edge_at g e = Some (Contains e d t n)"
    using e edges_okD(11) [OF well_formedD(3) [OF wf] e] by simp
  then have "names_of g (d, n) = Some t" using names_of_iff [OF well_formedD(3) [OF wf]] by blast
  then obtain x y where xy: "inode_at g t = Some x" "dir_at g d = Some y"
    using names_in_view [OF wf] by blast
  moreover have "canonical t" "canonical d"
    using inode_canonical [OF well_formedD(5) [OF wf] xy(1)] dir_canonical [OF well_formedD(4) [OF wf] xy(2)] .
  ultimately show ?thesis
    using well_formedD(4,5) [OF wf]
    by (simp add: contains_dir_def contains_inode_def ar_contains_get dirs_ok_def inodes_ok_def)
qed

lemma no_hard_links:
  assumes ok: "fs_ok f"
  shows "no_hard_link_to_dir f"
  unfolding no_hard_link_to_dir_def
proof (intro allI impI)
  fix i assume "is_dir f i"
  then obtain d where d: "fs_dir f d = Some i" using fs_ok_dir(4) [OF ok] by blast
  have "k = l" if "k \<in> {k. fs_name f k = Some i \<and> user_name (snd k)}"
    "l \<in> {k. fs_name f k = Some i \<and> user_name (snd k)}" for k l
    using fs_ok_tree(2) [OF ok, of k d l] that d by (simp add: dir_entry_def)
  then show "card {k. fs_name f k = Some i \<and> user_name (snd k)} \<le> 1"
    by (cases "finite {k. fs_name f k = Some i \<and> user_name (snd k)}") (simp_all add: card_le_Suc0_iff_eq One_nat_def)
qed

lemma well_formed_checks:
  assumes wf: "well_formed g" and entries: "entry_edges_only g"
    and caps: "bmap_ok (cap_parent g)" "caps_monotone g"
  shows "check_invariants g = Ok ()"
proof -
  have "self_refs (fs_of g)"
    using fs_ok_dir(2) [OF well_formedD(2) [OF wf]] by (simp add: self_refs_def del: fs_of_simps)
  moreover have "links_ok (fs_of g)" "acyclic (child_rel g)"
    using well_formedD(2) [OF wf] fs_ok_tree(1) by (auto simp: fs_ok_def child_rel_view [OF wf])
  moreover have "no_dangling g"
    using contains_node_exists [OF wf] entries
    by (fastforce simp: no_dangling_def entry_edges_only_def contains_key_iff)
  ultimately show ?thesis
    using no_hard_links [OF well_formedD(2) [OF wf]] caps
    by (simp add: check_invariants_Ok [OF well_formedD(1) [OF wf] caps(1)])
qed

section \<open>Extents confuse the dangling-edge check\<close>

text \<open>The target of an extent edge is taken for an inode.\<close>

lemma write_block_frame:
  assumes "write_block g i off start cnt = (Ok b, g')"
  shows "b = next_block g" "next_block g' = succ_u64 (next_block g)" "next_edge g' = succ_u64 (next_edge g)"
    "caps g' = caps g" "transactions g' = transactions g" "versions g' = versions g"
    "cap_ctx g' = cap_ctx g" "cap_parent g' = cap_parent g" "require_cap g' r = require_cap g r"
proof -
  have "require_cap g WRITE = Ok () \<and> contains_inode g i"
    using assms by (cases "require_cap g WRITE") (auto simp: write_block_def split: if_split_asm)
  then have *: "g' = snd (write_block g i off start cnt)"
    "b = next_block g" and guards: "require_cap g WRITE = Ok ()" "contains_inode g i"
    using assms by (auto simp: write_block_def alloc_block_id_def alloc_edge_id_def Let_def)
  show "b = next_block g" "next_block g' = succ_u64 (next_block g)" "next_edge g' = succ_u64 (next_edge g)"
    "caps g' = caps g" "transactions g' = transactions g" "versions g' = versions g"
    and ctx: "cap_ctx g' = cap_ctx g" and "cap_parent g' = cap_parent g"
    using guards by (simp_all add: * write_block_def alloc_block_id_def alloc_edge_id_def insert_block_def
        insert_edge_def Let_def)
  then show "require_cap g' r = require_cap g r"
    by (simp add: require_cap_def get_cap_def cong: option.case_cong)
qed

lemma extent_dangles:
  assumes wf: "well_formed g" and e: "edge_at g e = Some (PointsTo e i b off)"
    and b: "canonical b" "inode_at g b = None"
  shows "check_no_dangling_edges g \<noteq> Ok ()"
proof -
  have "\<not> node_exists g (NInode b)"
    using b well_formedD(5) [OF wf] by (simp add: contains_inode_def ar_contains_get inodes_ok_def)
  then have "\<not> no_dangling g" using e by (fastforce simp: no_dangling_def)
  then show ?thesis by (simp add: check_dangling_Ok [OF well_formedD(3) [OF wf]])
qed

lemma root_graph_caps: "cap_parent root_graph = []"
  by (simp add: root_graph_def new_boxed_def empty_graph_def Let_def)

lemma write_block_runs:
  assumes wf: "well_formed g" and c: "canonical i" and leaf: "\<not> is_dir (fs_of g) i"
    and cap: "next_block g < NODE_CAPACITY" "next_edge g < EDGE_CAPACITY"
    and i: "fs_inode (fs_of g) i \<noteq> None" and right: "require_cap g WRITE = Ok ()"
  obtains g' where "write_block g i off start cnt = (Ok (next_block g), g')" "well_formed g'" "fs_of g' = fs_of g"
    "edge_at g' (next_edge g) = Some (PointsTo (next_edge g) i (next_block g) off)"
proof -
  obtain r g' where w: "write_block g i off start cnt = (r, g')" by fastforce
  then show thesis
    using write_block_contract [OF wf c leaf cap, where off = off and start = start and cnt = cnt] i right that [of g']
    by (cases r) (simp_all del: fs_of_simps)
qed

lemma write_block_twice:
  obtains g where "well_formed g" "fs_of g = fs_of file_graph" "require_cap g WRITE = Ok ()"
    "next_block g = 3" "next_edge g = 5" "caps g = caps file_graph" "transactions g = transactions file_graph"
    "versions g = versions file_graph"
proof -
  have room': "1 < NODE_CAPACITY" "2 < NODE_CAPACITY" "3 < EDGE_CAPACITY" "4 < EDGE_CAPACITY"
    by (simp_all add: NODE_CAPACITY_def EDGE_CAPACITY_def)
  obtain g1 where 1: "write_block file_graph 2 0 100 8 = (Ok 1, g1)" "well_formed g1" "fs_of g1 = fs_of file_graph"
    using write_block_runs [OF file_graph_ok(1) small_canonical(2) file_graph_leaf, of 0 100 8] room'
    by (simp add: file_graph_facts file_graph_view del: fs_of_simps) blast
  note f1 = write_block_frame [OF 1(1)]
  have n1: "next_block g1 = 2" "next_edge g1 = 4"
    using f1(2,3) by (simp_all add: file_graph_facts succ_u64_def)
  have leaf: "\<not> is_dir (fs_of g1) 2" using file_graph_leaf 1(3) by simp
  obtain g2 where 2: "write_block g1 2 8 108 8 = (Ok 2, g2)" "well_formed g2" "fs_of g2 = fs_of g1"
    using write_block_runs [OF 1(2) small_canonical(2) leaf, of 8 108 8] room' 1(3)
    by (simp add: f1(9) n1 file_graph_facts file_graph_view del: fs_of_simps) blast
  note f2 = write_block_frame [OF 2(1)]
  show thesis
    by (rule that [of g2]) (simp_all add: 2 1(3) f2(2-6,9) f1(4-6,9) n1 file_graph_facts succ_u64_def)
qed

section \<open>Properties\<close>

text \<open>
  \<open>check_invariants\<close> returns on every graph, well-formed or not, and either accepts it or reports a
  violation: no check panics, and none of the searches runs forever.
\<close>

theorem check_invariants_returns:
  "check_invariants g = Ok () \<or> (\<exists>v. check_invariants g = Err (InvariantViolation v))"
  using check_invariants_answers [of g] by (simp add: answers_def)

lemma root_graph_passes: "check_invariants root_graph = Ok ()"
  by (rule well_formed_checks)
     (simp_all add: root_graph_ok entry_edges_only_def root_graph_edges root_graph_caps caps_monotone_def)

text \<open>
  A well-formed graph whose edges are directory entries and whose delegated capabilities are
  monotone passes \<open>check_invariants\<close>.  All rewriting operations on the tree keep graphs well-formed,
  so the checker never fires after them.
\<close>

theorem check_invariants_passes:
  assumes "well_formed g"
    and "\<And>e x. edge_at g e = Some x \<Longrightarrow> \<exists>i d t n. x = Contains i d t n"
    and "bmap_ok (cap_parent g)" "caps_monotone g"
  shows "check_invariants g = Ok ()"
proof (rule well_formed_checks)
  show "entry_edges_only g" using assms(2) by (fastforce simp: entry_edges_only_def contains_key_iff)
qed (rule assms)+

theorem check_invariants_passes_witness: "check_invariants root_graph = Ok ()"
  by (rule check_invariants_passes)
     (auto simp: root_graph_ok root_graph_edges root_graph_caps caps_monotone_def split: if_splits)

text \<open>
  C15: an extent can make \<open>check_invariants\<close> reject a healthy graph.  \<open>Edge::tgt_node\<close> maps the block a
  \<open>PointsTo\<close> edge leads to to an inode node, so when \<open>write_block\<close> allocates a block whose number is not
  also the number of an inode, the result is well-formed and yet the checker reports a dangling edge.
\<close>

theorem check_invariants_rejects_extent:
  assumes wf: "well_formed g" and c: "canonical i" and leaf: "\<not> is_dir (fs_of g) i"
    and cap: "next_block g < NODE_CAPACITY" "next_edge g < EDGE_CAPACITY"
    and i: "fs_inode (fs_of g) i \<noteq> None" and free: "fs_inode (fs_of g) (next_block g) = None"
    and right: "require_cap g WRITE = Ok ()"
  shows "\<exists>b g' v. write_block g i off start cnt = (Ok b, g') \<and> well_formed g' \<and> fs_of g' = fs_of g \<and>
           check_invariants g' = Err (InvariantViolation v)"
proof -
  obtain g' where w: "write_block g i off start cnt = (Ok (next_block g), g')" "well_formed g'" "fs_of g' = fs_of g"
      "edge_at g' (next_edge g) = Some (PointsTo (next_edge g) i (next_block g) off)"
    by (rule write_block_runs [OF wf c leaf cap i right])
  have "inode_at g' (next_block g) = None" using w(3) free by (metis fs_of_simps(1))
  then have "check_no_dangling_edges g' \<noteq> Ok ()"
    using extent_dangles [OF w(2,4)] cap(1) by (simp add: canonical_small)
  then have "check_invariants g' \<noteq> Ok ()" by (simp add: check_invariants_def and_check_Ok)
  then show ?thesis using w(1-3) check_invariants_answers [of g'] by (auto simp: answers_def)
qed

theorem check_invariants_rejects_extent_witness:
  "\<exists>g b g' v. write_block g 2 0 100 8 = (Ok b, g') \<and> well_formed g' \<and>
     check_invariants g' = Err (InvariantViolation v)"
proof (rule write_block_twice)
  fix g assume g: "well_formed g" "fs_of g = fs_of file_graph" "require_cap g WRITE = Ok ()"
    "next_block g = 3" "next_edge g = 5"
  have "fs_inode (fs_of file_graph) 3 = None"
    using fresh_inode [OF well_formedD(1) [OF file_graph_ok(1)]] by (simp add: file_graph_facts(2))
  then show ?thesis
    using check_invariants_rejects_extent [OF g(1) small_canonical(2), where off = 0 and start = 100 and cnt = 8]
      g room file_graph_leaf file_graph_view(3)
    by (simp del: fs_of_simps) blast
qed

end
