(* ===== verification/Sotfs_Storage.thy ===== *)
theory Sotfs_Storage
  imports Sotfs_Examples
begin

text \<open>
  Persistence: the arena serialisation of \<open>sotfs-graph/src/graph.rs\<close> (\<open>arena_serde\<close>), the image of a
  graph that the derived \<open>Serialize\<close> keeps, and \<open>RedbBackend\<close> of \<open>sotfs-storage/src/backend.rs\<close>.  The
  codec (\<open>serde_json\<close>) and the database (\<open>redb\<close>) are third-party code and parameters of \<open>save\<close> and
  \<open>load\<close>.  The name index is not stored; \<open>rebuild_dir_name_idx\<close> is shown to restore it exactly.
\<close>

section \<open>Arenas\<close>

definition arena_serialize :: "'a arena \<Rightarrow> (arena_id \<times> 'a) list" where
  "arena_serialize a = ar_iter a"

text \<open>The deserialiser drops the \<open>bool\<close> that \<open>insert_at\<close> returns.\<close>

definition arena_deserialize :: "nat \<Rightarrow> (arena_id \<times> 'a) list \<Rightarrow> 'a arena" where
  "arena_deserialize capacity xs = fold (\<lambda>(slot, v) a. snd (ar_insert_at slot v a)) xs (ar_new capacity)"

lemma fold_insert_at:
  assumes "ar_inv a" "distinct (map fst xs)"
    "\<forall>(i, v) \<in> set xs. i < ar_capacity a \<and> ar_get a i = None"
  shows "ar_inv (fold (\<lambda>(i, v) a. snd (ar_insert_at i v a)) xs a) \<and>
         ar_capacity (fold (\<lambda>(i, v) a. snd (ar_insert_at i v a)) xs a) = ar_capacity a \<and>
         ar_get (fold (\<lambda>(i, v) a. snd (ar_insert_at i v a)) xs a) = ar_get a ++ map_of xs"
  using assms
proof (induction xs arbitrary: a)
  case (Cons x xs)
  obtain i v where x: "x = (i, v)" by fastforce
  let ?b = "snd (ar_insert_at i v a)"
  have b: "ar_inv ?b" "ar_capacity ?b = ar_capacity a" "ar_get ?b = (ar_get a)(i \<mapsto> v)"
    using Cons.prems x ar.inv_put ar.cap_put ar.put_fresh by auto
  have "\<forall>(j, w) \<in> set xs. j < ar_capacity ?b \<and> ar_get ?b j = None"
    using Cons.prems(2,3) x b(2,3) by (auto simp: rev_image_eqI)
  with Cons.IH [OF b(1)] Cons.prems(2) have
    "ar_inv (fold (\<lambda>(i, v) a. snd (ar_insert_at i v a)) xs ?b) \<and>
     ar_capacity (fold (\<lambda>(i, v) a. snd (ar_insert_at i v a)) xs ?b) = ar_capacity ?b \<and>
     ar_get (fold (\<lambda>(i, v) a. snd (ar_insert_at i v a)) xs ?b) = ar_get ?b ++ map_of xs"
    by simp
  moreover have "map_of xs i = None"
    using Cons.prems(2) x by (auto simp: map_of_eq_None_iff)
  then have "(ar_get a)(i \<mapsto> v) ++ map_of xs = ar_get a ++ map_of (x # xs)"
    by (auto simp: x fun_eq_iff map_add_def split: option.splits)
  ultimately show ?case by (simp add: x b(2,3) del: map_of.simps)
qed simp

lemma arena_roundtrip:
  assumes "ar_inv a"
  shows "ar_inv (arena_deserialize (ar_capacity a) (arena_serialize a))"
    "ar_capacity (arena_deserialize (ar_capacity a) (arena_serialize a)) = ar_capacity a"
    "ar_get (arena_deserialize (ar_capacity a) (arena_serialize a)) = ar_get a"
proof -
  let ?xs = "ar_iter a"
  have d: "distinct (map fst ?xs)" by (rule ar.distinct_entries [OF assms])
  have "\<forall>(i, v) \<in> set ?xs. i < ar_capacity (ar_new (ar_capacity a) :: 'a arena) \<and>
      ar_get (ar_new (ar_capacity a) :: 'a arena) i = None"
    using ar.entries_get [OF assms] ar.get_bound [OF assms] by (auto simp: ar_new_def ar_get_def)
  note f = fold_insert_at [OF ar_inv_new d this]
  have "map_of ?xs i = ar_get a i" for i
    using ar.entries_get [OF assms] d
    by (metis map_of_eq_Some_iff not_None_eq)
  then have "map_of ?xs = ar_get a" by (simp add: fun_eq_iff)
  moreover have "ar_get (ar_new (ar_capacity a) :: 'a arena) = Map.empty" "ar_capacity (ar_new (ar_capacity a) :: 'a arena) = ar_capacity a"
    by (auto simp: ar_new_def ar_get_def fun_eq_iff)
  ultimately show "ar_inv (arena_deserialize (ar_capacity a) (arena_serialize a))"
    "ar_capacity (arena_deserialize (ar_capacity a) (arena_serialize a)) = ar_capacity a"
    "ar_get (arena_deserialize (ar_capacity a) (arena_serialize a)) = ar_get a"
    using f unfolding arena_deserialize_def arena_serialize_def by simp_all
qed

section \<open>Rebuilding the name index\<close>

text \<open>Ordered maps with the same entries are equal.\<close>

lemma bmap_ext:
  "bmap_ok m \<Longrightarrow> bmap_ok m' \<Longrightarrow> map_of m = map_of m' \<Longrightarrow> m = m'"
proof (induction m arbitrary: m')
  case Nil
  then show ?case by (cases m') (auto simp: fun_eq_iff split: if_splits)
next
  case (Cons x xs)
  obtain k v where x: "x = (k, v)" by fastforce
  have m': "map_of m' k = Some v" using Cons.prems(3) x by (metis map_of_Cons_code(2))
  then obtain y ys where ys: "m' = y # ys" by (cases m') auto
  obtain j w where y: "y = (j, w)" by fastforce
  have low: "\<forall>l \<in> fst ` set xs. k < l" "\<forall>l \<in> fst ` set ys. j < l"
    using Cons.prems(1,2) x ys y by (auto simp: bmap_ok_def)
  have "map_of (x # xs) j = map_of m' j" by (simp only: Cons.prems(3))
  then have "map_of (x # xs) j = Some w" by (simp add: ys y)
  then have "j = k \<or> j \<in> fst ` set xs"
    using x by (auto split: if_splits dest!: map_of_SomeD intro: rev_image_eqI)
  moreover have "k = j \<or> k \<in> fst ` set ys"
    using m' ys y by (auto split: if_splits dest!: map_of_SomeD intro: rev_image_eqI)
  ultimately have jk: "j = k" using low by (meson order_less_asym)
  then have "w = v" using m' ys y by simp
  moreover have "map_of xs = map_of ys"
  proof
    fix l
    have "map_of xs k = None" "map_of ys k = None"
      using low jk by (auto simp: map_of_eq_None_iff)
    then show "map_of xs l = map_of ys l"
      using Cons.prems(3) x y ys jk by (metis map_of_Cons_code(2))
  qed
  then have "xs = ys"
    using Cons.IH [of ys] Cons.prems(1,2) x y ys by (simp add: bmap_ok_def)
  ultimately show ?case using x y ys jk by simp
qed

definition contains_name :: "edge \<Rightarrow> string option" where
  "contains_name x = (case x of Contains _ _ _ n \<Rightarrow> Some n | _ \<Rightarrow> None)"

lemma idx_entries_of_dir_iff:
  "((c, n), e) \<in> set (idx_entries_of_dir g d es) \<longleftrightarrow>
     c = d \<and> e \<in> set es \<and> (\<exists>x. get_edge g e = Some x \<and> contains_name x = Some n)"
proof (induction es)
  case (Cons f es)
  show ?case
  proof (cases "get_edge g f")
    case None
    then show ?thesis using Cons by auto
  next
    case (Some x)
    then show ?thesis using Cons by (cases x) (auto simp: contains_name_def)
  qed
qed simp

lemma fold_bmap_insert:
  "map_of (fold (\<lambda>(k, v) m. bmap_insert k v m) xs m) = map_of m ++ map_of (rev xs)"
  by (induction xs arbitrary: m) (auto simp: map_add_def fun_eq_iff split: option.split)

lemma fold_bmap_insert_ok: "bmap_ok m \<Longrightarrow> bmap_ok (fold (\<lambda>(k, v) m. bmap_insert k v m) xs m)"
  by (induction xs arbitrary: m) auto

text \<open>A list of pairs whose entries are functional has them all in its map.\<close>

lemma map_of_functional:
  assumes "\<And>k v w. (k, v) \<in> set xs \<Longrightarrow> (k, w) \<in> set xs \<Longrightarrow> v = w"
  shows "map_of xs k = Some v \<longleftrightarrow> (k, v) \<in> set xs"
  using assms by (metis map_of_SomeD weak_map_of_SomeI)

lemma rebuild_entries:
  assumes ok: "edges_ok g" and h: "edges h = edges g"
  shows "((c, n), e) \<in> set (concat (map (\<lambda>(d, es). idx_entries_of_dir h d es) (dir_contains g))) \<longleftrightarrow>
         (\<exists>t. edge_at g e = Some (Contains e c t n))"
    (is "?lhs \<longleftrightarrow> ?rhs")
proof -
  have sets: "(d, es) \<in> set (dir_contains g) \<Longrightarrow> mi_get (dir_contains g) d = es" for d es
    using edges_okD(3) [OF ok] by (simp add: mi_get_def mi_ok_def bmap_in_set_iff)
  have ge: "get_edge h x = get_edge g x" for x using h by (simp add: get_edge_def)
  show ?thesis
  proof
    assume ?lhs
    then obtain es where "(c, es) \<in> set (dir_contains g)" "e \<in> set es"
      by (auto simp: idx_entries_of_dir_iff)
    then obtain t m where e: "edge_at g e = Some (Contains e c t m)"
      using dir_edges_iff [OF ok, of e c] sets by auto
    then have "m = n"
      using \<open>?lhs\<close> get_edge_at [OF ok e] by (auto simp: idx_entries_of_dir_iff ge contains_name_def)
    then show ?rhs using e by blast
  next
    assume ?rhs
    then obtain t where e: "edge_at g e = Some (Contains e c t n)" by blast
    then have "e \<in> set (mi_get (dir_contains g) c)" using dir_edges_iff [OF ok] by blast
    then obtain es where "(c, es) \<in> set (dir_contains g)" "e \<in> set es"
      by (cases "bmap_get (dir_contains g) c") (auto simp: mi_get_def dest: map_of_SomeD)
    then show ?lhs
      using get_edge_at [OF ok e] by (force simp: idx_entries_of_dir_iff ge contains_name_def)
  qed
qed

lemma map_eq_iff:
  assumes "\<And>k v. m k = Some v \<longleftrightarrow> m' k = Some v"
  shows "m = m'"
proof
  fix k
  show "m k = m' k"
  proof (cases "m k")
    case None
    then have "m' k \<noteq> Some v" for v using assms [of k v] by simp
    then have "m' k = None" by (meson option.exhaust)
    then show ?thesis using None by simp
  next
    case (Some v)
    then show ?thesis using assms [of k v] by simp
  qed
qed

lemma fold_bmap_insert_eq:
  assumes ok: "bmap_ok m" and iff: "\<And>k v. (k, v) \<in> set xs \<longleftrightarrow> map_of m k = Some v"
  shows "fold (\<lambda>(k, v) m. bmap_insert k v m) xs [] = m"
proof (rule bmap_ext [OF fold_bmap_insert_ok [OF bmap_ok_Nil] ok])
  have "map_of (rev xs) = map_of m"
    by (rule map_eq_iff) (use map_of_functional [of "rev xs"] iff in auto)
  then show "map_of (fold (\<lambda>(k, v) m. bmap_insert k v m) xs []) = map_of m"
    by (simp add: fold_bmap_insert)
qed

lemma rebuild_idx:
  assumes ok: "edges_ok g"
  shows "rebuild_dir_name_idx (g\<lparr>dir_name_idx := m\<rparr>) = g"
proof -
  let ?xs = "concat (map (\<lambda>(d, es). idx_entries_of_dir (g\<lparr>dir_name_idx := []\<rparr>) d es) (dir_contains g))"
  have "(k, e) \<in> set ?xs \<longleftrightarrow> map_of (dir_name_idx g) k = Some e" for k e
  proof -
    obtain d n where "k = (d, n)" by fastforce
    then show ?thesis
      using rebuild_entries [OF ok, of "g\<lparr>dir_name_idx := []\<rparr>" d n e] name_idx_iff [OF ok, of d n e] by simp
  qed
  then have "fold (\<lambda>(k, v) m. bmap_insert k v m) ?xs [] = dir_name_idx g"
    by (rule fold_bmap_insert_eq [OF edges_okD(6) [OF ok]])
  then show ?thesis by (simp add: rebuild_dir_name_idx_def Let_def)
qed

text \<open>The cold path of \<open>lookup_name\<close>: with no index at all the directory is scanned.\<close>

lemma scan_name_other_idx [simp]: "scan_name (g\<lparr>dir_name_idx := m\<rparr>) n es = scan_name g n es"
  by (induction es) (simp_all add: get_edge_def split: option.split edge.split)

lemma scan_name_first:
  "edges_ok g \<Longrightarrow> \<forall>e \<in> set es. \<exists>t m. edge_at g e = Some (Contains e d t m) \<Longrightarrow>
     scan_name g n es = (if \<exists>e \<in> set es. \<exists>t. edge_at g e = Some (Contains e d t n)
                         then Option.bind (bmap_get (dir_name_idx g) (d, n)) (edge_at g) else None)"
proof (induction es)
  case (Cons e es)
  then obtain t m where e: "edge_at g e = Some (Contains e d t m)" by auto
  show ?case
  proof (cases "m = n")
    case True
    then have "bmap_get (dir_name_idx g) (d, n) = Some e"
      using name_idx_iff [OF Cons.prems(1)] e by blast
    then show ?thesis using True e get_edge_at [OF Cons.prems(1) e] by auto
  next
    case False
    then show ?thesis using Cons e get_edge_at [OF Cons.prems(1) e] by auto
  qed
qed simp

lemma cold_lookup:
  assumes ok: "edges_ok g"
  shows "lookup_name (g\<lparr>dir_name_idx := []\<rparr>) d n = lookup_name g d n"
proof -
  have all: "\<forall>e \<in> set (mi_get (dir_contains g) d). \<exists>t m. edge_at g e = Some (Contains e d t m)"
    using dir_edges_iff [OF ok] by blast
  have "lookup_name (g\<lparr>dir_name_idx := []\<rparr>) d n = scan_name g n (mi_get (dir_contains g) d)"
    by (simp add: lookup_name_def mi_get_def split: option.split)
  also have "\<dots> = Option.bind (bmap_get (dir_name_idx g) (d, n)) (edge_at g)"
  proof (cases "bmap_get (dir_name_idx g) (d, n)")
    case None
    then show ?thesis using scan_name_first [OF ok all, of n] by simp
  next
    case (Some e)
    then obtain t where "edge_at g e = Some (Contains e d t n)" using name_idx_iff [OF ok] by blast
    moreover from this have "e \<in> set (mi_get (dir_contains g) d)" using dir_edges_iff [OF ok] by blast
    ultimately show ?thesis using scan_name_first [OF ok all, of n] Some by auto
  qed
  finally show ?thesis by (simp add: lookup_name_eq [OF ok])
qed

section \<open>The stored image\<close>

text \<open>
  What the derived \<open>Serialize\<close> writes: every field of \<open>TypeGraph\<close> but the three marked
  \<open>#[serde(skip)]\<close> (the name index, the log and the capability context), arenas as sequences.
\<close>

record graph_image =
  im_inodes :: "(arena_id \<times> inode) list"
  im_dirs :: "(arena_id \<times> directory) list"
  im_caps :: "(arena_id \<times> capability) list"
  im_transactions :: "(arena_id \<times> transaction) list"
  im_versions :: "(arena_id \<times> version) list"
  im_blocks :: "(arena_id \<times> block) list"
  im_edges :: "(arena_id \<times> edge) list"
  im_rest :: type_graph

text \<open>The fields that are not arenas are copied; \<open>im_rest\<close> keeps them with the arenas and the skipped fields blank.\<close>

definition image_of :: "type_graph \<Rightarrow> graph_image" where
  "image_of g =
     \<lparr>im_inodes = arena_serialize (inodes g), im_dirs = arena_serialize (dirs g),
      im_caps = arena_serialize (caps g), im_transactions = arena_serialize (transactions g),
      im_versions = arena_serialize (versions g), im_blocks = arena_serialize (blocks g),
      im_edges = arena_serialize (edges g),
      im_rest = g\<lparr>inodes := ar_new NODE_CAPACITY, dirs := ar_new NODE_CAPACITY, caps := ar_new NODE_CAPACITY,
        transactions := ar_new NODE_CAPACITY, versions := ar_new NODE_CAPACITY,
        blocks := ar_new NODE_CAPACITY, edges := ar_new EDGE_CAPACITY,
        dir_name_idx := [], prov_log := None, cap_ctx := cap_context_anonymous\<rparr>\<rparr>"

definition graph_of_image :: "graph_image \<Rightarrow> type_graph" where
  "graph_of_image im =
     (im_rest im)\<lparr>inodes := arena_deserialize NODE_CAPACITY (im_inodes im),
       dirs := arena_deserialize NODE_CAPACITY (im_dirs im),
       caps := arena_deserialize NODE_CAPACITY (im_caps im),
       transactions := arena_deserialize NODE_CAPACITY (im_transactions im),
       versions := arena_deserialize NODE_CAPACITY (im_versions im),
       blocks := arena_deserialize NODE_CAPACITY (im_blocks im),
       edges := arena_deserialize EDGE_CAPACITY (im_edges im),
       dir_name_idx := [], prov_log := None, cap_ctx := cap_context_anonymous\<rparr>"

section \<open>The backend\<close>

text \<open>
  \<open>to_vec\<close> and \<open>from_slice\<close> are \<open>serde_json\<close>'s, \<open>None\<close> their error.  \<open>put\<close> is a write transaction that
  inserts one value into the metadata table and commits, \<open>None\<close> its error; \<open>fetch\<close> is a read
  transaction that looks it up.
\<close>

datatype 'b fetched = Fetched 'b | NoTable | NoKey | FetchError

definition save :: "(graph_image \<Rightarrow> 'b option) \<Rightarrow> ('b \<Rightarrow> 'db \<Rightarrow> 'db option) \<Rightarrow> type_graph \<Rightarrow> 'db \<Rightarrow> 'db option"
  where
  "save to_vec put g db =
     (case to_vec (image_of g) of
        None \<Rightarrow> None
      | Some serialized \<Rightarrow> put serialized db)"

definition load ::
    "('b \<Rightarrow> graph_image option) \<Rightarrow> ('db \<Rightarrow> 'b fetched) \<Rightarrow> 'db \<Rightarrow> type_graph option option" where
  "load from_slice fetch db =
     (case fetch db of
        NoTable \<Rightarrow> Some None
      | FetchError \<Rightarrow> None
      | NoKey \<Rightarrow> Some None
      | Fetched data \<Rightarrow>
          (case from_slice data of
             None \<Rightarrow> None
           | Some im \<Rightarrow> Some (Some (rebuild_dir_name_idx (graph_of_image im)))))"

section \<open>Loading what was saved\<close>

text \<open>The arenas that the well-formedness of the tree says nothing about.\<close>

definition other_arenas_ok :: "type_graph \<Rightarrow> bool" where
  "other_arenas_ok g \<longleftrightarrow>
     ar_inv (caps g) \<and> ar_capacity (caps g) = NODE_CAPACITY \<and>
     ar_inv (transactions g) \<and> ar_capacity (transactions g) = NODE_CAPACITY \<and>
     ar_inv (versions g) \<and> ar_capacity (versions g) = NODE_CAPACITY"

definition reload :: "'a arena \<Rightarrow> 'a arena" where
  "reload a = arena_deserialize (ar_capacity a) (arena_serialize a)"

lemma reload_props [simp]:
  "ar_inv a \<Longrightarrow> ar_inv (reload a)" "ar_inv a \<Longrightarrow> ar_capacity (reload a) = ar_capacity a"
  "ar_inv a \<Longrightarrow> ar_get (reload a) = ar_get a"
  unfolding reload_def by (rule arena_roundtrip; assumption)+

definition reloaded :: "type_graph \<Rightarrow> type_graph" where
  "reloaded g =
     g\<lparr>inodes := reload (inodes g), dirs := reload (dirs g), caps := reload (caps g),
       transactions := reload (transactions g), versions := reload (versions g),
       blocks := reload (blocks g), edges := reload (edges g),
       prov_log := None, cap_ctx := cap_context_anonymous\<rparr>"

lemma reloaded_fields [simp]:
  "edges (reloaded g) = reload (edges g)" "inodes (reloaded g) = reload (inodes g)"
  "dirs (reloaded g) = reload (dirs g)" "blocks (reloaded g) = reload (blocks g)"
  "dir_contains (reloaded g) = dir_contains g" "inode_incoming_contains (reloaded g) = inode_incoming_contains g"
  "inode_points_to (reloaded g) = inode_points_to g" "dir_name_idx (reloaded g) = dir_name_idx g"
  "dir_for_inode_idx (reloaded g) = dir_for_inode_idx g" "next_edge (reloaded g) = next_edge g"
  "next_inode (reloaded g) = next_inode g" "next_dir (reloaded g) = next_dir g"
  "next_block (reloaded g) = next_block g" "root_dir (reloaded g) = root_dir g"
  "root_inode (reloaded g) = root_inode g" "quotas (reloaded g) = quotas g"
  "file_data (reloaded g) = file_data g" "prov_log (reloaded g) = None"
  "cap_ctx (reloaded g) = cap_context_anonymous"
  by (simp_all add: reloaded_def)

lemma reloaded_view:
  assumes wf: "well_formed g"
  shows "well_formed (reloaded g)" "fs_of (reloaded g) = fs_of g"
proof -
  have inv: "ar_inv (edges g)" "ar_inv (inodes g)" "ar_inv (dirs g)" "ar_inv (blocks g)"
    using well_formedD(3-6) [OF wf] by (simp_all add: edges_ok_def dirs_ok_def inodes_ok_def blocks_ok_def)
  have rep: "rep_ok (reloaded g)"
    using well_formedD(1) [OF wf] inv
    by (simp add: rep_ok_def edges_ok_def dirs_ok_def inodes_ok_def blocks_ok_def)
  show view: "fs_of (reloaded g) = fs_of g"
    using inv by (simp add: fs_of_def names_of_def fun_eq_iff)
  show "well_formed (reloaded g)"
    by (rule well_formedI [OF rep view well_formedD(2) [OF wf]])
       (use well_formedD(7,8) [OF wf] in simp_all)
qed

lemma image_roundtrip:
  assumes wf: "well_formed g" and other: "other_arenas_ok g"
  shows "rebuild_dir_name_idx (graph_of_image (image_of g)) = reloaded g"
proof -
  have "graph_of_image (image_of g) = (reloaded g)\<lparr>dir_name_idx := []\<rparr>"
    using well_formedD(3-6) [OF wf] other
    by (simp add: graph_of_image_def image_of_def reloaded_def reload_def edges_ok_def dirs_ok_def inodes_ok_def
        blocks_ok_def other_arenas_ok_def)
  moreover have "edges_ok (reloaded g)" using reloaded_view(1) [OF wf] by (rule well_formedD)
  ultimately show ?thesis by (simp add: rebuild_idx)
qed

section \<open>Properties\<close>

text \<open>
  C18: what \<open>save\<close> stored, \<open>load\<close> brings back: the loaded graph is well-formed, holds the same inodes,
  directories, capabilities, transactions, versions, blocks and edges under the same numbers, and has every
  other field of the saved graph, the name index rebuilt exactly; only the log, which is switched off, and the
  capability context, which is anonymous, are not those of the saved graph.  The codec must decode what it
  encoded and the database must return what was committed.
\<close>

theorem load_save:
  assumes wf: "well_formed g" and other: "other_arenas_ok g"
    and codec: "\<And>im b. to_vec im = Some b \<Longrightarrow> from_slice b = Some im"
    and database: "\<And>b db db'. put b db = Some db' \<Longrightarrow> fetch db' = Fetched b"
    and saved: "save to_vec put g db = Some db'"
  shows "\<exists>g'. load from_slice fetch db' = Some (Some g') \<and> well_formed g' \<and>
    ar_get (inodes g') = ar_get (inodes g) \<and> ar_get (dirs g') = ar_get (dirs g) \<and>
    ar_get (caps g') = ar_get (caps g) \<and> ar_get (transactions g') = ar_get (transactions g) \<and>
    ar_get (versions g') = ar_get (versions g) \<and> ar_get (blocks g') = ar_get (blocks g) \<and>
    ar_get (edges g') = ar_get (edges g) \<and> dir_contains g' = dir_contains g \<and>
    inode_incoming_contains g' = inode_incoming_contains g \<and> inode_points_to g' = inode_points_to g \<and>
    cap_grants g' = cap_grants g \<and> cap_parent g' = cap_parent g \<and> cap_children g' = cap_children g \<and>
    file_data g' = file_data g \<and> xattrs g' = xattrs g \<and> inode_xattrs g' = inode_xattrs g \<and>
    next_xattr g' = next_xattr g \<and> symlink_targets g' = symlink_targets g \<and>
    dir_for_inode_idx g' = dir_for_inode_idx g \<and> dir_name_idx g' = dir_name_idx g \<and> acls g' = acls g \<and>
    quotas g' = quotas g \<and> next_inode g' = next_inode g \<and> next_dir g' = next_dir g \<and>
    next_cap g' = next_cap g \<and> next_txn g' = next_txn g \<and> next_version g' = next_version g \<and>
    next_block g' = next_block g \<and> next_edge g' = next_edge g \<and> root_dir g' = root_dir g \<and>
    root_inode g' = root_inode g \<and> prov_log g' = None \<and> cap_ctx g' = cap_context_anonymous"
proof -
  obtain b where b: "to_vec (image_of g) = Some b" "put b db = Some db'"
    using saved by (auto simp: save_def split: option.splits)
  have "load from_slice fetch db' = Some (Some (reloaded g))"
    using codec [OF b(1)] database [OF b(2)] by (simp add: load_def image_roundtrip [OF wf other])
  moreover have "ar_inv (inodes g)" "ar_inv (dirs g)" "ar_inv (blocks g)" "ar_inv (edges g)"
    "ar_inv (caps g)" "ar_inv (transactions g)" "ar_inv (versions g)"
    using well_formedD(3-6) [OF wf] other
    by (simp_all add: edges_ok_def dirs_ok_def inodes_ok_def blocks_ok_def other_arenas_ok_def)
  ultimately show ?thesis
    by (intro exI [of _ "reloaded g"]) (simp add: reloaded_view(1) [OF wf], simp add: reloaded_def)
qed

text \<open>A database with one cell and a codec that keeps the image as it is.\<close>

theorem load_save_witness:
  "\<exists>g'. load Some (\<lambda>db. case db of None \<Rightarrow> NoTable | Some b \<Rightarrow> Fetched b) (Some (image_of root_graph)) = Some (Some g') \<and>
     edge_at g' = edge_at root_graph \<and> dir_name_idx g' = dir_name_idx root_graph"
proof -
  have "other_arenas_ok root_graph"
    by (simp add: other_arenas_ok_def root_graph_def new_boxed_def empty_graph_def Let_def ar_new_def ar_inv_def)
  from load_save [OF root_graph_ok this, where to_vec = Some and from_slice = Some and
      put = "\<lambda>b db. Some (Some b)" and fetch = "\<lambda>db. case db of None \<Rightarrow> NoTable | Some b \<Rightarrow> Fetched b" and
      db = None and db' = "Some (image_of root_graph)"]
  show ?thesis by (force simp: save_def)
qed

text \<open>
  \<open>rebuild_dir_name_idx\<close> restores the name index exactly, whatever the index holds beforehand.
\<close>

theorem rebuild_restores_index:
  assumes "edges_ok g"
  shows "rebuild_dir_name_idx (g\<lparr>dir_name_idx := m\<rparr>) = g"
  by (rule rebuild_idx [OF assms])

theorem rebuild_restores_index_witness:
  "rebuild_dir_name_idx (dir_graph\<lparr>dir_name_idx := [((7, ''x''), 9)]\<rparr>) = dir_graph"
  by (rule rebuild_restores_index [OF well_formedD(3) [OF dir_graph_ok(1)]])

text \<open>
  Without an index \<open>lookup_name\<close> scans the directory and finds exactly what the index would have
  found.
\<close>

theorem lookup_name_cold:
  assumes "edges_ok g"
  shows "lookup_name (g\<lparr>dir_name_idx := []\<rparr>) d n = lookup_name g d n"
  by (rule cold_lookup [OF assms])

theorem lookup_name_cold_witness:
  "lookup_name (dir_graph\<lparr>dir_name_idx := []\<rparr>) 1 ''d'' = lookup_name dir_graph 1 ''d''"
  by (rule lookup_name_cold [OF well_formedD(3) [OF dir_graph_ok(1)]])

text \<open>
  But after the first new entry a graph whose index was not rebuilt loses all its other names: the
  index is no longer empty, so the scan is not tried, and the index knows only the new entry.
\<close>

theorem unrebuilt_index_loses_names:
  assumes "(d, n) \<noteq> (d', n')"
  shows "lookup_name (attach_contains e d' i n' (g\<lparr>dir_name_idx := []\<rparr>)) d n = None"
  using assms by (auto simp: attach_contains_def insert_edge_def lookup_name_def Let_def)

theorem unrebuilt_index_loses_names_witness:
  "lookup_name (attach_contains 9 1 2 ''b'' (file_graph\<lparr>dir_name_idx := []\<rparr>)) 1 ''a'' = None \<and>
   resolve_name file_graph 1 ''a'' = Some 2"
  using unrebuilt_index_loses_names [of 1 "''a''" 1 "''b''" 9 2 file_graph]
    resolve_name_view [OF file_graph_ok(1), of 1 "''a''"]
  by (simp add: file_graph_view del: fs_of_simps)

end
