(* ===== verification/Sotfs_Transactions.thy ===== *)
theory Sotfs_Transactions
  imports Sotfs_Invariants Sotfs_Storage
begin

text \<open>
  The graph-level transactions of \<open>sotfs-tx/src/lib.rs\<close>: a transaction takes a snapshot, runs a
  closure on the graph and, when the closure fails, puts the snapshot back.
\<close>

section \<open>Transactions\<close>

datatype gtxn_state = GtxnActive | GtxnCommitted | GtxnAborted

record gtxn =
  gtxn_state :: gtxn_state
  snapshot :: type_graph

text \<open>\<open>clone\<close> copies every field; the arenas through their own \<open>clone\<close>.\<close>

definition clone_graph :: "type_graph \<Rightarrow> type_graph" where
  "clone_graph g =
     g\<lparr>inodes := ar_clone (inodes g), dirs := ar_clone (dirs g), caps := ar_clone (caps g),
       transactions := ar_clone (transactions g), versions := ar_clone (versions g),
       blocks := ar_clone (blocks g), edges := ar_clone (edges g)\<rparr>"

definition gtxn_begin :: "type_graph \<Rightarrow> gtxn" where
  "gtxn_begin graph = \<lparr>gtxn_state = GtxnActive, snapshot = clone_graph graph\<rparr>"

definition gtxn_commit :: "gtxn \<Rightarrow> unit res \<times> gtxn" where
  "gtxn_commit t =
     (if gtxn_state t \<noteq> GtxnActive then (Err (InvariantViolation CommitNonActive), t)
      else (Ok (), t\<lparr>gtxn_state := GtxnCommitted\<rparr>))"

definition gtxn_rollback :: "gtxn \<Rightarrow> type_graph \<Rightarrow> type_graph" where
  "gtxn_rollback t graph = snapshot t"

definition with_transaction ::
    "type_graph \<Rightarrow> (type_graph \<Rightarrow> 'a res \<times> type_graph) \<Rightarrow> 'a res \<times> type_graph" where
  "with_transaction graph f =
     (let txn = gtxn_begin graph in
      case f graph of
        (Ok result, graph) \<Rightarrow> try_res (check_invariants graph) graph (\<lambda>_. (Ok result, graph))
      | (Err e, graph) \<Rightarrow> (Err e, gtxn_rollback txn graph)
      | (Panic, graph) \<Rightarrow> (Panic, graph)
      | (Diverge, graph) \<Rightarrow> (Diverge, graph))"

section \<open>Snapshots\<close>

lemma clone_graph_eq:
  assumes "rep_ok g" "other_arenas_ok g"
  shows "clone_graph g = g"
  using assms
  by (simp add: clone_graph_def rep_ok_def edges_ok_def dirs_ok_def inodes_ok_def blocks_ok_def
      other_arenas_ok_def ar_clone_eq)

lemma with_transaction_cases:
  assumes g: "rep_ok g" "other_arenas_ok g"
  obtains (commit) x g' where "f g = (Ok x, g')" "check_invariants g' = Ok ()" "with_transaction g f = (Ok x, g')"
  | (reject) x g' v where "f g = (Ok x, g')" "check_invariants g' = Err (InvariantViolation v)"
      "with_transaction g f = (Err (InvariantViolation v), g')"
  | (rollback) e g' where "f g = (Err e, g')" "with_transaction g f = (Err e, g)"
  | (panic) g' where "f g = (Panic, g')" "with_transaction g f = (Panic, g')"
  | (diverge) g' where "f g = (Diverge, g')" "with_transaction g f = (Diverge, g')"
proof -
  obtain r g' where f: "f g = (r, g')" by fastforce
  show thesis
  proof (cases r)
    case (Ok x)
    consider "check_invariants g' = Ok ()" | v where "check_invariants g' = Err (InvariantViolation v)"
      using check_invariants_answers [of g'] by (auto simp: answers_def)
    then show thesis using f Ok commit reject by cases (auto simp: with_transaction_def)
  next
    case (Err e)
    then show thesis
      using f rollback clone_graph_eq [OF g] by (simp add: with_transaction_def gtxn_begin_def gtxn_rollback_def)
  qed (use f panic diverge in \<open>simp_all add: with_transaction_def\<close>)
qed

section \<open>Sequences of operations\<close>

text \<open>Running one operation after the other with \<open>?\<close>, as the closures do.\<close>

definition then_op ::
    "(type_graph \<Rightarrow> 'a res \<times> type_graph) \<Rightarrow> (type_graph \<Rightarrow> 'b res \<times> type_graph) \<Rightarrow> type_graph \<Rightarrow> 'b res \<times> type_graph" where
  "then_op p q g = and_then (p g) (\<lambda>_ g. q g)"

section \<open>Properties\<close>

text \<open>
  C16: what a transaction does, by what its closure does.  When the closure returns an error the transaction
  returns that error and the graph is exactly as it was before, whatever the closure did to it.  When the
  closure succeeds the graph is the closure's: the transaction returns the closure's result if the graph
  passes \<open>check_invariants\<close> and otherwise the violation found, without undoing anything.
\<close>

theorem transaction_atomic:
  assumes "rep_ok g" "other_arenas_ok g"
  shows "(\<forall>e h. f g = (Err e, h) \<longrightarrow> with_transaction g f = (Err e, g)) \<and>
    (\<forall>x h. f g = (Ok x, h) \<longrightarrow>
       with_transaction g f = (Ok x, h) \<and> check_invariants h = Ok () \<or>
       (\<exists>v. with_transaction g f = (Err (InvariantViolation v), h) \<and> check_invariants h = Err (InvariantViolation v)))"
  by (cases rule: with_transaction_cases [OF assms, of f]) auto

lemma root_graph_other: "other_arenas_ok root_graph"
  by (simp add: other_arenas_ok_def root_graph_def new_boxed_def empty_graph_def Let_def ar_new_def ar_inv_def)

text \<open>The second creation of the same name fails, and the first one is undone.\<close>

theorem transaction_atomic_witness:
  "with_transaction root_graph
     (then_op (\<lambda>g. create_file (\<lambda>_. 0) g 1 ''a'' 0 0 420) (\<lambda>g. create_file (\<lambda>_. 0) g 1 ''a'' 0 0 420)) =
   (Err (NameExists 1 ''a''), root_graph)"
proof -
  have "resolve_name file_graph 1 ''a'' = Some 2"
    using resolve_name_view [OF file_graph_ok(1), of 1 "''a''"] by (simp add: file_graph_view del: fs_of_simps)
  then have "create_file (\<lambda>_. 0) file_graph 1 ''a'' 0 0 420 = (Err (NameExists 1 ''a''), file_graph)"
    by (simp add: create_file_def file_graph_facts bad_name_def)
  then have "then_op (\<lambda>g. create_file (\<lambda>_. 0) g 1 ''a'' 0 0 420) (\<lambda>g. create_file (\<lambda>_. 0) g 1 ''a'' 0 0 420) root_graph =
      (Err (NameExists 1 ''a''), file_graph)"
    by (simp add: then_op_def file_graph_run)
  with transaction_atomic [OF well_formedD(1) [OF root_graph_ok] root_graph_other] show ?thesis by blast
qed

text \<open>
  A transaction that succeeds returns what its closure returned, and the graph it leaves behind
  passed \<open>check_invariants\<close>; it succeeds whenever the closure does and the resulting graph is
  well-formed, has no edges but entries and monotone capabilities.
\<close>

theorem transaction_commits:
  assumes "rep_ok g" "other_arenas_ok g" and f: "f g = (Ok x, h)"
  shows "(with_transaction g f = (Ok x, h) \<longleftrightarrow> check_invariants h = Ok ()) \<and>
    (well_formed h \<longrightarrow> entry_edges_only h \<longrightarrow> bmap_ok (cap_parent h) \<longrightarrow> caps_monotone h \<longrightarrow>
       with_transaction g f = (Ok x, h))"
  using assms well_formed_checks [of h] by (cases rule: with_transaction_cases [of g f]) auto

theorem transaction_commits_witness:
  "with_transaction root_graph (\<lambda>g. (Ok (7::nat), g)) = (Ok 7, root_graph)"
proof -
  have "entry_edges_only root_graph" by (simp add: entry_edges_only_def root_graph_edges)
  then show ?thesis
    using transaction_commits [OF well_formedD(1) [OF root_graph_ok] root_graph_other, of "\<lambda>g. (Ok (7::nat), g)"]
    by (simp add: root_graph_ok root_graph_caps caps_monotone_def)
qed

text \<open>
  C17: a transaction whose closure succeeds but whose graph fails the check returns an error and keeps
  the changes: the early return after \<open>check_invariants\<close> skips the rollback.  Storing an extent whose
  block number is not an inode number is such a closure.
\<close>

theorem transaction_keeps_rejected_changes:
  assumes wf: "well_formed g" and other: "other_arenas_ok g"
    and c: "canonical i" and leaf: "\<not> is_dir (fs_of g) i"
    and cap: "next_block g < NODE_CAPACITY" "next_edge g < EDGE_CAPACITY"
    and i: "fs_inode (fs_of g) i \<noteq> None" and free: "fs_inode (fs_of g) (next_block g) = None"
    and right: "require_cap g WRITE = Ok ()"
  shows "\<exists>g' v. with_transaction g (\<lambda>g. write_block g i off start cnt) = (Err (InvariantViolation v), g') \<and>
           edge_at g' (next_edge g) = Some (PointsTo (next_edge g) i (next_block g) off) \<and>
           edge_at g (next_edge g) = None"
proof -
  obtain g' where w: "write_block g i off start cnt = (Ok (next_block g), g')" "well_formed g'" "fs_of g' = fs_of g"
      "edge_at g' (next_edge g) = Some (PointsTo (next_edge g) i (next_block g) off)"
    by (rule write_block_runs [OF wf c leaf cap i right])
  have "inode_at g' (next_block g) = None" using w(3) free by (metis fs_of_simps(1))
  then have "check_no_dangling_edges g' \<noteq> Ok ()"
    using extent_dangles [OF w(2,4)] cap(1) by (simp add: canonical_small)
  then have "check_invariants g' \<noteq> Ok ()" by (simp add: check_invariants_def and_check_Ok)
  then have "\<exists>v. with_transaction g (\<lambda>g. write_block g i off start cnt) = (Err (InvariantViolation v), g')"
    using w(1) by (cases rule: with_transaction_cases [OF well_formedD(1) [OF wf] other,
        where f = "\<lambda>g. write_block g i off start cnt"]) auto
  then show ?thesis using w(4) fresh_edge [OF well_formedD(1) [OF wf]] by blast
qed

theorem transaction_keeps_rejected_changes_witness:
  "\<exists>g g' v. with_transaction g (\<lambda>g. write_block g 2 0 100 8) = (Err (InvariantViolation v), g') \<and> g' \<noteq> g"
proof (rule write_block_twice)
  fix g assume g: "well_formed g" "fs_of g = fs_of file_graph" "require_cap g WRITE = Ok ()"
    "next_block g = 3" "next_edge g = 5" "caps g = caps file_graph" "transactions g = transactions file_graph"
    "versions g = versions file_graph"
  have "other_arenas_ok g"
    using root_graph_other create_file_frame(1) [OF file_graph_run] g(6-8)
    by (simp add: other_arenas_ok_def same_rest_def)
  moreover have "fs_inode (fs_of file_graph) 3 = None"
    using fresh_inode [OF well_formedD(1) [OF file_graph_ok(1)]] by (simp add: file_graph_facts(2))
  ultimately have "\<exists>g' v. with_transaction g (\<lambda>g. write_block g 2 0 100 8) = (Err (InvariantViolation v), g') \<and>
      edge_at g' 5 = Some (PointsTo 5 2 3 0) \<and> edge_at g 5 = None"
    using transaction_keeps_rejected_changes [OF g(1) _ small_canonical(2), where off = 0 and start = 100 and cnt = 8]
      g room file_graph_leaf file_graph_view(3)
    by (simp del: fs_of_simps)
  then show ?thesis by fastforce
qed

end
