(* ===== verification/Sotfs_Fsck.thy ===== *)
theory Sotfs_Fsck
  imports Sotfs_Invariants
begin

text \<open>
  The structural verifier \<open>fsck\<close> of \<open>sotfs-ops/src/lib.rs\<close>: it walks the whole graph and collects every
  problem it finds, with a depth-first search of its own for directory cycles.
\<close>

section \<open>Report\<close>

text \<open>
  A finding keeps the facts that its description is formatted from; \<open>fsck_invariant\<close> is the static
  string stored beside them.
\<close>

datatype fsck_error =
    ContainsNoDir edge_id dir_id
  | ContainsNoInode edge_id inode_id
  | PointsToNoInode edge_id inode_id
  | PointsToNoBlock edge_id block_id
  | WrongLinkCount inode_id u32 nat
  | NameTwice dir_id string
  | CycleAt dir_id
  | WrongRefcount block_id u32 nat
  | XattrsOfNoInode inode_id
  | NoSuchXattr inode_id xattr_id

fun fsck_invariant :: "fsck_error \<Rightarrow> string" where
  "fsck_invariant (ContainsNoDir _ _) = ''NoDanglingEdges''"
| "fsck_invariant (ContainsNoInode _ _) = ''NoDanglingEdges''"
| "fsck_invariant (PointsToNoInode _ _) = ''NoDanglingEdges''"
| "fsck_invariant (PointsToNoBlock _ _) = ''NoDanglingEdges''"
| "fsck_invariant (WrongLinkCount _ _ _) = ''LinkCountConsistent''"
| "fsck_invariant (NameTwice _ _) = ''UniqueNamesPerDir''"
| "fsck_invariant (CycleAt _) = ''NoDirCycles''"
| "fsck_invariant (WrongRefcount _ _ _) = ''BlockRefcount''"
| "fsck_invariant (XattrsOfNoInode _) = ''XattrIntegrity''"
| "fsck_invariant (NoSuchXattr _ _) = ''XattrIntegrity''"

record fsck_report =
  fsck_errors :: "fsck_error list"
  fsck_warnings :: "inode_id list"
  fsck_inode_count :: nat
  fsck_dir_count :: nat
  fsck_edge_count :: nat

section \<open>Cycle search\<close>

text \<open>
  \<open>visited\<close> and \<open>stack\<close> are shared by the whole recursion; the nested tests of the loop body are those
  of \<open>child_dir_of\<close>.
\<close>

fun has_cycle_dfs ::
    "nat \<Rightarrow> type_graph \<Rightarrow> dir_id \<Rightarrow> dir_id bset \<Rightarrow> dir_id bset \<Rightarrow> (bool \<times> dir_id bset \<times> dir_id bset) option"
  and dfs_edges ::
    "nat \<Rightarrow> type_graph \<Rightarrow> edge_id list \<Rightarrow> dir_id bset \<Rightarrow> dir_id bset \<Rightarrow> (bool \<times> dir_id bset \<times> dir_id bset) option"
  where
  "has_cycle_dfs 0 g dir visited stack = None"
| "has_cycle_dfs (Suc n) g dir visited stack =
     (case dfs_edges n g (mi_get (dir_contains g) dir) (bset_insert dir visited) (bset_insert dir stack) of
        None \<Rightarrow> None
      | Some (r, visited', stack') \<Rightarrow>
          (if r then Some (True, visited', stack') else Some (False, visited', bset_remove dir stack')))"
| "dfs_edges n g [] visited stack = Some (False, visited, stack)"
| "dfs_edges n g (eid # eids) visited stack =
     (case child_dir_of g eid of
        None \<Rightarrow> dfs_edges n g eids visited stack
      | Some child_dir \<Rightarrow>
          (if child_dir \<in> set stack then Some (True, visited, stack)
           else if child_dir \<notin> set visited then
             (case has_cycle_dfs n g child_dir visited stack of
                None \<Rightarrow> None
              | Some (r, visited', stack') \<Rightarrow>
                  (if r then Some (True, visited', stack') else dfs_edges n g eids visited' stack'))
           else dfs_edges n g eids visited stack))"

text \<open>The loop over all directories; the two sets carry over from one directory to the next.\<close>

fun fsck_cycles ::
    "type_graph \<Rightarrow> directory list \<Rightarrow> dir_id bset \<Rightarrow> dir_id bset \<Rightarrow> fsck_error list option" where
  "fsck_cycles g [] visited stack = Some []"
| "fsck_cycles g (dir # ds) visited stack =
     (if dir_id dir \<notin> set visited then
        (case has_cycle_dfs (dfs_fuel g) g (dir_id dir) visited stack of
           None \<Rightarrow> None
         | Some (r, visited', stack') \<Rightarrow>
             map_option (\<lambda>errs. if r then CycleAt (dir_id dir) # errs else errs)
               (fsck_cycles g ds visited' stack'))
      else fsck_cycles g ds visited stack)"

section \<open>The other passes\<close>

text \<open>\<open>for aid in arena.keys() { if let Some(x) = arena.get(aid) { .. } }\<close>\<close>

definition live :: "'a arena \<Rightarrow> 'a list" where
  "live a = concat (map (\<lambda>aid. case ar_get a aid of Some x \<Rightarrow> [x] | None \<Rightarrow> []) (ar_keys a))"

definition fsck_edge :: "type_graph \<Rightarrow> edge \<Rightarrow> fsck_error list" where
  "fsck_edge g e =
     (case e of
        Contains i src tgt _ \<Rightarrow>
          (if \<not> contains_dir g src then [ContainsNoDir i src] else []) @
          (if \<not> contains_inode g tgt then [ContainsNoInode i tgt] else [])
      | PointsTo i src tgt _ \<Rightarrow>
          (if \<not> contains_inode g src then [PointsToNoInode i src] else []) @
          (if \<not> contains_block g tgt then [PointsToNoBlock i tgt] else [])
      | _ \<Rightarrow> [])"

text \<open>The link count and the reference count are compared as \<open>usize\<close>, without truncation.\<close>

definition fsck_links :: "type_graph \<Rightarrow> inode \<Rightarrow> fsck_error list" where
  "fsck_links g n =
     (let incoming = length (filter (counts_as_link g) (mi_get (inode_incoming_contains g) (inode_id n)))
      in if unat (link_count n) \<noteq> incoming then [WrongLinkCount (inode_id n) (link_count n) incoming] else [])"

fun fsck_names :: "type_graph \<Rightarrow> dir_id \<Rightarrow> edge_id list \<Rightarrow> string list \<Rightarrow> fsck_error list" where
  "fsck_names g d [] names = []"
| "fsck_names g d (eid # eids) names =
     (case get_edge g eid of
        Some (Contains _ _ _ name) \<Rightarrow>
          (if name \<in> set names then [NameTwice d name] else []) @ fsck_names g d eids (names @ [name])
      | _ \<Rightarrow> fsck_names g d eids names)"

definition fsck_block :: "type_graph \<Rightarrow> block \<Rightarrow> fsck_error list" where
  "fsck_block g b =
     (let incoming = length (filter (points_to_block (block_id b)) (ar_values (edges g)))
      in if unat (refcount b) \<noteq> incoming then [WrongRefcount (block_id b) (refcount b) incoming] else [])"

definition fsck_orphan :: "type_graph \<Rightarrow> inode \<Rightarrow> inode_id list" where
  "fsck_orphan g n =
     (if inode_id n \<noteq> root_inode g \<and> length (mi_get (inode_incoming_contains g) (inode_id n)) = 0
      then [inode_id n] else [])"

definition fsck_xattrs :: "type_graph \<Rightarrow> inode_id \<Rightarrow> xattr_id list \<Rightarrow> fsck_error list" where
  "fsck_xattrs g i xids =
     (if \<not> contains_inode g i then [XattrsOfNoInode i] else []) @
     concat (map (\<lambda>x. if bmap_get (xattrs g) x = None then [NoSuchXattr i x] else []) xids)"

definition fsck :: "type_graph \<Rightarrow> fsck_report option" where
  "fsck g =
     map_option (\<lambda>cycles.
       \<lparr>fsck_errors =
          concat (map (fsck_edge g) (live (edges g))) @
          concat (map (fsck_links g) (live (inodes g))) @
          concat (map (\<lambda>(d, eids). fsck_names g d eids []) (dir_contains g)) @
          cycles @
          concat (map (fsck_block g) (live (blocks g))) @
          concat (map (\<lambda>(i, xids). fsck_xattrs g i xids) (inode_xattrs g)),
        fsck_warnings = concat (map (fsck_orphan g) (live (inodes g))),
        fsck_inode_count = ar_len (inodes g), fsck_dir_count = ar_len (dirs g),
        fsck_edge_count = ar_len (edges g)\<rparr>)
     (fsck_cycles g (live (dirs g)) [] [])"

section \<open>The search ends\<close>

lemma dfs_visited_mono:
  "has_cycle_dfs n g c V S = Some (r, V', S') \<Longrightarrow> set V \<subseteq> set V'"
  "dfs_edges n g es V S = Some (r, V', S') \<Longrightarrow> set V \<subseteq> set V'"
proof (induction n g c V S and n g es V S arbitrary: r V' S' and r V' S' rule: has_cycle_dfs_dfs_edges.induct)
  case (2 n g c V S)
  then show ?case by (fastforce split: if_splits option.splits prod.splits)
next
  case (4 n g e es V S)
  then show ?case by (fastforce split: option.splits if_splits prod.splits)
qed auto

lemma dfs_enough_fuel:
  "c \<notin> set V \<Longrightarrow> card (dir_keys g - set V) < n \<Longrightarrow> has_cycle_dfs n g c V S \<noteq> None"
  "es = [] \<or> card (dir_keys g - set V) < n \<Longrightarrow> dfs_edges n g es V S \<noteq> None"
proof (induction n g c V S and n g es V S rule: has_cycle_dfs_dfs_edges.induct)
  case (2 n g c V S)
  have "mi_get (dir_contains g) c = [] \<or> card (dir_keys g - set (bset_insert c V)) < n"
  proof (cases "c \<in> dir_keys g")
    case True
    then show ?thesis
      using card_keys_diff [of c g "set V" "insert c (set V)"] 2(2,3) by simp
  next
    case False
    then show ?thesis by (simp add: no_key_no_edges)
  qed
  then show ?case using 2(1) by (auto split: option.split prod.split)
next
  case (4 n g e es V S)
  have lt: "card (dir_keys g - set V) < n" using 4(5) by simp
  have later: "card (dir_keys g - set V') < n" if "has_cycle_dfs n g c V S = Some (r, V', S')" for c r V' S'
    using lt dfs_visited_mono(1) [OF that]
    by (meson Diff_mono List.finite_set card_mono finite_Diff finite_imageI le_less_trans subset_refl)
  show ?case
  proof (cases "child_dir_of g e")
    case None
    then show ?thesis using 4(1) lt by simp
  next
    case (Some c)
    consider "c \<in> set S" | "c \<notin> set S" "c \<in> set V" | "c \<notin> set S" "c \<notin> set V" by blast
    then show ?thesis
    proof cases
      case 3
      with 4(2) [OF Some] lt obtain r V' S' where d: "has_cycle_dfs n g c V S = Some (r, V', S')" by auto
      show ?thesis using 4(3) [OF Some 3(1) 3(2) d] later [OF d] d Some 3 by (cases r) auto
    qed (use 4(4) [OF Some] lt Some in auto)
  qed
qed auto

section \<open>The search is right\<close>

text \<open>
  The finished directories, visited and off the stack: they are closed under entries and none lies on
  a cycle.
\<close>

definition finished :: "type_graph \<Rightarrow> dir_id set \<Rightarrow> dir_id set \<Rightarrow> bool" where
  "finished g V S \<longleftrightarrow> S \<subseteq> V \<and> child_rel g `` (V - S) \<subseteq> V - S \<and> (\<forall>x \<in> V - S. (x, x) \<notin> (child_rel g)\<^sup>+)"

lemma finished_reach:
  assumes "finished g V S" and "(x, y) \<in> (child_rel g)\<^sup>*" and "x \<in> V - S"
  shows "y \<in> V - S"
  using assms(2,3)
proof (induction rule: rtrancl_induct)
  case (step y z)
  then show ?case using assms(1) unfolding finished_def by blast
qed simp

lemma finished_enter: "finished g V S \<Longrightarrow> c \<notin> V \<Longrightarrow> finished g (insert c V) (insert c S)"
  unfolding finished_def by (simp add: insert_Diff_if) blast

lemma finished_leave:
  assumes f: "finished g V (insert c S)" and c: "c \<notin> S" and ch: "child_rel g `` {c} \<subseteq> V - insert c S"
  shows "finished g V S"
proof -
  have "(c, c) \<notin> (child_rel g)\<^sup>+"
  proof
    assume "(c, c) \<in> (child_rel g)\<^sup>+"
    then obtain d where "(c, d) \<in> child_rel g" "(d, c) \<in> (child_rel g)\<^sup>*" by (meson tranclD)
    then show False using finished_reach [OF f, of d c] ch by blast
  qed
  moreover have "V - S = insert c (V - insert c S)" using f c by (auto simp: finished_def)
  ultimately show ?thesis using f ch unfolding finished_def by auto
qed

lemma dfs_complete:
  "has_cycle_dfs n g c V S = Some (False, V', S') \<Longrightarrow> c \<notin> set V \<Longrightarrow> c \<notin> set S \<Longrightarrow> finished g (set V) (set S) \<Longrightarrow>
     set S' = set S \<and> finished g (set V') (set S) \<and> c \<in> set V' - set S"
  "dfs_edges n g es V S = Some (False, V', S') \<Longrightarrow> finished g (set V) (set S) \<Longrightarrow>
     set S' = set S \<and> finished g (set V') (set S) \<and> children_via g es \<subseteq> set V' - set S"
proof (induction n g c V S and n g es V S arbitrary: V' S' and V' S' rule: has_cycle_dfs_dfs_edges.induct)
  case (2 n g c V S)
  obtain S1 where d: "dfs_edges n g (mi_get (dir_contains g) c) (bset_insert c V) (bset_insert c S) = Some (False, V', S1)"
    "S' = bset_remove c S1"
    using 2(2) by (auto split: option.splits prod.splits if_splits)
  have "finished g (set (bset_insert c V)) (set (bset_insert c S))"
    using finished_enter [OF 2(5,3)] by simp
  from 2(1) [OF d(1) this] have *: "set S1 = insert c (set S)" "finished g (set V') (insert c (set S))"
    "child_rel g `` {c} \<subseteq> set V' - insert c (set S)"
    by (simp_all add: children_via_rel)
  have "c \<in> set V'" using dfs_visited_mono(2) [OF d(1)] by auto
  then show ?case using finished_leave [OF *(2) 2(4) *(3)] *(1) d(2) 2(4) by auto
next
  case (4 n g e es V S)
  show ?case
  proof (cases "child_dir_of g e")
    case None
    then show ?thesis using 4(1) 4(5,6) by simp
  next
    case (Some c)
    have c: "c \<notin> set S" using 4(5) Some by (auto split: if_splits)
    show ?thesis
    proof (cases "c \<in> set V")
      case True
      then have "dfs_edges n g es V S = Some (False, V', S')" using 4(5) Some c by simp
      moreover from this have "set V \<subseteq> set V'" by (rule dfs_visited_mono)
      ultimately show ?thesis using 4(4) [OF Some c] True 4(6) Some c by auto
    next
      case False
      obtain V1 S1 where d1: "has_cycle_dfs n g c V S = Some (False, V1, S1)"
        and d2: "dfs_edges n g es V1 S1 = Some (False, V', S')"
        using 4(5) Some c False by (auto split: option.splits prod.splits if_splits)
      have 1: "set S1 = set S \<and> finished g (set V1) (set S) \<and> c \<in> set V1 - set S"
        by (rule 4(2) [OF Some c False d1 False c 4(6)])
      then have "set S' = set S1 \<and> finished g (set V') (set S1) \<and> children_via g es \<subseteq> set V' - set S1"
        using 4(3) [OF Some c False d1 refl refl _ d2] by simp
      then show ?thesis using 1 dfs_visited_mono(2) [OF d2] Some by auto
    qed
  qed
qed auto

lemma dfs_sound:
  "has_cycle_dfs n g c V S = Some (True, V', S') \<Longrightarrow> c \<notin> set V \<Longrightarrow> c \<notin> set S \<Longrightarrow> finished g (set V) (set S) \<Longrightarrow>
     \<forall>s \<in> set S. (s, c) \<in> (child_rel g)\<^sup>+ \<Longrightarrow>
     \<exists>y. (c, y) \<in> (child_rel g)\<^sup>* \<and> (y, y) \<in> (child_rel g)\<^sup>+"
  "dfs_edges n g es V S = Some (True, V', S') \<Longrightarrow> finished g (set V) (set S) \<Longrightarrow>
     \<forall>s \<in> set S. \<forall>c \<in> children_via g es. (s, c) \<in> (child_rel g)\<^sup>+ \<Longrightarrow>
     \<exists>c \<in> children_via g es. \<exists>y. (c, y) \<in> (child_rel g)\<^sup>* \<and> (y, y) \<in> (child_rel g)\<^sup>+"
proof (induction n g c V S and n g es V S arbitrary: V' S' and V' S' rule: has_cycle_dfs_dfs_edges.induct)
  case (2 n g c V S)
  obtain V1 S1 where d: "dfs_edges n g (mi_get (dir_contains g) c) (bset_insert c V) (bset_insert c S) = Some (True, V1, S1)"
    using 2(2) by (auto split: option.splits prod.splits if_splits)
  have "finished g (set (bset_insert c V)) (set (bset_insert c S))"
    using finished_enter [OF 2(5,3)] by simp
  moreover have "\<forall>s \<in> set (bset_insert c S). \<forall>d \<in> children_via g (mi_get (dir_contains g) c). (s, d) \<in> (child_rel g)\<^sup>+"
    using 2(6) by (auto simp: children_via_rel intro: trancl_into_trancl)
  ultimately have "\<exists>d \<in> child_rel g `` {c}. \<exists>y. (d, y) \<in> (child_rel g)\<^sup>* \<and> (y, y) \<in> (child_rel g)\<^sup>+"
    using 2(1) [OF d] by (simp only: children_via_rel)
  then show ?case by (meson Image_singleton_iff converse_rtrancl_into_rtrancl)
next
  case (4 n g e es V S)
  show ?case
  proof (cases "child_dir_of g e")
    case None
    then show ?thesis using 4(1) 4(5-7) by simp
  next
    case (Some c)
    have path: "\<forall>s \<in> set S. (s, c) \<in> (child_rel g)\<^sup>+" "\<forall>s \<in> set S. \<forall>c \<in> children_via g es. (s, c) \<in> (child_rel g)\<^sup>+"
      using 4(7) Some by simp_all
    consider "c \<in> set S" | "c \<notin> set S" "c \<in> set V" | "c \<notin> set S" "c \<notin> set V" by blast
    then show ?thesis
    proof cases
      case 1
      then show ?thesis using path(1) Some by auto
    next
      case 2
      then show ?thesis using 4(4) [OF Some 2(1)] 4(5,6) path(2) Some by simp
    next
      case 3
      show ?thesis
      proof (cases "\<exists>V1 S1. has_cycle_dfs n g c V S = Some (True, V1, S1)")
        case True
        then show ?thesis using 4(2) [OF Some 3 _ 3(2,1) 4(6) path(1)] Some by auto
      next
        case False
        then obtain V1 S1 where d1: "has_cycle_dfs n g c V S = Some (False, V1, S1)"
          and d2: "dfs_edges n g es V1 S1 = Some (True, V', S')"
          using 4(5) Some 3 by (auto split: option.splits prod.splits if_splits)
        have "set S1 = set S \<and> finished g (set V1) (set S)"
          using dfs_complete(1) [OF d1 3(2,1) 4(6)] by blast
        then show ?thesis using 4(3) [OF Some 3 d1 refl refl _ d2] path(2) Some by auto
      qed
    qed
  qed
qed auto

section \<open>The directory pass\<close>

lemma fsck_cycles_total: "\<exists>errs. fsck_cycles g ds V S = Some errs"
proof (induction ds arbitrary: V S)
  case (Cons d ds)
  have "has_cycle_dfs (dfs_fuel g) g (dir_id d) V S \<noteq> None" if "dir_id d \<notin> set V"
    using dfs_enough_fuel(1) [OF that] card_keys_fuel [of g "set V"] by blast
  then show ?case using Cons.IH by (cases "dir_id d \<in> set V") (fastforce split: option.split)+
qed simp

text \<open>The pass is silent exactly when no directory it starts from leads to a cycle.\<close>

lemma fsck_cycles_silent:
  "finished g (set V) {} \<Longrightarrow> set S = {} \<Longrightarrow>
     fsck_cycles g ds V S = Some [] \<longleftrightarrow>
       (\<forall>d \<in> set ds. \<forall>y. (dir_id d, y) \<in> (child_rel g)\<^sup>* \<longrightarrow> (y, y) \<notin> (child_rel g)\<^sup>+)"
proof (induction ds arbitrary: V S)
  case (Cons d ds)
  have finish: "\<forall>y. (x, y) \<in> (child_rel g)\<^sup>* \<longrightarrow> (y, y) \<notin> (child_rel g)\<^sup>+"
    if "finished g W {}" "x \<in> W" for x W
    using finished_reach [OF that(1), of x] that unfolding finished_def by blast
  show ?case
  proof (cases "dir_id d \<in> set V")
    case True
    then show ?thesis using Cons.IH [OF Cons.prems] finish [OF Cons.prems(1)] by simp
  next
    case False
    obtain r V' S' where d: "has_cycle_dfs (dfs_fuel g) g (dir_id d) V S = Some (r, V', S')"
      using dfs_enough_fuel(1) [OF False] card_keys_fuel [of g "set V"] by fastforce
    show ?thesis
    proof (cases r)
      case True
      then have "\<exists>y. (dir_id d, y) \<in> (child_rel g)\<^sup>* \<and> (y, y) \<in> (child_rel g)\<^sup>+"
        using dfs_sound(1) [of "dfs_fuel g" g "dir_id d" V S V' S'] d False Cons.prems by simp
      then show ?thesis using True d False by (auto split: option.split)
    next
      case False
      then have "set S' = {} \<and> finished g (set V') {} \<and> dir_id d \<in> set V'"
        using dfs_complete(1) [of "dfs_fuel g" g "dir_id d" V S V' S'] d \<open>dir_id d \<notin> set V\<close> Cons.prems by simp
      moreover from this have "fsck_cycles g (d # ds) V S = Some [] \<longleftrightarrow> fsck_cycles g ds V' S' = Some []"
        using d False \<open>dir_id d \<notin> set V\<close> by simp
      ultimately show ?thesis
        using Cons.IH [of V' S'] finish [of "set V'" "dir_id d"] by simp
    qed
  qed
qed simp

section \<open>What a clean report means\<close>

lemma live_iff: "ar_inv a \<Longrightarrow> x \<in> set (live a) \<longleftrightarrow> (\<exists>i. ar_get a i = Some x)"
  using ar.entries_get [of a] by (force simp: live_def ar_keys_iter split: option.splits)

lemma live_all: "ar_inv a \<Longrightarrow> (\<forall>x \<in> set (live a). P x) \<longleftrightarrow> (\<forall>i x. ar_get a i = Some x \<longrightarrow> P x)"
  by (metis live_iff)

lemma dirs_silent:
  assumes "ar_inv (dirs g)"
  shows "fsck_cycles g (live (dirs g)) [] [] = Some [] \<longleftrightarrow>
     (\<forall>d x y. dir_at g d = Some x \<longrightarrow> (dir_id x, y) \<in> (child_rel g)\<^sup>* \<longrightarrow> (y, y) \<notin> (child_rel g)\<^sup>+)"
  using live_all [OF assms, of "\<lambda>x. \<forall>y. (dir_id x, y) \<in> (child_rel g)\<^sup>* \<longrightarrow> (y, y) \<notin> (child_rel g)\<^sup>+"]
  by (simp add: fsck_cycles_silent finished_def)

lemma dirs_acyclic:
  assumes d: "dirs_ok g"
  shows "fsck_cycles g (live (dirs g)) [] [] = Some [] \<longleftrightarrow> acyclic (child_rel g)"
proof -
  have inv: "ar_inv (dirs g)" and ids: "\<And>c x. dir_at g c = Some x \<Longrightarrow> dir_id x = c"
    using d by (simp_all add: dirs_ok_def)
  have "\<exists>c x. dir_at g c = Some x \<and> (c, y) \<in> (child_rel g)\<^sup>*" if y: "(y, y) \<in> (child_rel g)\<^sup>+" for y
    using child_stored [OF d] tranclD2 [OF y] by blast
  then show ?thesis
    unfolding dirs_silent [OF inv] acyclic_def using ids by blast
qed

lemma fsck_edge_clean:
  "fsck_edge g x = [] \<longleftrightarrow>
     (\<forall>i d t n. x = Contains i d t n \<longrightarrow> contains_dir g d \<and> contains_inode g t) \<and>
     (\<forall>i s b off. x = PointsTo i s b off \<longrightarrow> contains_inode g s \<and> contains_block g b)"
  by (cases x) (auto simp: fsck_edge_def)

lemma fsck_names_clean:
  "edges_ok g \<Longrightarrow> distinct es \<Longrightarrow> \<forall>e \<in> set es. \<exists>t n. edge_at g e = Some (Contains e d t n) \<and> n \<notin> set names \<Longrightarrow>
     fsck_names g d es names = []"
proof (induction es arbitrary: names)
  case (Cons e es)
  then obtain t n where en: "edge_at g e = Some (Contains e d t n)" "n \<notin> set names" by auto
  have "\<exists>t m. edge_at g f = Some (Contains f d t m) \<and> m \<notin> set (names @ [n])" if "f \<in> set es" for f
  proof -
    have "\<exists>t m. edge_at g f = Some (Contains f d t m) \<and> m \<notin> set names"
      using Cons.prems(3) that by (meson list.set_intros(2))
    then obtain t' m where f: "edge_at g f = Some (Contains f d t' m)" "m \<notin> set names" by blast
    have "m \<noteq> n" using edge_key_unique [OF Cons.prems(1) en(1)] f(1) Cons.prems(2) that by auto
    then show ?thesis using f by simp
  qed
  then have "fsck_names g d es (names @ [n]) = []"
    using Cons.IH Cons.prems(1,2) by simp
  then show ?case using en edge_match [OF Cons.prems(1) en(1)] by simp
qed simp

text \<open>The attribute index points to stored inodes and attributes.\<close>

definition xattr_index_ok :: "type_graph \<Rightarrow> bool" where
  "xattr_index_ok g \<longleftrightarrow>
     (\<forall>(i, xs) \<in> set (inode_xattrs g). contains_inode g i \<and> (\<forall>x \<in> set xs. bmap_get (xattrs g) x \<noteq> None))"

lemma links_pass:
  assumes e: "edges_ok g" and i: "inodes_ok g"
  shows "(\<forall>x \<in> set (live (inodes g)). fsck_links g x = []) \<longleftrightarrow> links_ok (fs_of g)"
proof -
  have "fsck_links g x = [] \<longleftrightarrow> unat (link_count x) = card (links (fs_of g) i)" if "inode_at g i = Some x" for i x
    using that i by (auto simp: fsck_links_def Let_def links_counted [OF e] inodes_ok_def)
  moreover have "ar_inv (inodes g)" using i by (simp add: inodes_ok_def)
  ultimately show ?thesis by (simp add: live_all links_ok_def)
qed

lemma names_pass:
  assumes e: "edges_ok g" and d: "(d, es) \<in> set (dir_contains g)"
  shows "fsck_names g d es [] = []"
proof -
  have mi: "mi_ok (dir_contains g)" by (rule edges_okD(3) [OF e])
  then have "mi_get (dir_contains g) d = es"
    using d by (simp add: mi_get_def mi_ok_def bmap_in_set_iff)
  moreover from this have "distinct es" using mi_ok_distinct [OF mi, of d] by simp
  ultimately show ?thesis using fsck_names_clean [OF e, of es d "[]"] dir_edges_iff [OF e, of _ d] by auto
qed

lemma blocks_pass:
  assumes e: "edges_ok g" and b: "blocks_ok g"
  shows "\<forall>x \<in> set (live (blocks g)). fsck_block g x = []"
proof
  fix x assume "x \<in> set (live (blocks g))"
  then obtain i where "block_at g i = Some x" using b by (auto simp: live_iff blocks_ok_def)
  then show "fsck_block g x = []"
    using b by (simp add: fsck_block_def Let_def refs_counted [OF e] blocks_ok_def)
qed

lemma stored_points:
  assumes rep: "rep_ok g" and e: "edge_at g e = Some (PointsTo i s b off)"
  shows "contains_inode g s \<and> contains_block g b"
proof -
  have "proj points_tgt (edge_at g) e = Some b" "proj points_src (edge_at g) e = Some s"
    using e by (simp_all add: proj_def)
  then obtain x y where xy: "inode_at g s = Some x" "block_at g b = Some y"
    using rep_okD(4) [OF rep] unfolding blocks_ok_def by blast
  moreover have "canonical s" "canonical b"
    using inode_canonical [OF rep_okD(3) [OF rep] xy(1)] block_canonical [OF rep_okD(4) [OF rep] xy(2)] .
  ultimately show ?thesis
    using rep by (simp add: contains_inode_def contains_block_def ar_contains_get rep_ok_def inodes_ok_def blocks_ok_def)
qed

definition entries_stored :: "type_graph \<Rightarrow> bool" where
  "entries_stored g \<longleftrightarrow>
     (\<forall>e i d t n. edge_at g e = Some (Contains i d t n) \<longrightarrow> contains_dir g d \<and> contains_inode g t)"

lemma edges_pass:
  assumes rep: "rep_ok g"
  shows "(\<forall>x \<in> set (live (edges g)). fsck_edge g x = []) \<longleftrightarrow> entries_stored g"
proof -
  have inv: "ar_inv (edges g)" using rep by (simp add: rep_ok_def edges_ok_def)
  have "fsck_edge g x = [] \<longleftrightarrow> (\<forall>i d t n. x = Contains i d t n \<longrightarrow> contains_dir g d \<and> contains_inode g t)"
    if "edge_at g e = Some x" for e x
    using stored_points [OF rep, of e] that by (simp add: fsck_edge_clean)
  then show ?thesis unfolding live_all [OF inv] entries_stored_def by fast
qed

lemma fsck_xattrs_clean:
  "fsck_xattrs g i xs = [] \<longleftrightarrow> contains_inode g i \<and> (\<forall>x \<in> set xs. bmap_get (xattrs g) x \<noteq> None)"
proof -
  have "concat (map (\<lambda>x. if bmap_get (xattrs g) x = None then [NoSuchXattr i x] else []) xs) = [] \<longleftrightarrow>
      (\<forall>x \<in> set xs. bmap_get (xattrs g) x \<noteq> None)"
    by (induction xs) simp_all
  then show ?thesis by (simp add: fsck_xattrs_def)
qed

lemma xattrs_pass: "(\<forall>(i, xs) \<in> set (inode_xattrs g). fsck_xattrs g i xs = []) \<longleftrightarrow> xattr_index_ok g"
  by (simp add: xattr_index_ok_def fsck_xattrs_clean split_def)

lemma fsck_returns: "\<exists>r. fsck g = Some r"
  using fsck_cycles_total [of g "live (dirs g)" "[]" "[]"] by (auto simp: fsck_def)

lemma fsck_clean_iff:
  assumes rep: "rep_ok g" and r: "fsck g = Some r"
  shows "fsck_errors r = [] \<longleftrightarrow>
    entries_stored g \<and> links_ok (fs_of g) \<and> acyclic (child_rel g) \<and> xattr_index_ok g"
proof -
  obtain cs where cs: "fsck_cycles g (live (dirs g)) [] [] = Some cs"
    using fsck_cycles_total by blast
  have "(\<forall>(d, es) \<in> set (dir_contains g). fsck_names g d es [] = [])"
    using names_pass [OF rep_okD(1) [OF rep]] by blast
  then have "fsck_errors r = [] \<longleftrightarrow>
      (\<forall>x \<in> set (live (edges g)). fsck_edge g x = []) \<and> (\<forall>x \<in> set (live (inodes g)). fsck_links g x = []) \<and>
      cs = [] \<and> (\<forall>x \<in> set (live (blocks g)). fsck_block g x = []) \<and>
      (\<forall>(i, xs) \<in> set (inode_xattrs g). fsck_xattrs g i xs = [])"
    using r cs by (auto simp: fsck_def)
  then show ?thesis
    using edges_pass [OF rep] links_pass [OF rep_okD(1,3) [OF rep]] blocks_pass [OF rep_okD(1,4) [OF rep]]
      xattrs_pass [of g] dirs_acyclic [OF rep_okD(2) [OF rep]] cs by simp
qed

lemma ar_len_dom: "ar_inv a \<Longrightarrow> ar_len a = card (dom (ar_get a))"
  by (auto simp: ar_inv_def ar_get_inv dom_def intro!: arg_cong [where f = card])

lemma fsck_counts:
  assumes rep: "rep_ok g" and r: "fsck g = Some r"
  shows "fsck_inode_count r = card (dom (inode_at g))" "fsck_dir_count r = card (dom (dir_at g))"
    "fsck_edge_count r = card (dom (edge_at g))"
  using rep r by (auto simp: fsck_def rep_ok_def edges_ok_def dirs_ok_def inodes_ok_def ar_len_dom)

lemma fsck_orphans:
  assumes rep: "rep_ok g" and r: "fsck g = Some r"
  shows "set (fsck_warnings r) =
    {i. inode_at g i \<noteq> None \<and> i \<noteq> root_inode g \<and> (\<forall>k. names_of g k \<noteq> Some i)}"
proof -
  note e = rep_okD(1) [OF rep]
  have none: "mi_get (inode_incoming_contains g) i = [] \<longleftrightarrow> (\<forall>k. names_of g k \<noteq> Some i)" for i
  proof -
    have "mi_get (inode_incoming_contains g) i = [] \<longleftrightarrow> (\<forall>x. x \<notin> set (mi_get (inode_incoming_contains g) i))"
      by (simp add: all_not_in_conv)
    also have "\<dots> \<longleftrightarrow> (\<forall>d n. names_of g (d, n) \<noteq> Some i)"
      using incoming_iff [OF e, of _ i] names_of_iff [OF e, of _ _ i] by blast
    finally show ?thesis by (simp add: split_paired_All)
  qed
  have "set (fsck_warnings r) = (\<Union>x \<in> set (live (inodes g)). set (fsck_orphan g x))"
    using r by (auto simp: fsck_def)
  also have "\<dots> = {i. inode_at g i \<noteq> None \<and> i \<noteq> root_inode g \<and> (\<forall>k. names_of g k \<noteq> Some i)}"
  proof (intro set_eqI iffI)
    fix i assume "i \<in> (\<Union>x \<in> set (live (inodes g)). set (fsck_orphan g x))"
    then obtain x j where x: "inode_at g j = Some x" "i \<in> set (fsck_orphan g x)"
      using rep_okD(3) [OF rep] by (auto simp: live_iff inodes_ok_def)
    then have "inode_id x = j" using rep_okD(3) [OF rep] by (simp add: inodes_ok_def)
    then show "i \<in> {i. inode_at g i \<noteq> None \<and> i \<noteq> root_inode g \<and> (\<forall>k. names_of g k \<noteq> Some i)}"
      using x by (simp add: fsck_orphan_def none split: if_splits)
  next
    fix i assume i: "i \<in> {i. inode_at g i \<noteq> None \<and> i \<noteq> root_inode g \<and> (\<forall>k. names_of g k \<noteq> Some i)}"
    then obtain x where x: "inode_at g i = Some x" by auto
    then have "inode_id x = i" "x \<in> set (live (inodes g))"
      using rep_okD(3) [OF rep] by (auto simp: live_iff inodes_ok_def)
    then show "i \<in> (\<Union>x \<in> set (live (inodes g)). set (fsck_orphan g x))"
      using i by (force simp: fsck_orphan_def none)
  qed
  finally show ?thesis .
qed

section \<open>Attributes of a freed inode\<close>

lemma drop_extent_xattrs: "inode_xattrs (drop_extent e g) = inode_xattrs g"
proof -
  obtain x h where h: "remove_edge e g = (x, h)" by fastforce
  then have "inode_xattrs h = inode_xattrs g"
    using remove_edge_frame [of e g] by (auto simp: remove_edge_def Let_def split: option.splits prod.splits edge.splits)
  then show ?thesis
    using h by (auto simp: drop_extent_def get_block_mut_def remove_block_def Let_def
        split: option.split edge.split prod.split)
qed

lemma fold_drop_extent_xattrs: "inode_xattrs (fold drop_extent es g) = inode_xattrs g"
  by (induction es arbitrary: g) (simp_all add: drop_extent_xattrs)

lemma gc_inode_xattrs: "inode_xattrs (gc_inode t g) = inode_xattrs g"
  by (auto simp: gc_inode_def remove_inode_def Let_def fold_drop_extent_xattrs split: prod.split)

lemma unlink_keeps_xattrs:
  assumes "unlink clk g d n = (Ok x, g')"
  shows "inode_xattrs g' = inode_xattrs g"
proof -
  have detach: "inode_xattrs (detach_contains e d t g) = inode_xattrs g" for e t
    by (auto simp: detach_contains_def unindex_contains_def remove_edge_def Let_def
        split: option.splits prod.splits edge.splits)
  have rec: "inode_xattrs (record_prov w op i s g) = inode_xattrs g" for w op i s g
    by (simp add: record_prov_def Let_def split: option.split)
  have ret: "inode_xattrs g' = inode_xattrs h"
    if "returns (update_quota h d db dc) h (\<lambda>g. (Ok (), record_prov w op i s g)) = (Ok (), g')" for h db dc w op i s
    using that update_quota_frame [of h d db dc] by (cases "update_quota h d db dc") (auto simp: rec)
  show ?thesis
    using assms
    by (auto simp: unlink_def Let_def get_inode_mut_def gc_inode_xattrs detach rec
        dest!: try_res_Ok ret split: if_split_asm option.split_asm prod.split_asm)
qed

section \<open>Properties\<close>

text \<open>
  C21: \<open>fsck\<close> returns a report on every graph: its cycle search ends, on cyclic graphs too.
\<close>

theorem fsck_total: "fsck g \<noteq> None"
  using fsck_returns [of g] by simp

text \<open>
  \<open>fsck\<close> finds no error in a well-formed graph whose attribute index is sound, extents included, and
  warns of no inode that has a link.
\<close>

theorem fsck_accepts_well_formed:
  assumes wf: "well_formed g"
    and xattrs: "\<And>i xs x. (i, xs) \<in> set (inode_xattrs g) \<Longrightarrow>
      contains_inode g i \<and> (x \<in> set xs \<longrightarrow> bmap_get (xattrs g) x \<noteq> None)"
  shows "\<exists>r. fsck g = Some r \<and> fsck_errors r = [] \<and>
     (\<forall>i \<in> set (fsck_warnings r). \<exists>x. fs_inode (fs_of g) i = Some x \<and> link_count x = 0)"
proof -
  obtain r where r: "fsck g = Some r" using fsck_returns by blast
  have "entries_stored g"
    using contains_node_exists [OF wf] by (auto simp: entries_stored_def)
  moreover have "links_ok (fs_of g)" "acyclic (child_rel g)"
    using well_formedD(2) [OF wf] fs_ok_tree(1) by (auto simp: fs_ok_def child_rel_view [OF wf])
  moreover have "xattr_index_ok g" using xattrs by (auto simp: xattr_index_ok_def)
  ultimately have "fsck_errors r = []" by (simp add: fsck_clean_iff [OF well_formedD(1) [OF wf] r])
  moreover have "\<exists>x. fs_inode (fs_of g) i = Some x \<and> link_count x = 0" if i: "i \<in> set (fsck_warnings r)" for i
  proof -
    obtain x where x: "inode_at g i = Some x" and none: "\<forall>k. names_of g k \<noteq> Some i"
      using i fsck_orphans [OF well_formedD(1) [OF wf] r] by auto
    have "links (fs_of g) i = {}" using none by (simp add: links_def)
    then have "unat (link_count x) = 0" using fs_ok_links [OF well_formedD(2) [OF wf], of i x] x by simp
    then show ?thesis using x by (simp add: unat_eq_0)
  qed
  ultimately show ?thesis using r by blast
qed

theorem fsck_accepts_well_formed_witness: "\<exists>r. fsck dir_graph = Some r \<and> fsck_errors r = []"
proof -
  have "inode_xattrs dir_graph = []"
    using mkdir_frame(1) [OF dir_graph_run] by (simp add: same_rest_def root_graph_facts)
  then show ?thesis using fsck_accepts_well_formed [OF dir_graph_ok(1)] by auto
qed

text \<open>
  C20: removing the last link of a file that has extended attributes leaves an inconsistency that \<open>fsck\<close>
  reports: \<open>unlink\<close> frees the inode but keeps its entry in the attribute index.
\<close>

theorem unlink_leaks_xattrs:
  assumes wf: "well_formed g" and t: "fs_name (fs_of g) (d, n) = Some t" "fs_inode (fs_of g) t = Some x"
    and last: "link_count x = 1" and xs: "(t, xs) \<in> set (inode_xattrs g)"
    and run: "unlink clk g d n = (Ok (), g')"
  shows "\<exists>r. well_formed g' \<and> fsck g' = Some r \<and> fsck_errors r \<noteq> []"
proof -
  have g': "well_formed g'" "fs_inode (fs_of g') t = None"
    using unlink_contract [OF wf, where clk = clk and d = d and n = n] run t last
    by (auto simp: fs_unlink_def simp del: fs_of_simps)
  have "canonical t" using inode_canonical [OF well_formedD(5) [OF wf], of t x] t(2) by simp
  then have "\<not> contains_inode g' t" using contains_inode_view [OF g'(1)] g'(2) by blast
  then have "\<not> xattr_index_ok g'"
    using xs unlink_keeps_xattrs [OF run] by (auto simp: xattr_index_ok_def)
  moreover obtain r where r: "fsck g' = Some r" using fsck_returns by blast
  ultimately have "fsck_errors r \<noteq> []" by (simp add: fsck_clean_iff [OF well_formedD(1) [OF g'(1)] r])
  then show ?thesis using g'(1) r by blast
qed

text \<open>The file of \<open>file_graph\<close> with an attribute in the index.\<close>

theorem unlink_leaks_xattrs_witness:
  "\<exists>g' r. unlink (\<lambda>_. 0) (file_graph\<lparr>inode_xattrs := [(2, [1])]\<rparr>) 1 ''a'' = (Ok (), g') \<and>
     fsck g' = Some r \<and> fsck_errors r \<noteq> []"
proof -
  let ?g = "file_graph\<lparr>inode_xattrs := [(2, [1])]\<rparr>"
  have wf: "well_formed ?g" and view: "fs_of ?g = fs_of file_graph"
    by (simp_all add: file_graph_ok(1))
  have "require_cap ?g WRITE = Ok ()"
    using file_graph_facts(1) by (simp add: require_cap_def get_cap_def cong: option.case_cong)
  moreover obtain r g' where run: "unlink (\<lambda>_. 0) ?g 1 ''a'' = (r, g')" by fastforce
  ultimately have "r = Ok ()"
    using unlink_contract [OF wf, where clk = "\<lambda>_. 0" and d = 1 and n = "''a''"] file_graph_leaf
    by (cases r) (auto simp: view file_graph_view user_name_def simp del: fs_of_simps)
  then show ?thesis
    using unlink_leaks_xattrs [OF wf, of 1 "''a''" 2 _ "[1]" "\<lambda>_. 0" g'] run
    by (simp add: view file_graph_view del: fs_of_simps)
qed

end
