(* ===== verification/Sotfs_Shape.thy ===== *)
theory Sotfs_Shape
  imports Sotfs_Examples
begin

text \<open>
  The typed graph as the comments of \<open>sotfs-graph/src/types.rs\<close> document it: its nodes, and the two nodes
  each kind of edge joins.  The source's own reading of an edge, \<open>src_node\<close> and \<open>tgt_node\<close>, is not used
  here: it takes the block at the end of a \<open>PointsTo\<close> edge for an inode.
\<close>

fun edge_ends :: "edge \<Rightarrow> node_id \<times> node_id" where
  "edge_ends (Contains _ d i _) = (NDirectory d, NInode i)"
| "edge_ends (Grants _ c i _) = (NCapability c, NInode i)"
| "edge_ends (Delegates _ c c') = (NCapability c, NCapability c')"
| "edge_ends (DerivedFrom _ v v') = (NVersion v, NVersion v')"
| "edge_ends (Supersedes _ i i') = (NInode i, NInode i')"
| "edge_ends (PointsTo _ i b _) = (NInode i, NBlock b)"
| "edge_ends (HasXattr _ i x) = (NInode i, NXAttr x)"

text \<open>The nodes stored under a number, with what they hold; all seven kinds.\<close>

definition graph_nodes :: "type_graph \<Rightarrow> node_id set" where
  "graph_nodes g =
     {NInode i | i. ar_get (inodes g) i \<noteq> None} \<union> {NDirectory d | d. ar_get (dirs g) d \<noteq> None} \<union>
     {NCapability c | c. ar_get (caps g) c \<noteq> None} \<union> {NTransaction t | t. ar_get (transactions g) t \<noteq> None} \<union>
     {NVersion v | v. ar_get (versions g) v \<noteq> None} \<union> {NBlock b | b. ar_get (blocks g) b \<noteq> None} \<union>
     {NXAttr x | x. bmap_get (xattrs g) x \<noteq> None}"

text \<open>The undirected skeleton: different stored nodes that an edge joins.\<close>

definition graph_edges :: "type_graph \<Rightarrow> (node_id \<times> node_id) set" where
  "graph_edges g =
     {edge_ends e | e k. ar_get (edges g) k = Some e \<and> fst (edge_ends e) \<noteq> snd (edge_ends e)} \<inter>
     graph_nodes g \<times> graph_nodes g"

text \<open>
  The containers are containers: the arenas have their representation invariant, and the ordered maps and sets
  are ordered and free of duplicates.  This says nothing about what they hold.
\<close>

definition containers_ok :: "type_graph \<Rightarrow> bool" where
  "containers_ok g \<longleftrightarrow>
     ar_inv (inodes g) \<and> ar_inv (dirs g) \<and> ar_inv (caps g) \<and> ar_inv (transactions g) \<and> ar_inv (versions g) \<and>
     ar_inv (blocks g) \<and> ar_inv (edges g) \<and> mi_ok (dir_contains g) \<and> mi_ok (inode_incoming_contains g) \<and>
     bmap_ok (dir_name_idx g) \<and> bmap_ok (cap_parent g) \<and> bmap_ok (inode_xattrs g)"

lemma containers_okD:
  assumes "containers_ok g"
  shows "ar_inv (inodes g)" "ar_inv (dirs g)" "ar_inv (caps g)" "ar_inv (transactions g)" "ar_inv (versions g)"
    "ar_inv (blocks g)" "ar_inv (edges g)" "mi_ok (dir_contains g)" "mi_ok (inode_incoming_contains g)"
    "bmap_ok (dir_name_idx g)" "bmap_ok (cap_parent g)" "bmap_ok (inode_xattrs g)"
  using assms by (simp_all add: containers_ok_def)

lemma well_formed_containers:
  assumes "well_formed g" "ar_inv (caps g)" "ar_inv (transactions g)" "ar_inv (versions g)" "bmap_ok (cap_parent g)"
    "bmap_ok (inode_xattrs g)"
  shows "containers_ok g"
  using assms well_formedD(3-6) [OF assms(1)]
  by (simp add: containers_ok_def edges_ok_def dirs_ok_def inodes_ok_def blocks_ok_def)

lemma empty_arenas: "caps root_graph = ar_new NODE_CAPACITY" "versions root_graph = ar_new NODE_CAPACITY"
  "transactions root_graph = ar_new NODE_CAPACITY" "xattrs root_graph = []" "cap_parent root_graph = []"
  by (simp_all add: root_graph_def new_boxed_def empty_graph_def Let_def)

lemma root_containers: "containers_ok root_graph"
  by (rule well_formed_containers [OF root_graph_ok]) (simp_all add: empty_arenas root_graph_facts)

text \<open>
  What an operation touches: the nodes that appear, disappear or change, and both ends of every edge that
  appears, disappears or changes.
\<close>

definition touched :: "type_graph \<Rightarrow> type_graph \<Rightarrow> node_id set" where
  "touched g g' =
     {NInode i | i. ar_get (inodes g) i \<noteq> ar_get (inodes g') i} \<union>
     {NDirectory d | d. ar_get (dirs g) d \<noteq> ar_get (dirs g') d} \<union>
     {NCapability c | c. ar_get (caps g) c \<noteq> ar_get (caps g') c} \<union>
     {NTransaction t | t. ar_get (transactions g) t \<noteq> ar_get (transactions g') t} \<union>
     {NVersion v | v. ar_get (versions g) v \<noteq> ar_get (versions g') v} \<union>
     {NBlock b | b. ar_get (blocks g) b \<noteq> ar_get (blocks g') b} \<union>
     {NXAttr x | x. bmap_get (xattrs g) x \<noteq> bmap_get (xattrs g') x} \<union>
     {x. \<exists>k e. ar_get (edges g) k \<noteq> ar_get (edges g') k \<and>
           (ar_get (edges g) k = Some e \<or> ar_get (edges g') k = Some e) \<and>
           (x = fst (edge_ends e) \<or> x = snd (edge_ends e))}"

end
