(* ===== verification/Sotfs_Edits.thy ===== *)
theory Sotfs_Edits
  imports Sotfs_Shape
begin

text \<open>
  What \<open>create_file\<close>, \<open>link\<close>, \<open>mkdir\<close> and \<open>unlink\<close> do to the arenas: which edges, inodes, directories and
  blocks are stored afterwards, extents included, and which other nodes they leave alone.
\<close>

section \<open>The edges after an operation\<close>

definition put_edge :: "edge_id \<Rightarrow> edge \<Rightarrow> edge arena \<Rightarrow> edge arena" where
  "put_edge i e a = snd (ar_insert_at (id_to_arena i) e a)"

lemma edges_steps [simp]:
  "edges (attach_contains e d i n g) = put_edge e (Contains e d i n) (edges g)"
  "edges (insert_inode j x g) = edges g" "edges (insert_dir k y g) = edges g"
  "edges (snd (remove_inode j g)) = edges g" "edges (get_inode_mut j f g) = edges g"
  by (simp_all add: attach_contains_def insert_edge_def put_edge_def insert_inode_def insert_dir_def
      remove_inode_def get_inode_mut_def split: prod.split)

lemma put_edge_fresh:
  assumes "ar_inv a" "ar_capacity a = EDGE_CAPACITY" "e < EDGE_CAPACITY" "ar_get a e = None"
  shows "ar_get (put_edge e x a) = (ar_get a)(e \<mapsto> x)" "ar_inv (put_edge e x a)"
    "ar_capacity (put_edge e x a) = EDGE_CAPACITY"
  using assms by (simp_all add: put_edge_def canonical_small slot_simps)

lemma create_file_edges:
  assumes "create_file clk g d n u gi p = (Ok i, g')"
  shows "i = next_inode g" "edges g' = put_edge (next_edge g) (Contains (next_edge g) d i n) (edges g)"
  using assms
  by (auto simp: create_file_def alloc_inode_id_def alloc_edge_id_def Let_def frame_simps
      dest!: try_res_Ok elim!: returns_frame split: if_splits)

lemma link_edges:
  assumes "link clk g d n t = (Ok (), g')"
  shows "edges g' = put_edge (next_edge g) (Contains (next_edge g) d t n) (edges g)"
  using assms
  by (auto simp: link_def alloc_edge_id_def Let_def frame_simps dest!: try_res_Ok split: if_splits)

lemma mkdir_edges:
  assumes "mkdir clk g d n u gi p = (Ok r, g')"
  obtains c j where "cr_dir_id r = Some c"
    "edges g' = put_edge (succ_u64 (succ_u64 (next_edge g))) (Contains (succ_u64 (succ_u64 (next_edge g))) c j ''..'')
       (put_edge (succ_u64 (next_edge g)) (Contains (succ_u64 (next_edge g)) c (cr_inode_id r) ''.'')
         (put_edge (next_edge g) (Contains (next_edge g) d (cr_inode_id r) n) (edges g)))"
  using assms
  by (auto simp: mkdir_def alloc_inode_id_def alloc_dir_id_def alloc_edge_id_def Let_def frame_simps
      dest!: try_res_Ok elim!: returns_frame split: if_splits)

lemma fresh_edge_slot: "well_formed g \<Longrightarrow> next_edge g \<le> e \<Longrightarrow> edge_at g e = None"
  using fresh_edge [OF well_formedD(1)] by simp

lemma mkdir_edge_at:
  assumes wf: "well_formed g" and cap: "next_edge g + 2 < EDGE_CAPACITY"
    and run: "mkdir clk g d n u gi p = (Ok r, g')" and c: "cr_dir_id r = Some c"
  obtains j where "ar_inv (edges g')" "edge_at g' = (edge_at g)(next_edge g \<mapsto> Contains (next_edge g) d (cr_inode_id r) n,
      next_edge g + 1 \<mapsto> Contains (next_edge g + 1) c (cr_inode_id r) ''.'',
      next_edge g + 2 \<mapsto> Contains (next_edge g + 2) c j ''..'')"
proof -
  let ?e = "next_edge g" and ?i = "cr_inode_id r"
  have succ: "succ_u64 ?e = ?e + 1" "succ_u64 (?e + 1) = ?e + 2" using cap by (simp_all add: succ_u64_small)
  obtain j where g': "edges g' = put_edge (?e + 2) (Contains (?e + 2) c j ''..'')
      (put_edge (?e + 1) (Contains (?e + 1) c ?i ''.'') (put_edge ?e (Contains ?e d ?i n) (edges g)))"
    using mkdir_edges [OF run] c unfolding succ by (metis option.inject)
  let ?a = "put_edge ?e (Contains ?e d ?i n) (edges g)"
  let ?b = "put_edge (?e + 1) (Contains (?e + 1) c ?i ''.'') ?a"
  have fresh: "edge_at g k = None" if "?e \<le> k" for k using fresh_edge_slot [OF wf that] .
  have a: "ar_get ?a = (edge_at g)(?e \<mapsto> Contains ?e d ?i n)" "ar_inv ?a" "ar_capacity ?a = EDGE_CAPACITY"
    using put_edge_fresh [OF edges_okD(1,2) [OF well_formedD(3) [OF wf]]] cap fresh by simp_all
  have b: "ar_get ?b = (ar_get ?a)(?e + 1 \<mapsto> Contains (?e + 1) c ?i ''.'')" "ar_inv ?b" "ar_capacity ?b = EDGE_CAPACITY"
    using put_edge_fresh [OF a(2,3)] a(1) cap fresh by simp_all
  show thesis
    using that [of j] put_edge_fresh [OF b(2,3), of "?e + 2"] a(1) b(1) cap fresh by (simp add: g')
qed

section \<open>Nodes the operations leave alone\<close>

definition still :: "type_graph \<Rightarrow>
    capability arena \<times> transaction arena \<times> version arena \<times> (xattr_id, xattr) bmap" where
  "still g = (caps g, transactions g, versions g, xattrs g)"

lemma same_rest_still: "same_rest g g' \<Longrightarrow> still g' = still g"
  by (simp add: same_rest_def still_def)

lemma still_remove_edge: "still (snd (remove_edge e g)) = still g"
  by (auto simp: remove_edge_def still_def Let_def split: prod.split option.split edge.split)

lemma still_drop_extent: "still (drop_extent e g) = still g"
proof -
  obtain r h where h: "remove_edge e g = (r, h)" by fastforce
  then have "still h = still g" using still_remove_edge [of e g] by simp
  then show ?thesis
    by (simp add: drop_extent_def h get_block_mut_def remove_block_def Let_def still_def
        split: option.split edge.split prod.split)
qed

lemma still_drop_extents: "still (fold drop_extent es g) = still g"
  by (induction es arbitrary: g) (simp_all add: still_drop_extent)

lemma still_steps [simp]:
  "still (g\<lparr>inode_points_to := a\<rparr>) = still g" "still (g\<lparr>inode_incoming_contains := b\<rparr>) = still g"
  "still (g\<lparr>quotas := q\<rparr>) = still g" "still (get_inode_mut t f g) = still g"
  "still (snd (remove_inode t g)) = still g" "still (record_prov w p i s g) = still g"
  by (simp_all add: still_def get_inode_mut_def remove_inode_def record_prov_def Let_def split: prod.split option.split)

lemma still_gc: "still (gc_inode t g) = still g"
  using still_drop_extents [of "mi_get (inode_points_to g) t" "g\<lparr>inode_points_to := bmap_remove t (inode_points_to g)\<rparr>"]
  by (simp add: gc_inode_def Let_def)

lemma still_detach: "still (detach_contains e d i g) = still g"
  by (auto simp: detach_contains_def unindex_contains_def remove_edge_def still_def Let_def
      split: prod.split option.split edge.split)

section \<open>Freeing the extents of a file\<close>

lemma drop_extents_blocks:
  "rep_ok g \<Longrightarrow> distinct es \<Longrightarrow> (\<And>e. e \<in> set es \<Longrightarrow> \<exists>b off. edge_at g e = Some (PointsTo e t b off)) \<Longrightarrow>
     block_at (fold (drop_extent_idx t) es g) b \<noteq> block_at g b \<Longrightarrow>
     \<exists>e \<in> set es. \<exists>off. edge_at g e = Some (PointsTo e t b off)"
proof (induction es arbitrary: g)
  case (Cons e es)
  obtain c off where e: "edge_at g e = Some (PointsTo e t c off)" using Cons.prems(3) by force
  let ?g = "drop_extent_idx t e g"
  note step = drop_extent_step [OF Cons.prems(1) e]
  obtain blk where "block_at g c = Some blk" "drop_extent e g = g\<lparr>edges := snd (ar_remove e (edges g)),
           blocks := (let bl = ar_get_mut c (\<lambda>x. x\<lparr>refcount := refcount x - 1\<rparr>) (blocks g)
                      in if refcount blk - 1 = 0 then snd (ar_remove c bl) else bl)\<rparr>"
    by (rule drop_extent_fields [OF Cons.prems(1) e])
  moreover have "ar_inv (blocks g)" using rep_okD(4) [OF Cons.prems(1)] by (simp add: blocks_ok_def)
  ultimately have same: "block_at ?g b = block_at g b" if "b \<noteq> c"
    using that by (simp add: drop_extent_idx_def slot_simps Let_def)
  show ?case
  proof (cases "b = c")
    case True
    then show ?thesis using e by auto
  next
    case False
    have "\<exists>e' \<in> set es. \<exists>off. edge_at ?g e' = Some (PointsTo e' t b off)"
    proof (rule Cons.IH [OF step(1)])
      show "\<exists>b off. edge_at ?g e' = Some (PointsTo e' t b off)" if "e' \<in> set es" for e'
        using Cons.prems(2,3) that by (auto simp: step(3))
    qed (use Cons.prems(2,4) same [OF False] in auto)
    then show ?thesis by (auto simp: step(3) split: if_splits)
  qed
qed simp

definition extent_of :: "type_graph \<Rightarrow> inode_id \<Rightarrow> block_id \<Rightarrow> bool" where
  "extent_of g t b \<longleftrightarrow> (\<exists>k e off. edge_at g k = Some (PointsTo e t b off))"

lemma gc_edits:
  assumes ok: "rep_ok g"
  shows "edge_at (gc_inode t g) e =
      (if \<exists>k b off. edge_at g e = Some (PointsTo k t b off) then None else edge_at g e)"
    and "block_at (gc_inode t g) b \<noteq> block_at g b \<Longrightarrow> extent_of g t b"
proof -
  let ?es = "mi_get (inode_points_to g) t"
  let ?h = "fold (drop_extent_idx t) ?es g"
  note edges = rep_okD(1) [OF ok]
  have es: "e \<in> set ?es \<longleftrightarrow> (\<exists>k b off. edge_at g e = Some (PointsTo k t b off))" for e
    using mi.exactD [OF edges_okD(9) [OF edges], of e t] by (fastforce simp: proj_eq_Some points_src_iff)
  have ids: "edge_at g e = Some (PointsTo k t b off) \<Longrightarrow> k = e" for e k b off
    using edges_okD(11) [OF edges, of e] by force
  have all: "\<exists>b off. edge_at g e = Some (PointsTo e t b off)" if "e \<in> set ?es" for e
    using es [of e] ids [of e] that by blast
  note dist = mi_ok_distinct [OF edges_okD(5) [OF edges], of t]
  have "edges (gc_inode t g) = edges ?h" "blocks (gc_inode t g) = blocks ?h"
    using drop_extents_index [where es = ?es and g = g and X = "bmap_remove t (inode_points_to g)" and t = t]
    by (simp_all add: gc_inode_def Let_def remove_inode_def split: prod.split)
  then show "edge_at (gc_inode t g) e =
      (if \<exists>k b off. edge_at g e = Some (PointsTo k t b off) then None else edge_at g e)"
    and "block_at (gc_inode t g) b \<noteq> block_at g b \<Longrightarrow> extent_of g t b"
    using drop_extents_step [OF ok dist all] es drop_extents_blocks [OF ok dist all, of b]
    by (auto simp: extent_of_def)
qed

lemma ok_or_Ok: "ok_or x e = Ok y \<longleftrightarrow> x = Some y"
  by (cases x) auto

text \<open>
  What \<open>unlink\<close> does to edges and blocks: the name goes, and with the last link all extents of the file;
  no block changes but those the extents lead to.
\<close>

lemma unlink_run:
  assumes wf: "well_formed g" and run: "unlink clk g d n = (Ok (), g')"
  obtains e t x h where "edge_at g e = Some (Contains e d t n)" "names_of g (d, n) = Some t" "inode_at g t = Some x"
    "h = get_inode_mut t (\<lambda>n. n\<lparr>link_count := link_count n - 1\<rparr>) (detach_contains e d t g)"
    "edges g' = edges (if link_count x = 1 then gc_inode t h else h)"
    "blocks g' = blocks (if link_count x = 1 then gc_inode t h else h)"
    "still g' = still g"
proof -
  have zero: "w - 1 = 0 \<longleftrightarrow> w = 1" for w :: u32 by simp
  let ?f = "\<lambda>n. n\<lparr>link_count := link_count n - 1\<rparr>"
  obtain es e t x y where es: "bmap_get (dir_contains g) d = Some es" "find_named g n es = Some (e, t)"
    and x: "get_inode g t = Some x" "get_inode (detach_contains e d t g) t = Some y"
    and k: "returns (if link_count y = 1 then update_quota (gc_inode t (get_inode_mut t ?f (detach_contains e d t g))) d (- 1) 0
                     else Some (get_inode_mut t ?f (detach_contains e d t g)))
             (if link_count y = 1 then gc_inode t (get_inode_mut t ?f (detach_contains e d t g))
              else get_inode_mut t ?f (detach_contains e d t g))
             (\<lambda>g. (Ok (), record_prov (clk 0) PUnlink t n g)) = (Ok (), g')"
    using run unfolding unlink_def Let_def zero
    by (auto simp: ok_or_Ok dest!: try_res_Ok split: if_split_asm option.split_asm prod.split_asm)
  let ?h = "get_inode_mut t ?f (detach_contains e d t g)"
  have e: "edge_at g e = Some (Contains e d t n)" "names_of g (d, n) = Some t"
    using find_named_dir(2) [OF wf es(1) es(2)] by simp_all
  obtain z where z: "inode_at g t = Some z" using names_in_view [OF wf e(2)] by blast
  then have "x = z" using get_inode_at [OF well_formedD(5) [OF wf] z] x(1) by simp
  moreover have "y = x" using x by (simp add: get_inode_def frame_simps)
  ultimately have y: "y = z" by simp
  have "edges g' = edges (if link_count z = 1 then gc_inode t ?h else ?h) \<and>
      blocks g' = blocks (if link_count z = 1 then gc_inode t ?h else ?h) \<and> still g' = still ?h"
  proof (cases "link_count z = 1")
    case True
    then obtain q where "g' = record_prov (clk 0) PUnlink t n ((gc_inode t ?h)\<lparr>quotas := q\<rparr>)"
      using k y by (auto elim!: returns_frame)
    then show ?thesis using True by (simp add: frame_simps still_gc)
  next
    case False
    then show ?thesis using k y by (auto simp: frame_simps)
  qed
  then show thesis using that [OF e z refl] by (simp add: still_detach)
qed

lemma unlink_edits:
  assumes wf: "well_formed g" and run: "unlink clk g d n = (Ok (), g')"
  obtains e t x where "edge_at g e = Some (Contains e d t n)" "names_of g (d, n) = Some t" "inode_at g t = Some x"
    "edge_at g' = (\<lambda>k. if k = e \<or> link_count x = 1 \<and> (\<exists>l b off. edge_at g k = Some (PointsTo l t b off)) then None
                       else edge_at g k)"
    "\<forall>b. block_at g' b \<noteq> block_at g b \<longrightarrow> link_count x = 1 \<and> extent_of g t b" "still g' = still g"
proof -
  obtain e t x h where r: "edge_at g e = Some (Contains e d t n)" "names_of g (d, n) = Some t" "inode_at g t = Some x"
    "h = get_inode_mut t (\<lambda>n. n\<lparr>link_count := link_count n - 1\<rparr>) (detach_contains e d t g)"
    "edges g' = edges (if link_count x = 1 then gc_inode t h else h)"
    "blocks g' = blocks (if link_count x = 1 then gc_inode t h else h)" "still g' = still g"
    by (rule unlink_run [OF assms])
  have 1: "rep_ok (detach_contains e d t g)" by (rule detach_step [OF well_formedD(1) [OF wf] r(1)])
  have h: "rep_ok h" "edges h = edges (detach_contains e d t g)" "blocks h = blocks g"
    using update_inode_step(1) [OF 1, of t x "\<lambda>n. n\<lparr>link_count := link_count n - 1\<rparr>"] r(3)
    by (simp_all add: r(4) frame_simps get_inode_mut_def)
  have E: "edge_at h = (edge_at g)(e := None)"
    using detach_edge_at [OF well_formedD(3) [OF wf] r(1)] h(2) by simp
  show thesis
  proof (rule that [OF r(1-3) _ _ r(7)])
    show "edge_at g' = (\<lambda>k. if k = e \<or> link_count x = 1 \<and> (\<exists>l b off. edge_at g k = Some (PointsTo l t b off)) then None
                       else edge_at g k)"
      using gc_edits(1) [OF h(1), of t] by (auto simp: r(5) E fun_eq_iff)
    have "link_count x = 1 \<and> extent_of g t b" if "block_at g' b \<noteq> block_at g b" for b
    proof (cases "link_count x = 1")
      case True
      then have "extent_of h t b" using gc_edits(2) [OF h(1), of t b] that by (simp add: r(6) h(3))
      then show ?thesis using True r(1) by (auto simp: extent_of_def E split: if_splits)
    next
      case False
      then show ?thesis using that by (simp add: r(6) h(3))
    qed
    then show "\<forall>b. block_at g' b \<noteq> block_at g b \<longrightarrow> link_count x = 1 \<and> extent_of g t b" by blast
  qed
qed

lemma unlink_edges:
  assumes wf: "well_formed g" and run: "unlink clk g d n = (Ok (), g')"
    and i: "resolve_name g d n = Some i" "mi_get (inode_points_to g) i = []"
  obtains e where "edge_at g e = Some (Contains e d i n)" "edge_at g' = (edge_at g)(e := None)"
proof -
  obtain e t x where u: "edge_at g e = Some (Contains e d t n)" "names_of g (d, n) = Some t" "inode_at g t = Some x"
    "edge_at g' = (\<lambda>k. if k = e \<or> link_count x = 1 \<and> (\<exists>l b off. edge_at g k = Some (PointsTo l t b off)) then None
                       else edge_at g k)"
    "\<forall>b. block_at g' b \<noteq> block_at g b \<longrightarrow> link_count x = 1 \<and> extent_of g t b" "still g' = still g"
    by (rule unlink_edits [OF wf run])
  have "t = i" using i(1) u(2) by (simp add: resolve_name_eq well_formedD [OF wf])
  have "proj points_src (edge_at g) k \<noteq> Some i" for k
    using mi.exactD [OF edges_okD(9) [OF well_formedD(3) [OF wf]], of k i] i(2) by simp
  then have "edge_at g k \<noteq> Some (PointsTo l i b off)" for k l b off
    by (fastforce simp: proj_eq_Some points_src_iff)
  then show thesis using that [of e] u(1,4) \<open>t = i\<close> by (simp add: fun_eq_iff)
qed

end
