(* ===== verification/Sotfs_Affected.thy ===== *)
theory Sotfs_Affected
  imports Sotfs_Edits
begin

text \<open>
  The affected-node sets of \<open>sotfs-ops/src/lib.rs\<close>, from which the monitor recomputes its metrics
  after an operation, compared with the nodes whose neighbourhood the operation really changes.
\<close>

section \<open>The bounded set\<close>

record affected_nodes =
  an_nodes :: "node_id list"
  an_len :: nat

definition affected_empty :: affected_nodes where
  "affected_empty = \<lparr>an_nodes = replicate 8 (NInode 0), an_len = 0\<rparr>"

definition as_slice :: "affected_nodes \<Rightarrow> node_id list" where
  "as_slice a = take (an_len a) (an_nodes a)"

definition affected_push :: "node_id \<Rightarrow> affected_nodes \<Rightarrow> affected_nodes" where
  "affected_push node a =
     (if an_len a < 8
      then (if node \<in> set (take (an_len a) (an_nodes a)) then a
            else a\<lparr>an_nodes := (an_nodes a)[an_len a := node], an_len := an_len a + 1\<rparr>)
      else a)"

definition affected_nodes_create :: "dir_id \<Rightarrow> inode_id \<Rightarrow> affected_nodes" where
  "affected_nodes_create dir i =
     (let a = affected_empty; a = affected_push (NDirectory dir) a in affected_push (NInode i) a)"

definition affected_nodes_unlink :: "dir_id \<Rightarrow> inode_id \<Rightarrow> affected_nodes" where
  "affected_nodes_unlink dir i =
     (let a = affected_empty; a = affected_push (NDirectory dir) a in affected_push (NInode i) a)"

definition affected_nodes_mkdir :: "dir_id \<Rightarrow> inode_id \<Rightarrow> dir_id \<Rightarrow> affected_nodes" where
  "affected_nodes_mkdir parent i d =
     (let a = affected_empty; a = affected_push (NDirectory parent) a; a = affected_push (NInode i) a
      in affected_push (NDirectory d) a)"

definition affected_nodes_rmdir :: "dir_id \<Rightarrow> inode_id \<Rightarrow> dir_id \<Rightarrow> affected_nodes" where
  "affected_nodes_rmdir parent i d =
     (let a = affected_empty; a = affected_push (NDirectory parent) a; a = affected_push (NInode i) a
      in affected_push (NDirectory d) a)"

definition affected_nodes_rename :: "dir_id \<Rightarrow> dir_id \<Rightarrow> inode_id \<Rightarrow> affected_nodes" where
  "affected_nodes_rename src_dir dst_dir i =
     (let a = affected_empty; a = affected_push (NDirectory src_dir) a; a = affected_push (NDirectory dst_dir) a
      in affected_push (NInode i) a)"

definition affected_nodes_link :: "dir_id \<Rightarrow> inode_id \<Rightarrow> affected_nodes" where
  "affected_nodes_link dir i =
     (let a = affected_empty; a = affected_push (NDirectory dir) a in affected_push (NInode i) a)"

definition affected_nodes_write_block :: "inode_id \<Rightarrow> block_id \<Rightarrow> affected_nodes" where
  "affected_nodes_write_block i b =
     (let a = affected_empty; a = affected_push (NInode i) a in affected_push (NBlock b) a)"

section \<open>What the set holds\<close>

definition affected_ok :: "affected_nodes \<Rightarrow> bool" where
  "affected_ok a \<longleftrightarrow> length (an_nodes a) = 8 \<and> an_len a \<le> 8 \<and> distinct (as_slice a)"

lemma affected_empty_ok [simp]: "affected_ok affected_empty" "as_slice affected_empty = []"
  by (simp_all add: affected_ok_def affected_empty_def as_slice_def)

lemma take_snoc: "k < length xs \<Longrightarrow> take (k + 1) (xs[k := x]) = take k xs @ [x]"
  using take_Suc_conv_app_nth [of k "xs[k := x]"] by (simp flip: Suc_eq_plus1)

lemma affected_push_slice:
  "affected_ok a \<Longrightarrow> as_slice (affected_push n a) =
     (if an_len a < 8 \<and> n \<notin> set (as_slice a) then as_slice a @ [n] else as_slice a)"
  by (simp add: affected_ok_def affected_push_def as_slice_def take_snoc)

lemma affected_push_ok [simp]: "affected_ok a \<Longrightarrow> affected_ok (affected_push n a)"
  using affected_push_slice [of a n] by (auto simp: affected_ok_def affected_push_def)

lemma affected_len: "affected_ok a \<Longrightarrow> an_len a = length (as_slice a)"
  by (simp add: affected_ok_def as_slice_def)

lemmas affected_slices = affected_push_slice affected_len

lemma affected_slice_sets:
  "set (as_slice (affected_nodes_create d i)) = {NDirectory d, NInode i}"
  "set (as_slice (affected_nodes_unlink d i)) = {NDirectory d, NInode i}"
  "set (as_slice (affected_nodes_link d i)) = {NDirectory d, NInode i}"
  "set (as_slice (affected_nodes_mkdir d i c)) = {NDirectory d, NInode i, NDirectory c}"
  "set (as_slice (affected_nodes_rmdir d i c)) = {NDirectory d, NInode i, NDirectory c}"
  "set (as_slice (affected_nodes_rename d c i)) = {NDirectory d, NDirectory c, NInode i}"
  "set (as_slice (affected_nodes_write_block i b)) = {NInode i, NBlock b}"
  by (auto simp: affected_nodes_create_def affected_nodes_unlink_def affected_nodes_link_def affected_nodes_mkdir_def
      affected_nodes_rmdir_def affected_nodes_rename_def affected_nodes_write_block_def Let_def affected_slices)

section \<open>What an operation touches\<close>

lemma dir_same:
  assumes "well_formed g" "well_formed g'" "fs_dir (fs_of g') d = fs_dir (fs_of g) d"
  shows "dir_at g' d = dir_at g d"
proof -
  have id: "dir_id x = d" if "well_formed h" "dir_at h d = Some x" for h x
    using well_formedD(4) [OF that(1)] that(2) by (simp add: dirs_ok_def)
  have view: "map_option dir_inode_id (dir_at g' d) = map_option dir_inode_id (dir_at g d)"
    using assms(3) by simp
  show ?thesis
  proof (cases "dir_at g d")
    case None
    then show ?thesis using view by simp
  next
    case (Some x)
    then obtain y where y: "dir_at g' d = Some y" "dir_inode_id y = dir_inode_id x" using view by auto
    then have "y = x" using id [OF assms(1) Some] id [OF assms(2) y(1)] by (intro directory.equality) simp_all
    then show ?thesis using Some y(1) by simp
  qed
qed

lemma dirs_same:
  "well_formed g \<Longrightarrow> well_formed g' \<Longrightarrow> fs_dir (fs_of g') = fs_dir (fs_of g) \<Longrightarrow> dir_at g' = dir_at g"
  by (intro ext dir_same) simp_all

lemma touched_still:
  "still g' = still g \<Longrightarrow> touched g g' =
     {NInode i | i. inode_at g i \<noteq> inode_at g' i} \<union> {NDirectory d | d. dir_at g d \<noteq> dir_at g' d} \<union>
     {NBlock b | b. block_at g b \<noteq> block_at g' b} \<union>
     {x. \<exists>k e. edge_at g k \<noteq> edge_at g' k \<and> (edge_at g k = Some e \<or> edge_at g' k = Some e) \<and>
           (x = fst (edge_ends e) \<or> x = snd (edge_ends e))}"
  by (simp add: touched_def still_def)

text \<open>One new edge.\<close>

lemma touched_new_edge:
  assumes "still g' = still g" and e: "edge_at g k = None" "edge_at g' = (edge_at g)(k \<mapsto> e)"
  shows "touched g g' =
     {NInode i | i. inode_at g i \<noteq> inode_at g' i} \<union> {NDirectory d | d. dir_at g d \<noteq> dir_at g' d} \<union>
     {NBlock b | b. block_at g b \<noteq> block_at g' b} \<union> {fst (edge_ends e), snd (edge_ends e)}"
  unfolding touched_still [OF assms(1)] by (auto simp: e)

lemma create_file_effect:
  assumes wf: "well_formed g" and c: "canonical d"
    and cap: "next_inode g < NODE_CAPACITY" "next_edge g < EDGE_CAPACITY"
    and run: "create_file clk g d n u gi p = (Ok i, g')"
  obtains x where "fs_of g' = fs_create d n i x (fs_of g)" "fs_inode (fs_of g) i = None" "fs_name (fs_of g) (d, n) = None"
  using create_file_contract [OF wf c cap, where clk = clk and n = n and u = u and gi = gi and p = p] run
    fresh_inode [OF well_formedD(1) [OF wf], of "next_inode g"]
  by (simp add: that del: fs_of_simps) (metis fs_of_simps(1) that)

lemma mkdir_effect:
  assumes wf: "well_formed g" and c: "canonical d"
    and cap: "next_inode g < NODE_CAPACITY" "next_dir g < NODE_CAPACITY" "next_edge g + 2 < EDGE_CAPACITY"
    and run: "mkdir clk g d n u gi p = (Ok r, g')"
  obtains x j c where "cr_dir_id r = Some c" "fs_dir (fs_of g) d = Some j" "fs_name (fs_of g) (d, n) = None"
    "fs_of g' = fs_mkdir d n (cr_inode_id r) c x j (fs_of g)"
    "fs_inode (fs_of g) (cr_inode_id r) = None" "fs_dir (fs_of g) c = None"
proof -
  have "fs_inode (fs_of g) (next_inode g) = None" "fs_dir (fs_of g) (next_dir g) = None"
    using fresh_inode fresh_dir well_formedD(1) [OF wf] by simp_all
  then show thesis
    using mkdir_contract [OF wf c cap, where clk = clk and n = n and u = u and gi = gi and p = p] run that
    by (auto simp del: fs_of_simps)
qed

lemma blocks_steps [simp]:
  "blocks (insert_inode j x g) = blocks g" "blocks (insert_dir k y g) = blocks g"
  by (simp_all add: insert_inode_def insert_dir_def)

lemma create_file_still:
  assumes "create_file clk g d n u gi p = (Ok i, g')"
  shows "blocks g' = blocks g" "still g' = still g"
  using assms same_rest_still [OF create_file_frame(1) [OF assms]]
  by (auto simp: create_file_def alloc_inode_id_def alloc_edge_id_def Let_def frame_simps
      dest!: try_res_Ok elim!: returns_frame split: if_splits)

lemma mkdir_still:
  assumes "mkdir clk g d n u gi p = (Ok r, g')"
  shows "blocks g' = blocks g" "still g' = still g"
  using assms same_rest_still [OF mkdir_frame(1) [OF assms]]
  by (auto simp: mkdir_def alloc_inode_id_def alloc_dir_id_def alloc_edge_id_def Let_def frame_simps
      dest!: try_res_Ok elim!: returns_frame split: if_splits)

lemma still_link_steps:
  "still (attach_contains e d i n g) = still g" "still (g\<lparr>next_edge := k\<rparr>) = still g" "still (g\<lparr>inodes := a\<rparr>) = still g"
  by (simp_all add: still_def attach_contains_def insert_edge_def Let_def)

lemma link_still:
  assumes "link clk g d n t = (Ok (), g')"
  shows "blocks g' = blocks g" "still g' = still g"
  using assms
  by (auto simp: link_def alloc_edge_id_def Let_def frame_simps still_link_steps get_inode_mut_def dest!: try_res_Ok split: if_splits)

lemma write_block_still:
  assumes "write_block g i off start cnt = (Ok b, g')"
  shows "still g' = still g"
  using assms
  by (auto simp: write_block_def alloc_block_id_def alloc_edge_id_def insert_block_def insert_edge_def Let_def still_def
      dest!: try_res_Ok split: if_splits)

lemma inode_view: "inode_at g = fs_inode (fs_of g)"
  by simp

lemma create_file_touched:
  assumes wf: "well_formed g" and c: "canonical d"
    and cap: "next_inode g < NODE_CAPACITY" "next_edge g < EDGE_CAPACITY"
    and run: "create_file clk g d n u gi p = (Ok i, g')"
  shows "touched g g' = {NDirectory d, NInode i}"
proof -
  have wf': "well_formed g'"
    using create_file_contract [OF wf c cap, where clk = clk and n = n and u = u and gi = gi and p = p] run by simp
  obtain x where x: "fs_of g' = fs_create d n i x (fs_of g)" by (rule create_file_effect [OF wf c cap run])
  have "dir_at g' = dir_at g" by (rule dirs_same [OF wf wf']) (simp add: x fs_create_def del: fs_of_simps)
  moreover have "inode_at g' = (inode_at g)(i \<mapsto> x)" unfolding inode_view x by (simp add: fs_create_def)
  moreover have "edge_at g' = (edge_at g)(next_edge g \<mapsto> Contains (next_edge g) d i n)"
    using put_edge_fresh(1) [OF edges_okD(1,2) [OF well_formedD(3) [OF wf]] cap(2) fresh_edge_slot [OF wf]]
    by (simp add: create_file_edges(2) [OF run])
  ultimately show ?thesis
    using create_file_still [OF run] fresh_edge_slot [OF wf, of "next_edge g"]
    by (subst touched_new_edge [of g' g "next_edge g" "Contains (next_edge g) d i n"]) auto
qed

lemma link_touched:
  assumes wf: "well_formed g" and c: "canonical t" and dir: "fs_dir (fs_of g) d \<noteq> None"
    and cap: "next_edge g < EDGE_CAPACITY" and run: "link clk g d n t = (Ok (), g')"
  shows "touched g g' = {NDirectory d, NInode t}"
proof -
  obtain x where wf': "well_formed g'" and x: "fs_of g' = fs_link d n t x (fs_of g)"
    using link_contract [OF wf c dir cap, where clk = clk and n = n] run by (auto simp del: fs_of_simps)
  have "dir_at g' = dir_at g" by (rule dirs_same [OF wf wf']) (simp add: x fs_link_def del: fs_of_simps)
  moreover have "\<forall>i. inode_at g i \<noteq> inode_at g' i \<longrightarrow> i = t"
    unfolding inode_view x by (simp add: fs_link_def)
  moreover have "edge_at g' = (edge_at g)(next_edge g \<mapsto> Contains (next_edge g) d t n)"
    using put_edge_fresh(1) [OF edges_okD(1,2) [OF well_formedD(3) [OF wf]] cap fresh_edge_slot [OF wf]]
    by (simp add: link_edges [OF run])
  ultimately show ?thesis
    using link_still [OF run] fresh_edge_slot [OF wf, of "next_edge g"]
    by (subst touched_new_edge [of g' g "next_edge g" "Contains (next_edge g) d t n"]) auto
qed

lemma write_block_touched:
  assumes wf: "well_formed g" and c: "canonical i" and leaf: "\<not> is_dir (fs_of g) i"
    and cap: "next_block g < NODE_CAPACITY" "next_edge g < EDGE_CAPACITY"
    and run: "write_block g i off start cnt = (Ok b, g')"
  shows "touched g g' = {NInode i, NBlock b}"
proof -
  note w = write_block_contract [OF wf c leaf cap, where off = off and start = start and cnt = cnt,
      unfolded run prod.case res.case]
  have "dir_at g' = dir_at g" "inode_at g' = inode_at g"
    using dirs_same [OF wf, of g'] w unfolding inode_view by simp_all
  moreover have "block_at g' = (block_at g)(b \<mapsto> \<lparr>block_id = b, sector_start = start, sector_count = cnt, refcount = 1\<rparr>)"
    "edge_at g' = (edge_at g)(next_edge g \<mapsto> PointsTo (next_edge g) i b off)"
    using w by simp_all
  ultimately show ?thesis
    using write_block_still [OF run] fresh_edge_slot [OF wf, of "next_edge g"]
    by (subst touched_new_edge [of g' g "next_edge g" "PointsTo (next_edge g) i b off"]) auto
qed

text \<open>The blocks of the extents go with the last link.\<close>

lemma unlink_touched:
  assumes wf: "well_formed g" and run: "unlink clk g d n = (Ok (), g')"
    and i: "resolve_name g d n = Some i" "get_inode g i = Some x"
  shows "touched g g' = {NDirectory d, NInode i} \<union>
    (if link_count x = 1 then {NBlock b | b. \<exists>k e off. edge_at g k = Some (PointsTo e i b off)} else {})"
proof -
  obtain e t y where u: "edge_at g e = Some (Contains e d t n)" "names_of g (d, n) = Some t" "inode_at g t = Some y"
    "edge_at g' = (\<lambda>k. if k = e \<or> link_count y = 1 \<and> (\<exists>l b off. edge_at g k = Some (PointsTo l t b off)) then None
                       else edge_at g k)"
    "\<forall>b. block_at g' b \<noteq> block_at g b \<longrightarrow> link_count y = 1 \<and> extent_of g t b" "still g' = still g"
    by (rule unlink_edits [OF wf run])
  have "t = i" using i(1) u(2) by (simp add: resolve_name_eq well_formedD [OF wf])
  moreover have "y = x" using i(2) get_inode_at [OF well_formedD(5) [OF wf] u(3)] \<open>t = i\<close> by simp
  ultimately have ty: "t = i" "y = x" by simp_all
  obtain z s where wf': "well_formed g'" and z: "fs_of g' = fs_unlink d n s z (fs_of g)" "names_of g (d, n) = Some s"
    using unlink_contract [OF wf, where clk = clk and d = d and n = n] run by auto
  then have s: "s = i" using u(2) ty by simp
  have D: "dir_at g' = dir_at g" by (rule dirs_same [OF wf wf']) (simp add: z fs_unlink_def del: fs_of_simps)
  have I: "inode_at g' j = inode_at g j" if "j \<noteq> i" for j
    unfolding inode_view z using that s by (simp add: fs_unlink_def)
  show ?thesis (is "_ = ?T")
  proof
    show "touched g g' \<subseteq> ?T"
    proof
      fix w assume "w \<in> touched g g'"
      then consider j where "w = NInode j" "inode_at g j \<noteq> inode_at g' j" | b where "w = NBlock b" "block_at g b \<noteq> block_at g' b"
        | k v where "edge_at g k = Some v" "edge_at g' k = None" "w = fst (edge_ends v) \<or> w = snd (edge_ends v)"
        unfolding touched_still [OF u(6)] D by (auto simp: u(4) split: if_splits)
      then show "w \<in> ?T"
      proof cases
        case 1
        then show ?thesis using I [of j] by auto
      next
        case 2
        have "link_count x = 1 \<and> extent_of g i b" using u(5) 2(2) ty by metis
        then show ?thesis using 2(1) by (auto simp: extent_of_def)
      next
        case 3
        then have "k = e \<or> link_count x = 1 \<and> (\<exists>l b off. edge_at g k = Some (PointsTo l i b off))"
          using ty by (simp add: u(4) split: if_splits)
        then show ?thesis using 3(1,3) u(1) ty by auto
      qed
    qed
    have edge: "fst (edge_ends w) \<in> touched g g' \<and> snd (edge_ends w) \<in> touched g g'"
      if "edge_at g k = Some w" "edge_at g' k = None" for k w
      unfolding touched_still [OF u(6)] using that by force
    have "{NDirectory d, NInode i} \<subseteq> touched g g'" using edge [OF u(1)] ty by (simp add: u(4))
    moreover have "NBlock b \<in> touched g g'" if "link_count x = 1" "edge_at g k = Some (PointsTo l i b off)" for k l b off
      using edge [OF that(2)] that ty by (simp add: u(4))
    ultimately show "?T \<subseteq> touched g g'" by auto
  qed
qed

lemma mkdir_touched:
  assumes wf: "well_formed g" and c: "canonical d"
    and cap: "next_inode g < NODE_CAPACITY" "next_dir g < NODE_CAPACITY" "next_edge g + 2 < EDGE_CAPACITY"
    and run: "mkdir clk g d n u gi p = (Ok r, g')" and new: "cr_dir_id r = Some c'"
  obtains j where "fs_dir (fs_of g) d = Some j"
    "touched g g' = {NDirectory d, NInode (cr_inode_id r), NDirectory c', NInode j}"
    "j \<noteq> cr_inode_id r"
proof -
  have wf': "well_formed g'"
    using mkdir_contract [OF wf c cap, where clk = clk and n = n and u = u and gi = gi and p = p] run by simp
  obtain x j where m: "fs_dir (fs_of g) d = Some j" "fs_of g' = fs_mkdir d n (cr_inode_id r) c' x j (fs_of g)"
    "fs_inode (fs_of g) (cr_inode_id r) = None" "fs_dir (fs_of g) c' = None"
    using mkdir_effect [OF wf c cap run] new by (metis option.inject)
  obtain l where at: "edge_at g' = (edge_at g)(next_edge g \<mapsto> Contains (next_edge g) d (cr_inode_id r) n,
      next_edge g + 1 \<mapsto> Contains (next_edge g + 1) c' (cr_inode_id r) ''.'',
      next_edge g + 2 \<mapsto> Contains (next_edge g + 2) c' l ''..'')"
    using mkdir_edge_at [OF wf cap(3) run new] by metis
  have fresh: "edge_at g k = None" if "next_edge g \<le> k" for k using fresh_edge_slot [OF wf that] .
  have "edge_at g' (next_edge g + 2) = Some (Contains (next_edge g + 2) c' l ''..'')" by (simp add: at)
  then have "names_of g' (c', ''..'') = Some l"
    using names_of_iff [OF well_formedD(3) [OF wf'], of c' "''..''" l] by blast
  moreover have "names_of g' (c', ''..'') = Some j"
    using arg_cong [OF m(2), of fs_name] by (simp add: fs_mkdir_def)
  ultimately have l: "l = j" by simp
  have I: "inode_at g' i = inode_at g i" if "i \<noteq> cr_inode_id r" for i
    unfolding inode_view m(2) using that by (simp add: fs_mkdir_def)
  have D: "dir_at g' a = dir_at g a" if "a \<noteq> c'" for a
    by (rule dir_same [OF wf wf']) (use that in \<open>simp add: m(2) fs_mkdir_def del: fs_of_simps\<close>)
  have edge: "fst (edge_ends w) \<in> touched g g' \<and> snd (edge_ends w) \<in> touched g g'"
    if "edge_at g k = None" "edge_at g' k = Some w" for k w
    unfolding touched_still [OF mkdir_still(2) [OF run]] using that by force
  have new: "k = next_edge g \<and> v = Contains (next_edge g) d (cr_inode_id r) n \<or>
      k = next_edge g + 1 \<and> v = Contains (next_edge g + 1) c' (cr_inode_id r) ''.'' \<or>
      k = next_edge g + 2 \<and> v = Contains (next_edge g + 2) c' j ''..''"
    if "edge_at g k \<noteq> edge_at g' k" "edge_at g k = Some v \<or> edge_at g' k = Some v" for k v
  proof -
    have "k = next_edge g \<or> k = next_edge g + 1 \<or> k = next_edge g + 2"
      using that(1) by (auto simp: at split: if_splits)
    then show ?thesis using that(2) fresh by (elim disjE) (simp_all add: at l eq_commute)
  qed
  have "touched g g' \<subseteq> {NDirectory d, NInode (cr_inode_id r), NDirectory c', NInode j}"
  proof
    fix w assume "w \<in> touched g g'"
    then consider i where "w = NInode i" "inode_at g i \<noteq> inode_at g' i" | a where "w = NDirectory a" "dir_at g a \<noteq> dir_at g' a"
      | k v where "edge_at g k \<noteq> edge_at g' k" "edge_at g k = Some v \<or> edge_at g' k = Some v"
          "w = fst (edge_ends v) \<or> w = snd (edge_ends v)"
      unfolding touched_still [OF mkdir_still(2) [OF run]] mkdir_still(1) [OF run] by blast
    then show "w \<in> {NDirectory d, NInode (cr_inode_id r), NDirectory c', NInode j}"
    proof cases
      case 1
      then show ?thesis using I [of i] by auto
    next
      case 2
      then show ?thesis using D [of a] by auto
    next
      case 3
      then show ?thesis using new [OF 3(1,2)] by auto
    qed
  qed
  moreover have "{NDirectory d, NInode (cr_inode_id r), NDirectory c', NInode j} \<subseteq> touched g g'"
    using edge [of "next_edge g" "Contains (next_edge g) d (cr_inode_id r) n"]
      edge [of "next_edge g + 2" "Contains (next_edge g + 2) c' j ''..''"] fresh
    by (simp add: at l)
  moreover have "j \<noteq> cr_inode_id r"
    using fs_ok_dir(1) [OF well_formedD(2) [OF wf] m(1)] m(3) by (auto simp: is_dir_def simp del: fs_of_simps)
  ultimately show thesis using that m(1) by blast
qed

section \<open>Properties\<close>

text \<open>
  C22: what the affected-node sets hold, against the nodes an operation touches: those that change, appear or
  disappear, of all kinds, and both ends of every edge that does.  The sets of \<open>create_file\<close>, \<open>link\<close> and
  \<open>write_block\<close> are exact.  That of \<open>unlink\<close> is exact unless the last link of a file with extents goes; then
  it misses the blocks of the extents.  That of \<open>mkdir\<close> misses the inode of the parent directory, which gains
  the new \<open>..\<close> entry.
\<close>

theorem affected_nodes_exact:
  assumes wf: "well_formed g" and c: "canonical d" "canonical t" and dir: "fs_dir (fs_of g) d \<noteq> None"
    and cap: "next_inode g < NODE_CAPACITY" "next_dir g < NODE_CAPACITY" "next_block g < NODE_CAPACITY"
      "next_edge g + 2 < EDGE_CAPACITY"
  shows "(\<forall>i g'. create_file clk g d n u gi p = (Ok i, g') \<longrightarrow>
            set (as_slice (affected_nodes_create d i)) = touched g g') \<and>
         (\<forall>g'. link clk g d n t = (Ok (), g') \<longrightarrow>
            set (as_slice (affected_nodes_link d t)) = touched g g') \<and>
         (\<forall>b g'. write_block g t off start cnt = (Ok b, g') \<longrightarrow> \<not> is_dir (fs_of g) t \<longrightarrow>
            set (as_slice (affected_nodes_write_block t b)) = touched g g') \<and>
         (\<forall>g' i x. unlink clk g d n = (Ok (), g') \<longrightarrow> resolve_name g d n = Some i \<longrightarrow> get_inode g i = Some x \<longrightarrow>
            set (as_slice (affected_nodes_unlink d i)) = touched g g' -
              (if link_count x = 1 then {NBlock b | b. \<exists>k e off. edge_at g k = Some (PointsTo e i b off)} else {}) \<and>
            (link_count x = 1 \<longrightarrow> {NBlock b | b. \<exists>k e off. edge_at g k = Some (PointsTo e i b off)} \<subseteq> touched g g')) \<and>
         (\<forall>r c' g'. mkdir clk g d n u gi p = (Ok r, g') \<longrightarrow> cr_dir_id r = Some c' \<longrightarrow>
            (\<exists>j. fs_dir (fs_of g) d = Some j \<and> NInode j \<in> touched g g' \<and>
               set (as_slice (affected_nodes_mkdir d (cr_inode_id r) c')) = touched g g' - {NInode j}))"
proof (intro conjI allI impI)
  have cap': "next_edge g < EDGE_CAPACITY" using cap(4) by simp
  show "set (as_slice (affected_nodes_create d i)) = touched g g'" if "create_file clk g d n u gi p = (Ok i, g')" for i g'
    by (simp add: create_file_touched [OF wf c(1) cap(1) cap' that] affected_slice_sets)
  show "set (as_slice (affected_nodes_link d t)) = touched g g'" if "link clk g d n t = (Ok (), g')" for g'
    by (simp add: link_touched [OF wf c(2) dir cap' that] affected_slice_sets)
  show "set (as_slice (affected_nodes_write_block t b)) = touched g g'"
    if "write_block g t off start cnt = (Ok b, g')" "\<not> is_dir (fs_of g) t" for b g'
    by (simp add: write_block_touched [OF wf c(2) that(2) cap(3) cap' that(1)] affected_slice_sets)
  fix g' i x assume u: "unlink clk g d n = (Ok (), g')" "resolve_name g d n = Some i" "get_inode g i = Some x"
  show "set (as_slice (affected_nodes_unlink d i)) = touched g g' -
      (if link_count x = 1 then {NBlock b | b. \<exists>k e off. edge_at g k = Some (PointsTo e i b off)} else {})"
    "link_count x = 1 \<Longrightarrow> {NBlock b | b. \<exists>k e off. edge_at g k = Some (PointsTo e i b off)} \<subseteq> touched g g'"
    by (auto simp: unlink_touched [OF wf u] affected_slice_sets)
next
  fix r c' g' assume m: "mkdir clk g d n u gi p = (Ok r, g')" "cr_dir_id r = Some c'"
  obtain j where "fs_dir (fs_of g) d = Some j"
    "touched g g' = {NDirectory d, NInode (cr_inode_id r), NDirectory c', NInode j}" "j \<noteq> cr_inode_id r"
    by (rule mkdir_touched [OF wf c(1) cap(1,2,4) m])
  then show "\<exists>j. fs_dir (fs_of g) d = Some j \<and> NInode j \<in> touched g g' \<and>
      set (as_slice (affected_nodes_mkdir d (cr_inode_id r) c')) = touched g g' - {NInode j}"
    by (auto simp: affected_slice_sets simp del: fs_of_simps)
qed

theorem affected_nodes_exact_witness:
  "touched root_graph file_graph = {NDirectory 1, NInode 2} \<and>
   touched root_graph dir_graph = {NDirectory 1, NInode 2, NDirectory 2, NInode 1}"
proof
  have dir: "fs_dir (fs_of root_graph) 1 \<noteq> None" and cap: "next_inode root_graph < NODE_CAPACITY"
    "next_dir root_graph < NODE_CAPACITY" "next_block root_graph < NODE_CAPACITY" "next_edge root_graph + 2 < EDGE_CAPACITY"
    by (simp_all add: root_graph_facts room NODE_CAPACITY_def del: fs_of_simps)
  note exact = affected_nodes_exact [OF root_graph_ok small_canonical dir cap, where clk = "\<lambda>_. 0" and u = 0 and gi = 0]
  show "touched root_graph file_graph = {NDirectory 1, NInode 2}"
    using exact [where n = "''a''" and p = 420, THEN conjunct1, rule_format, OF file_graph_run]
    by (simp add: affected_slice_sets)
  have "\<exists>j. fs_dir (fs_of root_graph) 1 = Some j \<and> NInode j \<in> touched root_graph dir_graph \<and>
      set (as_slice (affected_nodes_mkdir 1 2 2)) = touched root_graph dir_graph - {NInode j}"
    using exact [where n = "''d''" and p = 493, THEN conjunct2, THEN conjunct2, THEN conjunct2, THEN conjunct2,
        rule_format, OF dir_graph_run] by simp
  then show "touched root_graph dir_graph = {NDirectory 1, NInode 2, NDirectory 2, NInode 1}"
    by (auto simp: root_graph_facts affected_slice_sets simp del: fs_of_simps)
qed

end
