(* ===== verification/Sotfs_Rcu.thy ===== *)
theory Sotfs_Rcu
  imports Sotfs_Prelude
begin

text \<open>
  The read-copy-update wrapper of \<open>sotfs-graph/src/rcu.rs\<close>: two copies of the graph, an index of the
  active one, a stamp per reader and a writer flag.  A thread is a program counter with its local
  variables; one step is one atomic access, or one stretch of the closure's work on a copy.  Threads
  interleave freely and memory is sequentially consistent, which is stronger than the orderings the
  code asks for.  The content of a copy is opaque to the wrapper, so it is a type parameter.
\<close>

section \<open>Shared state\<close>

definition MAX_READERS :: nat where "MAX_READERS = 64"
definition EPOCH_INACTIVE :: u64 where "EPOCH_INACTIVE = 0"

record 'g rcu_graph =
  copies :: "'g list"
  active :: nat
  global_epoch :: u64
  reader_epochs :: "u64 list"
  write_locked :: bool

definition rcu_from_graph :: "'g \<Rightarrow> 'g rcu_graph" where
  "rcu_from_graph g =
     \<lparr>copies = [g, g], active = 0, global_epoch = 1,
      reader_epochs = replicate MAX_READERS EPOCH_INACTIVE, write_locked = False\<rparr>"

definition active_ref :: "'g rcu_graph \<Rightarrow> 'g" where
  "active_ref s = copies s ! active s"

section \<open>Threads\<close>

text \<open>
  A reader fetches an epoch, claims the first free slot, loads the active index, reads and frees its
  slot; it panics when no slot is free.  A writer takes the lock, loads the active index and the
  epoch, clones, mutates, swaps, scans the slots until none holds an epoch up to the loaded one, and
  releases the lock.
\<close>

datatype rcu_pc =
    RStart | RClaim u64 nat | RLoad nat | RRead nat nat | RUnlock nat | RDone | RPanic
  | WStart | WLoad | WEpoch nat | WClone nat u64 | WMutate nat u64 | WSwap nat u64
  | WSync u64 nat | WRelease | WDone

fun thread_step :: "('g \<Rightarrow> 'g) \<Rightarrow> rcu_pc \<Rightarrow> 'g rcu_graph \<Rightarrow> rcu_pc \<times> 'g rcu_graph" where
  "thread_step f RStart s =
     (RClaim (global_epoch s + 1) 0, s\<lparr>global_epoch := global_epoch s + 1\<rparr>)"
| "thread_step f (RClaim e i) s =
     (if i \<ge> MAX_READERS then (RPanic, s)
      else if reader_epochs s ! i = EPOCH_INACTIVE
      then (RLoad i, s\<lparr>reader_epochs := (reader_epochs s)[i := e]\<rparr>)
      else (RClaim e (i + 1), s))"
| "thread_step f (RLoad slot) s = (RRead slot (active s), s)"
| "thread_step f (RRead slot idx) s = (RUnlock slot, s)"
| "thread_step f (RUnlock slot) s =
     (RDone, s\<lparr>reader_epochs := (reader_epochs s)[slot := EPOCH_INACTIVE]\<rparr>)"
| "thread_step f RDone s = (RDone, s)"
| "thread_step f RPanic s = (RPanic, s)"
| "thread_step f WStart s = (if write_locked s then (WStart, s) else (WLoad, s\<lparr>write_locked := True\<rparr>))"
| "thread_step f WLoad s = (WEpoch (active s), s)"
| "thread_step f (WEpoch cur) s = (WClone cur (global_epoch s), s)"
| "thread_step f (WClone cur pre) s =
     (WMutate cur pre, s\<lparr>copies := (copies s)[1 - cur := copies s ! cur]\<rparr>)"
| "thread_step f (WMutate cur pre) s =
     (WSwap cur pre, s\<lparr>copies := (copies s)[1 - cur := f (copies s ! (1 - cur))]\<rparr>)"
| "thread_step f (WSwap cur pre) s = (WSync pre 0, s\<lparr>active := 1 - cur\<rparr>)"
| "thread_step f (WSync pre i) s =
     (if i \<ge> MAX_READERS then (WRelease, s)
      else if reader_epochs s ! i \<noteq> EPOCH_INACTIVE \<and> reader_epochs s ! i \<le> pre then (WSync pre 0, s)
      else (WSync pre (i + 1), s))"
| "thread_step f WRelease s = (WDone, s\<lparr>write_locked := False\<rparr>)"
| "thread_step f WDone s = (WDone, s)"

text \<open>The system: thread \<open>t\<close> writes with the closure \<open>f t\<close>; a schedule names the thread of each step.\<close>

type_synonym 'g rcu_system = "'g rcu_graph \<times> (nat \<Rightarrow> rcu_pc)"

fun rcu_step :: "(nat \<Rightarrow> 'g \<Rightarrow> 'g) \<Rightarrow> nat \<Rightarrow> 'g rcu_system \<Rightarrow> 'g rcu_system" where
  "rcu_step f t (s, T) = (case thread_step (f t) (T t) s of (pc, s') \<Rightarrow> (s', T(t := pc)))"

definition rcu_run :: "(nat \<Rightarrow> 'g \<Rightarrow> 'g) \<Rightarrow> nat list \<Rightarrow> 'g rcu_system \<Rightarrow> 'g rcu_system" where
  "rcu_run f sched = fold (rcu_step f) sched"

definition is_start :: "rcu_pc \<Rightarrow> bool" where
  "is_start pc \<longleftrightarrow> pc = RStart \<or> pc = WStart"

inductive rcu_reachable :: "(nat \<Rightarrow> 'g \<Rightarrow> 'g) \<Rightarrow> 'g \<Rightarrow> (nat \<Rightarrow> rcu_pc) \<Rightarrow> 'g rcu_system \<Rightarrow> bool"
  for f g T0 where
  init: "\<forall>t. is_start (T0 t) \<Longrightarrow> rcu_reachable f g T0 (rcu_from_graph g, T0)"
| step: "rcu_reachable f g T0 x \<Longrightarrow> rcu_reachable f g T0 (rcu_step f t x)"

lemma rcu_reachable_run:
  "rcu_reachable f g T0 x \<Longrightarrow> rcu_reachable f g T0 (rcu_run f sched x)"
  by (induction sched arbitrary: x) (simp_all add: rcu_run_def rcu_reachable.step del: rcu_step.simps)

section \<open>Writers\<close>

fun in_write :: "rcu_pc \<Rightarrow> bool" where
  "in_write WLoad = True"
| "in_write (WEpoch _) = True"
| "in_write (WClone _ _) = True"
| "in_write (WMutate _ _) = True"
| "in_write (WSwap _ _) = True"
| "in_write (WSync _ _) = True"
| "in_write WRelease = True"
| "in_write _ = False"

fun is_writer :: "rcu_pc \<Rightarrow> bool" where
  "is_writer WStart = True"
| "is_writer WDone = True"
| "is_writer pc = in_write pc"

definition lock_inv :: "'g rcu_system \<Rightarrow> bool" where
  "lock_inv x \<longleftrightarrow>
     (\<forall>a b. in_write (snd x a) \<longrightarrow> in_write (snd x b) \<longrightarrow> a = b) \<and>
     (write_locked (fst x) \<longleftrightarrow> (\<exists>a. in_write (snd x a)))"

lemma thread_step_lock:
  "thread_step f pc s = (pc', s') \<Longrightarrow>
     (in_write pc' \<longrightarrow> in_write pc \<or> \<not> write_locked s) \<and>
     write_locked s' = (if in_write pc \<and> \<not> in_write pc' then False
                        else if \<not> in_write pc \<and> in_write pc' then True else write_locked s)"
  by (cases pc) (auto split: if_splits)

lemma lock_inv_step:
  assumes "lock_inv x"
  shows "lock_inv (rcu_step f t x)"
proof -
  obtain s T where x: "x = (s, T)" by fastforce
  obtain pc s' where st: "thread_step (f t) (T t) s = (pc, s')" by fastforce
  note l = thread_step_lock [OF st]
  show ?thesis
  proof (cases "in_write pc")
    case True
    then show ?thesis
      using assms l unfolding lock_inv_def x by (simp add: st) (metis (full_types))
  next
    case False
    then show ?thesis
      using assms l unfolding lock_inv_def x by (simp add: st) (metis (full_types))
  qed
qed

lemma is_startD: "is_start pc \<Longrightarrow> \<not> in_write pc"
  by (auto simp: is_start_def)

lemma rcu_lock_inv: "rcu_reachable f g T0 x \<Longrightarrow> lock_inv x"
proof (induction rule: rcu_reachable.induct)
  case init
  then have "\<not> in_write (T0 t)" for t by (simp add: is_startD)
  then show ?case by (simp add: lock_inv_def rcu_from_graph_def)
qed (rule lock_inv_step)

section \<open>Readers\<close>

fun held_slot :: "rcu_pc \<Rightarrow> nat option" where
  "held_slot (RLoad i) = Some i"
| "held_slot (RRead i _) = Some i"
| "held_slot (RUnlock i) = Some i"
| "held_slot _ = None"

text \<open>\<open>k\<close> bounds the number of epochs handed out, so that the counter has not wrapped.\<close>

definition slots_inv :: "nat \<Rightarrow> 'g rcu_system \<Rightarrow> bool" where
  "slots_inv k x \<longleftrightarrow>
     unat (global_epoch (fst x)) \<le> k + 1 \<and> length (reader_epochs (fst x)) = MAX_READERS \<and>
     (\<forall>t e i. snd x t = RClaim e i \<longrightarrow> e \<noteq> EPOCH_INACTIVE) \<and>
     (\<forall>t i. held_slot (snd x t) = Some i \<longrightarrow>
        i < MAX_READERS \<and> reader_epochs (fst x) ! i \<noteq> EPOCH_INACTIVE) \<and>
     (\<forall>a b i. held_slot (snd x a) = Some i \<longrightarrow> held_slot (snd x b) = Some i \<longrightarrow> a = b)"

lemma slots_inv_mono: "slots_inv k x \<Longrightarrow> k \<le> l \<Longrightarrow> slots_inv l x"
  by (auto simp: slots_inv_def)

text \<open>A step that leaves the stamps alone.\<close>

lemma slots_inv_quiet:
  assumes inv: "slots_inv k (s, T)"
    and s': "reader_epochs s' = reader_epochs s" "unat (global_epoch s') \<le> l + 1" "k \<le> l"
    and pc: "held_slot pc = held_slot (T t)" "\<And>e i. pc = RClaim e i \<Longrightarrow> e \<noteq> EPOCH_INACTIVE"
  shows "slots_inv l (s', T(t := pc))"
  using assms unfolding slots_inv_def by auto

lemma slots_inv_claim:
  assumes inv: "slots_inv k (s, T)" and t: "T t = RClaim e i" and i: "i < MAX_READERS"
    and free: "reader_epochs s ! i = EPOCH_INACTIVE"
  shows "slots_inv k (s\<lparr>reader_epochs := (reader_epochs s)[i := e]\<rparr>, T(t := RLoad i))"
proof -
  have e: "e \<noteq> EPOCH_INACTIVE" and len: "length (reader_epochs s) = MAX_READERS"
    using inv t unfolding slots_inv_def by auto
  have other: "held_slot (T a) \<noteq> Some i" for a
    using inv free unfolding slots_inv_def by auto
  show ?thesis
    using inv e len i other unfolding slots_inv_def by (auto simp: nth_list_update)
qed

lemma slots_inv_release:
  assumes inv: "slots_inv k (s, T)" and t: "T t = RUnlock i"
  shows "slots_inv k (s\<lparr>reader_epochs := (reader_epochs s)[i := EPOCH_INACTIVE]\<rparr>, T(t := RDone))"
proof -
  have "held_slot (T t) = Some i" using t by simp
  then have "j \<noteq> i" if "a \<noteq> t" "held_slot (T a) = Some j" for a j
    using inv that unfolding slots_inv_def by auto
  then have "(reader_epochs s)[i := EPOCH_INACTIVE] ! j = reader_epochs s ! j"
    if "a \<noteq> t" "held_slot (T a) = Some j" for a j
    using that by (metis nth_list_update_neq)
  then show ?thesis
    using inv unfolding slots_inv_def by auto
qed

lemma slots_inv_step:
  assumes inv: "slots_inv k x" and k: "k + 2 < 2 ^ 64"
  shows "slots_inv (k + 1) (rcu_step f t x)"
proof -
  obtain s T where x: "x = (s, T)" by fastforce
  have inv': "slots_inv k (s, T)" and bound: "unat (global_epoch s) \<le> k + 1"
    using inv x by (auto simp: slots_inv_def)
  show ?thesis
  proof (cases "T t")
    case RStart
    have "unat (global_epoch s) + 1 < 2 ^ 64" using bound k by linarith
    then have u: "unat (global_epoch s + 1) = unat (global_epoch s) + 1"
      by (simp add: unat_word_ariths)
    then have "global_epoch s + 1 \<noteq> EPOCH_INACTIVE"
      by (metis EPOCH_INACTIVE_def Suc_eq_plus1 nat.distinct(1) unat_0)
    then have "slots_inv (k + 1) (s\<lparr>global_epoch := global_epoch s + 1\<rparr>, T(t := RClaim (global_epoch s + 1) 0))"
      using u bound RStart by (intro slots_inv_quiet [OF inv']) auto
    then show ?thesis by (simp add: x RStart)
  next
    case (RClaim e i)
    then have e: "e \<noteq> EPOCH_INACTIVE" using inv' unfolding slots_inv_def by auto
    show ?thesis
    proof (cases "i < MAX_READERS \<and> reader_epochs s ! i = EPOCH_INACTIVE")
      case True
      then have "rcu_step f t x = (s\<lparr>reader_epochs := (reader_epochs s)[i := e]\<rparr>, T(t := RLoad i))"
        by (simp add: x RClaim)
      then show ?thesis
        using slots_inv_mono [OF slots_inv_claim [OF inv' RClaim], of "k + 1"] True by simp
    next
      case False
      then obtain pc where pc: "rcu_step f t x = (s, T(t := pc))" "pc = RPanic \<or> pc = RClaim e (i + 1)"
        using that by (cases "MAX_READERS \<le> i") (auto simp: x RClaim)
      have "slots_inv (k + 1) (s, T(t := pc))"
        by (rule slots_inv_quiet [OF inv']) (use pc(2) RClaim bound e in auto)
      then show ?thesis by (simp add: pc(1))
    qed
  next
    case (RUnlock i)
    then show ?thesis
      using slots_inv_mono [OF slots_inv_release [OF inv' RUnlock], of "k + 1"] by (simp add: x)
  qed (use bound in \<open>auto simp: x intro!: slots_inv_quiet [OF inv']\<close>)
qed

lemma slots_inv_run:
  assumes T0: "\<forall>t. is_start (T0 t)" and len: "length sched + 2 < 2 ^ 64"
  shows "slots_inv (length sched) (rcu_run f sched (rcu_from_graph g, T0))"
  using len
proof (induction sched rule: rev_induct)
  case Nil
  have "held_slot (T0 t) = None \<and> (\<forall>e i. T0 t \<noteq> RClaim e i)" for t
    using T0 [rule_format, of t] by (auto simp: is_start_def)
  then show ?case by (simp add: rcu_run_def slots_inv_def rcu_from_graph_def)
next
  case (snoc t sched)
  then have "slots_inv (length sched) (rcu_run f sched (rcu_from_graph g, T0))" by simp
  from slots_inv_step [OF this, of f t] snoc.prems show ?case
    by (simp add: rcu_run_def del: rcu_step.simps)
qed

section \<open>One writer\<close>

fun swapped :: "rcu_pc \<Rightarrow> bool" where
  "swapped (WSync _ _) = True"
| "swapped WRelease = True"
| "swapped WDone = True"
| "swapped _ = False"

text \<open>Where the writer is and what the two copies then hold.\<close>

fun writer_at :: "'g \<Rightarrow> 'g \<Rightarrow> rcu_pc \<Rightarrow> 'g rcu_graph \<Rightarrow> bool" where
  "writer_at g h WStart s = (active s = 0 \<and> copies s = [g, g])"
| "writer_at g h WLoad s = (active s = 0 \<and> copies s = [g, g])"
| "writer_at g h (WEpoch c) s = (c = 0 \<and> active s = 0 \<and> copies s = [g, g])"
| "writer_at g h (WClone c _) s = (c = 0 \<and> active s = 0 \<and> copies s = [g, g])"
| "writer_at g h (WMutate c _) s = (c = 0 \<and> active s = 0 \<and> copies s = [g, g])"
| "writer_at g h (WSwap c _) s = (c = 0 \<and> active s = 0 \<and> copies s = [g, h])"
| "writer_at g h pc s = (swapped pc \<and> active s = 1 \<and> copies s = [g, h])"

definition single_inv :: "'g \<Rightarrow> 'g \<Rightarrow> nat \<Rightarrow> 'g rcu_system \<Rightarrow> bool" where
  "single_inv g h w x \<longleftrightarrow>
     writer_at g h (snd x w) (fst x) \<and> (\<forall>t. t \<noteq> w \<longrightarrow> \<not> is_writer (snd x t)) \<and>
     (\<forall>t slot idx. snd x t = RRead slot idx \<longrightarrow> idx = 0 \<or> idx = 1 \<and> swapped (snd x w))"

lemma writer_at_reader_fields:
  "copies s' = copies s \<Longrightarrow> active s' = active s \<Longrightarrow> writer_at g h pc s' = writer_at g h pc s"
  by (cases pc) simp_all

lemma writer_at_active: "writer_at g h pc s \<Longrightarrow> active s = 0 \<or> active s = 1 \<and> swapped pc"
  by (cases pc) simp_all

lemma reader_step:
  assumes "thread_step f pc s = (pc', s')" "\<not> is_writer pc"
  shows "copies s' = copies s \<and> active s' = active s \<and> \<not> is_writer pc' \<and>
    (\<forall>slot idx. pc' = RRead slot idx \<longrightarrow> idx = active s)"
  using assms by (cases pc) (auto split: if_splits)

lemma writer_step:
  assumes "thread_step f pc s = (pc', s')" "writer_at g (f g) pc s"
  shows "writer_at g (f g) pc' s' \<and> (swapped pc \<longrightarrow> swapped pc') \<and> (\<forall>slot idx. pc' \<noteq> RRead slot idx)"
  using assms by (cases pc) (auto split: if_splits)

lemma single_inv_step:
  assumes inv: "single_inv g (f w g) w x"
  shows "single_inv g (f w g) w (rcu_step f t x)"
proof -
  obtain s T where x: "x = (s, T)" by fastforce
  obtain pc s' where st: "thread_step (f t) (T t) s = (pc, s')" by fastforce
  have w: "writer_at g (f w g) (T w) s" and r: "\<forall>t. t \<noteq> w \<longrightarrow> \<not> is_writer (T t)"
    and idx: "\<forall>t slot idx. T t = RRead slot idx \<longrightarrow> idx = 0 \<or> idx = 1 \<and> swapped (T w)"
    using inv by (simp_all add: single_inv_def x)
  show ?thesis
  proof (cases "t = w")
    case True
    then show ?thesis
      using writer_step [of "f w" "T w" s pc s' g] st w r idx by (auto simp: single_inv_def x)
  next
    case False
    then have "\<not> is_writer (T t)" using r by blast
    note rs = reader_step [OF st this]
    then have "writer_at g (f w g) (T w) s'" using w writer_at_reader_fields [of s' s] by blast
    then show ?thesis
      using rs r idx False writer_at_active [OF w] by (auto simp: single_inv_def x st)
  qed
qed

lemma single_inv_reachable:
  assumes "rcu_reachable f g T0 x" "T0 w = WStart" "\<forall>t. t \<noteq> w \<longrightarrow> T0 t = RStart"
  shows "single_inv g (f w g) w x"
  using assms
proof (induction rule: rcu_reachable.induct)
  case init
  then have "T0 t = (if t = w then WStart else RStart)" for t by simp
  then show ?case by (simp add: single_inv_def rcu_from_graph_def)
qed (blast intro: single_inv_step)

section \<open>Two writers\<close>

lemma rcu_run_Nil [simp]: "rcu_run f [] x = x"
  by (simp add: rcu_run_def)

lemma rcu_run_Cons [simp]: "rcu_run f (t # ts) x = rcu_run f ts (rcu_step f t x)"
  by (simp add: rcu_run_def del: rcu_step.simps)

lemma rcu_run_append: "rcu_run f (ts @ us) x = rcu_run f us (rcu_run f ts x)"
  by (simp add: rcu_run_def del: rcu_step.simps)

lemma sync_passes:
  assumes clear: "\<forall>j < MAX_READERS. reader_epochs s ! j = EPOCH_INACTIVE \<or> pre < reader_epochs s ! j"
  shows "i + n = MAX_READERS \<Longrightarrow> T w = WSync pre i \<Longrightarrow>
    rcu_run f (replicate (n + 1) w) (s, T) = (s, T(w := WRelease))"
proof (induction n arbitrary: i T)
  case 0
  then show ?case by (simp add: fun_eq_iff)
next
  case (Suc n)
  have "rcu_step f w (s, T) = (s, T(w := WSync pre (i + 1)))"
    using clear [rule_format, of i] Suc.prems by auto
  moreover have "rcu_run f (replicate (n + 1) w) (s, T(w := WSync pre (i + 1))) = (s, T(w := WRelease))"
  proof -
    have "i + 1 + n = MAX_READERS" using Suc.prems by simp
    moreover have "(T(w := WSync pre (i + 1))) w = WSync pre (i + 1)" by (rule fun_upd_same)
    ultimately have "rcu_run f (replicate (n + 1) w) (s, T(w := WSync pre (i + 1))) =
        (s, T(w := WSync pre (i + 1), w := WRelease))" by (rule Suc.IH)
    then show ?thesis by (simp only: fun_upd_upd)
  qed
  moreover have "replicate (Suc n + 1) w = w # replicate (n + 1) w" by simp
  ultimately show ?case by (simp only: rcu_run_Cons)
qed

text \<open>
  The schedule: writer 1 loads the epoch, then reader 0 enters, then writer 1 finishes without waiting
  for it, then writer 2 starts over in the copy the reader is still reading.
\<close>

definition race_start :: "nat \<Rightarrow> rcu_pc" where
  "race_start t = (if t = 0 then RStart else WStart)"

definition race_enter :: "nat list" where
  "race_enter = [1, 1, 1, 0, 0, 0]"

definition race_overwrite :: "nat list" where
  "race_overwrite = [1, 1, 1] @ replicate 65 1 @ [1] @ [2, 2, 2, 2, 2]"

lemma race_entered:
  obtains s T where "rcu_run f race_enter (rcu_from_graph g, race_start) = (s, T)"
    "copies s = [g, g]" "active s = 0" "global_epoch s = 2" "write_locked s"
    "reader_epochs s = (replicate MAX_READERS EPOCH_INACTIVE)[0 := 2]"
    "T 0 = RRead 0 0" "T 1 = WClone 0 1" "T 2 = WStart"
proof -
  let ?s = "\<lparr>copies = [g, g], active = 0, global_epoch = 2,
      reader_epochs = (replicate MAX_READERS EPOCH_INACTIVE)[0 := 2], write_locked = True\<rparr>"
  have "rcu_run f race_enter (rcu_from_graph g, race_start) =
      (?s, race_start(1 := WClone 0 1, 0 := RRead 0 0))"
    by (simp add: race_enter_def rcu_from_graph_def race_start_def MAX_READERS_def fun_eq_iff)
  then show thesis by (rule that) (simp_all add: race_start_def)
qed

lemma race_overwritten:
  assumes s: "copies s = [g, g]" "active s = 0" "global_epoch s = 2" "write_locked s"
    "reader_epochs s = (replicate MAX_READERS EPOCH_INACTIVE)[0 := 2]"
    and T: "T 0 = RRead 0 0" "T 1 = WClone 0 1" "T 2 = WStart"
  shows "\<exists>s' T'. rcu_run f race_overwrite (s, T) = (s', T') \<and> T' 0 = RRead 0 0 \<and>
    T' 2 = WSwap 1 2 \<and> copies s' = [f 2 (f 1 g), f 1 g]"
proof -
  let ?s = "s\<lparr>copies := [g, f 1 g], active := 1\<rparr>"
  have 1: "rcu_run f [1, 1, 1] (s, T) = (?s, T(1 := WSync 1 0))"
    using s T by (simp add: fun_eq_iff)
  have "\<forall>j < MAX_READERS. reader_epochs ?s ! j = EPOCH_INACTIVE \<or> 1 < reader_epochs ?s ! j"
    by (auto simp: s nth_list_update)
  from sync_passes [OF this, of 0 64 "T(1 := WSync 1 0)" 1 f]
  have 2: "rcu_run f (replicate 65 1) (?s, T(1 := WSync 1 0)) = (?s, T(1 := WRelease))"
    by (simp add: MAX_READERS_def fun_eq_iff)
  have 3: "rcu_run f [1] (?s, T(1 := WRelease)) = (?s\<lparr>write_locked := False\<rparr>, T(1 := WDone))"
    by (simp add: fun_eq_iff)
  have 4: "rcu_run f [2, 2, 2, 2, 2] (?s\<lparr>write_locked := False\<rparr>, T(1 := WDone)) =
      (?s\<lparr>write_locked := True, copies := [f 2 (f 1 g), f 1 g]\<rparr>, T(1 := WDone, 2 := WSwap 1 2))"
    using s T by (simp add: fun_eq_iff)
  show ?thesis
    using T by (simp only: race_overwrite_def rcu_run_append 1 2 3 4) simp
qed

section \<open>Properties\<close>

text \<open>
  At any time at most one thread is inside \<open>write\<close>, and the writer flag says whether there is one,
  for every number of threads and every schedule.
\<close>

theorem rcu_writers_exclusive:
  assumes "rcu_reachable f g T0 (s, T)"
  shows "(\<forall>a b. in_write (T a) \<longrightarrow> in_write (T b) \<longrightarrow> a = b) \<and> (write_locked s \<longleftrightarrow> (\<exists>a. in_write (T a)))"
  using rcu_lock_inv [OF assms] by (simp add: lock_inv_def)

lemma race_enter_reachable:
  "rcu_reachable f g race_start (rcu_run f race_enter (rcu_from_graph g, race_start))"
  by (rule rcu_reachable_run, rule rcu_reachable.init) (simp add: race_start_def is_start_def)

theorem rcu_writers_exclusive_witness:
  "write_locked (fst (rcu_run (\<lambda>_ n. n + 1) race_enter (rcu_from_graph (0::nat), race_start)))"
proof (rule race_entered [of "\<lambda>_ n. n + 1" "0::nat"])
  fix s T assume r: "rcu_run (\<lambda>_ n. n + 1) race_enter (rcu_from_graph (0::nat), race_start) = (s, T)" "T 1 = WClone 0 1"
  then have "in_write (T 1)" by simp
  moreover have "rcu_reachable (\<lambda>_ n. n + 1) (0::nat) race_start (s, T)"
    using race_enter_reachable [of "\<lambda>_ n. n + 1" "0::nat"] r(1) by simp
  ultimately show ?thesis using rcu_writers_exclusive r(1) by fastforce
qed

text \<open>
  Readers never share a slot, and the slot of a reader between its lock and its unlock carries a
  stamp other than the inactive one, in every run of fewer than \<open>2 ^ 64 - 2\<close> steps.
\<close>

theorem rcu_slots_exclusive:
  assumes "\<forall>t. is_start (T0 t)" and "length sched + 2 < 2 ^ 64"
    and run: "rcu_run f sched (rcu_from_graph g, T0) = (s, T)"
  shows "(\<forall>a i. held_slot (T a) = Some i \<longrightarrow> i < MAX_READERS \<and> reader_epochs s ! i \<noteq> EPOCH_INACTIVE) \<and>
         (\<forall>a b i. held_slot (T a) = Some i \<longrightarrow> held_slot (T b) = Some i \<longrightarrow> a = b)"
  using slots_inv_run [OF assms(1,2), of f g] run by (simp add: slots_inv_def)

theorem rcu_slots_exclusive_witness:
  "reader_epochs (fst (rcu_run (\<lambda>_ n. n + 1) race_enter (rcu_from_graph (0::nat), race_start))) ! 0 \<noteq> EPOCH_INACTIVE"
proof (rule race_entered [of "\<lambda>_ n. n + 1" "0::nat"])
  fix s T assume r: "rcu_run (\<lambda>_ n. n + 1) race_enter (rcu_from_graph (0::nat), race_start) = (s, T)" "T 0 = RRead 0 0"
  have "\<forall>t. is_start (race_start t)" by (simp add: race_start_def is_start_def)
  moreover have "length race_enter + 2 < 2 ^ 64" by (simp add: race_enter_def)
  ultimately have "\<forall>i. held_slot (T 0) = Some i \<longrightarrow> reader_epochs s ! i \<noteq> EPOCH_INACTIVE"
    using rcu_slots_exclusive [OF _ _ r(1)] by blast
  then show ?thesis using r by simp
qed

text \<open>
  C24: with a single \<open>write\<close> in flight the wrapper is linearizable: every reader's closure runs on the
  graph from before or on the finished result, never on a copy that is being changed, and from the swap
  on the active graph is the result.
\<close>

theorem rcu_single_write_atomic:
  assumes "rcu_reachable f g T0 (s, T)" "T0 w = WStart" "\<forall>t. t \<noteq> w \<longrightarrow> T0 t = RStart"
  shows "(\<forall>r slot idx. T r = RRead slot idx \<longrightarrow> copies s ! idx = g \<or> swapped (T w) \<and> copies s ! idx = f w g) \<and>
         (\<forall>r slot idx cur pre. T r = RRead slot idx \<longrightarrow> T w = WMutate cur pre \<longrightarrow> idx \<noteq> 1 - cur) \<and>
         active_ref s = (if swapped (T w) then f w g else g)"
proof -
  have inv: "single_inv g (f w g) w (s, T)" by (rule single_inv_reachable [OF assms])
  then have "writer_at g (f w g) (T w) s"
    and idx: "\<forall>t slot idx. T t = RRead slot idx \<longrightarrow> idx = 0 \<or> idx = 1 \<and> swapped (T w)"
    by (simp_all add: single_inv_def)
  then show ?thesis by (cases "T w") (fastforce simp: active_ref_def)+
qed

theorem rcu_single_write_atomic_witness:
  "active_ref (fst (rcu_run (\<lambda>_ n. n + 1) [1, 1, 1, 1, 1, 1]
     (rcu_from_graph (0::nat), \<lambda>t. if t = 1 then WStart else RStart))) = 1"
proof -
  let ?T0 = "\<lambda>t::nat. if t = 1 then WStart else RStart"
  let ?x = "rcu_run (\<lambda>_ n. n + 1) [1, 1, 1, 1, 1, 1] (rcu_from_graph (0::nat), ?T0)"
  have "swapped (snd ?x 1)" by (simp add: rcu_from_graph_def)
  moreover have "rcu_reachable (\<lambda>_ n. n + 1) (0::nat) ?T0 (fst ?x, snd ?x)"
    unfolding prod.collapse by (rule rcu_reachable_run, rule rcu_reachable.init) (simp add: is_start_def)
  ultimately show ?thesis
    using rcu_single_write_atomic [of "\<lambda>_ n. n + 1" "0::nat" ?T0 "fst ?x" "snd ?x" 1]
    by (simp only: if_True) simp
qed

text \<open>
  C23: with two writes the promise that a reader's copy does not change under it fails, whatever the
  graphs and the closures are.  A reader that enters after the first writer has loaded the epoch is not
  waited for; once that writer is done, the second one clones into, and changes, the copy the reader
  is still reading.
\<close>

theorem rcu_reader_overwritten:
  "\<exists>s T s' T'. rcu_run f race_enter (rcu_from_graph g, race_start) = (s, T) \<and>
     T 0 = RRead 0 0 \<and> copies s ! 0 = g \<and>
     rcu_run f race_overwrite (s, T) = (s', T') \<and>
     T' 0 = RRead 0 0 \<and> copies s' ! 0 = f 2 (f 1 g)"
proof (rule race_entered [of f g])
  fix s T assume r: "rcu_run f race_enter (rcu_from_graph g, race_start) = (s, T)"
    "copies s = [g, g]" "active s = 0" "global_epoch s = 2" "write_locked s"
    "reader_epochs s = (replicate MAX_READERS EPOCH_INACTIVE)[0 := 2]"
    "T 0 = RRead 0 0" "T 1 = WClone 0 1" "T 2 = WStart"
  show ?thesis using race_overwritten [OF r(2-9), of f] r(1,2,7) by auto
qed

end
