(* ===== verification/Sotfs_Deception.thy ===== *)
theory Sotfs_Deception
  imports Sotfs_Storage
begin

text \<open>
  The graph projections of \<open>sotfs-monitor/src/deception.rs\<close>: the view a policy shows to a domain, name
  lookup and reading through a view, the structural check of a view, and the alert for an access to a
  honeypot.  The built-in profiles and the estimates in floating point are in theories of their own.
\<close>

section \<open>Policies and views\<close>

record synthetic_entry =
  syn_parent_dir :: dir_id
  syn_name :: string
  syn_inode :: inode
  syn_data :: "u8 list"

datatype policy =
    Passthrough
  | Restrict dir_id
  | Fabricate "synthetic_entry list"
  | Redirect "(string, inode_id) bmap"

record projected_view =
  visible_inodes :: "(inode_id, inode) bmap"
  visible_entries :: "(dir_id, (string \<times> inode_id) list) bmap"
  fabricated_data :: "(inode_id, u8 list) bmap"
  redirects :: "(inode_id, inode_id) bmap"

text \<open>\<open>collect::<BTreeMap>\<close>, and a loop of \<open>insert\<close>s.\<close>

definition bmap_collect :: "('k::linorder \<times> 'v) list \<Rightarrow> ('k, 'v) bmap" where
  "bmap_collect xs = fold (\<lambda>(k, v) m. bmap_insert k v m) xs []"

definition project_passthrough :: "type_graph \<Rightarrow> projected_view" where
  "project_passthrough g =
     \<lparr>visible_inodes = bmap_collect (ar_iter (inodes g)),
      visible_entries = bmap_collect (map (\<lambda>(d, eids). (d, list_entries g eids)) (dir_contains g)),
      fabricated_data = [], redirects = []\<rparr>"

text \<open>
  The loop over the entries of one directory.  The work list is kept with its end first, where the
  source pushes and pops.
\<close>

fun restrict_dir ::
    "type_graph \<Rightarrow> edge_id list \<Rightarrow> (inode_id, inode) bmap \<Rightarrow> (string \<times> inode_id) list \<Rightarrow> dir_id list \<Rightarrow>
       (inode_id, inode) bmap \<times> (string \<times> inode_id) list \<times> dir_id list" where
  "restrict_dir g [] vis dir_list queue = (vis, dir_list, queue)"
| "restrict_dir g (eid # eids) vis dir_list queue =
     (case get_edge g eid of
        Some (Contains _ _ tgt name) \<Rightarrow>
          (case get_inode g tgt of
             Some inode \<Rightarrow>
               restrict_dir g eids (bmap_insert tgt inode vis) (dir_list @ [(name, tgt)])
                 (if vtype inode = Directory \<and> name \<noteq> ''.'' \<and> name \<noteq> ''..''
                  then (case dir_for_inode g tgt of Some child \<Rightarrow> child # queue | None \<Rightarrow> queue)
                  else queue)
           | None \<Rightarrow> restrict_dir g eids vis dir_list queue)
      | _ \<Rightarrow> restrict_dir g eids vis dir_list queue)"

abbreviation indexed_dirs :: "type_graph \<Rightarrow> dir_id set" where
  "indexed_dirs g \<equiv> snd ` set (dir_for_inode_idx g)"

lemma restrict_dir_queue:
  "set (snd (snd (restrict_dir g es vis dl q))) \<subseteq> set q \<union> indexed_dirs g"
proof (induction es arbitrary: vis dl q)
  case (Cons e es)
  show ?case
  proof (cases "\<exists>i s t n x. get_edge g e = Some (Contains i s t n) \<and> get_inode g t = Some x")
    case True
    then obtain i s t n x where e: "get_edge g e = Some (Contains i s t n)" "get_inode g t = Some x" by blast
    let ?q = "if vtype x = Directory \<and> n \<noteq> ''.'' \<and> n \<noteq> ''..''
      then (case dir_for_inode g t of Some child \<Rightarrow> child # q | None \<Rightarrow> q) else q"
    have "set ?q \<subseteq> set q \<union> indexed_dirs g"
    proof (cases "dir_for_inode g t")
      case (Some c)
      then have "(t, c) \<in> set (dir_for_inode_idx g)" by (simp add: dir_for_inode_def map_of_SomeD)
      then have "c \<in> indexed_dirs g" by (metis image_eqI snd_conv)
      then show ?thesis using Some by auto
    qed auto
    moreover have "restrict_dir g (e # es) vis dl q = restrict_dir g es (bmap_insert t x vis) (dl @ [(n, t)]) ?q"
      by (simp add: e)
    ultimately show ?thesis using Cons.IH [of "bmap_insert t x vis" "dl @ [(n, t)]" ?q] by auto
  next
    case False
    then have "restrict_dir g (e # es) vis dl q = restrict_dir g es vis dl q"
      by (auto split: option.split edge.split)
    then show ?thesis using Cons.IH by simp
  qed
qed simp

text \<open>The directory's own inode, then its entries.\<close>

definition restrict_own :: "type_graph \<Rightarrow> dir_id \<Rightarrow> (inode_id, inode) bmap \<Rightarrow> (inode_id, inode) bmap" where
  "restrict_own g d vis =
     (case get_dir g d of
        Some dir \<Rightarrow>
          (case get_inode g (dir_inode_id dir) of
             Some inode \<Rightarrow> bmap_insert (dir_inode_id dir) inode vis
           | None \<Rightarrow> vis)
      | None \<Rightarrow> vis)"

function restrict_loop ::
    "type_graph \<Rightarrow> dir_id list \<Rightarrow> dir_id bset \<Rightarrow> (inode_id, inode) bmap \<Rightarrow>
       (dir_id, (string \<times> inode_id) list) bmap \<Rightarrow>
       (inode_id, inode) bmap \<times> (dir_id, (string \<times> inode_id) list) bmap" where
  "restrict_loop g [] visited vis entries = (vis, entries)"
| "restrict_loop g (d # queue) visited vis entries =
     (if d \<in> set visited then restrict_loop g queue visited vis entries
      else (case bmap_get (dir_contains g) d of
              None \<Rightarrow> restrict_loop g queue (bset_insert d visited) (restrict_own g d vis) entries
            | Some eids \<Rightarrow>
                (case restrict_dir g eids (restrict_own g d vis) [] queue of
                   (vis', dir_list, queue') \<Rightarrow>
                     restrict_loop g queue' (bset_insert d visited) vis' (bmap_insert d dir_list entries))))"
  by pat_completeness auto

text \<open>Every round either shortens the work list or visits one of finitely many directories.\<close>

termination
proof (relation "measures [\<lambda>(g, q, V, _). card (indexed_dirs g \<union> set q - set V), \<lambda>(g, q, _). length q]", goal_cases)
  case 1
  then show ?case by simp
next
  case (2 g d q V vis ent)
  have "indexed_dirs g \<union> set q - set V = indexed_dirs g \<union> set (d # q) - set V" using 2 by auto
  then show ?case by simp
next
  case (3 g d q V vis ent)
  have "card (indexed_dirs g \<union> set q - set (bset_insert d V)) < card (indexed_dirs g \<union> set (d # q) - set V)"
    by (rule psubset_card_mono) (use 3 in auto)
  then show ?case by simp
next
  case (4 g d q V vis ent es x vis' dl q')
  have "q' = snd (snd (restrict_dir g es (restrict_own g d vis) [] q))" using 4(3-) by (metis snd_conv)
  then have "set q' \<subseteq> set q \<union> indexed_dirs g" by (simp add: restrict_dir_queue)
  then have "card (indexed_dirs g \<union> set q' - set (bset_insert d V)) < card (indexed_dirs g \<union> set (d # q) - set V)"
    by (intro psubset_card_mono) (use 4(1) in auto)
  then show ?case by simp
qed

definition project_restrict :: "type_graph \<Rightarrow> dir_id \<Rightarrow> projected_view" where
  "project_restrict g root =
     (case restrict_loop g [root] [] [] [] of
        (vis, entries) \<Rightarrow>
          \<lparr>visible_inodes = vis, visible_entries = entries, fabricated_data = [], redirects = []\<rparr>)"

definition add_synthetic :: "synthetic_entry \<Rightarrow> projected_view \<Rightarrow> projected_view" where
  "add_synthetic s view =
     (let i = inode_id (syn_inode s);
          view = view\<lparr>visible_inodes := bmap_insert i (syn_inode s) (visible_inodes view)\<rparr>;
          view = view\<lparr>visible_entries := bmap_entry (syn_parent_dir s) []
                       (\<lambda>es. es @ [(syn_name s, i)]) (visible_entries view)\<rparr>
      in if syn_data s = [] then view
         else view\<lparr>fabricated_data := bmap_insert i (syn_data s) (fabricated_data view)\<rparr>)"

definition project_fabricate :: "type_graph \<Rightarrow> synthetic_entry list \<Rightarrow> projected_view" where
  "project_fabricate g synthetic = fold add_synthetic synthetic (project_passthrough g)"

fun redirect_entries ::
    "(string, inode_id) bmap \<Rightarrow> (string \<times> inode_id) list \<Rightarrow> (inode_id, inode_id) bmap \<Rightarrow>
       (string \<times> inode_id) list \<times> (inode_id, inode_id) bmap" where
  "redirect_entries rd [] m = ([], m)"
| "redirect_entries rd ((name, i) # es) m =
     (case bmap_get rd name of
        Some j \<Rightarrow> (case redirect_entries rd es (bmap_insert i j m) of (es', m') \<Rightarrow> ((name, j) # es', m'))
      | None \<Rightarrow> (case redirect_entries rd es m of (es', m') \<Rightarrow> ((name, i) # es', m')))"

fun redirect_dirs ::
    "(string, inode_id) bmap \<Rightarrow> (dir_id, (string \<times> inode_id) list) bmap \<Rightarrow> (inode_id, inode_id) bmap \<Rightarrow>
       (dir_id, (string \<times> inode_id) list) bmap \<times> (inode_id, inode_id) bmap" where
  "redirect_dirs rd [] m = ([], m)"
| "redirect_dirs rd ((d, es) # ds) m =
     (case redirect_entries rd es m of
        (es', m') \<Rightarrow> (case redirect_dirs rd ds m' of (ds', m'') \<Rightarrow> ((d, es') # ds', m'')))"

definition project_redirect :: "type_graph \<Rightarrow> (string, inode_id) bmap \<Rightarrow> projected_view" where
  "project_redirect g rd =
     (let view = project_passthrough g in
      case redirect_dirs rd (visible_entries view) (redirects view) of
        (entries, m) \<Rightarrow> view\<lparr>visible_entries := entries, redirects := m\<rparr>)"

fun project :: "type_graph \<Rightarrow> policy \<Rightarrow> projected_view" where
  "project g Passthrough = project_passthrough g"
| "project g (Restrict root) = project_restrict g root"
| "project g (Fabricate synthetic) = project_fabricate g synthetic"
| "project g (Redirect rd) = project_redirect g rd"

section \<open>Using a view\<close>

definition projected_lookup :: "projected_view \<Rightarrow> dir_id \<Rightarrow> string \<Rightarrow> inode_id option" where
  "projected_lookup view d name =
     (case bmap_get (visible_entries view) d of
        None \<Rightarrow> None
      | Some es \<Rightarrow> map_option snd (find (\<lambda>(n, _). n = name) es))"

text \<open>\<open>&data[start..end]\<close> panics when \<open>start\<close> is beyond \<open>end\<close>; the sum wraps.\<close>

definition slice_clamped :: "u8 list \<Rightarrow> u64 \<Rightarrow> u64 \<Rightarrow> u8 list res" where
  "slice_clamped data offset len =
     (let start = min (unat offset) (length data);
          end = min (unat (word_of_nat start + len)) (length data)
      in if start \<le> end then Ok (take (end - start) (drop start data)) else Panic)"

definition projected_read ::
    "projected_view \<Rightarrow> type_graph \<Rightarrow> inode_id \<Rightarrow> u64 \<Rightarrow> u64 \<Rightarrow> u8 list res option" where
  "projected_read view g i offset len =
     (case bmap_get (fabricated_data view) i of
        Some data \<Rightarrow> Some (slice_clamped data offset len)
      | None \<Rightarrow>
          (let actual_id = (case bmap_get (redirects view) i of Some j \<Rightarrow> j | None \<Rightarrow> i)
           in map_option (\<lambda>data. slice_clamped data offset len) (bmap_get (file_data g) actual_id)))"

definition check_projected_invariants :: "projected_view \<Rightarrow> bool" where
  "check_projected_invariants view \<longleftrightarrow>
     list_all (\<lambda>(_, es). list_all (\<lambda>(_, i). bmap_get (visible_inodes view) i \<noteq> None) es) (visible_entries view) \<and>
     list_all (\<lambda>(_, es). distinct (map fst es)) (visible_entries view)"

section \<open>Honeypot alerts\<close>

record deception_profile =
  profile_name :: string
  profile_description :: string
  policies :: "policy list"
  honeypots :: "synthetic_entry list"
  tripwire_dirs :: "string list"
  tripwire_files :: "string list"

datatype alert_severity = SevLow | SevMedium | SevHigh | SevCritical

record honeypot_alert =
  alert_timestamp :: u64
  alert_profile :: string
  alert_name :: string
  alert_inode :: inode_id
  alert_cap :: "cap_id option"
  alert_domain :: u64
  alert_operation :: string
  alert_severity :: alert_severity

text \<open>\<open>str::contains\<close>\<close>

fun str_contains :: "string \<Rightarrow> string \<Rightarrow> bool" where
  "str_contains [] w = (w = [])"
| "str_contains (c # s) w = (take (length w) (c # s) = w \<or> str_contains s w)"

definition severity_of :: "string \<Rightarrow> alert_severity" where
  "severity_of op =
     (if op \<in> {''write'', ''unlink'', ''rename''} then SevCritical
      else if op \<in> {''read'', ''readlink''} then SevHigh
      else if op \<in> {''stat'', ''open''} then SevMedium
      else SevLow)"

definition check_honeypot_access ::
    "deception_profile \<Rightarrow> string \<Rightarrow> inode_id \<Rightarrow> string \<Rightarrow> cap_id option \<Rightarrow> u64 \<Rightarrow> u64 \<Rightarrow> honeypot_alert option" where
  "check_honeypot_access profile name i op cap domid ts =
     (let is_tripwire_file = list_ex (str_contains name) (tripwire_files profile);
          is_tripwire_dir = list_ex (str_contains name) (tripwire_dirs profile);
          is_honeypot = list_ex (\<lambda>h. inode_id (syn_inode h) = i) (honeypots profile)
      in if \<not> is_tripwire_file \<and> \<not> is_tripwire_dir \<and> \<not> is_honeypot then None
         else Some \<lparr>alert_timestamp = ts, alert_profile = profile_name profile, alert_name = name,
           alert_inode = i, alert_cap = cap, alert_domain = domid, alert_operation = op,
           alert_severity = severity_of op\<rparr>)"

section \<open>Entries of a directory\<close>

lemma list_entries_Cons_edge:
  "get_edge g e = Some (Contains i d t n) \<Longrightarrow> list_entries g (e # es) = (n, t) # list_entries g es"
  by simp

lemma list_dir_get: "list_dir g d = list_entries g (mi_get (dir_contains g) d)"
  by (simp add: list_dir_def mi_get_def split: option.split)

lemma list_entries_set:
  assumes ok: "edges_ok g" and es: "\<And>e. e \<in> set es \<Longrightarrow> \<exists>t n. edge_at g e = Some (Contains e d t n)"
  shows "set (list_entries g es) = {(n, t). \<exists>e \<in> set es. edge_at g e = Some (Contains e d t n)}"
  using es
proof (induction es)
  case (Cons e es)
  obtain t n where e: "edge_at g e = Some (Contains e d t n)" using Cons.prems [of e] by auto
  have "list_entries g (e # es) = (n, t) # list_entries g es"
    by (rule list_entries_Cons_edge [OF get_edge_at [OF ok e]])
  then show ?case using Cons e by auto
qed simp

lemma list_entries_distinct:
  assumes ok: "edges_ok g" and "distinct es"
    and es: "\<And>e. e \<in> set es \<Longrightarrow> \<exists>t n. edge_at g e = Some (Contains e d t n)"
  shows "distinct (map fst (list_entries g es))"
  using assms(2) es
proof (induction es)
  case (Cons e es)
  obtain t n where e: "edge_at g e = Some (Contains e d t n)" using Cons.prems(2) [of e] by auto
  have "n \<notin> fst ` set (list_entries g es)"
  proof
    assume "n \<in> fst ` set (list_entries g es)"
    then obtain f u where f: "f \<in> set es" "edge_at g f = Some (Contains f d u n)"
      using list_entries_set [OF ok, of es d] Cons.prems(2) by auto
    then have "f = e" using edge_key_unique [OF ok] e by blast
    then show False using f(1) Cons.prems(1) by simp
  qed
  then show ?case
    using Cons.IH Cons.prems list_entries_Cons_edge [OF get_edge_at [OF ok e], of es] by simp
qed simp

lemma list_dir_names:
  assumes ok: "edges_ok g"
  shows "set (list_dir g d) = {(n, t). names_of g (d, n) = Some t}" (is ?A)
    and "distinct (map fst (list_dir g d))" (is ?B)
    and "map_of (list_dir g d) n = names_of g (d, n)" (is ?C)
proof -
  let ?es = "mi_get (dir_contains g) d"
  have es: "\<And>e. e \<in> set ?es \<longleftrightarrow> (\<exists>t n. edge_at g e = Some (Contains e d t n))"
    using dir_edges_iff [OF ok] by blast
  show a: ?A
    using list_entries_set [OF ok, of ?es d] es names_of_iff [OF ok, of d] by (auto simp: list_dir_get)
  have "distinct ?es" using edges_okD(3) [OF ok] by (rule mi_ok_distinct)
  then show b: ?B
    using list_entries_distinct [OF ok, of ?es d] es by (simp add: list_dir_get)
  show ?C
  proof (cases "names_of g (d, n)")
    case None
    then have "n \<notin> fst ` set (list_dir g d)" by (auto simp: a)
    then show ?thesis using None by (simp add: map_of_eq_None_iff)
  next
    case (Some t)
    then have "(n, t) \<in> set (list_dir g d)" by (simp add: a)
    then show ?thesis using Some b by simp
  qed
qed

lemma find_name: "map_option snd (find (\<lambda>(n, _). n = name) es) = map_of es name"
  by (induction es) auto

lemma projected_lookup_map:
  "projected_lookup view d n = Option.bind (bmap_get (visible_entries view) d) (\<lambda>es. map_of es n)"
  by (simp add: projected_lookup_def find_name split: option.split)

section \<open>Restricting to a subtree\<close>

text \<open>In a well-formed graph the loop over a directory skips nothing.\<close>

lemma restrict_dir_spec:
  assumes wf: "well_formed g" and es: "\<And>e. e \<in> set es \<Longrightarrow> \<exists>t n. edge_at g e = Some (Contains e d t n)"
    and r: "restrict_dir g es vis dl q = (vis', dl', q')"
  shows "bmap_get vis' = (\<lambda>i. if i \<in> snd ` set (list_entries g es) then inode_at g i else bmap_get vis i)
         \<and> dl' = dl @ list_entries g es \<and> set q' = set q \<union> children_via g es"
  using es r
proof (induction es arbitrary: vis dl q)
  case (Cons e es)
  obtain t n where e: "edge_at g e = Some (Contains e d t n)" using Cons.prems(1) [of e] by auto
  then have "names_of g (d, n) = Some t" using names_of_iff [OF well_formedD(3) [OF wf]] by blast
  then obtain x where x: "inode_at g t = Some x" using names_in_view [OF wf] by blast
  note gs = get_edge_at [OF well_formedD(3) [OF wf] e] get_inode_at [OF well_formedD(5) [OF wf] x]
  define qq where "qq = (if vtype x = Directory \<and> n \<noteq> ''.'' \<and> n \<noteq> ''..''
      then (case dir_for_inode g t of Some child \<Rightarrow> child # q | None \<Rightarrow> q) else q)"
  have step: "restrict_dir g es (bmap_insert t x vis) (dl @ [(n, t)]) qq = (vis', dl', q')"
    using Cons.prems(2) by (simp add: gs qq_def)
  have q: "set qq = set q \<union> children_via g [e]"
    by (auto simp: qq_def child_dir_of_def gs split: option.split)
  have le: "list_entries g (e # es) = (n, t) # list_entries g es"
    by (rule list_entries_Cons_edge [OF gs(1)])
  have IH: "bmap_get vis' = (\<lambda>i. if i \<in> snd ` set (list_entries g es) then inode_at g i
      else bmap_get (bmap_insert t x vis) i)
    \<and> dl' = (dl @ [(n, t)]) @ list_entries g es \<and> set q' = set qq \<union> children_via g es"
    using Cons.IH [OF _ step] Cons.prems(1) by simp
  have "bmap_get vis' i = (if i \<in> snd ` set (list_entries g (e # es)) then inode_at g i else bmap_get vis i)" for i
    unfolding le using IH x by simp
  moreover have "dl' = dl @ list_entries g (e # es)" unfolding le using IH by simp
  moreover have "set q' = set q \<union> children_via g (e # es)" using IH q by auto
  ultimately show ?case by (auto simp: fun_eq_iff)
qed simp

text \<open>What the loop knows: it has shown the visited directories completely, and nothing else.\<close>

definition restrict_inv ::
    "type_graph \<Rightarrow> dir_id set \<Rightarrow> dir_id list \<Rightarrow> dir_id bset \<Rightarrow> (inode_id, inode) bmap \<Rightarrow>
       (dir_id, (string \<times> inode_id) list) bmap \<Rightarrow> bool" where
  "restrict_inv g R q V vis ent \<longleftrightarrow>
     set V \<union> set q \<subseteq> R \<and> (\<forall>d \<in> set V. fs_child (fs_of g) `` {d} \<subseteq> set V \<union> set q) \<and>
     bmap_get ent = (\<lambda>d. if d \<in> set V then Some (list_dir g d) else None) \<and>
     bmap_get vis = (\<lambda>i. if \<exists>d \<in> set V. \<exists>n. names_of g (d, n) = Some i then inode_at g i else None)"

lemma restrict_own_entry:
  assumes wf: "well_formed g" and d: "dir_at g d \<noteq> None"
  shows "\<exists>i x. names_of g (d, ''.'') = Some i \<and> inode_at g i = Some x \<and> restrict_own g d vis = bmap_insert i x vis"
proof -
  obtain y where y: "dir_at g d = Some y" using d by blast
  then have "fs_dir (fs_of g) d = Some (dir_inode_id y)" by simp
  then have nm: "names_of g (d, ''.'') = Some (dir_inode_id y)"
    using fs_ok_dir(2) [OF well_formedD(2) [OF wf]] by fastforce
  then obtain x where x: "inode_at g (dir_inode_id y) = Some x" using names_in_view [OF wf] by blast
  have "restrict_own g d vis = bmap_insert (dir_inode_id y) x vis"
    using get_dir_at [OF well_formedD(4) [OF wf] y] get_inode_at [OF well_formedD(5) [OF wf] x]
    by (simp add: restrict_own_def)
  then show ?thesis using nm x by blast
qed

lemma dir_contains_some:
  assumes wf: "well_formed g" and d: "dir_at g d \<noteq> None"
  shows "bmap_get (dir_contains g) d = Some (mi_get (dir_contains g) d)"
proof -
  obtain i where "names_of g (d, ''.'') = Some i" using restrict_own_entry [OF wf d] by blast
  then obtain e where "edge_at g e = Some (Contains e d i ''.'')"
    using names_of_iff [OF well_formedD(3) [OF wf]] by blast
  then have "mi_get (dir_contains g) d \<noteq> []"
    using dir_edges_iff [OF well_formedD(3) [OF wf], of e d] by (metis empty_iff empty_set)
  then show ?thesis by (simp add: mi_get_def split: option.splits)
qed

lemma restrict_inv_step:
  assumes wf: "well_formed g" and R: "R \<subseteq> {d. dir_at g d \<noteq> None}"
    and closed: "\<And>d. d \<in> R \<Longrightarrow> fs_child (fs_of g) `` {d} \<subseteq> R"
    and inv: "restrict_inv g R (d # q) V vis ent" and new: "d \<notin> set V"
    and r: "restrict_dir g (mi_get (dir_contains g) d) (restrict_own g d vis) [] q = (vis', dl, q')"
  shows "restrict_inv g R q' (bset_insert d V) vis' (bmap_insert d dl ent)"
proof -
  have dR: "d \<in> R" and d: "dir_at g d \<noteq> None" using inv R by (auto simp: restrict_inv_def)
  obtain i x where own: "names_of g (d, ''.'') = Some i" "inode_at g i = Some x"
      "restrict_own g d vis = bmap_insert i x vis"
    using restrict_own_entry [OF wf d] by blast
  have spec: "bmap_get vis' = (\<lambda>i. if i \<in> snd ` set (list_dir g d) then inode_at g i
        else bmap_get (restrict_own g d vis) i)"
      "dl = list_dir g d" "set q' = set q \<union> fs_child (fs_of g) `` {d}"
    using restrict_dir_spec [OF wf _ r, of d] dir_edges_iff [OF well_formedD(3) [OF wf]]
    by (auto simp: list_dir_get children_via_rel child_rel_view [OF wf])
  have tg: "j \<in> snd ` set (list_dir g d) \<longleftrightarrow> (\<exists>n. names_of g (d, n) = Some j)" for j
    by (force simp: list_dir_names(1) [OF well_formedD(3) [OF wf]])
  have "bmap_get vis' = (\<lambda>j. if \<exists>c \<in> set (bset_insert d V). \<exists>n. names_of g (c, n) = Some j
        then inode_at g j else None)"
    using own inv unfolding spec(1) tg by (auto simp: restrict_inv_def fun_eq_iff)
  moreover have "set (bset_insert d V) \<union> set q' \<subseteq> R" "\<forall>c \<in> set (bset_insert d V).
      fs_child (fs_of g) `` {c} \<subseteq> set (bset_insert d V) \<union> set q'"
    using inv closed [OF dR] dR by (auto simp: restrict_inv_def spec(3))
  ultimately show ?thesis
    using inv by (auto simp: restrict_inv_def spec(2) fun_eq_iff)
qed

lemma restrict_loop_inv:
  assumes wf: "well_formed g" and R: "R \<subseteq> {d. dir_at g d \<noteq> None}"
    and closed: "\<And>d. d \<in> R \<Longrightarrow> fs_child (fs_of g) `` {d} \<subseteq> R"
  shows "restrict_inv g R q V vis ent \<Longrightarrow>
    \<exists>W vis' ent'. restrict_loop g q V vis ent = (vis', ent') \<and>
      restrict_inv g R [] W vis' ent' \<and> set V \<union> set q \<subseteq> set W"
  using wf R closed
proof (induction g q V vis ent rule: restrict_loop.induct)
  case (1 g V vis ent)
  then show ?case by auto
next
  case (2 g d q V vis ent)
  show ?case
  proof (cases "d \<in> set V")
    case True
    then have "restrict_inv g R q V vis ent" using 2(4) by (auto simp: restrict_inv_def)
    then show ?thesis using 2(1) [OF True _ 2(5-7)] True by auto
  next
    case False
    obtain vis' dl q' where r:
        "restrict_dir g (mi_get (dir_contains g) d) (restrict_own g d vis) [] q = (vis', dl, q')"
      by (metis prod_cases3)
    have "dir_at g d \<noteq> None" using 2(4,6) by (auto simp: restrict_inv_def)
    note dc = dir_contains_some [OF 2(5) this]
    have "restrict_inv g R q' (bset_insert d V) vis' (bmap_insert d dl ent)"
      by (rule restrict_inv_step [OF 2(5-7) 2(4) False r])
    then obtain W vis2 ent2 where
        "restrict_loop g q' (bset_insert d V) vis' (bmap_insert d dl ent) = (vis2, ent2)"
        "restrict_inv g R [] W vis2 ent2" "set (bset_insert d V) \<union> set q' \<subseteq> set W"
      using 2(3) [OF False dc r [symmetric] refl _ 2(5-7)] by blast
    moreover have "set q \<subseteq> set q'"
      using restrict_dir_spec [OF 2(5) _ r, of d] dir_edges_iff [OF well_formedD(3) [OF 2(5)]] by auto
    ultimately show ?thesis using False dc r by auto
  qed
qed

text \<open>The directories below a directory, itself included.\<close>

definition subtree :: "fs \<Rightarrow> dir_id \<Rightarrow> dir_id set" where
  "subtree f r = {d. (r, d) \<in> (fs_child f)\<^sup>*}"

lemma project_restrict_view:
  assumes wf: "well_formed g" and root: "fs_dir (fs_of g) r \<noteq> None"
  shows "bmap_get (visible_entries (project_restrict g r)) =
      (\<lambda>d. if d \<in> subtree (fs_of g) r then Some (list_dir g d) else None)"
    and "bmap_get (visible_inodes (project_restrict g r)) =
      (\<lambda>i. if \<exists>d \<in> subtree (fs_of g) r. \<exists>n. names_of g (d, n) = Some i then inode_at g i else None)"
proof -
  let ?R = "subtree (fs_of g) r"
  have dirs: "dir_at g d \<noteq> None" if "(r, d) \<in> (fs_child (fs_of g))\<^sup>*" for d
    using that root by (cases rule: rtranclE) (auto simp: fs_child_def dir_entry_def)
  have closed: "fs_child (fs_of g) `` {d} \<subseteq> ?R" if "d \<in> ?R" for d
    using that by (auto simp: subtree_def intro: rtrancl_into_rtrancl)
  have R: "?R \<subseteq> {d. dir_at g d \<noteq> None}" using dirs by (auto simp: subtree_def)
  have init: "restrict_inv g ?R [r] [] [] []"
    by (auto simp: restrict_inv_def subtree_def)
  obtain W vis ent where W: "restrict_loop g [r] [] [] [] = (vis, ent)"
      "restrict_inv g ?R [] W vis ent" "set [] \<union> set [r] \<subseteq> set W"
    using restrict_loop_inv [OF wf R closed init] by blast
  have "d \<in> set W" if "(r, d) \<in> (fs_child (fs_of g))\<^sup>*" for d
    using that
  proof (induction rule: rtrancl_induct)
    case (step c d)
    then show ?case using W(2) by (auto simp: restrict_inv_def)
  qed (use W(3) in simp)
  then have "set W = ?R" using W(2) by (auto simp: restrict_inv_def subtree_def)
  then show "bmap_get (visible_entries (project_restrict g r)) =
      (\<lambda>d. if d \<in> subtree (fs_of g) r then Some (list_dir g d) else None)"
    and "bmap_get (visible_inodes (project_restrict g r)) =
      (\<lambda>i. if \<exists>d \<in> subtree (fs_of g) r. \<exists>n. names_of g (d, n) = Some i then inode_at g i else None)"
    using W by (simp_all add: project_restrict_def restrict_inv_def)
qed

section \<open>Adding synthetic entries\<close>

text \<open>The entries a view shows for a directory, none for a directory it does not show.\<close>

definition shown :: "projected_view \<Rightarrow> dir_id \<Rightarrow> (string \<times> inode_id) list" where
  "shown view d = (case bmap_get (visible_entries view) d of None \<Rightarrow> [] | Some es \<Rightarrow> es)"

lemma projected_lookup_shown: "projected_lookup view d n = map_of (shown view d) n"
  by (simp add: projected_lookup_map shown_def split: option.split)

lemma checked_iff:
  assumes "bmap_ok (visible_entries view)"
  shows "check_projected_invariants view \<longleftrightarrow>
    (\<forall>d. (\<forall>i \<in> snd ` set (shown view d). bmap_get (visible_inodes view) i \<noteq> None) \<and>
         distinct (map fst (shown view d)))"
proof -
  have all: "list_all (\<lambda>(_, es). Q es) (visible_entries view) \<longleftrightarrow> (\<forall>d. Q (shown view d))"
    if "Q []" for Q
    using bmap_ran [OF assms, of "\<lambda>_. Q"] that
    by (auto simp: shown_def list_all_iff split: option.splits)
  have "list_all (\<lambda>(_, es). list_all (\<lambda>(_, i). bmap_get (visible_inodes view) i \<noteq> None) es)
      (visible_entries view) \<longleftrightarrow>
    (\<forall>d. list_all (\<lambda>(_, i). bmap_get (visible_inodes view) i \<noteq> None) (shown view d))"
    by (rule all) simp
  moreover have "list_all (\<lambda>(_, es). distinct (map fst es)) (visible_entries view) \<longleftrightarrow>
    (\<forall>d. distinct (map fst (shown view d)))"
    by (rule all) simp
  ultimately show ?thesis
    by (fastforce simp: check_projected_invariants_def list_all_iff)
qed

lemma add_synthetic_shown:
  "shown (add_synthetic s view) d =
     shown view d @ (if syn_parent_dir s = d then [(syn_name s, inode_id (syn_inode s))] else [])"
  by (auto simp: shown_def add_synthetic_def Let_def bmap_get_entry split: option.split)

lemma add_synthetic_inodes:
  "bmap_get (visible_inodes (add_synthetic s view)) =
     (bmap_get (visible_inodes view))(inode_id (syn_inode s) \<mapsto> syn_inode s)"
  by (simp add: add_synthetic_def Let_def fun_eq_iff)

lemma add_synthetic_ok:
  "bmap_ok (visible_entries view) \<Longrightarrow> bmap_ok (visible_entries (add_synthetic s view))"
  by (simp add: add_synthetic_def Let_def)

definition syn_entry :: "synthetic_entry \<Rightarrow> string \<times> inode_id" where
  "syn_entry s = (syn_name s, inode_id (syn_inode s))"

definition syn_key :: "synthetic_entry \<Rightarrow> dir_id \<times> string" where
  "syn_key s = (syn_parent_dir s, syn_name s)"

lemma fold_synthetic:
  "shown (fold add_synthetic syn view) d =
     shown view d @ map syn_entry (filter (\<lambda>s. syn_parent_dir s = d) syn)"
  "dom (bmap_get (visible_inodes (fold add_synthetic syn view))) =
     dom (bmap_get (visible_inodes view)) \<union> (\<lambda>s. inode_id (syn_inode s)) ` set syn"
  "bmap_ok (visible_entries view) \<Longrightarrow> bmap_ok (visible_entries (fold add_synthetic syn view))"
  by (induction syn arbitrary: view)
    (auto simp: add_synthetic_shown add_synthetic_inodes add_synthetic_ok syn_entry_def)

lemma collect_ordered: "bmap_ok xs \<Longrightarrow> bmap_collect xs = xs"
  unfolding bmap_collect_def by (rule fold_bmap_insert_eq) (simp_all add: bmap_in_set_iff)

lemma map_of_map_pair: "map_of (map (\<lambda>(k, v). (k, f k v)) m) k = map_option (f k) (map_of m k)"
  by (induction m) auto

lemma passthrough_view:
  assumes wf: "well_formed g"
  shows "shown (project_passthrough g) d = list_dir g d"
    and "bmap_get (visible_inodes (project_passthrough g)) = inode_at g"
    and "bmap_ok (visible_entries (project_passthrough g))"
proof -
  let ?m = "map (\<lambda>(d, eids). (d, list_entries g eids)) (dir_contains g)"
  have ok: "bmap_ok (dir_contains g)" using edges_okD(3) [OF well_formedD(3) [OF wf]] by (simp add: mi_ok_def)
  have "map fst ?m = map fst (dir_contains g)" by (simp add: split_def comp_def)
  then have "bmap_collect ?m = ?m" using ok by (intro collect_ordered) (simp only: bmap_ok_def)
  then show "shown (project_passthrough g) d = list_dir g d"
    by (simp add: project_passthrough_def shown_def list_dir_def map_of_map_pair split: option.split)
  have inv: "ar_inv (inodes g)" using well_formedD(5) [OF wf] by (simp add: inodes_ok_def)
  have "bmap_ok (ar_iter (inodes g))" using ar.entries_sorted [OF inv] by (simp add: bmap_ok_def)
  then show "bmap_get (visible_inodes (project_passthrough g)) = inode_at g"
    by (intro map_eq_iff)
      (simp add: project_passthrough_def collect_ordered ar.entries_get [OF inv] flip: bmap_in_set_iff)
  show "bmap_ok (visible_entries (project_passthrough g))"
    by (simp add: project_passthrough_def bmap_collect_def fold_bmap_insert_ok)
qed

lemma fabricate_shown:
  assumes wf: "well_formed g"
  shows "shown (project_fabricate g syn) d =
    list_dir g d @ map syn_entry (filter (\<lambda>s. syn_parent_dir s = d) syn)"
  by (simp add: project_fabricate_def fold_synthetic passthrough_view [OF wf])

text \<open>No two synthetic entries with one name in one directory.\<close>

lemma distinct_syn_names:
  "distinct (map syn_key syn) \<longleftrightarrow> (\<forall>d. distinct (map syn_name (filter (\<lambda>s. syn_parent_dir s = d) syn)))"
proof (induction syn)
  case (Cons s syn)
  have "syn_key s \<in> syn_key ` set syn \<longleftrightarrow>
      syn_name s \<in> syn_name ` set (filter (\<lambda>t. syn_parent_dir t = syn_parent_dir s) syn)"
    by (auto simp: syn_key_def image_iff) metis
  then show ?case using Cons.IH by (auto simp: syn_key_def)
qed simp

lemma map_of_syn_entries:
  "map_of (map syn_entry (filter (\<lambda>s. syn_parent_dir s = d) syn)) n =
     map_of (map (\<lambda>s. (syn_key s, inode_id (syn_inode s))) syn) (d, n)"
  by (induction syn) (auto simp: syn_entry_def syn_key_def)

lemma fabricated_view:
  assumes wf: "well_formed g"
  shows "projected_lookup (project g (Fabricate syn)) d n =
           (case fs_name (fs_of g) (d, n) of
              Some i \<Rightarrow> Some i
            | None \<Rightarrow> map_of (map (\<lambda>s. (syn_key s, inode_id (syn_inode s))) syn) (d, n))
       \<and> (check_projected_invariants (project g (Fabricate syn)) \<longleftrightarrow>
            distinct (map syn_key syn) \<and> (\<forall>s \<in> set syn. fs_name (fs_of g) (syn_key s) = None))
       \<and> project g (Fabricate []) = project g Passthrough"
    (is "?lookup \<and> (?check \<longleftrightarrow> ?free) \<and> _")
proof (intro conjI)
  note names = list_dir_names [OF well_formedD(3) [OF wf]] and shown = fabricate_shown [OF wf]
  let ?new = "\<lambda>d. filter (\<lambda>s. syn_parent_dir s = d) syn"
  show ?lookup
    by (simp add: projected_lookup_shown shown map_add_def names(3) map_of_syn_entries [of d] split: option.split)
  have ok: "bmap_ok (visible_entries (project_fabricate g syn))"
    by (simp add: project_fabricate_def fold_synthetic passthrough_view [OF wf])
  have vis: "dom (bmap_get (visible_inodes (project_fabricate g syn))) =
      dom (inode_at g) \<union> (\<lambda>s. inode_id (syn_inode s)) ` set syn"
    by (simp add: project_fabricate_def fold_synthetic passthrough_view [OF wf])
  have "snd ` set (shown (project_fabricate g syn) d) \<subseteq> dom (bmap_get (visible_inodes (project_fabricate g syn)))" for d
    using names_in_view [OF wf, of d] by (auto simp: shown vis names(1) syn_entry_def)
  then have "?check \<longleftrightarrow> (\<forall>d. distinct (map fst (shown (project_fabricate g syn) d)))"
    by (auto simp: checked_iff [OF ok])
  moreover have dom: "n \<in> fst ` set (list_dir g d) \<longleftrightarrow> names_of g (d, n) \<noteq> None" for d n
    by (force simp: names(1))
  moreover have "(\<forall>d. distinct (map fst (shown (project_fabricate g syn) d))) \<longleftrightarrow> (\<forall>d. distinct (map syn_name (?new d)) \<and>
      (\<forall>s \<in> set (?new d). names_of g (d, syn_name s) = None))"
  proof (rule all_cong1)
    fix d
    have "fst ` set (list_dir g d) \<inter> syn_name ` set (?new d) = {} \<longleftrightarrow>
        (\<forall>s \<in> set (?new d). names_of g (d, syn_name s) = None)"
      using dom [of _ d] by (auto simp: disjoint_iff)
    then show "distinct (map fst (shown (project_fabricate g syn) d)) \<longleftrightarrow>
        distinct (map syn_name (?new d)) \<and> (\<forall>s \<in> set (?new d). names_of g (d, syn_name s) = None)"
      by (simp add: shown names(2) syn_entry_def comp_def)
  qed
  moreover have "\<dots> \<longleftrightarrow> ?free"
    by (auto simp: distinct_syn_names syn_key_def)
  ultimately show "?check \<longleftrightarrow> ?free" by simp
  show "project g (Fabricate []) = project g Passthrough" by (simp add: project_fabricate_def)
qed

section \<open>Properties\<close>

text \<open>
  C25: the view of the \<open>restrict\<close> policy shows exactly the directories at and below the chosen one, each
  with exactly its names and no other name, and the inodes those names lead to.  That includes the
  \<open>..\<close> name of the chosen directory: unless it is the root of the file system, the inode of its parent,
  which is outside the subtree, is in the view.
\<close>

theorem restrict_shows_subtree:
  assumes wf: "well_formed g" and r: "fs_dir (fs_of g) r \<noteq> None"
  shows "(\<forall>d n. projected_lookup (project g (Restrict r)) d n =
            (if (r, d) \<in> (fs_child (fs_of g))\<^sup>* then fs_name (fs_of g) (d, n) else None))
       \<and> (\<forall>i. bmap_get (visible_inodes (project g (Restrict r))) i =
            (if \<exists>d n. (r, d) \<in> (fs_child (fs_of g))\<^sup>* \<and> fs_name (fs_of g) (d, n) = Some i
             then fs_inode (fs_of g) i else None))
       \<and> (r = root_dir g \<or> (\<exists>p i. (p, r) \<in> fs_child (fs_of g) \<and> fs_dir (fs_of g) p = Some i \<and>
             projected_lookup (project g (Restrict r)) p ''.'' = None \<and>
             bmap_get (visible_inodes (project g (Restrict r))) i = fs_inode (fs_of g) i))"
    (is "?names \<and> ?inodes \<and> ?parent")
proof (intro conjI)
  note view = project_restrict_view [OF wf r]
  show names: ?names
    by (simp add: projected_lookup_map view list_dir_names(3) [OF well_formedD(3) [OF wf]] subtree_def del: fs_of_simps)
      (simp add: subtree_def)
  show inodes: ?inodes by (auto simp: view subtree_def)
  show ?parent
  proof (cases "r = root_dir g")
    case False
    obtain k where k: "dir_entry (fs_of g) k r" "fs_name (fs_of g) (r, ''..'') = fs_dir (fs_of g) (fst k)"
      using fs_ok_tree(6) [OF well_formedD(2) [OF wf], of r] False r by auto
    obtain i where i: "fs_dir (fs_of g) (fst k) = Some i"
      using dir_entry_dir [OF well_formedD(2) [OF wf] k(1)] by blast
    have p: "(fst k, r) \<in> fs_child (fs_of g)" using k(1) by (auto simp: fs_child_def intro: exI [of _ "snd k"])
    then have "(r, fst k) \<notin> (fs_child (fs_of g))\<^sup>*"
      using fs_ok_tree(1) [OF well_formedD(2) [OF wf]] by (meson acyclic_def rtrancl_into_trancl1)
    then have "projected_lookup (project g (Restrict r)) (fst k) ''.'' = None" using names by simp
    moreover have "bmap_get (visible_inodes (project g (Restrict r))) i = fs_inode (fs_of g) i"
      using inodes k(2) i by (metis rtrancl.rtrancl_refl)
    ultimately show ?thesis using p i by blast
  qed simp
qed

theorem restrict_shows_subtree_witness:
  "projected_lookup (project both_graph (Restrict 2)) 2 ''.'' = Some 3 \<and>
   projected_lookup (project both_graph (Restrict 2)) 2 ''..'' = Some 1"
  using restrict_shows_subtree [OF both_graph_ok(1), of 2] both_graph_view by (simp del: fs_of_simps project.simps)

text \<open>
  C26: the view of the \<open>fabricate\<close> policy answers a lookup with the real entry where there is one, else
  with the first synthetic entry of that directory and name; it passes the structural check exactly when
  no synthetic entry has the directory and name of a real or of another synthetic one.  Without
  synthetic entries this is the \<open>passthrough\<close> view, which so shows the real graph and passes the check.
\<close>

theorem fabricate_checked:
  assumes wf: "well_formed g"
  shows "projected_lookup (project g (Fabricate syn)) d n =
           (case fs_name (fs_of g) (d, n) of
              Some i \<Rightarrow> Some i
            | None \<Rightarrow> map_of (map (\<lambda>s. (syn_key s, inode_id (syn_inode s))) syn) (d, n))
       \<and> (check_projected_invariants (project g (Fabricate syn)) \<longleftrightarrow>
            distinct (map syn_key syn) \<and> (\<forall>s \<in> set syn. fs_name (fs_of g) (syn_key s) = None))
       \<and> project g (Fabricate []) = project g Passthrough"
  using assms by (rule fabricated_view)

text \<open>A decoy next to a real file, and a decoy that has the real file's name.\<close>

theorem fabricate_checked_witness:
  "check_projected_invariants (project file_graph (Fabricate
      [\<lparr>syn_parent_dir = 1, syn_name = ''b'', syn_inode = new_file 0 100 420 0 0, syn_data = [7]\<rparr>])) \<and>
   \<not> check_projected_invariants (project file_graph (Fabricate
      [\<lparr>syn_parent_dir = 1, syn_name = ''a'', syn_inode = new_file 0 100 420 0 0, syn_data = [7]\<rparr>]))"
  using fabricate_checked [OF file_graph_ok(1)] file_graph_view(1) by (simp add: syn_key_def del: fs_of_simps project.simps)

end
