(* ===== verification/Sotfs_Fuse.thy ===== *)
theory Sotfs_Fuse
  imports Sotfs_Storage
begin

text \<open>
  The mounted file system, \<open>sotfs-fuse/src/fs.rs\<close>: one definition per FUSE callback, from the request
  to the reply and the next state.  Callbacks take \<open>&mut self\<close>, so they run one after the other.  What the
  \<open>fuser\<close> crate does with a reply is not modelled; whether an entry still fits into its directory
  buffer is the parameter \<open>full\<close>.  A \<open>SystemTime\<close> is kept as its seconds since the epoch, and a
  name is \<open>None\<close> when it is not valid UTF-8.
\<close>

section \<open>Replies\<close>

datatype file_type = FtRegularFile | FtDirectory | FtSymlink | FtCharDevice | FtBlockDevice

record file_attr =
  fa_ino :: inode_id
  fa_size :: u64
  fa_blocks :: u64
  fa_atime :: u64
  fa_mtime :: u64
  fa_ctime :: u64
  fa_crtime :: u64
  fa_kind :: file_type
  fa_perm :: u16
  fa_nlink :: u32
  fa_uid :: u32
  fa_gid :: u32
  fa_rdev :: u32
  fa_blksize :: u32
  fa_flags :: u32

datatype errno = ENOENT | EIO | EEXIST | ENOTDIR | EINVAL | EPERM | ENOTEMPTY | ENODATA | ERANGE | ENOTSUP | EACCES

type_synonym dir_entry_reply = "inode_id \<times> nat \<times> file_type \<times> string"

record statfs_reply =
  sf_blocks :: u64
  sf_bfree :: u64
  sf_bavail :: u64
  sf_files :: u64
  sf_ffree :: u64
  sf_bsize :: u32
  sf_namelen :: u32
  sf_frsize :: u32

datatype reply =
    ReplyError errno
  | ReplyOk
  | ReplyEntry file_attr
  | ReplyAttr file_attr
  | ReplyDirectory "dir_entry_reply list"
  | ReplyCreated file_attr nat
  | ReplyOpened nat
  | ReplyData "u8 list"
  | ReplyWritten u32
  | ReplySize u32
  | ReplyStatfs statfs_reply
  | CallbackPanic

record request =
  req_uid :: u32
  req_gid :: u32

type_synonym os_string = "string option"

text \<open>\<open>name.to_str().unwrap_or("")\<close>\<close>

definition os_str :: "os_string \<Rightarrow> string" where
  "os_str n = (case n of Some s \<Rightarrow> s | None \<Rightarrow> '''')"

definition str_bytes :: "string \<Rightarrow> u8 list" where
  "str_bytes s = map (\<lambda>c. word_of_nat (of_char c)) s"

definition BLOCK_SIZE :: u32 where "BLOCK_SIZE = 4096"

definition file_kind :: "vnode_type \<Rightarrow> file_type" where
  "file_kind v =
     (case v of Regular \<Rightarrow> FtRegularFile | Directory \<Rightarrow> FtDirectory | Symlink \<Rightarrow> FtSymlink
      | CharDevice \<Rightarrow> FtCharDevice | BlockDevice \<Rightarrow> FtBlockDevice)"

definition div_ceil :: "u64 \<Rightarrow> u64 \<Rightarrow> u64" where
  "div_ceil a b = (if a mod b = 0 then a div b else a div b + 1)"

definition inode_to_attr :: "inode \<Rightarrow> file_attr" where
  "inode_to_attr n =
     \<lparr>fa_ino = inode_id n, fa_size = isize n, fa_blocks = div_ceil (isize n) 512,
      fa_atime = atime n, fa_mtime = mtime n, fa_ctime = ctime n, fa_crtime = ctime n,
      fa_kind = file_kind (vtype n), fa_perm = permissions n, fa_nlink = link_count n,
      fa_uid = uid n, fa_gid = gid n, fa_rdev = 0, fa_blksize = BLOCK_SIZE, fa_flags = 0\<rparr>"

section \<open>State\<close>

text \<open>
  The graph, the open file handles, and what a persistent mount has besides: the database \<open>'db\<close> and the
  sidecar file \<open>'f\<close> of the provenance log, when one is configured.
\<close>

record ('db, 'f) fuse_fs =
  fs_graph :: type_graph
  open_files :: "(nat, inode_id) bmap"
  next_fh :: nat
  backend :: "'db option"
  sidecar :: "'f option"

definition ctx_from_req :: "request \<Rightarrow> cap_context" where
  "ctx_from_req req = cap_context_new None (ucast (req_uid req))"

text \<open>\<open>SotFsFilesystem::new\<close> and \<open>with_db\<close>; \<open>quiet\<close> is \<open>disable_provenance()\<close>.\<close>

definition fuse_new :: "clock \<Rightarrow> bool \<Rightarrow> 'f option \<Rightarrow> ('db, 'f) fuse_fs" where
  "fuse_new clk quiet side =
     (let g = new_boxed clk in
      \<lparr>fs_graph = (if quiet then g else enable_prov_log g), open_files = [], next_fh = 1,
       backend = None, sidecar = side\<rparr>)"

definition with_db ::
    "('b \<Rightarrow> graph_image option) \<Rightarrow> ('db \<Rightarrow> 'b fetched) \<Rightarrow> clock \<Rightarrow> bool \<Rightarrow> 'f option \<Rightarrow> 'db \<Rightarrow>
       ('db, 'f) fuse_fs option" where
  "with_db from_slice fetch clk quiet side db =
     (case load from_slice fetch db of
        None \<Rightarrow> None
      | Some loaded \<Rightarrow>
          (let g = (case loaded of Some g \<Rightarrow> g | None \<Rightarrow> new_boxed clk) in
           Some \<lparr>fs_graph = (if quiet then g else enable_prov_log g), open_files = [], next_fh = 1,
                 backend = Some db, sidecar = side\<rparr>))"

definition alloc_fh :: "('db, 'f) fuse_fs \<Rightarrow> nat \<times> ('db, 'f) fuse_fs" where
  "alloc_fh s = (next_fh s, s\<lparr>next_fh := succ_u64 (next_fh s)\<rparr>)"

text \<open>A failed save is printed and otherwise ignored; \<open>app\<close> is the write to the sidecar file.\<close>

definition persist ::
    "(graph_image \<Rightarrow> 'b option) \<Rightarrow> ('b \<Rightarrow> 'db \<Rightarrow> 'db option) \<Rightarrow> ('db, 'f) fuse_fs \<Rightarrow> ('db, 'f) fuse_fs" where
  "persist to_vec put s =
     (case backend s of
        None \<Rightarrow> s
      | Some db \<Rightarrow>
          (case save to_vec put (fs_graph s) db of
             None \<Rightarrow> s
           | Some db' \<Rightarrow> s\<lparr>backend := Some db'\<rparr>))"

definition persist_prov_log ::
    "('f \<Rightarrow> provenance_entry list \<Rightarrow> 'f) \<Rightarrow> ('db, 'f) fuse_fs \<Rightarrow> ('db, 'f) fuse_fs" where
  "persist_prov_log app s =
     (case sidecar s of
        None \<Rightarrow> s
      | Some logfile \<Rightarrow>
          (case prov_log (fs_graph s) of
             None \<Rightarrow> s
           | Some log \<Rightarrow>
               (if log = [] then s
                else (case prov_drain log of
                        (es, log') \<Rightarrow>
                          s\<lparr>fs_graph := (fs_graph s)\<lparr>prov_log := Some log'\<rparr>,
                            sidecar := Some (app logfile es)\<rparr>))))"

text \<open>How the callbacks that change the graph begin, and how they report an inode they just stored.\<close>

abbreviation write_graph :: "request \<Rightarrow> ('db, 'f) fuse_fs \<Rightarrow> type_graph" where
  "write_graph req s \<equiv> set_cap_ctx (ctx_from_req req) (fs_graph s)"

definition expect_inode :: "type_graph \<Rightarrow> inode_id \<Rightarrow> (file_attr \<Rightarrow> reply) \<Rightarrow> reply" where
  "expect_inode g i f = (case get_inode g i of Some n \<Rightarrow> f (inode_to_attr n) | None \<Rightarrow> CallbackPanic)"

definition attr_or_enoent :: "type_graph \<Rightarrow> inode_id \<Rightarrow> reply" where
  "attr_or_enoent g i =
     (case get_inode g i of Some n \<Rightarrow> ReplyAttr (inode_to_attr n) | None \<Rightarrow> ReplyError ENOENT)"

definition mode_bits :: "u32 \<Rightarrow> permissions" where
  "mode_bits mode = ucast (and mode 4095)"

section \<open>Callbacks that read\<close>

definition fuse_lookup :: "inode_id \<Rightarrow> os_string \<Rightarrow> ('db, 'f) fuse_fs \<Rightarrow> reply \<times> ('db, 'f) fuse_fs" where
  "fuse_lookup parent name s =
     (let g = fs_graph s in
      case dir_for_inode g parent of
        None \<Rightarrow> (ReplyError ENOTDIR, s)
      | Some d \<Rightarrow>
          (case resolve_name g d (os_str name) of
             Some i \<Rightarrow>
               (case get_inode g i of
                  Some n \<Rightarrow> (ReplyEntry (inode_to_attr n), s)
                | None \<Rightarrow> (ReplyError ENOENT, s))
           | None \<Rightarrow> (ReplyError ENOENT, s)))"

definition fuse_getattr :: "inode_id \<Rightarrow> ('db, 'f) fuse_fs \<Rightarrow> reply \<times> ('db, 'f) fuse_fs" where
  "fuse_getattr ino s = (attr_or_enoent (fs_graph s) ino, s)"

definition entry_kind :: "type_graph \<Rightarrow> inode_id \<Rightarrow> file_type" where
  "entry_kind g i =
     (case get_inode g i of
        Some n \<Rightarrow> (case vtype n of Directory \<Rightarrow> FtDirectory | Symlink \<Rightarrow> FtSymlink | _ \<Rightarrow> FtRegularFile)
      | None \<Rightarrow> FtRegularFile)"

text \<open>\<open>full buf e\<close>: the entry no longer fits after those in the buffer, so \<open>reply.add\<close> returns true.\<close>

fun readdir_loop ::
    "(dir_entry_reply list \<Rightarrow> dir_entry_reply \<Rightarrow> bool) \<Rightarrow> type_graph \<Rightarrow> nat \<Rightarrow> (string \<times> inode_id) list \<Rightarrow>
       dir_entry_reply list \<Rightarrow> dir_entry_reply list" where
  "readdir_loop full g i [] buf = buf"
| "readdir_loop full g i ((name, ino) # es) buf =
     (let e = (ino, i + 1, entry_kind g ino, name)
      in if full buf e then buf else readdir_loop full g (i + 1) es (buf @ [e]))"

definition fuse_readdir ::
    "(dir_entry_reply list \<Rightarrow> dir_entry_reply \<Rightarrow> bool) \<Rightarrow> inode_id \<Rightarrow> u64 \<Rightarrow> ('db, 'f) fuse_fs \<Rightarrow>
       reply \<times> ('db, 'f) fuse_fs" where
  "fuse_readdir full ino offset s =
     (let g = fs_graph s in
      case dir_for_inode g ino of
        None \<Rightarrow> (ReplyError ENOTDIR, s)
      | Some d \<Rightarrow>
          (ReplyDirectory (readdir_loop full g (unat offset) (drop (unat offset) (list_dir g d)) []), s))"

definition fuse_open :: "inode_id \<Rightarrow> ('db, 'f) fuse_fs \<Rightarrow> reply \<times> ('db, 'f) fuse_fs" where
  "fuse_open ino s =
     (if contains_inode (fs_graph s) ino
      then (case alloc_fh s of
              (fh, s) \<Rightarrow> (ReplyOpened fh, s\<lparr>open_files := bmap_insert fh ino (open_files s)\<rparr>))
      else (ReplyError ENOENT, s))"

definition fuse_read :: "inode_id \<Rightarrow> u64 \<Rightarrow> u32 \<Rightarrow> ('db, 'f) fuse_fs \<Rightarrow> reply \<times> ('db, 'f) fuse_fs" where
  "fuse_read ino offset sz s =
     (case read_data (fs_graph s) ino offset (ucast sz) of
        Ok data \<Rightarrow> (ReplyData data, s)
      | Err _ \<Rightarrow> (ReplyError EIO, s)
      | _ \<Rightarrow> (CallbackPanic, s))"

definition fuse_release :: "nat \<Rightarrow> ('db, 'f) fuse_fs \<Rightarrow> reply \<times> ('db, 'f) fuse_fs" where
  "fuse_release fh s = (ReplyOk, s\<lparr>open_files := bmap_remove fh (open_files s)\<rparr>)"

definition fuse_opendir :: "inode_id \<Rightarrow> ('db, 'f) fuse_fs \<Rightarrow> reply \<times> ('db, 'f) fuse_fs" where
  "fuse_opendir ino s =
     (if dir_for_inode (fs_graph s) ino \<noteq> None then (ReplyOpened 0, s) else (ReplyError ENOTDIR, s))"

definition fuse_releasedir :: "('db, 'f) fuse_fs \<Rightarrow> reply \<times> ('db, 'f) fuse_fs" where
  "fuse_releasedir s = (ReplyOk, s)"

definition fuse_readlink :: "inode_id \<Rightarrow> ('db, 'f) fuse_fs \<Rightarrow> reply \<times> ('db, 'f) fuse_fs" where
  "fuse_readlink ino s =
     (case readlink (fs_graph s) ino of
        Ok target \<Rightarrow> (ReplyData (str_bytes target), s)
      | Err (InodeNotFound _) \<Rightarrow> (ReplyError ENOENT, s)
      | Err _ \<Rightarrow> (ReplyError EINVAL, s)
      | _ \<Rightarrow> (CallbackPanic, s))"

definition fuse_statfs :: "('db, 'f) fuse_fs \<Rightarrow> reply \<times> ('db, 'f) fuse_fs" where
  "fuse_statfs s =
     (let g = fs_graph s;
          used = word_of_nat (length (ar_iter (inodes g))) + word_of_nat (length (ar_iter (dirs g)));
          total = push_bit 30 1;
          free = saturating_sub_u64 total used
      in (ReplyStatfs \<lparr>sf_blocks = total, sf_bfree = free, sf_bavail = free, sf_files = used, sf_ffree = free,
            sf_bsize = BLOCK_SIZE, sf_namelen = 255, sf_frsize = BLOCK_SIZE\<rparr>, s))"

definition caller_bits :: "request \<Rightarrow> inode \<Rightarrow> u32" where
  "caller_bits req n =
     (let mode = permissions n in
      if req_uid req = 0 then 7
      else if req_uid req = uid n then ucast (and (drop_bit 6 mode) 7)
      else if req_gid req = gid n then ucast (and (drop_bit 3 mode) 7)
      else ucast (and mode 7))"

definition fuse_access :: "request \<Rightarrow> inode_id \<Rightarrow> u32 \<Rightarrow> ('db, 'f) fuse_fs \<Rightarrow> reply \<times> ('db, 'f) fuse_fs" where
  "fuse_access req ino amask s =
     (case get_inode (fs_graph s) ino of
        None \<Rightarrow> (ReplyError ENOENT, s)
      | Some n \<Rightarrow>
          if amask = 0 then (ReplyOk, s)
          else (let want = and amask 7 in
                if and (caller_bits req n) want = want then (ReplyOk, s) else (ReplyError EACCES, s)))"

definition fuse_flush :: "('db, 'f) fuse_fs \<Rightarrow> reply \<times> ('db, 'f) fuse_fs" where
  "fuse_flush s = (ReplyOk, s)"

section \<open>Callbacks that change the graph\<close>

definition fuse_setattr ::
    "clock \<Rightarrow> request \<Rightarrow> inode_id \<Rightarrow> u32 option \<Rightarrow> u32 option \<Rightarrow> u32 option \<Rightarrow> u64 option \<Rightarrow>
       ('db, 'f) fuse_fs \<Rightarrow> reply \<times> ('db, 'f) fuse_fs" where
  "fuse_setattr clk req ino mode u gi sz s =
     (let g = write_graph req s in
      case (case mode of Some m \<Rightarrow> chmod clk g ino (mode_bits m) | None \<Rightarrow> (Ok (), g)) of
        (Err _, g) \<Rightarrow> (ReplyError ENOENT, s\<lparr>fs_graph := g\<rparr>)
      | (Ok _, g) \<Rightarrow>
          (case (if u \<noteq> None \<or> gi \<noteq> None then chown (\<lambda>k. clk (1 + k)) g ino u gi else (Ok (), g)) of
             (Err _, g) \<Rightarrow> (ReplyError ENOENT, s\<lparr>fs_graph := g\<rparr>)
           | (Ok _, g) \<Rightarrow>
               (case (case sz of Some n \<Rightarrow> Sotfs_Data.truncate (\<lambda>k. clk (2 + k)) g ino n | None \<Rightarrow> (Ok (), g)) of
                  (Err _, g) \<Rightarrow> (ReplyError ENOENT, s\<lparr>fs_graph := g\<rparr>)
                | (Ok _, g) \<Rightarrow> (attr_or_enoent g ino, s\<lparr>fs_graph := g\<rparr>)
                | (_, g) \<Rightarrow> (CallbackPanic, s\<lparr>fs_graph := g\<rparr>))
           | (_, g) \<Rightarrow> (CallbackPanic, s\<lparr>fs_graph := g\<rparr>))
      | (_, g) \<Rightarrow> (CallbackPanic, s\<lparr>fs_graph := g\<rparr>))"

definition fuse_mkdir ::
    "clock \<Rightarrow> request \<Rightarrow> inode_id \<Rightarrow> os_string \<Rightarrow> u32 \<Rightarrow> ('db, 'f) fuse_fs \<Rightarrow> reply \<times> ('db, 'f) fuse_fs" where
  "fuse_mkdir clk req parent name mode s =
     (let g = write_graph req s in
      case dir_for_inode g parent of
        None \<Rightarrow> (ReplyError ENOTDIR, s\<lparr>fs_graph := g\<rparr>)
      | Some d \<Rightarrow>
          (case mkdir clk g d (os_str name) (req_uid req) (req_gid req) (mode_bits mode) of
             (Ok r, g) \<Rightarrow> (expect_inode g (cr_inode_id r) ReplyEntry, s\<lparr>fs_graph := g\<rparr>)
           | (Err _, g) \<Rightarrow> (ReplyError EEXIST, s\<lparr>fs_graph := g\<rparr>)
           | (_, g) \<Rightarrow> (CallbackPanic, s\<lparr>fs_graph := g\<rparr>)))"

definition fuse_rmdir ::
    "clock \<Rightarrow> request \<Rightarrow> inode_id \<Rightarrow> os_string \<Rightarrow> ('db, 'f) fuse_fs \<Rightarrow> reply \<times> ('db, 'f) fuse_fs" where
  "fuse_rmdir clk req parent name s =
     (let g = write_graph req s in
      case dir_for_inode g parent of
        None \<Rightarrow> (ReplyError ENOTDIR, s\<lparr>fs_graph := g\<rparr>)
      | Some d \<Rightarrow>
          (case rmdir clk g d (os_str name) of
             (Ok _, g) \<Rightarrow> (ReplyOk, s\<lparr>fs_graph := g\<rparr>)
           | (Err (DirNotEmpty _), g) \<Rightarrow> (ReplyError ENOTEMPTY, s\<lparr>fs_graph := g\<rparr>)
           | (Err (NameNotFound _), g) \<Rightarrow> (ReplyError ENOENT, s\<lparr>fs_graph := g\<rparr>)
           | (Err _, g) \<Rightarrow> (ReplyError EIO, s\<lparr>fs_graph := g\<rparr>)
           | (_, g) \<Rightarrow> (CallbackPanic, s\<lparr>fs_graph := g\<rparr>)))"

definition fuse_create ::
    "clock \<Rightarrow> request \<Rightarrow> inode_id \<Rightarrow> os_string \<Rightarrow> u32 \<Rightarrow> ('db, 'f) fuse_fs \<Rightarrow> reply \<times> ('db, 'f) fuse_fs" where
  "fuse_create clk req parent name mode s =
     (let g = write_graph req s in
      case dir_for_inode g parent of
        None \<Rightarrow> (ReplyError ENOTDIR, s\<lparr>fs_graph := g\<rparr>)
      | Some d \<Rightarrow>
          (case create_file clk g d (os_str name) (req_uid req) (req_gid req) (mode_bits mode) of
             (Ok i, g) \<Rightarrow>
               (case alloc_fh (s\<lparr>fs_graph := g\<rparr>) of
                  (fh, s) \<Rightarrow>
                    (expect_inode g i (\<lambda>a. ReplyCreated a fh),
                     s\<lparr>open_files := bmap_insert fh i (open_files s)\<rparr>))
           | (Err _, g) \<Rightarrow> (ReplyError EEXIST, s\<lparr>fs_graph := g\<rparr>)
           | (_, g) \<Rightarrow> (CallbackPanic, s\<lparr>fs_graph := g\<rparr>)))"

definition fuse_unlink ::
    "clock \<Rightarrow> request \<Rightarrow> inode_id \<Rightarrow> os_string \<Rightarrow> ('db, 'f) fuse_fs \<Rightarrow> reply \<times> ('db, 'f) fuse_fs" where
  "fuse_unlink clk req parent name s =
     (let g = write_graph req s in
      case dir_for_inode g parent of
        None \<Rightarrow> (ReplyError ENOTDIR, s\<lparr>fs_graph := g\<rparr>)
      | Some d \<Rightarrow>
          (case unlink clk g d (os_str name) of
             (Ok _, g) \<Rightarrow> (ReplyOk, s\<lparr>fs_graph := g\<rparr>)
           | (Err (NameNotFound _), g) \<Rightarrow> (ReplyError ENOENT, s\<lparr>fs_graph := g\<rparr>)
           | (Err _, g) \<Rightarrow> (ReplyError EIO, s\<lparr>fs_graph := g\<rparr>)
           | (_, g) \<Rightarrow> (CallbackPanic, s\<lparr>fs_graph := g\<rparr>)))"

definition fuse_rename ::
    "clock \<Rightarrow> request \<Rightarrow> inode_id \<Rightarrow> os_string \<Rightarrow> inode_id \<Rightarrow> os_string \<Rightarrow> ('db, 'f) fuse_fs \<Rightarrow>
       reply \<times> ('db, 'f) fuse_fs" where
  "fuse_rename clk req parent name newparent newname s =
     (let g = write_graph req s in
      case dir_for_inode g parent of
        None \<Rightarrow> (ReplyError ENOTDIR, s\<lparr>fs_graph := g\<rparr>)
      | Some src_dir \<Rightarrow>
          (case dir_for_inode g newparent of
             None \<Rightarrow> (ReplyError ENOTDIR, s\<lparr>fs_graph := g\<rparr>)
           | Some dst_dir \<Rightarrow>
               (case rename clk g src_dir (os_str name) dst_dir (os_str newname) of
                  (Ok _, g) \<Rightarrow> (ReplyOk, s\<lparr>fs_graph := g\<rparr>)
                | (Err WouldCreateCycle, g) \<Rightarrow> (ReplyError EINVAL, s\<lparr>fs_graph := g\<rparr>)
                | (Err (NameNotFound _), g) \<Rightarrow> (ReplyError ENOENT, s\<lparr>fs_graph := g\<rparr>)
                | (Err _, g) \<Rightarrow> (ReplyError EIO, s\<lparr>fs_graph := g\<rparr>)
                | (_, g) \<Rightarrow> (CallbackPanic, s\<lparr>fs_graph := g\<rparr>))))"

definition fuse_link ::
    "clock \<Rightarrow> request \<Rightarrow> inode_id \<Rightarrow> inode_id \<Rightarrow> os_string \<Rightarrow> ('db, 'f) fuse_fs \<Rightarrow> reply \<times> ('db, 'f) fuse_fs"
  where
  "fuse_link clk req ino newparent newname s =
     (let g = write_graph req s in
      case dir_for_inode g newparent of
        None \<Rightarrow> (ReplyError ENOTDIR, s\<lparr>fs_graph := g\<rparr>)
      | Some d \<Rightarrow>
          (case link clk g d (os_str newname) ino of
             (Ok _, g) \<Rightarrow> (expect_inode g ino ReplyEntry, s\<lparr>fs_graph := g\<rparr>)
           | (Err (LinkToDirectory _), g) \<Rightarrow> (ReplyError EPERM, s\<lparr>fs_graph := g\<rparr>)
           | (Err (NameExists _ _), g) \<Rightarrow> (ReplyError EEXIST, s\<lparr>fs_graph := g\<rparr>)
           | (Err _, g) \<Rightarrow> (ReplyError EIO, s\<lparr>fs_graph := g\<rparr>)
           | (_, g) \<Rightarrow> (CallbackPanic, s\<lparr>fs_graph := g\<rparr>)))"

definition fuse_write ::
    "clock \<Rightarrow> request \<Rightarrow> inode_id \<Rightarrow> u64 \<Rightarrow> u8 list \<Rightarrow> ('db, 'f) fuse_fs \<Rightarrow> reply \<times> ('db, 'f) fuse_fs" where
  "fuse_write clk req ino offset data s =
     (case write_data clk (write_graph req s) ino offset data of
        (Ok written, g) \<Rightarrow> (ReplyWritten (word_of_nat written), s\<lparr>fs_graph := g\<rparr>)
      | (Err _, g) \<Rightarrow> (ReplyError EIO, s\<lparr>fs_graph := g\<rparr>)
      | (_, g) \<Rightarrow> (CallbackPanic, s\<lparr>fs_graph := g\<rparr>))"

definition fuse_symlink ::
    "clock \<Rightarrow> request \<Rightarrow> inode_id \<Rightarrow> os_string \<Rightarrow> os_string \<Rightarrow> ('db, 'f) fuse_fs \<Rightarrow> reply \<times> ('db, 'f) fuse_fs"
  where
  "fuse_symlink clk req parent name target s =
     (let g = write_graph req s in
      case dir_for_inode g parent of
        None \<Rightarrow> (ReplyError ENOTDIR, s\<lparr>fs_graph := g\<rparr>)
      | Some d \<Rightarrow>
          (case symlink clk g d (os_str name) (os_str target) (req_uid req) (req_gid req) of
             (Ok i, g) \<Rightarrow> (expect_inode g i ReplyEntry, s\<lparr>fs_graph := g\<rparr>)
           | (Err (NameExists _ _), g) \<Rightarrow> (ReplyError EEXIST, s\<lparr>fs_graph := g\<rparr>)
           | (Err _, g) \<Rightarrow> (ReplyError EIO, s\<lparr>fs_graph := g\<rparr>)
           | (_, g) \<Rightarrow> (CallbackPanic, s\<lparr>fs_graph := g\<rparr>)))"

section \<open>Extended attributes\<close>

text \<open>\<open>str::split_once\<close>\<close>

fun split_once :: "char \<Rightarrow> string \<Rightarrow> (string \<times> string) option" where
  "split_once c [] = None"
| "split_once c (x # xs) =
     (if x = c then Some ([], xs)
      else map_option (\<lambda>(a, b). (x # a, b)) (split_once c xs))"

definition split_xattr :: "string \<Rightarrow> (xattr_namespace \<times> string) option" where
  "split_xattr name =
     (case split_once (CHR ''.'') name of
        None \<Rightarrow> None
      | Some (prefix, rest) \<Rightarrow>
          if prefix = ''user'' then Some (XUser, rest)
          else if prefix = ''system'' then Some (XSystem, rest)
          else if prefix = ''security'' then Some (XSecurity, rest)
          else if prefix = ''trusted'' then Some (XTrusted, rest)
          else None)"

definition xattr_prefix :: "xattr_namespace \<Rightarrow> string" where
  "xattr_prefix ns =
     (case ns of XUser \<Rightarrow> ''user.'' | XSystem \<Rightarrow> ''system.'' | XSecurity \<Rightarrow> ''security.'' | XTrusted \<Rightarrow> ''trusted.'')"

definition sized_reply :: "u8 list \<Rightarrow> u32 \<Rightarrow> reply" where
  "sized_reply buf sz =
     (if sz = 0 then ReplySize (word_of_nat (length buf))
      else if word_of_nat (length buf) > sz then ReplyError ERANGE
      else ReplyData buf)"

definition fuse_setxattr ::
    "clock \<Rightarrow> request \<Rightarrow> inode_id \<Rightarrow> os_string \<Rightarrow> u8 list \<Rightarrow> ('db, 'f) fuse_fs \<Rightarrow> reply \<times> ('db, 'f) fuse_fs" where
  "fuse_setxattr clk req ino name v s =
     (case split_xattr (os_str name) of
        None \<Rightarrow> (ReplyError ENOTSUP, s)
      | Some (ns, attr) \<Rightarrow>
          (case setxattr clk (write_graph req s) ino ns attr v of
             (Ok _, g) \<Rightarrow> (ReplyOk, s\<lparr>fs_graph := g\<rparr>)
           | (Err (InodeNotFound _), g) \<Rightarrow> (ReplyError ENOENT, s\<lparr>fs_graph := g\<rparr>)
           | (Err _, g) \<Rightarrow> (ReplyError EIO, s\<lparr>fs_graph := g\<rparr>)
           | (_, g) \<Rightarrow> (CallbackPanic, s\<lparr>fs_graph := g\<rparr>)))"

definition fuse_getxattr :: "inode_id \<Rightarrow> os_string \<Rightarrow> u32 \<Rightarrow> ('db, 'f) fuse_fs \<Rightarrow> reply \<times> ('db, 'f) fuse_fs" where
  "fuse_getxattr ino name sz s =
     (case split_xattr (os_str name) of
        None \<Rightarrow> (ReplyError ENOTSUP, s)
      | Some (ns, attr) \<Rightarrow>
          (case getxattr (fs_graph s) ino ns attr of
             Ok v \<Rightarrow> (sized_reply v sz, s)
           | Err (XAttrNotFound _) \<Rightarrow> (ReplyError ENODATA, s)
           | Err (InodeNotFound _) \<Rightarrow> (ReplyError ENOENT, s)
           | Err _ \<Rightarrow> (ReplyError EIO, s)
           | _ \<Rightarrow> (CallbackPanic, s)))"

definition xattr_list_bytes :: "(xattr_namespace \<times> string) list \<Rightarrow> u8 list" where
  "xattr_list_bytes names =
     concat (map (\<lambda>(ns, name). str_bytes (xattr_prefix ns) @ str_bytes name @ [0]) names)"

definition fuse_listxattr :: "inode_id \<Rightarrow> u32 \<Rightarrow> ('db, 'f) fuse_fs \<Rightarrow> reply \<times> ('db, 'f) fuse_fs" where
  "fuse_listxattr ino sz s =
     (case listxattr (fs_graph s) ino of
        Ok names \<Rightarrow> (sized_reply (xattr_list_bytes names) sz, s)
      | Err (InodeNotFound _) \<Rightarrow> (ReplyError ENOENT, s)
      | Err _ \<Rightarrow> (ReplyError EIO, s)
      | _ \<Rightarrow> (CallbackPanic, s))"

definition fuse_removexattr ::
    "clock \<Rightarrow> request \<Rightarrow> inode_id \<Rightarrow> os_string \<Rightarrow> ('db, 'f) fuse_fs \<Rightarrow> reply \<times> ('db, 'f) fuse_fs" where
  "fuse_removexattr clk req ino name s =
     (case split_xattr (os_str name) of
        None \<Rightarrow> (ReplyError ENOTSUP, s)
      | Some (ns, attr) \<Rightarrow>
          (case removexattr clk (write_graph req s) ino ns attr of
             (Ok _, g) \<Rightarrow> (ReplyOk, s\<lparr>fs_graph := g\<rparr>)
           | (Err (XAttrNotFound _), g) \<Rightarrow> (ReplyError ENODATA, s\<lparr>fs_graph := g\<rparr>)
           | (Err (InodeNotFound _), g) \<Rightarrow> (ReplyError ENOENT, s\<lparr>fs_graph := g\<rparr>)
           | (Err _, g) \<Rightarrow> (ReplyError EIO, s\<lparr>fs_graph := g\<rparr>)
           | (_, g) \<Rightarrow> (CallbackPanic, s\<lparr>fs_graph := g\<rparr>)))"

section \<open>Saving\<close>

definition fuse_fsync ::
    "(graph_image \<Rightarrow> 'b option) \<Rightarrow> ('b \<Rightarrow> 'db \<Rightarrow> 'db option) \<Rightarrow> ('f \<Rightarrow> provenance_entry list \<Rightarrow> 'f) \<Rightarrow>
       ('db, 'f) fuse_fs \<Rightarrow> reply \<times> ('db, 'f) fuse_fs" where
  "fuse_fsync to_vec put app s = (ReplyOk, persist_prov_log app (persist to_vec put s))"

definition fuse_destroy ::
    "(graph_image \<Rightarrow> 'b option) \<Rightarrow> ('b \<Rightarrow> 'db \<Rightarrow> 'db option) \<Rightarrow> ('f \<Rightarrow> provenance_entry list \<Rightarrow> 'f) \<Rightarrow>
       ('db, 'f) fuse_fs \<Rightarrow> ('db, 'f) fuse_fs" where
  "fuse_destroy to_vec put app s = persist_prov_log app (persist to_vec put s)"

end
