(* ===== verification/Sotfs_Side.thy ===== *)
theory Sotfs_Side
  imports Sotfs_Storage
begin

text \<open>
  The fields no operation on the tree or on attributes writes: capabilities, transactions, versions and
  file contents.
\<close>

definition side :: "type_graph \<Rightarrow>
    capability arena \<times> transaction arena \<times> version arena \<times> (inode_id, u8 list) bmap" where
  "side g = (caps g, transactions g, versions g, file_data g)"

lemma side_fields [simp]:
  "side (g\<lparr>inodes := a\<rparr>) = side g" "side (g\<lparr>dirs := b\<rparr>) = side g" "side (g\<lparr>blocks := c\<rparr>) = side g"
  "side (g\<lparr>edges := d\<rparr>) = side g" "side (g\<lparr>next_inode := n\<rparr>) = side g" "side (g\<lparr>next_dir := n\<rparr>) = side g"
  "side (g\<lparr>next_edge := n\<rparr>) = side g" "side (g\<lparr>next_block := n\<rparr>) = side g" "side (g\<lparr>next_xattr := n\<rparr>) = side g"
  "side (g\<lparr>dir_contains := e\<rparr>) = side g" "side (g\<lparr>inode_incoming_contains := f\<rparr>) = side g"
  "side (g\<lparr>inode_points_to := h\<rparr>) = side g" "side (g\<lparr>dir_name_idx := i\<rparr>) = side g"
  "side (g\<lparr>dir_for_inode_idx := j\<rparr>) = side g" "side (g\<lparr>symlink_targets := k\<rparr>) = side g"
  "side (g\<lparr>xattrs := l\<rparr>) = side g" "side (g\<lparr>inode_xattrs := m\<rparr>) = side g" "side (g\<lparr>quotas := q\<rparr>) = side g"
  "side (g\<lparr>prov_log := p\<rparr>) = side g" "side (g\<lparr>cap_ctx := r\<rparr>) = side g"
  by (simp_all add: side_def)

section \<open>Edit steps\<close>

lemma side_steps [simp]:
  "side (insert_inode i x g) = side g" "side (insert_dir d y g) = side g" "side (insert_block b z g) = side g"
  "side (insert_edge e w g) = side g" "side (get_inode_mut i f g) = side g" "side (get_block_mut b h g) = side g"
  "side (snd (remove_inode i g)) = side g" "side (snd (remove_dir d g)) = side g"
  "side (snd (remove_block b g)) = side g" "side (snd (remove_edge e g)) = side g"
  "side (record_prov t op i s g) = side g" "side (set_cap_ctx c g) = side g"
  "side (snd (rename_contains_edge e n g)) = side g"
  by (simp_all add: insert_inode_def insert_dir_def insert_block_def insert_edge_def get_inode_mut_def
      get_block_mut_def remove_inode_def remove_dir_def remove_block_def remove_edge_def record_prov_def
      set_cap_ctx_def rename_contains_edge_def get_edge_mut_def Let_def
      split: option.split prod.split edge.split)

lemma side_contains [simp]:
  "side (attach_contains e d i n g) = side g" "side (unindex_contains e d i g) = side g"
  "side (detach_contains e d i g) = side g" "side (retarget_contains e i j g) = side g"
  by (simp_all add: attach_contains_def unindex_contains_def detach_contains_def retarget_contains_def
      get_edge_mut_def Let_def)

lemma side_remove_edgeD: "remove_edge e g = (x, g') \<Longrightarrow> side g' = side g"
  using side_steps(10) [of e g] by simp

lemma side_loops [simp]:
  "side (remove_contains e g) = side g" "side (drop_extent e g) = side g"
  by (auto simp: remove_contains_def drop_extent_def Let_def dest!: side_remove_edgeD
      split: prod.split option.split edge.split)

lemma side_fold: "(\<And>x g. side (f x g) = side g) \<Longrightarrow> side (fold f xs g) = side g"
  by (induction xs arbitrary: g) simp_all

lemma side_gc_inode [simp]: "side (gc_inode t g) = side g"
  by (simp add: gc_inode_def Let_def side_fold)

lemma side_move_dotdot [simp]: "side (move_dotdot i d g) = side g"
  by (simp add: move_dotdot_def split: option.split edge.split)

section \<open>Operations\<close>

text \<open>An operation keeps the side fields, however it ends.\<close>

definition keeps_side :: "type_graph \<Rightarrow> 'a res \<times> type_graph \<Rightarrow> bool" where
  "keeps_side g r \<longleftrightarrow> side (snd r) = side g"

named_theorems side_intros

lemma keeps_pair [side_intros]: "side g' = side g \<Longrightarrow> keeps_side g (r, g')"
  by (simp add: keeps_side_def)

lemma keeps_try [side_intros]:
  "(\<And>x. keeps_side g (k x)) \<Longrightarrow> side h = side g \<Longrightarrow> keeps_side g (try_res r h k)"
  by (cases r) (simp_all add: keeps_side_def)

lemma keeps_then [side_intros]:
  assumes "keeps_side g r" "\<And>x h. side h = side g \<Longrightarrow> keeps_side g (k x h)"
  shows "keeps_side g (and_then r k)"
proof (cases r)
  case (Pair x h)
  then show ?thesis using assms by (cases x) (simp_all add: keeps_side_def)
qed

lemma keeps_returns [side_intros]:
  assumes "\<And>h. side h = side g \<Longrightarrow> keeps_side g (k h)" "side h = side g" "\<And>h'. u = Some h' \<Longrightarrow> side h' = side h"
  shows "keeps_side g (returns u h k)"
  using assms by (cases u) (simp_all add: keeps_side_def)

lemma keeps_if [side_intros]:
  "(b \<Longrightarrow> keeps_side g x) \<Longrightarrow> (\<not> b \<Longrightarrow> keeps_side g y) \<Longrightarrow> keeps_side g (if b then x else y)"
  by simp

lemma side_update_quota: "update_quota g d a b = Some g' \<Longrightarrow> side g' = side g"
  using update_quota_frame [of g d a b g'] by auto

lemmas alloc_defs = alloc_inode_id_def alloc_dir_id_def alloc_edge_id_def alloc_block_id_def alloc_xattr_id_def

lemma create_file_side: "keeps_side g (create_file clk g d n u gi p)"
  unfolding create_file_def alloc_defs Let_def prod.case
  by (intro side_intros) (auto dest: side_update_quota)

lemma mkdir_side: "keeps_side g (mkdir clk g d n u gi p)"
  unfolding mkdir_def alloc_defs Let_def prod.case
  by (intro side_intros) (auto dest: side_update_quota)

lemma symlink_side: "keeps_side g (symlink clk g d n t u gi)"
  unfolding symlink_def alloc_defs Let_def prod.case
  by (intro side_intros) (auto dest: side_update_quota)

lemma rmdir_side: "keeps_side g (rmdir clk g d n)"
  unfolding rmdir_def Let_def
  by (intro side_intros) (auto dest: side_update_quota simp: side_fold)

lemma link_side: "keeps_side g (link clk g d n t)"
  unfolding link_def alloc_defs Let_def prod.case
  by (intro side_intros) auto

lemma keeps_option [side_intros]:
  "(m = None \<Longrightarrow> keeps_side g x) \<Longrightarrow> (\<And>y. m = Some y \<Longrightarrow> keeps_side g (f y)) \<Longrightarrow>
     keeps_side g (case m of None \<Rightarrow> x | Some y \<Rightarrow> f y)"
  by (cases m) simp_all

lemma keeps_bool [side_intros]:
  "(b \<Longrightarrow> keeps_side g x) \<Longrightarrow> (\<not> b \<Longrightarrow> keeps_side g y) \<Longrightarrow>
     keeps_side g (case b of True \<Rightarrow> x | False \<Rightarrow> y)"
  by (cases b) simp_all

lemma unlink_side: "keeps_side g (unlink clk g d n)"
  unfolding unlink_def Let_def split_def
  by (intro side_intros) (auto dest: side_update_quota split: if_splits)

lemma keeps_side_cong: "side h = side g \<Longrightarrow> keeps_side h r \<Longrightarrow> keeps_side g r"
  by (simp add: keeps_side_def)

lemma replace_dst_side: "keeps_side g (replace_dst clk g d n t)"
  unfolding replace_dst_def by (intro side_intros) (auto simp: rmdir_side unlink_side)

lemma rename_same_side: "keeps_side g (rename_same_dir clk g d n m)"
  unfolding rename_same_dir_def by (intro side_intros) (auto simp: replace_dst_side)

lemma rename_cross_side: "keeps_side g (rename_cross_dir clk g d n e m)"
  unfolding rename_cross_dir_def alloc_defs Let_def prod.case
  by (intro side_intros) (auto simp: replace_dst_side)

lemma rename_side: "keeps_side g (rename clk g d n e m)"
proof -
  have "keeps_side g (if d = e then rename_same_dir clk g d n m else rename_cross_dir clk g d n e m)"
    by (simp add: rename_same_side rename_cross_side)
  then show ?thesis
    unfolding rename_def Let_def split_def by (intro side_intros) (auto simp: keeps_side_def)
qed

lemma chmod_side: "keeps_side g (chmod clk g i m)"
  unfolding chmod_def Let_def by (intro side_intros) auto

lemma chown_side: "keeps_side g (chown clk g i u gi)"
  unfolding chown_def Let_def by (intro side_intros) auto

lemma setxattr_side: "keeps_side g (setxattr clk g i ns n v)"
  unfolding setxattr_def alloc_defs Let_def prod.case split_def
  by (intro side_intros) auto

lemma removexattr_side: "keeps_side g (removexattr clk g i ns n)"
  unfolding removexattr_def Let_def split_def
  by (intro side_intros) (auto split: option.split)

text \<open>The operations on contents write one entry of \<open>file_data\<close>.\<close>

lemma put_data_side: "side (put_data i b g) = (caps g, transactions g, versions g, bmap_insert i b (file_data g))"
  by (simp add: put_data_def side_def)

end
