(* ===== verification/Sotfs_Contracts.thy ===== *)
theory Sotfs_Contracts
  imports Sotfs_Side
begin

text \<open>
  What every operation of \<open>sotfs-ops\<close> promises its caller, stated once as a locale and discharged for
  each operation of the model.
\<close>

section \<open>What the callbacks need of the graph\<close>

definition data_bounded :: "type_graph \<Rightarrow> bool" where
  "data_bounded g \<longleftrightarrow> (\<forall>i b. bmap_get (file_data g) i = Some b \<longrightarrow> length b \<le> VEC_MAX)"

definition graph_inv :: "type_graph \<Rightarrow> bool" where
  "graph_inv g \<longleftrightarrow> well_formed g \<and> other_arenas_ok g \<and> data_bounded g"

lemma graph_invD:
  "graph_inv g \<Longrightarrow> well_formed g" "graph_inv g \<Longrightarrow> other_arenas_ok g" "graph_inv g \<Longrightarrow> data_bounded g"
  by (simp_all add: graph_inv_def)

lemma graph_inv_side: "graph_inv g \<Longrightarrow> well_formed g' \<Longrightarrow> side g' = side g \<Longrightarrow> graph_inv g'"
  by (simp add: graph_inv_def other_arenas_ok_def data_bounded_def side_def)

lemma names_of_log_ctx [simp]:
  "names_of (g\<lparr>prov_log := p\<rparr>) = names_of g" "names_of (g\<lparr>cap_ctx := c\<rparr>) = names_of g"
  by (simp_all add: names_of_def fun_eq_iff)

lemma well_formed_log_ctx [simp]:
  "well_formed (g\<lparr>prov_log := p\<rparr>) = well_formed g" "well_formed (g\<lparr>cap_ctx := c\<rparr>) = well_formed g"
  by (simp_all add: well_formed_def no_dir_extents_def rep_ok_def edges_ok_def dirs_ok_def inodes_ok_def
      blocks_ok_def fs_of_def)

lemma view_ctx [simp]:
  "fs_of (set_cap_ctx c g) = fs_of g" "dir_for_inode (set_cap_ctx c g) = dir_for_inode g"
  "next_inode (set_cap_ctx c g) = next_inode g" "next_dir (set_cap_ctx c g) = next_dir g"
  "next_edge (set_cap_ctx c g) = next_edge g" "well_formed (set_cap_ctx c g) = well_formed g"
  by (simp_all add: set_cap_ctx_def fs_of_def dir_for_inode_def fun_eq_iff)

lemma graph_inv_ctx [simp]:
  "graph_inv (set_cap_ctx c g) = graph_inv g" "graph_inv (g\<lparr>prov_log := p\<rparr>) = graph_inv g"
  by (simp_all add: graph_inv_def set_cap_ctx_def other_arenas_ok_def data_bounded_def)

section \<open>The contract of an operation\<close>

text \<open>
  Under its precondition an operation succeeds and keeps the invariant, or reports an error and leaves
  the graph as it was; \<open>post\<close> says what a success tells about its result.
\<close>

locale graph_op =
  fixes run :: "type_graph \<Rightarrow> 'a res \<times> type_graph"
    and pre :: "type_graph \<Rightarrow> bool"
    and post :: "'a \<Rightarrow> type_graph \<Rightarrow> bool"
  assumes settles: "graph_inv g \<Longrightarrow> pre g \<Longrightarrow>
    (\<exists>x g'. run g = (Ok x, g') \<and> graph_inv g' \<and> post x g') \<or> (\<exists>e. run g = (Err e, g))"
begin

lemma outcome:
  assumes "graph_inv g" "pre g"
  obtains (ok) x g' where "run g = (Ok x, g')" "graph_inv g'" "post x g'"
  | (err) e where "run g = (Err e, g)"
  using settles [OF assms] by blast

lemma keeps: "graph_inv g \<Longrightarrow> pre g \<Longrightarrow> graph_inv (snd (run g))"
  by (rule outcome) auto

lemma no_panic: "graph_inv g \<Longrightarrow> pre g \<Longrightarrow> fst (run g) \<noteq> Panic \<and> fst (run g) \<noteq> Diverge"
  by (rule outcome) auto

text \<open>A callback turns the outcome into a reply and stores the graph.\<close>

lemma callback:
  assumes "graph_inv g" "pre g"
    and "\<And>x g'. graph_inv g' \<Longrightarrow> post x g' \<Longrightarrow> Q (f (Ok x) g')" and "\<And>e. graph_inv g \<Longrightarrow> Q (f (Err e) g)"
  shows "Q (case run g of (r, g') \<Rightarrow> f r g')"
  by (rule outcome [OF assms(1,2)]) (use assms in auto)

end

text \<open>An operation on the tree or on attributes: it keeps well-formedness and writes no side field.\<close>

locale tree_op =
  fixes run :: "type_graph \<Rightarrow> 'a res \<times> type_graph"
    and pre :: "type_graph \<Rightarrow> bool"
    and post :: "'a \<Rightarrow> type_graph \<Rightarrow> bool"
  assumes tree_settles: "well_formed g \<Longrightarrow> pre g \<Longrightarrow>
      (\<exists>x g'. run g = (Ok x, g') \<and> well_formed g' \<and> post x g') \<or> (\<exists>e. run g = (Err e, g))"
    and tree_side: "keeps_side g (run g)"

sublocale tree_op \<subseteq> graph_op
proof
  fix g assume g: "graph_inv g" "pre g"
  show "(\<exists>x g'. run g = (Ok x, g') \<and> graph_inv g' \<and> post x g') \<or> (\<exists>e. run g = (Err e, g))"
    using tree_settles [OF graph_invD(1) [OF g(1)] g(2)] tree_side [of g] graph_inv_side [OF g(1)]
    by (auto simp: keeps_side_def)
qed

text \<open>The inode a success reports is stored.\<close>

definition stored :: "inode_id \<Rightarrow> type_graph \<Rightarrow> bool" where
  "stored i g \<longleftrightarrow> get_inode g i \<noteq> None"

lemma stored_view: "canonical i \<Longrightarrow> fs_inode (fs_of g) i \<noteq> None \<Longrightarrow> stored i g"
  by (simp add: stored_def inode_at_canonical)

lemma settles_from:
  assumes "case r of (Ok x, g') \<Rightarrow> P x g' | (Err e, g') \<Rightarrow> g' = g \<and> R e g' | _ \<Rightarrow> False"
    and "\<And>x g'. P x g' \<Longrightarrow> well_formed g' \<and> post x g'"
  shows "(\<exists>x g'. r = (Ok x, g') \<and> well_formed g' \<and> post x g') \<or> (\<exists>e. r = (Err e, g))"
proof (cases r)
  case (Pair x g')
  then show ?thesis using assms by (cases x) auto
qed

interpretation create_op: tree_op "\<lambda>g. create_file clk g d n u gi p"
    "\<lambda>g. canonical d \<and> next_inode g < NODE_CAPACITY \<and> next_edge g < EDGE_CAPACITY" stored
  for clk d n u gi p
proof
  fix g assume g: "well_formed g" "canonical d \<and> next_inode g < NODE_CAPACITY \<and> next_edge g < EDGE_CAPACITY"
  have c: "canonical (next_inode g)" using g(2) canonical_small by blast
  show "(\<exists>x g'. create_file clk g d n u gi p = (Ok x, g') \<and> well_formed g' \<and> stored x g') \<or>
      (\<exists>e. create_file clk g d n u gi p = (Err e, g))"
    by (rule settles_from, rule create_file_contract)
      (use g c in \<open>auto simp: fs_create_def intro!: stored_view simp del: fs_of_simps\<close>)
qed (rule create_file_side)

interpretation mkdir_op: tree_op "\<lambda>g. mkdir clk g d n u gi p"
    "\<lambda>g. canonical d \<and> next_inode g < NODE_CAPACITY \<and> next_dir g < NODE_CAPACITY \<and> next_edge g + 2 < EDGE_CAPACITY"
    "\<lambda>r. stored (cr_inode_id r)"
  for clk d n u gi p
proof
  fix g assume g: "well_formed g" "canonical d \<and> next_inode g < NODE_CAPACITY \<and> next_dir g < NODE_CAPACITY \<and>
      next_edge g + 2 < EDGE_CAPACITY"
  have c: "canonical (next_inode g)" using g(2) canonical_small by blast
  show "(\<exists>x g'. mkdir clk g d n u gi p = (Ok x, g') \<and> well_formed g' \<and> stored (cr_inode_id x) g') \<or>
      (\<exists>e. mkdir clk g d n u gi p = (Err e, g))"
    by (rule settles_from, rule mkdir_contract)
      (use g c in \<open>auto simp: fs_mkdir_def intro!: stored_view simp del: fs_of_simps\<close>)
qed (rule mkdir_side)

interpretation symlink_op: tree_op "\<lambda>g. symlink clk g d n t u gi"
    "\<lambda>g. canonical d \<and> next_inode g < NODE_CAPACITY \<and> next_edge g < EDGE_CAPACITY" stored
  for clk d n t u gi
proof
  fix g assume g: "well_formed g" "canonical d \<and> next_inode g < NODE_CAPACITY \<and> next_edge g < EDGE_CAPACITY"
  have c: "canonical (next_inode g)" using g(2) canonical_small by blast
  show "(\<exists>x g'. symlink clk g d n t u gi = (Ok x, g') \<and> well_formed g' \<and> stored x g') \<or>
      (\<exists>e. symlink clk g d n t u gi = (Err e, g))"
    by (rule settles_from, rule symlink_contract)
      (use g c in \<open>auto simp: fs_create_def intro!: stored_view simp del: fs_of_simps\<close>)
qed (rule symlink_side)

interpretation rmdir_op: tree_op "\<lambda>g. rmdir clk g d n" "\<lambda>_. True" "\<lambda>_ _. True" for clk d n
proof
  fix g assume g: "well_formed g"
  show "(\<exists>x g'. rmdir clk g d n = (Ok x, g') \<and> well_formed g' \<and> True) \<or> (\<exists>e. rmdir clk g d n = (Err e, g))"
    by (rule settles_from, rule rmdir_contract [OF g]) simp
qed (rule rmdir_side)

interpretation unlink_op: tree_op "\<lambda>g. unlink clk g d n" "\<lambda>_. True" "\<lambda>_ _. True" for clk d n
proof
  fix g assume g: "well_formed g"
  show "(\<exists>x g'. unlink clk g d n = (Ok x, g') \<and> well_formed g' \<and> True) \<or> (\<exists>e. unlink clk g d n = (Err e, g))"
    by (rule settles_from, rule unlink_contract [OF g]) simp
qed (rule unlink_side)

interpretation link_op: tree_op "\<lambda>g. link clk g d n t"
    "\<lambda>g. canonical t \<and> fs_dir (fs_of g) d \<noteq> None \<and> next_edge g < EDGE_CAPACITY" "\<lambda>_. stored t"
  for clk d n t
proof
  fix g assume g: "well_formed g" "canonical t \<and> fs_dir (fs_of g) d \<noteq> None \<and> next_edge g < EDGE_CAPACITY"
  show "(\<exists>x g'. link clk g d n t = (Ok x, g') \<and> well_formed g' \<and> stored t g') \<or> (\<exists>e. link clk g d n t = (Err e, g))"
    by (rule settles_from, rule link_contract)
      (use g in \<open>auto intro!: stored_view simp: fs_link_def simp del: fs_of_simps\<close>)
qed (rule link_side)

interpretation rename_op: tree_op "\<lambda>g. rename clk g d n e m"
    "\<lambda>g. fs_dir (fs_of g) e \<noteq> None \<and> next_edge g < EDGE_CAPACITY" "\<lambda>_ _. True"
  for clk d n e m
proof
  fix g assume g: "well_formed g" "fs_dir (fs_of g) e \<noteq> None \<and> next_edge g < EDGE_CAPACITY"
  show "(\<exists>x g'. rename clk g d n e m = (Ok x, g') \<and> well_formed g' \<and> True) \<or> (\<exists>x. rename clk g d n e m = (Err x, g))"
    by (rule settles_from, rule rename_contract) (use g in simp_all)
qed (rule rename_side)

interpretation chmod_op: tree_op "\<lambda>g. chmod clk g i p" "\<lambda>_. canonical i" "\<lambda>_ _. True" for clk i p
proof
  fix g assume g: "well_formed g" "canonical i"
  show "(\<exists>x g'. chmod clk g i p = (Ok x, g') \<and> well_formed g' \<and> True) \<or> (\<exists>e. chmod clk g i p = (Err e, g))"
    by (rule settles_from, rule chmod_contract [OF g, unfolded attr_change_def]) simp
qed (rule chmod_side)

interpretation chown_op: tree_op "\<lambda>g. chown clk g i u gi" "\<lambda>_. canonical i" "\<lambda>_ _. True" for clk i u gi
proof
  fix g assume g: "well_formed g" "canonical i"
  show "(\<exists>x g'. chown clk g i u gi = (Ok x, g') \<and> well_formed g' \<and> True) \<or> (\<exists>e. chown clk g i u gi = (Err e, g))"
    by (rule settles_from, rule chown_contract [OF g, unfolded attr_change_def]) simp
qed (rule chown_side)

text \<open>The attribute operations keep the tree whatever the state of the attribute index.\<close>

lemma setxattr_settles:
  assumes wf: "well_formed g" and c: "canonical i" and cap: "next_edge g < EDGE_CAPACITY"
  shows "(\<exists>x g'. setxattr clk g i ns n v = (Ok x, g') \<and> well_formed g') \<or> (\<exists>e. setxattr clk g i ns n v = (Err e, g))"
proof (cases "require_cap g WRITE = Ok () \<and> inode_at g i \<noteq> None \<and> length v \<le> 65536")
  case False
  then show ?thesis
    by (cases rule: require_cap_cases [of g WRITE]; cases "inode_at g i")
       (auto simp: setxattr_def contains_inode_view [OF wf c])
next
  case True
  show ?thesis
  proof (cases "find_xattr (xattrs g) ns n (mi_get (inode_xattrs g) i)")
    case (Some p)
    then show ?thesis
      using True wf by (simp add: setxattr_def contains_inode_view [OF wf c] split: prod.split)
  next
    case None
    have pl: "plain_edge (HasXattr (next_edge g) i x)" "edge_id (HasXattr (next_edge g) i x) = next_edge g" for x
      by simp_all
    show ?thesis
      using True None well_formed_next_xattr_edge [OF wf cap pl]
      by (simp add: setxattr_def contains_inode_view [OF wf c] alloc_xattr_id_def alloc_edge_id_def
          succ_u64_small cap Let_def)
  qed
qed

lemma removexattr_settles:
  assumes wf: "well_formed g" and c: "canonical i"
  shows "(\<exists>x g'. removexattr clk g i ns n = (Ok x, g') \<and> well_formed g') \<or> (\<exists>e. removexattr clk g i ns n = (Err e, g))"
proof (cases "require_cap g WRITE = Ok () \<and> inode_at g i \<noteq> None")
  case False
  then show ?thesis
    by (cases rule: require_cap_cases [of g WRITE]; cases "inode_at g i")
       (auto simp: removexattr_def contains_inode_view [OF wf c])
next
  case True
  show ?thesis
  proof (cases "find_xattr (xattrs g) ns n (mi_get (inode_xattrs g) i)")
    case None
    then show ?thesis using True by (simp add: removexattr_def contains_inode_view [OF wf c])
  next
    case (Some p)
    obtain x xa where p: "p = (x, xa)" by (cases p)
    define h where "h = g\<lparr>xattrs := bmap_remove x (xattrs g), inode_xattrs := mi_del i x (inode_xattrs g)\<rparr>"
    have h: "well_formed h" "edge_at h = edge_at g" using wf by (simp_all add: h_def)
    have "well_formed (case find (is_xattr_edge h i x) (ar_keys (edges h)) of
        Some eid \<Rightarrow> snd (remove_edge eid h) | None \<Rightarrow> h)"
    proof (cases "find (is_xattr_edge h i x) (ar_keys (edges h))")
      case (Some a)
      then have "is_xattr_edge h i x a" by (auto simp: find_Some_iff)
      then obtain b where "edge_at h a = Some (HasXattr b i x)"
        by (auto simp: is_xattr_edge_def split: option.splits edge.splits)
      from del_plain_edge(3) [OF h(1) this] show ?thesis using Some by simp
    qed (use h(1) in simp)
    then show ?thesis
      using True Some p by (simp add: removexattr_def contains_inode_view [OF wf c] Let_def h_def cong: option.case_cong)
  qed
qed

interpretation setxattr_op: tree_op "\<lambda>g. setxattr clk g i ns n v"
    "\<lambda>g. canonical i \<and> next_edge g < EDGE_CAPACITY" "\<lambda>_ _. True"
  for clk i ns n v
  by unfold_locales (use setxattr_settles in \<open>simp_all add: setxattr_side\<close>)

interpretation removexattr_op: tree_op "\<lambda>g. removexattr clk g i ns n" "\<lambda>_. canonical i" "\<lambda>_ _. True"
  for clk i ns n
  by unfold_locales (use removexattr_settles in \<open>simp_all add: removexattr_side\<close>)

text \<open>The operations on contents keep the contents bounded.\<close>

lemma graph_inv_data:
  assumes g: "graph_inv g" and wf: "well_formed g'"
    and data: "bmap_get (file_data g') = (bmap_get (file_data g))(i \<mapsto> b)" "length b \<le> VEC_MAX"
    and arenas: "caps g' = caps g" "transactions g' = transactions g" "versions g' = versions g"
  shows "graph_inv g'"
  using assms by (simp add: graph_inv_def other_arenas_ok_def data_bounded_def)

lemma data_step_arenas:
  "caps (record_prov t op j s (get_inode_mut i f (put_data i b g))) = caps g"
  "transactions (record_prov t op j s (get_inode_mut i f (put_data i b g))) = transactions g"
  "versions (record_prov t op j s (get_inode_mut i f (put_data i b g))) = versions g"
  "caps (put_data i b g) = caps g" "transactions (put_data i b g) = transactions g"
  "versions (put_data i b g) = versions g"
  by (simp_all add: record_prov_def get_inode_mut_def put_data_def Let_def split: option.split)

lemma write_data_arenas:
  "caps (snd (write_data clk g i off data)) = caps g"
  "transactions (snd (write_data clk g i off data)) = transactions g"
  "versions (snd (write_data clk g i off data)) = versions g"
  by (cases "require_cap g WRITE"; cases "get_inode g i"; simp add: write_data_def Let_def data_step_arenas)+

lemma truncate_arenas:
  "caps (snd (Sotfs_Data.truncate clk g i n)) = caps g"
  "transactions (snd (Sotfs_Data.truncate clk g i n)) = transactions g"
  "versions (snd (Sotfs_Data.truncate clk g i n)) = versions g"
  by (cases "require_cap g WRITE"; cases "get_inode g i"; simp add: Sotfs_Data.truncate_def Let_def data_step_arenas)+

interpretation write_op: graph_op "\<lambda>g. write_data clk g i off data"
    "\<lambda>_. canonical i \<and> unat off + length data \<le> VEC_MAX" "\<lambda>_ _. True"
  for clk i off data
proof
  fix g assume g: "graph_inv g" and p: "canonical i \<and> unat off + length data \<le> VEC_MAX"
  obtain r g' where r: "write_data clk g i off data = (r, g')" by fastforce
  have old: "length (data_or_default g i) \<le> VEC_MAX"
    using graph_invD(3) [OF g] by (simp add: data_bounded_def data_or_default_def split: option.split)
  note spec = write_data_contract [OF graph_invD(1) [OF g], of i off data clk, unfolded r]
  note ar = write_data_arenas [of clk g i off data, unfolded r]
  show "(\<exists>x g'. write_data clk g i off data = (Ok x, g') \<and> graph_inv g' \<and> True) \<or>
      (\<exists>e. write_data clk g i off data = (Err e, g))"
  proof (cases r)
    case (Ok n)
    have "length (data_or_default g' i) \<le> VEC_MAX"
      using spec p old by (auto simp: Ok Let_def grows_to_def)
    moreover have "well_formed g'" "bmap_get (file_data g') = (bmap_get (file_data g))(i \<mapsto> data_or_default g' i)"
      using spec p by (auto simp: Ok Let_def)
    ultimately show ?thesis using graph_inv_data [OF g] ar r Ok by simp
  qed (use spec p r in simp_all)
qed

interpretation truncate_op: graph_op "\<lambda>g. Sotfs_Data.truncate clk g i n"
    "\<lambda>_. canonical i \<and> unat n \<le> VEC_MAX" "\<lambda>_ _. True"
  for clk i n
proof
  fix g assume g: "graph_inv g" and p: "canonical i \<and> unat n \<le> VEC_MAX"
  obtain r g' where r: "Sotfs_Data.truncate clk g i n = (r, g')" by fastforce
  note spec = truncate_contract [OF graph_invD(1) [OF g], of i n clk, unfolded r]
  note ar = truncate_arenas [of clk g i n, unfolded r]
  show "(\<exists>x g'. Sotfs_Data.truncate clk g i n = (Ok x, g') \<and> graph_inv g' \<and> True) \<or>
      (\<exists>e. Sotfs_Data.truncate clk g i n = (Err e, g))"
  proof (cases r)
    case (Ok u)
    have f: "bmap_get (file_data g') = (bmap_get (file_data g))(i \<mapsto> vec_resize (unat n) (data_or_default g i))"
      and "well_formed g'"
      using spec p by (auto simp: Ok)
    then have "graph_inv g'" using graph_inv_data [OF g _ f _ ar [simplified]] p by simp
    then show ?thesis using r Ok by simp
  qed (use spec p r in simp_all)
qed

end
