(* ===== verification/Sotfs_Mount.thy ===== *)
theory Sotfs_Mount
  imports Sotfs_Fuse Sotfs_Contracts
begin

text \<open>
  The callbacks as a datatype of calls, and for each of them: an admissible call keeps the invariant of
  the mounted file system, does not panic, and has no effect when it reports an error.
\<close>

section \<open>Calls\<close>

datatype call =
    CLookup inode_id os_string
  | CGetattr inode_id
  | CSetattr inode_id "u32 option" "u32 option" "u32 option" "u64 option"
  | CReaddir "dir_entry_reply list \<Rightarrow> dir_entry_reply \<Rightarrow> bool" inode_id u64
  | CMkdir inode_id os_string u32
  | CRmdir inode_id os_string
  | CCreate inode_id os_string u32
  | CUnlink inode_id os_string
  | CRename inode_id os_string inode_id os_string
  | CLink inode_id inode_id os_string
  | COpen inode_id
  | CRead inode_id u64 u32
  | CWrite inode_id u64 "u8 list"
  | CRelease nat
  | COpendir inode_id
  | CReleasedir
  | CSymlink inode_id os_string os_string
  | CReadlink inode_id
  | CStatfs
  | CAccess inode_id u32
  | CFlush
  | CSetxattr inode_id os_string "u8 list"
  | CGetxattr inode_id os_string u32
  | CListxattr inode_id u32
  | CRemovexattr inode_id os_string

text \<open>The methods of the \<open>Filesystem\<close> trait that a call names; \<open>fsync\<close> and \<open>destroy\<close> come with the database.\<close>

fun dispatch :: "clock \<Rightarrow> request \<Rightarrow> call \<Rightarrow> ('db, 'f) fuse_fs \<Rightarrow> reply \<times> ('db, 'f) fuse_fs" where
  "dispatch clk req (CLookup p n) s = fuse_lookup p n s"
| "dispatch clk req (CGetattr i) s = fuse_getattr i s"
| "dispatch clk req (CSetattr i m u gi sz) s = fuse_setattr clk req i m u gi sz s"
| "dispatch clk req (CReaddir full i off) s = fuse_readdir full i off s"
| "dispatch clk req (CMkdir p n m) s = fuse_mkdir clk req p n m s"
| "dispatch clk req (CRmdir p n) s = fuse_rmdir clk req p n s"
| "dispatch clk req (CCreate p n m) s = fuse_create clk req p n m s"
| "dispatch clk req (CUnlink p n) s = fuse_unlink clk req p n s"
| "dispatch clk req (CRename p n q m) s = fuse_rename clk req p n q m s"
| "dispatch clk req (CLink i p n) s = fuse_link clk req i p n s"
| "dispatch clk req (COpen i) s = fuse_open i s"
| "dispatch clk req (CRead i off sz) s = fuse_read i off sz s"
| "dispatch clk req (CWrite i off data) s = fuse_write clk req i off data s"
| "dispatch clk req (CRelease fh) s = fuse_release fh s"
| "dispatch clk req (COpendir i) s = fuse_opendir i s"
| "dispatch clk req CReleasedir s = fuse_releasedir s"
| "dispatch clk req (CSymlink p n t) s = fuse_symlink clk req p n t s"
| "dispatch clk req (CReadlink i) s = fuse_readlink i s"
| "dispatch clk req CStatfs s = fuse_statfs s"
| "dispatch clk req (CAccess i m) s = fuse_access req i m s"
| "dispatch clk req CFlush s = fuse_flush s"
| "dispatch clk req (CSetxattr i n v) s = fuse_setxattr clk req i n v s"
| "dispatch clk req (CGetxattr i n sz) s = fuse_getxattr i n sz s"
| "dispatch clk req (CListxattr i sz) s = fuse_listxattr i sz s"
| "dispatch clk req (CRemovexattr i n) s = fuse_removexattr clk req i n s"

text \<open>
  The calls the theorems are about: inode numbers are below \<open>2 ^ 32\<close>, as all that were handed out, there is
  room for what a call creates, and a write or truncation ends below \<open>isize::MAX\<close>.
\<close>

definition room :: "type_graph \<Rightarrow> bool" where
  "room g \<longleftrightarrow> next_inode g < NODE_CAPACITY \<and> next_dir g < NODE_CAPACITY \<and> next_edge g + 2 < EDGE_CAPACITY"

fun admissible :: "call \<Rightarrow> ('db, 'f) fuse_fs \<Rightarrow> bool" where
  "admissible (CSetattr i m u gi sz) s =
     (canonical i \<and> (case sz of None \<Rightarrow> True | Some n \<Rightarrow> unat n \<le> VEC_MAX))"
| "admissible (CMkdir p n m) s = room (fs_graph s)"
| "admissible (CCreate p n m) s = (room (fs_graph s) \<and> next_fh s + 1 < 2 ^ 64)"
| "admissible (CSymlink p n t) s = room (fs_graph s)"
| "admissible (CLink i p n) s = (canonical i \<and> room (fs_graph s))"
| "admissible (CRename p n q m) s = room (fs_graph s)"
| "admissible (COpen i) s = (next_fh s + 1 < 2 ^ 64)"
| "admissible (CRead i off sz) s = canonical i"
| "admissible (CWrite i off data) s = (canonical i \<and> unat off + length data \<le> VEC_MAX)"
| "admissible (CSetxattr i n v) s = (canonical i \<and> room (fs_graph s))"
| "admissible (CRemovexattr i n) s = canonical i"
| "admissible _ s = True"

section \<open>Invariant\<close>

definition handles_ok :: "('db, 'f) fuse_fs \<Rightarrow> bool" where
  "handles_ok s \<longleftrightarrow> bmap_ok (open_files s) \<and> (\<forall>fh i. bmap_get (open_files s) fh = Some i \<longrightarrow> fh < next_fh s)"

text \<open>
  What a call may do to the state: the database is only written by \<open>fsync\<close> and \<open>destroy\<close>, and an
  error leaves everything but the capability context as it was, when \<open>atomic\<close>.
\<close>

definition untouched :: "('db, 'f) fuse_fs \<Rightarrow> ('db, 'f) fuse_fs \<Rightarrow> bool" where
  "untouched s s' \<longleftrightarrow> s' = s\<lparr>fs_graph := set_cap_ctx (cap_ctx (fs_graph s')) (fs_graph s)\<rparr>"

definition call_ok :: "bool \<Rightarrow> ('db, 'f) fuse_fs \<Rightarrow> reply \<times> ('db, 'f) fuse_fs \<Rightarrow> bool" where
  "call_ok atomic s r \<longleftrightarrow>
     (case r of (reply, s') \<Rightarrow>
        reply \<noteq> CallbackPanic \<and> graph_inv (fs_graph s') \<and> handles_ok s' \<and> backend s' = backend s \<and>
        (atomic \<longrightarrow> (\<forall>e. reply = ReplyError e \<longrightarrow> untouched s s')))"

lemma untouched_same [simp]: "untouched s s"
  by (simp add: untouched_def set_cap_ctx_def)

lemma untouched_ctx [simp]: "untouched s (s\<lparr>fs_graph := write_graph req s\<rparr>)"
  by (simp add: untouched_def set_cap_ctx_def)

lemma call_okI:
  "reply \<noteq> CallbackPanic \<Longrightarrow> graph_inv g \<Longrightarrow> handles_ok s \<Longrightarrow> (\<And>e. atomic \<Longrightarrow> reply \<noteq> ReplyError e) \<Longrightarrow>
     call_ok atomic s (reply, s\<lparr>fs_graph := g\<rparr>)"
  by (simp add: call_ok_def handles_ok_def)

lemma call_ok_failed:
  "graph_inv (fs_graph s) \<Longrightarrow> handles_ok s \<Longrightarrow> call_ok atomic s (ReplyError e, s\<lparr>fs_graph := write_graph req s\<rparr>)"
  by (simp add: call_ok_def handles_ok_def)

lemma call_ok_same:
  "reply \<noteq> CallbackPanic \<Longrightarrow> graph_inv (fs_graph s) \<Longrightarrow> handles_ok s \<Longrightarrow> call_ok atomic s (reply, s)"
  by (simp add: call_ok_def)

lemma dir_lookup:
  assumes "graph_inv g" "dir_for_inode g p = Some d"
  shows "fs_dir (fs_of g) d = Some p" "canonical d"
proof -
  note ok = well_formedD(4) [OF graph_invD(1) [OF assms(1)]]
  show v: "fs_dir (fs_of g) d = Some p" using assms(2) dir_for_inode_iff [OF ok] by blast
  then obtain y where "dir_at g d = Some y" by auto
  then show "canonical d" by (rule dir_canonical [OF ok])
qed

lemma expect_stored [simp]: "stored i g \<Longrightarrow> (\<And>a. f a \<noteq> r) \<Longrightarrow> expect_inode g i f \<noteq> r"
  by (cases "get_inode g i") (simp_all add: stored_def expect_inode_def)

lemma new_handle:
  assumes "handles_ok s" "next_fh s + 1 < 2 ^ 64"
  shows "handles_ok (s\<lparr>next_fh := succ_u64 (next_fh s), open_files := bmap_insert (next_fh s) i (open_files s)\<rparr>)"
  using assms by (auto simp: handles_ok_def succ_u64_def less_Suc_eq)

section \<open>Every call keeps the invariant\<close>

text \<open>Calls that name an entry of a directory: the inode of the directory must have one.\<close>

lemma mkdir_call:
  assumes g: "graph_inv (fs_graph s)" and h: "handles_ok s" and r: "room (fs_graph s)"
  shows "call_ok True s (fuse_mkdir clk req p n m s)"
proof (cases "dir_for_inode (fs_graph s) p")
  case (Some d)
  let ?g = "write_graph req s"
  have inv: "graph_inv ?g" using g by simp
  have pre: "canonical d \<and> next_inode ?g < NODE_CAPACITY \<and> next_dir ?g < NODE_CAPACITY \<and> next_edge ?g + 2 < EDGE_CAPACITY"
    using dir_lookup(2) [OF g Some] r by (simp add: room_def)
  show ?thesis
    by (rule mkdir_op.outcome [OF inv pre, of clk "os_str n" "req_uid req" "req_gid req" "mode_bits m"])
      (use inv h Some in \<open>auto simp: call_ok_failed fuse_mkdir_def Let_def intro!: call_okI\<close>)
qed (use g h in \<open>simp add: call_ok_failed fuse_mkdir_def Let_def call_okI\<close>)

lemma create_call:
  assumes g: "graph_inv (fs_graph s)" and h: "handles_ok s" and r: "room (fs_graph s)" "next_fh s + 1 < 2 ^ 64"
  shows "call_ok True s (fuse_create clk req p n m s)"
proof (cases "dir_for_inode (fs_graph s) p")
  case (Some d)
  let ?g = "write_graph req s"
  have inv: "graph_inv ?g" using g by simp
  have pre: "canonical d \<and> next_inode ?g < NODE_CAPACITY \<and> next_edge ?g < EDGE_CAPACITY"
    using dir_lookup(2) [OF g Some] r by (simp add: room_def)
  show ?thesis
  proof (rule create_op.outcome [OF inv pre, of clk "os_str n" "req_uid req" "req_gid req" "mode_bits m"])
    fix i g' assume ok: "create_file clk ?g d (os_str n) (req_uid req) (req_gid req) (mode_bits m) = (Ok i, g')"
      "graph_inv g'" "stored i g'"
    have "handles_ok (s\<lparr>fs_graph := g', next_fh := succ_u64 (next_fh s),
        open_files := bmap_insert (next_fh s) i (open_files s)\<rparr>)"
      using new_handle [OF h r(2), of i] by (simp add: handles_ok_def)
    then show ?thesis using Some ok by (simp add: call_ok_failed fuse_create_def Let_def alloc_fh_def call_ok_def)
  qed (use inv h Some in \<open>simp add: call_ok_failed fuse_create_def Let_def call_okI\<close>)
qed (use g h in \<open>simp add: call_ok_failed fuse_create_def Let_def call_okI\<close>)

lemma symlink_call:
  assumes g: "graph_inv (fs_graph s)" and h: "handles_ok s" and r: "room (fs_graph s)"
  shows "call_ok True s (fuse_symlink clk req p n t s)"
proof (cases "dir_for_inode (fs_graph s) p")
  case (Some d)
  let ?g = "write_graph req s"
  have inv: "graph_inv ?g" using g by simp
  have pre: "canonical d \<and> next_inode ?g < NODE_CAPACITY \<and> next_edge ?g < EDGE_CAPACITY"
    using dir_lookup(2) [OF g Some] r by (simp add: room_def)
  show ?thesis
    by (rule symlink_op.outcome [OF inv pre, of clk "os_str n" "os_str t" "req_uid req" "req_gid req"])
      (use inv h Some in \<open>auto simp: call_ok_failed fuse_symlink_def Let_def intro!: call_okI split: graph_error.split\<close>)
qed (use g h in \<open>simp add: call_ok_failed fuse_symlink_def Let_def call_okI\<close>)

lemma rmdir_call:
  assumes g: "graph_inv (fs_graph s)" and h: "handles_ok s"
  shows "call_ok True s (fuse_rmdir clk req p n s)"
proof (cases "dir_for_inode (fs_graph s) p")
  case (Some d)
  have inv: "graph_inv (write_graph req s)" using g by simp
  show ?thesis
    by (rule rmdir_op.outcome [OF inv TrueI, of clk d "os_str n"])
      (use inv h Some in \<open>auto simp: call_ok_failed fuse_rmdir_def Let_def intro!: call_okI split: graph_error.split\<close>)
qed (use g h in \<open>simp add: call_ok_failed fuse_rmdir_def Let_def call_okI\<close>)

lemma unlink_call:
  assumes g: "graph_inv (fs_graph s)" and h: "handles_ok s"
  shows "call_ok True s (fuse_unlink clk req p n s)"
proof (cases "dir_for_inode (fs_graph s) p")
  case (Some d)
  have inv: "graph_inv (write_graph req s)" using g by simp
  show ?thesis
    by (rule unlink_op.outcome [OF inv TrueI, of clk d "os_str n"])
      (use inv h Some in \<open>auto simp: call_ok_failed fuse_unlink_def Let_def intro!: call_okI split: graph_error.split\<close>)
qed (use g h in \<open>simp add: call_ok_failed fuse_unlink_def Let_def call_okI\<close>)

lemma link_call:
  assumes g: "graph_inv (fs_graph s)" and h: "handles_ok s" and r: "room (fs_graph s)" and c: "canonical i"
  shows "call_ok True s (fuse_link clk req i p n s)"
proof (cases "dir_for_inode (fs_graph s) p")
  case (Some d)
  let ?g = "write_graph req s"
  have inv: "graph_inv ?g" using g by simp
  have pre: "canonical i \<and> fs_dir (fs_of ?g) d \<noteq> None \<and> next_edge ?g < EDGE_CAPACITY"
    using dir_lookup(1) [OF g Some] r c by (auto simp: room_def)
  show ?thesis
    by (rule link_op.outcome [OF inv pre, of clk "os_str n"])
      (use inv h Some in \<open>auto simp: call_ok_failed fuse_link_def Let_def intro!: call_okI split: graph_error.split\<close>)
qed (use g h in \<open>simp add: call_ok_failed fuse_link_def Let_def call_okI\<close>)

lemma rename_call:
  assumes g: "graph_inv (fs_graph s)" and h: "handles_ok s" and r: "room (fs_graph s)"
  shows "call_ok True s (fuse_rename clk req p n q m s)"
proof (cases "dir_for_inode (fs_graph s) p = None \<or> dir_for_inode (fs_graph s) q = None")
  case True
  then show ?thesis using g h by (auto simp: call_ok_failed fuse_rename_def Let_def intro!: call_okI split: option.split)
next
  case False
  then obtain d e where d: "dir_for_inode (fs_graph s) p = Some d" "dir_for_inode (fs_graph s) q = Some e" by auto
  let ?g = "write_graph req s"
  have inv: "graph_inv ?g" using g by simp
  have pre: "fs_dir (fs_of ?g) e \<noteq> None \<and> next_edge ?g < EDGE_CAPACITY"
    using dir_lookup(1) [OF g d(2)] r by (auto simp: room_def)
  show ?thesis
    by (rule rename_op.outcome [OF inv pre, of clk d "os_str n" "os_str m"])
      (use inv h d in \<open>auto simp: call_ok_failed fuse_rename_def Let_def intro!: call_okI split: graph_error.split\<close>)
qed

lemma write_call:
  assumes g: "graph_inv (fs_graph s)" and h: "handles_ok s"
    and p: "canonical i \<and> unat off + length data \<le> VEC_MAX"
  shows "call_ok True s (fuse_write clk req i off data s)"
proof -
  have inv: "graph_inv (write_graph req s)" using g by simp
  show ?thesis
    by (rule write_op.outcome [OF inv p, of clk])
      (use inv h in \<open>simp_all add: call_ok_failed fuse_write_def call_okI\<close>)
qed

lemma setxattr_call:
  assumes g: "graph_inv (fs_graph s)" and h: "handles_ok s" and r: "room (fs_graph s)" and c: "canonical i"
  shows "call_ok True s (fuse_setxattr clk req i n v s)"
proof (cases "split_xattr (os_str n)")
  case (Some a)
  let ?g = "write_graph req s"
  have inv: "graph_inv ?g" using g by simp
  have pre: "canonical i \<and> next_edge ?g < EDGE_CAPACITY" using r c by (simp add: room_def)
  show ?thesis
    by (rule setxattr_op.outcome [OF inv pre, of clk "fst a" "snd a" v])
      (use inv h Some in \<open>auto simp: call_ok_failed fuse_setxattr_def split_def intro!: call_okI split: graph_error.split\<close>)
qed (use g h in \<open>simp add: call_ok_failed fuse_setxattr_def call_ok_same\<close>)

lemma removexattr_call:
  assumes g: "graph_inv (fs_graph s)" and h: "handles_ok s" and c: "canonical i"
  shows "call_ok True s (fuse_removexattr clk req i n s)"
proof (cases "split_xattr (os_str n)")
  case (Some a)
  have inv: "graph_inv (write_graph req s)" using g by simp
  show ?thesis
    by (rule removexattr_op.outcome [OF inv c, of clk "fst a" "snd a"])
      (use inv h Some in \<open>auto simp: call_ok_failed fuse_removexattr_def split_def intro!: call_okI split: graph_error.split\<close>)
qed (use g h in \<open>simp add: call_ok_failed fuse_removexattr_def call_ok_same\<close>)

text \<open>\<open>setattr\<close> runs up to three operations, and may leave the effect of the first when a later one fails.\<close>

definition optional :: "'b option \<Rightarrow> ('b \<Rightarrow> type_graph \<Rightarrow> unit res \<times> type_graph) \<Rightarrow> type_graph \<Rightarrow> unit res \<times> type_graph" where
  "optional m f g = (case m of Some x \<Rightarrow> f x g | None \<Rightarrow> (Ok (), g))"

lemma optional_op:
  assumes "\<And>x. m = Some x \<Longrightarrow> graph_op (f x) pre (\<lambda>_ _. True)" "graph_inv g" "pre g"
  shows "\<exists>r g'. optional m f g = (r, g') \<and> graph_inv g' \<and> (r = Ok () \<or> (\<exists>e. r = Err e \<and> g' = g))"
proof (cases m)
  case (Some x)
  from graph_op.settles [OF assms(1) [OF this] assms(2,3)] show ?thesis using Some assms(2) by (auto simp: optional_def)
qed (use assms in \<open>simp add: optional_def\<close>)

lemma optional_if: "optional (if b then Some () else None) f g = (if b then f () g else (Ok (), g))"
  by (simp add: optional_def)

lemma setattr_steps:
  "fuse_setattr clk req i m u gi sz s =
     (case optional m (\<lambda>m g. chmod clk g i (mode_bits m)) (write_graph req s) of
        (Err _, g) \<Rightarrow> (ReplyError ENOENT, s\<lparr>fs_graph := g\<rparr>)
      | (Ok _, g) \<Rightarrow>
          (case optional (if u \<noteq> None \<or> gi \<noteq> None then Some () else None) (\<lambda>_ g. chown (\<lambda>k. clk (1 + k)) g i u gi) g of
             (Err _, g) \<Rightarrow> (ReplyError ENOENT, s\<lparr>fs_graph := g\<rparr>)
           | (Ok _, g) \<Rightarrow>
               (case optional sz (\<lambda>n g. Sotfs_Data.truncate (\<lambda>k. clk (2 + k)) g i n) g of
                  (Err _, g) \<Rightarrow> (ReplyError ENOENT, s\<lparr>fs_graph := g\<rparr>)
                | (Ok _, g) \<Rightarrow> (attr_or_enoent g i, s\<lparr>fs_graph := g\<rparr>)
                | (_, g) \<Rightarrow> (CallbackPanic, s\<lparr>fs_graph := g\<rparr>))
           | (_, g) \<Rightarrow> (CallbackPanic, s\<lparr>fs_graph := g\<rparr>))
      | (_, g) \<Rightarrow> (CallbackPanic, s\<lparr>fs_graph := g\<rparr>))"
  unfolding fuse_setattr_def optional_if Let_def unfolding optional_def by (rule refl)

lemma setattr_call:
  assumes g: "graph_inv (fs_graph s)" and h: "handles_ok s" and c: "canonical i"
    and sz: "\<And>n. sz = Some n \<Longrightarrow> unat n \<le> VEC_MAX"
  shows "call_ok False s (fuse_setattr clk req i m u gi sz s)"
proof -
  let ?f1 = "\<lambda>m g. chmod clk g i (mode_bits m)" and ?f2 = "\<lambda>_ g. chown (\<lambda>k. clk (1 + k)) g i u gi"
    and ?f3 = "\<lambda>n g. Sotfs_Data.truncate (\<lambda>k. clk (2 + k)) g i n"
  have inv: "graph_inv (write_graph req s)" using g by simp
  obtain r1 g1 where s1: "optional m ?f1 (write_graph req s) = (r1, g1)" "graph_inv g1"
      "r1 = Ok () \<or> (\<exists>e. r1 = Err e \<and> g1 = write_graph req s)"
    using optional_op [of m ?f1, OF chmod_op.graph_op_axioms inv c] by blast
  obtain r2 g2 where s2: "optional (if u \<noteq> None \<or> gi \<noteq> None then Some () else None) ?f2 g1 = (r2, g2)"
      "graph_inv g2" "r2 = Ok () \<or> (\<exists>e. r2 = Err e \<and> g2 = g1)"
    using optional_op [of _ ?f2, OF chown_op.graph_op_axioms s1(2) c] by blast
  have trunc: "graph_op (?f3 n) (\<lambda>_. canonical i) (\<lambda>_ _. True)" if "sz = Some n" for n
    using truncate_op.settles sz [OF that] by unfold_locales simp
  obtain r3 g3 where s3: "optional sz ?f3 g2 = (r3, g3)" "graph_inv g3" "r3 = Ok () \<or> (\<exists>e. r3 = Err e \<and> g3 = g2)"
    using optional_op [of sz ?f3, OF trunc s2(2) c] by blast
  have "attr_or_enoent g3 i \<noteq> CallbackPanic" by (simp add: attr_or_enoent_def split: option.split)
  then show ?thesis
    using s1 s2 s3 h unfolding setattr_steps by (auto intro!: call_okI simp only: prod.case res.case)
qed

text \<open>Calls that do not write the graph.\<close>

lemma read_never_panics:
  assumes g: "graph_inv g" and c: "canonical i"
  shows "read_data g i off (ucast (n :: u32)) \<noteq> Panic \<and> read_data g i off (ucast n) \<noteq> Diverge"
proof (cases "\<exists>x. inode_at g i = Some x \<and> vtype x = Regular")
  case True
  then obtain x where x: "inode_at g i = Some x" "vtype x = Regular" by blast
  have len: "length (data_or_default g i) \<le> VEC_MAX"
    using graph_invD(3) [OF g] by (simp add: data_bounded_def data_or_default_def split: option.split)
  have "unat n < 2 ^ LENGTH(32)" by (rule unsigned_less)
  then have "unat (ucast n :: u64) < 2 ^ 32" by (simp add: unsigned_ucast_eq take_bit_nat_eq_self)
  then have "\<not> (length (data_or_default g i) < unat off \<and> length (data_or_default g i) + unat (ucast n :: u64) \<ge> 2 ^ 64 \<or>
      unat off \<le> length (data_or_default g i) \<and> unat off + unat (ucast n :: u64) \<ge> 2 ^ 64)"
    using len by (auto simp: VEC_MAX_def)
  then show ?thesis
    using read_data_contract [OF graph_invD(1) [OF g] c x len, of off "ucast n"] by simp
next
  case False
  then show ?thesis
    by (cases "inode_at g i") (auto simp: read_data_def inode_at_canonical [OF c])
qed

lemma readers_call:
  assumes g: "graph_inv (fs_graph s)" and h: "handles_ok s"
  shows "call_ok True s (fuse_lookup p n s)" "call_ok True s (fuse_getattr i s)" "call_ok True s (fuse_readdir full i off s)"
    "call_ok True s (fuse_opendir i s)" "call_ok True s (fuse_releasedir s)" "call_ok True s (fuse_readlink i s)"
    "call_ok True s (fuse_statfs s)" "call_ok True s (fuse_access req i am s)" "call_ok True s (fuse_flush s)"
    "call_ok True s (fuse_getxattr i n sz s)" "call_ok True s (fuse_listxattr i sz s)"
    "canonical i \<Longrightarrow> call_ok True s (fuse_read i off sz s)"
proof -
  note same = call_ok_same [OF _ g h]
  show "call_ok True s (fuse_lookup p n s)" "call_ok True s (fuse_getattr i s)" "call_ok True s (fuse_readdir full i off s)"
    "call_ok True s (fuse_opendir i s)" "call_ok True s (fuse_releasedir s)" "call_ok True s (fuse_statfs s)"
    "call_ok True s (fuse_access req i am s)" "call_ok True s (fuse_flush s)"
    by (auto simp: call_ok_failed fuse_lookup_def fuse_getattr_def attr_or_enoent_def fuse_readdir_def fuse_opendir_def
        fuse_releasedir_def fuse_statfs_def fuse_access_def fuse_flush_def Let_def intro!: same split: option.split)
  show "call_ok True s (fuse_readlink i s)"
    by (cases "get_inode (fs_graph s) i"; cases "bmap_get (symlink_targets (fs_graph s)) i")
      (auto simp: call_ok_failed fuse_readlink_def readlink_def intro!: same)
  have sized: "sized_reply b sz \<noteq> CallbackPanic" for b by (simp add: sized_reply_def)
  show "call_ok True s (fuse_getxattr i n sz s)" "call_ok True s (fuse_listxattr i sz s)"
    by (auto simp: call_ok_failed fuse_getxattr_def fuse_listxattr_def getxattr_def listxattr_def sized
        intro!: same split: option.split prod.split)
  show "call_ok True s (fuse_read i off sz s)" if "canonical i"
    using read_never_panics [OF g that, of off sz]
    by (cases "read_data (fs_graph s) i off (ucast sz)") (auto simp: call_ok_failed fuse_read_def intro!: same)
qed

lemma handle_calls:
  assumes g: "graph_inv (fs_graph s)" and h: "handles_ok s"
  shows "next_fh s + 1 < 2 ^ 64 \<Longrightarrow> call_ok True s (fuse_open i s)" and "call_ok True s (fuse_release fh s)"
  using g h new_handle [OF h, of i]
  by (auto simp: call_ok_failed fuse_open_def alloc_fh_def fuse_release_def call_ok_def handles_ok_def split: if_splits)

lemma dispatch_ok:
  assumes g: "graph_inv (fs_graph s)" and h: "handles_ok s" and a: "admissible c s"
  shows "call_ok (\<forall>i m u gi sz. c \<noteq> CSetattr i m u gi sz) s (dispatch clk req c s)"
proof (cases c)
  case (CSetattr i m u gi sz)
  then show ?thesis using a by (auto intro!: setattr_call [OF g h] split: option.splits)
qed (use a in \<open>simp_all add: mkdir_call [OF g h] create_call [OF g h] symlink_call [OF g h] rmdir_call [OF g h]
      unlink_call [OF g h] link_call [OF g h] rename_call [OF g h] write_call [OF g h] setxattr_call [OF g h]
      removexattr_call [OF g h] readers_call [OF g h] handle_calls [OF g h]\<close>)

end
