(* ===== verification/Sotfs_Lifecycle.thy ===== *)
theory Sotfs_Lifecycle
  imports Sotfs_Mount Sotfs_Operations Sotfs_Deception
begin

text \<open>
  The mounted file system as a state machine: the states a mount can reach by callbacks, saving,
  unmounting, crashing and mounting again, and their invariant; then what a caller may rely on.
\<close>

section \<open>The life of a mount\<close>

text \<open>The state right after mounting: an empty handle table over a graph, new or loaded.\<close>

definition mount_state :: "type_graph \<Rightarrow> bool \<Rightarrow> 'db option \<Rightarrow> 'f option \<Rightarrow> ('db, 'f) fuse_fs" where
  "mount_state g quiet db sc =
     \<lparr>fs_graph = (if quiet then g else enable_prov_log g), open_files = [], next_fh = 1,
      backend = db, sidecar = sc\<rparr>"

lemma fuse_new_state: "fuse_new clk quiet sc = mount_state (new_boxed clk) quiet None sc"
  by (simp add: fuse_new_def mount_state_def Let_def)

lemma with_db_state:
  "with_db from_slice fetch clk quiet sc db =
     map_option (\<lambda>l. mount_state (case l of Some g \<Rightarrow> g | None \<Rightarrow> new_boxed clk) quiet (Some db) sc)
       (load from_slice fetch db)"
  by (simp add: with_db_def mount_state_def Let_def split: option.split)

text \<open>
  A mount starts without a backend, or on a database that holds no graph; callbacks run, \<open>fsync\<close> saves,
  and the database is mounted again after \<open>destroy\<close>, or after a crash with what was last saved.
\<close>

inductive mounted ::
    "(graph_image \<Rightarrow> 'b option) \<Rightarrow> ('b \<Rightarrow> graph_image option) \<Rightarrow> ('b \<Rightarrow> 'db \<Rightarrow> 'db option) \<Rightarrow> ('db \<Rightarrow> 'b fetched) \<Rightarrow>
       ('f \<Rightarrow> provenance_entry list \<Rightarrow> 'f) \<Rightarrow> ('db, 'f) fuse_fs \<Rightarrow> bool"
  for to_vec from_slice put fetch app where
  fresh: "mounted to_vec from_slice put fetch app (fuse_new clk quiet sc)"
| opened: "mounted to_vec from_slice put fetch app s"
    if "load from_slice fetch db = Some None" "with_db from_slice fetch clk quiet sc db = Some s"
| call: "mounted to_vec from_slice put fetch app (snd (dispatch clk req c s))"
    if "mounted to_vec from_slice put fetch app s" "admissible c s"
| fsync: "mounted to_vec from_slice put fetch app (snd (fuse_fsync to_vec put app s))"
    if "mounted to_vec from_slice put fetch app s"
| crash: "mounted to_vec from_slice put fetch app s'"
    if "mounted to_vec from_slice put fetch app s" "backend s = Some db"
      "with_db from_slice fetch clk quiet sc db = Some s'"
| remount: "mounted to_vec from_slice put fetch app s'"
    if "mounted to_vec from_slice put fetch app s" "backend (fuse_destroy to_vec put app s) = Some db"
      "with_db from_slice fetch clk quiet sc db = Some s'"

definition stored_ok :: "('b \<Rightarrow> graph_image option) \<Rightarrow> ('db \<Rightarrow> 'b fetched) \<Rightarrow> 'db \<Rightarrow> bool" where
  "stored_ok from_slice fetch db \<longleftrightarrow> (\<forall>g. load from_slice fetch db = Some (Some g) \<longrightarrow> graph_inv g)"

definition mount_inv :: "('b \<Rightarrow> graph_image option) \<Rightarrow> ('db \<Rightarrow> 'b fetched) \<Rightarrow> ('db, 'f) fuse_fs \<Rightarrow> bool" where
  "mount_inv from_slice fetch s \<longleftrightarrow>
     graph_inv (fs_graph s) \<and> handles_ok s \<and> (\<forall>db. backend s = Some db \<longrightarrow> stored_ok from_slice fetch db)"

lemma new_boxed_inv: "graph_inv (new_boxed clk)"
  using new_boxed_well_formed [of clk]
  by (simp add: graph_inv_def other_arenas_ok_def data_bounded_def new_boxed_def empty_graph_def Let_def
      ar_new_def ar_inv_def)

lemma mount_state_inv:
  assumes "graph_inv g" "\<And>db'. db = Some db' \<Longrightarrow> stored_ok from_slice fetch db'"
  shows "mount_inv from_slice fetch (mount_state g quiet db sc)"
  using assms by (simp add: mount_inv_def mount_state_def enable_prov_log_def handles_ok_def)

lemma with_db_inv:
  assumes "stored_ok from_slice fetch db" "with_db from_slice fetch clk quiet sc db = Some s"
  shows "mount_inv from_slice fetch s"
  using assms
  by (auto simp: with_db_state stored_ok_def new_boxed_inv intro!: mount_state_inv split: option.split)

text \<open>What the codec and the database promise.\<close>

definition storage_laws ::
    "(graph_image \<Rightarrow> 'b option) \<Rightarrow> ('b \<Rightarrow> graph_image option) \<Rightarrow> ('b \<Rightarrow> 'db \<Rightarrow> 'db option) \<Rightarrow> ('db \<Rightarrow> 'b fetched) \<Rightarrow> bool"
  where
  "storage_laws to_vec from_slice put fetch \<longleftrightarrow>
     (\<forall>im b. to_vec im = Some b \<longrightarrow> from_slice b = Some im) \<and>
     (\<forall>b db db'. put b db = Some db' \<longrightarrow> fetch db' = Fetched b)"

lemma reloaded_inv: "graph_inv g \<Longrightarrow> graph_inv (reloaded g)"
  using reloaded_view(1) [of g]
  by (simp add: graph_inv_def other_arenas_ok_def data_bounded_def) (simp add: reloaded_def)

lemma load_saved:
  assumes "storage_laws to_vec from_slice put fetch" "graph_inv g" "save to_vec put g db = Some db'"
  shows "load from_slice fetch db' = Some (Some (reloaded g))"
  using assms image_roundtrip [OF graph_invD(1,2) [OF assms(2)]]
  by (auto simp: storage_laws_def save_def load_def split: option.splits)

lemma saved_ok:
  assumes "storage_laws to_vec from_slice put fetch" "mount_inv from_slice fetch s"
  shows "mount_inv from_slice fetch (persist to_vec put s)"
  using assms load_saved [OF assms(1), of "fs_graph s"] reloaded_inv [of "fs_graph s"]
  by (auto simp: persist_def mount_inv_def handles_ok_def stored_ok_def split: option.split)

lemma prov_log_saved: "mount_inv from_slice fetch s \<Longrightarrow> mount_inv from_slice fetch (persist_prov_log app s)"
  by (auto simp: persist_prov_log_def mount_inv_def handles_ok_def split: option.split prod.split)

lemma mounted_inv:
  assumes laws: "storage_laws to_vec from_slice put fetch" and m: "mounted to_vec from_slice put fetch app s"
  shows "mount_inv from_slice fetch s"
  using m
proof (induction rule: mounted.induct)
  case (fresh clk quiet sc)
  show ?case unfolding fuse_new_state by (rule mount_state_inv) (simp_all add: new_boxed_inv)
next
  case (opened db clk quiet sc s)
  then show ?case by (intro with_db_inv [OF _ opened(2)]) (simp add: stored_ok_def)
next
  case (call s c clk req)
  then have "call_ok (\<forall>i m u gi sz. c \<noteq> CSetattr i m u gi sz) s (dispatch clk req c s)" by (intro dispatch_ok) (simp_all add: mount_inv_def)
  then show ?case using call(3) by (auto simp: mount_inv_def call_ok_def split: prod.splits)
next
  case (fsync s)
  then show ?case by (simp add: fuse_fsync_def prov_log_saved saved_ok [OF laws])
next
  case (crash s db clk quiet sc s')
  then show ?case by (intro with_db_inv [OF _ crash(3)]) (simp add: mount_inv_def)
next
  case (remount s db clk quiet sc s')
  have "mount_inv from_slice fetch (fuse_destroy to_vec put app s)"
    using remount(4) by (simp add: fuse_destroy_def prov_log_saved saved_ok [OF laws])
  then show ?case using remount(2) by (intro with_db_inv [OF _ remount(3)]) (simp add: mount_inv_def)
qed

section \<open>Reading a directory page by page\<close>

text \<open>The caller goes on from the offset of the last entry it got, until a page is empty.\<close>

fun dir_pages ::
    "(dir_entry_reply list \<Rightarrow> dir_entry_reply \<Rightarrow> bool) \<Rightarrow> inode_id \<Rightarrow> nat \<Rightarrow> u64 \<Rightarrow> ('db, 'f) fuse_fs \<Rightarrow>
       dir_entry_reply list" where
  "dir_pages full i 0 off s = []"
| "dir_pages full i (Suc k) off s =
     (case fst (fuse_readdir full i off s) of
        ReplyDirectory es \<Rightarrow>
          if es = [] then [] else es @ dir_pages full i k (word_of_nat (fst (snd (last es)))) s
      | _ \<Rightarrow> [])"

definition page_entry :: "type_graph \<Rightarrow> nat \<times> string \<times> inode_id \<Rightarrow> dir_entry_reply" where
  "page_entry g p = (snd (snd p), fst p + 1, entry_kind g (snd (snd p)), fst (snd p))"

lemma page_entry_pair: "page_entry g (i, n, t) = (t, i + 1, entry_kind g t, n)"
  by (simp add: page_entry_def)

lemma readdir_loop_prefix:
  "\<exists>k \<le> length es. readdir_loop full g i es buf = buf @ map (page_entry g) (enumerate i (take k es)) \<and>
     (es \<noteq> [] \<longrightarrow> \<not> full buf (page_entry g (i, hd es)) \<longrightarrow> 0 < k)"
proof (induction full g i es buf rule: readdir_loop.induct)
  case (2 full g i name ino es buf)
  let ?e = "(ino, i + 1, entry_kind g ino, name)"
  show ?case
  proof (cases "full buf ?e")
    case False
    then obtain k where "k \<le> length es"
        "readdir_loop full g (i + 1) es (buf @ [?e]) =
           (buf @ [?e]) @ map (page_entry g) (enumerate (i + 1) (take k es))"
      using 2 by auto
    then show ?thesis using False by (intro exI [of _ "Suc k"]) (simp add: page_entry_pair, simp flip: Suc_eq_plus1)
  qed (auto simp: page_entry_pair)
qed simp

lemma last_page_entry:
  assumes "0 < k" "k \<le> length es"
  shows "fst (snd (last (map (page_entry g) (enumerate i (take k es))))) = i + k"
proof -
  let ?xs = "enumerate i (take k es)"
  have "?xs \<noteq> []" using assms by (cases k; cases es) simp_all
  then have "last (map (page_entry g) ?xs) = page_entry g (?xs ! (length ?xs - 1))"
    by (metis last_map last_conv_nth)
  then show ?thesis using assms by (simp add: page_entry_def nth_enumerate_eq min_def)
qed

lemma dir_pages_from:
  assumes d: "dir_for_inode (fs_graph s) i = Some d" and room: "\<And>e. \<not> full [] e"
    and len: "length (list_dir (fs_graph s) d) < 2 ^ 64"
  shows "k \<le> length (list_dir (fs_graph s) d) \<Longrightarrow> length (list_dir (fs_graph s) d) - k < n \<Longrightarrow>
     dir_pages full i n (word_of_nat k) s =
       map (page_entry (fs_graph s)) (enumerate k (drop k (list_dir (fs_graph s) d)))"
proof (induction n arbitrary: k)
  case (Suc n)
  let ?L = "list_dir (fs_graph s) d" and ?g = "fs_graph s"
  have k: "unat (word_of_nat k :: u64) = k" using Suc.prems(1) len by (simp add: unsigned_of_nat take_bit_nat_eq_self)
  obtain m where m: "m \<le> length (drop k ?L)"
      "readdir_loop full ?g k (drop k ?L) [] = map (page_entry ?g) (enumerate k (take m (drop k ?L)))"
      "drop k ?L \<noteq> [] \<longrightarrow> 0 < m"
    using readdir_loop_prefix [of "drop k ?L" full ?g k "[]"] room by auto
  let ?es = "map (page_entry ?g) (enumerate k (take m (drop k ?L)))"
  have page: "fst (fuse_readdir full i (word_of_nat k) s) = ReplyDirectory ?es"
    by (simp add: fuse_readdir_def Let_def d k m(2))
  show ?case
  proof (cases "drop k ?L = []")
    case False
    then have pos: "0 < m" using m(3) by blast
    then have ne: "?es \<noteq> []" using False by (cases m; cases "drop k ?L") simp_all
    have "dir_pages full i n (word_of_nat (k + m)) s =
        map (page_entry ?g) (enumerate (k + m) (drop (k + m) ?L))"
      by (rule Suc.IH) (use Suc.prems m(1) pos False in auto)
    moreover have "length (take m (drop k ?L)) = m" using m(1) by simp
    then have "enumerate k (drop k ?L) = enumerate k (take m (drop k ?L)) @ enumerate (k + m) (drop (k + m) ?L)"
      by (metis append_take_drop_id drop_drop add.commute enumerate_append_eq)
    ultimately show ?thesis
      using ne last_page_entry [OF pos m(1), of ?g k] by (simp add: page)
  qed (simp add: page)
qed simp

section \<open>Attributes set in steps\<close>

lemma require_cap_request [simp]: "require_cap (write_graph req s) r = Ok ()"
  by (simp add: require_cap_def set_cap_ctx_def ctx_from_req_def cap_context_new_def)

lemma setattr_not_file:
  assumes g: "graph_inv (fs_graph s)" and c: "canonical i"
    and x: "fs_inode (fs_of (fs_graph s)) i = Some x" "vtype x \<noteq> Regular"
  shows "\<exists>g'. fuse_setattr clk req i (Some m) None None (Some n) s = (ReplyError ENOENT, s\<lparr>fs_graph := g'\<rparr>) \<and>
    fs_of g' = (fs_of (fs_graph s))\<lparr>fs_inode := (fs_inode (fs_of (fs_graph s)))(i \<mapsto> x\<lparr>permissions := mode_bits m\<rparr>)\<rparr>"
proof -
  let ?g = "write_graph req s"
  have wf: "well_formed ?g" using graph_invD(1) [OF g] by simp
  obtain r g' where run: "chmod clk ?g i (mode_bits m) = (r, g')" by (cases "chmod clk ?g i (mode_bits m)")
  have g': "r = Ok ()" "well_formed g'"
    "fs_of g' = (fs_of ?g)\<lparr>fs_inode := (fs_inode (fs_of ?g))(i \<mapsto> x\<lparr>permissions := mode_bits m\<rparr>)\<rparr>"
    using chmod_contract [OF wf c, of "mode_bits m" clk] x(1)
    by (cases r; simp add: attr_change_def run del: fs_of_simps)+
  have "inode_at g' i = Some (x\<lparr>permissions := mode_bits m\<rparr>)" using arg_cong [OF g'(3), of fs_inode] by (simp add: fs_of_def)
  then have "\<exists>e. Sotfs_Data.truncate (\<lambda>k. clk (2 + k)) g' i n = (Err e, g')"
    using x(2) inode_at_canonical [OF c, of g']
    by (cases rule: require_cap_cases [of g' WRITE]) (auto simp: Sotfs_Data.truncate_def)
  then show ?thesis using g' run by (auto simp: fuse_setattr_def Let_def simp del: fs_of_simps)
qed

section \<open>A small mount\<close>

lemma distinct_singleton: "set xs = {x} \<Longrightarrow> distinct xs \<Longrightarrow> xs = [x]"
  by (cases xs; cases "tl xs") auto

text \<open>
  A database with one cell, a codec that keeps the image as it is, and a mount of the empty database on
  which one directory was made.
\<close>

definition cell_fetch :: "graph_image option \<Rightarrow> graph_image fetched" where
  "cell_fetch db = (case db of None \<Rightarrow> NoTable | Some b \<Rightarrow> Fetched b)"

abbreviation cell_put :: "graph_image \<Rightarrow> graph_image option \<Rightarrow> graph_image option option" where
  "cell_put b db \<equiv> Some (Some b)"

abbreviation no_log :: "unit \<Rightarrow> provenance_entry list \<Rightarrow> unit" where
  "no_log f es \<equiv> f"

lemma cell_laws: "storage_laws Some Some cell_put cell_fetch"
  by (simp add: storage_laws_def cell_fetch_def)

definition empty_mount :: "(graph_image option, unit) fuse_fs" where
  "empty_mount = mount_state root_graph True (Some None) None"

definition small_mount :: "(graph_image option, unit) fuse_fs" where
  "small_mount = snd (dispatch (\<lambda>_. 0) \<lparr>req_uid = 0, req_gid = 0\<rparr> (CMkdir 1 (Some ''d'') 493) empty_mount)"

lemma empty_mounted: "mounted Some Some cell_put cell_fetch no_log empty_mount"
  by (rule opened [where db = None and clk = "\<lambda>_. 0" and quiet = True and sc = None])
    (simp_all add: load_def cell_fetch_def with_db_state empty_mount_def root_graph_def)

lemma small_mounted: "mounted Some Some cell_put cell_fetch no_log small_mount"
  unfolding small_mount_def
  by (rule call [OF empty_mounted]) (simp add: room_def empty_mount_def mount_state_def root_graph_facts room)

lemma empty_mount_dir: "dir_for_inode (fs_graph empty_mount) i = (if i = 1 then Some 1 else None)"
proof -
  have "dir_for_inode root_graph 1 = Some 1"
    using dir_for_inode_iff [OF well_formedD(4) [OF root_graph_ok]] root_graph_facts(6) by blast
  moreover have "dir_for_inode root_graph i = None" if "i \<noteq> 1"
    using that by (simp add: root_graph_def new_boxed_def dir_for_inode_def empty_graph_def Let_def)
  ultimately show ?thesis by (simp add: empty_mount_def mount_state_def)
qed

section \<open>Properties\<close>

text \<open>
  C1: in every state a mount reaches, through any sequence of admissible callbacks, \<open>fsync\<close>s, crashes
  and remounts, the graph is well-formed, all open handles are below the next one, and no admissible
  callback panics.  The codec must decode what it encoded and the database return what was committed.
\<close>

theorem mount_safe:
  assumes laws: "storage_laws to_vec from_slice put fetch" and m: "mounted to_vec from_slice put fetch app s"
    and c: "admissible c s"
  shows "graph_inv (fs_graph s) \<and> handles_ok s \<and> fst (dispatch clk req c s) \<noteq> CallbackPanic"
  using mounted_inv [OF laws m] dispatch_ok [of s c clk req] c
  by (auto simp: mount_inv_def call_ok_def split: prod.splits)

theorem mount_safe_witness:
  "graph_inv (fs_graph small_mount) \<and>
   fst (dispatch (\<lambda>_. 0) \<lparr>req_uid = 0, req_gid = 0\<rparr> (CRename 1 (Some ''d'') 1 (Some ''e'')) empty_mount) \<noteq> CallbackPanic"
  using mount_safe [OF cell_laws small_mounted, of CFlush]
    mount_safe [OF cell_laws empty_mounted, of "CRename 1 (Some ''d'') 1 (Some ''e'')" "\<lambda>_. 0" "\<lparr>req_uid = 0, req_gid = 0\<rparr>"]
  by (simp add: room_def empty_mount_def mount_state_def root_graph_facts room)

lemma prov_log_view [simp]:
  "fs_of (enable_prov_log g) = fs_of g" "well_formed (enable_prov_log g) = well_formed g"
  "file_data (enable_prov_log g) = file_data g" "inode_xattrs (enable_prov_log g) = inode_xattrs g"
  "xattrs (enable_prov_log g) = xattrs g" "acls (enable_prov_log g) = acls g"
  "quotas (enable_prov_log g) = quotas g" "symlink_targets (enable_prov_log g) = symlink_targets g"
  by (simp_all add: enable_prov_log_def fs_of_def fun_eq_iff)

lemma reloaded_rest:
  "inode_xattrs (reloaded g) = inode_xattrs g" "xattrs (reloaded g) = xattrs g"
  "acls (reloaded g) = acls g" "symlink_targets (reloaded g) = symlink_targets g"
  by (simp_all add: reloaded_def)

text \<open>
  C2: what \<open>fsync\<close> saved survives: mounting the database again, after a crash or an unmount, gives the same
  file system with the same contents, attributes, ACLs, quotas and symlink targets.
\<close>

theorem fsync_durable:
  assumes laws: "storage_laws to_vec from_slice put fetch" and m: "mounted to_vec from_slice put fetch app s"
    and db: "backend s = Some db" "save to_vec put (fs_graph s) db = Some db'"
  shows "backend (snd (fuse_fsync to_vec put app s)) = Some db' \<and>
    (\<exists>s'. with_db from_slice fetch clk quiet sc db' = Some s' \<and> well_formed (fs_graph s') \<and>
       fs_of (fs_graph s') = fs_of (fs_graph s) \<and> file_data (fs_graph s') = file_data (fs_graph s) \<and>
       inode_xattrs (fs_graph s') = inode_xattrs (fs_graph s) \<and> xattrs (fs_graph s') = xattrs (fs_graph s) \<and>
       acls (fs_graph s') = acls (fs_graph s) \<and> quotas (fs_graph s') = quotas (fs_graph s) \<and>
       symlink_targets (fs_graph s') = symlink_targets (fs_graph s))"
proof -
  have inv: "graph_inv (fs_graph s)" using mounted_inv [OF laws m] by (simp add: mount_inv_def)
  have "backend (snd (fuse_fsync to_vec put app s)) = Some db'"
    using db by (simp add: fuse_fsync_def persist_def persist_prov_log_def split: option.split prod.split)
  then show ?thesis
    using reloaded_view [OF graph_invD(1) [OF inv]]
    by (simp add: with_db_state load_saved [OF laws inv db(2)] mount_state_def reloaded_rest del: fs_of_simps)
qed

theorem fsync_durable_witness:
  "\<exists>s'. with_db Some cell_fetch (\<lambda>_. 0) True (None :: unit option) (Some (image_of (fs_graph small_mount))) = Some s' \<and>
     fs_of (fs_graph s') = fs_of (fs_graph small_mount)"
proof -
  obtain db where "backend small_mount = Some db"
    using dispatch_ok [of empty_mount "CMkdir 1 (Some ''d'') 493" "\<lambda>_. 0" "\<lparr>req_uid = 0, req_gid = 0\<rparr>"]
      mounted_inv [OF cell_laws empty_mounted]
    by (auto simp: small_mount_def mount_inv_def call_ok_def room_def empty_mount_def mount_state_def
        root_graph_facts room split: prod.splits)
  from fsync_durable [OF cell_laws small_mounted this, of _ "\<lambda>_. 0" True None]
  show ?thesis by (auto simp: save_def)
qed

lemma fs_of_ctx: "fs_of (g\<lparr>cap_ctx := c\<rparr>) = fs_of g"
  by (simp add: fs_of_def fun_eq_iff)

text \<open>
  C3: a callback other than \<open>setattr\<close> that replies with an error has no effect: handles, data and graph are as
  before, apart from the capability context, which the next callback sets again.
\<close>

theorem failed_call_untouched:
  assumes laws: "storage_laws to_vec from_slice put fetch" and m: "mounted to_vec from_slice put fetch app s"
    and c: "admissible c s" "\<nexists>i mode u gi sz. c = CSetattr i mode u gi sz"
    and e: "dispatch clk req c s = (ReplyError e, s')"
  shows "s' = s\<lparr>fs_graph := (fs_graph s)\<lparr>cap_ctx := cap_ctx (fs_graph s')\<rparr>\<rparr>"
  using mounted_inv [OF laws m] dispatch_ok [of s c clk req] c e
  by (simp add: mount_inv_def call_ok_def untouched_def set_cap_ctx_def)

theorem failed_call_untouched_witness:
  "fs_of (fs_graph (snd (dispatch (\<lambda>_. 0) \<lparr>req_uid = 0, req_gid = 0\<rparr> (CUnlink 7 (Some ''a'')) empty_mount))) =
     fs_of root_graph"
proof -
  let ?r = "dispatch (\<lambda>_. 0) \<lparr>req_uid = 0, req_gid = 0\<rparr> (CUnlink 7 (Some ''a'')) empty_mount"
  have "dir_for_inode (write_graph \<lparr>req_uid = 0, req_gid = 0\<rparr> empty_mount) 7 = None"
    by (simp add: empty_mount_dir)
  then have e: "?r = (ReplyError ENOTDIR, snd ?r)" by (simp add: fuse_unlink_def Let_def)
  have "fs_graph (snd ?r) = (fs_graph empty_mount)\<lparr>cap_ctx := cap_ctx (fs_graph (snd ?r))\<rparr>"
    using arg_cong [OF failed_call_untouched [OF cell_laws empty_mounted _ _ e], of fs_graph] by simp
  then have "fs_of (fs_graph (snd ?r)) = fs_of ((fs_graph empty_mount)\<lparr>cap_ctx := cap_ctx (fs_graph (snd ?r))\<rparr>)"
    by (rule arg_cong)
  then show ?thesis by (simp only: fs_of_ctx) (simp add: empty_mount_def mount_state_def)
qed

text \<open>
  \<open>setattr\<close> is not atomic: asked to set the mode and the size of something that is not a regular file, it
  replies \<open>ENOENT\<close>, although the inode exists, and has changed the mode.
\<close>

theorem setattr_not_atomic:
  assumes "graph_inv (fs_graph s)" "canonical i" "fs_inode (fs_of (fs_graph s)) i = Some x" "vtype x \<noteq> Regular"
  shows "\<exists>g'. fuse_setattr clk req i (Some m) None None (Some n) s = (ReplyError ENOENT, s\<lparr>fs_graph := g'\<rparr>) \<and>
    fs_of g' = (fs_of (fs_graph s))\<lparr>fs_inode := (fs_inode (fs_of (fs_graph s)))(i \<mapsto> x\<lparr>permissions := mode_bits m\<rparr>)\<rparr>"
  by (rule setattr_not_file [OF assms])

theorem setattr_not_atomic_witness:
  "\<exists>g' x. fuse_setattr (\<lambda>_. 0) \<lparr>req_uid = 0, req_gid = 0\<rparr> 1 (Some 0) None None (Some 0) empty_mount =
     (ReplyError ENOENT, empty_mount\<lparr>fs_graph := g'\<rparr>) \<and> fs_inode (fs_of g') 1 = Some x \<and> permissions x = 0"
proof -
  have root: "\<exists>x. fs_inode (fs_of (fs_graph empty_mount)) 1 = Some x \<and> vtype x \<noteq> Regular"
    using new_boxed_view [of "\<lambda>_. 0"]
    by (simp add: empty_mount_def mount_state_def root_graph_def new_dir_def del: fs_of_simps)
  then obtain x where "fs_inode (fs_of (fs_graph empty_mount)) 1 = Some x" "vtype x \<noteq> Regular" by blast
  from setattr_not_atomic [OF _ small_canonical(1) this, of "\<lambda>_. 0" "\<lparr>req_uid = 0, req_gid = 0\<rparr>" 0 0]
  show ?thesis
    using mounted_inv [OF cell_laws empty_mounted]
    by (auto simp: mount_inv_def mode_bits_def simp del: fs_of_simps)
qed

text \<open>
  C38: reading a directory page by page, however small the pages, gives every entry once and in the order of
  \<open>list_dir\<close>, when the buffer holds at least one entry and nothing changes in between.
\<close>

theorem readdir_complete:
  assumes "dir_for_inode (fs_graph s) i = Some d" "\<And>e. \<not> full [] e"
    and "length (list_dir (fs_graph s) d) < 2 ^ 64"
  shows "map (\<lambda>(ino, _, _, name). (name, ino))
      (dir_pages full i (Suc (length (list_dir (fs_graph s) d))) 0 s) = list_dir (fs_graph s) d"
proof -
  have pair: "(case page_entry (fs_graph s) p of (ino, _, _, name) \<Rightarrow> (name, ino)) = snd p" for p
    by (simp add: page_entry_def)
  show ?thesis
    using dir_pages_from [where full = full and k = 0 and n = "Suc (length (list_dir (fs_graph s) d))", OF assms]
    by (simp add: comp_def pair del: dir_pages.simps)
qed

theorem readdir_complete_witness:
  "map (\<lambda>(ino, _, _, name). (name, ino)) (dir_pages (\<lambda>buf _. buf \<noteq> []) 1 (Suc 1) 0 empty_mount) = [(''.'', 1)]"
proof -
  have d: "dir_for_inode (fs_graph empty_mount) 1 = Some 1" by (simp add: empty_mount_dir)
  have l: "list_dir (fs_graph empty_mount) 1 = [(''.'', 1)]"
  proof -
    have ok: "edges_ok root_graph" by (rule well_formedD(3) [OF root_graph_ok])
    have "names_of root_graph = [(1, ''.'') \<mapsto> 1]" using root_graph_facts(9) by simp
    then have s: "set (list_dir root_graph 1) = {(''.'', 1)}"
      by (auto simp: list_dir_names(1) [OF ok] split: if_splits)
    then have "list_dir root_graph 1 = [(''.'', 1)]"
      by (rule distinct_singleton) (use list_dir_names(2) [OF ok, of 1] in \<open>simp add: distinct_map\<close>)
    then show ?thesis by (simp add: empty_mount_def mount_state_def)
  qed
  show ?thesis
    using readdir_complete [where full = "\<lambda>buf _. buf \<noteq> []" and d = 1 and i = 1 and s = empty_mount] d
    by (simp add: l del: dir_pages.simps flip: numeral_2_eq_2)
qed

end
