(* ===== verification/Sotfs_Checks.thy ===== *)
theory Sotfs_Checks
  imports Sotfs_Fsck Sotfs_Shape
begin

text \<open>
  What the directory searches and the two checkers decide, stated over the stored data alone: edges by
  their constructors, nodes by looking their numbers up, entries by the lists of their directories.
  Nothing here speaks of the helpers the checkers are written with, and nothing is assumed of the graph
  but that its containers are containers: the arenas have their representation invariant and the ordered
  maps and sets are ordered and free of duplicates.
\<close>

section \<open>The stored data\<close>

text \<open>The entry \<open>n\<close> in the list of the directory \<open>d\<close>: the edge \<open>e\<close>, which leads to the inode \<open>t\<close>.\<close>

definition listed :: "type_graph \<Rightarrow> dir_id \<Rightarrow> edge_id \<Rightarrow> string \<Rightarrow> inode_id \<Rightarrow> bool" where
  "listed g d e n t \<longleftrightarrow> e \<in> set (mi_get (dir_contains g) d) \<and> (\<exists>k s. get_edge g e = Some (Contains k s t n))"

text \<open>An edge \<open>e\<close> with the name \<open>n\<close> in the list of the edges that lead to the inode \<open>i\<close>.\<close>

definition incoming :: "type_graph \<Rightarrow> inode_id \<Rightarrow> edge_id \<Rightarrow> string \<Rightarrow> bool" where
  "incoming g i e n \<longleftrightarrow>
     e \<in> set (mi_get (inode_incoming_contains g) i) \<and> (\<exists>k s t. get_edge g e = Some (Contains k s t n))"

text \<open>A subdirectory: an entry other than \<open>.\<close> and \<open>..\<close> leads to a stored directory inode with a directory node.\<close>

definition subdir :: "type_graph \<Rightarrow> (dir_id \<times> dir_id) set" where
  "subdir g = {(p, c). \<exists>e n t x. listed g p e n t \<and> n \<noteq> ''.'' \<and> n \<noteq> ''..'' \<and>
     get_inode g t = Some x \<and> vtype x = Directory \<and> dir_for_inode g t = Some c}"

text \<open>The ends of an edge as \<open>types.rs\<close> documents them.\<close>

definition ends_stored :: "type_graph \<Rightarrow> edge \<Rightarrow> bool" where
  "ends_stored g e =
     (case e of
        Contains _ d i _ \<Rightarrow> get_dir g d \<noteq> None \<and> get_inode g i \<noteq> None
      | Grants _ c i _ \<Rightarrow> get_cap g c \<noteq> None \<and> get_inode g i \<noteq> None
      | Delegates _ c c' \<Rightarrow> get_cap g c \<noteq> None \<and> get_cap g c' \<noteq> None
      | DerivedFrom _ v v' \<Rightarrow>
          ar_get (versions g) (id_to_arena v) \<noteq> None \<and> ar_get (versions g) (id_to_arena v') \<noteq> None
      | Supersedes _ i i' \<Rightarrow> get_inode g i \<noteq> None \<and> get_inode g i' \<noteq> None
      | PointsTo _ i b _ \<Rightarrow> get_inode g i \<noteq> None \<and> get_block g b \<noteq> None
      | HasXattr _ i x \<Rightarrow> get_inode g i \<noteq> None \<and> bmap_get (xattrs g) x \<noteq> None)"

text \<open>The ends \<open>check_invariants\<close> looks up: the number of a block is looked up among the inodes.\<close>

definition ends_checked :: "type_graph \<Rightarrow> edge \<Rightarrow> bool" where
  "ends_checked g e =
     (case e of
        PointsTo _ i b _ \<Rightarrow> get_inode g i \<noteq> None \<and> get_inode g b \<noteq> None
      | _ \<Rightarrow> ends_stored g e)"

definition extents_of :: "type_graph \<Rightarrow> block_id \<Rightarrow> edge_id set" where
  "extents_of g b = {e. \<exists>k i off. edge_at g e = Some (PointsTo k i b off)}"

section \<open>The helpers of the searches and checks\<close>

lemma child_dir_iff:
  "child_dir_of g e = Some c \<longleftrightarrow>
     (\<exists>k s t n x. get_edge g e = Some (Contains k s t n) \<and> n \<noteq> ''.'' \<and> n \<noteq> ''..'' \<and>
        get_inode g t = Some x \<and> vtype x = Directory \<and> dir_for_inode g t = Some c)"
proof (cases "get_edge g e")
  case (Some x)
  then show ?thesis by (cases x) (auto simp: child_dir_of_def split: option.split)
qed (simp add: child_dir_of_def)

lemma child_rel_subdir: "child_rel g = subdir g"
  unfolding child_rel_def subdir_def listed_def child_dir_iff by blast

lemma counts_as_link_iff: "counts_as_link g e \<longleftrightarrow> (\<exists>k s t n. get_edge g e = Some (Contains k s t n) \<and> n \<noteq> ''..'')"
  by (auto simp: counts_as_link_def split: option.split edge.split)

lemma user_named_iff:
  "user_named g e \<longleftrightarrow> (\<exists>k s t n. get_edge g e = Some (Contains k s t n) \<and> n \<noteq> ''.'' \<and> n \<noteq> ''..'')"
  by (auto simp: user_named_def split: option.split edge.split)

lemma stored_iff:
  assumes "containers_ok g"
  shows "contains_inode g i \<longleftrightarrow> get_inode g i \<noteq> None" "contains_dir g d \<longleftrightarrow> get_dir g d \<noteq> None"
    "contains_cap g c \<longleftrightarrow> get_cap g c \<noteq> None" "contains_block g b \<longleftrightarrow> get_block g b \<noteq> None"
    "contains_version g v \<longleftrightarrow> ar_get (versions g) (id_to_arena v) \<noteq> None"
  using containers_okD [OF assms]
  by (simp_all add: contains_inode_def contains_dir_def contains_cap_def contains_block_def contains_version_def
      get_inode_def get_dir_def get_cap_def get_block_def ar_contains_get del: not_None_eq)

lemma ends_checked_nodes:
  "containers_ok g \<Longrightarrow> node_exists g (src_node e) \<and> node_exists g (tgt_node e) \<longleftrightarrow> ends_checked g e"
  by (cases e) (simp_all add: ends_checked_def ends_stored_def stored_iff del: not_None_eq)

lemma filter_card: "distinct xs \<Longrightarrow> length (filter P xs) = card {x \<in> set xs. P x}"
  by (metis distinct_card distinct_filter set_filter)

lemma links_card:
  assumes "containers_ok g"
  shows "length (filter (counts_as_link g) (mi_get (inode_incoming_contains g) i)) =
         card {e. \<exists>n. incoming g i e n \<and> n \<noteq> ''..''}"
    and "length (filter (user_named g) (mi_get (inode_incoming_contains g) i)) =
         card {e. \<exists>n. incoming g i e n \<and> n \<noteq> ''.'' \<and> n \<noteq> ''..''}"
  using mi_ok_distinct [OF containers_okD(9) [OF assms], of i]
  by (simp_all add: filter_card counts_as_link_iff user_named_iff incoming_def conj_ac cong: conj_cong)
     (intro arg_cong [where f = card] Collect_cong; blast)+

lemma points_to_iff: "points_to_block b e \<longleftrightarrow> (\<exists>k i off. e = PointsTo k i b off)"
  by (cases e) (auto simp: points_to_block_def)

lemma refs_card:
  assumes "containers_ok g"
  shows "length (filter (points_to_block b) (ar_values (edges g))) = card (extents_of g b)"
proof -
  have "{e. \<exists>x. edge_at g e = Some x \<and> points_to_block b x} = extents_of g b"
    by (auto simp: extents_of_def points_to_iff)
  then show ?thesis
    using ar.count_entries [OF containers_okD(7) [OF assms], of "\<lambda>_. points_to_block b"]
    by (simp add: ar_values_def filter_map o_def)
qed

lemma subset_bits: "is_subset_of r s \<longleftrightarrow> (\<forall>k. bit r k \<longrightarrow> bit s k)" for r s :: rights
  unfolding is_subset_of_def bit_eq_iff bit_and_iff by (metis bit_imp_possible_bit)

section \<open>The name index and the names of a directory\<close>

lemma names_loop_iff:
  "distinct es \<Longrightarrow>
     unique_names_loop g d es names = Ok () \<longleftrightarrow>
       (\<forall>e \<in> set es. \<forall>k s t n. get_edge g e = Some (Contains k s t n) \<longrightarrow> n \<notin> set names \<and>
          (\<forall>f \<in> set es. \<forall>l v u. get_edge g f = Some (Contains l v u n) \<longrightarrow> e = f))"
proof (induction es arbitrary: names)
  case (Cons e es)
  note IH = Cons.IH [OF distinct_tl [OF Cons.prems, simplified]]
  show ?case
  proof (cases "\<exists>k s t n. get_edge g e = Some (Contains k s t n)")
    case True
    then obtain k s t n where e: "get_edge g e = Some (Contains k s t n)" by blast
    have "e \<notin> set es" using Cons.prems by simp
    then show ?thesis using e by (simp add: IH) blast
  next
    case False
    then have "unique_names_loop g d (e # es) names = unique_names_loop g d es names"
      by (auto split: option.split edge.split)
    then show ?thesis using False by (simp add: IH)
  qed
qed simp

lemma fsck_names_iff:
  "distinct es \<Longrightarrow>
     fsck_names g d es names = [] \<longleftrightarrow>
       (\<forall>e \<in> set es. \<forall>k s t n. get_edge g e = Some (Contains k s t n) \<longrightarrow> n \<notin> set names \<and>
          (\<forall>f \<in> set es. \<forall>l v u. get_edge g f = Some (Contains l v u n) \<longrightarrow> e = f))"
proof (induction es arbitrary: names)
  case (Cons e es)
  note IH = Cons.IH [OF distinct_tl [OF Cons.prems, simplified]]
  show ?case
  proof (cases "\<exists>k s t n. get_edge g e = Some (Contains k s t n)")
    case True
    then obtain k s t n where e: "get_edge g e = Some (Contains k s t n)" by blast
    have "e \<notin> set es" using Cons.prems by simp
    then show ?thesis using e by (simp add: IH) blast
  next
    case False
    then have "fsck_names g d (e # es) names = fsck_names g d es names"
      by (auto split: option.split edge.split)
    then show ?thesis using False by (simp add: IH)
  qed
qed simp

lemma every_list:
  assumes "mi_ok (dir_contains g)"
  shows "(\<forall>(d, es) \<in> set (dir_contains g). es = mi_get (dir_contains g) d \<and> distinct es)"
    and "es = mi_get (dir_contains g) d \<Longrightarrow> es \<noteq> [] \<Longrightarrow> (d, es) \<in> set (dir_contains g)"
  using assms mi_ok_distinct [OF assms]
  by (auto simp: mi_get_def mi_ok_def bmap_in_set_iff split: option.splits)
     (metis option.simps(5))?

lemma all_lists:
  assumes "mi_ok (dir_contains g)" and "\<And>d. P d []"
  shows "(\<forall>(d, es) \<in> set (dir_contains g). P d es) \<longleftrightarrow> (\<forall>d. P d (mi_get (dir_contains g) d))"
  using every_list [OF assms(1)] assms(2) by (metis (mono_tags, lifting) case_prodD case_prodI2)

definition names_unique :: "type_graph \<Rightarrow> bool" where
  "names_unique g \<longleftrightarrow> (\<forall>d e f n t u. listed g d e n t \<longrightarrow> listed g d f n u \<longrightarrow> e = f)"

lemma names_unique_lists:
  "names_unique g \<longleftrightarrow> (\<forall>d. \<forall>e \<in> set (mi_get (dir_contains g) d). \<forall>k s t n. get_edge g e = Some (Contains k s t n) \<longrightarrow>
     (\<forall>f \<in> set (mi_get (dir_contains g) d). \<forall>l v u. get_edge g f = Some (Contains l v u n) \<longrightarrow> e = f))"
  unfolding names_unique_def listed_def by blast

lemma unique_names_iff:
  assumes "containers_ok g"
  shows "check_unique_names g = Ok () \<longleftrightarrow> names_unique g"
    and "(\<forall>(d, es) \<in> set (dir_contains g). fsck_names g d es [] = []) \<longleftrightarrow> names_unique g"
proof -
  note mi = containers_okD(8) [OF assms]
  have "check_unique_names g = Ok () \<longleftrightarrow> (\<forall>d. unique_names_loop g d (mi_get (dir_contains g) d) [] = Ok ())"
    using all_lists [OF mi, of "\<lambda>d es. unique_names_loop g d es [] = Ok ()"]
    by (simp add: check_unique_names_def for_each_Ok split_def)
  then show "check_unique_names g = Ok () \<longleftrightarrow> names_unique g"
    by (simp add: names_unique_lists names_loop_iff [OF mi_ok_distinct [OF mi]])
  show "(\<forall>(d, es) \<in> set (dir_contains g). fsck_names g d es [] = []) \<longleftrightarrow> names_unique g"
    using all_lists [OF mi, of "\<lambda>d es. fsck_names g d es [] = []"]
    by (simp add: names_unique_lists fsck_names_iff [OF mi_ok_distinct [OF mi]])
qed

lemma idx_forward_edges_iff:
  "idx_forward_edges g d es = None \<longleftrightarrow>
     (\<forall>e \<in> set es. \<forall>k s t n. get_edge g e = Some (Contains k s t n) \<longrightarrow>
        s = d \<and> bmap_get (dir_name_idx g) (d, n) = Some e)"
proof (induction es)
  case (Cons e es)
  show ?case
  proof (cases "get_edge g e")
    case None
    then show ?thesis using Cons by simp
  next
    case (Some x)
    then show ?thesis using Cons by (cases x) (auto split: option.split)
  qed
qed simp

lemma idx_forward_iff: "idx_forward g xs = None \<longleftrightarrow> (\<forall>(d, es) \<in> set xs. idx_forward_edges g d es = None)"
  by (induction g xs rule: idx_forward.induct) (auto split: option.split)

lemma idx_reverse_iff:
  "idx_reverse g xs = None \<longleftrightarrow> (\<forall>((d, n), e) \<in> set xs. \<exists>k t. get_edge g e = Some (Contains k d t n))"
  by (induction g xs rule: idx_reverse.induct) (auto split: option.split edge.split if_splits)

definition index_exact :: "type_graph \<Rightarrow> bool" where
  "index_exact g \<longleftrightarrow>
     (\<forall>d e k s t n. e \<in> set (mi_get (dir_contains g) d) \<longrightarrow> get_edge g e = Some (Contains k s t n) \<longrightarrow>
        s = d \<and> bmap_get (dir_name_idx g) (d, n) = Some e) \<and>
     (\<forall>d n e. bmap_get (dir_name_idx g) (d, n) = Some e \<longrightarrow> (\<exists>k t. get_edge g e = Some (Contains k d t n)))"

lemma index_iff:
  assumes "containers_ok g"
  shows "check_dir_name_idx_consistency g = None \<longleftrightarrow> index_exact g"
proof -
  have "check_dir_name_idx_consistency g = None \<longleftrightarrow>
      (\<forall>(d, es) \<in> set (dir_contains g). idx_forward_edges g d es = None) \<and>
      (\<forall>((d, n), e) \<in> set (dir_name_idx g). \<exists>k t. get_edge g e = Some (Contains k d t n))"
    by (simp add: check_dir_name_idx_consistency_def idx_forward_iff [symmetric] idx_reverse_iff [symmetric] split: option.split)
  moreover have "(\<forall>(d, es) \<in> set (dir_contains g). idx_forward_edges g d es = None) \<longleftrightarrow>
      (\<forall>d. idx_forward_edges g d (mi_get (dir_contains g) d) = None)"
    by (rule all_lists [OF containers_okD(8) [OF assms]]) simp
  moreover have "(\<forall>((d, n), e) \<in> set (dir_name_idx g). \<exists>k t. get_edge g e = Some (Contains k d t n)) \<longleftrightarrow>
      (\<forall>d n e. bmap_get (dir_name_idx g) (d, n) = Some e \<longrightarrow> (\<exists>k t. get_edge g e = Some (Contains k d t n)))"
    using containers_okD(10) [OF assms] by (fastforce simp: bmap_in_set_iff split_def)
  ultimately show ?thesis unfolding index_exact_def idx_forward_edges_iff by blast
qed

section \<open>Whole checkers\<close>

lemma cycles_iff:
  assumes "containers_ok g"
  shows "check_no_dir_cycles g = Ok () \<longleftrightarrow>
     (\<forall>d x y. dir_at g d = Some x \<longrightarrow> (d, y) \<in> (subdir g)\<^sup>* \<longrightarrow> (y, y) \<notin> (subdir g)\<^sup>+)"
proof -
  have "(case has_cycle_from (dfs_fuel g) g c [] of None \<Rightarrow> Diverge
            | Some (b, _) \<Rightarrow> ensure (\<not> b) v) = Ok () \<longleftrightarrow>
           (\<forall>y. (c, y) \<in> (subdir g)\<^sup>* \<longrightarrow> (y, y) \<notin> (subdir g)\<^sup>+)" for c v
    using has_cycle_from_iff [of g c] by (auto simp: child_rel_subdir)
  then show ?thesis
    by (simp add: check_no_dir_cycles_def for_each_arena_Ok [OF containers_okD(2) [OF assms]])
qed

lemma caps_iff:
  assumes "containers_ok g"
  shows "check_cap_monotonicity g = Ok () \<longleftrightarrow>
     (\<forall>c p x y. bmap_get (cap_parent g) c = Some p \<longrightarrow> get_cap g c = Some x \<longrightarrow> get_cap g p = Some y \<longrightarrow>
        (\<forall>k. bit (cap_rights x) k \<longrightarrow> bit (cap_rights y) k))"
  by (simp add: check_caps_Ok [OF containers_okD(11) [OF assms]] caps_monotone_def subset_bits)

lemma self_refs_iff:
  assumes "containers_ok g"
  shows "check_dir_self_ref g = Ok () \<longleftrightarrow>
     (\<forall>d x. dir_at g d = Some x \<longrightarrow> (\<exists>e. listed g d e ''.'' (dir_inode_id x)))"
proof -
  have "is_self_ref g i e \<longleftrightarrow> (\<exists>k s. get_edge g e = Some (Contains k s i ''.''))" for i e
    by (auto simp: is_self_ref_def split: option.split edge.split)
  then show ?thesis
    by (simp add: check_dir_self_ref_def for_each_arena_Ok [OF containers_okD(2) [OF assms]] list_ex_iff listed_def Bex_def)
qed

section \<open>Properties\<close>

text \<open>
  C10: \<open>is_ancestor\<close> returns on every graph, also on one with directory cycles, and answers whether the
  second directory is the first or can be reached from it by entries other than \<open>.\<close> and \<open>..\<close> that lead to
  stored directories.  On a well-formed graph these are the subdirectories of the file system the graph
  stands for.
\<close>

theorem is_ancestor_correct:
  "is_ancestor g a d = Some ((a, d) \<in> (subdir g)\<^sup>*) \<and>
   (well_formed g \<longrightarrow>
      subdir g = {(p, c). \<exists>n i. n \<noteq> ''.'' \<and> n \<noteq> ''..'' \<and> fs_name (fs_of g) (p, n) = Some i \<and> fs_dir (fs_of g) c = Some i})"
proof (intro conjI impI)
  show "is_ancestor g a d = Some ((a, d) \<in> (subdir g)\<^sup>*)"
    by (simp add: is_ancestor_iff child_rel_subdir)
  assume "well_formed g"
  then show "subdir g = {(p, c). \<exists>n i. n \<noteq> ''.'' \<and> n \<noteq> ''..'' \<and> fs_name (fs_of g) (p, n) = Some i \<and> fs_dir (fs_of g) c = Some i}"
    by (simp add: child_rel_subdir [symmetric] child_rel_view fs_child_def dir_entry_def user_name_def conj_ac del: fs_of_simps)
       blast
qed

theorem is_ancestor_correct_witness: "is_ancestor dir_graph 1 2 = Some True \<and> is_ancestor dir_graph 2 1 = Some False"
proof -
  note sub = is_ancestor_correct [of dir_graph, THEN conjunct2, rule_format, OF dir_graph_ok(1)]
  have "fs_name (fs_of dir_graph) (1, ''d'') = Some 2" "fs_dir (fs_of dir_graph) 2 = Some 2"
    by (simp_all add: dir_graph_view(1,3) del: fs_of_simps)
  then have "(1, 2) \<in> subdir dir_graph" unfolding sub by (intro CollectI case_prodI exI conjI) simp_all
  moreover have "n = ''.'' \<or> n = ''..''" if "fs_name (fs_of dir_graph) (2, n) = Some i" for n i
    using that by (simp add: dir_graph_view(1) del: fs_of_simps split: if_splits)
  then have "(2, c) \<notin> subdir dir_graph" for c unfolding sub by blast
  ultimately have "(1, 2) \<in> (subdir dir_graph)\<^sup>*" "(2, 1) \<notin> (subdir dir_graph)\<^sup>*"
    by (auto elim: converse_rtranclE)
  then show ?thesis
    using is_ancestor_correct [of dir_graph 1 2] is_ancestor_correct [of dir_graph 2 1] by simp
qed

text \<open>
  C14: \<open>check_invariants\<close> accepts a graph exactly when: every link count is the number (as a \<open>u32\<close>) of listed
  incoming edges whose name is not \<open>..\<close>; no directory lists a name twice; every directory lists \<open>.\<close> for its
  inode; the ends of every edge are stored, where the number of the block an extent leads to is looked up
  among the inodes; every reference count is the number (as a \<open>u32\<close>) of extents that lead to the block; no cycle of
  subdirectories can be reached from a stored directory; a capability has no right its parent lacks; at most
  one user-named edge leads to a directory; and the name index agrees with the lists of the directories.
\<close>

theorem check_invariants_decides:
  assumes "containers_ok g"
  shows "check_invariants g = Ok () \<longleftrightarrow>
     (\<forall>i x. inode_at g i = Some x \<longrightarrow> link_count x = word_of_nat (card {e. \<exists>n. incoming g i e n \<and> n \<noteq> ''..''})) \<and>
     (\<forall>d e f n t u. listed g d e n t \<longrightarrow> listed g d f n u \<longrightarrow> e = f) \<and>
     (\<forall>d x. dir_at g d = Some x \<longrightarrow> (\<exists>e. listed g d e ''.'' (dir_inode_id x))) \<and>
     (\<forall>e x. edge_at g e = Some x \<longrightarrow> ends_checked g x) \<and>
     (\<forall>b x. block_at g b = Some x \<longrightarrow> refcount x = word_of_nat (card (extents_of g b))) \<and>
     (\<forall>d x y. dir_at g d = Some x \<longrightarrow> (d, y) \<in> (subdir g)\<^sup>* \<longrightarrow> (y, y) \<notin> (subdir g)\<^sup>+) \<and>
     (\<forall>c p x y. bmap_get (cap_parent g) c = Some p \<longrightarrow> get_cap g c = Some x \<longrightarrow> get_cap g p = Some y \<longrightarrow>
        (\<forall>k. bit (cap_rights x) k \<longrightarrow> bit (cap_rights y) k)) \<and>
     (\<forall>i x. inode_at g i = Some x \<longrightarrow> vtype x = Directory \<longrightarrow>
        card {e. \<exists>n. incoming g i e n \<and> n \<noteq> ''.'' \<and> n \<noteq> ''..''} \<le> 1) \<and>
     (\<forall>d e k s t n. e \<in> set (mi_get (dir_contains g) d) \<longrightarrow> get_edge g e = Some (Contains k s t n) \<longrightarrow>
        s = d \<and> bmap_get (dir_name_idx g) (d, n) = Some e) \<and>
     (\<forall>d n e. bmap_get (dir_name_idx g) (d, n) = Some e \<longrightarrow> (\<exists>k t. get_edge g e = Some (Contains k d t n)))"
proof -
  note arenas = containers_okD [OF assms]
  have links: "check_link_count_consistency g = Ok () \<longleftrightarrow>
      (\<forall>i x. inode_at g i = Some x \<longrightarrow> link_count x = word_of_nat (card {e. \<exists>n. incoming g i e n \<and> n \<noteq> ''..''}))"
    by (simp add: check_link_count_consistency_def for_each_arena_Ok [OF arenas(1)] Let_def links_card(1) [OF assms])
  have ends: "check_no_dangling_edges g = Ok () \<longleftrightarrow> (\<forall>e x. edge_at g e = Some x \<longrightarrow> ends_checked g x)"
    by (simp add: check_no_dangling_edges_def for_each_arena_Ok [OF arenas(7)] Let_def ends_checked_nodes [OF assms])
  have refs: "check_block_refcount g = Ok () \<longleftrightarrow>
      (\<forall>b x. block_at g b = Some x \<longrightarrow> refcount x = word_of_nat (card (extents_of g b)))"
    by (simp add: check_block_refcount_def for_each_arena_Ok [OF arenas(6)] Let_def refs_card [OF assms])
  have hard: "check_no_hard_link_to_dir g = Ok () \<longleftrightarrow>
      (\<forall>i x. inode_at g i = Some x \<longrightarrow> vtype x = Directory \<longrightarrow>
        card {e. \<exists>n. incoming g i e n \<and> n \<noteq> ''.'' \<and> n \<noteq> ''..''} \<le> 1)"
    by (auto simp: check_no_hard_link_to_dir_def for_each_arena_Ok [OF arenas(1)] Let_def links_card(2) [OF assms])
  have index: "(case check_dir_name_idx_consistency g of None \<Rightarrow> Ok () | Some v \<Rightarrow> Err (InvariantViolation v)) = Ok () \<longleftrightarrow>
      index_exact g"
    by (simp add: index_iff [OF assms, symmetric] split: option.split)
  show ?thesis
    unfolding check_invariants_def and_check_Ok links ends refs hard index unique_names_iff(1) [OF assms]
      cycles_iff [OF assms] caps_iff [OF assms] self_refs_iff [OF assms] names_unique_def index_exact_def
    by (rule refl)
qed

theorem check_invariants_decides_witness:
  "check_invariants root_graph = Ok () \<and> ends_checked root_graph (Contains 1 1 1 ''.'') \<and>
   (\<exists>e. listed root_graph 1 e ''.'' 1)"
proof -
  obtain x where "dir_at root_graph 1 = Some x" "dir_inode_id x = 1"
    using root_graph_facts(6) by auto
  moreover have "edge_at root_graph 1 = Some (Contains 1 1 1 ''.'')" by (simp add: root_graph_edges)
  ultimately show ?thesis
    using check_invariants_decides [OF root_containers, THEN iffD1, OF root_graph_passes,
        THEN conjunct2, THEN conjunct2, THEN conjunct1]
      check_invariants_decides [OF root_containers, THEN iffD1, OF root_graph_passes,
        THEN conjunct2, THEN conjunct2, THEN conjunct2, THEN conjunct1]
      root_graph_passes by metis
qed

text \<open>
  C19: \<open>fsck\<close> returns, and finds no error exactly when: the ends of every entry and of every extent are
  stored; every link count is the number of listed incoming edges whose name is not \<open>..\<close>; no directory
  lists a name twice; no cycle of subdirectories can be reached from a stored directory; every reference
  count is the number of extents that lead to the block; and the attribute index names stored inodes and
  attributes only.  The ends of other edges and the capabilities are not looked at.  It warns of exactly
  the inodes other than the root with no listed incoming edge, whatever their link count, and its counts
  are the numbers of stored inodes, directories and edges.
\<close>

theorem fsck_decides:
  assumes "containers_ok g"
  shows "\<exists>r. fsck g = Some r \<and>
     (fsck_errors r = [] \<longleftrightarrow>
        (\<forall>e k d i n. edge_at g e = Some (Contains k d i n) \<longrightarrow> get_dir g d \<noteq> None \<and> get_inode g i \<noteq> None) \<and>
        (\<forall>e k i b off. edge_at g e = Some (PointsTo k i b off) \<longrightarrow> get_inode g i \<noteq> None \<and> get_block g b \<noteq> None) \<and>
        (\<forall>i x. inode_at g i = Some x \<longrightarrow> unat (link_count x) = card {e. \<exists>n. incoming g (inode_id x) e n \<and> n \<noteq> ''..''}) \<and>
        (\<forall>d e f n t u. listed g d e n t \<longrightarrow> listed g d f n u \<longrightarrow> e = f) \<and>
        (\<forall>d x y. dir_at g d = Some x \<longrightarrow> (dir_id x, y) \<in> (subdir g)\<^sup>* \<longrightarrow> (y, y) \<notin> (subdir g)\<^sup>+) \<and>
        (\<forall>b x. block_at g b = Some x \<longrightarrow> unat (refcount x) = card (extents_of g (block_id x))) \<and>
        (\<forall>i xs. bmap_get (inode_xattrs g) i = Some xs \<longrightarrow>
           get_inode g i \<noteq> None \<and> (\<forall>x \<in> set xs. bmap_get (xattrs g) x \<noteq> None))) \<and>
     set (fsck_warnings r) =
       {inode_id x | i x. inode_at g i = Some x \<and> inode_id x \<noteq> root_inode g \<and>
          mi_get (inode_incoming_contains g) (inode_id x) = []} \<and>
     fsck_inode_count r = card (dom (inode_at g)) \<and> fsck_dir_count r = card (dom (dir_at g)) \<and>
     fsck_edge_count r = card (dom (edge_at g))"
proof -
  note arenas = containers_okD [OF assms]
  obtain cs where cs: "fsck_cycles g (live (dirs g)) [] [] = Some cs"
    using fsck_cycles_total by blast
  obtain r where r: "fsck g = Some r" using fsck_returns by blast
  have edges: "(\<forall>x \<in> set (live (edges g)). fsck_edge g x = []) \<longleftrightarrow>
      (\<forall>e k d i n. edge_at g e = Some (Contains k d i n) \<longrightarrow> get_dir g d \<noteq> None \<and> get_inode g i \<noteq> None) \<and>
      (\<forall>e k i b off. edge_at g e = Some (PointsTo k i b off) \<longrightarrow> get_inode g i \<noteq> None \<and> get_block g b \<noteq> None)"
    unfolding live_all [OF arenas(7)] fsck_edge_clean stored_iff [OF assms] by blast
  have links: "(\<forall>x \<in> set (live (inodes g)). fsck_links g x = []) \<longleftrightarrow>
      (\<forall>i x. inode_at g i = Some x \<longrightarrow> unat (link_count x) = card {e. \<exists>n. incoming g (inode_id x) e n \<and> n \<noteq> ''..''})"
    by (auto simp: live_all [OF arenas(1)] fsck_links_def Let_def links_card(1) [OF assms])
  have blocks: "(\<forall>x \<in> set (live (blocks g)). fsck_block g x = []) \<longleftrightarrow>
      (\<forall>b x. block_at g b = Some x \<longrightarrow> unat (refcount x) = card (extents_of g (block_id x)))"
    by (auto simp: live_all [OF arenas(6)] fsck_block_def Let_def refs_card [OF assms])
  have xattrs: "(\<forall>(i, xs) \<in> set (inode_xattrs g). fsck_xattrs g i xs = []) \<longleftrightarrow>
      (\<forall>i xs. bmap_get (inode_xattrs g) i = Some xs \<longrightarrow>
         get_inode g i \<noteq> None \<and> (\<forall>x \<in> set xs. bmap_get (xattrs g) x \<noteq> None))"
    unfolding fsck_xattrs_clean stored_iff [OF assms] bmap_ran [OF arenas(12)] by (rule refl)
  have clean: "fsck_errors r = [] \<longleftrightarrow>
      (\<forall>x \<in> set (live (edges g)). fsck_edge g x = []) \<and> (\<forall>x \<in> set (live (inodes g)). fsck_links g x = []) \<and>
      (\<forall>(d, es) \<in> set (dir_contains g). fsck_names g d es [] = []) \<and> cs = [] \<and>
      (\<forall>x \<in> set (live (blocks g)). fsck_block g x = []) \<and>
      (\<forall>(i, xs) \<in> set (inode_xattrs g). fsck_xattrs g i xs = [])"
    using r cs by (auto simp: fsck_def)
  have "y \<in> set (fsck_warnings r) \<longleftrightarrow> (\<exists>x. x \<in> set (live (inodes g)) \<and> y \<in> set (fsck_orphan g x))" for y
    using r by (auto simp: fsck_def)
  moreover have "y \<in> set (fsck_orphan g x) \<longleftrightarrow>
      y = inode_id x \<and> inode_id x \<noteq> root_inode g \<and> mi_get (inode_incoming_contains g) (inode_id x) = []" for y x
    by (auto simp: fsck_orphan_def)
  ultimately have orphans: "set (fsck_warnings r) =
      {inode_id x | i x. inode_at g i = Some x \<and> inode_id x \<noteq> root_inode g \<and>
          mi_get (inode_incoming_contains g) (inode_id x) = []}"
    unfolding live_iff [OF arenas(1)] by blast
  have counts: "fsck_inode_count r = card (dom (inode_at g))" "fsck_dir_count r = card (dom (dir_at g))"
    "fsck_edge_count r = card (dom (edge_at g))"
    using r arenas by (auto simp: fsck_def ar_len_dom)
  have cycles: "cs = [] \<longleftrightarrow> (\<forall>d x y. dir_at g d = Some x \<longrightarrow> (dir_id x, y) \<in> (subdir g)\<^sup>* \<longrightarrow> (y, y) \<notin> (subdir g)\<^sup>+)"
    using dirs_silent [OF arenas(2)] cs by (simp add: child_rel_subdir)
  show ?thesis
    by (intro exI [of _ r] conjI; (rule r orphans counts)?)
       (unfold clean edges links blocks xattrs unique_names_iff(2) [OF assms] names_unique_def cycles conj_assoc,
        rule refl)
qed

theorem fsck_decides_witness:
  "\<exists>r. fsck root_graph = Some r \<and> fsck_edge_count r = 1"
  using fsck_decides [OF root_containers] by (auto simp: root_graph_edges)

end
