(* ===== verification/Sotfs_Treedec.thy ===== *)
theory Sotfs_Treedec
  imports Sotfs_Prelude
begin

text \<open>
  Tree decompositions, and the elimination game that bounds their width: eliminating the vertices of a
  finite graph in any order, each time making the remaining neighbours a clique, gives a tree
  decomposition whose bags have at most one vertex more than the largest neighbourhood met.
\<close>

section \<open>Tree decompositions\<close>

text \<open>
  The nodes of the tree are \<open>0, ..., n - 1\<close>; all but the last have a parent with a larger number, so the
  last one is the root.
\<close>

definition tree_link :: "nat \<Rightarrow> (nat \<Rightarrow> nat) \<Rightarrow> (nat \<times> nat) set" where
  "tree_link n par = {(i, par i) | i. Suc i < n} \<union> {(par i, i) | i. Suc i < n}"

definition tree_nodes :: "nat \<Rightarrow> (nat \<Rightarrow> nat) \<Rightarrow> bool" where
  "tree_nodes n par \<longleftrightarrow> (\<forall>i. Suc i < n \<longrightarrow> i < par i \<and> par i < n)"

text \<open>Two tree nodes are joined inside \<open>S\<close> when a path of tree nodes from \<open>S\<close> leads from one to the other.\<close>

definition joined :: "nat \<Rightarrow> (nat \<Rightarrow> nat) \<Rightarrow> nat set \<Rightarrow> nat \<Rightarrow> nat \<Rightarrow> bool" where
  "joined n par S i j \<longleftrightarrow> (i, j) \<in> (tree_link n par \<inter> S \<times> S)\<^sup>*"

definition holders :: "nat \<Rightarrow> (nat \<Rightarrow> 'a set) \<Rightarrow> 'a \<Rightarrow> nat set" where
  "holders n bag x = {i. i < n \<and> x \<in> bag i}"

definition tree_decomposition :: "'a set \<Rightarrow> ('a \<times> 'a) set \<Rightarrow> nat \<Rightarrow> (nat \<Rightarrow> nat) \<Rightarrow> (nat \<Rightarrow> 'a set) \<Rightarrow> bool" where
  "tree_decomposition V E n par bag \<longleftrightarrow>
     tree_nodes n par \<and> (\<forall>i<n. bag i \<subseteq> V) \<and>
     (\<forall>x\<in>V. holders n bag x \<noteq> {}) \<and>
     (\<forall>(x, y)\<in>E. holders n bag x \<inter> holders n bag y \<noteq> {}) \<and>
     (\<forall>x. \<forall>i \<in> holders n bag x. \<forall>j \<in> holders n bag x. joined n par (holders n bag x) i j)"

text \<open>The treewidth of the graph is at most \<open>w\<close>.\<close>

definition treewidth_le :: "'a set \<Rightarrow> ('a \<times> 'a) set \<Rightarrow> nat \<Rightarrow> bool" where
  "treewidth_le V E w \<longleftrightarrow>
     (\<exists>n par bag. tree_decomposition V E n par bag \<and> (\<forall>i<n. card (bag i) \<le> w + 1))"

text \<open>Renaming the vertices does not matter.\<close>

lemma treewidth_le_image:
  assumes inj: "inj_on f V" and E: "E \<subseteq> V \<times> V" and tw: "treewidth_le (f ` V) (map_prod f f ` E) w"
  shows "treewidth_le V E w"
proof -
  obtain n par bag where t: "tree_decomposition (f ` V) (map_prod f f ` E) n par bag"
      and w: "\<And>i. i < n \<Longrightarrow> card (bag i) \<le> w + 1"
    using tw by (auto simp: treewidth_le_def)
  let ?bag = "\<lambda>i. {x \<in> V. f x \<in> bag i}"
  have h: "holders n ?bag x = (if x \<in> V then holders n bag (f x) else {})" for x
    by (auto simp: holders_def)
  have "tree_decomposition V E n par ?bag"
    using t E unfolding tree_decomposition_def h by (fastforce simp: ball_Un)
  moreover have "card (?bag i) \<le> w + 1" if "i < n" for i
  proof -
    have "bag i \<subseteq> f ` V" using t that by (simp add: tree_decomposition_def)
    then have "f ` ?bag i = bag i" by auto
    then show ?thesis using w [OF that] card_image [OF inj_on_subset [OF inj, of "?bag i"]] by auto
  qed
  ultimately show ?thesis unfolding treewidth_le_def by blast
qed

lemma treewidth_le_renamed:
  assumes inj: "inj_on f V" and E: "E \<subseteq> V \<times> V"
  shows "treewidth_le (f ` V) (map_prod f f ` E) w \<longleftrightarrow> treewidth_le V E w"
proof
  assume tw: "treewidth_le V E w"
  let ?f = "inv_into V f"
  have undo: "?f ` f ` V = V" "map_prod ?f ?f ` map_prod f f ` E = E"
    using inj E by (force simp: image_image)+
  show "treewidth_le (f ` V) (map_prod f f ` E) w"
    by (rule treewidth_le_image [of ?f])
      (use tw E in \<open>auto simp: undo inj_on_inv_into\<close>)
qed (rule treewidth_le_image [OF assms])

lemma treewidth_le_symmetric: "treewidth_le V (E \<union> E\<inverse>) w \<longleftrightarrow> treewidth_le V E w"
proof -
  have "tree_decomposition V (E \<union> E\<inverse>) n par bag \<longleftrightarrow> tree_decomposition V E n par bag" for n par bag
    by (fastforce simp: tree_decomposition_def Int_commute)
  then show ?thesis by (simp add: treewidth_le_def)
qed

lemma treewidth_le_empty: "treewidth_le {} {} w"
  unfolding treewidth_le_def
  by (rule exI [of _ 0]) (simp add: tree_decomposition_def tree_nodes_def holders_def)

lemma treewidth_le_mono: "treewidth_le V E w \<Longrightarrow> w \<le> w' \<Longrightarrow> treewidth_le V E w'"
  by (fastforce simp: treewidth_le_def)

section \<open>The elimination game\<close>

definition fill :: "'a set \<Rightarrow> ('a \<Rightarrow> 'a set) \<Rightarrow> 'a \<Rightarrow> 'a set" where
  "fill N adj = (\<lambda>x. if x \<in> N then adj x \<union> (N - {x}) else adj x)"

fun elim_widths :: "'a set \<Rightarrow> ('a \<Rightarrow> 'a set) \<Rightarrow> 'a list \<Rightarrow> nat list" where
  "elim_widths R adj [] = []"
| "elim_widths R adj (v # vs) =
     (let N = adj v \<inter> (R - {v}) in card N # elim_widths (R - {v}) (fill N adj) vs)"

text \<open>
  The nested loops that make a list of neighbours a clique, over any representation of the graph: the
  interface is the operation that joins two vertices.
\<close>

fun fill_loop :: "('a \<Rightarrow> 'a \<Rightarrow> 'g \<Rightarrow> 'g) \<Rightarrow> 'a list \<Rightarrow> 'g \<Rightarrow> 'g" where
  "fill_loop join [] g = g"
| "fill_loop join (a # ns) g = fill_loop join ns (fold (join a) ns g)"

definition link_both :: "'a \<Rightarrow> 'a \<Rightarrow> ('a \<Rightarrow> 'a set) \<Rightarrow> 'a \<Rightarrow> 'a set" where
  "link_both a b adj = (\<lambda>x. if x = a then insert b (adj x) else if x = b then insert a (adj x) else adj x)"

locale fillable =
  fixes join :: "'a \<Rightarrow> 'a \<Rightarrow> 'g \<Rightarrow> 'g"
    and inv :: "'g \<Rightarrow> bool"
    and nbrs :: "'g \<Rightarrow> 'a \<Rightarrow> 'a set"
    and known :: "'a set"
  assumes join_inv: "inv g \<Longrightarrow> a \<in> known \<Longrightarrow> b \<in> known \<Longrightarrow> a \<noteq> b \<Longrightarrow> inv (join a b g)"
    and join_nbrs: "inv g \<Longrightarrow> a \<in> known \<Longrightarrow> b \<in> known \<Longrightarrow> a \<noteq> b \<Longrightarrow>
      nbrs (join a b g) = link_both a b (nbrs g)"
begin

lemma fold_join:
  "inv g \<Longrightarrow> a \<in> known \<Longrightarrow> set bs \<subseteq> known - {a} \<Longrightarrow>
     inv (fold (join a) bs g) \<and>
     nbrs (fold (join a) bs g) = (\<lambda>x. if x = a then nbrs g x \<union> set bs
       else if x \<in> set bs then insert a (nbrs g x) else nbrs g x)"
proof (induction bs arbitrary: g)
  case (Cons b bs)
  then have "inv (join a b g)" "nbrs (join a b g) = link_both a b (nbrs g)"
    using join_inv [of g a b] join_nbrs [of g a b] by auto
  then show ?case using Cons.IH [of "join a b g"] Cons.prems by (auto simp: link_both_def fun_eq_iff)
qed (simp add: fun_eq_iff)

lemma fill_loop_nbrs:
  "inv g \<Longrightarrow> distinct ns \<Longrightarrow> set ns \<subseteq> known \<Longrightarrow>
     inv (fill_loop join ns g) \<and> nbrs (fill_loop join ns g) = fill (set ns) (nbrs g)"
proof (induction ns arbitrary: g)
  case (Cons a ns)
  have "inv (fold (join a) ns g)" and f: "nbrs (fold (join a) ns g) = (\<lambda>x. if x = a then nbrs g x \<union> set ns
      else if x \<in> set ns then insert a (nbrs g x) else nbrs g x)"
    using fold_join [OF Cons.prems(1), of a ns] Cons.prems by auto
  then have "inv (fill_loop join (a # ns) g) \<and>
      nbrs (fill_loop join (a # ns) g) = fill (set ns) (nbrs (fold (join a) ns g))"
    using Cons.IH Cons.prems by simp
  moreover have "fill (set ns) (nbrs (fold (join a) ns g)) = fill (set (a # ns)) (nbrs g)"
    using Cons.prems(2) unfolding f by (auto simp: fill_def fun_eq_iff)
  ultimately show ?case by simp
qed (simp add: fill_def fun_eq_iff)

end

definition clique :: "('a \<Rightarrow> 'a set) \<Rightarrow> 'a set \<Rightarrow> bool" where
  "clique adj K \<longleftrightarrow> (\<forall>x\<in>K. \<forall>y\<in>K. x \<noteq> y \<longrightarrow> y \<in> adj x)"

definition symmetric_on :: "'a set \<Rightarrow> ('a \<Rightarrow> 'a set) \<Rightarrow> bool" where
  "symmetric_on R adj \<longleftrightarrow> (\<forall>x\<in>R. \<forall>y\<in>R. y \<in> adj x \<longrightarrow> x \<in> adj y)"

lemma symmetric_fill: "symmetric_on R adj \<Longrightarrow> symmetric_on (R - {v}) (fill N adj)"
  by (auto simp: symmetric_on_def fill_def)

lemma clique_fill: "clique adj K \<Longrightarrow> clique (fill N adj) K"
  by (auto simp: clique_def fill_def)

lemma clique_filled: "clique (fill N adj) N"
  by (auto simp: clique_def fill_def)

text \<open>What the induction over the eliminations keeps: every clique has a bag that holds it.\<close>

definition clique_tree :: "'a set \<Rightarrow> ('a \<Rightarrow> 'a set) \<Rightarrow> nat \<Rightarrow> (nat \<Rightarrow> nat) \<Rightarrow> (nat \<Rightarrow> 'a set) \<Rightarrow> bool" where
  "clique_tree R adj n par bag \<longleftrightarrow>
     tree_nodes n par \<and> (\<forall>i<n. bag i \<subseteq> R) \<and>
     (\<forall>K. K \<noteq> {} \<longrightarrow> K \<subseteq> R \<longrightarrow> clique adj K \<longrightarrow> (\<exists>i<n. K \<subseteq> bag i)) \<and>
     (\<forall>x. \<forall>i \<in> holders n bag x. \<forall>j \<in> holders n bag x. joined n par (holders n bag x) i j)"

lemma clique_tree_decomposition:
  assumes "clique_tree R adj n par bag" "E \<subseteq> {(x, y). x \<in> R \<and> y \<in> adj x \<and> y \<in> R}" "symmetric_on R adj"
  shows "tree_decomposition R E n par bag"
proof -
  have held: "\<exists>i<n. K \<subseteq> bag i" if "K \<noteq> {}" "K \<subseteq> R" "clique adj K" for K
    using assms(1) that by (simp add: clique_tree_def)
  have "holders n bag x \<noteq> {}" if "x \<in> R" for x
    using held [of "{x}"] that by (auto simp: holders_def clique_def)
  moreover have "holders n bag x \<inter> holders n bag y \<noteq> {}" if "(x, y) \<in> E" for x y
    using held [of "{x, y}"] that assms(2,3) by (fastforce simp: holders_def clique_def symmetric_on_def)
  ultimately show ?thesis using assms(1) by (auto simp: tree_decomposition_def clique_tree_def)
qed

text \<open>One more vertex: its bag becomes node 0, below a node whose bag holds its neighbours.\<close>

definition par_below :: "nat \<Rightarrow> (nat \<Rightarrow> nat) \<Rightarrow> nat \<Rightarrow> nat" where
  "par_below p par i = (case i of 0 \<Rightarrow> Suc p | Suc i \<Rightarrow> Suc (par i))"

definition bag_below :: "'a set \<Rightarrow> (nat \<Rightarrow> 'a set) \<Rightarrow> nat \<Rightarrow> 'a set" where
  "bag_below B bag i = (case i of 0 \<Rightarrow> B | Suc i \<Rightarrow> bag i)"

lemma below_simps [simp]:
  "par_below p par 0 = Suc p" "par_below p par (Suc i) = Suc (par i)"
  "bag_below B bag 0 = B" "bag_below B bag (Suc i) = bag i"
  by (simp_all add: par_below_def bag_below_def)

lemma holders_below:
  "holders (Suc n) (bag_below B bag) x = (if x \<in> B then {0} else {}) \<union> Suc ` holders n bag x"
proof -
  have "i \<in> holders (Suc n) (bag_below B bag) x \<longleftrightarrow> i \<in> (if x \<in> B then {0} else {}) \<union> Suc ` holders n bag x" for i
    by (cases i) (auto simp: holders_def)
  then show ?thesis by blast
qed

lemma joined_below:
  assumes "joined n par S i j" "Suc ` S \<subseteq> T"
  shows "joined (Suc n) (par_below p par) T (Suc i) (Suc j)"
  using assms(1) unfolding joined_def
proof (induction rule: rtrancl_induct)
  case (step a b)
  then have "(Suc a, Suc b) \<in> tree_link (Suc n) (par_below p par) \<inter> T \<times> T"
    using assms(2) by (force simp: tree_link_def)
  with step(3) show ?case by (rule rtrancl_into_rtrancl)
qed simp

lemma joined_sym: "joined n par S i j \<Longrightarrow> joined n par S j i"
proof -
  have "sym (tree_link n par \<inter> S \<times> S)" by (auto simp: sym_def tree_link_def)
  then have "sym ((tree_link n par \<inter> S \<times> S)\<^sup>*)" by (rule sym_rtrancl)
  then show "joined n par S i j \<Longrightarrow> joined n par S j i" by (auto simp: joined_def sym_def)
qed

lemma joined_through:
  assumes joined: "\<And>i j. i \<in> holders n bag x \<Longrightarrow> j \<in> holders n bag x \<Longrightarrow> joined n par (holders n bag x) i j"
    and p: "p < n" "x \<in> B \<Longrightarrow> x \<in> bag p"
    and ij: "i \<in> holders (Suc n) (bag_below B bag) x" "j \<in> holders (Suc n) (bag_below B bag) x"
  shows "joined (Suc n) (par_below p par) (holders (Suc n) (bag_below B bag) x) i j"
proof -
  let ?T = "holders (Suc n) (bag_below B bag) x"
  have lift: "joined (Suc n) (par_below p par) ?T (Suc a) (Suc b)"
    if "a \<in> holders n bag x" "b \<in> holders n bag x" for a b
    by (rule joined_below [OF joined [OF that]]) (auto simp: holders_below)
  have zero: "joined (Suc n) (par_below p par) ?T 0 (Suc b)" if "x \<in> B" "b \<in> holders n bag x" for b
  proof -
    have "p \<in> holders n bag x" using p that(1) by (simp add: holders_def)
    moreover from this have "(0, Suc p) \<in> tree_link (Suc n) (par_below p par) \<inter> ?T \<times> ?T"
      using that(1) p(1) by (force simp: tree_link_def holders_below)
    ultimately show ?thesis using lift [OF _ that(2), of p] unfolding joined_def
      by (auto intro: converse_rtrancl_into_rtrancl)
  qed
  have self: "joined (Suc n) (par_below p par) ?T i i" by (simp add: joined_def)
  have mem: "0 \<in> ?T \<Longrightarrow> x \<in> B" "Suc a \<in> ?T \<Longrightarrow> a \<in> holders n bag x" for a
    by (auto simp: holders_below split: if_splits)
  show ?thesis
  proof (cases i)
    case 0
    with ij show ?thesis using self zero mem by (cases j) auto
  next
    case (Suc a)
    with ij show ?thesis using lift joined_sym [OF zero] mem by (cases j) auto
  qed
qed

lemma clique_tree_step:
  assumes v: "v \<in> R" and sym: "symmetric_on R adj"
    and N: "N = adj v \<inter> (R - {v})" and tree: "clique_tree (R - {v}) (fill N adj) n par bag"
  shows "\<exists>par' bag'. clique_tree R adj (Suc n) par' bag' \<and>
    (\<forall>i < Suc n. bag' i = insert v N \<or> (\<exists>j<n. bag' i = bag j))"
proof -
  have nodes: "\<And>i. Suc i < n \<Longrightarrow> i < par i \<and> par i < n" and bags: "\<And>i. i < n \<Longrightarrow> bag i \<subseteq> R - {v}"
    and cliques: "\<And>K. K \<noteq> {} \<Longrightarrow> K \<subseteq> R - {v} \<Longrightarrow> clique (fill N adj) K \<Longrightarrow> \<exists>i<n. K \<subseteq> bag i"
    and join: "\<And>x i j. i \<in> holders n bag x \<Longrightarrow> j \<in> holders n bag x \<Longrightarrow> joined n par (holders n bag x) i j"
    using tree by (simp_all add: clique_tree_def tree_nodes_def)
  have "\<exists>p. (0 < n \<longrightarrow> p < n) \<and> (N \<noteq> {} \<longrightarrow> p < n \<and> N \<subseteq> bag p)"
  proof (cases "N = {}")
    case False
    then show ?thesis using cliques [OF False _ clique_filled] N by blast
  qed (auto intro: exI [of _ 0])
  then obtain p where p: "0 < n \<Longrightarrow> p < n" "N \<noteq> {} \<Longrightarrow> p < n \<and> N \<subseteq> bag p" by blast
  let ?par = "par_below p par" and ?bag = "bag_below (insert v N) bag"
  have "i < ?par i \<and> ?par i < Suc n" if "Suc i < Suc n" for i
    using that nodes p(1) by (cases i) simp_all
  moreover have "?bag i \<subseteq> R" if "i < Suc n" for i
    using that bags v N by (cases i) auto
  moreover have "\<exists>i < Suc n. K \<subseteq> ?bag i" if K: "K \<noteq> {}" "K \<subseteq> R" "clique adj K" for K
  proof (cases "v \<in> K")
    case True
    then have "K \<subseteq> ?bag 0" using K N by (auto simp: clique_def)
    then show ?thesis by blast
  next
    case False
    then obtain i where "i < n" "K \<subseteq> bag i" using cliques [OF K(1) _ clique_fill [OF K(3)]] K(2) by blast
    then show ?thesis by (intro exI [of _ "Suc i"]) simp
  qed
  moreover have "joined (Suc n) ?par (holders (Suc n) ?bag x) i j"
    if "i \<in> holders (Suc n) ?bag x" "j \<in> holders (Suc n) ?bag x" for x i j
  proof (cases "holders n bag x = {}")
    case True
    then have "i = j" using that by (auto simp: holders_below split: if_splits)
    then show ?thesis by (simp add: joined_def)
  next
    case False
    then obtain k where "k < n" "x \<in> bag k" by (auto simp: holders_def)
    then have "x \<noteq> v" "p < n" using bags [of k] p(1) by auto
    moreover from this have "x \<in> insert v N \<Longrightarrow> x \<in> bag p" using p(2) by auto
    ultimately show ?thesis using that by (intro joined_through [OF join])
  qed
  moreover have "?bag i = insert v N \<or> (\<exists>j<n. ?bag i = bag j)" if "i < Suc n" for i
    using that by (cases i) auto
  ultimately have "clique_tree R adj (Suc n) ?par ?bag \<and>
      (\<forall>i < Suc n. ?bag i = insert v N \<or> (\<exists>j<n. ?bag i = bag j))"
    unfolding clique_tree_def tree_nodes_def by simp
  then show ?thesis by (intro exI)
qed

lemma elimination_tree:
  "distinct vs \<Longrightarrow> symmetric_on (set vs) adj \<Longrightarrow> (\<And>k. k \<in> set (elim_widths (set vs) adj vs) \<Longrightarrow> k \<le> w) \<Longrightarrow>
     \<exists>par bag. clique_tree (set vs) adj (length vs) par bag \<and> (\<forall>i < length vs. card (bag i) \<le> w + 1)"
proof (induction vs arbitrary: adj)
  case Nil
  show ?case by (simp add: clique_tree_def tree_nodes_def holders_def)
next
  case (Cons v vs)
  let ?R = "set (v # vs)"
  define N where "N = adj v \<inter> (?R - {v})"
  have rest: "?R - {v} = set vs" using Cons.prems(1) by auto
  have "symmetric_on (set vs) (fill N adj)"
    using symmetric_fill [OF Cons.prems(2), of v N] by (simp only: rest)
  moreover have w: "elim_widths ?R adj (v # vs) = card N # elim_widths (set vs) (fill N adj) vs"
    by (simp only: elim_widths.simps Let_def N_def rest)
  ultimately obtain par bag where IH: "clique_tree (set vs) (fill N adj) (length vs) par bag"
      "\<forall>i < length vs. card (bag i) \<le> w + 1"
    using Cons.IH [of "fill N adj"] Cons.prems(1,3) by auto
  obtain par' bag' where tree: "clique_tree ?R adj (Suc (length vs)) par' bag'"
      "\<forall>i < Suc (length vs). bag' i = insert v N \<or> (\<exists>j < length vs. bag' i = bag j)"
    using clique_tree_step [OF _ Cons.prems(2) N_def, of "length vs" par bag] IH(1) rest by auto
  have "card (insert v N) \<le> w + 1"
    using Cons.prems(3) [of "card N"] w card_insert_le_m1 [of "w + 1" N v] by simp
  then have "card (bag' i) \<le> w + 1" if "i < Suc (length vs)" for i
    using tree(2) IH(2) that by auto
  then show ?case using tree(1) by auto
qed

lemma elimination_treewidth:
  assumes "distinct vs" "symmetric_on (set vs) adj" "\<And>k. k \<in> set (elim_widths (set vs) adj vs) \<Longrightarrow> k \<le> w"
    and "E \<subseteq> {(x, y). x \<in> set vs \<and> y \<in> adj x \<and> y \<in> set vs}"
  shows "treewidth_le (set vs) E w"
  using elimination_tree [OF assms(1-3)] clique_tree_decomposition [OF _ assms(4,2)]
  unfolding treewidth_le_def by blast

section \<open>Adding vertices one at a time\<close>

definition clique_tree_le :: "'a set \<Rightarrow> ('a \<Rightarrow> 'a set) \<Rightarrow> nat \<Rightarrow> bool" where
  "clique_tree_le R adj w \<longleftrightarrow> (\<exists>n par bag. clique_tree R adj n par bag \<and> (\<forall>i<n. card (bag i) \<le> w + 1))"

lemma clique_tree_le_empty: "clique_tree_le {} adj w"
  unfolding clique_tree_le_def
  by (rule exI [of _ 0]) (simp add: clique_tree_def tree_nodes_def holders_def)

text \<open>Fewer edges mean fewer cliques.\<close>

lemma clique_tree_le_subgraph:
  assumes "clique_tree_le R adj w" "\<And>x y. x \<in> R \<Longrightarrow> y \<in> R \<Longrightarrow> y \<in> adj' x \<Longrightarrow> y \<in> adj x"
  shows "clique_tree_le R adj' w"
proof -
  have "clique adj K" if "clique adj' K" "K \<subseteq> R" for K
    using assms(2) that unfolding clique_def by blast
  then have "clique_tree R adj' n par bag" if "clique_tree R adj n par bag" for n par bag
    using that unfolding clique_tree_def by simp
  then show ?thesis using assms(1) unfolding clique_tree_le_def by blast
qed

lemma clique_tree_le_insert:
  assumes tree: "clique_tree_le R adj w" and v: "v \<notin> R" and sym: "symmetric_on (insert v R) adj"
    and N: "clique adj (adj v \<inter> R)" "card (adj v \<inter> R) \<le> w"
  shows "clique_tree_le (insert v R) adj w"
proof -
  let ?N = "adj v \<inter> R"
  have R: "insert v R - {v} = R" using v by auto
  have "y \<in> adj x" if "y \<in> fill ?N adj x" for x y
    using N(1) that unfolding fill_def clique_def by (metis DiffE UnE insertI1)
  then have "clique_tree_le R (fill ?N adj) w" by (intro clique_tree_le_subgraph [OF tree])
  then obtain n par bag where t: "clique_tree R (fill ?N adj) n par bag"
      and w: "\<forall>i<n. card (bag i) \<le> w + 1"
    by (auto simp: clique_tree_le_def)
  obtain par' bag' where "clique_tree (insert v R) adj (Suc n) par' bag'"
      and b: "\<forall>i < Suc n. bag' i = insert v ?N \<or> (\<exists>j<n. bag' i = bag j)"
    using clique_tree_step [of v "insert v R" adj ?N n par bag, OF insertI1 sym] t unfolding R by blast
  moreover have "card (insert v ?N) \<le> w + 1" using N(2) card_insert_le_m1 [of "w + 1" ?N v] by simp
  then have "card (bag' i) \<le> w + 1" if "i < Suc n" for i
    using b w that by auto
  ultimately show ?thesis unfolding clique_tree_le_def by blast
qed

lemma clique_tree_le_treewidth:
  "clique_tree_le R adj w \<Longrightarrow> E \<subseteq> {(x, y). x \<in> R \<and> y \<in> adj x \<and> y \<in> R} \<Longrightarrow> symmetric_on R adj \<Longrightarrow>
     treewidth_le R E w"
  unfolding clique_tree_le_def treewidth_le_def using clique_tree_decomposition by blast

section \<open>Subgraphs and leaves\<close>

lemma treewidth_le_subgraph:
  assumes tw: "treewidth_le V E w" and fin: "finite V" and V: "V' \<subseteq> V" and E: "E' \<subseteq> E \<union> E\<inverse>" "E' \<subseteq> V' \<times> V'"
  shows "treewidth_le V' E' w"
proof -
  obtain n par bag where t: "tree_decomposition V E n par bag" and w: "\<And>i. i < n \<Longrightarrow> card (bag i) \<le> w + 1"
    using tw by (auto simp: treewidth_le_def)
  have nodes: "tree_nodes n par" and bags: "\<And>i. i < n \<Longrightarrow> bag i \<subseteq> V"
    and held: "\<And>x. x \<in> V \<Longrightarrow> holders n bag x \<noteq> {}"
    and links: "\<And>x y. (x, y) \<in> E \<Longrightarrow> holders n bag x \<inter> holders n bag y \<noteq> {}"
    and join: "\<And>x i j. i \<in> holders n bag x \<Longrightarrow> j \<in> holders n bag x \<Longrightarrow> joined n par (holders n bag x) i j"
    using t by (auto simp: tree_decomposition_def)
  let ?bag = "\<lambda>i. bag i \<inter> V'"
  have h: "holders n ?bag x = (if x \<in> V' then holders n bag x else {})" for x
    by (auto simp: holders_def)
  have "holders n ?bag x \<inter> holders n ?bag y \<noteq> {}" if "(x, y) \<in> E'" for x y
  proof -
    have "x \<in> V'" "y \<in> V'" "(x, y) \<in> E \<or> (y, x) \<in> E" using that E by auto
    then show ?thesis using links [of x y] links [of y x] by (auto simp: h)
  qed
  then have "\<forall>(x, y) \<in> E'. holders n ?bag x \<inter> holders n ?bag y \<noteq> {}" by blast
  moreover have "\<forall>x\<in>V'. holders n ?bag x \<noteq> {}" using held V by (auto simp: h)
  moreover have "\<forall>x. \<forall>i \<in> holders n ?bag x. \<forall>j \<in> holders n ?bag x. joined n par (holders n ?bag x) i j"
    using join by (auto simp: h)
  ultimately have "tree_decomposition V' E' n par ?bag"
    using nodes unfolding tree_decomposition_def by blast
  moreover have "card (?bag i) \<le> w + 1" if "i < n" for i
    using card_mono [OF finite_subset [OF bags [OF that] fin], of "?bag i"] w [OF that] by simp
  ultimately show ?thesis unfolding treewidth_le_def by blast
qed

text \<open>A new vertex with at most one neighbour.\<close>

lemma treewidth_le_leaf:
  assumes tw: "treewidth_le V E w" and "1 \<le> w" and x: "x \<notin> V" and y: "Y \<subseteq> {y} \<inter> V"
  shows "treewidth_le (insert x V) (E \<union> {x} \<times> Y) w"
proof -
  obtain n par bag where t: "tree_decomposition V E n par bag" and w: "\<And>i. i < n \<Longrightarrow> card (bag i) \<le> w + 1"
    using tw by (auto simp: treewidth_le_def)
  have nodes: "\<And>i. Suc i < n \<Longrightarrow> i < par i \<and> par i < n" and bags: "\<And>i. i < n \<Longrightarrow> bag i \<subseteq> V"
    and held: "\<And>x. x \<in> V \<Longrightarrow> holders n bag x \<noteq> {}"
    and links: "\<And>x y. (x, y) \<in> E \<Longrightarrow> holders n bag x \<inter> holders n bag y \<noteq> {}"
    and join: "\<And>x i j. i \<in> holders n bag x \<Longrightarrow> j \<in> holders n bag x \<Longrightarrow> joined n par (holders n bag x) i j"
    using t by (auto simp: tree_decomposition_def tree_nodes_def)
  have "\<exists>p. (0 < n \<longrightarrow> p < n) \<and> (Y \<noteq> {} \<longrightarrow> p < n \<and> Y \<subseteq> bag p)"
  proof (cases "Y = {}")
    case False
    then have "y \<in> V" "Y = {y}" using y by auto
    then show ?thesis using held [of y] by (auto simp: holders_def)
  qed (auto intro: exI [of _ 0])
  then obtain p where p: "0 < n \<Longrightarrow> p < n" "Y \<noteq> {} \<Longrightarrow> p < n \<and> Y \<subseteq> bag p" by blast
  let ?par = "par_below p par" and ?bag = "bag_below (insert x Y) bag"
  have none: "holders n bag x = {}" using bags x by (auto simp: holders_def)
  have "i < ?par i \<and> ?par i < Suc n" if "Suc i < Suc n" for i
    using that nodes p(1) by (cases i) simp_all
  moreover have "?bag i \<subseteq> insert x V" if "i < Suc n" for i
    using that bags y by (cases i) auto
  moreover have "holders (Suc n) ?bag z \<noteq> {}" if "z \<in> insert x V" for z
    using that held by (auto simp: holders_below)
  moreover have "holders (Suc n) ?bag a \<inter> holders (Suc n) ?bag b \<noteq> {}" if "(a, b) \<in> E \<union> {x} \<times> Y" for a b
  proof (cases "(a, b) \<in> E")
    case True
    then obtain i where "i \<in> holders n bag a \<inter> holders n bag b" using links by blast
    then have "Suc i \<in> holders (Suc n) ?bag a \<inter> holders (Suc n) ?bag b" by (simp add: holders_below)
    then show ?thesis by blast
  next
    case False
    then have "0 \<in> holders (Suc n) ?bag a \<inter> holders (Suc n) ?bag b" using that by (auto simp: holders_below)
    then show ?thesis by blast
  qed
  moreover have "joined (Suc n) ?par (holders (Suc n) ?bag z) i j"
    if ij: "i \<in> holders (Suc n) ?bag z" "j \<in> holders (Suc n) ?bag z" for z i j
  proof (cases "holders n bag z = {}")
    case True
    then have "i = j" using ij by (auto simp: holders_below split: if_splits)
    then show ?thesis by (simp add: joined_def)
  next
    case False
    then have "z \<noteq> x" "p < n" using none p(1) by (auto simp: holders_def)
    moreover from this have "z \<in> insert x Y \<Longrightarrow> z \<in> bag p" using p(2) by auto
    ultimately show ?thesis using ij by (intro joined_through [OF join])
  qed
  ultimately have "tree_decomposition (insert x V) (E \<union> {x} \<times> Y) (Suc n) ?par ?bag"
    unfolding tree_decomposition_def tree_nodes_def by blast
  moreover have "card (insert x Y) \<le> w + 1"
  proof -
    have "insert x Y \<subseteq> {x, y}" using y by blast
    then have "card (insert x Y) \<le> card {x, y}" by (simp add: card_mono)
    moreover have "card {x, y} \<le> 2" using card_insert_le_m1 [of 2 "{y}" x] by simp
    ultimately show ?thesis using \<open>1 \<le> w\<close> by simp
  qed
  then have "card (?bag i) \<le> w + 1" if "i < Suc n" for i
    using w that by (cases i) auto
  ultimately show ?thesis unfolding treewidth_le_def by blast
qed

text \<open>Any number of vertices that each have at most one neighbour, which is not one of them.\<close>

lemma treewidth_le_leaves:
  assumes tw: "treewidth_le V E w" and w: "1 \<le> w" and fin: "finite L" and disj: "L \<inter> V = {}"
    and one: "\<And>x. x \<in> L \<Longrightarrow> \<exists>y. N x \<subseteq> {y} \<inter> V"
  shows "treewidth_le (V \<union> L) (E \<union> {(x, y). x \<in> L \<and> y \<in> N x}) w"
  using fin disj one
proof (induction L)
  case (insert x L)
  obtain y where "N x \<subseteq> {y} \<inter> V" using insert.prems(2) by blast
  then have y: "N x \<subseteq> {y} \<inter> (V \<union> L)" by auto
  have "treewidth_le (V \<union> L) (E \<union> {(x, y). x \<in> L \<and> y \<in> N x}) w"
    by (rule insert.IH) (use insert.prems in auto)
  then have "treewidth_le (insert x (V \<union> L)) ((E \<union> {(x, y). x \<in> L \<and> y \<in> N x}) \<union> {x} \<times> N x) w"
    by (rule treewidth_le_leaf [OF _ w _ y]) (use insert in auto)
  moreover have "(E \<union> {(x, y). x \<in> L \<and> y \<in> N x}) \<union> {x} \<times> N x = E \<union> {(x', y). x' \<in> insert x L \<and> y \<in> N x'}"
    by auto
  ultimately show ?case by simp
qed (use tw in simp)

end
