(* ===== verification/Sotfs_Contraction.thy ===== *)
theory Sotfs_Contraction
  imports Sotfs_Treedec
begin

text \<open>
  What a small treewidth says about the elimination game: some vertex has few neighbours, and
  eliminating a vertex with at most two neighbours does not raise the treewidth.  Hence always taking
  a vertex of least degree finds the treewidth exactly as long as it is at most two.
\<close>

section \<open>Joined tree nodes\<close>

lemma joined_refl [simp]: "joined n par S i i"
  by (simp add: joined_def)

lemma joined_trans: "joined n par S i j \<Longrightarrow> joined n par S j k \<Longrightarrow> joined n par S i k"
  unfolding joined_def by (rule rtrancl_trans)

lemma joined_mono: "joined n par S i j \<Longrightarrow> S \<subseteq> T \<Longrightarrow> joined n par T i j"
  unfolding joined_def by (rule rtrancl_mono [THEN subsetD]) auto

text \<open>Node 0 has one link only, to its parent.\<close>

lemma leaf_link: "tree_nodes n par \<Longrightarrow> (0, j) \<in> tree_link n par \<Longrightarrow> j = par 0"
  by (auto simp: tree_link_def tree_nodes_def)

lemma leaf_joined:
  assumes "tree_nodes n par" "joined n par S 0 j" "j \<noteq> 0"
  shows "par 0 \<in> S"
  using assms(2,3) leaf_link [OF assms(1)] unfolding joined_def
  by (cases rule: converse_rtranclE) auto

lemma tree_decompositionD:
  assumes "tree_decomposition V E n par bag"
  shows "tree_nodes n par" "\<And>i. i < n \<Longrightarrow> bag i \<subseteq> V" "\<And>x. x \<in> V \<Longrightarrow> holders n bag x \<noteq> {}"
    "\<And>x y. (x, y) \<in> E \<Longrightarrow> holders n bag x \<inter> holders n bag y \<noteq> {}"
    "\<And>x i j. i \<in> holders n bag x \<Longrightarrow> j \<in> holders n bag x \<Longrightarrow> joined n par (holders n bag x) i j"
  using assms by (auto simp: tree_decomposition_def)

section \<open>A vertex of low degree\<close>

definition neighbors :: "('a \<times> 'a) set \<Rightarrow> 'a \<Rightarrow> 'a set" where
  "neighbors E x = {y. y \<noteq> x \<and> ((x, y) \<in> E \<or> (y, x) \<in> E)}"

text \<open>A leaf whose bag is part of its parent's can be left out.\<close>

lemma tree_link_shift:
  "tree_nodes (Suc n) par \<Longrightarrow> (a, b) \<in> tree_link (Suc n) par \<Longrightarrow> a \<noteq> 0 \<Longrightarrow> b \<noteq> 0 \<Longrightarrow>
     (a - 1, b - 1) \<in> tree_link n (\<lambda>i. par (Suc i) - 1)"
proof -
  assume "(a, b) \<in> tree_link (Suc n) par" "a \<noteq> 0" "b \<noteq> 0"
  then obtain a' b' where "a = Suc a'" "b = Suc b'" by (metis not0_implies_Suc)
  with \<open>(a, b) \<in> _\<close> show ?thesis by (auto simp: tree_link_def)
qed

lemma joined_without_leaf:
  assumes nodes: "tree_nodes (Suc n) par" and S: "0 \<in> S \<Longrightarrow> par 0 \<in> S" and "0 < n"
    and j: "joined (Suc n) par S i j"
  shows "joined n (\<lambda>i. par (Suc i) - 1) {k. Suc k \<in> S}
    (if i = 0 then par 0 - 1 else i - 1) (if j = 0 then par 0 - 1 else j - 1)"
  using j unfolding joined_def
proof (induction rule: rtrancl_induct)
  case (step a b)
  have p: "0 < par 0" using nodes \<open>0 < n\<close> by (auto simp: tree_nodes_def)
  have link: "(a, b) \<in> tree_link (Suc n) par" "a \<in> S" "b \<in> S" using step(2) by auto
  have sym: "(b, a) \<in> tree_link (Suc n) par" using link(1) by (auto simp: tree_link_def)
  show ?case
  proof (cases "a = 0 \<or> b = 0")
    case True
    have "a = 0 \<Longrightarrow> b = par 0" "b = 0 \<Longrightarrow> a = par 0"
      using leaf_link [OF nodes] link(1) sym by blast+
    then show ?thesis using step(3) True p by auto
  next
    case False
    then have "(a - 1, b - 1) \<in> tree_link n (\<lambda>i. par (Suc i) - 1) \<inter> {k. Suc k \<in> S} \<times> {k. Suc k \<in> S}"
      using tree_link_shift [OF nodes link(1)] link(2,3) by auto
    with step(3) show ?thesis using False by (auto intro: rtrancl_into_rtrancl)
  qed
qed simp

lemma without_leaf:
  assumes d: "tree_decomposition V E (Suc n) par bag" and "0 < n" and sub: "bag 0 \<subseteq> bag (par 0)"
  shows "tree_decomposition V E n (\<lambda>i. par (Suc i) - 1) (\<lambda>i. bag (Suc i))"
proof -
  note nodes = tree_decompositionD(1) [OF d] and bags = tree_decompositionD(2) [OF d]
    and held = tree_decompositionD(3) [OF d] and links = tree_decompositionD(4) [OF d]
    and join = tree_decompositionD(5) [OF d]
  have p: "0 < par 0" "par 0 < Suc n" using nodes \<open>0 < n\<close> by (auto simp: tree_nodes_def)
  have h: "holders n (\<lambda>i. bag (Suc i)) x = {k. Suc k \<in> holders (Suc n) bag x}" for x
    by (auto simp: holders_def)
  have up: "0 \<in> holders (Suc n) bag x \<Longrightarrow> par 0 \<in> holders (Suc n) bag x" for x
    using sub p by (auto simp: holders_def)
  have some: "A \<noteq> {} \<Longrightarrow> (0 \<in> A \<Longrightarrow> par 0 \<in> A) \<Longrightarrow> \<exists>k. Suc k \<in> A" for A
    using p(1) by (metis all_not_in_conv not0_implies_Suc not_gr_zero)
  have "tree_nodes n (\<lambda>i. par (Suc i) - 1)"
    using nodes unfolding tree_nodes_def by (metis Suc_less_eq diff_Suc_1 gr0_implies_Suc less_Suc_eq_0_disj less_imp_Suc_add)
  moreover have "holders n (\<lambda>i. bag (Suc i)) x \<noteq> {}" if "x \<in> V" for x
    using some [OF held [OF that] up] by (auto simp: h)
  moreover have "holders n (\<lambda>i. bag (Suc i)) x \<inter> holders n (\<lambda>i. bag (Suc i)) y \<noteq> {}" if "(x, y) \<in> E" for x y
    using some [OF links [OF that]] up [of x] up [of y] by (auto simp: h)
  moreover have "joined n (\<lambda>i. par (Suc i) - 1) (holders n (\<lambda>i. bag (Suc i)) x) i j"
    if "i \<in> holders n (\<lambda>i. bag (Suc i)) x" "j \<in> holders n (\<lambda>i. bag (Suc i)) x" for x i j
    using joined_without_leaf [where i = "Suc i" and j = "Suc j", OF nodes up [of x] \<open>0 < n\<close> join] that
    by (simp add: h)
  ultimately show ?thesis using bags by (auto simp: tree_decomposition_def)
qed

lemma low_degree_in:
  "tree_decomposition V E n par bag \<Longrightarrow> (\<And>i. i < n \<Longrightarrow> card (bag i) \<le> w + 1) \<Longrightarrow> finite V \<Longrightarrow> V \<noteq> {} \<Longrightarrow>
     E \<subseteq> V \<times> V \<Longrightarrow> \<exists>x\<in>V. card (neighbors E x) \<le> w"
proof (induction n arbitrary: par bag)
  case 0
  then show ?case by (auto simp: tree_decomposition_def holders_def)
next
  case (Suc n)
  note d = Suc.prems(1)
  note nodes = tree_decompositionD(1) [OF d] and bags = tree_decompositionD(2) [OF d]
    and held = tree_decompositionD(3) [OF d] and links = tree_decompositionD(4) [OF d]
    and join = tree_decompositionD(5) [OF d]
  show ?case
  proof (cases "\<exists>x \<in> bag 0. holders (Suc n) bag x = {0}")
    case True
    then obtain x where x: "x \<in> bag 0" "holders (Suc n) bag x = {0}" by blast
    have "neighbors E x \<subseteq> bag 0 - {x}"
    proof
      fix y assume y: "y \<in> neighbors E x"
      then have "holders (Suc n) bag x \<inter> holders (Suc n) bag y \<noteq> {}"
        using links [of x y] links [of y x] by (auto simp: neighbors_def)
      then show "y \<in> bag 0 - {x}" using x(2) y by (auto simp: neighbors_def holders_def)
    qed
    moreover have fin: "finite (bag 0)" using bags [of 0] Suc.prems(3) finite_subset by blast
    ultimately have "card (neighbors E x) \<le> card (bag 0 - {x})" by (intro card_mono) auto
    also have "\<dots> \<le> w" using x(1) fin Suc.prems(2) [of 0] by simp
    finally show ?thesis using x(1) bags [of 0] by blast
  next
    case False
    have zero: "x \<in> bag 0 \<Longrightarrow> 0 \<in> holders (Suc n) bag x" for x by (simp add: holders_def)
    have n: "0 < n"
    proof (rule ccontr)
      assume "\<not> 0 < n"
      then have sub: "holders (Suc n) bag x \<subseteq> {0}" for x by (auto simp: holders_def)
      obtain x where "x \<in> V" using Suc.prems(4) by blast
      then have "holders (Suc n) bag x = {0}" using held sub [of x] by blast
      moreover from this have "x \<in> bag 0" by (auto simp: holders_def)
      ultimately show False using False by blast
    qed
    have "x \<in> bag (par 0)" if x: "x \<in> bag 0" for x
    proof -
      obtain j where j: "j \<in> holders (Suc n) bag x" "j \<noteq> 0" using False x zero [OF x] by blast
      have "par 0 \<in> holders (Suc n) bag x" by (rule leaf_joined [OF nodes join [OF zero [OF x] j(1)] j(2)])
      then show ?thesis by (simp add: holders_def)
    qed
    then have "tree_decomposition V E n (\<lambda>i. par (Suc i) - 1) (\<lambda>i. bag (Suc i))"
      by (intro without_leaf [OF d n]) auto
    then show ?thesis by (rule Suc.IH) (use Suc.prems in auto)
  qed
qed

lemma low_degree:
  "treewidth_le V E w \<Longrightarrow> finite V \<Longrightarrow> V \<noteq> {} \<Longrightarrow> E \<subseteq> V \<times> V \<Longrightarrow> \<exists>x\<in>V. card (neighbors E x) \<le> w"
  unfolding treewidth_le_def using low_degree_in by blast

section \<open>Eliminating a vertex with at most two neighbours\<close>

definition adj_edges :: "'a set \<Rightarrow> ('a \<Rightarrow> 'a set) \<Rightarrow> ('a \<times> 'a) set" where
  "adj_edges R adj = {(x, y). x \<in> R \<and> y \<in> R \<and> y \<in> adj x}"

lemma delete_vertex:
  assumes d: "tree_decomposition R E n par bag" and F: "F \<subseteq> E" "F \<subseteq> (R - {v}) \<times> (R - {v})"
  shows "tree_decomposition (R - {v}) F n par (\<lambda>i. bag i - {v})"
proof -
  have h: "holders n (\<lambda>i. bag i - {v}) x = (if x = v then {} else holders n bag x)" for x
    by (auto simp: holders_def)
  show ?thesis
    using tree_decompositionD [OF d] F unfolding tree_decomposition_def h by fastforce
qed

text \<open>The vertex \<open>v\<close> is merged into its neighbour \<open>a\<close>.\<close>

definition merged :: "'a \<Rightarrow> 'a \<Rightarrow> 'a set \<Rightarrow> 'a set" where
  "merged v a B = (if v \<in> B then insert a (B - {v}) else B)"

lemma card_merged: "finite B \<Longrightarrow> card (merged v a B) \<le> card B"
  using card_Suc_Diff1 [of B v] by (auto simp: merged_def card_insert_if)

lemma holders_merged:
  "a \<noteq> v \<Longrightarrow> holders n (\<lambda>i. merged v a (bag i)) x =
     (if x = v then {} else if x = a then holders n bag a \<union> holders n bag v else holders n bag x)"
  by (auto simp: holders_def merged_def)

lemma merge_vertex:
  assumes d: "tree_decomposition R E n par bag" and v: "v \<in> R" and a: "a \<in> R" "a \<noteq> v" "(v, a) \<in> E"
    and F: "F \<subseteq> (R - {v}) \<times> (R - {v})"
      "\<And>x y. (x, y) \<in> F \<Longrightarrow> (x, y) \<in> E \<or> x = a \<and> (v, y) \<in> E \<or> y = a \<and> (v, x) \<in> E"
  shows "tree_decomposition (R - {v}) F n par (\<lambda>i. merged v a (bag i))"
proof -
  note nodes = tree_decompositionD(1) [OF d] and bags = tree_decompositionD(2) [OF d]
    and held = tree_decompositionD(3) [OF d] and links = tree_decompositionD(4) [OF d]
    and join = tree_decompositionD(5) [OF d]
  note h = holders_merged [OF a(2)]
  obtain k where k: "k \<in> holders n bag v" "k \<in> holders n bag a" using links [OF a(3)] by blast
  let ?A = "holders n bag a \<union> holders n bag v"
  have near: "joined n par ?A i k" "joined n par ?A k i" if "i \<in> ?A" for i
    using that join k by (auto intro: joined_mono)
  have "joined n par ?A i j" if "i \<in> ?A" "j \<in> ?A" for i j
    by (rule joined_trans [OF near(1) [OF that(1)] near(2) [OF that(2)]])
  then have "joined n par (holders n (\<lambda>i. merged v a (bag i)) x) i j"
    if "i \<in> holders n (\<lambda>i. merged v a (bag i)) x" "j \<in> holders n (\<lambda>i. merged v a (bag i)) x" for x i j
    using that join by (auto simp: h split: if_splits)
  moreover have "holders n (\<lambda>i. merged v a (bag i)) x \<inter> holders n (\<lambda>i. merged v a (bag i)) y \<noteq> {}"
    if e: "(x, y) \<in> F" for x y
  proof -
    have "x \<noteq> v" "y \<noteq> v" using e F(1) by auto
    then show ?thesis using F(2) [OF e] links [of x y] links [of v y] links [of v x] by (auto simp: h)
  qed
  moreover have "holders n (\<lambda>i. merged v a (bag i)) x \<noteq> {}" if "x \<in> R - {v}" for x
    using held [of x] that by (auto simp: h)
  moreover have "merged v a (bag i) \<subseteq> R - {v}" if "i < n" for i
    using bags [OF that] a by (auto simp: merged_def)
  ultimately show ?thesis using nodes by (auto simp: tree_decomposition_def)
qed

lemma contract_vertex:
  assumes tw: "treewidth_le R (adj_edges R adj) w" and fin: "finite R" and sym: "symmetric_on R adj"
    and v: "v \<in> R" and N: "N = adj v \<inter> (R - {v})" "card N \<le> 2"
  shows "treewidth_le (R - {v}) (adj_edges (R - {v}) (fill N adj)) w"
proof -
  obtain n par bag where d: "tree_decomposition R (adj_edges R adj) n par bag"
      and w: "\<And>i. i < n \<Longrightarrow> card (bag i) \<le> w + 1"
    using tw by (auto simp: treewidth_le_def)
  let ?F = "adj_edges (R - {v}) (fill N adj)"
  have bag: "finite (bag i)" if "i < n" for i
    using tree_decompositionD(2) [OF d that] fin by (rule finite_subset)
  show ?thesis
  proof (cases "N = {}")
    case True
    have "tree_decomposition (R - {v}) ?F n par (\<lambda>i. bag i - {v})"
      by (rule delete_vertex [OF d]) (auto simp: adj_edges_def fill_def True)
    moreover have "card (bag i - {v}) \<le> w + 1" if "i < n" for i
      using card_mono [OF bag [OF that], of "bag i - {v}"] w [OF that] by auto
    ultimately show ?thesis unfolding treewidth_le_def by blast
  next
    case False
    then obtain a where a: "a \<in> N" by blast
    have "card (N - {a}) \<le> Suc 0" using N(2) a by simp
    moreover have "finite (N - {a})" using fin N(1) by simp
    ultimately have "\<forall>x \<in> N - {a}. \<forall>y \<in> N - {a}. x = y" by (simp only: card_le_Suc0_iff_eq)
    then have one: "x = y" if "x \<in> N" "x \<noteq> a" "y \<in> N" "y \<noteq> a" for x y
      using that by blast
    have "tree_decomposition (R - {v}) ?F n par (\<lambda>i. merged v a (bag i))"
    proof (rule merge_vertex [OF d v])
      show "a \<in> R" "a \<noteq> v" "(v, a) \<in> adj_edges R adj" using a v N(1) by (auto simp: adj_edges_def)
      show "?F \<subseteq> (R - {v}) \<times> (R - {v})" by (auto simp: adj_edges_def)
      fix x y assume e: "(x, y) \<in> ?F"
      show "(x, y) \<in> adj_edges R adj \<or> x = a \<and> (v, y) \<in> adj_edges R adj \<or> y = a \<and> (v, x) \<in> adj_edges R adj"
      proof (cases "y \<in> adj x")
        case False
        then have "x \<in> N" "y \<in> N" "x \<noteq> y" using e by (auto simp: adj_edges_def fill_def split: if_splits)
        then have "x = a \<or> y = a" using one by blast
        then show ?thesis using \<open>x \<in> N\<close> \<open>y \<in> N\<close> v N(1) by (auto simp: adj_edges_def)
      qed (use e in \<open>auto simp: adj_edges_def\<close>)
    qed
    moreover have "card (merged v a (bag i)) \<le> w + 1" if "i < n" for i
      using card_merged [OF bag [OF that], of v a] w [OF that] by simp
    ultimately show ?thesis unfolding treewidth_le_def by blast
  qed
qed

section \<open>Taking a vertex of least degree\<close>

text \<open>An order that at each step takes a vertex with the fewest remaining neighbours.\<close>

fun least_degree_order :: "'a set \<Rightarrow> ('a \<Rightarrow> 'a set) \<Rightarrow> 'a list \<Rightarrow> bool" where
  "least_degree_order R adj [] = True"
| "least_degree_order R adj (v # vs) =
     ((\<forall>u\<in>R. card (adj v \<inter> (R - {v})) \<le> card (adj u \<inter> (R - {u}))) \<and>
      least_degree_order (R - {v}) (fill (adj v \<inter> (R - {v})) adj) vs)"

lemma least_degree_widths:
  assumes "least_degree_order R adj vs" "set vs = R" "distinct vs" "symmetric_on R adj"
    and "treewidth_le R (adj_edges R adj) w" "w \<le> 2"
  shows "k \<in> set (elim_widths R adj vs) \<Longrightarrow> k \<le> w"
  using assms
proof (induction vs arbitrary: R adj)
  case (Cons v vs)
  define N where "N = adj v \<inter> (R - {v})"
  have v: "v \<in> R" and fin: "finite R" using Cons.prems(3) by auto
  obtain x where x: "x \<in> R" "card (neighbors (adj_edges R adj) x) \<le> w"
    using low_degree [OF Cons.prems(6) fin] v by (auto simp: adj_edges_def)
  have "neighbors (adj_edges R adj) x = adj x \<inter> (R - {x})"
    using x(1) Cons.prems(5) by (auto simp: neighbors_def adj_edges_def symmetric_on_def)
  then have N: "card N \<le> w" using x Cons.prems(2) unfolding N_def by fastforce
  then have "treewidth_le (R - {v}) (adj_edges (R - {v}) (fill N adj)) w"
    using contract_vertex [OF Cons.prems(6) fin Cons.prems(5) v N_def] Cons.prems(7) by simp
  moreover have "set vs = R - {v}" using Cons.prems(3,4) by auto
  moreover have "k = card N \<or> k \<in> set (elim_widths (R - {v}) (fill N adj) vs)"
    using Cons.prems(1) by (simp add: N_def Let_def)
  moreover have "least_degree_order (R - {v}) (fill N adj) vs" using Cons.prems(2) by (simp add: N_def)
  ultimately show ?case
    using Cons.IH [of "R - {v}" "fill N adj"] N Cons.prems(4,7) symmetric_fill [OF Cons.prems(5)] by auto
qed simp

end
