(* ===== verification/Sotfs_Treewidth.thy ===== *)
theory Sotfs_Treewidth
  imports Sotfs_Graph Sotfs_Index Sotfs_Contraction
begin

text \<open>
  The treewidth checker, \<open>compute_treewidth\<close> and \<open>check_treewidth\<close> of \<open>sotfs-monitor/src/treewidth.rs\<close>:
  the undirected skeleton of the graph, the greedy elimination, and that its result bounds the
  treewidth.
\<close>

section \<open>The undirected skeleton\<close>

record skeleton =
  sk_ids :: "node_id \<rightharpoonup> nat"
  sk_nodes :: "nat list"
  sk_adj :: "(nat, nat bset) bmap"
  sk_next :: nat

definition add_skeleton_node :: "node_id \<Rightarrow> skeleton \<Rightarrow> skeleton" where
  "add_skeleton_node n s =
     (let uid = sk_next s
      in \<lparr>sk_ids = (sk_ids s)(n \<mapsto> uid), sk_nodes = sk_nodes s @ [uid],
          sk_adj = bmap_entry uid [] (\<lambda>nbrs. nbrs) (sk_adj s), sk_next = uid + 1\<rparr>)"

definition add_skeleton_edge :: "edge \<Rightarrow> skeleton \<Rightarrow> skeleton" where
  "add_skeleton_edge e s =
     (case (sk_ids s (src_node e), sk_ids s (tgt_node e)) of
        (Some su, Some tu) \<Rightarrow>
          if su \<noteq> tu then s\<lparr>sk_adj := mi_add tu su (mi_add su tu (sk_adj s))\<rparr> else s
      | _ \<Rightarrow> s)"

definition skeleton_nodes :: "type_graph \<Rightarrow> node_id list" where
  "skeleton_nodes g =
     map NInode (ar_keys (inodes g)) @ map NDirectory (ar_keys (dirs g)) @ map NCapability (ar_keys (caps g)) @
     map NBlock (ar_keys (blocks g)) @ map NVersion (ar_keys (versions g))"

definition skeleton_of :: "type_graph \<Rightarrow> skeleton" where
  "skeleton_of g =
     fold add_skeleton_edge (ar_values (edges g))
       (fold add_skeleton_node (skeleton_nodes g) \<lparr>sk_ids = Map.empty, sk_nodes = [], sk_adj = [], sk_next = 0\<rparr>)"

section \<open>Greedy elimination\<close>

text \<open>\<open>Iterator::min_by_key\<close> returns the first of several minima.\<close>

fun min_by_key :: "('a \<Rightarrow> nat) \<Rightarrow> 'a list \<Rightarrow> 'a option" where
  "min_by_key f [] = None"
| "min_by_key f (x # xs) =
     (case min_by_key f xs of None \<Rightarrow> Some x | Some y \<Rightarrow> if f y < f x then Some y else Some x)"

definition live_neighbors :: "(nat, nat bset) bmap \<Rightarrow> nat bset \<Rightarrow> nat \<Rightarrow> nat list" where
  "live_neighbors adj remaining u = filter (\<lambda>n. n \<in> set remaining) (mi_get adj u)"

definition join_neighbors :: "nat \<Rightarrow> nat \<Rightarrow> (nat, nat bset) bmap \<Rightarrow> (nat, nat bset) bmap" where
  "join_neighbors a b adj = mi_add b a (mi_add a b adj)"

lemma min_by_key_in: "min_by_key f xs = Some x \<Longrightarrow> x \<in> set xs"
  by (induction xs arbitrary: x) (auto split: option.splits if_splits)

lemma min_by_key_None [simp]: "min_by_key f xs = None \<longleftrightarrow> xs = []"
  by (cases xs) (auto split: option.split)

lemma min_by_key_least: "min_by_key f xs = Some x \<Longrightarrow> y \<in> set xs \<Longrightarrow> f x \<le> f y"
  by (induction xs arbitrary: x) (fastforce split: option.splits if_splits)+

function eliminate :: "(nat, nat bset) bmap \<Rightarrow> nat bset \<Rightarrow> nat \<Rightarrow> nat" where
  "eliminate adj remaining max_width =
     (case min_by_key (\<lambda>u. length (live_neighbors adj remaining u)) remaining of
        None \<Rightarrow> max_width
      | Some v \<Rightarrow>
          (let neighbors = live_neighbors adj remaining v
           in eliminate (fill_loop join_neighbors neighbors adj) (bset_remove v remaining)
                (if length neighbors > max_width then length neighbors else max_width)))"
  by pat_completeness auto
termination
  by (relation "measure (\<lambda>(_, remaining, _). length remaining)")
    (auto simp: bset_remove_def dest!: min_by_key_in intro!: length_filter_less)

declare eliminate.simps [simp del]

definition compute_treewidth :: "type_graph \<Rightarrow> nat" where
  "compute_treewidth g =
     (let s = skeleton_of g in eliminate (sk_adj s) (fold bset_insert (sk_nodes s) []) 0)"

record treewidth_result =
  tw_upper_bound :: nat
  tw_within_limit :: bool
  tw_limit :: nat
  tw_node_count :: nat
  tw_edge_count :: nat

definition check_treewidth :: "type_graph \<Rightarrow> nat \<Rightarrow> treewidth_result" where
  "check_treewidth g limit =
     (let upper_bound = compute_treewidth g
      in \<lparr>tw_upper_bound = upper_bound, tw_within_limit = (upper_bound \<le> limit), tw_limit = limit,
          tw_node_count = ar_len (inodes g) + ar_len (dirs g) + ar_len (caps g) + ar_len (blocks g) +
            ar_len (versions g),
          tw_edge_count = ar_len (edges g)\<rparr>)"

section \<open>The elimination as a game on sets\<close>

abbreviation adj_of :: "(nat, nat bset) bmap \<Rightarrow> nat \<Rightarrow> nat set" where
  "adj_of adj x \<equiv> set (mi_get adj x)"

interpretation sk: fillable join_neighbors mi_ok adj_of UNIV
  by unfold_locales (auto simp: join_neighbors_def mi.inv_add mi_get_add link_both_def fun_eq_iff)

definition loop_free :: "'a set \<Rightarrow> ('a \<Rightarrow> 'a set) \<Rightarrow> bool" where
  "loop_free R adj \<longleftrightarrow> (\<forall>x\<in>R. x \<notin> adj x)"

lemma loop_free_fill: "loop_free R adj \<Longrightarrow> loop_free (R - {v}) (fill N adj)"
  by (auto simp: loop_free_def fill_def)

lemma larger_of: "(if w < (k :: nat) then k else w) = max k w"
  by simp

lemma distinct_bset_remove: "distinct s \<Longrightarrow> distinct (bset_remove x s)"
  by (simp add: bset_remove_def)

lemma live_neighbors_set:
  "loop_free (set remaining) (adj_of adj) \<Longrightarrow> u \<in> set remaining \<Longrightarrow>
     set (live_neighbors adj remaining u) = adj_of adj u \<inter> (set remaining - {u})"
  by (auto simp: live_neighbors_def loop_free_def)

lemma live_neighbors_distinct: "mi_ok adj \<Longrightarrow> distinct (live_neighbors adj remaining u)"
  by (simp add: live_neighbors_def mi_ok_distinct)

text \<open>The loop takes an order of least degree, and its result is the largest neighbourhood of that order.\<close>

lemma eliminate_order:
  assumes "mi_ok adj" "distinct remaining" "loop_free (set remaining) (adj_of adj)"
  shows "\<exists>vs. set vs = set remaining \<and> distinct vs \<and> least_degree_order (set remaining) (adj_of adj) vs \<and>
    eliminate adj remaining w = fold max (elim_widths (set remaining) (adj_of adj) vs) w"
  using assms
proof (induction adj remaining w rule: eliminate.induct)
  case (1 adj remaining w)
  show ?case
  proof (cases "min_by_key (\<lambda>u. length (live_neighbors adj remaining u)) remaining")
    case None
    then show ?thesis by (intro exI [of _ "[]"]) (simp add: eliminate.simps [of _ "[]"])
  next
    case (Some v)
    let ?ns = "live_neighbors adj remaining v" and ?R = "set remaining"
    note v = min_by_key_in [OF Some]
    note dist = live_neighbors_distinct [OF 1(2), of remaining v] and live = live_neighbors_set [OF 1(4)]
    have ns: "set ?ns = adj_of adj v \<inter> (?R - {v})" by (rule live [OF v])
    have adj: "adj_of (fill_loop join_neighbors ?ns adj) = fill (set ?ns) (adj_of adj)" 
      and ok: "mi_ok (fill_loop join_neighbors ?ns adj)"
      using sk.fill_loop_nbrs [OF 1(2) dist] by simp_all
    have least: "card (set ?ns) \<le> card (adj_of adj u \<inter> (?R - {u}))" if "u \<in> ?R" for u
      using min_by_key_least [OF Some that]
      by (simp add: distinct_card [OF live_neighbors_distinct [OF 1(2)]] flip: live [OF that])
    obtain vs where vs: "set vs = ?R - {v}" "distinct vs"
        "least_degree_order (?R - {v}) (fill (set ?ns) (adj_of adj)) vs"
        "eliminate (fill_loop join_neighbors ?ns adj) (bset_remove v remaining) (max (length ?ns) w) =
           fold max (elim_widths (?R - {v}) (fill (set ?ns) (adj_of adj)) vs) (max (length ?ns) w)"
      using 1(1) [OF Some refl ok distinct_bset_remove [OF 1(3)]] loop_free_fill [OF 1(4)]
      unfolding larger_of adj set_bset_remove by blast
    have "eliminate adj remaining w = fold max (elim_widths ?R (adj_of adj) (v # vs)) w"
      using vs(4) by (subst eliminate.simps)
        (simp add: Some Let_def larger_of flip: ns distinct_card [OF dist])
    moreover have "least_degree_order ?R (adj_of adj) (v # vs)"
      using vs(3) least by (simp flip: ns)
    moreover have "set (v # vs) = ?R" "distinct (v # vs)" using vs(1,2) v by auto
    ultimately show ?thesis by blast
  qed
qed

section \<open>The skeleton stands for the graph\<close>

lemma mi_get_touch: "mi_get (bmap_entry k [] (\<lambda>nbrs. nbrs) m) = mi_get m"
  by (auto simp: mi_get_def bmap_get_entry fun_eq_iff split: option.split)

lemma mi_ok_touch: "mi_ok m \<Longrightarrow> mi_ok (bmap_entry k [] (\<lambda>nbrs. nbrs) m)"
  by (auto simp: mi_ok_def bmap_get_entry split: option.splits)

definition numbered :: "node_id list \<Rightarrow> skeleton \<Rightarrow> bool" where
  "numbered ns s \<longleftrightarrow>
     sk_next s = length ns \<and> sk_nodes s = [0..<length ns] \<and> sk_ids s = map_of (zip ns [0..<length ns]) \<and>
     (\<forall>x. adj_of (sk_adj s) x = {}) \<and> mi_ok (sk_adj s)"

lemma map_of_zip_snoc:
  "length xs = length ys \<Longrightarrow> x \<notin> set xs \<Longrightarrow> map_of (zip (xs @ [x]) (ys @ [y])) = (map_of (zip xs ys))(x \<mapsto> y)"
  by (auto simp: fun_eq_iff map_add_def map_of_eq_None_iff eq_commute [of None] dest!: map_of_SomeD dest: set_zip_leftD split: option.split)

lemma numbered_nodes:
  "distinct ns \<Longrightarrow>
     numbered ns (fold add_skeleton_node ns \<lparr>sk_ids = Map.empty, sk_nodes = [], sk_adj = [], sk_next = 0\<rparr>)"
proof (induction ns rule: rev_induct)
  case Nil
  then show ?case by (simp add: numbered_def)
next
  case (snoc n ns)
  then show ?case
    by (simp add: numbered_def add_skeleton_node_def Let_def mi_get_touch mi_ok_touch map_of_zip_snoc
        del: zip_append)
qed

definition skeleton_link :: "(node_id \<rightharpoonup> nat) \<Rightarrow> edge list \<Rightarrow> nat \<Rightarrow> nat \<Rightarrow> bool" where
  "skeleton_link ids es x y \<longleftrightarrow>
     x \<noteq> y \<and> (\<exists>e\<in>set es. ids (src_node e) = Some x \<and> ids (tgt_node e) = Some y)"

lemma skeleton_edges:
  "sk_ids (fold add_skeleton_edge es s) = sk_ids s \<and> sk_nodes (fold add_skeleton_edge es s) = sk_nodes s \<and>
   (mi_ok (sk_adj s) \<longrightarrow> mi_ok (sk_adj (fold add_skeleton_edge es s))) \<and>
   (\<forall>x. adj_of (sk_adj (fold add_skeleton_edge es s)) x =
      adj_of (sk_adj s) x \<union> {y. skeleton_link (sk_ids s) es x y \<or> skeleton_link (sk_ids s) es y x})"
proof (induction es arbitrary: s)
  case (Cons e es)
  have 1: "sk_ids (add_skeleton_edge e s) = sk_ids s \<and> sk_nodes (add_skeleton_edge e s) = sk_nodes s \<and>
      (mi_ok (sk_adj s) \<longrightarrow> mi_ok (sk_adj (add_skeleton_edge e s)))"
    by (auto simp: add_skeleton_edge_def mi.inv_add split: option.split)
  have 2: "adj_of (sk_adj (add_skeleton_edge e s)) x =
      adj_of (sk_adj s) x \<union> {y. skeleton_link (sk_ids s) [e] x y \<or> skeleton_link (sk_ids s) [e] y x}" for x
    by (auto simp: add_skeleton_edge_def skeleton_link_def mi_get_add split: option.split)
  show ?case
    using 1 2 Cons.IH [of "add_skeleton_edge e s"] by (auto simp: skeleton_link_def)
qed (simp add: skeleton_link_def)

lemma skeleton_nodes_distinct: "distinct (skeleton_nodes g)"
  by (auto simp: skeleton_nodes_def ar_keys_def distinct_map inj_on_def)

definition skeleton_edges_of :: "type_graph \<Rightarrow> (node_id \<times> node_id) set" where
  "skeleton_edges_of g =
     {(src_node e, tgt_node e) | e. e \<in> set (ar_values (edges g)) \<and> src_node e \<noteq> tgt_node e} \<inter>
     set (skeleton_nodes g) \<times> set (skeleton_nodes g)"

definition number_of :: "type_graph \<Rightarrow> node_id \<Rightarrow> nat" where
  "number_of g n = the (sk_ids (skeleton_of g) n)"

lemma map_of_zip_upt:
  assumes "distinct ns"
  shows "i < length ns \<Longrightarrow> map_of (zip ns [0..<length ns]) (ns ! i) = Some i"
    and "map_of (zip ns [0..<length ns]) n \<noteq> None \<longleftrightarrow> n \<in> set ns"
  using assms by (simp_all add: map_of_zip_nth map_of_zip_is_None)

lemma map_prod_image_iff: "(x, y) \<in> map_prod f f ` S \<longleftrightarrow> (\<exists>n m. (n, m) \<in> S \<and> x = f n \<and> y = f m)"
  by force

lemma skeleton_facts:
  fixes g
  defines "s \<equiv> skeleton_of g" and "V \<equiv> set (skeleton_nodes g)"
  shows "mi_ok (sk_adj s)" "sk_nodes s = [0..<length (skeleton_nodes g)]"
    "bij_betw (number_of g) V (set (sk_nodes s))"
    "symmetric_on R (adj_of (sk_adj s))" "loop_free R (adj_of (sk_adj s))"
    "adj_edges (set (sk_nodes s)) (adj_of (sk_adj s)) =
       map_prod (number_of g) (number_of g) ` (skeleton_edges_of g \<union> (skeleton_edges_of g)\<inverse>)"
proof -
  let ?ns = "skeleton_nodes g" and ?es = "ar_values (edges g)"
  let ?s = "fold add_skeleton_node ?ns \<lparr>sk_ids = Map.empty, sk_nodes = [], sk_adj = [], sk_next = 0\<rparr>"
  note num = numbered_nodes [OF skeleton_nodes_distinct, of g, unfolded numbered_def]
  note edges = skeleton_edges [of ?es ?s, folded skeleton_of_def]
  have ids: "sk_ids s = map_of (zip ?ns [0..<length ?ns])" using num edges by (simp add: s_def)
  have adj: "adj_of (sk_adj s) x = {y. skeleton_link (sk_ids s) ?es x y \<or> skeleton_link (sk_ids s) ?es y x}" for x
    using num edges by (simp add: s_def)
  show "mi_ok (sk_adj s)" "sk_nodes s = [0..<length ?ns]" using num edges by (simp_all add: s_def)
  have nth: "number_of g (?ns ! i) = i" if "i < length ?ns" for i
    using map_of_zip_upt(1) [OF skeleton_nodes_distinct that] by (simp add: number_of_def ids [unfolded s_def])
  show "bij_betw (number_of g) V (set (sk_nodes s))"
    by (rule bij_betw_byWitness [where f' = "\<lambda>i. ?ns ! i"])
      (use nth in \<open>auto simp: V_def \<open>sk_nodes s = _\<close> in_set_conv_nth\<close>)
  show "symmetric_on R (adj_of (sk_adj s))" by (auto simp: symmetric_on_def adj)
  show "loop_free R (adj_of (sk_adj s))" by (auto simp: loop_free_def adj skeleton_link_def)
  have id: "sk_ids s n = Some x \<longleftrightarrow> n \<in> V \<and> number_of g n = x" for n x
    using map_of_zip_upt(2) [OF skeleton_nodes_distinct, of g n]
    by (auto simp: number_of_def ids [unfolded s_def] ids V_def dest: map_of_SomeD set_zip_leftD)
  have inj: "inj_on (number_of g) V" and im: "number_of g ` V = set (sk_nodes s)"
    using \<open>bij_betw (number_of g) V (set (sk_nodes s))\<close> by (simp_all add: bij_betw_def)
  have link: "skeleton_link (sk_ids s) ?es x y \<longleftrightarrow>
      (\<exists>n m. (n, m) \<in> skeleton_edges_of g \<and> x = number_of g n \<and> y = number_of g m)" for x y
    using inj by (fastforce simp: skeleton_link_def id skeleton_edges_of_def V_def dest: inj_onD)
  have sub: "skeleton_edges_of g \<subseteq> V \<times> V" by (auto simp: skeleton_edges_of_def V_def)
  have "(x, y) \<in> adj_edges (set (sk_nodes s)) (adj_of (sk_adj s)) \<longleftrightarrow>
      (x, y) \<in> map_prod (number_of g) (number_of g) ` (skeleton_edges_of g \<union> (skeleton_edges_of g)\<inverse>)" for x y
    unfolding adj_edges_def adj mem_Collect_eq prod.case link im [symmetric] map_prod_image_iff
    using sub by blast
  then show "adj_edges (set (sk_nodes s)) (adj_of (sk_adj s)) =
      map_prod (number_of g) (number_of g) ` (skeleton_edges_of g \<union> (skeleton_edges_of g)\<inverse>)"
    by auto
qed

section \<open>The result bounds the treewidth of the skeleton\<close>

lemma fold_bset_insert: "set (fold bset_insert xs s) = set xs \<union> set s"
  "bset_ok s \<Longrightarrow> bset_ok (fold bset_insert xs s)"
  by (induction xs arbitrary: s) auto

lemma fold_max_least: "k \<in> set ks \<Longrightarrow> k \<le> fold max ks (w :: nat)"
  by (metis List.finite_set Max.set_eq_fold Max_ge list.set_intros(2))

lemma compute_order:
  fixes g
  defines "R \<equiv> set (sk_nodes (skeleton_of g))" and "adj \<equiv> adj_of (sk_adj (skeleton_of g))"
  obtains vs where "set vs = R" "distinct vs" "least_degree_order R adj vs"
    "compute_treewidth g = fold max (elim_widths R adj vs) 0"
proof -
  let ?rem = "fold bset_insert (sk_nodes (skeleton_of g)) []"
  have "set ?rem = R" "distinct ?rem" by (simp_all add: R_def fold_bset_insert bset_ok_distinct)
  then show thesis
    using eliminate_order [of "sk_adj (skeleton_of g)" ?rem 0] skeleton_facts(1,5) [where g = g] that
    by (auto simp: compute_treewidth_def Let_def adj_def)
qed

text \<open>The skeleton is the graph with its nodes numbered.\<close>

lemma skeleton_treewidth:
  "treewidth_le (set (sk_nodes (skeleton_of g))) (adj_edges (set (sk_nodes (skeleton_of g))) (adj_of (sk_adj (skeleton_of g)))) w
   \<longleftrightarrow> treewidth_le (set (skeleton_nodes g)) (skeleton_edges_of g) w"
proof -
  let ?V = "set (skeleton_nodes g)" and ?E = "skeleton_edges_of g \<union> (skeleton_edges_of g)\<inverse>"
  have "inj_on (number_of g) ?V" "number_of g ` ?V = set (sk_nodes (skeleton_of g))"
    using skeleton_facts(3) [where g = g] by (simp_all add: bij_betw_def)
  moreover have "?E \<subseteq> ?V \<times> ?V" by (auto simp: skeleton_edges_of_def)
  ultimately show ?thesis
    using treewidth_le_renamed [of "number_of g" ?V ?E w]
    by (simp add: skeleton_facts(6) treewidth_le_symmetric)
qed

lemma fold_max_le: "(\<And>k. k \<in> set ks \<Longrightarrow> k \<le> u) \<Longrightarrow> w \<le> u \<Longrightarrow> fold max ks w \<le> (u :: nat)"
  by (induction ks arbitrary: w) auto

lemma treewidth_bound:
  "treewidth_le (set (skeleton_nodes g)) (skeleton_edges_of g) (compute_treewidth g)"
proof -
  let ?s = "skeleton_of g"
  let ?adj = "adj_of (sk_adj ?s)"
  obtain vs where vs: "set vs = set (sk_nodes ?s)" "distinct vs"
      "compute_treewidth g = fold max (elim_widths (set (sk_nodes ?s)) ?adj vs) 0"
    by (rule compute_order)
  have "treewidth_le (set vs) (adj_edges (set vs) ?adj) (compute_treewidth g)"
    by (rule elimination_treewidth [OF vs(2) skeleton_facts(4)])
      (use vs(1,3) in \<open>auto simp: fold_max_least adj_edges_def\<close>)
  then show ?thesis by (simp add: vs(1) skeleton_treewidth)
qed

lemma treewidth_exact:
  assumes "w \<le> 2"
  shows "compute_treewidth g \<le> w \<longleftrightarrow> treewidth_le (set (skeleton_nodes g)) (skeleton_edges_of g) w"
proof
  let ?s = "skeleton_of g"
  let ?R = "set (sk_nodes ?s)" and ?adj = "adj_of (sk_adj ?s)"
  assume "treewidth_le (set (skeleton_nodes g)) (skeleton_edges_of g) w"
  then have tw: "treewidth_le ?R (adj_edges ?R ?adj) w" by (simp add: skeleton_treewidth)
  obtain vs where vs: "set vs = ?R" "distinct vs" "least_degree_order ?R ?adj vs"
      "compute_treewidth g = fold max (elim_widths ?R ?adj vs) 0"
    by (rule compute_order)
  have "k \<le> w" if "k \<in> set (elim_widths ?R ?adj vs)" for k
    by (rule least_degree_widths [OF vs(3,1,2) skeleton_facts(4) tw assms that])
  then show "compute_treewidth g \<le> w" by (simp add: vs(4) fold_max_le)
qed (use treewidth_bound treewidth_le_mono in blast)

end
