(* ===== verification/Sotfs_Links.thy ===== *)
theory Sotfs_Links
  imports Sotfs_Treewidth Sotfs_Invariants
begin

text \<open>
  The treewidth of a file system without hard links: two.  The directories are added to a tree
  decomposition parents first, then the files.
\<close>

section \<open>The names as a graph\<close>

definition name_edges :: "fs \<Rightarrow> (node_id \<times> node_id) set" where
  "name_edges f = {(NDirectory d, NInode i) | d i. \<exists>n. fs_name f (d, n) = Some i}"

text \<open>The chordal completion: the inode of a directory is also joined with that of its parent.\<close>

definition completed :: "fs \<Rightarrow> (node_id \<times> node_id) set" where
  "completed f =
     name_edges f \<union> {(NInode i, NInode j) | i j. \<exists>d. fs_dir f d = Some i \<and> fs_name f (d, ''..'') = Some j}"

definition around :: "(node_id \<times> node_id) set \<Rightarrow> node_id \<Rightarrow> node_id set" where
  "around E x = {y. (x, y) \<in> E \<or> (y, x) \<in> E}"

lemma around_sym: "symmetric_on R (around E)"
  by (auto simp: symmetric_on_def around_def)

lemma around_dir [simp]:
  "y \<in> around (completed f) (NDirectory d) \<longleftrightarrow> (\<exists>i n. y = NInode i \<and> fs_name f (d, n) = Some i)"
  by (auto simp: around_def completed_def name_edges_def)

lemma around_inode:
  "y \<in> around (completed f) (NInode i) \<longleftrightarrow>
     (\<exists>d n. y = NDirectory d \<and> fs_name f (d, n) = Some i) \<or>
     (\<exists>j d. y = NInode j \<and> (fs_dir f d = Some i \<and> fs_name f (d, ''..'') = Some j \<or>
                             fs_dir f d = Some j \<and> fs_name f (d, ''..'') = Some i))"
  by (auto simp: around_def completed_def name_edges_def)

section \<open>The directories\<close>

definition dir_part :: "fs \<Rightarrow> dir_id set \<Rightarrow> node_id set" where
  "dir_part f D = NDirectory ` D \<union> {NInode i | i. \<exists>d\<in>D. fs_dir f d = Some i}"

text \<open>Which directory and which name lead to the inode of a directory.\<close>

lemma entry_of_dir:
  assumes ok: "fs_ok f" and d: "fs_dir f d = Some i" and e: "fs_name f (p, n) = Some i"
  shows "n = ''.'' \<and> p = d \<or> n = ''..'' \<and> (d, p) \<in> fs_child f \<or> dir_entry f (p, n) d"
proof -
  consider "n = ''.''" | "n = ''..''" | "user_name n" by (auto simp: user_name_def)
  then show ?thesis
  proof cases
    case 1
    then show ?thesis using dot_entry [OF ok] e fs_ok_dir(3) [OF ok _ d] by blast
  next
    case 2
    then obtain m q where "dir_entry f (q, m) p" "fs_dir f q = Some i" using dotdot_parent [OF ok] e by blast
    then show ?thesis using 2 fs_ok_dir(3) [OF ok _ d] by (auto simp: fs_child_def)
  next
    case 3
    then show ?thesis using d e by (auto simp: dir_entry_def)
  qed
qed

lemma dotdot_of_dir:
  assumes ok: "fs_ok f" and d: "fs_dir f d = Some i" and p: "dir_entry f k d" "fs_dir f (fst k) = Some j"
  shows "fs_name f (d, ''..'') = Some j"
  using dotdot_of_child [OF ok p(1)] p(2) by simp

text \<open>A directory that comes after its parent and before its children touches only the two nodes of its parent.\<close>

definition parent_nodes :: "fs \<Rightarrow> dir_id \<Rightarrow> node_id set" where
  "parent_nodes f d =
     {NDirectory p | p. (p, d) \<in> fs_child f} \<union> {NInode j | j. fs_name f (d, ''..'') = Some j}"

lemma new_dir_inode:
  assumes ok: "fs_ok f" and d: "fs_dir f d = Some i"
    and D: "d \<notin> D" "\<And>c. (d, c) \<in> fs_child f \<Longrightarrow> c \<notin> D"
  shows "around (completed f) (NInode i) \<inter> dir_part f D \<subseteq> parent_nodes f d"
proof
  fix y assume y: "y \<in> around (completed f) (NInode i) \<inter> dir_part f D"
  from y consider (dir) e m where "y = NDirectory e" "e \<in> D" "fs_name f (e, m) = Some i"
    | (up) l e where "y = NInode l" "fs_dir f e = Some i" "fs_name f (e, ''..'') = Some l"
    | (down) l e where "y = NInode l" "fs_dir f e = Some l" "fs_name f (e, ''..'') = Some i"
        "\<exists>c\<in>D. fs_dir f c = Some l"
    unfolding Int_iff around_inode dir_part_def by blast
  then show "y \<in> parent_nodes f d"
  proof cases
    case dir
    then show ?thesis using entry_of_dir [OF ok d dir(3)] D by (auto simp: parent_nodes_def fs_child_def)
  next
    case up
    then show ?thesis using fs_ok_dir(3) [OF ok up(2) d] by (auto simp: parent_nodes_def)
  next
    case down
    obtain m q where "dir_entry f (q, m) e" "fs_dir f q = Some i" by (rule dotdot_parent [OF ok down(3)])
    then have "(d, e) \<in> fs_child f" using fs_ok_dir(3) [OF ok _ d] by (auto simp: fs_child_def)
    moreover have "e \<in> D" using down(2,4) fs_ok_dir(3) [OF ok] by blast
    ultimately show ?thesis using D(2) by blast
  qed
qed

lemma clique_pair: "symmetric_on {a, b} adj \<Longrightarrow> b \<in> adj a \<Longrightarrow> K \<subseteq> {a, b} \<Longrightarrow> clique adj K"
  by (auto simp: clique_def symmetric_on_def)

lemma card_pair: "K \<subseteq> {a, b} \<Longrightarrow> card K \<le> 2"
  using card_mono [of "{a, b}" K] card_insert_le_m1 [of 2 "{b}" a] by simp

lemma parent_nodes_small:
  assumes ok: "fs_ok f" and d: "fs_dir f d \<noteq> None" and K: "K \<subseteq> parent_nodes f d"
  shows "clique (around (completed f)) K \<and> card K \<le> 2"
proof (cases "d = fs_root f")
  case True
  then have "K = {}" using K fs_ok_tree(4,5) [OF ok] by (auto simp: parent_nodes_def fs_child_def)
  then show ?thesis by (simp add: clique_def)
next
  case False
  then obtain p n where k: "dir_entry f (p, n) d" "fs_name f (d, ''..'') = fs_dir f p"
    using fs_ok_tree(6) [OF ok False d] by auto
  obtain j where j: "fs_dir f p = Some j" using dir_entry_dir [OF ok k(1)] by auto
  have "parent_nodes f d \<subseteq> {NDirectory p, NInode j}"
    using fs_ok_tree(2) [OF ok k(1)] k(2) j by (auto simp: parent_nodes_def fs_child_def)
  moreover have "NInode j \<in> around (completed f) (NDirectory p)" using fs_ok_dir(2) [OF ok j] by auto
  ultimately show ?thesis using K clique_pair [OF around_sym] card_pair by (metis subset_trans)
qed

lemma new_dir_node:
  assumes ok: "fs_ok f" and d: "fs_dir f d = Some i"
    and D: "\<And>c. (d, c) \<in> fs_child f \<Longrightarrow> c \<notin> D"
  shows "around (completed f) (NDirectory d) \<inter> insert (NInode i) (dir_part f D) \<subseteq>
    {NInode i} \<union> {NInode j | j. fs_name f (d, ''..'') = Some j}"
proof
  fix y assume y: "y \<in> around (completed f) (NDirectory d) \<inter> insert (NInode i) (dir_part f D)"
  then obtain l n where l: "y = NInode l" "fs_name f (d, n) = Some l" by auto
  show "y \<in> {NInode i} \<union> {NInode j | j. fs_name f (d, ''..'') = Some j}"
  proof (cases "l = i")
    case False
    then obtain c where c: "c \<in> D" "fs_dir f c = Some l" using y l(1) by (auto simp: dir_part_def)
    have "\<not> dir_entry f (d, n) c" using D c(1) by (auto simp: fs_child_def)
    then have "n = ''..'' \<or> c = d" using entry_of_dir [OF ok c(2) l(2)] by auto
    then show ?thesis using l c(2) d False by auto
  qed (use l in simp)
qed

lemma new_dir_node_small:
  assumes ok: "fs_ok f" and d: "fs_dir f d = Some i"
    and K: "K \<subseteq> {NInode i} \<union> {NInode j | j. fs_name f (d, ''..'') = Some j}"
  shows "clique (around (completed f)) K \<and> card K \<le> 2"
proof (cases "fs_name f (d, ''..'')")
  case None
  then have K: "K \<subseteq> {NInode i, NInode i}" using K by auto
  then have "clique (around (completed f)) K" by (auto simp: clique_def)
  then show ?thesis using card_pair [OF K] by simp
next
  case (Some j)
  then have "K \<subseteq> {NInode i, NInode j}" using K by auto
  moreover have "NInode j \<in> around (completed f) (NInode i)" using d Some by (auto simp: around_inode)
  ultimately show ?thesis using clique_pair [OF around_sym] card_pair by metis
qed

text \<open>Some directory of a finite set has no child in it.\<close>

lemma lowest_dir:
  assumes ok: "fs_ok f" and D: "finite D" "D \<noteq> {}"
  obtains d where "d \<in> D" "\<And>c. (d, c) \<in> fs_child f \<Longrightarrow> c \<notin> D"
proof -
  let ?r = "fs_child f \<inter> D \<times> D"
  have "acyclic ?r" by (rule acyclic_subset [OF fs_ok_tree(1) [OF ok]]) blast
  moreover have "finite ?r" using D(1) by simp
  ultimately have "wf (?r\<inverse>)" by (simp add: finite_acyclic_wf_converse)
  moreover obtain z where "z \<in> D" using D(2) by blast
  ultimately obtain d where d: "d \<in> D" "\<forall>c. (c, d) \<in> ?r\<inverse> \<longrightarrow> c \<notin> D"
    unfolding wf_eq_minimal by blast
  show thesis by (rule that [OF d(1)]) (use d in blast)
qed

lemma dirs_tree:
  assumes ok: "fs_ok f" and D: "finite D" "\<And>d. d \<in> D \<Longrightarrow> fs_dir f d \<noteq> None"
    and up: "\<And>p c. (p, c) \<in> fs_child f \<Longrightarrow> c \<in> D \<Longrightarrow> p \<in> D"
  shows "clique_tree_le (dir_part f D) (around (completed f)) 2"
  using D up
proof (induction D rule: finite_psubset_induct)
  case (psubset D)
  show ?case
  proof (cases "D = {}")
    case True
    then show ?thesis by (simp add: dir_part_def clique_tree_le_empty)
  next
    case False
    let ?A = "around (completed f)"
    obtain d where d: "d \<in> D" "\<And>c. (d, c) \<in> fs_child f \<Longrightarrow> c \<notin> D"
      using lowest_dir [OF ok psubset(1) False] by metis
    obtain i where i: "fs_dir f d = Some i" using psubset(3) [OF d(1)] by auto
    let ?P = "dir_part f (D - {d})"
    have parts: "dir_part f D = insert (NDirectory d) (insert (NInode i) ?P)"
      using d(1) i by (auto simp: dir_part_def) (metis Diff_iff option.inject singletonD)
    have fresh: "NInode i \<notin> ?P" "NDirectory d \<notin> insert (NInode i) ?P"
      using fs_ok_dir(3) [OF ok i] by (auto simp: dir_part_def)
    have "clique_tree_le ?P ?A 2"
      by (rule psubset(2)) (use d psubset(3,4) in auto)
    moreover have "clique ?A (?A (NInode i) \<inter> ?P) \<and> card (?A (NInode i) \<inter> ?P) \<le> 2"
      by (rule parent_nodes_small [OF ok _ new_dir_inode [OF ok i]]) (use i d(2) in auto)
    ultimately have "clique_tree_le (insert (NInode i) ?P) ?A 2"
      by (intro clique_tree_le_insert [OF _ fresh(1) around_sym]) auto
    moreover have "clique ?A (?A (NDirectory d) \<inter> insert (NInode i) ?P) \<and>
        card (?A (NDirectory d) \<inter> insert (NInode i) ?P) \<le> 2"
      by (rule new_dir_node_small [OF ok i new_dir_node [OF ok i]]) (use d(2) in auto)
    ultimately show ?thesis
      unfolding parts by (intro clique_tree_le_insert [OF _ fresh(2) around_sym]) auto
  qed
qed

section \<open>The rest\<close>

text \<open>Vertices with at most one neighbour among the others, in any number.\<close>

lemma leaves_tree:
  assumes "finite L" "clique_tree_le R (around E) w" "L \<inter> R = {}" "1 \<le> w"
    and one: "\<And>v x y. v \<in> L \<Longrightarrow> x \<in> around E v \<inter> (R \<union> L) \<Longrightarrow> y \<in> around E v \<inter> (R \<union> L) \<Longrightarrow> x = y"
  shows "clique_tree_le (R \<union> L) (around E) w"
  using assms
proof (induction L)
  case (insert v L)
  let ?N = "around E v \<inter> (R \<union> L)"
  have same: "x = y" if "x \<in> ?N" "y \<in> ?N" for x y using insert.prems(4) [of v x y] that by auto
  then have "clique (around E) ?N" by (auto simp: clique_def)
  moreover have "card ?N \<le> w"
  proof (cases "finite ?N")
    case True
    then have "card ?N \<le> Suc 0" using same by (simp only: card_le_Suc0_iff_eq) blast
    then show ?thesis using insert.prems(3) by simp
  qed simp
  moreover have "clique_tree_le (R \<union> L) (around E) w"
  proof (rule insert.IH [OF insert.prems(1) _ insert.prems(3)])
    show "x = y" if "u \<in> L" "x \<in> around E u \<inter> (R \<union> L)" "y \<in> around E u \<inter> (R \<union> L)" for u x y
      by (rule insert.prems(4) [of u]) (use that in auto)
  qed (use insert.prems(2) in auto)
  ultimately show ?case
    using clique_tree_le_insert [of "R \<union> L" "around E" w v] insert.hyps(2) insert.prems(2)
    by (simp add: around_sym)
qed simp

definition no_hard_links :: "fs \<Rightarrow> bool" where
  "no_hard_links f \<longleftrightarrow>
     (\<forall>i x. fs_inode f i = Some x \<longrightarrow> vtype x \<noteq> Directory \<longrightarrow> unat (link_count x) \<le> 1)"

lemma stored_keys: "ar_inv a \<Longrightarrow> i \<in> set (ar_keys a) \<longleftrightarrow> ar_get a i \<noteq> None"
  using ar.entries_get [of a i] by (force simp: ar_keys_iter)

lemma stored_values: "ar_inv a \<Longrightarrow> v \<in> set (ar_values a) \<longleftrightarrow> (\<exists>i. ar_get a i = Some v)"
  using ar.entries_get [of a _ v] by (force simp: ar_values_def)

lemma file_one_name:
  assumes ok: "fs_ok f" and one: "no_hard_links f" and i: "fs_inode f i \<noteq> None" "\<not> is_dir f i"
    and e: "fs_name f (d, n) = Some i" "fs_name f (d', n') = Some i"
  shows "d = d'"
proof -
  obtain x where x: "fs_inode f i = Some x" "vtype x \<noteq> Directory" using i by (auto simp: is_dir_def)
  then have "unat (link_count x) \<le> 1" using one unfolding no_hard_links_def by blast
  then have "card (links f i) \<le> Suc 0" using fs_ok_links [OF ok x(1)] by simp
  then have "\<forall>k\<in>links f i. \<forall>l\<in>links f i. k = l" by (simp only: card_le_Suc0_iff_eq [OF finite_links [OF ok]])
  moreover have "(d, n) \<in> links f i" "(d', n') \<in> links f i"
    using e file_entry_user [OF ok _ i(2)] by (auto simp: links_def user_name_def)
  ultimately show ?thesis by blast
qed

text \<open>The names alone, over all nodes of the skeleton.\<close>

lemma names_treewidth:
  assumes wf: "well_formed g" and one: "no_hard_links (fs_of g)"
  shows "treewidth_le (set (skeleton_nodes g)) (name_edges (fs_of g) \<inter> set (skeleton_nodes g) \<times> set (skeleton_nodes g)) 2"
proof -
  let ?f = "fs_of g" and ?V = "set (skeleton_nodes g)"
  let ?D = "{d. fs_dir ?f d \<noteq> None}" and ?E = "name_edges ?f"
  note ok = well_formedD(2) [OF wf]
  have inv: "ar_inv (dirs g)" "ar_inv (inodes g)"
    using well_formedD(4,5) [OF wf] by (simp_all add: dirs_ok_def inodes_ok_def)
  have dirs: "NDirectory d \<in> ?V \<longleftrightarrow> d \<in> ?D" for d
    using stored_keys [OF inv(1)] by (auto simp: skeleton_nodes_def)
  have inodes: "NInode i \<in> ?V \<longleftrightarrow> fs_inode ?f i \<noteq> None" for i
    using stored_keys [OF inv(2)] by (auto simp: skeleton_nodes_def)
  let ?R = "dir_part ?f ?D"
  have "finite (NDirectory -` ?V)" by (intro finite_vimageI) (auto simp: inj_def)
  moreover have "NDirectory -` ?V = ?D" using dirs by blast
  ultimately have "finite ?D" by simp
  then have "clique_tree_le ?R (around (completed ?f)) 2"
    by (rule dirs_tree [OF ok]) (use dir_entry_dir [OF ok] in \<open>auto simp: fs_child_def simp del: fs_of_simps\<close>)
  then have R: "clique_tree_le ?R (around ?E) 2"
    by (rule clique_tree_le_subgraph) (auto simp: around_def completed_def)
  have sub: "?R \<subseteq> ?V"
    using dirs inodes fs_ok_dir(1) [OF ok] by (force simp: dir_part_def is_dir_def simp del: fs_of_simps)
  have leaf: "x = y" if v: "v \<in> ?V - ?R" and x: "x \<in> around ?E v" and y: "y \<in> around ?E v" for v x y
  proof -
    obtain i where i: "v = NInode i" using v x dirs by (auto simp: around_def name_edges_def dir_part_def simp del: fs_of_simps)
    have i': "fs_inode ?f i \<noteq> None" using v inodes [of i] unfolding i by simp
    have "\<not> is_dir ?f i"
    proof
      assume "is_dir ?f i"
      then obtain d where "fs_dir ?f d = Some i" using fs_ok_dir(4) [OF ok] by blast
      then have "NInode i \<in> ?R" unfolding dir_part_def by blast
      then show False using v unfolding i by simp
    qed
    note i' = i' this
    from file_one_name [OF ok one i'] x y i show ?thesis
      by (auto simp: around_def name_edges_def simp del: fs_of_simps)
  qed
  have "clique_tree_le (?R \<union> (?V - ?R)) (around ?E) 2"
  proof (rule leaves_tree [OF _ R])
    show "(?V - ?R) \<inter> ?R = {}" by blast
    show "x = y" if "v \<in> ?V - ?R" "x \<in> around ?E v \<inter> (?R \<union> (?V - ?R))" "y \<in> around ?E v \<inter> (?R \<union> (?V - ?R))"
      for v x y
      using leaf that by blast
  qed simp_all
  moreover have "?R \<union> (?V - ?R) = ?V" using sub by blast
  moreover have "?E \<inter> ?V \<times> ?V \<subseteq> {(x, y). x \<in> ?V \<and> y \<in> around ?E x \<and> y \<in> ?V}"
    by (auto simp: around_def)
  ultimately show ?thesis by (intro clique_tree_le_treewidth [OF _ _ around_sym]) simp_all
qed

end
