(* ===== verification/Sotfs_Widths.thy ===== *)
theory Sotfs_Widths
  imports Sotfs_Links Sotfs_Affected
begin

text \<open>
  What \<open>compute_treewidth\<close> and \<open>check_treewidth\<close> say about the graph as it is documented (\<open>Sotfs_Shape\<close>): all
  seven kinds of nodes, and \<open>PointsTo\<close> edges that lead to blocks.  The checker numbers five kinds of nodes and
  takes the block at the end of an extent for an inode, so its skeleton is another graph.  Its result is
  nevertheless an upper bound as long as every block and every attribute belongs to one inode only, as the
  operations leave them: such a node is a leaf.
\<close>

section \<open>Leaves\<close>

definition single_owner :: "type_graph \<Rightarrow> bool" where
  "single_owner g \<longleftrightarrow>
     (\<forall>k l e e' i i' b off off'. ar_get (edges g) k = Some (PointsTo e i b off) \<longrightarrow>
        ar_get (edges g) l = Some (PointsTo e' i' b off') \<longrightarrow> i = i') \<and>
     (\<forall>k l e e' i i' x. ar_get (edges g) k = Some (HasXattr e i x) \<longrightarrow>
        ar_get (edges g) l = Some (HasXattr e' i' x) \<longrightarrow> i = i')"

text \<open>The nodes that are no leaves: all are nodes of the checker's skeleton too.\<close>

definition inner_nodes :: "type_graph \<Rightarrow> node_id set" where
  "inner_nodes g = {n \<in> graph_nodes g. case n of NBlock _ \<Rightarrow> False | NTransaction _ \<Rightarrow> False | NXAttr _ \<Rightarrow> False | _ \<Rightarrow> True}"

lemma skeleton_stored:
  assumes "containers_ok g"
  shows "n \<in> set (skeleton_nodes g) \<longleftrightarrow>
    n \<in> graph_nodes g \<and> (case n of NTransaction _ \<Rightarrow> False | NXAttr _ \<Rightarrow> False | _ \<Rightarrow> True)"
  by (cases n)
    (auto simp: skeleton_nodes_def graph_nodes_def stored_keys [OF containers_okD(1) [OF assms]]
      stored_keys [OF containers_okD(2) [OF assms]] stored_keys [OF containers_okD(3) [OF assms]]
      stored_keys [OF containers_okD(5) [OF assms]] stored_keys [OF containers_okD(6) [OF assms]])

lemma inner_skeleton: "containers_ok g \<Longrightarrow> inner_nodes g \<subseteq> set (skeleton_nodes g)"
  by (auto simp: skeleton_stored inner_nodes_def split: node_id.splits)

lemma finite_graph_nodes: "containers_ok g \<Longrightarrow> finite (graph_nodes g)"
proof -
  assume c: "containers_ok g"
  have dom: "{f i | i. ar_get a i \<noteq> None} = f ` dom (ar_get a)" for f :: "nat \<Rightarrow> node_id" and a :: "'x arena"
    by (auto simp: dom_def)
  have "{NXAttr x | x. bmap_get (xattrs g) x \<noteq> None} = NXAttr ` dom (map_of (xattrs g))" by (auto simp: dom_def)
  then show "finite (graph_nodes g)"
    unfolding graph_nodes_def dom using containers_okD(1-7) [OF c] by (simp add: ar.finite_dom finite_dom_map_of)
qed

lemma edge_source_inner: "(x, y) \<in> graph_edges g \<Longrightarrow> x \<in> inner_nodes g"
proof -
  assume "(x, y) \<in> graph_edges g"
  then obtain e where "(x, y) = edge_ends e" "x \<in> graph_nodes g" by (auto simp: graph_edges_def)
  then show ?thesis by (cases e) (simp_all add: inner_nodes_def)
qed

lemma inner_edges:
  assumes "containers_ok g"
  shows "graph_edges g \<inter> inner_nodes g \<times> inner_nodes g \<subseteq> skeleton_edges_of g"
proof
  fix p assume p: "p \<in> graph_edges g \<inter> inner_nodes g \<times> inner_nodes g"
  then obtain e k where e: "p = edge_ends e" "edge_at g k = Some e" "fst p \<noteq> snd p" by (auto simp: graph_edges_def)
  then have "e \<in> set (ar_values (edges g))" using stored_values [OF containers_okD(7) [OF assms]] by blast
  moreover have "edge_ends e = (src_node e, tgt_node e)"
    using p e(1) by (cases e) (simp_all add: inner_nodes_def)
  ultimately show "p \<in> skeleton_edges_of g"
    using p e inner_skeleton [OF assms] by (auto simp: skeleton_edges_of_def)
qed

text \<open>So a decomposition of the skeleton gives one of the documented graph.\<close>

lemma documented_width:
  assumes c: "containers_ok g" and one: "single_owner g" and w: "1 \<le> w"
    and tw: "treewidth_le (inner_nodes g) (graph_edges g \<inter> inner_nodes g \<times> inner_nodes g) w"
  shows "treewidth_le (graph_nodes g) (graph_edges g) w"
proof -
  let ?V = "inner_nodes g" and ?L = "graph_nodes g - inner_nodes g" and ?N = "\<lambda>x. {y. (y, x) \<in> graph_edges g}"
  have V: "?V \<union> ?L = graph_nodes g" by (auto simp: inner_nodes_def)
  have "\<exists>y. ?N x \<subseteq> {y} \<inter> ?V" if x: "x \<in> ?L" for x
  proof -
    have same: "y = z" if yz: "(y, x) \<in> graph_edges g" "(z, x) \<in> graph_edges g" for y z
    proof -
      obtain e k where e: "edge_at g k = Some e" "edge_ends e = (y, x)" using yz(1) by (auto simp: graph_edges_def)
      obtain f l where f: "edge_at g l = Some f" "edge_ends f = (z, x)" using yz(2) by (auto simp: graph_edges_def)
      from x consider b where "x = NBlock b" | t where "x = NTransaction t" | a where "x = NXAttr a"
        by (cases x) (auto simp: inner_nodes_def)
      then show ?thesis
      proof cases
        case 1
        obtain i o1 where "e = PointsTo (edge_id e) i b o1" "y = NInode i" using e(2) 1 by (cases e) auto
        moreover obtain j o2 where "f = PointsTo (edge_id f) j b o2" "z = NInode j" using f(2) 1 by (cases f) auto
        ultimately show ?thesis using one e(1) f(1) unfolding single_owner_def by metis
      next
        case 2
        then show ?thesis using e(2) by (cases e) simp_all
      next
        case 3
        obtain i where "e = HasXattr (edge_id e) i a" "y = NInode i" using e(2) 3 by (cases e) auto
        moreover obtain j where "f = HasXattr (edge_id f) j a" "z = NInode j" using f(2) 3 by (cases f) auto
        ultimately show ?thesis using one e(1) f(1) unfolding single_owner_def by metis
      qed
    qed
    show ?thesis
    proof (cases "?N x = {}")
      case False
      then obtain y where y: "(y, x) \<in> graph_edges g" by blast
      then have "?N x \<subseteq> {y} \<inter> ?V" using same edge_source_inner by blast
      then show ?thesis by blast
    qed simp
  qed
  then have "treewidth_le (?V \<union> ?L) (graph_edges g \<inter> ?V \<times> ?V \<union> {(x, y). x \<in> ?L \<and> y \<in> ?N x}) w"
    by (intro treewidth_le_leaves [OF tw w]) (use finite_graph_nodes [OF c] in auto)
  then show ?thesis
    unfolding V
  proof (rule treewidth_le_subgraph [OF _ finite_graph_nodes [OF c] subset_refl])
    show "graph_edges g \<subseteq> (graph_edges g \<inter> ?V \<times> ?V \<union> {(x, y). x \<in> ?L \<and> y \<in> ?N x}) \<union>
        (graph_edges g \<inter> ?V \<times> ?V \<union> {(x, y). x \<in> ?L \<and> y \<in> ?N x})\<inverse>"
    proof (rule subrelI)
      fix a b assume ab: "(a, b) \<in> graph_edges g"
      have "a \<in> ?V" by (rule edge_source_inner [OF ab])
      moreover have "b \<in> graph_nodes g" using ab by (auto simp: graph_edges_def)
      ultimately show "(a, b) \<in> (graph_edges g \<inter> ?V \<times> ?V \<union> {(x, y). x \<in> ?L \<and> y \<in> ?N x}) \<union>
          (graph_edges g \<inter> ?V \<times> ?V \<union> {(x, y). x \<in> ?L \<and> y \<in> ?N x})\<inverse>"
        using ab by (cases "b \<in> ?V") simp_all
    qed
    show "graph_edges g \<subseteq> graph_nodes g \<times> graph_nodes g" by (auto simp: graph_edges_def)
  qed
qed

lemma skeleton_bounds_inner:
  assumes "containers_ok g" "treewidth_le (set (skeleton_nodes g)) E w"
    and "graph_edges g \<inter> inner_nodes g \<times> inner_nodes g \<subseteq> E"
  shows "treewidth_le (inner_nodes g) (graph_edges g \<inter> inner_nodes g \<times> inner_nodes g) w"
  by (rule treewidth_le_subgraph [OF assms(2)]) (use inner_skeleton [OF assms(1)] assms(3) in auto)

lemma documented_bound:
  assumes c: "containers_ok g" and "single_owner g"
  shows "treewidth_le (graph_nodes g) (graph_edges g) (max 1 (compute_treewidth g))"
  by (rule documented_width [OF assms]) (simp, rule treewidth_le_mono [OF skeleton_bounds_inner [OF c treewidth_bound inner_edges [OF c]]], simp)

section \<open>The bound is positive\<close>

lemma treewidth_zero:
  assumes "treewidth_le V E 0" "finite V" "(x, y) \<in> E"
  shows "x = y"
proof -
  obtain n par bag where t: "tree_decomposition V E n par bag" and w: "\<And>i. i < n \<Longrightarrow> card (bag i) \<le> 1"
    using assms(1) by (auto simp: treewidth_le_def)
  then have "holders n bag x \<inter> holders n bag y \<noteq> {}" using assms(3) by (auto simp: tree_decomposition_def)
  then obtain i where i: "i < n" "x \<in> bag i" "y \<in> bag i" by (auto simp: holders_def)
  moreover have "finite (bag i)" using t i(1) assms(2) by (meson finite_subset tree_decomposition_def)
  then have "card (bag i) \<le> Suc 0 \<longleftrightarrow> (\<forall>x \<in> bag i. \<forall>y \<in> bag i. x = y)" by (rule card_le_Suc0_iff_eq)
  ultimately show ?thesis using w [OF i(1)] by simp
qed

lemma compute_positive:
  assumes wf: "well_formed g"
  shows "1 \<le> compute_treewidth g"
proof -
  let ?f = "fs_of g" and ?r = "root_dir g"
  note ok = well_formedD(2) [OF wf]
  have "fs_dir ?f ?r \<noteq> None" using fs_ok_tree(3) [OF ok] by simp
  then obtain i where i: "fs_dir ?f ?r = Some i" by blast
  have name: "fs_name ?f (?r, ''.'') = Some i" by (rule fs_ok_dir(2) [OF ok i])
  then have "\<exists>e. edge_at g e = Some (Contains e ?r i ''.'')"
    using names_of_iff [OF well_formedD(3) [OF wf], of ?r "''.''" i] by (simp only: fs_of_simps)
  then obtain e where e: "edge_at g e = Some (Contains e ?r i ''.'')" by blast
  have "is_dir ?f i" by (rule fs_ok_dir(1) [OF ok i])
  then have "inode_at g i \<noteq> None" unfolding is_dir_def fs_of_simps by blast
  moreover have "dir_at g ?r \<noteq> None" using i by (cases "dir_at g ?r") simp_all
  moreover have inv: "ar_inv (inodes g)" "ar_inv (dirs g)" "ar_inv (edges g)"
    using well_formedD(3-5) [OF wf] by (simp_all add: dirs_ok_def inodes_ok_def edges_ok_def)
  ultimately have nodes: "NDirectory ?r \<in> set (skeleton_nodes g)" "NInode i \<in> set (skeleton_nodes g)"
    using stored_keys [OF inv(1), of i] stored_keys [OF inv(2), of ?r] by (simp_all add: skeleton_nodes_def)
  have "Contains e ?r i ''.'' \<in> set (ar_values (edges g))"
    using stored_values [OF inv(3)] e by blast
  then have "(NDirectory ?r, NInode i) \<in> skeleton_edges_of g"
    unfolding skeleton_edges_of_def using nodes by (intro IntI CollectI exI [of _ "Contains e ?r i ''.''"]) simp_all
  then have "\<not> treewidth_le (set (skeleton_nodes g)) (skeleton_edges_of g) 0"
    using treewidth_zero [of "set (skeleton_nodes g)" "skeleton_edges_of g" "NDirectory ?r" "NInode i"] by auto
  then show ?thesis using treewidth_exact [of 0 g] by simp
qed

section \<open>Graphs without extents\<close>

definition no_extents :: "type_graph \<Rightarrow> bool" where
  "no_extents g \<longleftrightarrow> (\<forall>k e i b off. ar_get (edges g) k \<noteq> Some (PointsTo e i b off))"

lemma plain_skeleton:
  assumes c: "containers_ok g" and plain: "no_extents g"
  shows "skeleton_edges_of g \<subseteq> graph_edges g"
proof
  fix p assume p: "p \<in> skeleton_edges_of g"
  then obtain e where e: "p = (src_node e, tgt_node e)" "e \<in> set (ar_values (edges g))" "src_node e \<noteq> tgt_node e"
    by (auto simp: skeleton_edges_of_def)
  then obtain k where k: "edge_at g k = Some e" using stored_values [OF containers_okD(7) [OF c]] by blast
  have "edge_ends e = (src_node e, tgt_node e)" using plain k by (cases e) (auto simp: no_extents_def)
  moreover have "p \<in> graph_nodes g \<times> graph_nodes g"
    using p skeleton_stored [OF c] by (auto simp: skeleton_edges_of_def)
  ultimately show "p \<in> graph_edges g"
    unfolding graph_edges_def using e k by (intro IntI CollectI exI [of _ e] exI [of _ k]) simp_all
qed

lemma plain_exact:
  assumes wf: "well_formed g" and c: "containers_ok g" and one: "single_owner g" and plain: "no_extents g" and w: "w \<le> 2"
  shows "compute_treewidth g \<le> w \<longleftrightarrow> treewidth_le (graph_nodes g) (graph_edges g) w"
proof
  note pos = compute_positive [OF wf]
  assume "compute_treewidth g \<le> w"
  then have "max 1 (compute_treewidth g) \<le> w" using pos by simp
  then show "treewidth_le (graph_nodes g) (graph_edges g) w"
    using documented_bound [OF c one] treewidth_le_mono by blast
next
  assume tw: "treewidth_le (graph_nodes g) (graph_edges g) w"
  have "treewidth_le (set (skeleton_nodes g)) (skeleton_edges_of g) w"
    by (rule treewidth_le_subgraph [OF tw finite_graph_nodes [OF c]])
      (use plain_skeleton [OF c plain] skeleton_stored [OF c] in \<open>auto simp: skeleton_edges_of_def\<close>)
  then show "compute_treewidth g \<le> w" using treewidth_exact [OF w] by blast
qed

section \<open>A file with an extent\<close>

definition extent_graph :: type_graph where
  "extent_graph = snd (write_block file_graph 2 0 100 8)"

lemma no_entries [simp]: "ar_get (ar_new n) i = None"
  by (simp add: ar_get_def ar_new_def)

lemma file_graph_arenas:
  "edge_at file_graph = [1 \<mapsto> Contains 1 1 1 ''.'', 2 \<mapsto> Contains 2 1 2 ''a'']" "blocks file_graph = ar_new NODE_CAPACITY"
  "caps file_graph = ar_new NODE_CAPACITY" "versions file_graph = ar_new NODE_CAPACITY"
  "transactions file_graph = ar_new NODE_CAPACITY" "xattrs file_graph = []" "cap_parent file_graph = []"
proof -
  have "edge_at root_graph 2 = None" by (simp add: root_graph_edges)
  then show "edge_at file_graph = [1 \<mapsto> Contains 1 1 1 ''.'', 2 \<mapsto> Contains 2 1 2 ''a'']"
    using put_edge_fresh(1) [OF edges_okD(1,2) [OF well_formedD(3) [OF root_graph_ok]], of 2] room
    by (simp add: create_file_edges(2) [OF file_graph_run] root_graph_facts root_graph_edges)
  show "blocks file_graph = ar_new NODE_CAPACITY"
    by (simp add: create_file_still(1) [OF file_graph_run] root_graph_facts)
  show "caps file_graph = ar_new NODE_CAPACITY" "versions file_graph = ar_new NODE_CAPACITY"
    "transactions file_graph = ar_new NODE_CAPACITY" "xattrs file_graph = []" "cap_parent file_graph = []"
    using create_file_frame(1) [OF file_graph_run] empty_arenas by (simp_all add: same_rest_def)
qed

lemma extent_graph_facts:
  "well_formed extent_graph" "fs_of extent_graph = fs_of file_graph" "still extent_graph = still file_graph"
  "edge_at extent_graph = [1 \<mapsto> Contains 1 1 1 ''.'', 2 \<mapsto> Contains 2 1 2 ''a'', 3 \<mapsto> PointsTo 3 2 1 0]"
  "\<exists>x. block_at extent_graph = [1 \<mapsto> x]" "cap_parent extent_graph = []" "inode_xattrs extent_graph = []"
proof -
  obtain g where g: "write_block file_graph 2 0 100 8 = (Ok 1, g)"
  proof -
    have "2 < NODE_CAPACITY" "3 < EDGE_CAPACITY" "1 < NODE_CAPACITY" by (simp_all add: NODE_CAPACITY_def EDGE_CAPACITY_def)
    then show thesis
      using write_block_runs [OF file_graph_ok(1) small_canonical(2) file_graph_leaf, of 0 100 8] that
      by (simp add: file_graph_facts file_graph_view del: fs_of_simps) blast
  qed
  have e: "extent_graph = g" by (simp add: extent_graph_def g)
  have cap: "next_block file_graph < NODE_CAPACITY" "next_edge file_graph < EDGE_CAPACITY"
    by (simp_all add: file_graph_facts NODE_CAPACITY_def EDGE_CAPACITY_def)
  note w = write_block_contract [OF file_graph_ok(1) small_canonical(2) file_graph_leaf cap, where off = 0 and start = 100
      and cnt = 8, unfolded g prod.case res.case]
  show "well_formed extent_graph" "fs_of extent_graph = fs_of file_graph"
    "edge_at extent_graph = [1 \<mapsto> Contains 1 1 1 ''.'', 2 \<mapsto> Contains 2 1 2 ''a'', 3 \<mapsto> PointsTo 3 2 1 0]"
    "\<exists>x. block_at extent_graph = [1 \<mapsto> x]"
    using w by (auto simp: e file_graph_facts file_graph_arenas fun_eq_iff simp del: fs_of_simps)
  have "still g = still file_graph \<and> cap_parent g = cap_parent file_graph \<and> inode_xattrs g = inode_xattrs file_graph"
    using g
    by (auto simp: write_block_def alloc_block_id_def alloc_edge_id_def insert_block_def insert_edge_def Let_def still_def
        dest!: try_res_Ok split: if_splits)
  then show "still extent_graph = still file_graph" "cap_parent extent_graph = []" "inode_xattrs extent_graph = []"
    by (simp_all add: e file_graph_arenas file_graph_facts)
qed

lemma extent_graph_containers: "containers_ok extent_graph"
  by (rule well_formed_containers [OF extent_graph_facts(1)])
    (use extent_graph_facts(3) in \<open>simp_all add: still_def file_graph_arenas extent_graph_facts(6,7)\<close>)

lemma extent_graph_nodes: "graph_nodes extent_graph = {NInode 1, NInode 2, NDirectory 1, NBlock 1}"
proof -
  have i: "inode_at extent_graph i \<noteq> None \<longleftrightarrow> i = 1 \<or> i = 2" for i
  proof -
    have "inode_at extent_graph = fs_inode (fs_of file_graph)"
      using arg_cong [OF extent_graph_facts(2), of fs_inode] by simp
    moreover have "fs_inode (fs_of root_graph) i \<noteq> None \<longleftrightarrow> i = 1"
      using new_boxed_view [of "\<lambda>_. 0"] by (simp add: root_graph_def del: fs_of_simps)
    ultimately show ?thesis unfolding file_graph_ok(2) by (simp add: fs_create_def del: fs_of_simps)
  qed
  have d: "dir_at extent_graph d \<noteq> None \<longleftrightarrow> d = 1" for d
  proof -
    have "fs_dir (fs_of extent_graph) d = fs_dir (fs_of root_graph) d"
      unfolding extent_graph_facts(2) file_graph_ok(2) by (simp add: fs_create_def del: fs_of_simps)
    moreover have "fs_dir (fs_of root_graph) d \<noteq> None \<longleftrightarrow> d = 1"
      using new_boxed_view [of "\<lambda>_. 0"] by (simp add: root_graph_def del: fs_of_simps)
    ultimately show ?thesis by auto
  qed
  obtain x where b: "block_at extent_graph = [1 \<mapsto> x]" using extent_graph_facts(5) by blast
  have rest: "caps extent_graph = ar_new NODE_CAPACITY" "transactions extent_graph = ar_new NODE_CAPACITY"
    "versions extent_graph = ar_new NODE_CAPACITY" "xattrs extent_graph = []"
    using extent_graph_facts(3) by (simp_all add: still_def file_graph_arenas)
  show ?thesis unfolding graph_nodes_def by (auto simp: i d b rest simp del: not_None_eq split: if_splits)
qed

lemma extent_graph_stored:
  "(\<exists>k. edge_at extent_graph k = Some e) \<longleftrightarrow>
     e = Contains 1 1 1 ''.'' \<or> e = Contains 2 1 2 ''a'' \<or> e = PointsTo 3 2 1 0" (is "?l \<longleftrightarrow> ?r")
proof
  show ?r if ?l using that unfolding extent_graph_facts(4) by (auto split: if_splits)
  show ?l if ?r
    using that unfolding extent_graph_facts(4)
    by (elim disjE) (rule exI [of _ 1], simp, rule exI [of _ 2], simp, rule exI [of _ 3], simp)
qed

lemma extent_graph_edges:
  "graph_edges extent_graph = {(NDirectory 1, NInode 1), (NDirectory 1, NInode 2), (NInode 2, NBlock 1)}"
proof -
  have "{edge_ends e | e k. edge_at extent_graph k = Some e \<and> fst (edge_ends e) \<noteq> snd (edge_ends e)} =
      edge_ends ` {e. (\<exists>k. edge_at extent_graph k = Some e) \<and> fst (edge_ends e) \<noteq> snd (edge_ends e)}"
    by blast
  also have "{e. (\<exists>k. edge_at extent_graph k = Some e) \<and> fst (edge_ends e) \<noteq> snd (edge_ends e)} =
      {Contains 1 1 1 ''.'', Contains 2 1 2 ''a'', PointsTo 3 2 1 0}"
    unfolding extent_graph_stored by auto
  finally show ?thesis unfolding graph_edges_def extent_graph_nodes by (simp add: insert_commute)
qed

lemma extent_graph_owner: "single_owner extent_graph"
  unfolding single_owner_def extent_graph_facts(4) by (auto split: if_splits)

text \<open>Its nodes form a path, but the checker sees a triangle: it takes block 1 for inode 1.\<close>

lemma extent_graph_path: "treewidth_le (graph_nodes extent_graph) (graph_edges extent_graph) 1"
proof -
  have "treewidth_le {NInode 1} {} 1"
    using treewidth_le_leaf [OF treewidth_le_empty, of 1 "NInode 1" "{}"] by simp
  from treewidth_le_leaf [OF this, of "NDirectory 1" "{NInode 1}" "NInode 1"]
  have "treewidth_le {NDirectory 1, NInode 1} {(NDirectory 1, NInode 1)} 1" by simp
  from treewidth_le_leaf [OF this, of "NInode 2" "{NDirectory 1}" "NDirectory 1"]
  have "treewidth_le {NInode 2, NDirectory 1, NInode 1} {(NDirectory 1, NInode 1), (NInode 2, NDirectory 1)} 1"
    by (simp add: insert_commute)
  from treewidth_le_leaf [OF this, of "NBlock 1" "{NInode 2}" "NInode 2"]
  have "treewidth_le {NBlock 1, NInode 2, NDirectory 1, NInode 1}
      {(NDirectory 1, NInode 1), (NInode 2, NDirectory 1), (NBlock 1, NInode 2)} 1"
    by (simp add: insert_commute)
  then show ?thesis
    by (rule treewidth_le_subgraph) (auto simp: extent_graph_nodes extent_graph_edges)
qed

lemma triangle_width:
  assumes "a \<noteq> b" "a \<noteq> c" "b \<noteq> c"
  shows "\<not> treewidth_le {a, b, c} {(a, b), (a, c), (c, b)} 1"
proof
  let ?E = "{(a, b), (a, c), (c, b)}"
  assume "treewidth_le {a, b, c} ?E 1"
  then obtain x where x: "x \<in> {a, b, c}" "card (neighbors ?E x) \<le> 1"
    using low_degree [of "{a, b, c}" ?E 1] by auto
  have "neighbors ?E a = {b, c}" "neighbors ?E b = {a, c}" "neighbors ?E c = {a, b}"
    unfolding neighbors_def using assms by auto
  moreover have "card {b, c} = 2" "card {a, c} = 2" "card {a, b} = 2" using assms by simp_all
  ultimately show False using x by (elim insertE) simp_all
qed

lemma extent_graph_misread: "2 \<le> compute_treewidth extent_graph"
proof (rule ccontr)
  let ?g = extent_graph and ?T = "{NDirectory 1, NInode 1, NInode 2}"
  let ?E = "{(NDirectory 1, NInode 1), (NDirectory 1, NInode 2), (NInode 2, NInode 1)}"
  assume "\<not> 2 \<le> compute_treewidth ?g"
  then have "compute_treewidth ?g \<le> 1" by simp
  then have tw: "treewidth_le (set (skeleton_nodes ?g)) (skeleton_edges_of ?g) 1" using treewidth_exact [of 1 ?g] by simp
  have nodes: "?T \<subseteq> set (skeleton_nodes ?g)"
    by (auto simp: skeleton_stored [OF extent_graph_containers] extent_graph_nodes)
  have stored: "e \<in> set (ar_values (edges ?g)) \<longleftrightarrow> (\<exists>k. edge_at ?g k = Some e)" for e
    by (rule stored_values [OF containers_okD(7) [OF extent_graph_containers]])
  have edge: "(src_node e, tgt_node e) \<in> skeleton_edges_of ?g"
    if "\<exists>k. edge_at ?g k = Some e" "src_node e \<noteq> tgt_node e" "src_node e \<in> ?T" "tgt_node e \<in> ?T" for e
  proof -
    have "e \<in> set (ar_values (edges ?g))" using that(1) by (simp only: stored)
    then show ?thesis
      unfolding skeleton_edges_of_def using that(2-4) nodes by (intro IntI CollectI exI [of _ e]) auto
  qed
  have "?E \<subseteq> skeleton_edges_of ?g"
    using edge [of "Contains 1 1 1 ''.''"] edge [of "Contains 2 1 2 ''a''"] edge [of "PointsTo 3 2 1 0"]
    unfolding extent_graph_stored by simp
  then have "?E \<subseteq> skeleton_edges_of ?g \<union> (skeleton_edges_of ?g)\<inverse>" by (rule le_supI1)
  moreover have "?E \<subseteq> ?T \<times> ?T" by simp
  ultimately have "treewidth_le ?T ?E 1" by (rule treewidth_le_subgraph [OF tw finite_set nodes])
  then show False using triangle_width [of "NDirectory 1 :: node_id" "NInode 1" "NInode 2"] by simp
qed

section \<open>Properties\<close>

text \<open>
  C27: \<open>compute_treewidth\<close> returns an upper bound of the treewidth of the graph with all seven kinds of nodes
  and all edges between their documented ends, extents and attributes included, provided that no block and
  no attribute belongs to two inodes.  On a well-formed graph the result itself is the bound; on any other
  graph it is one if it is not 0.
\<close>

theorem compute_treewidth_bound:
  assumes "containers_ok g" "single_owner g"
  shows "treewidth_le (graph_nodes g) (graph_edges g) (max 1 (compute_treewidth g)) \<and>
    (well_formed g \<longrightarrow> treewidth_le (graph_nodes g) (graph_edges g) (compute_treewidth g))"
  using documented_bound [OF assms] compute_positive [of g] by (auto simp: max_def split: if_splits)

theorem compute_treewidth_bound_witness:
  "treewidth_le {NInode 1, NInode 2, NDirectory 1, NBlock 1}
     {(NDirectory 1, NInode 1), (NDirectory 1, NInode 2), (NInode 2, NBlock 1)} (compute_treewidth extent_graph)"
  using compute_treewidth_bound [OF extent_graph_containers extent_graph_owner] extent_graph_facts(1)
  by (simp add: extent_graph_nodes extent_graph_edges)

text \<open>
  C28: up to two, and without extents, the result is exact: \<open>compute_treewidth\<close> returns at most 0, 1 or 2
  exactly when the treewidth of the graph is at most that.  With extents it is not: after a file and one
  \<open>write_block\<close> the graph is a path, of treewidth 1, and the result is at least 2, because the block is taken
  for the inode with its number.
\<close>

theorem compute_treewidth_exact:
  assumes "well_formed g" "containers_ok g" "single_owner g" "no_extents g" "w \<le> 2"
  shows "(compute_treewidth g \<le> w \<longleftrightarrow> treewidth_le (graph_nodes g) (graph_edges g) w) \<and>
    well_formed extent_graph \<and> treewidth_le (graph_nodes extent_graph) (graph_edges extent_graph) 1 \<and>
    2 \<le> compute_treewidth extent_graph"
  using plain_exact [OF assms] extent_graph_facts(1) extent_graph_path extent_graph_misread by simp

lemma root_graph_shape:
  "single_owner root_graph" "no_extents root_graph" "graph_nodes root_graph = {NInode 1, NDirectory 1}"
  "graph_edges root_graph = {(NDirectory 1, NInode 1)}"
proof -
  show "single_owner root_graph" "no_extents root_graph"
    by (simp_all add: single_owner_def no_extents_def root_graph_edges)
  have i: "inode_at root_graph i \<noteq> None \<longleftrightarrow> i = 1" and d: "dir_at root_graph d \<noteq> None \<longleftrightarrow> d = 1" for i d
  proof -
    have "fs_inode (fs_of root_graph) i \<noteq> None \<longleftrightarrow> i = 1" "fs_dir (fs_of root_graph) d \<noteq> None \<longleftrightarrow> d = 1"
      using new_boxed_view [of "\<lambda>_. 0"] by (simp_all add: root_graph_def del: fs_of_simps)
    then show "inode_at root_graph i \<noteq> None \<longleftrightarrow> i = 1" "dir_at root_graph d \<noteq> None \<longleftrightarrow> d = 1" by simp_all
  qed
  show n: "graph_nodes root_graph = {NInode 1, NDirectory 1}"
    unfolding graph_nodes_def
    by (auto simp: i d empty_arenas root_graph_facts simp del: not_None_eq split: if_splits)
  have "(\<exists>k. edge_at root_graph k = Some e) \<longleftrightarrow> e = Contains 1 1 1 ''.''" for e
    unfolding root_graph_edges by (auto split: if_splits)
  then have "{edge_ends e | e k. edge_at root_graph k = Some e \<and> fst (edge_ends e) \<noteq> snd (edge_ends e)} =
      {edge_ends e | e. e = Contains 1 1 1 ''.'' \<and> fst (edge_ends e) \<noteq> snd (edge_ends e)}"
    by blast
  then show "graph_edges root_graph = {(NDirectory 1, NInode 1)}" unfolding graph_edges_def n by auto
qed

theorem compute_treewidth_exact_witness:
  "compute_treewidth root_graph = 1 \<and> compute_treewidth extent_graph \<noteq> 1"
proof
  note exact = compute_treewidth_exact [OF root_graph_ok root_containers root_graph_shape(1,2)]
  have "treewidth_le {NInode 1} {} 1"
    using treewidth_le_leaf [OF treewidth_le_empty, of 1 "NInode 1" "{}"] by simp
  from treewidth_le_leaf [OF this, of "NDirectory 1" "{NInode 1}" "NInode 1"]
  have "compute_treewidth root_graph \<le> 1"
    using exact [of 1] by (simp add: root_graph_shape insert_commute)
  moreover have "\<not> compute_treewidth root_graph \<le> 0"
    using exact [of 0, THEN conjunct1] treewidth_zero [of "graph_nodes root_graph" "graph_edges root_graph" "NDirectory 1" "NInode 1"]
    unfolding root_graph_shape by auto
  ultimately show "compute_treewidth root_graph = 1" by simp
  show "compute_treewidth extent_graph \<noteq> 1" using exact [of 0] by auto
qed



end
