(* ===== verification/Sotfs_Dyntree.thy ===== *)
theory Sotfs_Dyntree
  imports Sotfs_Treewidth
begin

text \<open>
  \<open>DynamicTreewidth\<close> of \<open>sotfs-monitor/src/treewidth.rs\<close>: an elimination order that is kept up to date under
  edits of the tracked graph.  The fixed-size arrays with a length are lists; \<open>dirty\<close> is read beyond
  the length and stays an array.  A failed assertion is \<open>None\<close>.
\<close>

definition MAX_NODES :: nat where "MAX_NODES = 1024"
definition MAX_DEGREE :: nat where "MAX_DEGREE = 64"

record dyn_treewidth =
  dt_bound :: nat
  dt_ordering :: "nat list"
  dt_fill_edges :: "nat list list"
  dt_step_width :: "nat list"
  dt_nodes :: "nat list"
  dt_adj :: "nat list list"
  dt_dirty :: "nat \<Rightarrow> bool"

definition dt_new :: dyn_treewidth where
  "dt_new = \<lparr>dt_bound = 0, dt_ordering = [], dt_fill_edges = [], dt_step_width = [], dt_nodes = [], dt_adj = [],
     dt_dirty = (\<lambda>_. False)\<rparr>"

section \<open>The tracked graph\<close>

definition index_in :: "nat list \<Rightarrow> nat \<Rightarrow> nat option" where
  "index_in ns x = find (\<lambda>i. ns ! i = x) [0..<length ns]"

definition node_index :: "dyn_treewidth \<Rightarrow> nat \<Rightarrow> nat option" where
  "node_index s x = index_in (dt_nodes s) x"

definition has_adj_edge :: "dyn_treewidth \<Rightarrow> nat \<Rightarrow> nat \<Rightarrow> bool" where
  "has_adj_edge s i x \<longleftrightarrow> x \<in> set (dt_adj s ! i)"

definition add_node_internal :: "nat \<Rightarrow> dyn_treewidth \<Rightarrow> dyn_treewidth option" where
  "add_node_internal x s =
     (if node_index s x \<noteq> None then Some s
      else if length (dt_nodes s) < MAX_NODES
      then Some (s\<lparr>dt_nodes := dt_nodes s @ [x], dt_adj := dt_adj s @ [[]]\<rparr>)
      else None)"

text \<open>One direction of an edge.\<close>

definition add_half_edge :: "nat \<Rightarrow> nat \<Rightarrow> dyn_treewidth \<Rightarrow> dyn_treewidth option" where
  "add_half_edge u v s =
     (case node_index s u of
        None \<Rightarrow> Some s
      | Some i \<Rightarrow>
          if has_adj_edge s i v then Some s
          else if length (dt_adj s ! i) < MAX_DEGREE
          then Some (s\<lparr>dt_adj := (dt_adj s)[i := dt_adj s ! i @ [v]]\<rparr>)
          else None)"

definition add_edge_internal :: "nat \<Rightarrow> nat \<Rightarrow> dyn_treewidth \<Rightarrow> dyn_treewidth option" where
  "add_edge_internal u v s =
     (if u = v then Some s else Option.bind (add_half_edge u v s) (add_half_edge v u))"

text \<open>The first occurrence is overwritten with the last element.\<close>

definition swap_remove :: "nat \<Rightarrow> nat list \<Rightarrow> nat list" where
  "swap_remove x xs = (case index_in xs x of None \<Rightarrow> xs | Some j \<Rightarrow> butlast (xs[j := last xs]))"

definition remove_half_edge :: "nat \<Rightarrow> nat \<Rightarrow> dyn_treewidth \<Rightarrow> dyn_treewidth" where
  "remove_half_edge u v s =
     (case node_index s u of
        None \<Rightarrow> s
      | Some i \<Rightarrow> s\<lparr>dt_adj := (dt_adj s)[i := swap_remove v (dt_adj s ! i)]\<rparr>)"

definition remove_edge_internal :: "nat \<Rightarrow> nat \<Rightarrow> dyn_treewidth \<Rightarrow> dyn_treewidth" where
  "remove_edge_internal u v s = remove_half_edge v u (remove_half_edge u v s)"

definition remove_node_internal :: "nat \<Rightarrow> dyn_treewidth \<Rightarrow> dyn_treewidth" where
  "remove_node_internal x s =
     (case node_index s x of
        None \<Rightarrow> s
      | Some i \<Rightarrow>
          (let nbrs = dt_adj s ! i;
               s = fold (\<lambda>n s. remove_half_edge n x s) nbrs s;
               c = length (dt_nodes s) - 1;
               s = (if i < c
                    then s\<lparr>dt_nodes := (dt_nodes s)[i := dt_nodes s ! c], dt_adj := (dt_adj s)[i := dt_adj s ! c],
                           dt_dirty := (dt_dirty s)(i := dt_dirty s c)\<rparr>
                    else s)
           in s\<lparr>dt_nodes := butlast (dt_nodes s), dt_adj := butlast (dt_adj s)\<rparr>))"

section \<open>Elimination on the work graph\<close>

text \<open>\<open>ns\<close>, \<open>W\<close> and \<open>el\<close> are \<open>work_nodes\<close>, \<open>work_adj\<close> and \<open>eliminated\<close>.\<close>

definition alive :: "nat list \<Rightarrow> bool list \<Rightarrow> nat \<Rightarrow> bool" where
  "alive ns el x \<longleftrightarrow> list_ex (\<lambda>k. ns ! k = x \<and> \<not> el ! k) [0..<length ns]"

definition remaining_neighbors :: "nat list \<Rightarrow> bool list \<Rightarrow> nat list list \<Rightarrow> nat \<Rightarrow> nat list" where
  "remaining_neighbors ns el W i = filter (alive ns el) (W ! i)"

text \<open>\<open>None\<close> is the initial \<open>usize::MAX\<close>, which no degree reaches.\<close>

fun pick_loop :: "nat list \<Rightarrow> bool list \<Rightarrow> nat list list \<Rightarrow> nat list \<Rightarrow> nat option \<Rightarrow> nat \<Rightarrow> nat" where
  "pick_loop ns el W [] min_deg min_idx = min_idx"
| "pick_loop ns el W (i # is) min_deg min_idx =
     (if el ! i then pick_loop ns el W is min_deg min_idx
      else (let deg = length (remaining_neighbors ns el W i)
            in if (case min_deg of None \<Rightarrow> True | Some d \<Rightarrow> deg < d) then pick_loop ns el W is (Some deg) i
               else pick_loop ns el W is min_deg min_idx))"

definition pick_least :: "nat list \<Rightarrow> bool list \<Rightarrow> nat list list \<Rightarrow> nat" where
  "pick_least ns el W = pick_loop ns el W [0..<length ns] None 0"

text \<open>The scans for the two ends of a fill edge do not stop at the first match.\<close>

definition last_index :: "nat list \<Rightarrow> nat \<Rightarrow> nat" where
  "last_index ns x = fold (\<lambda>k r. if ns ! k = x then k else r) [0..<length ns] 0"

definition push_neighbor :: "nat \<Rightarrow> nat \<Rightarrow> nat list list \<Rightarrow> nat list list" where
  "push_neighbor i x W = (if length (W ! i) < MAX_DEGREE then W[i := W ! i @ [x]] else W)"

definition add_fill_edge :: "nat list \<Rightarrow> nat \<Rightarrow> nat \<Rightarrow> nat list list \<Rightarrow> nat list list" where
  "add_fill_edge ns a b W =
     (let ai = last_index ns a; bi = last_index ns b
      in if b \<in> set (W ! ai) then W else push_neighbor bi a (push_neighbor ai b W))"

text \<open>Eliminations in turn; each yields the vertex and its remaining neighbours.\<close>

fun run_elimination :: "nat list \<Rightarrow> nat \<Rightarrow> nat list list \<Rightarrow> bool list \<Rightarrow> (nat \<times> nat list) list" where
  "run_elimination ns 0 W el = []"
| "run_elimination ns (Suc k) W el =
     (let v = pick_least ns el W; nbrs = remaining_neighbors ns el W v
      in (ns ! v, nbrs) # run_elimination ns k (fill_loop (add_fill_edge ns) nbrs W) (el[v := True]))"

definition widest :: "nat list \<Rightarrow> nat" where
  "widest ws = fold max ws 0"

definition full_recompute :: "dyn_treewidth \<Rightarrow> dyn_treewidth" where
  "full_recompute s =
     (let n = length (dt_nodes s);
          out = run_elimination (dt_nodes s) n (dt_adj s) (replicate n False);
          widths = map (\<lambda>p. length (snd p)) out
      in s\<lparr>dt_bound := widest widths, dt_ordering := map fst out, dt_fill_edges := map snd out,
           dt_step_width := widths, dt_dirty := (\<lambda>_. False)\<rparr>)"

section \<open>Incremental update\<close>

definition is_dirty :: "dyn_treewidth \<Rightarrow> nat \<Rightarrow> bool" where
  "is_dirty s x \<longleftrightarrow> (case node_index s x of Some i \<Rightarrow> dt_dirty s i | None \<Rightarrow> False)"

definition present :: "dyn_treewidth \<Rightarrow> nat \<Rightarrow> bool" where
  "present s x \<longleftrightarrow> node_index s x \<noteq> None"

text \<open>Replaying the kept part of the order.\<close>

fun replay :: "nat list \<Rightarrow> nat list \<Rightarrow> nat list list \<Rightarrow> bool list \<Rightarrow> nat list list \<times> bool list" where
  "replay ns [] W el = (W, el)"
| "replay ns (x # xs) W el =
     (case index_in ns x of
        None \<Rightarrow> replay ns xs W el
      | Some k \<Rightarrow>
          (let el = el[k := True] in replay ns xs (fill_loop (add_fill_edge ns) (remaining_neighbors ns el W k) W) el))"

definition re_eliminate :: "nat \<Rightarrow> dyn_treewidth \<Rightarrow> dyn_treewidth" where
  "re_eliminate earliest_dirty s =
     (let n = length (dt_nodes s);
          prefix = take earliest_dirty (dt_ordering s);
          (W, el) = replay (dt_nodes s) prefix (dt_adj s) (replicate n False);
          out = run_elimination (dt_nodes s) (n - length (filter (\<lambda>e. e) el)) W el;
          kept = filter (present s) prefix
      in if length kept < earliest_dirty then full_recompute s
         else (let widths = take earliest_dirty (dt_step_width s) @ map (\<lambda>p. length (snd p)) out
               in s\<lparr>dt_bound := widest widths, dt_ordering := kept @ map fst out,
                    dt_fill_edges := take earliest_dirty (dt_fill_edges s) @ map snd out,
                    dt_step_width := widths, dt_dirty := (\<lambda>_. False)\<rparr>))"

definition first_where :: "(nat \<Rightarrow> bool) \<Rightarrow> nat list \<Rightarrow> nat option" where
  "first_where P xs = find (\<lambda>p. P (xs ! p)) [0..<length xs]"

definition incremental_reeliminate :: "dyn_treewidth \<Rightarrow> dyn_treewidth" where
  "incremental_reeliminate s =
     (let len = length (dt_ordering s);
          earliest_dirty = (case first_where (is_dirty s) (dt_ordering s) of Some p \<Rightarrow> p | None \<Rightarrow> len);
          has_new_node = list_ex (\<lambda>x. x \<notin> set (dt_ordering s)) (dt_nodes s)
      in if earliest_dirty \<ge> len \<and> \<not> has_new_node
         then (let valid = fold (\<lambda>p r. if present s (dt_ordering s ! p) then p + 1 else r) [0..<len] 0
               in if valid < len
                  then re_eliminate (case first_where (\<lambda>x. \<not> present s x) (dt_ordering s) of Some p \<Rightarrow> p | None \<Rightarrow> 0) s
                  else s\<lparr>dt_dirty := (\<lambda>_. False)\<rparr>)
         else re_eliminate earliest_dirty s)"

definition dirty_count :: "dyn_treewidth \<Rightarrow> nat" where
  "dirty_count s = length (filter (dt_dirty s) [0..<length (dt_nodes s)])"

definition maybe_update :: "dyn_treewidth \<Rightarrow> dyn_treewidth" where
  "maybe_update s =
     (if dt_nodes s = []
      then s\<lparr>dt_bound := 0, dt_ordering := [], dt_fill_edges := [], dt_step_width := [], dt_dirty := (\<lambda>_. False)\<rparr>
      else (let n = length (dt_nodes s); threshold = (n + 4) div 5
            in if dirty_count s > threshold \<or> dt_ordering s = [] then full_recompute s
               else incremental_reeliminate s))"

definition mark_dirty :: "nat \<Rightarrow> dyn_treewidth \<Rightarrow> dyn_treewidth" where
  "mark_dirty x s =
     (case node_index s x of Some i \<Rightarrow> s\<lparr>dt_dirty := (dt_dirty s)(i := True)\<rparr> | None \<Rightarrow> s)"

definition mark_neighbors_dirty :: "nat \<Rightarrow> dyn_treewidth \<Rightarrow> dyn_treewidth" where
  "mark_neighbors_dirty x s =
     (case node_index s x of Some i \<Rightarrow> fold mark_dirty (dt_adj s ! i) s | None \<Rightarrow> s)"

section \<open>Notifications\<close>

definition on_add_edge :: "nat \<Rightarrow> nat \<Rightarrow> dyn_treewidth \<Rightarrow> dyn_treewidth option" where
  "on_add_edge u v s =
     (if u = v then Some s
      else map_option (\<lambda>s. maybe_update (mark_neighbors_dirty v (mark_neighbors_dirty u (mark_dirty v (mark_dirty u s)))))
             (add_edge_internal u v s))"

definition on_remove_edge :: "nat \<Rightarrow> nat \<Rightarrow> dyn_treewidth \<Rightarrow> dyn_treewidth" where
  "on_remove_edge u v s =
     (if u = v then s
      else maybe_update (mark_neighbors_dirty v (mark_neighbors_dirty u (mark_dirty v (mark_dirty u
             (remove_edge_internal u v s))))))"

definition on_add_node :: "nat \<Rightarrow> dyn_treewidth \<Rightarrow> dyn_treewidth option" where
  "on_add_node x s = map_option (\<lambda>s. maybe_update (mark_dirty x s)) (add_node_internal x s)"

definition on_remove_node :: "nat \<Rightarrow> dyn_treewidth \<Rightarrow> dyn_treewidth" where
  "on_remove_node x s =
     (let s = (case node_index s x of Some i \<Rightarrow> fold mark_dirty (dt_adj s ! i) s | None \<Rightarrow> s)
      in maybe_update (remove_node_internal x s))"

section \<open>From a type graph\<close>

text \<open>The numbering is that of the skeleton; the arrays start empty.\<close>

definition load_node :: "node_id \<Rightarrow> ((node_id \<rightharpoonup> nat) \<times> nat \<times> dyn_treewidth) option \<Rightarrow>
    ((node_id \<rightharpoonup> nat) \<times> nat \<times> dyn_treewidth) option" where
  "load_node n st =
     Option.bind st (\<lambda>(ids, uid, s). map_option (\<lambda>s. (ids(n \<mapsto> uid), uid + 1, s)) (add_node_internal uid s))"

definition load_edge :: "(node_id \<rightharpoonup> nat) \<Rightarrow> edge \<Rightarrow> dyn_treewidth option \<Rightarrow> dyn_treewidth option" where
  "load_edge ids e st =
     Option.bind st (\<lambda>s.
       case (ids (src_node e), ids (tgt_node e)) of
         (Some su, Some tu) \<Rightarrow> if su \<noteq> tu then add_edge_internal su tu s else Some s
       | _ \<Rightarrow> Some s)"

definition load_type_graph :: "type_graph \<Rightarrow> dyn_treewidth \<Rightarrow> dyn_treewidth option" where
  "load_type_graph g s =
     (case fold load_node (skeleton_nodes g) (Some (Map.empty, 0, s\<lparr>dt_nodes := [], dt_adj := []\<rparr>)) of
        None \<Rightarrow> None
      | Some (ids, _, s) \<Rightarrow> fold (load_edge ids) (ar_values (edges g)) (Some s))"

definition from_type_graph :: "type_graph \<Rightarrow> dyn_treewidth option" where
  "from_type_graph g = map_option full_recompute (load_type_graph g dt_new)"

end
