(* ===== verification/Sotfs_Dynbound.thy ===== *)
theory Sotfs_Dynbound
  imports Sotfs_Dyntree
begin

text \<open>
  The incremental tracker keeps an upper bound: what it keeps of the old order is an elimination order of
  the edited graph with the old widths, because no kept vertex is near the edit.
\<close>

section \<open>Eliminations away from an edit\<close>

fun elim_adj :: "'a set \<Rightarrow> ('a \<Rightarrow> 'a set) \<Rightarrow> 'a list \<Rightarrow> 'a \<Rightarrow> 'a set" where
  "elim_adj R adj [] = adj"
| "elim_adj R adj (v # vs) = elim_adj (R - {v}) (fill (adj v \<inter> (R - {v})) adj) vs"

lemma elim_widths_append:
  "elim_widths R adj (xs @ ys) = elim_widths R adj xs @ elim_widths (R - set xs) (elim_adj R adj xs) ys"
  by (induction xs arbitrary: R adj) (simp_all add: Let_def set_diff_eq Diff_insert2 [symmetric] insert_commute
      flip: Diff_insert)

lemma length_elim_widths [simp]: "length (elim_widths R adj vs) = length vs"
  by (induction vs arbitrary: R adj) (simp_all add: Let_def)

text \<open>\<open>C\<close> holds the edited vertices: outside, the two graphs have the same vertices and edges.\<close>

definition same_outside :: "'a set \<Rightarrow> 'a set \<Rightarrow> ('a \<Rightarrow> 'a set) \<Rightarrow> 'a set \<Rightarrow> ('a \<Rightarrow> 'a set) \<Rightarrow> bool" where
  "same_outside C R adj R' adj' \<longleftrightarrow> R - C = R' - C \<and> (\<forall>x. x \<notin> C \<longrightarrow> adj x - C = adj' x - C)"

lemma same_outside_step:
  assumes "same_outside C R adj R' adj'" "v \<notin> C" "adj v \<inter> C = {}" "adj' v \<inter> C = {}"
  shows "adj v \<inter> (R - {v}) = adj' v \<inter> (R' - {v})"
    and "same_outside C (R - {v}) (fill (adj v \<inter> (R - {v})) adj) (R' - {v}) (fill (adj' v \<inter> (R' - {v})) adj')"
proof -
  have adj: "adj v = adj' v" and R: "\<And>y. y \<notin> C \<Longrightarrow> y \<in> R \<longleftrightarrow> y \<in> R'"
    using assms unfolding same_outside_def by blast+
  show N: "adj v \<inter> (R - {v}) = adj' v \<inter> (R' - {v})" using adj R assms(3) by blast
  show "same_outside C (R - {v}) (fill (adj v \<inter> (R - {v})) adj) (R' - {v}) (fill (adj' v \<inter> (R' - {v})) adj')"
    using assms(1) unfolding N same_outside_def fill_def by auto
qed

text \<open>A prefix of the order that stays away from the edit keeps its widths.\<close>

lemma fill_away: "adj x \<inter> C = {} \<Longrightarrow> N \<inter> C = {} \<Longrightarrow> fill N adj x \<inter> C = {}"
  by (auto simp: fill_def)

lemma prefix_widths:
  assumes "same_outside C R adj R' adj'" "\<And>x. x \<in> set vs \<Longrightarrow> x \<notin> C \<and> adj x \<inter> C = {} \<and> adj' x \<inter> C = {}"
  shows "elim_widths R adj vs = elim_widths R' adj' vs"
  using assms
proof (induction vs arbitrary: R adj R' adj')
  case (Cons v vs)
  have v: "v \<notin> C" "adj v \<inter> C = {}" "adj' v \<inter> C = {}" using Cons.prems(2) by simp_all
  note N = same_outside_step [OF Cons.prems(1) v]
  have "elim_widths (R - {v}) (fill (adj v \<inter> (R - {v})) adj) vs =
      elim_widths (R' - {v}) (fill (adj' v \<inter> (R' - {v})) adj') vs"
  proof (rule Cons.IH [OF N(2)])
    fix x assume "x \<in> set vs"
    then have "x \<notin> C" "adj x \<inter> C = {}" "adj' x \<inter> C = {}" using Cons.prems(2) by simp_all
    moreover have "adj v \<inter> (R - {v}) \<inter> C = {}" "adj' v \<inter> (R' - {v}) \<inter> C = {}" using v by blast+
    ultimately show "x \<notin> C \<and> fill (adj v \<inter> (R - {v})) adj x \<inter> C = {} \<and>
        fill (adj' v \<inter> (R' - {v})) adj' x \<inter> C = {}"
      by (simp only: fill_away) simp
  qed
  then show ?case using N(1) by (simp add: Let_def)
qed simp

text \<open>Vertices that no other vertex touches can be left out.\<close>

lemma without_untouched:
  assumes "same_outside C R adj R' adj'" "\<And>x. x \<in> R - C \<Longrightarrow> adj x \<inter> C = {} \<and> adj' x \<inter> C = {}"
    and "set vs \<subseteq> R" "distinct vs" "R' \<inter> C = {}" "\<And>x. x \<in> R \<inter> C \<Longrightarrow> adj x \<inter> R \<subseteq> C"
  shows "map snd (filter (\<lambda>(x, w). x \<notin> C) (zip vs (elim_widths R adj vs))) =
    elim_widths R' adj' (filter (\<lambda>x. x \<notin> C) vs)"
  using assms
proof (induction vs arbitrary: R adj R' adj')
  case (Cons v vs)
  let ?N = "adj v \<inter> (R - {v})" and ?N' = "adj' v \<inter> (R' - {v})"
  show ?case
  proof (cases "v \<in> C")
    case True
    have N: "?N \<subseteq> C" using Cons.prems(3,6) True by auto
    have "same_outside C (R - {v}) (fill ?N adj) R' adj'"
      using Cons.prems(1) N True by (auto simp: same_outside_def fill_def)
    then have "map snd (filter (\<lambda>(x, w). x \<notin> C) (zip vs (elim_widths (R - {v}) (fill ?N adj) vs))) =
        elim_widths R' adj' (filter (\<lambda>x. x \<notin> C) vs)"
    proof (rule Cons.IH)
      show "fill ?N adj x \<inter> C = {} \<and> adj' x \<inter> C = {}" if "x \<in> R - {v} - C" for x
        using Cons.prems(2) [of x] that N by (auto simp: fill_def)
      show "fill ?N adj x \<inter> (R - {v}) \<subseteq> C" if "x \<in> (R - {v}) \<inter> C" for x
        using Cons.prems(6) [of x] that N by (auto simp: fill_def)
    qed (use Cons.prems in auto)
    then show ?thesis using True by (simp add: Let_def)
  next
    case False
    then have v: "adj v \<inter> C = {}" "adj' v \<inter> C = {}" using Cons.prems(2,3) by auto
    note N = same_outside_step [OF Cons.prems(1) False v]
    have "map snd (filter (\<lambda>(x, w). x \<notin> C) (zip vs (elim_widths (R - {v}) (fill ?N adj) vs))) =
        elim_widths (R' - {v}) (fill ?N' adj') (filter (\<lambda>x. x \<notin> C) vs)"
    proof (rule Cons.IH [OF N(2)])
      show "fill ?N adj x \<inter> C = {} \<and> fill ?N' adj' x \<inter> C = {}" if "x \<in> R - {v} - C" for x
        using Cons.prems(2) [of x] that v by (auto simp: fill_def)
      show "fill ?N adj x \<inter> (R - {v}) \<subseteq> C" if "x \<in> (R - {v}) \<inter> C" for x
        using Cons.prems(6) [of x] that v by (auto simp: fill_def)
    qed (use Cons.prems in auto)
    then show ?thesis using False N(1) by (simp add: Let_def)
  qed
qed simp

section \<open>The arrays as a graph\<close>

lemma index_in_None [simp]: "index_in ns x = None \<longleftrightarrow> x \<notin> set ns"
  by (auto simp: index_in_def find_None_iff in_set_conv_nth)

lemma index_in_Some: "distinct ns \<Longrightarrow> index_in ns x = Some i \<longleftrightarrow> i < length ns \<and> ns ! i = x"
  by (auto simp: index_in_def find_Some_iff nth_eq_iff_index_eq)

lemma index_in_nth [simp]: "distinct ns \<Longrightarrow> i < length ns \<Longrightarrow> index_in ns (ns ! i) = Some i"
  by (simp add: index_in_Some)

lemma last_index_upto:
  "(\<And>j. j < k \<Longrightarrow> P j \<Longrightarrow> j = i) \<Longrightarrow> i < k \<Longrightarrow> P i \<Longrightarrow> fold (\<lambda>j r. if P j then j else r) [0..<k] r = i"
proof (induction k)
  case (Suc k)
  show ?case
  proof (cases "P k")
    case True
    then have "k = i" using Suc.prems(1) [of k] by simp
    then show ?thesis using True by simp
  next
    case False
    then have "i < k" using Suc.prems(2,3) by (metis less_antisym)
    then have "fold (\<lambda>j r. if P j then j else r) [0..<k] r = i"
      by (intro Suc.IH Suc.prems(3)) (rule Suc.prems(1), simp)
    then show ?thesis using False by simp
  qed
qed simp

lemma last_index_nth: "distinct ns \<Longrightarrow> i < length ns \<Longrightarrow> last_index ns (ns ! i) = i"
  unfolding last_index_def by (rule last_index_upto) (auto simp: nth_eq_iff_index_eq)

definition adj_fun :: "nat list \<Rightarrow> nat list list \<Rightarrow> nat \<Rightarrow> nat set" where
  "adj_fun ns W x = (case index_in ns x of Some i \<Rightarrow> set (W ! i) | None \<Rightarrow> {})"

text \<open>With at most 65 vertices no list is ever full.\<close>

definition work_ok :: "nat list \<Rightarrow> nat list list \<Rightarrow> bool" where
  "work_ok ns W \<longleftrightarrow>
     distinct ns \<and> length ns \<le> MAX_DEGREE + 1 \<and> length W = length ns \<and>
     (\<forall>i<length ns. distinct (W ! i) \<and> set (W ! i) \<subseteq> set ns - {ns ! i}) \<and>
     symmetric_on (set ns) (adj_fun ns W)"

lemma work_okD:
  assumes "work_ok ns W"
  shows "distinct ns" "length W = length ns" "symmetric_on (set ns) (adj_fun ns W)"
    "i < length ns \<Longrightarrow> distinct (W ! i)" "i < length ns \<Longrightarrow> set (W ! i) \<subseteq> set ns - {ns ! i}"
    "i < length ns \<Longrightarrow> adj_fun ns W (ns ! i) = set (W ! i)"
  using assms by (simp_all add: work_ok_def adj_fun_def)

lemma adj_fun_sub: "work_ok ns W \<Longrightarrow> adj_fun ns W x \<subseteq> set ns - {x}"
  by (auto simp: adj_fun_def index_in_Some work_ok_def split: option.splits dest: subsetD)

lemma room_for_neighbor:
  assumes ok: "work_ok ns W" and i: "i < length ns" and b: "b \<in> set ns" "b \<noteq> ns ! i" "b \<notin> set (W ! i)"
  shows "length (W ! i) < MAX_DEGREE"
proof -
  have "set (W ! i) \<subset> set ns - {ns ! i}" using work_okD(5) [OF ok i] b by blast
  then have "card (set (W ! i)) < card (set ns - {ns ! i})" by (rule psubset_card_mono [rotated]) simp
  moreover have "card (set ns - {ns ! i}) = length ns - 1"
    using i by (simp add: distinct_card [OF work_okD(1) [OF ok]])
  moreover have "length ns \<le> MAX_DEGREE + 1" using ok by (simp add: work_ok_def)
  ultimately show ?thesis by (simp add: distinct_card [OF work_okD(4) [OF ok i]])
qed

text \<open>One direction of an edge.\<close>

lemma adj_fun_update:
  "distinct ns \<Longrightarrow> length W = length ns \<Longrightarrow> i < length ns \<Longrightarrow>
     adj_fun ns (W[i := l]) = (adj_fun ns W)(ns ! i := set l)"
  by (auto simp: fun_eq_iff adj_fun_def index_in_Some nth_list_update nth_eq_iff_index_eq split: option.split)

lemma work_ok_link:
  assumes ok: "work_ok ns W" and ij: "i < length ns" "j < length ns" "i \<noteq> j" and new: "ns ! j \<notin> set (W ! i)"
  shows "work_ok ns (W[i := W ! i @ [ns ! j], j := W ! j @ [ns ! i]]) \<and>
    adj_fun ns (W[i := W ! i @ [ns ! j], j := W ! j @ [ns ! i]]) = link_both (ns ! i) (ns ! j) (adj_fun ns W)"
proof -
  note d = work_okD(1) [OF ok] and l = work_okD(2) [OF ok]
  let ?W = "W[i := W ! i @ [ns ! j], j := W ! j @ [ns ! i]]"
  have ne: "ns ! i \<noteq> ns ! j" using d ij by (simp add: nth_eq_iff_index_eq)
  have "ns ! i \<notin> set (W ! j)"
    using work_okD(3) [OF ok] ij new work_okD(6) [OF ok] by (metis nth_mem symmetric_on_def)
  then have "distinct (?W ! k) \<and> set (?W ! k) \<subseteq> set ns - {ns ! k}" if "k < length ns" for k
    using work_okD(4,5) [OF ok that] ij new ne l by (auto simp: nth_list_update)
  moreover have adj: "adj_fun ns ?W = link_both (ns ! i) (ns ! j) (adj_fun ns W)"
    using ij ne l d work_okD(6) [OF ok] by (auto simp: adj_fun_update link_both_def fun_eq_iff)
  moreover have "symmetric_on (set ns) (adj_fun ns ?W)"
    using work_okD(3) [OF ok] unfolding adj by (auto simp: symmetric_on_def link_both_def)
  ultimately show ?thesis using ok by (simp add: work_ok_def)
qed

lemma add_fill_edge_linked:
  assumes ok: "work_ok ns W" and ab: "a \<in> set ns" "b \<in> set ns" "a \<noteq> b"
  shows "work_ok ns (add_fill_edge ns a b W) \<and> adj_fun ns (add_fill_edge ns a b W) = link_both a b (adj_fun ns W)"
proof -
  note d = work_okD(1) [OF ok]
  obtain i j where ij: "i < length ns" "ns ! i = a" "j < length ns" "ns ! j = b" "i \<noteq> j"
    using ab by (metis in_set_conv_nth)
  have last: "last_index ns a = i" "last_index ns b = j" using last_index_nth [OF d] ij by auto
  show ?thesis
  proof (cases "b \<in> set (W ! i)")
    case True
    then have "a \<in> set (W ! j)"
      using work_okD(3) [OF ok] ij work_okD(6) [OF ok] ab by (metis symmetric_on_def)
    then have "link_both a b (adj_fun ns W) = adj_fun ns W"
      using True ij work_okD(6) [OF ok] by (auto simp: link_both_def fun_eq_iff)
    then show ?thesis using True ok by (simp add: add_fill_edge_def last Let_def)
  next
    case False
    then have a: "a \<notin> set (W ! j)"
      using work_okD(3) [OF ok] ij work_okD(6) [OF ok] ab by (metis symmetric_on_def)
    have "length (W ! i) < MAX_DEGREE" "length (W ! j) < MAX_DEGREE"
      using room_for_neighbor [OF ok] ij ab False a by auto
    then have "add_fill_edge ns a b W = W[i := W ! i @ [ns ! j], j := W ! j @ [ns ! i]]"
      using False ij by (simp add: add_fill_edge_def last Let_def push_neighbor_def)
    then show ?thesis using work_ok_link [OF ok ij(1,3,5)] False ij by simp
  qed
qed

interpretation wg: fillable "add_fill_edge ns" "work_ok ns" "adj_fun ns" "set ns" for ns
  by unfold_locales (simp_all add: add_fill_edge_linked)

section \<open>Elimination on the arrays\<close>

definition left :: "nat list \<Rightarrow> bool list \<Rightarrow> nat set" where
  "left ns el = {ns ! i | i. i < length ns \<and> \<not> el ! i}"

lemma alive_left: "alive ns el x \<longleftrightarrow> x \<in> left ns el"
  by (auto simp: alive_def left_def list_ex_iff)

lemma left_eliminated:
  "distinct ns \<Longrightarrow> length el = length ns \<Longrightarrow> v < length ns \<Longrightarrow> left ns (el[v := True]) = left ns el - {ns ! v}"
  by (auto simp: left_def nth_list_update nth_eq_iff_index_eq)

lemma left_start: "left ns (replicate (length ns) False) = set ns"
  by (auto simp: left_def in_set_conv_nth) (metis nth_replicate)

lemma left_sub: "left ns el \<subseteq> set ns"
  by (auto simp: left_def)

lemma finite_left [simp]: "finite (left ns el)"
  using left_sub by (rule finite_subset) simp

lemma card_left:
  assumes "distinct ns" "length el = length ns"
  shows "card (left ns el) = length ns - length (filter (\<lambda>e. e) el)"
proof -
  have "left ns el = (!) ns ` {i. i < length el \<and> \<not> el ! i}" using assms(2) by (auto simp: left_def)
  moreover have "inj_on ((!) ns) {i. i < length el \<and> \<not> el ! i}"
    using assms by (auto simp: inj_on_def nth_eq_iff_index_eq)
  ultimately have "card (left ns el) = length (filter Not el)"
    by (simp add: card_image length_filter_conv_card)
  then show ?thesis using sum_length_filter_compl [of "\<lambda>e. e" el] assms(2) by simp
qed

lemma remaining_set:
  assumes "work_ok ns W" "i < length ns"
  shows "set (remaining_neighbors ns el W i) = adj_fun ns W (ns ! i) \<inter> (left ns el - {ns ! i})"
    and "distinct (remaining_neighbors ns el W i)"
  using work_okD(4-6) [OF assms]
  by (auto simp: remaining_neighbors_def alive_left)

lemma pick_loop_in:
  "(min_deg = None \<Longrightarrow> \<exists>i \<in> set is. \<not> el ! i) \<Longrightarrow>
     pick_loop ns el W is min_deg min_idx \<in> {i \<in> set is. \<not> el ! i} \<union> (if min_deg = None then {} else {min_idx})"
proof (induction "is" arbitrary: min_deg min_idx)
  case (Cons i "is")
  let ?deg = "length (remaining_neighbors ns el W i)"
  show ?case
  proof (cases "el ! i")
    case True
    then show ?thesis using Cons.IH [of min_deg min_idx] Cons.prems by auto
  next
    case False
    then show ?thesis using Cons.IH [of "Some ?deg" i] Cons.IH [of min_deg min_idx]
      by (cases min_deg) (auto simp: Let_def)
  qed
qed auto

lemma pick_least_live:
  assumes "left ns el \<noteq> {}"
  shows "pick_least ns el W < length ns" "\<not> el ! pick_least ns el W"
proof -
  have "\<exists>i \<in> set [0..<length ns]. \<not> el ! i" using assms by (auto simp: left_def)
  then show "pick_least ns el W < length ns" "\<not> el ! pick_least ns el W"
    using pick_loop_in [of None "[0..<length ns]" el ns W 0] by (auto simp: pick_least_def)
qed

lemma run_elimination_widths:
  assumes "work_ok ns W" "length el = length ns" "card (left ns el) = k"
  shows "set (map fst (run_elimination ns k W el)) = left ns el \<and> distinct (map fst (run_elimination ns k W el)) \<and>
    map (\<lambda>p. length (snd p)) (run_elimination ns k W el) =
      elim_widths (left ns el) (adj_fun ns W) (map fst (run_elimination ns k W el))"
  using assms
proof (induction k arbitrary: W el)
  case 0
  then show ?case by simp
next
  case (Suc k)
  let ?v = "pick_least ns el W"
  let ?nbrs = "remaining_neighbors ns el W ?v" and ?R = "left ns el"
  let ?W = "fill_loop (add_fill_edge ns) ?nbrs W" and ?el = "el[?v := True]"
  have "?R \<noteq> {}" using Suc.prems(3) by auto
  note v = pick_least_live [OF this, of W]
  note d = work_okD(1) [OF Suc.prems(1)] and nbrs = remaining_set [OF Suc.prems(1) v(1), of el]
  have R: "left ns ?el = ?R - {ns ! ?v}" by (rule left_eliminated [OF d Suc.prems(2) v(1)])
  have "ns ! ?v \<in> ?R" using v by (auto simp: left_def)
  then have card: "card (left ns ?el) = k" using Suc.prems(3) by (simp add: R)
  have "set ?nbrs \<subseteq> set ns" unfolding nbrs(1) using left_sub by blast
  then have W: "work_ok ns ?W" "adj_fun ns ?W = fill (set ?nbrs) (adj_fun ns W)"
    using wg.fill_loop_nbrs [OF Suc.prems(1) nbrs(2)] by auto
  have IH: "set (map fst (run_elimination ns k ?W ?el)) = ?R - {ns ! ?v}"
    "distinct (map fst (run_elimination ns k ?W ?el))"
    "map (\<lambda>p. length (snd p)) (run_elimination ns k ?W ?el) =
       elim_widths (?R - {ns ! ?v}) (fill (set ?nbrs) (adj_fun ns W)) (map fst (run_elimination ns k ?W ?el))"
    using Suc.IH [OF W(1) _ card] Suc.prems(2) unfolding R W(2) by simp_all
  have run: "run_elimination ns (Suc k) W el = (ns ! ?v, ?nbrs) # run_elimination ns k ?W ?el"
    by (simp add: Let_def)
  show ?case
    unfolding run list.map set_simps distinct.simps fst_conv snd_conv elim_widths.simps Let_def IH
    using \<open>ns ! ?v \<in> ?R\<close> distinct_card [OF nbrs(2)] nbrs(1) IH(2) by (simp add: insert_absorb)
qed

lemma replay_prefix:
  assumes "work_ok ns W" "length el = length ns" "distinct xs" "set xs \<subseteq> left ns el" "replay ns xs W el = (W', el')"
  shows "work_ok ns W' \<and> length el' = length ns \<and> left ns el' = left ns el - set xs \<and>
    adj_fun ns W' = elim_adj (left ns el) (adj_fun ns W) xs"
  using assms
proof (induction xs arbitrary: W el)
  case (Cons x xs)
  note d = work_okD(1) [OF Cons.prems(1)]
  obtain k where k: "k < length ns" "ns ! k = x" using Cons.prems(4) by (auto simp: left_def)
  let ?el = "el[k := True]"
  let ?nbrs = "remaining_neighbors ns ?el W k"
  let ?W = "fill_loop (add_fill_edge ns) ?nbrs W"
  have R: "left ns ?el = left ns el - {x}" using left_eliminated [OF d Cons.prems(2) k(1)] k(2) by simp
  note nbrs = remaining_set [OF Cons.prems(1) k(1), of ?el]
  have N: "set ?nbrs = adj_fun ns W x \<inter> (left ns el - {x})" using nbrs(1) k(2) R by auto
  have "set ?nbrs \<subseteq> set ns" unfolding N using left_sub by blast
  then have W: "work_ok ns ?W" "adj_fun ns ?W = fill (set ?nbrs) (adj_fun ns W)"
    using wg.fill_loop_nbrs [OF Cons.prems(1) nbrs(2)] by auto
  have "index_in ns x = Some k" using d k by (simp add: index_in_Some)
  then have "replay ns xs ?W ?el = (W', el')" using Cons.prems(5) by (simp add: Let_def)
  then have "work_ok ns W' \<and> length el' = length ns \<and> left ns el' = left ns ?el - set xs \<and>
      adj_fun ns W' = elim_adj (left ns ?el) (adj_fun ns ?W) xs"
    by (intro Cons.IH [OF W(1)]) (use Cons.prems R in auto)
  then show ?case by (simp only: R W(2) N elim_adj.simps) auto
qed simp

section \<open>The state of the tracker\<close>

abbreviation dt_graph_ok :: "dyn_treewidth \<Rightarrow> bool" where
  "dt_graph_ok s \<equiv> work_ok (dt_nodes s) (dt_adj s)"

abbreviation dt_near :: "dyn_treewidth \<Rightarrow> nat \<Rightarrow> nat set" where
  "dt_near s \<equiv> adj_fun (dt_nodes s) (dt_adj s)"

text \<open>The steps of the cached order whose vertex still exists.\<close>

definition live_steps :: "dyn_treewidth \<Rightarrow> (nat \<times> nat) list" where
  "live_steps s = filter (\<lambda>(x, w). x \<in> set (dt_nodes s)) (zip (dt_ordering s) (dt_step_width s))"

definition order_ok :: "dyn_treewidth \<Rightarrow> bool" where
  "order_ok s \<longleftrightarrow>
     length (dt_step_width s) = length (dt_ordering s) \<and> distinct (dt_ordering s) \<and>
     set (dt_nodes s) \<subseteq> set (dt_ordering s) \<and>
     map snd (live_steps s) = elim_widths (set (dt_nodes s)) (dt_near s) (map fst (live_steps s)) \<and>
     dt_bound s = widest (dt_step_width s)"

definition tracker_ok :: "dyn_treewidth \<Rightarrow> bool" where
  "tracker_ok s \<longleftrightarrow> dt_graph_ok s \<and> order_ok s \<and> dt_dirty s = (\<lambda>_. False)"

lemma widest_le: "k \<in> set ws \<Longrightarrow> k \<le> widest ws"
  by (simp add: widest_def fold_max_least)

lemma filter_zip_fst: "length xs = length ys \<Longrightarrow> map fst (filter (\<lambda>(x, y). P x) (zip xs ys)) = filter P xs"
  by (induction xs ys rule: list_induct2) simp_all

lemma live_order:
  "length (dt_step_width s) = length (dt_ordering s) \<Longrightarrow>
     map fst (live_steps s) = filter (\<lambda>x. x \<in> set (dt_nodes s)) (dt_ordering s)"
  unfolding live_steps_def by (rule filter_zip_fst) simp

lemma tracker_bound:
  assumes "tracker_ok s"
  shows "treewidth_le (set (dt_nodes s)) (adj_edges (set (dt_nodes s)) (dt_near s)) (dt_bound s)"
proof -
  have g: "dt_graph_ok s" and o: "order_ok s" using assms by (simp_all add: tracker_ok_def)
  let ?vs = "map fst (live_steps s)"
  have vs: "?vs = filter (\<lambda>x. x \<in> set (dt_nodes s)) (dt_ordering s)"
    using o by (intro live_order) (simp add: order_ok_def)
  then have set: "set ?vs = set (dt_nodes s)" and dist: "distinct ?vs"
    using o by (auto simp: order_ok_def)
  have "k \<le> dt_bound s" if "k \<in> set (elim_widths (set ?vs) (dt_near s) ?vs)" for k
  proof -
    have "k \<in> set (map snd (live_steps s))" using o that unfolding set order_ok_def by simp
    then have "k \<in> set (dt_step_width s)" by (auto simp: live_steps_def dest: set_zip_rightD)
    then show ?thesis using o widest_le by (simp add: order_ok_def)
  qed
  then have "treewidth_le (set ?vs) (adj_edges (set ?vs) (dt_near s)) (dt_bound s)"
    by (intro elimination_treewidth [OF dist])
      (use work_okD(3) [OF g] in \<open>simp_all only: set, auto simp: adj_edges_def\<close>)
  then show ?thesis by (simp only: set)
qed

section \<open>Recomputing\<close>

lemma full_recompute_same [simp]:
  "dt_nodes (full_recompute s) = dt_nodes s" "dt_adj (full_recompute s) = dt_adj s"
  by (simp_all add: full_recompute_def Let_def)

lemma order_okI:
  assumes "set (dt_ordering s) = set (dt_nodes s)" "distinct (dt_ordering s)"
    and "dt_step_width s = elim_widths (set (dt_nodes s)) (dt_near s) (dt_ordering s)"
    and "dt_bound s = widest (dt_step_width s)"
  shows "order_ok s"
proof -
  have len: "length (dt_step_width s) = length (dt_ordering s)" using assms(3) by simp
  have "filter (\<lambda>(x, w). x \<in> set (dt_nodes s)) (zip (dt_ordering s) (dt_step_width s)) =
      zip (dt_ordering s) (dt_step_width s)"
    using assms(1) by (auto simp: filter_id_conv dest: set_zip_leftD)
  then show ?thesis using assms len by (simp add: order_ok_def live_steps_def)
qed

lemma full_recompute_ok: "dt_graph_ok s \<Longrightarrow> tracker_ok (full_recompute s)"
proof -
  assume g: "dt_graph_ok s"
  let ?n = "length (dt_nodes s)"
  have "card (left (dt_nodes s) (replicate ?n False)) = ?n"
    by (simp add: left_start distinct_card [OF work_okD(1) [OF g]])
  note run = run_elimination_widths [OF g _ this, unfolded left_start]
  have "order_ok (full_recompute s)"
    by (rule order_okI) (use run in \<open>simp_all add: full_recompute_def Let_def\<close>)
  then show ?thesis using g by (simp add: tracker_ok_def) (simp add: full_recompute_def Let_def)
qed

lemma present_iff [simp]: "present s x \<longleftrightarrow> x \<in> set (dt_nodes s)"
  by (simp add: present_def node_index_def)

lemma re_eliminate_ok:
  assumes g: "dt_graph_ok s" and p: "p \<le> length (dt_ordering s)" and dist: "distinct (dt_ordering s)"
    and w: "set (take p (dt_ordering s)) \<subseteq> set (dt_nodes s) \<Longrightarrow>
      take p (dt_step_width s) = elim_widths (set (dt_nodes s)) (dt_near s) (take p (dt_ordering s))"
  shows "tracker_ok (re_eliminate p s) \<and> dt_nodes (re_eliminate p s) = dt_nodes s \<and> dt_adj (re_eliminate p s) = dt_adj s"
proof -
  let ?ns = "dt_nodes s" and ?xs = "take p (dt_ordering s)"
  obtain W el where W: "replay ?ns ?xs (dt_adj s) (replicate (length ?ns) False) = (W, el)" by fastforce
  let ?out = "run_elimination ?ns (length ?ns - length (filter (\<lambda>e. e) el)) W el"
  show ?thesis
  proof (cases "set ?xs \<subseteq> set ?ns")
    case True
    then have kept: "filter (present s) ?xs = ?xs" by (auto simp: filter_id_conv)
    have "work_ok ?ns W" "length el = length ?ns" and left: "left ?ns el = set ?ns - set ?xs"
      and adj: "adj_fun ?ns W = elim_adj (set ?ns) (dt_near s) ?xs"
      using replay_prefix [OF g _ distinct_take [OF dist] _ W] True by (simp_all add: left_start)
    note run = run_elimination_widths [OF this(1,2) card_left [OF work_okD(1) [OF g] this(2)], unfolded left adj]
    let ?s = "s\<lparr>dt_bound := widest (take p (dt_step_width s) @ map (\<lambda>p. length (snd p)) ?out),
      dt_ordering := ?xs @ map fst ?out, dt_fill_edges := take p (dt_fill_edges s) @ map snd ?out,
      dt_step_width := take p (dt_step_width s) @ map (\<lambda>p. length (snd p)) ?out, dt_dirty := (\<lambda>_. False)\<rparr>"
    have re: "re_eliminate p s = ?s"
      using p W by (simp add: re_eliminate_def Let_def kept)
    have "order_ok ?s"
      by (rule order_okI) (use run True dist w [OF True] in \<open>auto simp: elim_widths_append\<close>)
    then show ?thesis unfolding re using g by (simp add: tracker_ok_def)
  next
    case False
    then have "length (filter (present s) ?xs) < p"
      using p length_filter_less [of _ ?xs "present s"] by auto
    then have "re_eliminate p s = full_recompute s" using W by (simp add: re_eliminate_def Let_def)
    then show ?thesis using full_recompute_ok [OF g] by simp
  qed
qed

section \<open>Updating after an edit\<close>

text \<open>
  \<open>C\<close> holds the edited vertices; those that still exist are dirty, and so is every vertex next to one of
  them, before or after the edit.
\<close>

definition edited :: "nat set \<Rightarrow> dyn_treewidth \<Rightarrow> dyn_treewidth \<Rightarrow> bool" where
  "edited C s s' \<longleftrightarrow>
     same_outside C (set (dt_nodes s)) (dt_near s) (set (dt_nodes s')) (dt_near s') \<and>
     (\<forall>x \<in> set (dt_nodes s'). \<not> is_dirty s' x \<longrightarrow> x \<notin> C \<and> dt_near s x \<inter> C = {} \<and> dt_near s' x \<inter> C = {}) \<and>
     dt_ordering s' = dt_ordering s \<and> dt_step_width s' = dt_step_width s \<and> dt_bound s' = dt_bound s"

lemma first_where_Some:
  "first_where P xs = Some p \<Longrightarrow> p < length xs \<and> P (xs ! p) \<and> (\<forall>x \<in> set (take p xs). \<not> P x)"
  by (auto simp: first_where_def find_Some_iff in_set_conv_nth)

lemma first_where_None: "first_where P xs = None \<longleftrightarrow> (\<forall>x \<in> set xs. \<not> P x)"
  unfolding first_where_def find_None_iff by (simp add: all_set_conv_all_nth)

lemma order_okD:
  assumes "order_ok s"
  shows "length (dt_step_width s) = length (dt_ordering s)" "distinct (dt_ordering s)"
    "set (dt_nodes s) \<subseteq> set (dt_ordering s)"
    "map snd (live_steps s) = elim_widths (set (dt_nodes s)) (dt_near s) (map fst (live_steps s))"
    "dt_bound s = widest (dt_step_width s)"
  using assms by (simp_all add: order_ok_def)

lemma kept_widths:
  assumes o: "order_ok s" and e: "edited C s s'" and p: "p \<le> length (dt_ordering s')"
    and kept: "set (take p (dt_ordering s')) \<subseteq> set (dt_nodes s')"
    and clean: "\<forall>x \<in> set (take p (dt_ordering s')). \<not> is_dirty s' x"
  shows "take p (dt_step_width s') = elim_widths (set (dt_nodes s')) (dt_near s') (take p (dt_ordering s'))"
proof -
  have ord: "dt_ordering s' = dt_ordering s" "dt_step_width s' = dt_step_width s" using e by (simp_all add: edited_def)
  let ?zs = "zip (dt_ordering s) (dt_step_width s)" and ?xs = "take p (dt_ordering s)"
  have away: "x \<notin> C \<and> dt_near s x \<inter> C = {} \<and> dt_near s' x \<inter> C = {}" if "x \<in> set ?xs" for x
    using e kept clean that unfolding ord edited_def by blast
  have old: "set ?xs \<subseteq> set (dt_nodes s)"
    using e kept away unfolding ord edited_def same_outside_def by blast
  have parts: "map fst (take p ?zs) = ?xs" "map snd (take p ?zs) = take p (dt_step_width s)"
    using order_okD(1) [OF o] by (simp_all add: take_zip)
  have "filter (\<lambda>(x, w). x \<in> set (dt_nodes s)) (take p ?zs) = take p ?zs"
    unfolding filter_id_conv
  proof
    fix z assume "z \<in> set (take p ?zs)"
    then have "fst z \<in> set ?xs" using parts(1) by (metis image_eqI list.set_map)
    then show "case z of (x, w) \<Rightarrow> x \<in> set (dt_nodes s)" using old by (simp add: case_prod_unfold) blast
  qed
  then have "live_steps s = take p ?zs @ filter (\<lambda>(x, w). x \<in> set (dt_nodes s)) (drop p ?zs)"
    unfolding live_steps_def by (metis append_take_drop_id filter_append)
  then have "take p (dt_step_width s) @ map snd (filter (\<lambda>(x, w). x \<in> set (dt_nodes s)) (drop p ?zs)) =
      elim_widths (set (dt_nodes s)) (dt_near s) ?xs @
      elim_widths (set (dt_nodes s) - set ?xs) (elim_adj (set (dt_nodes s)) (dt_near s) ?xs)
        (map fst (filter (\<lambda>(x, w). x \<in> set (dt_nodes s)) (drop p ?zs)))"
    using order_okD(4) [OF o] by (simp only: map_append parts elim_widths_append)
  moreover have "length (take p (dt_step_width s)) = length (elim_widths (set (dt_nodes s)) (dt_near s) ?xs)"
    using order_okD(1) [OF o] by simp
  ultimately have "take p (dt_step_width s) = elim_widths (set (dt_nodes s)) (dt_near s) ?xs" by simp
  also have "\<dots> = elim_widths (set (dt_nodes s')) (dt_near s') ?xs"
  proof (rule prefix_widths)
    show "same_outside C (set (dt_nodes s)) (dt_near s) (set (dt_nodes s')) (dt_near s')"
      using e unfolding edited_def by blast
  qed (use away in simp_all)
  finally show ?thesis by (simp only: ord)
qed

lemma nothing_dirty:
  assumes g: "dt_graph_ok s" and o: "order_ok s" and e: "edited C s s'"
    and new: "set (dt_nodes s') \<subseteq> set (dt_ordering s')" and clean: "\<forall>x \<in> set (dt_ordering s'). \<not> is_dirty s' x"
  shows "order_ok s'"
proof -
  have ord: "dt_ordering s' = dt_ordering s" "dt_step_width s' = dt_step_width s" "dt_bound s' = dt_bound s"
    and same: "same_outside C (set (dt_nodes s)) (dt_near s) (set (dt_nodes s')) (dt_near s')"
    using e by (simp_all add: edited_def)
  have away: "x \<notin> C" "dt_near s x \<inter> C = {}" "dt_near s' x \<inter> C = {}" if "x \<in> set (dt_nodes s')" for x
    using e new clean that unfolding edited_def by blast+
  have V: "set (dt_nodes s') = set (dt_nodes s) - C" using same away(1) unfolding same_outside_def by blast
  let ?vs = "map fst (live_steps s)"
  have vs: "?vs = filter (\<lambda>x. x \<in> set (dt_nodes s)) (dt_ordering s)" by (rule live_order [OF order_okD(1) [OF o]])
  have steps: "live_steps s' = filter (\<lambda>(x, w). x \<notin> C) (live_steps s)"
    unfolding live_steps_def ord V by (simp add: case_prod_unfold conj_commute)
  have zip: "live_steps s = zip ?vs (elim_widths (set (dt_nodes s)) (dt_near s) ?vs)"
    unfolding order_okD(4) [OF o, symmetric] by (rule zip_map_fst_snd [symmetric])
  have "map snd (live_steps s') = elim_widths (set (dt_nodes s')) (dt_near s') (filter (\<lambda>x. x \<notin> C) ?vs)"
    unfolding steps
  proof (subst zip, rule without_untouched [OF same])
    show "dt_near s x \<inter> C = {} \<and> dt_near s' x \<inter> C = {}" if "x \<in> set (dt_nodes s) - C" for x
      using away that V by simp
    show "dt_near s x \<inter> set (dt_nodes s) \<subseteq> C" if x: "x \<in> set (dt_nodes s) \<inter> C" for x
    proof
      fix y assume y: "y \<in> dt_near s x \<inter> set (dt_nodes s)"
      then have "x \<in> dt_near s y" using work_okD(3) [OF g] x by (auto simp: symmetric_on_def)
      then show "y \<in> C" using away(2) [of y] x y V by blast
    qed
  qed (use vs V order_okD(2) [OF o] in auto)
  also have "filter (\<lambda>x. x \<notin> C) ?vs = map fst (live_steps s')"
    unfolding steps by (simp add: filter_map comp_def case_prod_unfold)
  finally show ?thesis
    using order_okD [OF o] new by (simp add: order_ok_def ord)
qed

lemma clean_incremental:
  assumes "first_where (is_dirty s) (dt_ordering s) = None"
  shows "(\<exists>p \<le> length (dt_ordering s). incremental_reeliminate s = re_eliminate p s) \<or>
    set (dt_nodes s) \<subseteq> set (dt_ordering s) \<and> incremental_reeliminate s = s\<lparr>dt_dirty := (\<lambda>_. False)\<rparr>"
proof -
  define q where "q = (case first_where (\<lambda>x. \<not> present s x) (dt_ordering s) of Some p \<Rightarrow> p | None \<Rightarrow> 0)"
  define v where "v = fold (\<lambda>p r. if present s (dt_ordering s ! p) then p + 1 else r) [0..<length (dt_ordering s)] 0"
  have "q \<le> length (dt_ordering s)"
    unfolding q_def using first_where_Some [of "\<lambda>x. \<not> present s x" "dt_ordering s"]
    by (cases "first_where (\<lambda>x. \<not> present s x) (dt_ordering s)") auto
  moreover have "incremental_reeliminate s =
      (if set (dt_nodes s) \<subseteq> set (dt_ordering s)
       then if v < length (dt_ordering s) then re_eliminate q s else s\<lparr>dt_dirty := (\<lambda>_. False)\<rparr>
       else re_eliminate (length (dt_ordering s)) s)"
    unfolding incremental_reeliminate_def Let_def assms q_def [symmetric] v_def [symmetric]
    by (auto simp: list_ex_iff)
  ultimately show ?thesis by auto
qed

lemma maybe_update_ok:
  assumes t: "tracker_ok s" and g: "dt_graph_ok s'" and e: "edited C s s'"
  shows "tracker_ok (maybe_update s') \<and> dt_nodes (maybe_update s') = dt_nodes s' \<and> dt_adj (maybe_update s') = dt_adj s'"
proof -
  have o: "order_ok s" and g0: "dt_graph_ok s" using t by (simp_all add: tracker_ok_def)
  have dist: "distinct (dt_ordering s')" using order_okD(2) [OF o] e by (simp add: edited_def)
  have again: "tracker_ok (re_eliminate p s') \<and> dt_nodes (re_eliminate p s') = dt_nodes s' \<and>
      dt_adj (re_eliminate p s') = dt_adj s'"
    if "p \<le> length (dt_ordering s')" "\<forall>x \<in> set (take p (dt_ordering s')). \<not> is_dirty s' x" for p
    by (rule re_eliminate_ok [OF g that(1) dist kept_widths [OF o e that(1) _ that(2)]])
  consider (empty) "dt_nodes s' = []" | (full) "maybe_update s' = full_recompute s'"
    | (incr) "maybe_update s' = incremental_reeliminate s'"
    unfolding maybe_update_def Let_def by meson
  then show ?thesis
  proof cases
    case empty
    have "order_ok (maybe_update s')"
      by (rule order_okI) (simp_all add: maybe_update_def empty widest_def)
    then show ?thesis using g by (simp add: tracker_ok_def maybe_update_def empty)
  next
    case full
    then show ?thesis using full_recompute_ok [OF g] by simp
  next
    case incr
    show ?thesis
    proof (cases "first_where (is_dirty s') (dt_ordering s')")
      case (Some p)
      note f = first_where_Some [OF Some]
      then have "maybe_update s' = re_eliminate p s'"
        by (simp add: incr incremental_reeliminate_def Let_def Some)
      then show ?thesis using again [of p] f by simp
    next
      case None
      then have clean: "\<forall>x \<in> set (dt_ordering s'). \<not> is_dirty s' x" by (simp add: first_where_None)
      then have clean': "\<forall>x \<in> set (take p (dt_ordering s')). \<not> is_dirty s' x" for p by (meson in_set_takeD)
      consider (gone) p where "p \<le> length (dt_ordering s')" "maybe_update s' = re_eliminate p s'"
        | (finish) "set (dt_nodes s') \<subseteq> set (dt_ordering s')" "maybe_update s' = s'\<lparr>dt_dirty := (\<lambda>_. False)\<rparr>"
        using clean_incremental [OF None] incr by metis
      then show ?thesis
      proof cases
        case gone
        then show ?thesis using again [of p] clean' by simp
      next
        case finish
        have "order_ok s'" by (rule nothing_dirty [OF g0 o e finish(1) clean])
        then show ?thesis using g unfolding finish(2) by (simp add: tracker_ok_def order_ok_def live_steps_def)
      qed
    qed
  qed
qed

end
