(* ===== verification/Sotfs_Tracker.thy ===== *)
theory Sotfs_Tracker
  imports Sotfs_Dynbound
begin

text \<open>
  What the notifications of the incremental treewidth tracker do to the graph it tracks, and that the
  bound it reports is always one of that graph.
\<close>

lemma index_in_missing: "x \<notin> set ns \<Longrightarrow> index_in ns x = None"
  by simp

section \<open>Dirty marks\<close>

lemma mark_dirty_same [simp]:
  "dt_nodes (mark_dirty x s) = dt_nodes s" "dt_adj (mark_dirty x s) = dt_adj s"
  "dt_ordering (mark_dirty x s) = dt_ordering s" "dt_step_width (mark_dirty x s) = dt_step_width s"
  "dt_bound (mark_dirty x s) = dt_bound s"
  by (simp_all add: mark_dirty_def split: option.split)

lemma mark_all_same [simp]:
  "dt_nodes (fold mark_dirty xs s) = dt_nodes s" "dt_adj (fold mark_dirty xs s) = dt_adj s"
  "dt_ordering (fold mark_dirty xs s) = dt_ordering s" "dt_step_width (fold mark_dirty xs s) = dt_step_width s"
  "dt_bound (fold mark_dirty xs s) = dt_bound s"
  by (induction xs arbitrary: s) simp_all

lemma mark_neighbors_same [simp]:
  "dt_nodes (mark_neighbors_dirty x s) = dt_nodes s" "dt_adj (mark_neighbors_dirty x s) = dt_adj s"
  "dt_ordering (mark_neighbors_dirty x s) = dt_ordering s"
  "dt_step_width (mark_neighbors_dirty x s) = dt_step_width s" "dt_bound (mark_neighbors_dirty x s) = dt_bound s"
  by (simp_all add: mark_neighbors_dirty_def split: option.split)

lemma is_dirty_mark [simp]:
  "distinct (dt_nodes s) \<Longrightarrow> is_dirty (mark_dirty x s) y \<longleftrightarrow> is_dirty s y \<or> y = x \<and> x \<in> set (dt_nodes s)"
  by (auto simp: is_dirty_def mark_dirty_def node_index_def index_in_Some nth_eq_iff_index_eq split: option.splits)

lemma is_dirty_mark_all [simp]:
  "distinct (dt_nodes s) \<Longrightarrow>
     is_dirty (fold mark_dirty xs s) y \<longleftrightarrow> is_dirty s y \<or> y \<in> set xs \<inter> set (dt_nodes s)"
  by (induction xs arbitrary: s) auto

lemma is_dirty_mark_neighbors [simp]:
  "distinct (dt_nodes s) \<Longrightarrow>
     is_dirty (mark_neighbors_dirty x s) y \<longleftrightarrow> is_dirty s y \<or> y \<in> dt_near s x \<inter> set (dt_nodes s)"
  by (cases "index_in (dt_nodes s) x") (simp_all add: mark_neighbors_dirty_def adj_fun_def node_index_def index_in_missing)

lemma is_dirty_adj [simp]: "is_dirty (s\<lparr>dt_adj := W\<rparr>) x \<longleftrightarrow> is_dirty s x"
  by (cases "index_in (dt_nodes s) x") (simp_all add: is_dirty_def node_index_def index_in_missing)

section \<open>Edges\<close>

lemma near_symmetric: "work_ok ns W \<Longrightarrow> y \<in> adj_fun ns W x \<longleftrightarrow> x \<in> adj_fun ns W y"
proof -
  assume ok: "work_ok ns W"
  have "z \<notin> adj_fun ns W w" if "w \<notin> set ns" for w z using that by (simp add: adj_fun_def index_in_missing)
  then show ?thesis using work_okD(3) [OF ok] adj_fun_sub [OF ok] unfolding symmetric_on_def by blast
qed

lemma add_edge_internal_ok:
  assumes g: "dt_graph_ok s" and uv: "u \<in> set (dt_nodes s)" "v \<in> set (dt_nodes s)" "u \<noteq> v"
  shows "\<exists>W. add_edge_internal u v s = Some (s\<lparr>dt_adj := W\<rparr>) \<and> work_ok (dt_nodes s) W \<and>
    adj_fun (dt_nodes s) W = link_both u v (dt_near s)"
proof -
  note d = work_okD(1) [OF g]
  obtain i j where ij: "i < length (dt_nodes s)" "dt_nodes s ! i = u" "j < length (dt_nodes s)" "dt_nodes s ! j = v"
      "i \<noteq> j"
    using uv by (metis in_set_conv_nth)
  have idx: "index_in (dt_nodes s) u = Some i" "index_in (dt_nodes s) v = Some j"
    using d ij by (simp_all add: index_in_Some)
  have both: "u \<in> set (dt_adj s ! j) \<longleftrightarrow> v \<in> set (dt_adj s ! i)"
    using near_symmetric [OF g, of u v] by (simp add: adj_fun_def idx)
  show ?thesis
  proof (cases "v \<in> set (dt_adj s ! i)")
    case True
    then have "link_both u v (dt_near s) = dt_near s"
      using both by (auto simp: link_both_def fun_eq_iff adj_fun_def idx)
    moreover have "add_edge_internal u v s = Some (s\<lparr>dt_adj := dt_adj s\<rparr>)"
      using True both uv(3)
      by (simp add: add_edge_internal_def add_half_edge_def node_index_def has_adj_edge_def idx)
    ultimately show ?thesis using g by metis
  next
    case False
    have room: "length (dt_adj s ! i) < MAX_DEGREE" "length (dt_adj s ! j) < MAX_DEGREE"
      using room_for_neighbor [OF g] ij False both uv by auto
    have "add_edge_internal u v s =
        Some (s\<lparr>dt_adj := (dt_adj s)[i := dt_adj s ! i @ [dt_nodes s ! j], j := dt_adj s ! j @ [dt_nodes s ! i]]\<rparr>)"
      using False both uv(3) room ij
      by (simp add: add_edge_internal_def add_half_edge_def node_index_def has_adj_edge_def idx)
    then show ?thesis using work_ok_link [OF g ij(1,3,5)] False ij by auto
  qed
qed

text \<open>Removing one element of a list without duplicates.\<close>

lemma butlast_update_last:
  assumes "distinct xs" "j < length xs"
  shows "set (butlast (xs[j := last xs])) = set xs - {xs ! j}" "distinct (butlast (xs[j := last xs]))"
proof -
  obtain ys z where xs: "xs = ys @ [z]" using assms(2) by (cases xs rule: rev_cases) auto
  have "set (ys[j := z]) = insert z (set ys - {ys ! j}) \<and> distinct (ys[j := z])" if "j < length ys"
    using that assms by (simp add: xs set_update_distinct distinct_list_update nth_append)
  then show "set (butlast (xs[j := last xs])) = set xs - {xs ! j}" "distinct (butlast (xs[j := last xs]))"
    using assms by (auto simp: xs nth_append list_update_append split: nat.splits)
qed

lemma swap_remove_ok:
  assumes "distinct xs"
  shows "set (swap_remove x xs) = set xs - {x}" "distinct (swap_remove x xs)"
proof -
  show "set (swap_remove x xs) = set xs - {x}" "distinct (swap_remove x xs)"
    using assms butlast_update_last [OF assms]
    by (auto simp: swap_remove_def index_in_Some split: option.split)
qed

definition unlink_both :: "nat \<Rightarrow> nat \<Rightarrow> (nat \<Rightarrow> nat set) \<Rightarrow> nat \<Rightarrow> nat set" where
  "unlink_both u v adj = (\<lambda>x. adj x - (if x = u then {v} else {}) - (if x = v then {u} else {}))"

definition lists_ok :: "nat list \<Rightarrow> nat list list \<Rightarrow> bool" where
  "lists_ok ns W \<longleftrightarrow> distinct ns \<and> length W = length ns \<and> (\<forall>i < length ns. distinct (W ! i))"

lemma remove_half_edge_ok:
  assumes ok: "lists_ok (dt_nodes s) (dt_adj s)"
  shows "\<exists>W. remove_half_edge u v s = s\<lparr>dt_adj := W\<rparr> \<and> lists_ok (dt_nodes s) W \<and>
    adj_fun (dt_nodes s) W = (dt_near s)(u := dt_near s u - {v})"
proof (cases "index_in (dt_nodes s) u")
  case None
  then have "remove_half_edge u v s = s\<lparr>dt_adj := dt_adj s\<rparr>" "dt_near s u = {}"
    by (simp_all add: remove_half_edge_def node_index_def adj_fun_def index_in_missing)
  then show ?thesis using ok by (intro exI [of _ "dt_adj s"]) (auto simp: fun_eq_iff)
next
  case (Some i)
  have d: "distinct (dt_nodes s)" "length (dt_adj s) = length (dt_nodes s)" using ok by (simp_all add: lists_ok_def)
  then have i: "i < length (dt_nodes s)" "dt_nodes s ! i = u" using Some by (simp_all add: index_in_Some)
  have l: "distinct (dt_adj s ! i)" using ok i by (simp add: lists_ok_def)
  let ?W = "(dt_adj s)[i := swap_remove v (dt_adj s ! i)]"
  have "remove_half_edge u v s = s\<lparr>dt_adj := ?W\<rparr>" by (simp add: remove_half_edge_def node_index_def Some)
  moreover have "lists_ok (dt_nodes s) ?W"
    using ok i swap_remove_ok [OF l] by (auto simp: lists_ok_def nth_list_update)
  moreover have "adj_fun (dt_nodes s) ?W = (dt_near s)(u := dt_near s u - {v})"
    using adj_fun_update [OF d i(1)] swap_remove_ok [OF l] by (simp add: i(2)) (simp add: adj_fun_def Some)
  ultimately show ?thesis by blast
qed

text \<open>What is left of \<open>work_ok\<close> is a matter of the graph.\<close>

lemma work_ok_lists:
  "work_ok ns W \<longleftrightarrow> lists_ok ns W \<and> length ns \<le> MAX_DEGREE + 1 \<and> (\<forall>x. adj_fun ns W x \<subseteq> set ns - {x}) \<and>
     symmetric_on (set ns) (adj_fun ns W)"
proof
  assume "lists_ok ns W \<and> length ns \<le> MAX_DEGREE + 1 \<and> (\<forall>x. adj_fun ns W x \<subseteq> set ns - {x}) \<and>
    symmetric_on (set ns) (adj_fun ns W)"
  moreover from this have "set (W ! i) = adj_fun ns W (ns ! i)" if "i < length ns" for i
    using that by (simp add: adj_fun_def lists_ok_def)
  ultimately show "work_ok ns W" by (simp add: work_ok_def lists_ok_def)
qed (simp add: adj_fun_sub, simp add: work_ok_def lists_ok_def)

lemma remove_edge_internal_ok:
  assumes g: "dt_graph_ok s"
  shows "\<exists>W. remove_edge_internal u v s = s\<lparr>dt_adj := W\<rparr> \<and> work_ok (dt_nodes s) W \<and>
    adj_fun (dt_nodes s) W = unlink_both u v (dt_near s)"
proof -
  obtain W where W: "remove_half_edge u v s = s\<lparr>dt_adj := W\<rparr>" "lists_ok (dt_nodes s) W"
      "adj_fun (dt_nodes s) W = (dt_near s)(u := dt_near s u - {v})"
    using remove_half_edge_ok g by (metis work_ok_lists)
  obtain W' where W': "remove_half_edge v u (s\<lparr>dt_adj := W\<rparr>) = s\<lparr>dt_adj := W'\<rparr>" "lists_ok (dt_nodes s) W'"
      "adj_fun (dt_nodes s) W' = (adj_fun (dt_nodes s) W)(v := adj_fun (dt_nodes s) W v - {u})"
    using remove_half_edge_ok [of "s\<lparr>dt_adj := W\<rparr>" v u] W(2) by auto
  have adj: "adj_fun (dt_nodes s) W' = unlink_both u v (dt_near s)"
    by (auto simp: W'(3) W(3) unlink_both_def fun_eq_iff)
  have "symmetric_on (set (dt_nodes s)) (unlink_both u v (dt_near s))"
    using near_symmetric [OF g] by (auto simp: symmetric_on_def unlink_both_def)
  then have "work_ok (dt_nodes s) W'"
    using g W'(2) unfolding work_ok_lists adj by (auto simp: unlink_both_def)
  then show ?thesis using W(1) W'(1) adj by (auto simp: remove_edge_internal_def)
qed

section \<open>Nodes\<close>

lemma remove_half_edges_ok:
  assumes "lists_ok (dt_nodes s) (dt_adj s)"
  shows "\<exists>W. fold (\<lambda>n s. remove_half_edge n x s) xs s = s\<lparr>dt_adj := W\<rparr> \<and> lists_ok (dt_nodes s) W \<and>
    adj_fun (dt_nodes s) W = (\<lambda>y. if y \<in> set xs then dt_near s y - {x} else dt_near s y)"
  using assms
proof (induction xs arbitrary: s)
  case Nil
  then show ?case by (intro exI [of _ "dt_adj s"]) simp
next
  case (Cons u xs)
  obtain W where W: "remove_half_edge u x s = s\<lparr>dt_adj := W\<rparr>" "lists_ok (dt_nodes s) W"
      "adj_fun (dt_nodes s) W = (dt_near s)(u := dt_near s u - {x})"
    using remove_half_edge_ok [OF Cons.prems] by blast
  obtain W' where W': "fold (\<lambda>n s. remove_half_edge n x s) xs (s\<lparr>dt_adj := W\<rparr>) = s\<lparr>dt_adj := W'\<rparr>"
      "lists_ok (dt_nodes s) W'"
      "adj_fun (dt_nodes s) W' = (\<lambda>y. if y \<in> set xs then adj_fun (dt_nodes s) W y - {x} else adj_fun (dt_nodes s) W y)"
    using Cons.IH [of "s\<lparr>dt_adj := W\<rparr>"] W(2) by (auto cong del: if_weak_cong)
  have "adj_fun (dt_nodes s) W' = (\<lambda>y. if y \<in> set (u # xs) then dt_near s y - {x} else dt_near s y)"
    by (auto simp: W'(3) W(3) fun_eq_iff)
  then show ?case using W'(1,2) W(1) by auto
qed

text \<open>Overwriting an element with the last one, and where the elements are afterwards.\<close>

definition swap_drop :: "nat \<Rightarrow> 'a list \<Rightarrow> 'a list" where
  "swap_drop i xs = butlast (xs[i := last xs])"

lemma swap_drop_code:
  assumes "i < length xs"
  shows "butlast (if i < length xs - 1 then xs[i := xs ! (length xs - 1)] else xs) = swap_drop i xs"
proof -
  obtain ys z where xs: "xs = ys @ [z]" using assms by (cases xs rule: rev_cases) auto
  show ?thesis using assms by (auto simp: xs swap_drop_def list_update_append nth_append split: nat.split)
qed

lemma length_swap_drop [simp]: "length (swap_drop i xs) = length xs - 1"
  by (simp add: swap_drop_def)

lemma nth_swap_drop:
  "k < length xs - 1 \<Longrightarrow> swap_drop i xs ! k = xs ! (if k = i then length xs - 1 else k)"
  by (cases "xs = []") (auto simp: swap_drop_def nth_butlast nth_list_update last_conv_nth)

lemma swap_drop_index:
  assumes d: "distinct ns" and i: "i < length ns"
  shows "index_in (swap_drop i ns) y =
    (if y = ns ! i then None else map_option (\<lambda>j. if j = length ns - 1 then i else j) (index_in ns y))"
proof -
  have d': "distinct (swap_drop i ns)" and set: "set (swap_drop i ns) = set ns - {ns ! i}"
    using butlast_update_last [OF d i] by (simp_all add: swap_drop_def)
  show ?thesis
  proof (cases "y \<in> set ns \<and> y \<noteq> ns ! i")
    case True
    then obtain j where j: "j < length ns" "ns ! j = y" "j \<noteq> i" by (auto simp: in_set_conv_nth)
    then have "index_in ns y = Some j" using d by (simp add: index_in_Some)
    moreover have "index_in (swap_drop i ns) y = Some (if j = length ns - 1 then i else j)"
      unfolding index_in_Some [OF d'] using i j by (auto simp: nth_swap_drop)
    ultimately show ?thesis using True by simp
  next
    case False
    then show ?thesis using set by (auto simp: index_in_missing)
  qed
qed

lemma swap_drop_lists:
  assumes "lists_ok ns W" "i < length ns"
  shows "lists_ok (swap_drop i ns) (swap_drop i W)" "set (swap_drop i ns) = set ns - {ns ! i}"
    "adj_fun (swap_drop i ns) (swap_drop i W) = (adj_fun ns W)(ns ! i := {})"
proof -
  have d: "distinct ns" and l: "length W = length ns" using assms(1) by (simp_all add: lists_ok_def)
  show "set (swap_drop i ns) = set ns - {ns ! i}"
    using butlast_update_last [OF d assms(2)] by (simp add: swap_drop_def)
  show "lists_ok (swap_drop i ns) (swap_drop i W)"
    using assms butlast_update_last [OF d assms(2)] by (auto simp: lists_ok_def nth_swap_drop swap_drop_def [symmetric])
  have "swap_drop i W ! (if j = length ns - 1 then i else j) = W ! j" if "index_in ns y = Some j" "y \<noteq> ns ! i" for j y
  proof -
    have "j < length ns" "j \<noteq> i" using that d by (auto simp: index_in_Some)
    then show ?thesis using assms(2) l by (auto simp: nth_swap_drop)
  qed
  then show "adj_fun (swap_drop i ns) (swap_drop i W) = (adj_fun ns W)(ns ! i := {})"
    by (intro ext, rename_tac y, case_tac "index_in ns y")
      (simp_all add: adj_fun_def swap_drop_index [OF d assms(2)] index_in_missing)
qed

lemma remove_node_internal_ok:
  fixes s :: dyn_treewidth and x :: nat
  assumes g: "dt_graph_ok s"
  defines "s' \<equiv> remove_node_internal x s"
  shows "dt_graph_ok s'" "set (dt_nodes s') = set (dt_nodes s) - {x}"
    "dt_near s' = (\<lambda>y. if y = x then {} else dt_near s y - {x})"
    "y \<noteq> x \<Longrightarrow> is_dirty s' y \<longleftrightarrow> is_dirty s y"
    "dt_ordering s' = dt_ordering s" "dt_step_width s' = dt_step_width s" "dt_bound s' = dt_bound s"
proof -
  have "dt_graph_ok s' \<and> set (dt_nodes s') = set (dt_nodes s) - {x} \<and>
    dt_near s' = (\<lambda>y. if y = x then {} else dt_near s y - {x}) \<and> (\<forall>y. y \<noteq> x \<longrightarrow> is_dirty s' y = is_dirty s y) \<and>
    dt_ordering s' = dt_ordering s \<and> dt_step_width s' = dt_step_width s \<and> dt_bound s' = dt_bound s"
  proof (cases "index_in (dt_nodes s) x")
    case None
    then have "s' = s" "dt_near s x = {}"
      by (simp_all add: s'_def remove_node_internal_def node_index_def adj_fun_def index_in_missing)
    moreover have "x \<notin> dt_near s y" for y using None adj_fun_sub [OF g, of y] by auto
    ultimately show ?thesis using g None by (auto simp: fun_eq_iff)
  next
    case (Some i)
    let ?ns = "dt_nodes s" and ?c = "length (dt_nodes s) - 1"
    note d = work_okD(1) [OF g]
    have i: "i < length ?ns" "?ns ! i = x" using Some d by (simp_all add: index_in_Some)
    have near: "dt_near s x = set (dt_adj s ! i)" by (simp add: adj_fun_def Some)
    obtain W where W: "fold (\<lambda>n s. remove_half_edge n x s) (dt_adj s ! i) s = s\<lparr>dt_adj := W\<rparr>" "lists_ok ?ns W"
        "adj_fun ?ns W = (\<lambda>y. if y \<in> dt_near s x then dt_near s y - {x} else dt_near s y)"
      using remove_half_edges_ok [of s x "dt_adj s ! i"] g unfolding work_ok_lists near by blast
    have adj: "adj_fun ?ns W = (\<lambda>y. dt_near s y - {x})"
      unfolding W(3) using near_symmetric [OF g, of x] by (auto simp: fun_eq_iff)
    have l: "length W = length ?ns" using W(2) by (simp add: lists_ok_def)
    let ?dirty = "if i < ?c then (dt_dirty s)(i := dt_dirty s ?c) else dt_dirty s"
    have s': "s' = s\<lparr>dt_nodes := swap_drop i ?ns, dt_adj := swap_drop i W, dt_dirty := ?dirty\<rparr>"
      using swap_drop_code [OF i(1)] swap_drop_code [of i W] i(1) l
      by (cases "i < ?c") (simp_all add: s'_def remove_node_internal_def node_index_def Some Let_def W(1))
    note sd = swap_drop_lists [OF W(2) i(1), unfolded i(2)]
    have near': "dt_near s' = (\<lambda>y. if y = x then {} else dt_near s y - {x})"
      by (auto simp: s' sd(3) adj fun_eq_iff)
    have "symmetric_on (set (dt_nodes s')) (dt_near s')"
      unfolding near' using near_symmetric [OF g] by (auto simp: symmetric_on_def)
    then have "dt_graph_ok s'"
      using g adj_fun_sub [OF g] sd(1,2) unfolding work_ok_lists near' by (auto simp: s')
    moreover have "is_dirty s' y = is_dirty s y" if "y \<noteq> x" for y
    proof (cases "index_in ?ns y")
      case (Some j)
      then have "j < length ?ns" "j \<noteq> i" using that i d by (auto simp: index_in_Some)
      then show ?thesis
        using Some that i by (auto simp: is_dirty_def node_index_def s' swap_drop_index [OF d i(1)])
    qed (simp add: is_dirty_def node_index_def s' swap_drop_index [OF d i(1)] index_in_missing)
    ultimately show ?thesis using near' by (simp add: s' sd(2))
  qed
  then show "dt_graph_ok s'" "set (dt_nodes s') = set (dt_nodes s) - {x}"
    "dt_near s' = (\<lambda>y. if y = x then {} else dt_near s y - {x})" "y \<noteq> x \<Longrightarrow> is_dirty s' y \<longleftrightarrow> is_dirty s y"
    "dt_ordering s' = dt_ordering s" "dt_step_width s' = dt_step_width s" "dt_bound s' = dt_bound s"
    by blast+
qed

section \<open>Notifications\<close>

lemma on_add_edge_ok:
  assumes t: "tracker_ok s" and uv: "u \<in> set (dt_nodes s)" "v \<in> set (dt_nodes s)" "u \<noteq> v"
  shows "\<exists>s'. on_add_edge u v s = Some s' \<and> tracker_ok s' \<and> dt_nodes s' = dt_nodes s \<and>
    dt_near s' = link_both u v (dt_near s)"
proof -
  have g: "dt_graph_ok s" using t by (simp add: tracker_ok_def)
  obtain W where W: "add_edge_internal u v s = Some (s\<lparr>dt_adj := W\<rparr>)" "work_ok (dt_nodes s) W"
      "adj_fun (dt_nodes s) W = link_both u v (dt_near s)"
    using add_edge_internal_ok [OF g uv] by blast
  let ?s = "s\<lparr>dt_adj := W\<rparr>"
  let ?s' = "mark_neighbors_dirty v (mark_neighbors_dirty u (mark_dirty v (mark_dirty u ?s)))"
  have near: "dt_near ?s' = link_both u v (dt_near s)" by (simp add: W(3))
  have dirty: "is_dirty ?s' x \<longleftrightarrow> is_dirty s x \<or> x \<in> {u, v} \<union> dt_near s u \<union> dt_near s v"
    if "x \<in> set (dt_nodes s)" for x
    using uv that work_okD(1) [OF g] by (auto simp: W(3) link_both_def)
  have "edited {u, v} s ?s'"
    unfolding edited_def near
    using dirty near_symmetric [OF g] by (auto simp: same_outside_def link_both_def)
  note m = maybe_update_ok [OF t _ this]
  have "on_add_edge u v s = Some (maybe_update ?s')" using uv(3) by (simp add: on_add_edge_def W(1))
  then show ?thesis using m W(2,3) by simp
qed

lemma on_remove_edge_ok:
  assumes t: "tracker_ok s" and uv: "u \<noteq> v"
  shows "tracker_ok (on_remove_edge u v s) \<and> dt_nodes (on_remove_edge u v s) = dt_nodes s \<and>
    dt_near (on_remove_edge u v s) = unlink_both u v (dt_near s)"
proof -
  have g: "dt_graph_ok s" using t by (simp add: tracker_ok_def)
  obtain W where W: "remove_edge_internal u v s = s\<lparr>dt_adj := W\<rparr>" "work_ok (dt_nodes s) W"
      "adj_fun (dt_nodes s) W = unlink_both u v (dt_near s)"
    using remove_edge_internal_ok [OF g] by blast
  let ?s = "s\<lparr>dt_adj := W\<rparr>"
  let ?s' = "mark_neighbors_dirty v (mark_neighbors_dirty u (mark_dirty v (mark_dirty u ?s)))"
  have near: "dt_near ?s' = unlink_both u v (dt_near s)" by (simp add: W(3))
  have dirty: "is_dirty ?s' x \<longleftrightarrow> is_dirty s x \<or> x \<in> {u, v} \<union> dt_near s u \<union> dt_near s v"
    if "x \<in> set (dt_nodes s)" for x
    using that work_okD(1) [OF g] by (auto simp: W(3) unlink_both_def)
  have "edited {u, v} s ?s'"
    unfolding edited_def near
    using dirty near_symmetric [OF g] by (auto simp: same_outside_def unlink_both_def)
  note m = maybe_update_ok [OF t _ this]
  have "on_remove_edge u v s = maybe_update ?s'" using uv by (simp add: on_remove_edge_def W(1))
  then show ?thesis using m W(2,3) by simp
qed

lemma on_add_node_ok:
  assumes t: "tracker_ok s" and room: "card (insert x (set (dt_nodes s))) \<le> MAX_DEGREE + 1"
  shows "\<exists>s'. on_add_node x s = Some s' \<and> tracker_ok s' \<and> set (dt_nodes s') = insert x (set (dt_nodes s)) \<and>
    dt_near s' = dt_near s"
proof (cases "x \<in> set (dt_nodes s)")
  case True
  have g: "dt_graph_ok s" using t by (simp add: tracker_ok_def)
  have "edited {} s (mark_dirty x s)" by (simp add: edited_def same_outside_def)
  note m = maybe_update_ok [OF t _ this]
  have "on_add_node x s = Some (maybe_update (mark_dirty x s))"
    using True by (simp add: on_add_node_def add_node_internal_def node_index_def)
  then show ?thesis using m g True by (simp add: insert_absorb)
next
  case False
  have g: "dt_graph_ok s" using t by (simp add: tracker_ok_def)
  have len: "length (dt_nodes s) < MAX_DEGREE + 1" using room False distinct_card [OF work_okD(1) [OF g]] by simp
  let ?s = "s\<lparr>dt_nodes := dt_nodes s @ [x], dt_adj := dt_adj s @ [[]]\<rparr>"
  have idx: "index_in (dt_nodes s @ [x]) y = (if y = x then Some (length (dt_nodes s)) else index_in (dt_nodes s) y)" for y
  proof (cases "index_in (dt_nodes s) y")
    case (Some i)
    then show ?thesis using False work_okD(1) [OF g] by (auto simp: index_in_Some nth_append)
  qed (use False work_okD(1) [OF g] in \<open>auto simp: index_in_Some index_in_missing\<close>)
  have near: "dt_near ?s = dt_near s"
    using False work_okD(1,2) [OF g]
    by (intro ext, rename_tac y, case_tac "index_in (dt_nodes s) y")
      (auto simp: adj_fun_def idx index_in_missing index_in_Some nth_append)
  have "lists_ok (dt_nodes ?s) (dt_adj ?s)"
    using g False by (auto simp: work_ok_lists lists_ok_def nth_append less_Suc_eq)
  moreover have "symmetric_on (insert x (set (dt_nodes s))) (dt_near s)"
    using near_symmetric [OF g] by (auto simp: symmetric_on_def)
  ultimately have g': "dt_graph_ok ?s"
    using len adj_fun_sub [OF g] near unfolding work_ok_lists by auto
  have "is_dirty (mark_dirty x ?s) y \<longleftrightarrow> is_dirty ?s y \<or> y = x" for y
    using is_dirty_mark [of ?s x y] work_okD(1) [OF g'] by simp
  then have "edited {x} s (mark_dirty x ?s)"
    using near False adj_fun_sub [OF g] by (auto simp: edited_def same_outside_def)
  note m = maybe_update_ok [OF t _ this]
  have "on_add_node x s = Some (maybe_update (mark_dirty x ?s))"
    using False len by (simp add: on_add_node_def add_node_internal_def node_index_def index_in_missing MAX_DEGREE_def MAX_NODES_def)
  then show ?thesis using m g' near by simp
qed

lemma on_remove_node_ok:
  fixes s :: dyn_treewidth and x :: nat
  assumes t: "tracker_ok s"
  defines "s' \<equiv> on_remove_node x s"
  shows "tracker_ok s' \<and> set (dt_nodes s') = set (dt_nodes s) - {x} \<and>
    dt_near s' = (\<lambda>y. if y = x then {} else dt_near s y - {x})"
proof -
  have g: "dt_graph_ok s" using t by (simp add: tracker_ok_def)
  let ?s = "mark_neighbors_dirty x s"
  let ?s' = "remove_node_internal x ?s"
  have g1: "dt_graph_ok ?s" using g by simp
  note r = remove_node_internal_ok [OF g1, where x = x, simplified]
  have dirty: "is_dirty ?s' y \<longleftrightarrow> is_dirty s y \<or> y \<in> dt_near s x" if "y \<in> set (dt_nodes s)" "y \<noteq> x" for y
    using r(4) that work_okD(1) [OF g] by simp
  have "edited {x} s ?s'"
    unfolding edited_def r using dirty near_symmetric [OF g, of x] by (auto simp: same_outside_def)
  note m = maybe_update_ok [OF t r(1) this]
  have "on_remove_node x s = maybe_update ?s'"
    by (simp add: on_remove_node_def mark_neighbors_dirty_def Let_def)
  then show ?thesis using m r(2,3) by (simp add: s'_def cong del: if_weak_cong)
qed

text \<open>A client of the tracker: the four notifications, and what each does to a plain graph.\<close>

datatype notification = AddEdge nat nat | RemoveEdge nat nat | AddNode nat | RemoveNode nat

fun notify :: "notification \<Rightarrow> dyn_treewidth \<Rightarrow> dyn_treewidth option" where
  "notify (AddEdge u v) s = on_add_edge u v s"
| "notify (RemoveEdge u v) s = Some (on_remove_edge u v s)"
| "notify (AddNode x) s = on_add_node x s"
| "notify (RemoveNode x) s = Some (on_remove_node x s)"

fun notify_all :: "notification list \<Rightarrow> dyn_treewidth \<Rightarrow> dyn_treewidth option" where
  "notify_all [] s = Some s"
| "notify_all (n # ns) s = Option.bind (notify n s) (notify_all ns)"

type_synonym plain_graph = "nat set \<times> (nat \<times> nat) set"

fun edit_graph :: "notification \<Rightarrow> plain_graph \<Rightarrow> plain_graph" where
  "edit_graph (AddEdge u v) (V, E) = (V, if u = v then E else insert (u, v) (insert (v, u) E))"
| "edit_graph (RemoveEdge u v) (V, E) = (V, E - {(u, v), (v, u)})"
| "edit_graph (AddNode x) (V, E) = (insert x V, E)"
| "edit_graph (RemoveNode x) (V, E) = (V - {x}, {(a, b). (a, b) \<in> E \<and> a \<noteq> x \<and> b \<noteq> x})"

text \<open>Edges join nodes that are tracked, and there are never more than 65 of them.\<close>

fun admissible :: "notification \<Rightarrow> plain_graph \<Rightarrow> bool" where
  "admissible (AddEdge u v) (V, E) \<longleftrightarrow> u = v \<or> u \<in> V \<and> v \<in> V"
| "admissible (RemoveEdge u v) (V, E) \<longleftrightarrow> True"
| "admissible (AddNode x) (V, E) \<longleftrightarrow> card (insert x V) \<le> MAX_DEGREE + 1"
| "admissible (RemoveNode x) (V, E) \<longleftrightarrow> True"

fun admissible_all :: "notification list \<Rightarrow> plain_graph \<Rightarrow> bool" where
  "admissible_all [] G \<longleftrightarrow> True"
| "admissible_all (n # ns) G \<longleftrightarrow> admissible n G \<and> admissible_all ns (edit_graph n G)"

definition tracked_graph :: "dyn_treewidth \<Rightarrow> plain_graph" where
  "tracked_graph s = (set (dt_nodes s), {(x, y). y \<in> dt_near s x})"

lemma notify_ok:
  assumes t: "tracker_ok s" and a: "admissible n (tracked_graph s)"
  shows "\<exists>s'. notify n s = Some s' \<and> tracker_ok s' \<and> tracked_graph s' = edit_graph n (tracked_graph s)"
proof -
  have g: "dt_graph_ok s" using t by (simp add: tracker_ok_def)
  show ?thesis
  proof (cases n)
    case (AddEdge u v)
    show ?thesis
    proof (cases "u = v")
      case True
      then show ?thesis using t by (simp add: AddEdge on_add_edge_def tracked_graph_def)
    next
      case False
      then obtain s' where "on_add_edge u v s = Some s'" "tracker_ok s'" "dt_nodes s' = dt_nodes s"
          "dt_near s' = link_both u v (dt_near s)"
        using on_add_edge_ok [OF t, of u v] a by (auto simp: AddEdge tracked_graph_def)
      moreover have "{(x, y). y \<in> link_both u v (dt_near s) x} = insert (u, v) (insert (v, u) {(x, y). y \<in> dt_near s x})"
        by (auto simp: link_both_def split: if_splits)
      ultimately show ?thesis using False by (auto simp: AddEdge tracked_graph_def)
    qed
  next
    case (RemoveEdge u v)
    show ?thesis
    proof (cases "u = v")
      case True
      have "u \<notin> dt_near s u" using adj_fun_sub [OF g, of u] by blast
      then show ?thesis using t True by (auto simp: RemoveEdge on_remove_edge_def tracked_graph_def)
    next
      case False
      have "{(x, y). y \<in> unlink_both u v (dt_near s) x} = {(x, y). y \<in> dt_near s x} - {(u, v), (v, u)}"
        by (auto simp: unlink_both_def split: if_splits)
      moreover obtain s' where "on_remove_edge u v s = s'" "tracker_ok s'" "dt_nodes s' = dt_nodes s"
          "dt_near s' = unlink_both u v (dt_near s)"
        using on_remove_edge_ok [OF t False] by blast
      ultimately show ?thesis by (auto simp: RemoveEdge tracked_graph_def)
    qed
  next
    case (AddNode x)
    then show ?thesis using on_add_node_ok [OF t, of x] a by (auto simp: tracked_graph_def)
  next
    case (RemoveNode x)
    have "{(a, b). b \<in> (if a = x then {} else dt_near s a - {x})} = {(a, b). b \<in> dt_near s a \<and> a \<noteq> x \<and> b \<noteq> x}"
      by (auto split: if_split_asm)
    then show ?thesis using on_remove_node_ok [OF t, of x] by (simp add: RemoveNode tracked_graph_def)
  qed
qed

lemma notify_all_ok:
  "tracker_ok s \<Longrightarrow> admissible_all ns (tracked_graph s) \<Longrightarrow>
     \<exists>s'. notify_all ns s = Some s' \<and> tracker_ok s' \<and> tracked_graph s' = fold edit_graph ns (tracked_graph s)"
proof (induction ns arbitrary: s)
  case (Cons n ns)
  then obtain s' where "notify n s = Some s'" "tracker_ok s'" "tracked_graph s' = edit_graph n (tracked_graph s)"
    using notify_ok [of s n] by auto
  then show ?case using Cons.IH [of s'] Cons.prems by simp
qed simp

lemma dt_new_ok: "tracker_ok dt_new" "tracked_graph dt_new = ({}, {})"
  by (simp_all add: tracker_ok_def order_ok_def live_steps_def work_ok_def dt_new_def symmetric_on_def widest_def
      tracked_graph_def adj_fun_def index_in_missing)

lemma tracked_bound:
  assumes "tracker_ok s" "tracked_graph s = (V, E)"
  shows "treewidth_le V E (dt_bound s)"
proof -
  have g: "dt_graph_ok s" using assms(1) by (simp add: tracker_ok_def)
  have "x \<in> set (dt_nodes s) \<and> y \<in> set (dt_nodes s)" if "y \<in> dt_near s x" for x y
    using that adj_fun_sub [OF g] near_symmetric [OF g] by blast
  then have "E = adj_edges (set (dt_nodes s)) (dt_near s)"
    using assms(2) by (auto simp: tracked_graph_def adj_edges_def)
  then show ?thesis using tracker_bound [OF assms(1)] assms(2) by (simp add: tracked_graph_def)
qed

text \<open>
  C30: the incremental tracker is right: after every admissible sequence of notifications it has not
  panicked, tracks exactly the graph that the notifications describe, and its bound is an upper bound of
  the treewidth of that graph.
\<close>

theorem tracker_sound:
  assumes "admissible_all ns ({}, {})"
  shows "\<exists>s V E. notify_all ns dt_new = Some s \<and> tracked_graph s = (V, E) \<and> (V, E) = fold edit_graph ns ({}, {}) \<and>
    treewidth_le V E (dt_bound s)"
proof -
  obtain s where s: "notify_all ns dt_new = Some s" "tracker_ok s" "tracked_graph s = fold edit_graph ns ({}, {})"
    using notify_all_ok [OF dt_new_ok(1), of ns] assms dt_new_ok(2) by auto
  obtain V E where "tracked_graph s = (V, E)" by (cases "tracked_graph s")
  then show ?thesis using s tracked_bound [OF s(2)] by metis
qed

theorem tracker_sound_witness:
  "\<exists>s V E. notify_all [AddNode 1, AddNode 2, AddNode 3, AddEdge 1 2, AddEdge 2 3, RemoveNode 2] dt_new = Some s \<and>
     tracked_graph s = (V, E) \<and>
     (V, E) = fold edit_graph [AddNode 1, AddNode 2, AddNode 3, AddEdge 1 2, AddEdge 2 3, RemoveNode 2] ({}, {}) \<and>
     treewidth_le V E (dt_bound s)"
  by (rule tracker_sound) (simp add: MAX_DEGREE_def)

text \<open>
  But the bound is not what \<open>full_recompute\<close> gives, as the documentation has it.  When one corner of a
  square is removed, the kept prefix of the order holds the width that another corner had in the
  square, so the bound stays at 2 on the path that is left, where recomputing gives 1.
\<close>

theorem tracker_above_recompute:
  "\<exists>s. notify_all ([AddNode 0, AddNode 1, AddNode 2, AddNode 3, AddNode 4, AddNode 5, AddNode 8] @
       [AddEdge 0 1, AddEdge 1 8, AddEdge 8 2, AddEdge 2 0, RemoveNode 8]) dt_new = Some s \<and>
     dt_bound s = 2 \<and> dt_bound (full_recompute s) = 1"
proof -
  let ?ns = "[AddNode 0, AddNode 1, AddNode 2, AddNode 3, AddNode 4, AddNode 5, AddNode 8] @
    [AddEdge 0 1, AddEdge 1 8, AddEdge 8 2, AddEdge 2 0, RemoveNode 8]"
  have "map_option (\<lambda>s. (dt_bound s, dt_bound (full_recompute s))) (notify_all ?ns dt_new) = Some (2, 1)"
    by code_simp
  then show ?thesis by (auto simp: map_option_case split: option.splits)
qed

end
