(* ===== verification/Sotfs_Loading.thy ===== *)
theory Sotfs_Loading
  imports Sotfs_Tracker Sotfs_Examples
begin

text \<open>
  The tracker that is built from a type graph: it holds the skeleton of the graph, and its elimination on
  fixed arrays and the one on ordered sets eliminate the same vertices in the same order.
\<close>

section \<open>Loading\<close>

definition loaded :: "node_id list \<Rightarrow> ((node_id \<rightharpoonup> nat) \<times> nat \<times> dyn_treewidth) \<Rightarrow> skeleton \<Rightarrow> bool" where
  "loaded ns st sk \<longleftrightarrow>
     (case st of (ids, next_uid, s) \<Rightarrow> ids = sk_ids sk \<and> next_uid = length ns \<and>
       s = dt_new\<lparr>dt_nodes := [0..<length ns], dt_adj := replicate (length ns) []\<rparr>)"

lemma load_nodes:
  assumes "distinct ns" "length ns \<le> MAX_NODES"
  shows "\<exists>st. fold load_node ns (Some (Map.empty, 0, dt_new\<lparr>dt_nodes := [], dt_adj := []\<rparr>)) = Some st \<and>
    loaded ns st (fold add_skeleton_node ns \<lparr>sk_ids = Map.empty, sk_nodes = [], sk_adj = [], sk_next = 0\<rparr>)"
  using assms
proof (induction ns rule: rev_induct)
  case Nil
  then show ?case by (simp add: loaded_def)
next
  case (snoc n ns)
  let ?sk = "fold add_skeleton_node ns \<lparr>sk_ids = Map.empty, sk_nodes = [], sk_adj = [], sk_next = 0\<rparr>"
  obtain ids s where st: "fold load_node ns (Some (Map.empty, 0, dt_new\<lparr>dt_nodes := [], dt_adj := []\<rparr>)) =
      Some (ids, length ns, s)" and ids: "ids = sk_ids ?sk"
    and s: "s = dt_new\<lparr>dt_nodes := [0..<length ns], dt_adj := replicate (length ns) []\<rparr>"
    using snoc by (auto simp: loaded_def)
  have "sk_next ?sk = length ns" using numbered_nodes [of ns] snoc.prems(1) by (simp add: numbered_def)
  moreover have "add_node_internal (length ns) s =
      Some (dt_new\<lparr>dt_nodes := [0..<Suc (length ns)], dt_adj := replicate (Suc (length ns)) []\<rparr>)"
    using snoc.prems(2)
    by (simp add: add_node_internal_def node_index_def s index_in_missing replicate_append_same)
  ultimately show ?case
    by (simp add: st load_node_def [of n] loaded_def add_skeleton_node_def [of n] Let_def ids replicate_append_same)
qed

lemma load_edges:
  assumes "dt_graph_ok s" "\<And>n i. ids n = Some i \<Longrightarrow> i \<in> set (dt_nodes s)"
    and "sk_ids sk = ids" "mi_ok (sk_adj sk)" "dt_near s = adj_of (sk_adj sk)"
  shows "\<exists>W. fold (load_edge ids) es (Some s) = Some (s\<lparr>dt_adj := W\<rparr>) \<and> work_ok (dt_nodes s) W \<and>
    adj_fun (dt_nodes s) W = adj_of (sk_adj (fold add_skeleton_edge es sk))"
  using assms
proof (induction es arbitrary: s sk)
  case Nil
  then show ?case by (intro exI [of _ "dt_adj s"]) simp
next
  case (Cons e es)
  have step: "\<exists>W. load_edge ids e (Some s) = Some (s\<lparr>dt_adj := W\<rparr>) \<and> work_ok (dt_nodes s) W \<and>
      adj_fun (dt_nodes s) W = adj_of (sk_adj (add_skeleton_edge e sk))"
  proof (cases "\<exists>u v. ids (src_node e) = Some u \<and> ids (tgt_node e) = Some v \<and> u \<noteq> v")
    case True
    then obtain u v where uv: "ids (src_node e) = Some u" "ids (tgt_node e) = Some v" "u \<noteq> v" by blast
    have "adj_of (sk_adj (add_skeleton_edge e sk)) = link_both u v (dt_near s)"
      using uv Cons.prems(3-5) by (auto simp: add_skeleton_edge_def mi_get_add link_both_def fun_eq_iff)
    then show ?thesis
      using add_edge_internal_ok [OF Cons.prems(1) Cons.prems(2) [OF uv(1)] Cons.prems(2) [OF uv(2)] uv(3)] uv
      by (simp add: load_edge_def)
  next
    case False
    then have "load_edge ids e (Some s) = Some (s\<lparr>dt_adj := dt_adj s\<rparr>)" "add_skeleton_edge e sk = sk"
      using Cons.prems(3) by (auto simp: load_edge_def add_skeleton_edge_def split: option.split)
    then show ?thesis using Cons.prems by metis
  qed
  then obtain W where W: "load_edge ids e (Some s) = Some (s\<lparr>dt_adj := W\<rparr>)" "work_ok (dt_nodes s) W"
      "adj_fun (dt_nodes s) W = adj_of (sk_adj (add_skeleton_edge e sk))"
    by blast
  have "sk_ids (add_skeleton_edge e sk) = ids" "mi_ok (sk_adj (add_skeleton_edge e sk))"
    using skeleton_edges [of "[e]" sk] Cons.prems(3,4) by simp_all
  then show ?case
    using Cons.IH [of "s\<lparr>dt_adj := W\<rparr>" "add_skeleton_edge e sk"] Cons.prems(2) W by simp
qed

lemma near_replicate: "distinct ns \<Longrightarrow> adj_fun ns (replicate (length ns) []) = (\<lambda>x. {})"
proof
  fix x
  assume d: "distinct ns"
  show "adj_fun ns (replicate (length ns) []) x = {}"
  proof (cases "index_in ns x")
    case (Some i)
    then have "i < length ns" using d by (simp add: index_in_Some)
    then show ?thesis by (simp add: adj_fun_def Some)
  qed (simp add: adj_fun_def index_in_missing)
qed

lemma load_type_graph_ok:
  assumes "length (skeleton_nodes g) \<le> MAX_DEGREE + 1"
  shows "\<exists>s. load_type_graph g dt_new = Some s \<and> dt_graph_ok s \<and> dt_nodes s = [0..<length (skeleton_nodes g)] \<and>
    dt_near s = adj_of (sk_adj (skeleton_of g))"
proof -
  let ?ns = "skeleton_nodes g"
  let ?sk = "fold add_skeleton_node ?ns \<lparr>sk_ids = Map.empty, sk_nodes = [], sk_adj = [], sk_next = 0\<rparr>"
  let ?s = "dt_new\<lparr>dt_nodes := [0..<length ?ns], dt_adj := replicate (length ?ns) []\<rparr>"
  note num = numbered_nodes [OF skeleton_nodes_distinct, of g, unfolded numbered_def]
  have near: "dt_near ?s = (\<lambda>x. {})"
    using near_replicate [of "[0..<length ?ns]"] by simp
  then have "dt_graph_ok ?s" using assms unfolding work_ok_def near by (simp add: symmetric_on_def)
  moreover have "length ?ns \<le> MAX_NODES" using assms by (simp add: MAX_NODES_def MAX_DEGREE_def)
  then have "fold load_node ?ns (Some (Map.empty, 0, dt_new\<lparr>dt_nodes := [], dt_adj := []\<rparr>)) =
      Some (sk_ids ?sk, length ?ns, ?s)"
    using load_nodes [OF skeleton_nodes_distinct, of g] by (auto simp: loaded_def)
  moreover have "i \<in> set (dt_nodes ?s)" if "sk_ids ?sk n = Some i" for n i
    using num that by (auto dest!: map_of_SomeD dest: set_zip_rightD)
  moreover have "dt_near ?s = adj_of (sk_adj ?sk)" using num unfolding near by auto
  ultimately show ?thesis
    using load_edges [of ?s "sk_ids ?sk" ?sk "ar_values (edges g)"] num
    by (auto simp: load_type_graph_def skeleton_of_def)
qed

section \<open>The two eliminations\<close>

lemma min_by_key_map: "min_by_key f (map h xs) = map_option h (min_by_key (\<lambda>x. f (h x)) xs)"
  by (induction xs) (auto split: option.split)

lemma min_by_key_cong: "(\<And>x. x \<in> set xs \<Longrightarrow> f x = f' x) \<Longrightarrow> min_by_key f xs = min_by_key f' xs"
  by (induction xs) (auto split: option.split dest: min_by_key_in)

text \<open>The scan with a running minimum returns the first of the least elements.\<close>

abbreviation live_degree :: "nat list \<Rightarrow> bool list \<Rightarrow> nat list list \<Rightarrow> nat \<Rightarrow> nat" where
  "live_degree ns el W i \<equiv> length (remaining_neighbors ns el W i)"

lemma pick_loop_min:
  "pick_loop ns el W is (Some d) m =
     (case min_by_key (live_degree ns el W) (filter (\<lambda>i. \<not> el ! i) is) of
        None \<Rightarrow> m | Some y \<Rightarrow> if live_degree ns el W y < d then y else m)"
  by (induction "is" arbitrary: d m) (auto simp: Let_def split: option.split)

lemma pick_loop_first:
  "pick_loop ns el W is None m =
     (case min_by_key (live_degree ns el W) (filter (\<lambda>i. \<not> el ! i) is) of None \<Rightarrow> m | Some y \<Rightarrow> y)"
  by (induction "is") (auto simp: Let_def pick_loop_min split: option.split)

lemma live_list:
  assumes "length el = length ns"
  shows "set (map ((!) ns) (filter (\<lambda>i. \<not> el ! i) [0..<length ns])) = left ns el"
  using assms by (auto simp: left_def)

lemma same_elimination:
  assumes "work_ok ns W" "length el = length ns" "mi_ok adj" "adj_of adj = adj_fun ns W"
    and "rem = map ((!) ns) (filter (\<lambda>i. \<not> el ! i) [0..<length ns])" "length rem = k"
  shows "eliminate adj rem w = fold max (map (\<lambda>p. length (snd p)) (run_elimination ns k W el)) w"
  using assms
proof (induction k arbitrary: W el adj rem w)
  case 0
  then show ?case by (simp add: eliminate.simps [of _ "[]"])
next
  case (Suc k)
  let ?idx = "filter (\<lambda>i. \<not> el ! i) [0..<length ns]" and ?R = "left ns el"
  note ok = Suc.prems(1) and d = work_okD(1) [OF Suc.prems(1)]
  have R: "set rem = ?R" unfolding Suc.prems(5) by (rule live_list [OF Suc.prems(2)])
  have free: "loop_free (set rem) (adj_of adj)"
    using adj_fun_sub [OF ok] by (auto simp: loop_free_def Suc.prems(4))
  have nbrs: "set (live_neighbors adj rem (ns ! i)) = set (remaining_neighbors ns el W i)"
    if "i \<in> set ?idx" for i
  proof -
    have i: "i < length ns" "ns ! i \<in> set rem" using that by (auto simp: Suc.prems(5))
    show ?thesis
      using live_neighbors_set [OF free i(2)] remaining_set(1) [OF ok i(1), of el]
      by (simp add: R fun_cong [OF Suc.prems(4)])
  qed
  have deg: "length (live_neighbors adj rem (ns ! i)) = live_degree ns el W i" if "i \<in> set ?idx" for i
    using nbrs [OF that] live_neighbors_distinct [OF Suc.prems(3)] remaining_set(2) [OF ok, of i el] that
    by (metis (no_types, lifting) atLeast_upt distinct_card filter_is_subset lessThan_iff subsetD)
  let ?v = "pick_least ns el W"
  have "?R \<noteq> {}" using Suc.prems(6) R by auto
  note v = pick_least_live [OF this, of W]
  have min: "min_by_key (\<lambda>u. length (live_neighbors adj rem u)) rem = Some (ns ! ?v)"
  proof -
    have "?idx \<noteq> []" using Suc.prems(5,6) by auto
    then obtain y where y: "min_by_key (live_degree ns el W) ?idx = Some y" by fastforce
    have "min_by_key (\<lambda>u. length (live_neighbors adj rem u)) rem =
        map_option ((!) ns) (min_by_key (live_degree ns el W) ?idx)"
      unfolding Suc.prems(5) [THEN arg_cong [of _ _ "min_by_key _"]] min_by_key_map
      by (rule arg_cong [OF min_by_key_cong [OF deg]])
    then show ?thesis by (simp add: y pick_least_def pick_loop_first)
  qed
  have vi: "?v \<in> set ?idx" using v by simp
  let ?ns = "live_neighbors adj rem (ns ! ?v)" and ?ms = "remaining_neighbors ns el W ?v"
  let ?adj = "fill_loop join_neighbors ?ns adj" and ?W = "fill_loop (add_fill_edge ns) ?ms W"
  have "set ?ms \<subseteq> set ns" unfolding remaining_set(1) [OF ok v(1)] using left_sub by blast
  then have W: "work_ok ns ?W" "adj_fun ns ?W = fill (set ?ms) (adj_fun ns W)"
    using wg.fill_loop_nbrs [OF ok remaining_set(2) [OF ok v(1)]] by auto
  have A: "mi_ok ?adj" "adj_of ?adj = fill (set ?ns) (adj_of adj)"
    using sk.fill_loop_nbrs [OF Suc.prems(3) live_neighbors_distinct [OF Suc.prems(3)]] by simp_all
  have same: "adj_of ?adj = adj_fun ns ?W" unfolding A(2) W(2) nbrs [OF vi] Suc.prems(4) by (rule refl)
  have rem: "bset_remove (ns ! ?v) rem = map ((!) ns) (filter (\<lambda>i. \<not> el[?v := True] ! i) [0..<length ns])"
  proof -
    have "filter (\<lambda>i. \<not> el[?v := True] ! i) [0..<length ns] = filter (\<lambda>i. ns ! i \<noteq> ns ! ?v) ?idx"
      using d v Suc.prems(2) by (auto simp: nth_list_update nth_eq_iff_index_eq intro!: filter_cong)
    then show ?thesis by (simp add: bset_remove_def Suc.prems(5) filter_map comp_def)
  qed
  have "distinct rem" using d by (auto simp: Suc.prems(5) distinct_map inj_on_def nth_eq_iff_index_eq)
  then have "length (bset_remove (ns ! ?v) rem) = k"
    using Suc.prems(6) min_by_key_in [OF min] distinct_bset_remove
    by (metis card_Diff_singleton diff_Suc_1 distinct_card set_bset_remove)
  note IH = Suc.IH [OF W(1) _ A(1) same rem this]
  show ?case
    by (subst eliminate.simps) (simp add: min Let_def larger_of deg [OF vi] IH Suc.prems(2))
qed

lemma loaded_bound:
  assumes "load_type_graph g dt_new = Some s" "dt_graph_ok s" "dt_nodes s = [0..<length (skeleton_nodes g)]"
    and "dt_near s = adj_of (sk_adj (skeleton_of g))"
  shows "dt_bound (full_recompute s) = compute_treewidth g"
proof -
  let ?n = "length (skeleton_nodes g)" and ?rem = "fold bset_insert (sk_nodes (skeleton_of g)) []"
  have "bset_ok ?rem" by (simp add: fold_bset_insert)
  then have rem: "?rem = [0..<?n]"
    by (intro sorted_distinct_set_unique)
      (simp_all add: fold_bset_insert skeleton_facts(2) bset_ok_distinct bset_ok_def strict_sorted_imp_sorted)
  have idx: "filter (\<lambda>i. \<not> replicate ?n False ! i) [0..<?n] = [0..<?n]" by (simp add: filter_id_conv)
  have "eliminate (sk_adj (skeleton_of g)) ?rem 0 =
      fold max (map (\<lambda>p. length (snd p)) (run_elimination (dt_nodes s) ?n (dt_adj s) (replicate ?n False))) 0"
    by (rule same_elimination [OF assms(2)])
      (simp_all add: assms(3) assms(4) [unfolded assms(3), symmetric] skeleton_facts(1) rem idx map_nth [of "[0..<?n]", simplified])
  then show ?thesis by (simp add: compute_treewidth_def full_recompute_def widest_def Let_def assms(3))
qed

section \<open>Property\<close>

text \<open>The graph with its nodes numbered in the order of the skeleton.\<close>

definition skeleton_graph :: "type_graph \<Rightarrow> plain_graph" where
  "skeleton_graph g =
     (number_of g ` set (skeleton_nodes g),
      map_prod (number_of g) (number_of g) ` (skeleton_edges_of g \<union> (skeleton_edges_of g)\<inverse>))"

lemma from_type_graph_ok:
  assumes "length (skeleton_nodes g) \<le> MAX_DEGREE + 1"
  shows "\<exists>s. from_type_graph g = Some s \<and> tracker_ok s \<and> dt_bound s = compute_treewidth g \<and>
    tracked_graph s = skeleton_graph g"
proof -
  obtain s where s: "load_type_graph g dt_new = Some s" "dt_graph_ok s" "dt_nodes s = [0..<length (skeleton_nodes g)]"
      "dt_near s = adj_of (sk_adj (skeleton_of g))"
    using load_type_graph_ok [OF assms] by blast
  have nodes: "set (dt_nodes s) = set (sk_nodes (skeleton_of g))" by (simp add: s(3) skeleton_facts(2))
  have "{(x, y). y \<in> dt_near s x} = adj_edges (set (dt_nodes s)) (dt_near s)"
    using adj_fun_sub [OF s(2)] near_symmetric [OF s(2)] by (fastforce simp: adj_edges_def)
  also have "\<dots> = snd (skeleton_graph g)"
    unfolding s(4) nodes skeleton_facts(6) by (simp add: skeleton_graph_def)
  finally have E: "{(x, y). y \<in> dt_near s x} = snd (skeleton_graph g)" .
  have V: "set (dt_nodes s) = fst (skeleton_graph g)"
    using skeleton_facts(3) [where g = g] by (simp add: nodes skeleton_graph_def bij_betw_def)
  have "tracked_graph (full_recompute s) = (set (dt_nodes s), {(x, y). y \<in> dt_near s x})"
    by (simp add: tracked_graph_def)
  also have "\<dots> = skeleton_graph g" using E V by simp
  finally show ?thesis
    using full_recompute_ok [OF s(2)] loaded_bound [OF s] by (simp add: from_type_graph_def s(1))
qed

text \<open>
  C31: a tracker that is built from a type graph with at most 65 nodes starts with the bound of
  \<open>compute_treewidth\<close>, so the elimination on arrays and the one on ordered sets agree, and after every
  admissible sequence of notifications it tracks the edited skeleton and bounds its treewidth.
\<close>

theorem from_type_graph_sound:
  assumes "length (skeleton_nodes g) \<le> 65" "admissible_all ns (skeleton_graph g)"
    and "fold edit_graph ns (skeleton_graph g) = (V, E)"
  shows "\<exists>s s'. from_type_graph g = Some s \<and> dt_bound s = compute_treewidth g \<and> notify_all ns s = Some s' \<and>
    tracked_graph s' = (V, E) \<and> treewidth_le V E (dt_bound s')"
proof -
  have "length (skeleton_nodes g) \<le> MAX_DEGREE + 1" using assms(1) by (simp add: MAX_DEGREE_def)
  from from_type_graph_ok [OF this] obtain s where s: "from_type_graph g = Some s" "tracker_ok s"
      "dt_bound s = compute_treewidth g" "tracked_graph s = skeleton_graph g"
    by blast
  then obtain s' where s': "notify_all ns s = Some s'" "tracker_ok s'" "tracked_graph s' = (V, E)"
    using notify_all_ok [of s ns] assms(2,3) by auto
  then show ?thesis using s tracked_bound [OF s'(2,3)] by blast
qed

lemma root_graph_skeleton: "skeleton_nodes root_graph = [NInode 1, NDirectory 1]"
  by (simp add: skeleton_nodes_def ar_keys_def root_graph_def new_boxed_def empty_graph_def Let_def id_to_arena_def
      ar_insert_at_def ar_new_def NODE_CAPACITY_def upt_rec)

theorem from_type_graph_sound_witness:
  "\<exists>s s'. from_type_graph root_graph = Some s \<and> dt_bound s = compute_treewidth root_graph \<and>
    notify_all [AddNode 7] s = Some s' \<and>
    tracked_graph s' = edit_graph (AddNode 7) (skeleton_graph root_graph) \<and>
    treewidth_le (fst (edit_graph (AddNode 7) (skeleton_graph root_graph)))
      (snd (edit_graph (AddNode 7) (skeleton_graph root_graph))) (dt_bound s')"
proof -
  obtain V E where VE: "skeleton_graph root_graph = (V, E)" by (cases "skeleton_graph root_graph")
  have len: "length (skeleton_nodes root_graph) \<le> 64" by (simp add: root_graph_skeleton)
  have "V = number_of root_graph ` set (skeleton_nodes root_graph)" using VE by (simp add: skeleton_graph_def)
  then have "card V \<le> length (skeleton_nodes root_graph)"
    by (metis card_image_le card_length finite_set order_trans)
  then have "card (insert 7 V) \<le> 65" using len card_insert_le_m1 [of 65 V 7] by simp
  then show ?thesis
    using from_type_graph_sound [of root_graph "[AddNode 7]" "insert 7 V" E] len
    by (simp add: VE MAX_DEGREE_def)
qed

end
