(* ===== verification/Sotfs_Text.thy ===== *)
theory Sotfs_Text
  imports Sotfs_Prelude
begin

text \<open>
  Text as the exporters write it, decimal numbers and JSON strings, and a reader of JSON to say what the
  exported text means.  The reader covers the part of RFC 8259 that has objects, arrays, strings and
  natural numbers; it refuses control characters inside strings.
\<close>

section \<open>Numbers and strings\<close>

abbreviation QUOTE :: char where "QUOTE \<equiv> CHR 0x22"
abbreviation BACKSLASH :: char where "BACKSLASH \<equiv> CHR 0x5C"
abbreviation NEWLINE :: char where "NEWLINE \<equiv> CHR 0x0A"

definition digit :: "nat \<Rightarrow> char" where
  "digit d = char_of (48 + d)"

fun decimal :: "nat \<Rightarrow> string" where
  "decimal n = (if n < 10 then [digit n] else decimal (n div 10) @ [digit (n mod 10)])"

declare decimal.simps [simp del]

abbreviation word_text :: "'w::len word \<Rightarrow> string" where
  "word_text w \<equiv> decimal (unat w)"

definition hex_digit :: "nat \<Rightarrow> char" where
  "hex_digit d = (if d < 10 then char_of (48 + d) else char_of (87 + d))"

text \<open>\<open>{:04x}\<close> of a number below 65536.\<close>

definition hex4 :: "nat \<Rightarrow> string" where
  "hex4 n = [hex_digit (n div 4096 mod 16), hex_digit (n div 256 mod 16), hex_digit (n div 16 mod 16),
     hex_digit (n mod 16)]"

text \<open>A text between quotes, as the format strings have it, without escapes.\<close>

definition quoted :: "string \<Rightarrow> string" where
  "quoted s = QUOTE # s @ [QUOTE]"

definition json_char :: "char \<Rightarrow> string" where
  "json_char c =
     (if c = BACKSLASH then [BACKSLASH, BACKSLASH]
      else if c = QUOTE then [BACKSLASH, QUOTE]
      else if c = CHR 0x0A then [BACKSLASH, CHR ''n'']
      else if c = CHR 0x0D then [BACKSLASH, CHR ''r'']
      else if c = CHR 0x09 then [BACKSLASH, CHR ''t'']
      else if c = CHR 0x08 then [BACKSLASH, CHR ''b'']
      else if c = CHR 0x0C then [BACKSLASH, CHR ''f'']
      else if (of_char c :: nat) < 32 then [BACKSLASH, CHR ''u''] @ hex4 (of_char c)
      else [c])"

definition json_str :: "string \<Rightarrow> string" where
  "json_str s = QUOTE # concat (map json_char s) @ [QUOTE]"

fun join :: "'a list \<Rightarrow> 'a list list \<Rightarrow> 'a list" where
  "join sep [] = []"
| "join sep [s] = s"
| "join sep (s # ss) = s @ sep @ join sep ss"

section \<open>Reading JSON\<close>

datatype json = JNum nat | JStr string | JArr "json list" | JObj "(string \<times> json) list"

datatype token = LBrace | RBrace | LBracket | RBracket | Colon | Comma | TStr string | TNum nat

definition digit_value :: "char \<Rightarrow> nat option" where
  "digit_value c = (let n = of_char c :: nat in if 48 \<le> n \<and> n \<le> 57 then Some (n - 48) else None)"

definition hex_value :: "char \<Rightarrow> nat option" where
  "hex_value c =
     (let n = of_char c :: nat
      in if 48 \<le> n \<and> n \<le> 57 then Some (n - 48) else if 97 \<le> n \<and> n \<le> 102 then Some (n - 87)
         else if 65 \<le> n \<and> n \<le> 70 then Some (n - 55) else None)"

definition escape_value :: "char \<Rightarrow> char option" where
  "escape_value c =
     (if c \<in> {QUOTE, BACKSLASH, CHR ''/''} then Some c
      else if c = CHR ''b'' then Some (CHR 0x08) else if c = CHR ''f'' then Some (CHR 0x0C)
      else if c = CHR ''n'' then Some (CHR 0x0A) else if c = CHR ''r'' then Some (CHR 0x0D)
      else if c = CHR ''t'' then Some (CHR 0x09) else None)"

definition unicode_value :: "char \<Rightarrow> char \<Rightarrow> char \<Rightarrow> char \<Rightarrow> char option" where
  "unicode_value a b c d =
     (case (hex_value a, hex_value b, hex_value c, hex_value d) of
        (Some w, Some x, Some y, Some z) \<Rightarrow>
          let n = ((w * 16 + x) * 16 + y) * 16 + z in if n < 256 then Some (char_of n) else None
      | _ \<Rightarrow> None)"

text \<open>The characters up to the closing quote, and the text behind it.\<close>

definition push_char :: "char option \<Rightarrow> (string \<times> string) option \<Rightarrow> (string \<times> string) option" where
  "push_char c r = Option.bind c (\<lambda>c. map_option (\<lambda>(s, rest). (c # s, rest)) r)"

fun read_string :: "string \<Rightarrow> (string \<times> string) option" where
  "read_string [] = None"
| "read_string (c # cs) =
     (if c = QUOTE then Some ([], cs)
      else if c \<noteq> BACKSLASH then
        (if (of_char c :: nat) < 32 then None else push_char (Some c) (read_string cs))
      else (case cs of
              [] \<Rightarrow> None
            | e # ds \<Rightarrow>
                if e \<noteq> CHR ''u'' then push_char (escape_value e) (read_string ds)
                else (case ds of
                        h1 # h2 # h3 # h4 # fs \<Rightarrow> push_char (unicode_value h1 h2 h3 h4) (read_string fs)
                      | _ \<Rightarrow> None)))"

fun read_digits :: "nat \<Rightarrow> string \<Rightarrow> nat \<times> string" where
  "read_digits n [] = (n, [])"
| "read_digits n (c # cs) = (case digit_value c of Some d \<Rightarrow> read_digits (10 * n + d) cs | None \<Rightarrow> (n, c # cs))"

definition punctuation :: "char \<Rightarrow> token option" where
  "punctuation c =
     (if c = CHR 0x7B then Some LBrace else if c = CHR 0x7D then Some RBrace
      else if c = CHR 0x5B then Some LBracket else if c = CHR 0x5D then Some RBracket
      else if c = CHR 0x3A then Some Colon else if c = CHR 0x2C then Some Comma else None)"

definition blank :: "char \<Rightarrow> bool" where
  "blank c \<longleftrightarrow> c \<in> {CHR 0x20, CHR 0x0A, CHR 0x0D, CHR 0x09}"

lemma push_char_Some: "push_char c r = Some (s, rest) \<Longrightarrow> \<exists>s'. r = Some (s', rest)"
  by (auto simp: push_char_def bind_eq_Some_conv)

lemma read_string_shorter: "read_string cs = Some (s, rest) \<Longrightarrow> length rest < length cs"
  by (induction cs arbitrary: s rest rule: read_string.induct)
    (fastforce split: if_splits list.splits dest!: push_char_Some)+

lemma read_digits_shorter: "read_digits n cs = (m, rest) \<Longrightarrow> length rest \<le> length cs"
  by (induction n cs rule: read_digits.induct) (auto split: option.splits)

function tokenize :: "string \<Rightarrow> token list option" where
  "tokenize [] = Some []"
| "tokenize (c # cs) =
     (if blank c then tokenize cs
      else (case punctuation c of
              Some t \<Rightarrow> map_option ((#) t) (tokenize cs)
            | None \<Rightarrow>
                if c = QUOTE
                then (case read_string cs of
                        Some (s, rest) \<Rightarrow> map_option ((#) (TStr s)) (tokenize rest)
                      | None \<Rightarrow> None)
                else (case digit_value c of
                        Some d \<Rightarrow> (case read_digits d cs of (n, rest) \<Rightarrow> map_option ((#) (TNum n)) (tokenize rest))
                      | None \<Rightarrow> None)))"
  by pat_completeness auto
termination
  by (relation "measure length") (auto simp: less_Suc_eq_le dest: read_string_shorter read_digits_shorter [OF sym])

declare tokenize.simps [simp del]

text \<open>Recursive descent over the tokens; the fuel is one more than their number.\<close>

fun parse_value :: "nat \<Rightarrow> token list \<Rightarrow> (json \<times> token list) option"
  and parse_items :: "nat \<Rightarrow> token list \<Rightarrow> (json list \<times> token list) option"
  and parse_members :: "nat \<Rightarrow> token list \<Rightarrow> ((string \<times> json) list \<times> token list) option" where
  "parse_value 0 ts = None"
| "parse_value (Suc n) ts =
     (case ts of
        TNum k # ts \<Rightarrow> Some (JNum k, ts)
      | TStr s # ts \<Rightarrow> Some (JStr s, ts)
      | LBracket # RBracket # ts \<Rightarrow> Some (JArr [], ts)
      | LBracket # ts \<Rightarrow> map_option (\<lambda>(vs, ts). (JArr vs, ts)) (parse_items n ts)
      | LBrace # RBrace # ts \<Rightarrow> Some (JObj [], ts)
      | LBrace # ts \<Rightarrow> map_option (\<lambda>(ms, ts). (JObj ms, ts)) (parse_members n ts)
      | _ \<Rightarrow> None)"
| "parse_items 0 ts = None"
| "parse_items (Suc n) ts =
     (case parse_value n ts of
        Some (v, Comma # ts) \<Rightarrow> map_option (\<lambda>(vs, ts). (v # vs, ts)) (parse_items n ts)
      | Some (v, RBracket # ts) \<Rightarrow> Some ([v], ts)
      | _ \<Rightarrow> None)"
| "parse_members 0 ts = None"
| "parse_members (Suc n) ts =
     (case ts of
        TStr k # Colon # ts \<Rightarrow>
          (case parse_value n ts of
             Some (v, Comma # ts) \<Rightarrow> map_option (\<lambda>(ms, ts). ((k, v) # ms, ts)) (parse_members n ts)
           | Some (v, RBrace # ts) \<Rightarrow> Some ([(k, v)], ts)
           | _ \<Rightarrow> None)
      | _ \<Rightarrow> None)"

definition parse_json :: "string \<Rightarrow> json option" where
  "parse_json s =
     (case tokenize s of
        None \<Rightarrow> None
      | Some ts \<Rightarrow> (case parse_value (Suc (length ts)) ts of Some (v, []) \<Rightarrow> Some v | _ \<Rightarrow> None))"

section \<open>Printed text reads back\<close>

lemma of_char_digit: "d < 10 \<Longrightarrow> (of_char (digit d) :: nat) = 48 + d"
  by (simp add: digit_def)

lemma digit_value_digit [simp]: "d < 10 \<Longrightarrow> digit_value (digit d) = Some d"
  by (simp add: digit_value_def of_char_digit)

abbreviation no_digit :: "string \<Rightarrow> bool" where
  "no_digit s \<equiv> (case s of [] \<Rightarrow> True | c # _ \<Rightarrow> digit_value c = None)"

lemma read_digits_stop [simp]: "no_digit rest \<Longrightarrow> read_digits n rest = (n, rest)"
  by (cases rest) simp_all

lemma read_digits_decimal: "no_digit rest \<Longrightarrow> read_digits 0 (decimal n @ rest) = (n, rest)"
proof (induction n arbitrary: rest rule: decimal.induct)
  case (1 n)
  have "read_digits 0 (decimal m @ digit d # rest) = read_digits (10 * m + d) rest"
    if "m = n div 10" "d < 10" "\<not> n < 10" for m d
  proof -
    have "read_digits k (decimal m @ s) = read_digits (k * 10 ^ length (decimal m) + m) s" for k m s
    proof (induction m arbitrary: s rule: decimal.induct)
      case (1 m)
      show ?case
        by (cases "m < 10") (simp_all add: decimal.simps [of m] 1 algebra_simps)
    qed
    from this [of 0] show ?thesis using that by simp
  qed
  then show ?case using 1 by (cases "n < 10") (simp_all add: decimal.simps [of n])
qed

text \<open>\<open>reads s ts\<close>: the text \<open>s\<close> is the tokens \<open>ts\<close>, whatever follows, as long as it is not a digit.\<close>

definition reads :: "string \<Rightarrow> token list \<Rightarrow> bool" where
  "reads s ts \<longleftrightarrow> (\<forall>rest. no_digit rest \<longrightarrow> tokenize (s @ rest) = map_option (append ts) (tokenize rest))"

lemma append_fun: "(@) [] = (\<lambda>x. x)" "(@) (t # ts) = (\<lambda>x. t # ts @ x)" "(@) (ts @ ts') = (\<lambda>x. ts @ ts' @ x)"
  by (simp_all add: fun_eq_iff)

lemma reads_append: "reads s ts \<Longrightarrow> reads s' ts' \<Longrightarrow> no_digit s' \<Longrightarrow> s' \<noteq> [] \<Longrightarrow> reads (s @ s') (ts @ ts')"
  by (cases s') (simp_all add: reads_def option.map_comp comp_def append_fun(3))

lemma reads_Nil: "reads [] []"
  by (simp add: reads_def option.map_ident append_fun(1))

lemma reads_blank: "blank c \<Longrightarrow> reads s ts \<Longrightarrow> reads (c # s) ts"
  by (simp add: reads_def tokenize.simps)

lemma reads_punctuation: "punctuation c = Some t \<Longrightarrow> reads s ts \<Longrightarrow> reads (c # s) (t # ts)"
  by (auto simp: reads_def tokenize.simps blank_def punctuation_def option.map_comp comp_def append_fun(2)
      split: if_splits)

lemma tokenize_string:
  "read_string s = Some (x, rest) \<Longrightarrow> tokenize (QUOTE # s) = map_option ((#) (TStr x)) (tokenize rest)"
  by (simp add: tokenize.simps blank_def punctuation_def)

lemma reads_decimal: "reads (decimal n) [TNum n]"
  unfolding reads_def
proof (intro allI impI)
  fix rest assume rest: "no_digit rest"
  have first: "\<exists>d s. d < 10 \<and> decimal n = digit d # s" for n
  proof (induction n rule: decimal.induct)
    case (1 n)
    then show ?case by (cases "n < 10") (auto simp: decimal.simps [of n])
  qed
  then obtain d s where s: "d < 10" "decimal n = digit d # s" by blast
  have "read_digits d (s @ rest) = (n, rest)" using read_digits_decimal [OF rest, of n] s by simp
  moreover have "\<not> blank (digit d)" "punctuation (digit d) = None" "digit d \<noteq> QUOTE"
    using of_char_digit [OF s(1)] s(1) by (auto simp: blank_def punctuation_def)
  ultimately show "tokenize (decimal n @ rest) = map_option (append [TNum n]) (tokenize rest)"
    using s by (simp add: tokenize.simps append_eq_Cons_conv append_fun)
qed

text \<open>Escaping is undone by the reader.\<close>

lemma hex_value_digit [simp]: "d < 16 \<Longrightarrow> hex_value (hex_digit d) = Some d"
  by (auto simp: hex_value_def hex_digit_def)

lemma hex4_control:
  assumes "n < 32"
  shows "hex4 n = [hex_digit 0, hex_digit 0, hex_digit (n div 16), hex_digit (n mod 16)]"
proof -
  have "n div 4096 = 0" "n div 256 = 0" "n div 16 < 16" using assms by simp_all
  then show ?thesis by (simp add: hex4_def)
qed

lemma unicode_control:
  "n < 32 \<Longrightarrow> unicode_value (hex_digit 0) (hex_digit 0) (hex_digit (n div 16)) (hex_digit (n mod 16)) = Some (char_of n)"
  by (simp add: unicode_value_def Let_def)

lemma json_char_cases:
  obtains "c = QUOTE" | "c = BACKSLASH" | "c = CHR 0x0A" | "c = CHR 0x0D" | "c = CHR 0x09" | "c = CHR 0x08" | "c = CHR 0x0C"
    | (control) "json_char c = [BACKSLASH, CHR ''u''] @ hex4 (of_char c)" "(of_char c :: nat) < 32"
    | (other) "json_char c = [c]" "c \<noteq> QUOTE" "c \<noteq> BACKSLASH" "\<not> (of_char c :: nat) < 32"
  unfolding json_char_def by presburger

lemma read_json_char:
  "read_string (json_char c @ s) = push_char (Some c) (read_string s)"
proof (cases c rule: json_char_cases)
  case control
  then show ?thesis using unicode_control [OF control(2)] by (simp add: hex4_control)
next
  case other
  then show ?thesis by simp
qed (simp_all add: json_char_def escape_value_def)

lemma read_json_str: "read_string (concat (map json_char s) @ QUOTE # rest) = Some (s, rest)"
  by (induction s) (simp_all add: read_json_char push_char_def)

definition plain :: "string \<Rightarrow> bool" where
  "plain s \<longleftrightarrow> (\<forall>c \<in> set s. c \<noteq> QUOTE \<and> c \<noteq> BACKSLASH \<and> 32 \<le> (of_char c :: nat))"

lemma read_plain: "plain s \<Longrightarrow> read_string (s @ QUOTE # rest) = Some (s, rest)"
  by (induction s) (simp_all add: plain_def push_char_def)

lemma reads_string: "read_string (s @ QUOTE # []) = Some (x, []) \<Longrightarrow>
    (\<And>rest. read_string (s @ QUOTE # rest) = Some (x, rest)) \<Longrightarrow> reads (QUOTE # s @ [QUOTE]) [TStr x]"
  by (simp add: reads_def tokenize_string append_fun)

lemma reads_json_str: "reads (json_str s) [TStr s]"
  by (simp add: reads_def json_str_def tokenize_string read_json_str append_fun)

lemma reads_quoted: "plain s \<Longrightarrow> reads (quoted s) [TStr s]"
  by (simp add: reads_def quoted_def tokenize_string read_plain append_fun)

lemma plain_decimal [simp]: "plain (decimal n)"
proof (induction n rule: decimal.induct)
  case (1 n)
  have "plain [digit d]" if "d < 10" for d
    using of_char_digit [OF that] that by (auto simp: plain_def)
  then show ?case using 1 by (cases "n < 10") (auto simp: decimal.simps [of n] plain_def)
qed

section \<open>Printed values read back\<close>

fun toks :: "json \<Rightarrow> token list" where
  "toks (JNum n) = [TNum n]"
| "toks (JStr s) = [TStr s]"
| "toks (JArr vs) = LBracket # join [Comma] (map toks vs) @ [RBracket]"
| "toks (JObj ms) = LBrace # join [Comma] (map (\<lambda>(k, v). TStr k # Colon # toks v) ms) @ [RBrace]"

lemma toks_start: "\<exists>t ts. toks v = t # ts \<and> t \<noteq> RBracket"
  by (cases v) simp_all

lemma parse_items_toks:
  assumes "\<And>v n rest. v \<in> set vs \<Longrightarrow> length (toks v) \<le> n \<Longrightarrow> parse_value n (toks v @ rest) = Some (v, rest)"
    and "vs \<noteq> []" "length (join [Comma] (map toks vs)) < n"
  shows "parse_items n (join [Comma] (map toks vs) @ RBracket # rest) = Some (vs, rest)"
  using assms
proof (induction vs arbitrary: n)
  case (Cons v vs)
  obtain m where n: "n = Suc m" using Cons.prems(3) by (cases n) auto
  show ?case
  proof (cases vs)
    case Nil
    then show ?thesis using Cons.prems by (simp add: n)
  next
    case (Cons w ws)
    then show ?thesis using Cons.IH [of m] Cons.prems by (simp add: n)
  qed
qed simp

lemma parse_members_toks:
  assumes "\<And>m n rest. m \<in> set ms \<Longrightarrow> length (toks (snd m)) \<le> n \<Longrightarrow>
      parse_value n (toks (snd m) @ rest) = Some (snd m, rest)"
    and "ms \<noteq> []" "length (join [Comma] (map (\<lambda>(k, v). TStr k # Colon # toks v) ms)) < n"
  shows "parse_members n (join [Comma] (map (\<lambda>(k, v). TStr k # Colon # toks v) ms) @ RBrace # rest) = Some (ms, rest)"
  using assms
proof (induction ms arbitrary: n)
  case (Cons kv ms)
  obtain m where n: "n = Suc m" using Cons.prems(3) by (cases n) auto
  obtain k v where kv: "kv = (k, v)" by (cases kv)
  show ?case
  proof (cases ms)
    case Nil
    then show ?thesis using Cons.prems by (simp add: n kv)
  next
    case (Cons w ws)
    have "parse_value m (toks v @ s) = Some (v, s)" for s
      using Cons.prems(1) [of kv m s] Cons.prems(3) by (simp add: kv n Cons case_prod_unfold)
    then show ?thesis using Cons.IH [of m] Cons.prems Cons by (simp add: n kv case_prod_unfold)
  qed
qed simp

lemma parse_array:
  "ts = t # ts' \<Longrightarrow> t \<noteq> RBracket \<Longrightarrow> parse_items n ts = Some (vs, rest) \<Longrightarrow>
     parse_value (Suc n) (LBracket # ts) = Some (JArr vs, rest)"
  by (cases t) simp_all

lemma parse_object:
  "ts = TStr k # ts' \<Longrightarrow> parse_members n ts = Some (ms, rest) \<Longrightarrow>
     parse_value (Suc n) (LBrace # ts) = Some (JObj ms, rest)"
  by simp

lemma parse_toks: "length (toks v) \<le> n \<Longrightarrow> parse_value n (toks v @ rest) = Some (v, rest)"
proof (induction v arbitrary: n rest rule: toks.induct)
  case (1 k)
  then show ?case by (cases n) simp_all
next
  case (2 s)
  then show ?case by (cases n) simp_all
next
  case (3 vs)
  let ?ts = "join [Comma] (map toks vs) @ RBracket # rest"
  obtain m where n: "n = Suc m" "length (join [Comma] (map toks vs)) < m" using 3(2) by (cases n) auto
  have "parse_value (Suc m) (LBracket # ?ts) = Some (JArr vs, rest)"
  proof (cases vs)
    case (Cons v ws)
    obtain t ts where t: "toks v = t # ts" "t \<noteq> RBracket" using toks_start by blast
    then have "\<exists>ts. ?ts = t # ts" using Cons by (cases ws) simp_all
    moreover have "parse_items m ?ts = Some (vs, rest)"
      by (rule parse_items_toks) (use 3(1) n(2) Cons in simp_all)
    ultimately show ?thesis using parse_array t(2) by blast
  qed simp
  then show ?case by (simp only: n(1) toks.simps append_Cons append_assoc append_Nil)
next
  case (4 ms)
  let ?kvs = "map (\<lambda>(k, v). TStr k # Colon # toks v) ms"
  let ?ts = "join [Comma] ?kvs @ RBrace # rest"
  obtain m where n: "n = Suc m" "length (join [Comma] ?kvs) < m" using 4(2) by (cases n) auto
  have "parse_value (Suc m) (LBrace # ?ts) = Some (JObj ms, rest)"
  proof (cases ms)
    case (Cons kv ws)
    then have "\<exists>k ts. ?ts = TStr k # ts" by (cases ws) (auto simp: case_prod_unfold)
    moreover have "parse_members m ?ts = Some (ms, rest)"
    proof (rule parse_members_toks)
      show "parse_value n' (toks (snd x) @ r) = Some (snd x, r)" if "x \<in> set ms" "length (toks (snd x)) \<le> n'" for x n' r
        by (rule 4(1) [OF that(1) prod.collapse that(2)])
    qed (use n(2) Cons in simp_all)
    ultimately show ?thesis using parse_object by blast
  qed simp
  then show ?case by (simp only: n(1) toks.simps append_Cons append_assoc append_Nil)
qed

lemma parse_json_reads:
  assumes "reads s (toks v)"
  shows "parse_json s = Some v"
proof -
  have "tokenize (s @ []) = map_option (append (toks v)) (tokenize [])"
    using assms unfolding reads_def by (rule allE [where x = "[]"]) simp
  then have "tokenize s = Some (toks v)" by (simp add: tokenize.simps)
  moreover have "parse_value (Suc (length (toks v))) (toks v) = Some (v, [])"
    using parse_toks [of v "Suc (length (toks v))" "[]"] by (simp only: append_Nil2)
  ultimately show ?thesis by (simp only: parse_json_def option.case prod.case list.case)
qed

end
