(* ===== verification/Sotfs_Export.thy ===== *)
theory Sotfs_Export
  imports Sotfs_Text Sotfs_Cycles
begin

text \<open>
  The exporters of \<open>sotfs-graph/src/export.rs\<close>: GraphViz, D3 JSON, the Graph Hunter event stream and the
  snapshot statistics.  A format string is the concatenation of its pieces; \<open>object\<close> is the piece
  \<open>{"key":text,...}\<close> that the JSON formats share.
\<close>

section \<open>JSON pieces\<close>

definition field :: "string \<times> string \<Rightarrow> string" where
  "field kt = quoted (fst kt) @ '':'' @ snd kt"

definition object :: "(string \<times> string) list \<Rightarrow> string" where
  "object kts = ''{'' @ join '','' (map field kts) @ ''}''"

definition names_array :: "string list \<Rightarrow> string" where
  "names_array names = ''['' @ join '','' (map quoted names) @ '']''"

text \<open>The two arrays of a document, one element a line.\<close>

definition separator :: string where
  "separator = '','' @ [NEWLINE] @ ''    ''"

definition lines_array :: "string list \<Rightarrow> string" where
  "lines_array xs = ''['' @ [NEWLINE] @ ''    '' @ join separator xs @ [NEWLINE] @ ''  ]''"

definition document :: "string \<times> string \<Rightarrow> string \<times> string \<Rightarrow> string" where
  "document a b =
     ''{'' @ [NEWLINE] @ ''  '' @ quoted (fst a) @ '': '' @ snd a @ '','' @ [NEWLINE] @
     ''  '' @ quoted (fst b) @ '': '' @ snd b @ [NEWLINE] @ ''}''"

section \<open>D3 export\<close>

definition vtype_name :: "vnode_type \<Rightarrow> string" where
  "vtype_name t =
     (case t of Regular \<Rightarrow> ''file'' | Directory \<Rightarrow> ''dir'' | Symlink \<Rightarrow> ''symlink''
      | CharDevice \<Rightarrow> ''chardev'' | BlockDevice \<Rightarrow> ''blockdev'')"

definition d3_inode :: "inode \<Rightarrow> string" where
  "d3_inode n = object
     [(''id'', quoted (''I'' @ decimal (inode_id n))), (''type'', quoted ''inode''),
      (''vtype'', quoted (vtype_name (vtype n))), (''size'', word_text (isize n)),
      (''link_count'', word_text (link_count n)), (''uid'', word_text (uid n)), (''gid'', word_text (gid n)),
      (''mtime'', word_text (mtime n))]"

definition d3_dir :: "directory \<Rightarrow> string" where
  "d3_dir d = object
     [(''id'', quoted (''D'' @ decimal (dir_id d))), (''type'', quoted ''directory''),
      (''inode_id'', decimal (dir_inode_id d))]"

definition d3_cap :: "capability \<Rightarrow> string" where
  "d3_cap c = object
     [(''id'', quoted (''C'' @ decimal (capability_id c))), (''type'', quoted ''capability''),
      (''rights'', word_text (cap_rights c)), (''epoch'', word_text (epoch c))]"

definition d3_block :: "block \<Rightarrow> string" where
  "d3_block b = object
     [(''id'', quoted (''B'' @ decimal (block_id b))), (''type'', quoted ''block''),
      (''sector_start'', word_text (sector_start b)), (''sector_count'', word_text (sector_count b)),
      (''refcount'', word_text (refcount b))]"

definition d3_version :: "version \<Rightarrow> string" where
  "d3_version v = object
     [(''id'', quoted (''V'' @ decimal (version_id v))), (''type'', quoted ''version''),
      (''timestamp'', word_text (version_timestamp v)), (''root_inode'', decimal (version_root_inode_id v))]"

text \<open>The ends of a link are node names: a letter for the kind, and the number.\<close>

definition d3_ends :: "edge_id \<Rightarrow> string \<Rightarrow> nat \<Rightarrow> string \<Rightarrow> nat \<Rightarrow> string \<Rightarrow> (string \<times> string) list" where
  "d3_ends i a src b tgt ty =
     [(''id'', decimal i), (''source'', quoted (a @ decimal src)), (''target'', quoted (b @ decimal tgt)),
      (''type'', quoted ty)]"

fun d3_link :: "edge \<Rightarrow> string" where
  "d3_link (Contains i src tgt name) =
     object (d3_ends i ''D'' src ''I'' tgt ''contains'' @ [(''name'', json_str name)])"
| "d3_link (Grants i src tgt r) =
     object (d3_ends i ''C'' src ''I'' tgt ''grants'' @ [(''rights'', word_text r)])"
| "d3_link (Delegates i src tgt) = object (d3_ends i ''C'' src ''C'' tgt ''delegates'')"
| "d3_link (DerivedFrom i src tgt) = object (d3_ends i ''V'' src ''V'' tgt ''derivesFrom'')"
| "d3_link (Supersedes i src tgt) = object (d3_ends i ''I'' src ''I'' tgt ''supersedes'')"
| "d3_link (PointsTo i src tgt offset) =
     object (d3_ends i ''I'' src ''B'' tgt ''pointsTo'' @ [(''offset'', word_text offset)])"
| "d3_link (HasXattr i src tgt) = object (d3_ends i ''I'' src ''XA'' tgt ''hasXattr'')"

definition d3_nodes :: "type_graph \<Rightarrow> string list" where
  "d3_nodes g =
     map d3_inode (ar_values (inodes g)) @ map d3_dir (ar_values (dirs g)) @ map d3_cap (ar_values (caps g)) @
     map d3_block (ar_values (blocks g)) @ map d3_version (ar_values (versions g))"

definition to_d3_json :: "type_graph \<Rightarrow> string" where
  "to_d3_json g =
     document (''nodes'', lines_array (d3_nodes g)) (''links'', lines_array (map d3_link (ar_values (edges g))))"

section \<open>Graph Hunter export\<close>

type_synonym event = "timestamp \<times> string"

definition hunter_inode :: "inode \<Rightarrow> event" where
  "hunter_inode n =
     (ctime n, object
        [(''t'', word_text (ctime n)), (''op'', quoted ''add_node''), (''id'', quoted (''I'' @ decimal (inode_id n))),
         (''type'', quoted ''inode''), (''vtype'', quoted (vtype_name (vtype n))), (''size'', word_text (isize n)),
         (''link_count'', word_text (link_count n)), (''perms'', word_text (permissions n)),
         (''uid'', word_text (uid n)), (''gid'', word_text (gid n))])"

definition hunter_dir :: "type_graph \<Rightarrow> directory \<Rightarrow> event" where
  "hunter_dir g d =
     (let ts = (case get_inode g (dir_inode_id d) of Some n \<Rightarrow> ctime n | None \<Rightarrow> 0)
      in (ts, object
            [(''t'', word_text ts), (''op'', quoted ''add_node''), (''id'', quoted (''D'' @ decimal (dir_id d))),
             (''type'', quoted ''directory''), (''inode_id'', decimal (dir_inode_id d))]))"

definition hunter_cap :: "capability \<Rightarrow> event" where
  "hunter_cap c =
     (epoch c, object
        [(''t'', word_text (epoch c)), (''op'', quoted ''add_node''), (''id'', quoted (''C'' @ decimal (capability_id c))),
         (''type'', quoted ''capability''), (''rights'', word_text (cap_rights c)), (''epoch'', word_text (epoch c))])"

definition hunter_block :: "block \<Rightarrow> event" where
  "hunter_block b =
     (0, object
        [(''t'', ''0''), (''op'', quoted ''add_node''), (''id'', quoted (''B'' @ decimal (block_id b))),
         (''type'', quoted ''block''), (''sectors'', word_text (sector_count b)), (''refcount'', word_text (refcount b))])"

definition hunter_version :: "version \<Rightarrow> event" where
  "hunter_version v =
     (version_timestamp v, object
        [(''t'', word_text (version_timestamp v)), (''op'', quoted ''add_node''),
         (''id'', quoted (''V'' @ decimal (version_id v))), (''type'', quoted ''version''),
         (''root'', decimal (version_root_inode_id v))])"

definition hunter_ends :: "string \<Rightarrow> edge_id \<Rightarrow> string \<Rightarrow> nat \<Rightarrow> string \<Rightarrow> nat \<Rightarrow> string \<Rightarrow> (string \<times> string) list" where
  "hunter_ends t i a src b tgt ty =
     [(''t'', t), (''op'', quoted ''add_edge''), (''id'', decimal i), (''src'', quoted (a @ decimal src)),
      (''tgt'', quoted (b @ decimal tgt)), (''type'', quoted ty)]"

fun hunter_edge :: "type_graph \<Rightarrow> edge \<Rightarrow> event" where
  "hunter_edge g (Contains i src tgt name) =
     (let ts = (case get_inode g tgt of Some n \<Rightarrow> ctime n | None \<Rightarrow> 0)
      in (ts, object (hunter_ends (word_text ts) i ''D'' src ''I'' tgt ''contains'' @ [(''name'', json_str name)])))"
| "hunter_edge g (Grants i src tgt r) =
     (let ts = (case get_cap g src of Some c \<Rightarrow> epoch c | None \<Rightarrow> 0)
      in (ts, object (hunter_ends (word_text ts) i ''C'' src ''I'' tgt ''grants'' @ [(''rights'', word_text r)])))"
| "hunter_edge g (Delegates i src tgt) = (0, object (hunter_ends ''0'' i ''C'' src ''C'' tgt ''delegates''))"
| "hunter_edge g (DerivedFrom i src tgt) =
     (let ts = (case find (\<lambda>v. version_id v = src) (ar_values (versions g)) of
                  Some v \<Rightarrow> version_timestamp v | None \<Rightarrow> 0)
      in (ts, object (hunter_ends (word_text ts) i ''V'' src ''V'' tgt ''derivesFrom'')))"
| "hunter_edge g (Supersedes i src tgt) = (0, object (hunter_ends ''0'' i ''I'' src ''I'' tgt ''supersedes''))"
| "hunter_edge g (PointsTo i src tgt offset) =
     (0, object (hunter_ends ''0'' i ''I'' src ''B'' tgt ''pointsTo'' @ [(''offset'', word_text offset)]))"
| "hunter_edge g (HasXattr i src tgt) = (0, object (hunter_ends ''0'' i ''I'' src ''XA'' tgt ''hasXattr''))"

text \<open>\<open>sort_by_key\<close> is stable.\<close>

definition hunter_events :: "type_graph \<Rightarrow> event list" where
  "hunter_events g =
     sort_key fst
       (map hunter_inode (ar_values (inodes g)) @ map (hunter_dir g) (ar_values (dirs g)) @
        map hunter_cap (ar_values (caps g)) @ map hunter_block (ar_values (blocks g)) @
        map hunter_version (ar_values (versions g)) @ map (hunter_edge g) (ar_values (edges g)))"

definition hunter_meta :: "type_graph \<Rightarrow> string" where
  "hunter_meta g = object
     [(''format'', quoted ''graph-hunter-temporal''), (''version'', ''1''),
      (''node_count'', decimal (ar_len (inodes g) + ar_len (dirs g) + ar_len (caps g) + ar_len (blocks g) + ar_len (versions g))),
      (''edge_count'', decimal (ar_len (edges g))),
      (''node_types'', names_array [''inode'', ''directory'', ''capability'', ''block'', ''version'']),
      (''edge_types'', names_array [''contains'', ''grants'', ''delegates'', ''derivesFrom'', ''supersedes'',
         ''pointsTo'', ''hasXattr''])]"

definition to_graph_hunter :: "type_graph \<Rightarrow> string" where
  "to_graph_hunter g = document (''meta'', hunter_meta g) (''events'', lines_array (map snd (hunter_events g)))"

section \<open>GraphViz export\<close>

record dot_style =
  show_sizes :: bool
  show_rights :: bool
  show_blocks :: bool
  show_xattrs :: bool

definition dot_style_default :: dot_style where
  "dot_style_default = \<lparr>show_sizes = True, show_rights = True, show_blocks = False, show_xattrs = True\<rparr>"

definition format_rights :: "rights \<Rightarrow> string" where
  "format_rights r =
     (let s = (if rights_contains r READ then ''r'' else '''') @ (if rights_contains r WRITE then ''w'' else '''') @
              (if rights_contains r EXECUTE then ''x'' else '''') @ (if rights_contains r GRANT then ''g'' else '''') @
              (if rights_contains r REVOKE then ''v'' else '''')
      in if s = '''' then ''none'' else s)"

text \<open>The two characters that GraphViz reads as a line break in a label.\<close>

abbreviation break :: string where "break \<equiv> [BACKSLASH, CHR ''n'']"

definition dot_color :: "vnode_type \<Rightarrow> string" where
  "dot_color t = (case t of Directory \<Rightarrow> ''gold'' | Symlink \<Rightarrow> ''plum'' | _ \<Rightarrow> ''lightblue'')"

definition dot_vtype :: "vnode_type \<Rightarrow> string" where
  "dot_vtype t =
     (case t of Regular \<Rightarrow> ''file'' | Directory \<Rightarrow> ''dir'' | Symlink \<Rightarrow> ''sym'' | CharDevice \<Rightarrow> ''chr'' | BlockDevice \<Rightarrow> ''blk'')"

definition dot_node :: "string \<Rightarrow> string \<Rightarrow> string \<Rightarrow> string \<Rightarrow> string" where
  "dot_node name label shape color =
     ''  '' @ name @ '' [label='' @ quoted label @ '', shape='' @ shape @ '', style=filled, fillcolor='' @ color @
     ''];'' @ [NEWLINE]"

definition dot_inode :: "type_graph \<Rightarrow> dot_style \<Rightarrow> inode \<Rightarrow> string" where
  "dot_inode g style n =
     (let label = ''I'' @ decimal (inode_id n) @ break @ dot_vtype (vtype n) @ break @ ''lc='' @ word_text (link_count n);
          label = (if show_sizes style \<and> vtype n = Regular then label @ break @ word_text (isize n) @ ''B'' else label);
          label = (if show_xattrs style
                   then (case bmap_get (inode_xattrs g) (inode_id n) of
                           Some xids \<Rightarrow> if xids \<noteq> [] then label @ break @ ''xa:'' @ decimal (length xids) else label
                         | None \<Rightarrow> label)
                   else label)
      in dot_node (''I'' @ decimal (inode_id n)) label ''box'' (dot_color (vtype n)))"

definition dot_dir :: "directory \<Rightarrow> string" where
  "dot_dir d = dot_node (''D'' @ decimal (dir_id d))
     (''D'' @ decimal (dir_id d) @ break @ ''ino='' @ decimal (dir_inode_id d)) ''folder'' ''lightyellow''"

definition dot_cap :: "capability \<Rightarrow> string" where
  "dot_cap c = dot_node (''C'' @ decimal (capability_id c))
     (''C'' @ decimal (capability_id c) @ break @ format_rights (cap_rights c)) ''diamond'' ''lightgreen''"

definition dot_block :: "dot_style \<Rightarrow> block \<Rightarrow> string" where
  "dot_block style b =
     (let label = ''B'' @ decimal (block_id b) @ break @ ''rc='' @ word_text (refcount b);
          label = (if show_blocks style
                   then label @ break @ ''sec '' @ word_text (sector_start b) @ ''+'' @ word_text (sector_count b)
                   else label)
      in dot_node (''B'' @ decimal (block_id b)) label ''cylinder'' ''lightcoral'')"

definition dot_version :: "version \<Rightarrow> string" where
  "dot_version v = dot_node (''V'' @ decimal (version_id v))
     (''V'' @ decimal (version_id v) @ break @ ''t='' @ word_text (version_timestamp v)) ''oval'' ''lavender''"

text \<open>A quotation mark gets a backslash in front.\<close>

definition dot_escaped :: "string \<Rightarrow> string" where
  "dot_escaped name = concat (map (\<lambda>c. if c = QUOTE then [BACKSLASH, QUOTE] else [c]) name)"

definition dot_arrow :: "string \<Rightarrow> nat \<Rightarrow> string \<Rightarrow> nat \<Rightarrow> string \<Rightarrow> string" where
  "dot_arrow a src b tgt attrs =
     ''  '' @ a @ decimal src @ '' -> '' @ b @ decimal tgt @ '' ['' @ attrs @ ''];'' @ [NEWLINE]"

fun dot_edge :: "dot_style \<Rightarrow> edge \<Rightarrow> string" where
  "dot_edge style (Contains _ src tgt name) =
     dot_arrow ''D'' src ''I'' tgt (''label='' @ quoted (dot_escaped name) @ '', color=black'')"
| "dot_edge style (Grants _ src tgt r) =
     dot_arrow ''C'' src ''I'' tgt
       (''label='' @ quoted (if show_rights style then format_rights r else ''grants'') @ '', style=dashed, color=green4'')"
| "dot_edge style (Delegates _ src tgt) =
     dot_arrow ''C'' src ''C'' tgt (''label='' @ quoted ''delegates'' @ '', style=dotted, color=purple'')"
| "dot_edge style (DerivedFrom _ src tgt) =
     dot_arrow ''V'' src ''V'' tgt (''label='' @ quoted ''derives'' @ '', style=dashed, color=blue'')"
| "dot_edge style (Supersedes _ src tgt) =
     dot_arrow ''I'' src ''I'' tgt (''label='' @ quoted ''supersedes'' @ '', style=bold, color=red'')"
| "dot_edge style (PointsTo _ src tgt offset) =
     dot_arrow ''I'' src ''B'' tgt (''label='' @ quoted (''@'' @ word_text offset) @ '', color=gray50'')"
| "dot_edge style (HasXattr _ src tgt) = dot_arrow ''I'' src ''XA'' tgt ''style=dotted, color=orange''"

definition dot_head :: string where
  "dot_head =
     ''digraph sotFS {'' @ [NEWLINE] @ ''  rankdir=TB;'' @ [NEWLINE] @
     ''  node [fontname='' @ quoted ''monospace'' @ '', fontsize=10];'' @ [NEWLINE] @
     ''  edge [fontname='' @ quoted ''monospace'' @ '', fontsize=8];'' @ [NEWLINE, NEWLINE]"

definition to_dot :: "type_graph \<Rightarrow> dot_style \<Rightarrow> string" where
  "to_dot g style =
     dot_head @ concat (map (dot_inode g style) (ar_values (inodes g))) @ concat (map dot_dir (ar_values (dirs g))) @
     concat (map dot_cap (ar_values (caps g))) @ concat (map (dot_block style) (ar_values (blocks g))) @
     concat (map dot_version (ar_values (versions g))) @ [NEWLINE] @
     concat (map (dot_edge style) (ar_values (edges g))) @ ''}'' @ [NEWLINE]"

section \<open>Statistics\<close>

text \<open>
  The queue is popped at the end where it is pushed, so it is a stack.  The loop ends when no new
  directory is found; not returning would be \<open>None\<close>.
\<close>

definition visit_child :: "type_graph \<Rightarrow> nat \<Rightarrow> edge_id \<Rightarrow> (dir_id \<times> nat) list \<times> dir_id bset \<Rightarrow>
    (dir_id \<times> nat) list \<times> dir_id bset" where
  "visit_child g depth eid st =
     (case child_dir_of g eid of
        None \<Rightarrow> st
      | Some c \<Rightarrow> (case st of (stack, visited) \<Rightarrow>
          if c \<in> set visited then (stack, visited) else ((c, depth + 1) # stack, bset_insert c visited)))"

partial_function (option) depth_loop ::
    "type_graph \<Rightarrow> (dir_id \<times> nat) list \<Rightarrow> dir_id bset \<Rightarrow> nat \<Rightarrow> nat option" where
  "depth_loop g queue visited max_depth =
     (case queue of
        [] \<Rightarrow> Some max_depth
      | (dir, depth) # stack \<Rightarrow>
          (case fold (visit_child g depth) (mi_get (dir_contains g) dir) (stack, visited) of
             (stack', visited') \<Rightarrow>
               depth_loop g stack' visited' (if depth > max_depth then depth else max_depth)))"

declare depth_loop.simps [code]

definition estimate_depth :: "type_graph \<Rightarrow> nat option" where
  "estimate_depth g = depth_loop g [(root_dir g, 0)] [root_dir g] 0"

record graph_stats =
  inode_count :: nat
  dir_count :: nat
  cap_count :: nat
  block_count :: nat
  version_count :: nat
  edge_count :: nat
  file_count :: nat
  symlink_count :: nat
  xattr_count :: nat
  total_file_bytes :: u64
  max_link_count :: u32
  max_dir_entries :: nat
  depth_estimate :: nat

text \<open>The sum of the sizes wraps, as in a release build.\<close>

definition stats :: "type_graph \<Rightarrow> graph_stats option" where
  "stats g =
     (let ns = ar_values (inodes g)
      in map_option (\<lambda>depth.
        \<lparr>inode_count = ar_len (inodes g), dir_count = ar_len (dirs g), cap_count = ar_len (caps g),
         block_count = ar_len (blocks g), version_count = ar_len (versions g), edge_count = ar_len (edges g),
         file_count = length (filter (\<lambda>n. vtype n = Regular) ns),
         symlink_count = length (filter (\<lambda>n. vtype n = Symlink) ns), xattr_count = length (xattrs g),
         total_file_bytes = fold (\<lambda>n s. if vtype n = Regular then s + isize n else s) ns 0,
         max_link_count = fold (\<lambda>n m. if link_count n > m then link_count n else m) ns 0,
         max_dir_entries = fold max (map (\<lambda>(d, s). length s) (dir_contains g)) 0,
         depth_estimate = depth\<rparr>) (estimate_depth g))"

end
