(* ===== verification/Sotfs_Exported.thy ===== *)
theory Sotfs_Exported
  imports Sotfs_Export Sotfs_Widths Sotfs_Checks
begin

text \<open>
  What the exported JSON says: the D3 document and the Graph Hunter document are read back as the values
  that list the nodes and edges of the graph, whatever bytes the names hold.
\<close>

section \<open>Reading the pieces\<close>

lemma plain_append [simp]: "plain (s @ t) \<longleftrightarrow> plain s \<and> plain t"
  by (auto simp: plain_def)

lemma plain_Cons [simp]: "plain (c # s) \<longleftrightarrow> c \<noteq> QUOTE \<and> c \<noteq> BACKSLASH \<and> 32 \<le> (of_char c :: nat) \<and> plain s"
  by (auto simp: plain_def)

lemma plain_Nil [simp]: "plain []"
  by (simp add: plain_def)

lemma reads_comma: "reads s ts \<Longrightarrow> reads (CHR '','' # s) (Comma # ts)"
  by (rule reads_punctuation) (simp add: punctuation_def)

lemma reads_close:
  assumes "reads s ts" "punctuation c = Some t"
  shows "reads (s @ [c]) (ts @ [t])"
proof -
  have "no_digit [c]" using assms(2) by (auto simp: punctuation_def digit_value_def split: if_splits)
  then show ?thesis by (intro reads_append assms(1) reads_punctuation [OF assms(2) reads_Nil]) simp_all
qed

lemma reads_separated:
  assumes "list_all2 reads ss tss" "no_digit sep" "sep \<noteq> []" "\<And>s ts. reads s ts \<Longrightarrow> reads (sep @ s) (Comma # ts)"
  shows "reads (join sep ss) (join [Comma] tss)"
  using assms(1)
proof (induction rule: list_all2_induct)
  case (Cons s ss ts tss)
  show ?case
  proof (cases ss)
    case Nil
    then show ?thesis using Cons by simp
  next
    case (Cons s' ss')
    obtain ts' tss' where tss: "tss = ts' # tss'" using Cons.hyps Cons Cons.IH
      by (cases tss) (use \<open>list_all2 reads ss tss\<close> Cons in auto)
    have "reads (s @ sep @ join sep ss) (ts @ Comma # join [Comma] tss)"
      using assms(2,3) by (intro reads_append assms(4) Cons.hyps(1) Cons.IH) (auto split: list.splits)
    then show ?thesis by (simp add: Cons tss)
  qed
qed (simp add: reads_Nil)

lemma reads_items: "list_all2 reads ss tss \<Longrightarrow> reads (join '','' ss) (join [Comma] tss)"
  by (rule reads_separated) (simp_all add: reads_comma digit_value_def)

lemma reads_field: "plain k \<Longrightarrow> reads t ts \<Longrightarrow> reads (field (k, t)) (TStr k # Colon # ts)"
  using reads_append [OF reads_quoted reads_punctuation, of k "CHR 0x3A" Colon t ts]
  by (simp add: field_def punctuation_def digit_value_def)

text \<open>\<open>fields_ok kts kvs\<close>: the texts of the fields are those of the values.\<close>

definition fields_ok :: "(string \<times> string) list \<Rightarrow> (string \<times> json) list \<Rightarrow> bool" where
  "fields_ok = list_all2 (\<lambda>kt kv. fst kt = fst kv \<and> plain (fst kt) \<and> reads (snd kt) (toks (snd kv)))"

lemma fields_ok_simps [simp]:
  "fields_ok [] []"
  "fields_ok ((k, t) # kts) ((k', v) # kvs) \<longleftrightarrow> k = k' \<and> plain k \<and> reads t (toks v) \<and> fields_ok kts kvs"
  by (simp_all add: fields_ok_def)

lemma fields_ok_append: "fields_ok a a' \<Longrightarrow> fields_ok b b' \<Longrightarrow> fields_ok (a @ b) (a' @ b')"
  by (simp add: fields_ok_def list_all2_appendI)

lemma reads_object: "fields_ok kts kvs \<Longrightarrow> reads (object kts) (toks (JObj kvs))"
proof -
  assume "fields_ok kts kvs"
  then have "list_all2 reads (map field kts) (map (\<lambda>(k, v). TStr k # Colon # toks v) kvs)"
    unfolding fields_ok_def by (induction rule: list_all2_induct) (auto simp: reads_field)
  then have "reads (join '','' (map field kts) @ ''}'')
      (join [Comma] (map (\<lambda>(k, v). TStr k # Colon # toks v) kvs) @ [RBrace])"
    by (intro reads_close reads_items) (simp_all add: punctuation_def)
  then have "reads (CHR 0x7B # join '','' (map field kts) @ ''}'')
      (LBrace # join [Comma] (map (\<lambda>(k, v). TStr k # Colon # toks v) kvs) @ [RBrace])"
    by (rule reads_punctuation [rotated]) (simp add: punctuation_def)
  then show ?thesis by (simp add: object_def)
qed

lemma reads_names: "list_all plain names \<Longrightarrow> reads (names_array names) (toks (JArr (map JStr names)))"
proof -
  assume "list_all plain names"
  then have "list_all2 reads (map quoted names) (map toks (map JStr names))"
    by (induction names) (simp_all add: reads_quoted)
  then have "reads (join '','' (map quoted names) @ '']'') (join [Comma] (map toks (map JStr names)) @ [RBracket])"
    by (intro reads_close reads_items) (simp_all add: punctuation_def)
  then have "reads (CHR 0x5B # join '','' (map quoted names) @ '']'')
      (LBracket # join [Comma] (map toks (map JStr names)) @ [RBracket])"
    by (rule reads_punctuation [rotated]) (simp add: punctuation_def)
  then show ?thesis by (simp add: names_array_def)
qed

lemma reads_blanks: "list_all blank bs \<Longrightarrow> reads s ts \<Longrightarrow> reads (bs @ s) ts"
  by (induction bs) (simp_all add: reads_blank)

lemma reads_trailing:
  assumes "reads s ts" "list_all blank bs"
  shows "reads (s @ bs) ts"
proof (cases bs)
  case (Cons b bs')
  then have "no_digit bs" using assms(2) by (auto simp: blank_def digit_value_def)
  then show ?thesis
    using reads_append [OF assms(1) reads_blanks [OF assms(2) reads_Nil]] Cons by simp
qed (use assms in simp)

lemma reads_lines: "list_all2 (\<lambda>s v. reads s (toks v)) ss vs \<Longrightarrow> reads (lines_array ss) (toks (JArr vs))"
proof -
  assume "list_all2 (\<lambda>s v. reads s (toks v)) ss vs"
  then have "list_all2 reads ss (map toks vs)" by (simp add: list_all2_map2)
  then have "reads (join separator ss) (join [Comma] (map toks vs))"
  proof (rule reads_separated)
    show "reads (separator @ s) (Comma # ts)" if "reads s ts" for s ts
      using reads_comma [OF reads_blanks [OF _ that, of "NEWLINE # ''    ''"]] by (simp add: separator_def blank_def)
  qed (simp_all add: separator_def digit_value_def)
  then have "reads ((join separator ss @ NEWLINE # ''  '') @ '']'') (join [Comma] (map toks vs) @ [RBracket])"
    by (intro reads_close reads_trailing) (simp_all add: punctuation_def blank_def)
  then have "reads ((NEWLINE # ''    '') @ (join separator ss @ NEWLINE # ''  '') @ '']'')
      (join [Comma] (map toks vs) @ [RBracket])"
    by (rule reads_blanks [rotated]) (simp add: blank_def)
  then have "reads (CHR 0x5B # (NEWLINE # ''    '') @ (join separator ss @ NEWLINE # ''  '') @ '']'')
      (LBracket # join [Comma] (map toks vs) @ [RBracket])"
    by (rule reads_punctuation [rotated]) (simp add: punctuation_def)
  then show ?thesis by (simp add: lines_array_def)
qed

lemma reads_member: "plain k \<Longrightarrow> reads t ts \<Longrightarrow> reads (quoted k @ '': '' @ t) (TStr k # Colon # ts)"
  using reads_append [OF reads_quoted reads_punctuation [OF _ reads_blank], of k "CHR 0x3A" Colon "CHR '' ''" t ts]
  by (simp add: punctuation_def digit_value_def blank_def)

lemma reads_document:
  assumes "plain (fst a)" "plain (fst b)" "reads (snd a) (toks v)" "reads (snd b) (toks w)"
  shows "reads (document a b) (toks (JObj [(fst a, v), (fst b, w)]))"
proof -
  have b: "reads ((quoted (fst b) @ '': '' @ snd b) @ [NEWLINE, CHR 0x7D]) (TStr (fst b) # Colon # toks w @ [RBrace])"
    using reads_append [OF reads_member [OF assms(2,4)] reads_blank [OF _ reads_punctuation [OF _ reads_Nil]],
        of NEWLINE "CHR 0x7D" RBrace]
    by (simp add: blank_def punctuation_def digit_value_def)
  have "reads (CHR 0x2C # (NEWLINE # ''  '') @ (quoted (fst b) @ '': '' @ snd b) @ [NEWLINE, CHR 0x7D])
      (Comma # TStr (fst b) # Colon # toks w @ [RBrace])"
    by (intro reads_comma reads_blanks b) (simp add: blank_def)
  then have "reads ((quoted (fst a) @ '': '' @ snd a) @ CHR 0x2C # (NEWLINE # ''  '') @
      (quoted (fst b) @ '': '' @ snd b) @ [NEWLINE, CHR 0x7D])
      ((TStr (fst a) # Colon # toks v) @ Comma # TStr (fst b) # Colon # toks w @ [RBrace])"
    by (intro reads_append reads_member assms(1,3)) (simp_all add: digit_value_def)
  then have "reads (CHR 0x7B # (NEWLINE # ''  '') @ (quoted (fst a) @ '': '' @ snd a) @ CHR 0x2C # (NEWLINE # ''  '') @
      (quoted (fst b) @ '': '' @ snd b) @ [NEWLINE, CHR 0x7D])
      (LBrace # (TStr (fst a) # Colon # toks v) @ Comma # TStr (fst b) # Colon # toks w @ [RBrace])"
    by (intro reads_punctuation [OF _ reads_blanks]) (simp_all add: punctuation_def blank_def)
  then show ?thesis by (simp add: document_def)
qed

section \<open>The D3 document\<close>

text \<open>What the document is meant to say.\<close>

definition num_of :: "'w::len word \<Rightarrow> json" where
  "num_of w = JNum (unat w)"

definition node_name :: "string \<Rightarrow> nat \<Rightarrow> json" where
  "node_name kind n = JStr (kind @ decimal n)"

definition inode_value :: "inode \<Rightarrow> json" where
  "inode_value n = JObj
     [(''id'', node_name ''I'' (inode_id n)), (''type'', JStr ''inode''), (''vtype'', JStr (vtype_name (vtype n))),
      (''size'', num_of (isize n)), (''link_count'', num_of (link_count n)), (''uid'', num_of (uid n)),
      (''gid'', num_of (gid n)), (''mtime'', num_of (mtime n))]"

definition dir_value :: "directory \<Rightarrow> json" where
  "dir_value d = JObj
     [(''id'', node_name ''D'' (dir_id d)), (''type'', JStr ''directory''), (''inode_id'', JNum (dir_inode_id d))]"

definition cap_value :: "capability \<Rightarrow> json" where
  "cap_value c = JObj
     [(''id'', node_name ''C'' (capability_id c)), (''type'', JStr ''capability''), (''rights'', num_of (cap_rights c)),
      (''epoch'', num_of (epoch c))]"

definition block_value :: "block \<Rightarrow> json" where
  "block_value b = JObj
     [(''id'', node_name ''B'' (block_id b)), (''type'', JStr ''block''), (''sector_start'', num_of (sector_start b)),
      (''sector_count'', num_of (sector_count b)), (''refcount'', num_of (refcount b))]"

definition version_value :: "version \<Rightarrow> json" where
  "version_value v = JObj
     [(''id'', node_name ''V'' (version_id v)), (''type'', JStr ''version''),
      (''timestamp'', num_of (version_timestamp v)), (''root_inode'', JNum (version_root_inode_id v))]"

definition link_value :: "edge_id \<Rightarrow> json \<Rightarrow> json \<Rightarrow> string \<Rightarrow> (string \<times> json) list \<Rightarrow> json" where
  "link_value i src tgt ty extra =
     JObj ([(''id'', JNum i), (''source'', src), (''target'', tgt), (''type'', JStr ty)] @ extra)"

fun edge_value :: "edge \<Rightarrow> json" where
  "edge_value (Contains i s t n) = link_value i (node_name ''D'' s) (node_name ''I'' t) ''contains'' [(''name'', JStr n)]"
| "edge_value (Grants i s t r) = link_value i (node_name ''C'' s) (node_name ''I'' t) ''grants'' [(''rights'', num_of r)]"
| "edge_value (Delegates i s t) = link_value i (node_name ''C'' s) (node_name ''C'' t) ''delegates'' []"
| "edge_value (DerivedFrom i s t) = link_value i (node_name ''V'' s) (node_name ''V'' t) ''derivesFrom'' []"
| "edge_value (Supersedes i s t) = link_value i (node_name ''I'' s) (node_name ''I'' t) ''supersedes'' []"
| "edge_value (PointsTo i s t off) = link_value i (node_name ''I'' s) (node_name ''B'' t) ''pointsTo'' [(''offset'', num_of off)]"
| "edge_value (HasXattr i s t) = link_value i (node_name ''I'' s) (node_name ''XA'' t) ''hasXattr'' []"

definition d3_value :: "type_graph \<Rightarrow> json" where
  "d3_value g = JObj
     [(''nodes'', JArr (map inode_value (ar_values (inodes g)) @ map dir_value (ar_values (dirs g)) @
         map cap_value (ar_values (caps g)) @ map block_value (ar_values (blocks g)) @
         map version_value (ar_values (versions g)))),
      (''links'', JArr (map edge_value (ar_values (edges g))))]"

lemma reads_num: "reads (word_text w) (toks (num_of w))"
  by (simp add: num_of_def reads_decimal)

lemma reads_name: "plain kind \<Longrightarrow> reads (quoted (kind @ decimal n)) (toks (node_name kind n))"
  by (simp add: node_name_def reads_quoted)

lemma reads_letter: "plain [c] \<Longrightarrow> reads (quoted (c # decimal n)) (toks (node_name [c] n))"
  using reads_name [of "[c]" n] by simp

lemma reads_word_of: "plain s \<Longrightarrow> reads (quoted s) (toks (JStr s))"
  by (simp add: reads_quoted)

lemma plain_vtype: "plain (vtype_name t)"
  by (cases t) (simp_all add: vtype_name_def)

lemma reads_number: "reads (decimal n) (toks (JNum n))" "reads (json_str s) (toks (JStr s))"
  by (simp_all add: reads_decimal reads_json_str)

lemmas reads_values = reads_num reads_name reads_letter reads_word_of reads_number plain_vtype

lemma reads_d3_nodes:
  "reads (d3_inode n) (toks (inode_value n))" "reads (d3_dir d) (toks (dir_value d))" "reads (d3_cap c) (toks (cap_value c))"
  "reads (d3_block b) (toks (block_value b))" "reads (d3_version v) (toks (version_value v))"
  unfolding d3_inode_def inode_value_def d3_dir_def dir_value_def d3_cap_def cap_value_def d3_block_def block_value_def
    d3_version_def version_value_def
  by (rule reads_object, simp add: reads_values del: toks.simps)+

lemma d3_ends_ok:
  "plain a \<Longrightarrow> plain b \<Longrightarrow> plain ty \<Longrightarrow>
     fields_ok (d3_ends i a s b t ty)
       [(''id'', JNum i), (''source'', node_name a s), (''target'', node_name b t), (''type'', JStr ty)]"
  by (simp add: d3_ends_def reads_values del: toks.simps)

lemma reads_link:
  assumes "plain a" "plain b" "plain ty" "fields_ok extra extra'"
  shows "reads (object (d3_ends i a s b t ty @ extra)) (toks (link_value i (node_name a s) (node_name b t) ty extra'))"
  unfolding link_value_def by (intro reads_object fields_ok_append d3_ends_ok assms)

lemma reads_bare_link:
  "plain a \<Longrightarrow> plain b \<Longrightarrow> plain ty \<Longrightarrow>
     reads (object (d3_ends i a s b t ty)) (toks (link_value i (node_name a s) (node_name b t) ty []))"
  using reads_link [of a b ty "[]" "[]"] by simp

lemma reads_d3_link: "reads (d3_link e) (toks (edge_value e))"
  by (cases e) (simp_all add: reads_link reads_bare_link reads_values del: toks.simps)

lemma d3_document: "parse_json (to_d3_json g) = Some (d3_value g)"
proof (rule parse_json_reads)
  have "list_all2 (\<lambda>s v. reads s (toks v)) (d3_nodes g)
      (map inode_value (ar_values (inodes g)) @ map dir_value (ar_values (dirs g)) @ map cap_value (ar_values (caps g)) @
       map block_value (ar_values (blocks g)) @ map version_value (ar_values (versions g)))"
    unfolding d3_nodes_def by (intro list_all2_appendI) (simp_all add: list_all2_map1 list_all2_map2 list_all2_same reads_d3_nodes)
  moreover have "list_all2 (\<lambda>s v. reads s (toks v)) (map d3_link (ar_values (edges g))) (map edge_value (ar_values (edges g)))"
    by (simp add: list_all2_map1 list_all2_map2 list_all2_same reads_d3_link)
  ultimately show "reads (to_d3_json g) (toks (d3_value g))"
    unfolding to_d3_json_def d3_value_def
    using reads_document [of "(''nodes'', lines_array (d3_nodes g))" "(''links'', lines_array (map d3_link (ar_values (edges g))))"]
    by (simp add: reads_lines del: toks.simps)
qed

section \<open>Reading the edges back\<close>

definition number_after :: "string \<Rightarrow> string \<Rightarrow> nat option" where
  "number_after kind s =
     (if take (length kind) s = kind
      then (case read_digits 0 (drop (length kind) s) of (n, rest) \<Rightarrow> if rest = [] then Some n else None)
      else None)"

lemma number_after_name [simp]: "number_after kind (kind @ decimal n) = Some n"
  using read_digits_decimal [of "[]" n] by (simp add: number_after_def)

definition edge_of_link :: "edge_id \<Rightarrow> string \<Rightarrow> string \<Rightarrow> string \<Rightarrow> (string \<times> json) list \<Rightarrow> edge option" where
  "edge_of_link i src tgt ty extra =
     (let link = (\<lambda>mk a b. Option.bind (number_after a src) (\<lambda>s. map_option (mk i s) (number_after b tgt)))
      in if ty = ''contains'' then (case extra of [(_, JStr n)] \<Rightarrow> link (\<lambda>i s t. Contains i s t n) ''D'' ''I'' | _ \<Rightarrow> None)
         else if ty = ''grants'' then
           (case extra of [(_, JNum r)] \<Rightarrow> link (\<lambda>i s t. Grants i s t (of_nat r)) ''C'' ''I'' | _ \<Rightarrow> None)
         else if ty = ''pointsTo'' then
           (case extra of [(_, JNum off)] \<Rightarrow> link (\<lambda>i s t. PointsTo i s t (of_nat off)) ''I'' ''B'' | _ \<Rightarrow> None)
         else if ty = ''delegates'' then link Delegates ''C'' ''C''
         else if ty = ''derivesFrom'' then link DerivedFrom ''V'' ''V''
         else if ty = ''supersedes'' then link Supersedes ''I'' ''I''
         else if ty = ''hasXattr'' then link HasXattr ''I'' ''XA''
         else None)"

definition edge_of_value :: "json \<Rightarrow> edge option" where
  "edge_of_value v =
     (case v of
        JObj ((_, JNum i) # (_, JStr src) # (_, JStr tgt) # (_, JStr ty) # extra) \<Rightarrow> edge_of_link i src tgt ty extra
      | _ \<Rightarrow> None)"

lemma number_after_letter [simp]: "number_after [c] (c # decimal n) = Some n"
  using number_after_name [of "[c]" n] by simp

lemma number_after_letters [simp]: "number_after [c, d] (c # d # decimal n) = Some n"
  using number_after_name [of "[c, d]" n] by simp

lemma edge_of_edge_value: "edge_of_value (edge_value e) = Some e"
  by (cases e) (simp_all add: edge_of_value_def link_value_def node_name_def edge_of_link_def num_of_def Let_def)

section \<open>What a reader of the D3 document sees\<close>

fun json_field :: "string \<Rightarrow> json \<Rightarrow> json option" where
  "json_field k (JObj kvs) = map_of kvs k"
| "json_field k _ = None"

fun node_text :: "node_id \<Rightarrow> string" where
  "node_text (NInode i) = ''I'' @ decimal i"
| "node_text (NDirectory d) = ''D'' @ decimal d"
| "node_text (NCapability c) = ''C'' @ decimal c"
| "node_text (NTransaction t) = ''T'' @ decimal t"
| "node_text (NVersion v) = ''V'' @ decimal v"
| "node_text (NBlock b) = ''B'' @ decimal b"
| "node_text (NXAttr x) = ''XA'' @ decimal x"

lemma node_name_text:
  "node_name ''I'' i = JStr (node_text (NInode i))" "node_name ''D'' i = JStr (node_text (NDirectory i))"
  "node_name ''C'' i = JStr (node_text (NCapability i))" "node_name ''V'' i = JStr (node_text (NVersion i))"
  "node_name ''B'' i = JStr (node_text (NBlock i))" "node_name ''XA'' i = JStr (node_text (NXAttr i))"
  by (simp_all add: node_name_def)

lemma node_value_id:
  "json_field ''id'' (inode_value n) = Some (JStr (node_text (NInode (inode_id n))))"
  "json_field ''id'' (dir_value d) = Some (JStr (node_text (NDirectory (dir_id d))))"
  "json_field ''id'' (cap_value c) = Some (JStr (node_text (NCapability (capability_id c))))"
  "json_field ''id'' (block_value b) = Some (JStr (node_text (NBlock (block_id b))))"
  "json_field ''id'' (version_value v) = Some (JStr (node_text (NVersion (version_id v))))"
  by (simp_all add: inode_value_def dir_value_def cap_value_def block_value_def version_value_def node_name_text
      del: node_text.simps)

lemma node_value_label:
  "json_field ''label'' (inode_value n) = None" "json_field ''label'' (dir_value d) = None"
  "json_field ''label'' (cap_value c) = None" "json_field ''label'' (block_value b) = None"
  "json_field ''label'' (version_value v) = None"
  by (simp_all add: inode_value_def dir_value_def cap_value_def block_value_def version_value_def)

lemma edge_value_fields:
  "json_field ''label'' (edge_value e) = None"
  "json_field ''source'' (edge_value e) = Some (JStr (node_text (fst (edge_ends e))))"
  "json_field ''target'' (edge_value e) = Some (JStr (node_text (snd (edge_ends e))))"
  by (cases e; simp add: link_value_def node_name_text del: node_text.simps)+

lemma xattr_name_new: "node_text (NXAttr x) \<noteq> node_text n" if "\<forall>y. n \<noteq> NXAttr y"
  using that by (cases n) simp_all

definition d3_stored :: "type_graph \<Rightarrow> json set" where
  "d3_stored g =
     {inode_value n | n i. ar_get (inodes g) i = Some n} \<union> {dir_value d | d i. ar_get (dirs g) i = Some d} \<union>
     {cap_value c | c i. ar_get (caps g) i = Some c} \<union> {block_value b | b i. ar_get (blocks g) i = Some b} \<union>
     {version_value v | v i. ar_get (versions g) i = Some v}"

lemma d3_stored_label: "v \<in> d3_stored g \<Longrightarrow> json_field ''label'' v = None"
  by (auto simp: d3_stored_def node_value_label)

lemma d3_stored_xattr: "v \<in> d3_stored g \<Longrightarrow> json_field ''id'' v \<noteq> Some (JStr (node_text (NXAttr x)))"
  unfolding d3_stored_def by (elim UnE CollectE exE conjE) (simp_all only: node_value_id option.inject json.inject xattr_name_new [symmetric], simp_all)

lemma values_image: "ar_inv a \<Longrightarrow> f ` set (ar_values a) = {f v | v i. ar_get a i = Some v}"
  using stored_values [of a] by blast

lemma d3_nodes_stored:
  assumes "containers_ok g"
  shows "set (map inode_value (ar_values (inodes g)) @ map dir_value (ar_values (dirs g)) @
         map cap_value (ar_values (caps g)) @ map block_value (ar_values (blocks g)) @
         map version_value (ar_values (versions g))) = d3_stored g"
  unfolding d3_stored_def set_append set_map by (simp add: values_image containers_okD [OF assms] Un_assoc)

text \<open>
  C32: the D3 export is JSON, whatever bytes the file names contain.  Its nodes are the stored inodes,
  directories, capabilities, blocks and versions, as many as are stored, each with the fields of
  \<open>inode_value\<close>, \<open>dir_value\<close>, \<open>cap_value\<close>, \<open>block_value\<close> or \<open>version_value\<close>; of an inode these are the number,
  the type, the size, the link count, the owner and \<open>mtime\<close>, not the permissions, \<open>ctime\<close> or \<open>atime\<close>.  From its
  links all stored edges are recovered with their name, rights or offset, and a link names the two nodes that
  its edge joins.  A link to an attribute names a node that the document does not have, and neither nodes nor
  links have the label that the documentation announces.
\<close>

theorem d3_export_roundtrip:
  assumes "containers_ok g"
  shows "\<exists>ns ls es. parse_json (to_d3_json g) = Some (JObj [(''nodes'', JArr ns), (''links'', JArr ls)]) \<and>
    set ns = d3_stored g \<and>
    length ns = card (dom (ar_get (inodes g))) + card (dom (ar_get (dirs g))) + card (dom (ar_get (caps g))) +
      card (dom (ar_get (blocks g))) + card (dom (ar_get (versions g))) \<and>
    map edge_of_value ls = map Some es \<and> set es = ran (ar_get (edges g)) \<and> length es = card (dom (ar_get (edges g))) \<and>
    map (json_field ''source'') ls = map (\<lambda>e. Some (JStr (node_text (fst (edge_ends e))))) es \<and>
    map (json_field ''target'') ls = map (\<lambda>e. Some (JStr (node_text (snd (edge_ends e))))) es \<and>
    (\<forall>x. Some (JStr (node_text (NXAttr x))) \<notin> json_field ''id'' ` set ns) \<and>
    (\<forall>v \<in> set ns \<union> set ls. json_field ''label'' v = None)"
proof (intro exI conjI)
  let ?ns = "map inode_value (ar_values (inodes g)) @ map dir_value (ar_values (dirs g)) @
     map cap_value (ar_values (caps g)) @ map block_value (ar_values (blocks g)) @ map version_value (ar_values (versions g))"
  let ?es = "ar_values (edges g)"
  note arenas = containers_okD(1-7) [OF assms] and nodes = d3_nodes_stored [OF assms]
  have size: "length (ar_values a) = card (dom (ar_get a))" if "ar_inv a" for a :: "'x arena"
    using ar.count_entries [OF that, of "\<lambda>_ _. True"] by (simp add: ar_values_def dom_def)
  show "parse_json (to_d3_json g) = Some (JObj [(''nodes'', JArr ?ns), (''links'', JArr (map edge_value ?es))])"
    by (simp add: d3_document d3_value_def)
  show "set ?ns = d3_stored g" by (rule nodes)
  show "length ?ns = card (dom (ar_get (inodes g))) + card (dom (ar_get (dirs g))) + card (dom (ar_get (caps g))) +
      card (dom (ar_get (blocks g))) + card (dom (ar_get (versions g)))"
    by (simp add: size arenas)
  show "map edge_of_value (map edge_value ?es) = map Some ?es" by (simp add: edge_of_edge_value)
  show "set ?es = ran (ar_get (edges g))" using stored_values [OF arenas(7)] by (auto simp: ran_def)
  show "length ?es = card (dom (ar_get (edges g)))" by (simp add: size arenas)
  show "map (json_field ''source'') (map edge_value ?es) = map (\<lambda>e. Some (JStr (node_text (fst (edge_ends e))))) ?es"
    "map (json_field ''target'') (map edge_value ?es) = map (\<lambda>e. Some (JStr (node_text (snd (edge_ends e))))) ?es"
    by (simp_all add: edge_value_fields)
  show "\<forall>x. Some (JStr (node_text (NXAttr x))) \<notin> json_field ''id'' ` set ?ns"
    unfolding nodes using d3_stored_xattr by (metis imageE)
  show "\<forall>v \<in> set ?ns \<union> set (map edge_value ?es). json_field ''label'' v = None"
    unfolding nodes using d3_stored_label edge_value_fields(1) by auto
qed

theorem d3_export_roundtrip_witness:
  "\<exists>ns ls. parse_json (to_d3_json extent_graph) = Some (JObj [(''nodes'', JArr ns), (''links'', JArr ls)]) \<and>
     ls \<noteq> [] \<and> (\<forall>v \<in> set ns \<union> set ls. json_field ''label'' v = None)"
proof -
  obtain ns ls es where d: "parse_json (to_d3_json extent_graph) = Some (JObj [(''nodes'', JArr ns), (''links'', JArr ls)])"
    "map edge_of_value ls = map Some es" "set es = ran (edge_at extent_graph)"
    "\<forall>v \<in> set ns \<union> set ls. json_field ''label'' v = None"
    using d3_export_roundtrip [OF extent_graph_containers] by metis
  have "es \<noteq> []" using d(3) extent_graph_stored [of "Contains 1 1 1 ''.''"] by (auto simp: ran_def)
  then have "ls \<noteq> []" using d(2) by auto
  then show ?thesis using d(1,4) by blast
qed

section \<open>The Graph Hunter document\<close>

datatype item = IInode inode | IDir directory | ICap capability | IBlock block | IVersion version | IEdge edge

definition items :: "type_graph \<Rightarrow> item list" where
  "items g =
     map IInode (ar_values (inodes g)) @ map IDir (ar_values (dirs g)) @ map ICap (ar_values (caps g)) @
     map IBlock (ar_values (blocks g)) @ map IVersion (ar_values (versions g)) @ map IEdge (ar_values (edges g))"

fun item_event :: "type_graph \<Rightarrow> item \<Rightarrow> event" where
  "item_event g (IInode n) = hunter_inode n"
| "item_event g (IDir d) = hunter_dir g d"
| "item_event g (ICap c) = hunter_cap c"
| "item_event g (IBlock b) = hunter_block b"
| "item_event g (IVersion v) = hunter_version v"
| "item_event g (IEdge e) = hunter_edge g e"

text \<open>
  The time an event carries: that of the creation of an inode, also for its directory and for the entries
  that lead to it; the epoch of a capability, also for its grants; the time of a version, also for its
  derivation; and zero for everything else.
\<close>

definition ctime_of :: "type_graph \<Rightarrow> inode_id \<Rightarrow> timestamp" where
  "ctime_of g i = (case ar_get (inodes g) (id_to_arena i) of Some n \<Rightarrow> ctime n | None \<Rightarrow> 0)"

fun item_time :: "type_graph \<Rightarrow> item \<Rightarrow> timestamp" where
  "item_time g (IInode n) = ctime n"
| "item_time g (IDir d) = ctime_of g (dir_inode_id d)"
| "item_time g (ICap c) = epoch c"
| "item_time g (IBlock b) = 0"
| "item_time g (IVersion v) = version_timestamp v"
| "item_time g (IEdge (Contains _ _ i _)) = ctime_of g i"
| "item_time g (IEdge (Grants _ c _ _)) = (case ar_get (caps g) (id_to_arena c) of Some x \<Rightarrow> epoch x | None \<Rightarrow> 0)"
| "item_time g (IEdge (DerivedFrom _ v _)) =
     (case filter (\<lambda>x. version_id x = v) (ar_values (versions g)) of [] \<Rightarrow> 0 | x # _ \<Rightarrow> version_timestamp x)"
| "item_time g (IEdge _) = 0"

lemma find_as_filter: "find P xs = (case filter P xs of [] \<Rightarrow> None | x # _ \<Rightarrow> Some x)"
  by (induction xs) simp_all

lemma item_time_event: "item_time g x = fst (item_event g x)"
proof (cases x)
  case (IEdge e)
  then show ?thesis
    by (cases e) (simp_all add: ctime_of_def get_inode_def get_cap_def Let_def find_as_filter split: option.split list.split)
qed (simp_all add: hunter_inode_def hunter_dir_def hunter_cap_def hunter_block_def hunter_version_def Let_def ctime_of_def
    get_inode_def split: option.split)

fun item_fields :: "item \<Rightarrow> (string \<times> json) list" where
  "item_fields (IInode n) =
     [(''op'', JStr ''add_node''), (''id'', node_name ''I'' (inode_id n)), (''type'', JStr ''inode''),
      (''vtype'', JStr (vtype_name (vtype n))), (''size'', num_of (isize n)), (''link_count'', num_of (link_count n)),
      (''perms'', num_of (permissions n)), (''uid'', num_of (uid n)), (''gid'', num_of (gid n))]"
| "item_fields (IDir d) =
     [(''op'', JStr ''add_node''), (''id'', node_name ''D'' (dir_id d)), (''type'', JStr ''directory''),
      (''inode_id'', JNum (dir_inode_id d))]"
| "item_fields (ICap c) =
     [(''op'', JStr ''add_node''), (''id'', node_name ''C'' (capability_id c)), (''type'', JStr ''capability''),
      (''rights'', num_of (cap_rights c)), (''epoch'', num_of (epoch c))]"
| "item_fields (IBlock b) =
     [(''op'', JStr ''add_node''), (''id'', node_name ''B'' (block_id b)), (''type'', JStr ''block''),
      (''sectors'', num_of (sector_count b)), (''refcount'', num_of (refcount b))]"
| "item_fields (IVersion v) =
     [(''op'', JStr ''add_node''), (''id'', node_name ''V'' (version_id v)), (''type'', JStr ''version''),
      (''root'', JNum (version_root_inode_id v))]"
| "item_fields (IEdge e) =
     (''op'', JStr ''add_edge'') #
     (case edge_value e of
        JObj (i # (_, src) # (_, tgt) # rest) \<Rightarrow> i # (''src'', src) # (''tgt'', tgt) # rest
      | _ \<Rightarrow> [])"

definition item_value :: "type_graph \<Rightarrow> item \<Rightarrow> json" where
  "item_value g x = JObj ((''t'', num_of (item_time g x)) # item_fields x)"

definition meta_value :: "type_graph \<Rightarrow> json" where
  "meta_value g = JObj
     [(''format'', JStr ''graph-hunter-temporal''), (''version'', JNum 1),
      (''node_count'', JNum (ar_len (inodes g) + ar_len (dirs g) + ar_len (caps g) + ar_len (blocks g) + ar_len (versions g))),
      (''edge_count'', JNum (ar_len (edges g))),
      (''node_types'', JArr (map JStr [''inode'', ''directory'', ''capability'', ''block'', ''version''])),
      (''edge_types'', JArr (map JStr [''contains'', ''grants'', ''delegates'', ''derivesFrom'', ''supersedes'',
         ''pointsTo'', ''hasXattr'']))]"

lemma decimal_digits: "decimal 0 = ''0''" "decimal 1 = ''1''"
  by (simp_all add: decimal.simps digit_def char_of_def bit_simps)

lemma reads_digits: "reads ''0'' (toks (num_of (0 :: u64)))" "reads ''1'' (toks (JNum (Suc 0)))"
  using reads_num [of "0 :: u64"] reads_number(1) [of "Suc 0"] by (simp_all only: decimal_digits unsigned_0 flip: One_nat_def)

lemma hunter_ends_ok:
  "reads t (toks tv) \<Longrightarrow> plain a \<Longrightarrow> plain b \<Longrightarrow> plain ty \<Longrightarrow>
     fields_ok (hunter_ends t i a s b n ty)
       [(''t'', tv), (''op'', JStr ''add_edge''), (''id'', JNum i), (''src'', node_name a s), (''tgt'', node_name b n),
        (''type'', JStr ty)]"
  by (simp add: hunter_ends_def reads_values del: toks.simps)

lemma reads_hunter_edge:
  assumes "reads t (toks tv)" "plain a" "plain b" "plain ty" "fields_ok extra extra'"
  shows "reads (object (hunter_ends t i a s b n ty @ extra))
    (toks (JObj ([(''t'', tv), (''op'', JStr ''add_edge''), (''id'', JNum i), (''src'', node_name a s),
       (''tgt'', node_name b n), (''type'', JStr ty)] @ extra')))"
  by (intro reads_object fields_ok_append hunter_ends_ok assms)

lemma reads_labelled_edge:
  "reads t (toks tv) \<Longrightarrow> plain a \<Longrightarrow> plain b \<Longrightarrow> plain ty \<Longrightarrow> plain k \<Longrightarrow> reads x (toks v) \<Longrightarrow>
     reads (object (hunter_ends t i a s b n ty @ [(k, x)]))
       (toks (JObj [(''t'', tv), (''op'', JStr ''add_edge''), (''id'', JNum i), (''src'', node_name a s),
          (''tgt'', node_name b n), (''type'', JStr ty), (k, v)]))"
  using reads_hunter_edge [of t tv a b ty "[(k, x)]" "[(k, v)]"] by (simp del: toks.simps)

lemma reads_bare_edge:
  "reads t (toks tv) \<Longrightarrow> plain a \<Longrightarrow> plain b \<Longrightarrow> plain ty \<Longrightarrow>
     reads (object (hunter_ends t i a s b n ty))
       (toks (JObj [(''t'', tv), (''op'', JStr ''add_edge''), (''id'', JNum i), (''src'', node_name a s),
          (''tgt'', node_name b n), (''type'', JStr ty)]))"
  using reads_hunter_edge [of t tv a b ty "[]" "[]"] by simp

lemma reads_item: "reads (snd (item_event g x)) (toks (item_value g x))"
proof (cases x)
  case (IEdge e)
  show ?thesis
    by (cases e) (simp_all add: IEdge item_value_def item_time_event link_value_def Let_def reads_bare_edge reads_labelled_edge
        reads_values reads_digits del: toks.simps)
qed (auto simp: item_value_def item_time_event hunter_inode_def hunter_dir_def hunter_cap_def hunter_block_def hunter_version_def
      Let_def reads_values reads_digits intro!: reads_object simp del: toks.simps)

lemma sort_key_map: "sort_key f (map h xs) = map h (sort_key (\<lambda>x. f (h x)) xs)"
proof (induction xs)
  case (Cons x xs)
  have "insort_key f (h x) (map h ys) = map h (insort_key (\<lambda>x. f (h x)) x ys)" for ys
    by (induction ys) simp_all
  then show ?case using Cons by simp
qed simp

lemma hunter_events_items: "hunter_events g = map (item_event g) (sort_key (item_time g) (items g))"
proof -
  have "hunter_events g = sort_key fst (map (item_event g) (items g))"
    by (simp add: hunter_events_def items_def comp_def)
  moreover have "item_time g = (\<lambda>x. fst (item_event g x))" by (simp add: fun_eq_iff item_time_event)
  ultimately show ?thesis by (simp add: sort_key_map)
qed

lemma reads_meta: "reads (hunter_meta g) (toks (meta_value g))"
  unfolding hunter_meta_def meta_value_def
  by (intro reads_object) (simp add: reads_values reads_digits reads_names del: toks.simps list.map)

definition hunter_value :: "type_graph \<Rightarrow> json" where
  "hunter_value g = JObj
     [(''meta'', meta_value g), (''events'', JArr (map (item_value g) (sort_key (item_time g) (items g))))]"

lemma hunter_document: "parse_json (to_graph_hunter g) = Some (hunter_value g)"
proof (rule parse_json_reads)
  have "list_all2 (\<lambda>s v. reads s (toks v)) (map snd (hunter_events g))
      (map (item_value g) (sort_key (item_time g) (items g)))"
    by (simp add: hunter_events_items list_all2_map1 list_all2_map2 list_all2_same reads_item)
  then show "reads (to_graph_hunter g) (toks (hunter_value g))"
    using reads_document [of "(''meta'', hunter_meta g)" "(''events'', lines_array (map snd (hunter_events g)))"] reads_meta
    by (simp add: to_graph_hunter_def hunter_value_def reads_lines del: toks.simps)
qed

section \<open>What a reader of the Graph Hunter document sees\<close>

definition event_time :: "json \<Rightarrow> nat" where
  "event_time v = (case json_field ''t'' v of Some (JNum t) \<Rightarrow> t | _ \<Rightarrow> 0)"

definition stored_items :: "type_graph \<Rightarrow> item set" where
  "stored_items g =
     {IInode n | n i. ar_get (inodes g) i = Some n} \<union> {IDir d | d i. ar_get (dirs g) i = Some d} \<union>
     {ICap c | c i. ar_get (caps g) i = Some c} \<union> {IBlock b | b i. ar_get (blocks g) i = Some b} \<union>
     {IVersion v | v i. ar_get (versions g) i = Some v} \<union> {IEdge e | e i. ar_get (edges g) i = Some e}"

lemma items_stored: "containers_ok g \<Longrightarrow> set (items g) = stored_items g"
  unfolding stored_items_def items_def set_append set_map by (simp add: values_image containers_okD Un_assoc)

fun is_edge :: "item \<Rightarrow> bool" where
  "is_edge (IEdge _) = True"
| "is_edge _ = False"

lemma event_op: "json_field ''op'' (item_value g x) = Some (JStr (if is_edge x then ''add_edge'' else ''add_node''))"
  by (cases x) (simp_all add: item_value_def)

lemma event_time_item: "event_time (item_value g x) = unat (item_time g x)"
  by (simp add: event_time_def item_value_def num_of_def)

lemma count_items:
  "length (filter is_edge (items g)) = ar_len (edges g)"
  "length (filter (\<lambda>x. \<not> is_edge x) (items g)) =
     ar_len (inodes g) + ar_len (dirs g) + ar_len (caps g) + ar_len (blocks g) + ar_len (versions g)"
  if "containers_ok g"
proof -
  have size: "length (ar_values a) = ar_len a" if "ar_inv a" for a :: "'x arena"
    using ar.count_entries [OF that, of "\<lambda>_ _. True"] ar_len_dom [OF that] by (simp add: ar_values_def dom_def)
  show "length (filter is_edge (items g)) = ar_len (edges g)"
    "length (filter (\<lambda>x. \<not> is_edge x) (items g)) =
     ar_len (inodes g) + ar_len (dirs g) + ar_len (caps g) + ar_len (blocks g) + ar_len (versions g)"
    by (simp_all add: items_def filter_map comp_def size containers_okD [OF that])
qed

lemma length_filter_sort: "length (filter P (sort_key f xs)) = length (filter P xs)"
  by (metis filter_sort length_sort)

text \<open>
  C33: the Graph Hunter export is JSON that keeps these promises of its schema.  There is one event for every
  stored inode, directory, capability, block, version and edge, with the time that \<open>item_time\<close> gives, and
  no other; \<open>node_count\<close> and \<open>edge_count\<close> are the numbers of the events that add nodes and edges; the events are
  in the order of their times, and in the order of emission where the times agree.  An event that adds an
  inode or a directory, or an entry that leads to an inode, carries the time of its creation; that of a
  capability or a grant carries an epoch, and that of a block or of any other edge but a derivation carries
  zero, so such edges come first, before the nodes they join.
\<close>

theorem hunter_export_sorted:
  assumes "containers_ok g"
  shows "\<exists>nodes edges types evs.
    parse_json (to_graph_hunter g) = Some (JObj
      [(''meta'', JObj ([(''format'', JStr ''graph-hunter-temporal''), (''version'', JNum 1),
          (''node_count'', JNum nodes), (''edge_count'', JNum edges)] @ types)),
       (''events'', JArr evs)]) \<and>
    nodes = length (filter (\<lambda>v. json_field ''op'' v = Some (JStr ''add_node'')) evs) \<and>
    edges = length (filter (\<lambda>v. json_field ''op'' v = Some (JStr ''add_edge'')) evs) \<and>
    set evs = item_value g ` stored_items g \<and> length evs = nodes + edges \<and>
    sorted (map event_time evs) \<and>
    (\<forall>t. filter (\<lambda>v. event_time v = t) evs = filter (\<lambda>v. event_time v = t) (map (item_value g) (items g)))"
proof -
  let ?xs = "sort_key (item_time g) (items g)"
  let ?evs = "map (item_value g) ?xs"
  let ?n = "ar_len (inodes g) + ar_len (dirs g) + ar_len (caps g) + ar_len (blocks g) + ar_len (versions g)"
  have ops: "length (filter (\<lambda>v. json_field ''op'' v = Some (JStr ''add_node'')) ?evs) = ?n"
    "length (filter (\<lambda>v. json_field ''op'' v = Some (JStr ''add_edge'')) ?evs) = ar_len (edges g)"
    using count_items [OF assms] by (simp_all add: filter_map comp_def event_op length_filter_sort if_distrib cong: if_cong)
  have "length ?evs = ?n + ar_len (edges g)"
    using sum_length_filter_compl [of is_edge "items g"] count_items [OF assms] by simp
  moreover have "set ?evs = item_value g ` stored_items g" by (simp add: items_stored [OF assms])
  moreover have "sorted (map event_time ?evs)"
  proof -
    have "sorted_wrt (\<lambda>x y. item_time g x \<le> item_time g y) ?xs" using sorted_sort_key [of "item_time g"] by (simp only: sorted_map)
    then show ?thesis by (simp add: comp_def event_time_item sorted_map word_le_nat_alt)
  qed
  moreover have "filter (\<lambda>v. event_time v = t) ?evs = filter (\<lambda>v. event_time v = t) (map (item_value g) (items g))" for t
  proof -
    have "filter (\<lambda>x. unat (item_time g x) = t) (sort_key (item_time g) xs) = filter (\<lambda>x. unat (item_time g x) = t) xs" for xs
    proof (cases "\<exists>w :: u64. unat w = t")
      case True
      then obtain w :: u64 where "unat w = t" by blast
      then have "unat (item_time g x) = t \<longleftrightarrow> item_time g x = w" for x by (metis word_unat_eq_iff)
      then show ?thesis using filter_sort [of "\<lambda>x. item_time g x = w" "item_time g" xs] sort_key_stable [of "item_time g" w xs] by simp
    qed (simp add: filter_empty_conv)
    then show ?thesis by (simp add: filter_map comp_def event_time_item)
  qed
  ultimately show ?thesis
    using hunter_document [of g] ops unfolding hunter_value_def meta_value_def
    by (intro exI [of _ ?n] exI [of _ "ar_len (edges g)"] exI [of _ ?evs] exI conjI) (assumption | simp)+
qed

theorem hunter_export_sorted_witness:
  "\<exists>head evs. parse_json (to_graph_hunter extent_graph) = Some (JObj [head, (''events'', JArr evs)]) \<and>
     sorted (map event_time evs) \<and>
     JObj [(''t'', JNum 0), (''op'', JStr ''add_edge''), (''id'', JNum 3), (''src'', node_name ''I'' 2),
       (''tgt'', node_name ''B'' 1), (''type'', JStr ''pointsTo''), (''offset'', JNum 0)] \<in> set evs"
proof -
  obtain head evs where d: "parse_json (to_graph_hunter extent_graph) = Some (JObj [head, (''events'', JArr evs)])"
    "set evs = item_value extent_graph ` stored_items extent_graph" "sorted (map event_time evs)"
    using hunter_export_sorted [OF extent_graph_containers] by blast
  have "IEdge (PointsTo 3 2 1 0) \<in> stored_items extent_graph"
    using extent_graph_stored [of "PointsTo 3 2 1 0"] by (auto simp: stored_items_def)
  then have "item_value extent_graph (IEdge (PointsTo 3 2 1 0)) \<in> set evs" using d(2) by blast
  then show ?thesis using d(1,3) by (auto simp: item_value_def num_of_def link_value_def)
qed

end
