(* ===== verification/Sotfs_Depth.thy ===== *)
theory Sotfs_Depth
  imports Sotfs_Export Sotfs_Checks
begin

text \<open>
  The snapshot statistics: the search for the depth returns on every graph, cyclic ones included, and on a
  well-formed one it finds the length of the longest path of directories below the root.
\<close>

lemma visit_children:
  "\<exists>new. fold (visit_child g k) es (stack, visited) = (map (\<lambda>c. (c, k + 1)) new @ stack, snd (fold (visit_child g k) es (stack, visited))) \<and>
     set (snd (fold (visit_child g k) es (stack, visited))) = set visited \<union> set new \<and>
     distinct new \<and> set new = children_via g es - set visited"
proof (induction es arbitrary: stack visited)
  case (Cons e es)
  show ?case
  proof (cases "\<exists>c. child_dir_of g e = Some c \<and> c \<notin> set visited")
    case True
    then obtain c where c: "child_dir_of g e = Some c" "c \<notin> set visited" by blast
    obtain new where new: "fold (visit_child g k) es ((c, k + 1) # stack, bset_insert c visited) =
        (map (\<lambda>c. (c, k + 1)) new @ (c, k + 1) # stack,
         snd (fold (visit_child g k) es ((c, k + 1) # stack, bset_insert c visited)))"
        "set (snd (fold (visit_child g k) es ((c, k + 1) # stack, bset_insert c visited))) =
           set (bset_insert c visited) \<union> set new"
        "distinct new" "set new = children_via g es - set (bset_insert c visited)"
      using Cons.IH by blast
    have "visit_child g k e (stack, visited) = ((c, k + 1) # stack, bset_insert c visited)"
      using c by (simp add: visit_child_def)
    then show ?thesis
      using new c by (intro exI [of _ "new @ [c]"]) auto
  next
    case False
    then have "visit_child g k e (stack, visited) = (stack, visited)"
      by (auto simp: visit_child_def split: option.split)
    moreover have "children_via g (e # es) - set visited = children_via g es - set visited"
      using False by (auto split: option.splits)
    ultimately show ?thesis using Cons.IH [of stack visited] by simp
  qed
qed simp

definition all_children :: "type_graph \<Rightarrow> dir_id set" where
  "all_children g = {c. \<exists>e. child_dir_of g e = Some c}"

lemma finite_all_children: "finite (all_children g)"
proof (rule finite_subset)
  show "all_children g \<subseteq> snd ` set (dir_for_inode_idx g)"
  proof
    fix c assume "c \<in> all_children g"
    then obtain e where "child_dir_of g e = Some c" by (auto simp: all_children_def)
    then obtain i where "dir_for_inode g i = Some c"
      by (cases "get_edge g e"; cases "the (get_edge g e)")
        (auto simp: child_dir_of_def split: option.split_asm if_split_asm)
    then have "(i, c) \<in> set (dir_for_inode_idx g)" by (simp add: dir_for_inode_def map_of_SomeD)
    then show "c \<in> snd ` set (dir_for_inode_idx g)" by force
  qed
qed simp

lemma children_via_all: "children_via g es \<subseteq> all_children g"
  by (auto simp: children_via_def all_children_def)

text \<open>The state of the search: the finished directories, and those on the stack with their depth.\<close>

definition search_inv :: "type_graph \<Rightarrow> dir_id \<Rightarrow> (dir_id \<times> nat) list \<Rightarrow> dir_id bset \<Rightarrow> nat \<Rightarrow> dir_id set \<Rightarrow> bool" where
  "search_inv g r stack visited m fin \<longleftrightarrow>
     r \<in> set visited \<and> set visited = fin \<union> fst ` set stack \<and>
     (\<forall>(d, k) \<in> set stack. (r, d) \<in> child_rel g ^^ k) \<and> (\<forall>d \<in> fin. child_rel g `` {d} \<subseteq> set visited) \<and>
     (\<exists>d. (r, d) \<in> child_rel g ^^ m) \<and> (\<forall>d \<in> fin. \<exists>k \<le> m. (r, d) \<in> child_rel g ^^ k)"

lemma depth_loop_search:
  "search_inv g r stack visited m fin \<Longrightarrow> card (all_children g - set visited) + length stack = n \<Longrightarrow>
     \<exists>m' visited' fin'. depth_loop g stack visited m = Some m' \<and> search_inv g r [] visited' m' fin'"
proof (induction n arbitrary: stack visited m fin rule: less_induct)
  case (less n)
  show ?case
  proof (cases stack)
    case Nil
    then show ?thesis using less.prems by (auto simp: depth_loop.simps)
  next
    case (Cons dk rest)
    obtain d k where dk: "dk = (d, k)" by (cases dk)
    let ?es = "mi_get (dir_contains g) d" and ?m = "if k > m then k else m"
    obtain new visited' where new: "fold (visit_child g k) ?es (rest, visited) = (map (\<lambda>c. (c, k + 1)) new @ rest, visited')"
        "set visited' = set visited \<union> set new" "distinct new" "set new = child_rel g `` {d} - set visited"
      using visit_children [of g k ?es rest visited] unfolding children_via_rel by (metis snd_conv)
    have sub: "set new \<subseteq> all_children g" using new(4) children_via_all [of g ?es] by (auto simp: children_via_rel)
    have "all_children g - set visited' = all_children g - set visited - set new" using new(2) by blast
    moreover have "set new \<subseteq> all_children g - set visited" using sub new(4) by blast
    ultimately have "card (all_children g - set visited') + length new = card (all_children g - set visited)"
      using finite_all_children [of g] distinct_card [OF new(3)] card_mono [of "all_children g - set visited" "set new"]
      by (simp add: card_Diff_subset)
    then have less': "card (all_children g - set visited') + length (map (\<lambda>c. (c, k + 1)) new @ rest) < n"
      using less.prems(2) Cons by simp
    have dk': "(r, d) \<in> child_rel g ^^ k" using less.prems(1) Cons dk by (simp add: search_inv_def)
    have "search_inv g r (map (\<lambda>c. (c, k + 1)) new @ rest) visited' ?m (insert d fin)"
      unfolding search_inv_def
    proof (intro conjI)
      have inv: "r \<in> set visited" "set visited = fin \<union> fst ` set ((d, k) # rest)"
        "\<forall>(d, k) \<in> set ((d, k) # rest). (r, d) \<in> child_rel g ^^ k" "\<forall>d \<in> fin. child_rel g `` {d} \<subseteq> set visited"
        "\<exists>d. (r, d) \<in> child_rel g ^^ m" "\<forall>d \<in> fin. \<exists>k \<le> m. (r, d) \<in> child_rel g ^^ k"
        using less.prems(1) unfolding search_inv_def Cons dk by blast+
      show "r \<in> set visited'" using inv(1) new(2) by simp
      show "set visited' = insert d fin \<union> fst ` set (map (\<lambda>c. (c, k + 1)) new @ rest)"
        using inv(2) new(2) by (auto simp: image_image image_Un)
      have "(r, c) \<in> child_rel g ^^ (k + 1)" if "c \<in> set new" for c
        using that new(4) dk' by auto
      then show "\<forall>(d, k) \<in> set (map (\<lambda>c. (c, k + 1)) new @ rest). (r, d) \<in> child_rel g ^^ k" using inv(3) by auto
      show "\<forall>d \<in> insert d fin. child_rel g `` {d} \<subseteq> set visited'" using inv(4) new(2,4) by auto
      show "\<exists>d. (r, d) \<in> child_rel g ^^ ?m" using inv(5) dk' by auto
      show "\<forall>d \<in> insert d fin. \<exists>k \<le> ?m. (r, d) \<in> child_rel g ^^ k"
      proof
        fix x assume "x \<in> insert d fin"
        then obtain l where "l \<le> m \<or> l = k" "(r, x) \<in> child_rel g ^^ l" using inv(6) dk' by blast
        moreover have "m \<le> ?m" "k \<le> ?m" by simp_all
        ultimately show "\<exists>k \<le> ?m. (r, x) \<in> child_rel g ^^ k" using order_trans by blast
      qed
    qed
    then show ?thesis
      using less.IH [OF less' _ refl] by (simp add: depth_loop.simps [of g "(d, k) # rest"] Cons dk new(1))
  qed
qed

lemma estimate_depth_search:
  "\<exists>m visited fin. estimate_depth g = Some m \<and> search_inv g (root_dir g) [] visited m fin"
  unfolding estimate_depth_def
  by (rule depth_loop_search [OF _ refl]) (auto simp: search_inv_def intro: exI [of _ "root_dir g"])

lemma depth_unique:
  assumes ok: "fs_ok f" and "(fs_root f, d) \<in> fs_child f ^^ k" "(fs_root f, d) \<in> fs_child f ^^ l"
  shows "k = l"
  using assms(2,3)
proof (induction k arbitrary: d l)
  case 0
  then show ?case
  proof (cases l)
    case (Suc l')
    then obtain p where "(p, fs_root f) \<in> fs_child f" using 0 by auto
    then show ?thesis using fs_ok_tree(4) [OF ok] by (auto simp: fs_child_def)
  qed simp
next
  case (Suc k)
  obtain p where p: "(fs_root f, p) \<in> fs_child f ^^ k" "(p, d) \<in> fs_child f" using Suc.prems(1) by auto
  show ?case
  proof (cases l)
    case 0
    then have "d = fs_root f" using Suc.prems(2) by simp
    then show ?thesis using p(2) fs_ok_tree(4) [OF ok] by (auto simp: fs_child_def)
  next
    case (Suc l')
    then obtain q where q: "(fs_root f, q) \<in> fs_child f ^^ l'" "(q, d) \<in> fs_child f" using Suc.prems(2) by auto
    have "q = p" using p(2) q(2) fs_ok_tree(2) [OF ok] by (fastforce simp: fs_child_def)
    then show ?thesis using Suc.IH [OF p(1)] q(1) Suc by simp
  qed
qed

text \<open>
  C34: \<open>estimate_depth\<close> returns on every graph, whatever is stored in it.  Its result is the length of a path
  of subdirectories from the root, and every directory below the root is reached by a path that is no longer.
  On a well-formed graph no path at all is longer: the result is the depth of the directory tree.
\<close>

theorem estimate_depth_exact:
  "\<exists>m. estimate_depth g = Some m \<and> (\<exists>d. (root_dir g, d) \<in> subdir g ^^ m) \<and>
     (\<forall>d. (root_dir g, d) \<in> (subdir g)\<^sup>* \<longrightarrow> (\<exists>k \<le> m. (root_dir g, d) \<in> subdir g ^^ k)) \<and>
     (well_formed g \<longrightarrow> (\<forall>k d. (root_dir g, d) \<in> subdir g ^^ k \<longrightarrow> k \<le> m))"
proof -
  let ?r = "root_dir g" and ?R = "subdir g"
  obtain m visited fin where m: "estimate_depth g = Some m" and inv: "search_inv g ?r [] visited m fin"
    using estimate_depth_search by blast
  note inv = inv [unfolded search_inv_def child_rel_subdir]
  have fin: "d \<in> fin" if "(?r, d) \<in> ?R\<^sup>*" for d
    using that by (induction rule: rtrancl_induct) (use inv in auto)
  have near: "\<exists>k \<le> m. (?r, d) \<in> ?R ^^ k" if "(?r, d) \<in> ?R\<^sup>*" for d
    using inv fin [OF that] by blast
  have "k \<le> m" if wf: "well_formed g" and d: "(?r, d) \<in> ?R ^^ k" for d k
  proof -
    have ok: "fs_ok (fs_of g)" and R: "?R = fs_child (fs_of g)" and root: "fs_root (fs_of g) = ?r"
      using wf by (simp_all add: child_rel_view child_rel_subdir [symmetric] well_formed_def)
    obtain l where "l \<le> m" "(?r, d) \<in> ?R ^^ l" using near [OF relpow_imp_rtrancl [OF d]] by blast
    then show ?thesis using depth_unique [OF ok, of d k l] d root R by simp
  qed
  then show ?thesis using m inv near by blast
qed

theorem estimate_depth_exact_witness: "estimate_depth dir_graph = Some 1"
proof -
  have "fs_dir (fs_of root_graph) = [1 \<mapsto> 1]"
    using new_boxed_view [of "\<lambda>_. 0"] by (simp add: root_graph_def del: fs_of_simps)
  then have "fs_dir (fs_of dir_graph) = [1 \<mapsto> 1, 2 \<mapsto> 2]"
    unfolding dir_graph_ok(2) by (simp add: fs_mkdir_def)
  then have "dir_entry (fs_of dir_graph) (p, n) c \<longleftrightarrow> p = 1 \<and> n = ''d'' \<and> c = 2" for p n c
    unfolding dir_entry_def dir_graph_view(1) by (simp add: user_name_def)
  then have "fs_child (fs_of dir_graph) = {(1, 2)}" unfolding fs_child_def by blast
  then have R: "subdir dir_graph = {(1, 2)}"
    by (simp add: child_rel_subdir [symmetric] child_rel_view [OF dir_graph_ok(1)])
  have "fs_root (fs_of dir_graph) = 1"
    using new_boxed_view [of "\<lambda>_. 0"] unfolding dir_graph_ok(2) by (simp add: root_graph_def fs_mkdir_def del: fs_of_simps)
  then have root: "root_dir dir_graph = 1" by simp
  obtain m d where m: "estimate_depth dir_graph = Some m" "(1, d) \<in> {(1 :: nat, 2 :: nat)} ^^ m"
      "\<forall>k d. (1, d) \<in> {(1 :: nat, 2 :: nat)} ^^ k \<longrightarrow> k \<le> m"
    using estimate_depth_exact [of dir_graph] dir_graph_ok(1) unfolding R root by (elim exE conjE) (rule that; blast)
  have "(1, 2) \<in> {(1 :: nat, 2 :: nat)} ^^ 1" by simp
  then have "1 \<le> m" using m(3) by blast
  moreover have "m \<le> 1"
  proof (rule ccontr)
    assume "\<not> m \<le> 1"
    then obtain n where n: "m = Suc (Suc n)" by (metis Suc_le_D not_less_eq_eq One_nat_def)
    have "{(1 :: nat, 2 :: nat)} O {(1, 2 :: nat)} = {}" by auto
    then have "{(1 :: nat, 2 :: nat)} ^^ m = {}" by (simp add: n O_assoc)
    then show False using m(2) by simp
  qed
  ultimately show ?thesis using m(1) by simp
qed

end
