(* ===== verification/Sotfs_Typestate.thy ===== *)
theory Sotfs_Typestate
  imports Sotfs_Prelude
begin

text \<open>
  The typestate handles of \<open>sotfs-experimental/src/lib.rs\<close>, at run time and at compile time.  At run time
  the phantom state of a handle is a constructor, and a method that a handle in this state does not have
  gives \<open>None\<close>.  At compile time only the state in the type of a handle is known: the signatures of the \<open>impl\<close>
  blocks say which programs type-check, both arms of a match on the result of \<open>unlink\<close> included, whatever
  count is passed.  The theorem relates the two.  The public field \<open>id\<close>, which every handle has, is not a call.
\<close>

unbundle bit_operations_syntax

section \<open>Inode handles\<close>

datatype inode_handle = CreatedInode nat | LinkedInode nat | OrphanedInode nat

datatype unlink_result = StillLinked inode_handle | NowOrphaned inode_handle

definition inode_new :: "nat \<Rightarrow> inode_handle" where
  "inode_new i = CreatedInode i"

fun inode_link :: "inode_handle \<Rightarrow> inode_handle option" where
  "inode_link (CreatedInode i) = Some (LinkedInode i)"
| "inode_link _ = None"

fun inode_read :: "inode_handle \<Rightarrow> u64 \<Rightarrow> nat \<Rightarrow> nat option" where
  "inode_read (LinkedInode i) offset len = Some i"
| "inode_read _ offset len = None"

fun inode_write :: "inode_handle \<Rightarrow> u64 \<Rightarrow> u8 list \<Rightarrow> nat option" where
  "inode_write (LinkedInode i) offset bytes = Some i"
| "inode_write _ offset bytes = None"

fun inode_unlink :: "inode_handle \<Rightarrow> u32 \<Rightarrow> unlink_result option" where
  "inode_unlink (LinkedInode i) remaining =
     Some (if remaining = 0 then NowOrphaned (OrphanedInode i) else StillLinked (LinkedInode i))"
| "inode_unlink _ remaining = None"

fun inode_handle_id :: "inode_handle \<Rightarrow> nat option" where
  "inode_handle_id (LinkedInode i) = Some i"
| "inode_handle_id (OrphanedInode i) = Some i"
| "inode_handle_id (CreatedInode i) = None"

fun inode_gc :: "inode_handle \<Rightarrow> unit option" where
  "inode_gc (OrphanedInode i) = Some ()"
| "inode_gc _ = None"

text \<open>The signatures: the state a method is declared for, and the state in the type of its result.\<close>

datatype inode_state = Created | Linked | Orphaned

definition new_type :: inode_state where
  "new_type = Created"

fun link_type :: "inode_state \<Rightarrow> inode_state option" where
  "link_type Created = Some Linked"
| "link_type _ = None"

fun has_access :: "inode_state \<Rightarrow> bool" where
  "has_access Linked = True"
| "has_access _ = False"

fun unlink_type :: "inode_state \<Rightarrow> (inode_state \<times> inode_state) option" where
  "unlink_type Linked = Some (Linked, Orphaned)"
| "unlink_type _ = None"

fun has_id :: "inode_state \<Rightarrow> bool" where
  "has_id Created = False"
| "has_id _ = True"

fun has_gc :: "inode_state \<Rightarrow> bool" where
  "has_gc Orphaned = True"
| "has_gc _ = False"

section \<open>Transaction handles\<close>

datatype tx_handle = TxActive nat | TxCommitted nat | TxAborted nat

definition tx_begin :: "nat \<Rightarrow> tx_handle" where
  "tx_begin i = TxActive i"

fun apply_rule :: "tx_handle \<Rightarrow> string \<Rightarrow> tx_handle option" where
  "apply_rule (TxActive i) rule_name = Some (TxActive i)"
| "apply_rule _ rule_name = None"

fun tx_commit :: "tx_handle \<Rightarrow> tx_handle option" where
  "tx_commit (TxActive i) = Some (TxCommitted i)"
| "tx_commit _ = None"

fun tx_abort :: "tx_handle \<Rightarrow> tx_handle option" where
  "tx_abort (TxActive i) = Some (TxAborted i)"
| "tx_abort _ = None"

section \<open>Directory handles\<close>

datatype dir_handle = DirEmpty nat | DirNonEmpty nat

datatype dir_empty_result = NowEmpty dir_handle | StillNonEmpty dir_handle

definition dir_new :: "nat \<Rightarrow> dir_handle" where
  "dir_new i = DirEmpty i"

fun add_child :: "dir_handle \<Rightarrow> dir_handle option" where
  "add_child (DirEmpty i) = Some (DirNonEmpty i)"
| "add_child (DirNonEmpty i) = None"

fun remove_child :: "dir_handle \<Rightarrow> nat \<Rightarrow> dir_empty_result option" where
  "remove_child (DirNonEmpty i) remaining =
     Some (if remaining = 0 then NowEmpty (DirEmpty i) else StillNonEmpty (DirNonEmpty i))"
| "remove_child (DirEmpty i) remaining = None"

fun handle_rmdir :: "dir_handle \<Rightarrow> unit option" where
  "handle_rmdir (DirEmpty i) = Some ()"
| "handle_rmdir (DirNonEmpty i) = None"

section \<open>Capability handles\<close>

record cap_handle =
  ch_id :: nat
  ch_rights :: u8

definition cap_root :: "nat \<Rightarrow> cap_handle" where
  "cap_root i = \<lparr>ch_id = i, ch_rights = 0x1F\<rparr>"

definition attenuate :: "cap_handle \<Rightarrow> nat \<Rightarrow> u8 \<Rightarrow> cap_handle option" where
  "attenuate c child keep =
     (let restricted = ch_rights c AND keep
      in if restricted AND NOT (ch_rights c) \<noteq> 0 then None
         else Some \<lparr>ch_id = child, ch_rights = restricted\<rparr>)"

definition has_read :: "cap_handle \<Rightarrow> bool" where "has_read c \<longleftrightarrow> ch_rights c AND 0x01 \<noteq> 0"
definition has_write :: "cap_handle \<Rightarrow> bool" where "has_write c \<longleftrightarrow> ch_rights c AND 0x02 \<noteq> 0"
definition has_execute :: "cap_handle \<Rightarrow> bool" where "has_execute c \<longleftrightarrow> ch_rights c AND 0x04 \<noteq> 0"
definition has_grant :: "cap_handle \<Rightarrow> bool" where "has_grant c \<longleftrightarrow> ch_rights c AND 0x08 \<noteq> 0"
definition has_revoke :: "cap_handle \<Rightarrow> bool" where "has_revoke c \<longleftrightarrow> ch_rights c AND 0x10 \<noteq> 0"

section \<open>Programs over a handle\<close>

text \<open>
  A program over one inode handle.  \<open>unlink\<close> is followed by a match with an arm for \<open>StillLinked\<close> and one for
  \<open>Orphaned\<close>; each goes on with the handle it is given.  \<open>gc\<close> consumes the handle: what follows has none.
\<close>

datatype inode_prog =
  DoStop
| DoLink inode_prog
| DoRead u64 nat inode_prog
| DoWrite u64 "u8 list" inode_prog
| DoUnlink inode_prog inode_prog
| DoId inode_prog
| DoGc inode_prog

text \<open>Type checking: it knows the state in the type of the handle, and no value.\<close>

inductive compiles :: "inode_state option \<Rightarrow> inode_prog \<Rightarrow> bool" where
  no_call: "compiles s DoStop"
| link_call: "link_type s = Some s' \<Longrightarrow> compiles (Some s') p \<Longrightarrow> compiles (Some s) (DoLink p)"
| read_call: "has_access s \<Longrightarrow> compiles (Some s) p \<Longrightarrow> compiles (Some s) (DoRead offset len p)"
| write_call: "has_access s \<Longrightarrow> compiles (Some s) p \<Longrightarrow> compiles (Some s) (DoWrite offset bytes p)"
| unlink_call: "unlink_type s = Some (a, b) \<Longrightarrow> compiles (Some a) p \<Longrightarrow> compiles (Some b) q \<Longrightarrow> compiles (Some s) (DoUnlink p q)"
| id_call: "has_id s \<Longrightarrow> compiles (Some s) p \<Longrightarrow> compiles (Some s) (DoId p)"
| gc_call: "has_gc s \<Longrightarrow> compiles None p \<Longrightarrow> compiles (Some s) (DoGc p)"

code_pred compiles .

inductive_simps compiles_simps [simp]:
  "compiles s DoStop" "compiles s (DoLink p)" "compiles s (DoRead offset len p)" "compiles s (DoWrite offset bytes p)"
  "compiles s (DoUnlink p q)" "compiles s (DoId p)" "compiles s (DoGc p)"

text \<open>
  Running a program.  The counts that the calls of \<open>unlink\<close> are given are known at run time only: \<open>ns k\<close> for the
  call number \<open>k\<close>.  The result is the list of the calls made, or \<open>None\<close> when a handle in the wrong state or a
  consumed one is used.
\<close>

datatype inode_call = CallLink | CallRead u64 nat | CallWrite u64 "u8 list" | CallUnlink u32 | CallId | CallGc

fun execute :: "(nat \<Rightarrow> u32) \<Rightarrow> inode_handle option \<Rightarrow> inode_prog \<Rightarrow> inode_call list option" where
  "execute ns h DoStop = Some []"
| "execute ns None p = None"
| "execute ns (Some h) (DoLink p) =
     Option.bind (inode_link h) (\<lambda>h'. map_option ((#) CallLink) (execute ns (Some h') p))"
| "execute ns (Some h) (DoRead offset len p) =
     Option.bind (inode_read h offset len) (\<lambda>_. map_option ((#) (CallRead offset len)) (execute ns (Some h) p))"
| "execute ns (Some h) (DoWrite offset bytes p) =
     Option.bind (inode_write h offset bytes) (\<lambda>_. map_option ((#) (CallWrite offset bytes)) (execute ns (Some h) p))"
| "execute ns (Some h) (DoUnlink p q) =
     Option.bind (inode_unlink h (ns 0)) (\<lambda>r. map_option ((#) (CallUnlink (ns 0)))
       (case r of
          StillLinked h' \<Rightarrow> execute (\<lambda>k. ns (Suc k)) (Some h') p
        | NowOrphaned h' \<Rightarrow> execute (\<lambda>k. ns (Suc k)) (Some h') q))"
| "execute ns (Some h) (DoId p) =
     Option.bind (inode_handle_id h) (\<lambda>_. map_option ((#) CallId) (execute ns (Some h) p))"
| "execute ns (Some h) (DoGc p) =
     Option.bind (inode_gc h) (\<lambda>_. map_option ((#) CallGc) (execute ns None p))"

datatype tx_call = CallRule string | CallCommit | CallAbort

fun call_tx :: "tx_call \<Rightarrow> tx_handle \<Rightarrow> tx_handle option" where
  "call_tx (CallRule r) t = apply_rule t r"
| "call_tx CallCommit t = tx_commit t"
| "call_tx CallAbort t = tx_abort t"

fun tx_run :: "tx_handle \<Rightarrow> tx_call list \<Rightarrow> tx_handle option" where
  "tx_run t [] = Some t"
| "tx_run t (c # cs) = Option.bind (call_tx c t) (\<lambda>t'. tx_run t' cs)"

text \<open>A chain of derivations, each from the last.\<close>

fun cap_chain :: "cap_handle \<Rightarrow> (nat \<times> u8) list \<Rightarrow> cap_handle option" where
  "cap_chain c [] = Some c"
| "cap_chain c ((child, keep) # ms) = Option.bind (attenuate c child keep) (\<lambda>c'. cap_chain c' ms)"

text \<open>Directories, with the number of children the program really added and removed.\<close>

datatype dir_call = CallAdd | CallRemove | CallRmdir

fun emptied :: "dir_empty_result \<Rightarrow> dir_handle" where
  "emptied (NowEmpty h) = h"
| "emptied (StillNonEmpty h) = h"

fun call_dir :: "dir_call \<Rightarrow> dir_handle \<times> nat \<Rightarrow> (dir_handle \<times> nat) option option" where
  "call_dir CallAdd (h, n) = map_option (\<lambda>h. Some (h, n + 1)) (add_child h)"
| "call_dir CallRemove (h, n) = map_option (\<lambda>r. Some (emptied r, n - 1)) (remove_child h (n - 1))"
| "call_dir CallRmdir (h, n) = map_option (\<lambda>_. None) (handle_rmdir h)"

fun dir_run :: "(dir_handle \<times> nat) option \<Rightarrow> dir_call list \<Rightarrow> (dir_handle \<times> nat) option option" where
  "dir_run h [] = Some h"
| "dir_run None (c # cs) = None"
| "dir_run (Some h) (c # cs) = Option.bind (call_dir c h) (\<lambda>h'. dir_run h' cs)"

section \<open>The protocols\<close>

fun while_linked :: "inode_call \<Rightarrow> bool" where
  "while_linked CallLink = False"
| "while_linked CallGc = False"
| "while_linked (CallUnlink remaining) = (remaining \<noteq> 0)"
| "while_linked _ = True"

definition after_unlink :: "inode_call list \<Rightarrow> bool" where
  "after_unlink cs \<longleftrightarrow> set (if cs \<noteq> [] \<and> last cs = CallGc then butlast cs else cs) \<subseteq> {CallId}"

definition while_it_lives :: "inode_call list \<Rightarrow> bool" where
  "while_it_lives cs \<longleftrightarrow>
     (\<exists>uses rest. cs = uses @ rest \<and> (\<forall>c \<in> set uses. while_linked c) \<and>
        (rest = [] \<or> (\<exists>ids. rest = CallUnlink 0 # ids \<and> after_unlink ids)))"

definition inode_protocol :: "inode_call list \<Rightarrow> bool" where
  "inode_protocol cs \<longleftrightarrow> cs = [] \<or> (\<exists>ds. cs = CallLink # ds \<and> while_it_lives ds)"

definition tx_protocol :: "tx_call list \<Rightarrow> bool" where
  "tx_protocol cs \<longleftrightarrow> (\<forall>c \<in> set (butlast cs). c \<noteq> CallCommit \<and> c \<noteq> CallAbort)"

lemma while_it_lives_Cons:
  "while_it_lives (c # cs) \<longleftrightarrow> while_linked c \<and> while_it_lives cs \<or> c = CallUnlink 0 \<and> after_unlink cs"
proof
  assume "while_it_lives (c # cs)"
  then obtain uses rest where u: "c # cs = uses @ rest" "\<forall>c \<in> set uses. while_linked c"
      "rest = [] \<or> (\<exists>ids. rest = CallUnlink 0 # ids \<and> after_unlink ids)"
    unfolding while_it_lives_def by blast
  show "while_linked c \<and> while_it_lives cs \<or> c = CallUnlink 0 \<and> after_unlink cs"
  proof (cases uses)
    case (Cons d ds)
    then have "while_it_lives cs" unfolding while_it_lives_def using u by (intro exI [of _ ds] exI [of _ rest]) auto
    then show ?thesis using u Cons by auto
  qed (use u in auto)
next
  assume "while_linked c \<and> while_it_lives cs \<or> c = CallUnlink 0 \<and> after_unlink cs"
  then show "while_it_lives (c # cs)"
  proof
    assume c: "while_linked c \<and> while_it_lives cs"
    then obtain uses rest where "cs = uses @ rest" "\<forall>c \<in> set uses. while_linked c"
        "rest = [] \<or> (\<exists>ids. rest = CallUnlink 0 # ids \<and> after_unlink ids)"
      unfolding while_it_lives_def by blast
    then show ?thesis unfolding while_it_lives_def using c by (intro exI [of _ "c # uses"] exI [of _ rest]) auto
  next
    assume "c = CallUnlink 0 \<and> after_unlink cs"
    then show ?thesis unfolding while_it_lives_def by (intro exI [of _ "[]"] exI [of _ "c # cs"]) auto
  qed
qed

lemma after_unlink_Cons: "after_unlink (c # cs) \<longleftrightarrow> c = CallId \<and> after_unlink cs \<or> c = CallGc \<and> cs = []"
  by (cases cs) (auto simp: after_unlink_def)

lemma nothing_left [simp]: "after_unlink []" "while_it_lives []"
  by (simp add: after_unlink_def) (auto simp: while_it_lives_def intro: exI [of _ "[]"])

text \<open>What a run from a handle in a state can call.\<close>

fun calls_from :: "inode_handle option \<Rightarrow> inode_call list \<Rightarrow> bool" where
  "calls_from None cs = (cs = [])"
| "calls_from (Some (CreatedInode i)) cs = inode_protocol cs"
| "calls_from (Some (LinkedInode i)) cs = while_it_lives cs"
| "calls_from (Some (OrphanedInode i)) cs = after_unlink cs"

lemma execute_calls: "execute ns h p = Some cs \<Longrightarrow> calls_from h cs"
proof (induction ns h p arbitrary: cs rule: execute.induct)
  case (1 ns h)
  then show ?case by (cases h; cases "the h") (auto simp: inode_protocol_def)
next
  case (3 ns h p)
  then show ?case by (cases h) (force simp: bind_eq_Some_conv inode_protocol_def)+
next
  case (4 ns h offset len p)
  then show ?case by (cases h) (auto simp: bind_eq_Some_conv while_it_lives_Cons)
next
  case (5 ns h offset bytes p)
  then show ?case by (cases h) (auto simp: bind_eq_Some_conv while_it_lives_Cons)
next
  case (6 ns h p q)
  then show ?case by (cases h) (fastforce simp: bind_eq_Some_conv while_it_lives_Cons split: if_splits)+
next
  case (7 ns h p)
  then show ?case by (cases h) (auto simp: bind_eq_Some_conv while_it_lives_Cons after_unlink_Cons)
next
  case (8 ns h p)
  then show ?case by (cases h) (auto simp: bind_eq_Some_conv after_unlink_Cons)
qed simp_all

fun state_of :: "inode_handle \<Rightarrow> inode_state" where
  "state_of (CreatedInode i) = Created"
| "state_of (LinkedInode i) = Linked"
| "state_of (OrphanedInode i) = Orphaned"

text \<open>Type checking is sound, and no program that would always run is rejected.\<close>

lemma all_counts: "(\<forall>ns :: nat \<Rightarrow> u32. P (ns 0) (\<lambda>k. ns (Suc k))) \<longleftrightarrow> (\<forall>n ns. P n ns)"
proof
  show "\<forall>n ns. P n ns" if all: "\<forall>ns. P (ns 0) (\<lambda>k. ns (Suc k))"
  proof (intro allI)
    show "P n ns" for n ns using all [rule_format, of "case_nat n ns"] by simp
  qed
qed blast

lemma compiles_execute: "compiles (map_option state_of h) p \<longleftrightarrow> (\<forall>ns. execute ns h p \<noteq> None)"
proof (induction p arbitrary: h)
  case (DoUnlink p q)
  show ?case
  proof (cases h)
    case (Some x)
    show ?thesis
    proof (cases x)
      case (LinkedInode i)
      let ?L = "Some (LinkedInode i)" and ?O = "Some (OrphanedInode i)"
      have "(\<forall>ns. execute ns ?L (DoUnlink p q) \<noteq> None) \<longleftrightarrow>
          (\<forall>n :: u32. \<forall>ns. if n = 0 then execute ns ?O q \<noteq> None else execute ns ?L p \<noteq> None)"
        by (subst all_counts [symmetric]) simp
      also have "\<dots> \<longleftrightarrow> (\<forall>ns. execute ns ?O q \<noteq> None) \<and> (\<forall>ns. execute ns ?L p \<noteq> None)"
        by (metis one_neq_zero)
      also have "\<dots> \<longleftrightarrow> compiles (Some Orphaned) q \<and> compiles (Some Linked) p"
        using DoUnlink.IH(1) [of ?L] DoUnlink.IH(2) [of ?O] by simp
      finally show ?thesis using Some LinkedInode by auto
    qed (use Some in simp_all)
  qed simp
next
  case (DoLink p)
  show ?case using DoLink.IH [of "Some (LinkedInode i)" for i] by (cases h; cases "the h") auto
next
  case (DoRead offset len p)
  show ?case using DoRead.IH [of h] by (cases h; cases "the h") auto
next
  case (DoWrite offset bytes p)
  show ?case using DoWrite.IH [of h] by (cases h; cases "the h") auto
next
  case (DoId p)
  show ?case using DoId.IH [of h] by (cases h; cases "the h") auto
next
  case (DoGc p)
  show ?case using DoGc.IH [of None] by (cases h; cases "the h") auto
qed simp

lemma ended_run: "tx_run (TxCommitted i) cs \<noteq> None \<longleftrightarrow> cs = []" "tx_run (TxAborted i) cs \<noteq> None \<longleftrightarrow> cs = []"
  by (cases cs; cases "hd cs"; simp)+

lemma active_run: "tx_run (TxActive i) cs \<noteq> None \<longleftrightarrow> tx_protocol cs"
proof (induction cs)
  case (Cons c cs)
  then show ?case using ended_run [of i cs] by (cases c) (auto simp: tx_protocol_def)
qed (simp add: tx_protocol_def)

lemma attenuate_keep: "attenuate c child keep = Some \<lparr>ch_id = child, ch_rights = ch_rights c AND keep\<rparr>"
proof -
  have "(ch_rights c AND keep) AND NOT (ch_rights c) = 0" by (rule bit_eqI) (simp add: bit_simps)
  then show ?thesis by (simp add: attenuate_def Let_def)
qed

lemma chain_rights:
  "\<exists>c'. cap_chain c ms = Some c' \<and> ch_rights c' = fold (\<lambda>m r. r AND m) (map snd ms) (ch_rights c)"
proof (induction ms arbitrary: c)
  case (Cons m ms)
  obtain child keep where m: "m = (child, keep)" by (cases m)
  show ?case using Cons.IH [of "\<lparr>ch_id = child, ch_rights = ch_rights c AND keep\<rparr>"]
    by (simp add: m attenuate_keep)
qed simp

lemma masks_below: "fold (\<lambda>m r. r AND m) ms (r :: u8) AND NOT r = 0"
proof (induction ms arbitrary: r)
  case (Cons m ms)
  let ?f = "fold (\<lambda>m r. r AND m) ms (r AND m)"
  have "?f AND NOT r = 0" if "?f AND NOT (r AND m) = 0"
  proof (rule bit_word_eqI)
    fix k assume "k < LENGTH(8)"
    then show "bit (?f AND NOT r) k = bit 0 k"
      using arg_cong [OF that, of "\<lambda>w. bit w k"] by (auto simp: bit_simps)
  qed
  then show ?case using Cons.IH [of "r AND m"] by simp
qed (simp add: bit.conj_cancel_right)

text \<open>
  With true counts a directory handle never has more than one child: \<open>add_child\<close> is not a method of a
  non-empty handle.
\<close>

fun handle_count :: "dir_handle \<times> nat \<Rightarrow> bool" where
  "handle_count (DirEmpty i, n) = (n = 0)"
| "handle_count (DirNonEmpty i, n) = (n = 1)"

lemma call_dir_count: "handle_count s \<Longrightarrow> call_dir c s = Some (Some s') \<Longrightarrow> handle_count s'"
  by (cases c; cases s rule: handle_count.cases) auto

lemma dir_run_count: "(case s of Some x \<Rightarrow> handle_count x | None \<Rightarrow> True) \<Longrightarrow> dir_run s cs = Some (Some s') \<Longrightarrow> handle_count s'"
proof (induction s cs rule: dir_run.induct)
  case (3 h c cs)
  then obtain h' where "call_dir c h = Some h'" "dir_run h' cs = Some (Some s')" by (auto simp: bind_eq_Some_conv)
  then show ?case using 3 call_dir_count by (cases h') auto
qed simp_all

section \<open>Property\<close>

text \<open>
  C37: what the handle types guarantee.  A program over a fresh inode handle type-checks exactly when it runs
  without using a handle in the wrong state for every choice of the counts passed to \<open>unlink\<close>, and in every
  such run the inode is linked first, read, written and unlinked with links remaining only while linked, and
  after the last unlink only asked for its number and collected once.  Calls on a transaction are possible
  exactly when nothing follows a commit or an abort.  Every chain of derived capabilities exists, and no
  capability in it has a right that one before it lacks.  A directory handle whose removals are given the
  true count never has more than one child.
\<close>

theorem handles_follow_protocol:
  "(compiles (Some new_type) p \<longleftrightarrow> (\<forall>ns. execute ns (Some (inode_new i)) p \<noteq> None)) \<and>
   (\<forall>ns cs. execute ns (Some (inode_new i)) p = Some cs \<longrightarrow> inode_protocol cs) \<and>
   (tx_run (tx_begin t) ts \<noteq> None \<longleftrightarrow> tx_protocol ts) \<and>
   (\<exists>p c. cap_chain (cap_root r) ms = Some p \<and> cap_chain (cap_root r) (ms @ ns) = Some c \<and>
      ch_rights c AND NOT (ch_rights p) = 0) \<and>
   (case dir_run (Some (dir_new d, 0)) ds of Some (Some (_, n)) \<Rightarrow> n \<le> 1 | _ \<Rightarrow> True)"
proof (intro conjI allI impI)
  show "compiles (Some new_type) p \<longleftrightarrow> (\<forall>ns. execute ns (Some (inode_new i)) p \<noteq> None)"
    using compiles_execute [of "Some (inode_new i)" p] by (simp add: inode_new_def new_type_def)
  show "inode_protocol cs" if "execute ns (Some (inode_new i)) p = Some cs" for ns cs
    using execute_calls [OF that] by (simp add: inode_new_def)
  show "tx_run (tx_begin t) ts \<noteq> None \<longleftrightarrow> tx_protocol ts" unfolding tx_begin_def by (rule active_run)
  obtain p where p: "cap_chain (cap_root r) ms = Some p" using chain_rights by blast
  obtain c where c: "cap_chain p ns = Some c" "ch_rights c = fold (\<lambda>m r. r AND m) (map snd ns) (ch_rights p)"
    using chain_rights by blast
  have "cap_chain x (ms @ ns) = Option.bind (cap_chain x ms) (\<lambda>y. cap_chain y ns)" for x
    by (induction ms arbitrary: x) (auto simp: attenuate_keep)
  then show "\<exists>p c. cap_chain (cap_root r) ms = Some p \<and> cap_chain (cap_root r) (ms @ ns) = Some c \<and>
      ch_rights c AND NOT (ch_rights p) = 0"
    using p c masks_below [of "map snd ns" "ch_rights p"] by auto
  show "case dir_run (Some (dir_new d, 0)) ds of Some (Some (_, n)) \<Rightarrow> n \<le> 1 | _ \<Rightarrow> True"
  proof (cases "dir_run (Some (dir_new d, 0)) ds")
    case (Some s)
    then show ?thesis using dir_run_count [of "Some (dir_new d, 0)" ds]
      by (cases s) (auto simp: dir_new_def elim!: handle_count.elims(2))
  qed simp
qed

text \<open>
  Reading in the arm for \<open>StillLinked\<close> type-checks, whatever count is passed; reading in the other does not.
\<close>

theorem handles_follow_protocol_witness:
  "compiles (Some new_type) (DoLink (DoUnlink (DoRead 0 10 DoStop) (DoId (DoGc DoStop)))) \<and>
   (\<exists>ns. execute ns (Some (inode_new 7)) (DoLink (DoUnlink DoStop (DoRead 0 10 DoStop))) = None) \<and>
   inode_protocol [CallLink, CallUnlink 0, CallId, CallGc]"
proof (intro conjI)
  let ?p = "DoLink (DoUnlink (DoRead 0 10 DoStop) (DoId (DoGc DoStop)))"
  note f = handles_follow_protocol [where i = 7 and t = 0 and ts = "[]" and r = 0 and ms = "[]" and ns = "[]" and d = 0 and ds = "[]"]
  show "compiles (Some new_type) ?p" using f [of ?p] by (auto simp: inode_new_def split: unlink_result.split if_splits)
  show "\<exists>ns. execute ns (Some (inode_new 7)) (DoLink (DoUnlink DoStop (DoRead 0 10 DoStop))) = None"
    using f [of "DoLink (DoUnlink DoStop (DoRead 0 10 DoStop))", THEN conjunct1] by (auto simp: new_type_def)
  show "inode_protocol [CallLink, CallUnlink 0, CallId, CallGc]"
    using f [of ?p, THEN conjunct2, THEN conjunct1, rule_format, of "\<lambda>_. 0"] by (simp add: inode_new_def)
qed

end
