(* ===== verification/Sotfs_Curvature.thy ===== *)
theory Sotfs_Curvature
  imports Sotfs_Graph Sotfs_Index
begin

text \<open>
  The curvature monitor, \<open>sotfs-monitor/src/curvature.rs\<close>: the adjacency of the graph, the curvature
  of an edge, the full scan and the incremental one.  The code computes with \<open>f64\<close>; the model takes
  the operations it uses as a parameter, so that a statement for every parameter holds bit for bit
  whatever the rounding.
\<close>

section \<open>Floating-point operations\<close>

text \<open>\<open>f_sum_zero\<close> is the value that \<open>Iterator::sum\<close> starts from.\<close>

record 'f float_ops =
  f_add :: "'f \<Rightarrow> 'f \<Rightarrow> 'f"
  f_sub :: "'f \<Rightarrow> 'f \<Rightarrow> 'f"
  f_mul :: "'f \<Rightarrow> 'f \<Rightarrow> 'f"
  f_div :: "'f \<Rightarrow> 'f \<Rightarrow> 'f"
  f_powi :: "'f \<Rightarrow> nat \<Rightarrow> 'f"
  f_sqrt :: "'f \<Rightarrow> 'f"
  f_abs :: "'f \<Rightarrow> 'f"
  f_min :: "'f \<Rightarrow> 'f \<Rightarrow> 'f"
  f_max :: "'f \<Rightarrow> 'f \<Rightarrow> 'f"
  f_less :: "'f \<Rightarrow> 'f \<Rightarrow> bool"
  f_of_nat :: "nat \<Rightarrow> 'f"
  f_half :: 'f
  f_infinity :: 'f
  f_neg_infinity :: 'f
  f_is_infinite :: "'f \<Rightarrow> bool"
  f_sum_zero :: 'f

definition f_sum :: "'f float_ops \<Rightarrow> 'f list \<Rightarrow> 'f" where
  "f_sum F xs = fold (\<lambda>x acc. f_add F acc x) xs (f_sum_zero F)"

section \<open>Order of the nodes\<close>

text \<open>The derived order of \<open>NodeId\<close>: by variant, then by number.\<close>

fun node_key :: "node_id \<Rightarrow> nat \<times> nat" where
  "node_key (NInode i) = (0, i)"
| "node_key (NDirectory d) = (1, d)"
| "node_key (NCapability c) = (2, c)"
| "node_key (NTransaction t) = (3, t)"
| "node_key (NVersion v) = (4, v)"
| "node_key (NBlock b) = (5, b)"
| "node_key (NXAttr x) = (6, x)"

lemma node_key_inj: "node_key a = node_key b \<Longrightarrow> a = b"
  by (cases a; cases b) auto

instantiation node_id :: linorder
begin

definition less_eq_node_id :: "node_id \<Rightarrow> node_id \<Rightarrow> bool" where
  "less_eq_node_id a b \<longleftrightarrow> node_key a \<le> node_key b"

definition less_node_id :: "node_id \<Rightarrow> node_id \<Rightarrow> bool" where
  "less_node_id a b \<longleftrightarrow> node_key a < node_key b"

instance
  by standard (auto simp: less_eq_node_id_def less_node_id_def dest: node_key_inj)

end

section \<open>Adjacency\<close>

type_synonym adjacency = "(node_id, node_id bset) bmap"

definition add_adjacent :: "edge \<Rightarrow> adjacency \<Rightarrow> adjacency" where
  "add_adjacent e adj =
     (let s = src_node e; t = tgt_node e in mi_add t s (mi_add s t adj))"

definition build_adjacency :: "type_graph \<Rightarrow> adjacency" where
  "build_adjacency g =
     (let nodes = map NInode (ar_keys (inodes g)) @ map NDirectory (ar_keys (dirs g)) @
                  map NCapability (ar_keys (caps g)) @ map NBlock (ar_keys (blocks g));
          adj = fold (\<lambda>n. bmap_entry n [] (\<lambda>s. s)) nodes []
      in fold add_adjacent (ar_values (edges g)) adj)"

section \<open>Curvature of an edge\<close>

definition compute_edge_curvature :: "'f float_ops \<Rightarrow> adjacency \<Rightarrow> node_id \<Rightarrow> node_id \<Rightarrow> 'f \<Rightarrow> 'f" where
  "compute_edge_curvature F adj u v alpha =
     (let nbrs_u = mi_get adj u;
          nbrs_v = mi_get adj v;
          deg_u = length nbrs_u;
          deg_v = length nbrs_v;
          one = f_of_nat F 1;
          zero = f_of_nat F 0
      in if deg_u = 0 \<or> deg_v = 0 then zero
         else
           (let common = length (filter (\<lambda>z. z \<in> set nbrs_v) nbrs_u);
                mu = f_div F one (f_of_nat F deg_u);
                mv = f_div F one (f_of_nat F deg_v);
                u_in_nv = (u \<in> set nbrs_v);
                v_in_nu = (v \<in> set nbrs_u);
                lazy = f_mul F alpha (f_sub F one alpha);
                self_to_nbr = f_add F (if v_in_nu then f_mul F lazy mu else zero)
                  (if u_in_nv then f_mul F lazy mv else zero);
                common_frac = f_div F (f_of_nat F common) (f_of_nat F (max deg_u deg_v));
                walk = f_powi F (f_sub F one alpha) 2
            in f_sub F
                 (f_add F (f_add F (f_mul F common_frac walk) self_to_nbr)
                   (if u_in_nv \<and> v_in_nu then f_mul F alpha alpha else zero))
                 (f_div F
                   (f_mul F walk (f_add F (f_div F one (f_of_nat F deg_u)) (f_div F one (f_of_nat F deg_v))))
                   (f_of_nat F 2))))"

section \<open>Reports\<close>

record 'f edge_curvature =
  ec_edge_id :: edge_id
  ec_src :: node_id
  ec_tgt :: node_id
  ec_kappa :: 'f

record 'f curvature_report =
  cv_edges :: "'f edge_curvature list"
  cv_mean_kappa :: 'f
  cv_min_kappa :: 'f
  cv_max_kappa :: 'f
  cv_anomalies :: "'f edge_curvature list"

definition edge_report :: "arena_id \<Rightarrow> edge \<Rightarrow> 'f \<Rightarrow> 'f edge_curvature" where
  "edge_report aid e kappa = \<lparr>ec_edge_id = aid, ec_src = src_node e, ec_tgt = tgt_node e, ec_kappa = kappa\<rparr>"

definition anomalous :: "'f float_ops \<Rightarrow> 'f \<Rightarrow> 'f \<Rightarrow> 'f edge_curvature list \<Rightarrow> 'f edge_curvature list" where
  "anomalous F mean variance es =
     (let stddev = f_sqrt F variance;
          threshold = f_mul F (f_of_nat F 2) stddev
      in filter (\<lambda>e. f_less F threshold (f_abs F (f_sub F (ec_kappa e) mean)) \<and> f_less F (f_of_nat F 0) threshold) es)"

definition finite_or_zero :: "'f float_ops \<Rightarrow> 'f \<Rightarrow> 'f" where
  "finite_or_zero F x = (if f_is_infinite F x then f_of_nat F 0 else x)"

section \<open>The full scan\<close>

definition mean_of :: "'f float_ops \<Rightarrow> 'f list \<Rightarrow> 'f" where
  "mean_of F ks = (if ks = [] then f_of_nat F 0 else f_div F (f_sum F ks) (f_of_nat F (length ks)))"

definition variance_of :: "'f float_ops \<Rightarrow> 'f list \<Rightarrow> 'f" where
  "variance_of F ks =
     (if length ks > 1
      then f_div F (f_sum F (map (\<lambda>k. f_powi F (f_sub F k (mean_of F ks)) 2) ks)) (f_of_nat F (length ks - 1))
      else f_of_nat F 0)"

definition compute_all_curvatures :: "'f float_ops \<Rightarrow> type_graph \<Rightarrow> 'f \<Rightarrow> 'f curvature_report" where
  "compute_all_curvatures F g alpha =
     (let adj = build_adjacency g;
          es = map (\<lambda>(aid, e). edge_report aid e (compute_edge_curvature F adj (src_node e) (tgt_node e) alpha))
                 (ar_iter (edges g));
          ks = map ec_kappa es;
          mean = mean_of F ks
      in \<lparr>cv_edges = es, cv_mean_kappa = mean,
          cv_min_kappa = finite_or_zero F (fold (\<lambda>k acc. f_min F acc k) ks (f_infinity F)),
          cv_max_kappa = finite_or_zero F (fold (\<lambda>k acc. f_max F acc k) ks (f_neg_infinity F)),
          cv_anomalies = anomalous F mean (variance_of F ks) es\<rparr>)"

definition compute_curvatures :: "'f float_ops \<Rightarrow> type_graph \<Rightarrow> 'f curvature_report" where
  "compute_curvatures F g = compute_all_curvatures F g (f_half F)"

section \<open>The incremental scan\<close>

definition two_hops :: "adjacency \<Rightarrow> node_id list \<Rightarrow> node_id bset" where
  "two_hops adj affected =
     fold (\<lambda>node hood.
       fold (\<lambda>nbr hood. fold bset_insert (mi_get adj nbr) (bset_insert nbr hood)) (mi_get adj node)
         (bset_insert node hood)) affected []"

definition edges_in_2hop_neighborhood :: "type_graph \<Rightarrow> adjacency \<Rightarrow> node_id list \<Rightarrow> edge_id bset" where
  "edges_in_2hop_neighborhood g adj affected =
     (let hood = two_hops adj affected
      in fold (\<lambda>(aid, e) es. if src_node e \<in> set hood \<or> tgt_node e \<in> set hood then bset_insert aid es else es)
           (ar_iter (edges g)) [])"

text \<open>The state of the loop: the new entries and Welford's running statistics.\<close>

record 'f welford =
  wf_edges :: "'f edge_curvature list"
  wf_count :: nat
  wf_mean :: 'f
  wf_m2 :: 'f
  wf_min :: 'f
  wf_max :: 'f

definition welford_push :: "'f float_ops \<Rightarrow> 'f edge_curvature \<Rightarrow> 'f welford \<Rightarrow> 'f welford" where
  "welford_push F ec s =
     (let kappa = ec_kappa ec;
          count = wf_count s + 1;
          delta = f_sub F kappa (wf_mean s);
          mean = f_add F (wf_mean s) (f_div F delta (f_of_nat F count));
          delta2 = f_sub F kappa mean
      in \<lparr>wf_edges = wf_edges s @ [ec], wf_count = count, wf_mean = mean,
          wf_m2 = f_add F (wf_m2 s) (f_mul F delta delta2),
          wf_min = (if f_less F kappa (wf_min s) then kappa else wf_min s),
          wf_max = (if f_less F (wf_max s) kappa then kappa else wf_max s)\<rparr>)"

definition welford_start :: "'f float_ops \<Rightarrow> 'f welford" where
  "welford_start F =
     \<lparr>wf_edges = [], wf_count = 0, wf_mean = f_of_nat F 0, wf_m2 = f_of_nat F 0,
      wf_min = f_infinity F, wf_max = f_neg_infinity F\<rparr>"

definition kappa_of :: "'f float_ops \<Rightarrow> adjacency \<Rightarrow> edge_id bset \<Rightarrow> (edge_id, 'f) bmap \<Rightarrow> 'f \<Rightarrow> arena_id \<Rightarrow> edge \<Rightarrow> 'f"
  where
  "kappa_of F adj dirty prev_kappa alpha aid e =
     (if aid \<in> set dirty then compute_edge_curvature F adj (src_node e) (tgt_node e) alpha
      else (case bmap_get prev_kappa aid of
              Some k \<Rightarrow> k
            | None \<Rightarrow> compute_edge_curvature F adj (src_node e) (tgt_node e) alpha))"

definition previous_kappas :: "'f curvature_report \<Rightarrow> (edge_id, 'f) bmap" where
  "previous_kappas prev = fold (\<lambda>ec. bmap_insert (ec_edge_id ec) (ec_kappa ec)) (cv_edges prev) []"

definition recompute_incremental_with_alpha ::
    "'f float_ops \<Rightarrow> type_graph \<Rightarrow> node_id list \<Rightarrow> 'f curvature_report \<Rightarrow> 'f \<Rightarrow> 'f curvature_report" where
  "recompute_incremental_with_alpha F g affected prev alpha =
     (let adj = build_adjacency g;
          dirty = edges_in_2hop_neighborhood g adj affected;
          prev_kappa = previous_kappas prev;
          s = fold (\<lambda>(aid, e). welford_push F (edge_report aid e (kappa_of F adj dirty prev_kappa alpha aid e)))
                (ar_iter (edges g)) (welford_start F);
          mean = (if wf_count s = 0 then f_of_nat F 0 else wf_mean s);
          variance = (if wf_count s > 1 then f_div F (wf_m2 s) (f_of_nat F (wf_count s - 1)) else f_of_nat F 0)
      in \<lparr>cv_edges = wf_edges s, cv_mean_kappa = mean, cv_min_kappa = finite_or_zero F (wf_min s),
          cv_max_kappa = finite_or_zero F (wf_max s), cv_anomalies = anomalous F mean variance (wf_edges s)\<rparr>)"

definition recompute_incremental ::
    "'f float_ops \<Rightarrow> type_graph \<Rightarrow> node_id list \<Rightarrow> 'f curvature_report \<Rightarrow> 'f curvature_report" where
  "recompute_incremental F g affected prev = recompute_incremental_with_alpha F g affected prev (f_half F)"

end
