(* ===== verification/Sotfs_Incremental.thy ===== *)
theory Sotfs_Incremental
  imports Sotfs_Curvature Sotfs_Affected Sotfs_Links
begin

text \<open>
  The incremental curvature scan against the full one: the entries of the report agree bit for bit
  after the operations that create and link, whatever the arithmetic, and the running statistics agree
  with the two-pass ones in exact arithmetic.
\<close>

section \<open>Adjacency as sets\<close>

definition beside :: "edge \<Rightarrow> node_id \<Rightarrow> node_id set" where
  "beside e x = (if src_node e = x then {tgt_node e} else {}) \<union> (if tgt_node e = x then {src_node e} else {})"

definition neighbours :: "type_graph \<Rightarrow> node_id \<Rightarrow> node_id set" where
  "neighbours g x = (\<Union>e \<in> ran (edge_at g). beside e x)"

lemma add_adjacent_get: "mi_ok adj \<Longrightarrow> set (mi_get (add_adjacent e adj) x) = set (mi_get adj x) \<union> beside e x"
  by (auto simp: add_adjacent_def Let_def mi_get_add beside_def)

lemma add_adjacent_ok: "mi_ok adj \<Longrightarrow> mi_ok (add_adjacent e adj)"
  by (simp add: add_adjacent_def Let_def mi.inv_add)

lemma add_adjacents:
  "mi_ok adj \<Longrightarrow> mi_ok (fold add_adjacent es adj) \<and>
     set (mi_get (fold add_adjacent es adj) x) = set (mi_get adj x) \<union> (\<Union>e \<in> set es. beside e x)"
  by (induction es arbitrary: adj) (auto simp: add_adjacent_ok add_adjacent_get)

lemma empty_entries:
  "mi_ok adj \<and> (\<forall>x. mi_get adj x = []) \<Longrightarrow>
     mi_ok (fold (\<lambda>n. bmap_entry n [] (\<lambda>s. s)) ns adj) \<and>
     (\<forall>x. mi_get (fold (\<lambda>n. bmap_entry n [] (\<lambda>s. s)) ns adj) x = [])"
proof (induction ns arbitrary: adj)
  case (Cons n ns)
  have "mi_get adj n = []" using Cons.prems by blast
  then have "bmap_get adj n = None \<or> bmap_get adj n = Some []"
    by (cases "bmap_get adj n") (auto simp: mi_get_def)
  then have "mi_ok (bmap_entry n [] (\<lambda>s. s) adj) \<and> (\<forall>x. mi_get (bmap_entry n [] (\<lambda>s. s) adj) x = [])"
    using Cons.prems by (auto simp: mi_ok_def mi_get_def bmap_get_entry split: option.splits if_splits)
  then show ?case using Cons.IH by simp
qed simp

lemma adjacency_view:
  assumes "ar_inv (edges g)"
  shows "mi_ok (build_adjacency g)" "set (mi_get (build_adjacency g) x) = neighbours g x"
proof -
  have v: "set (ar_values (edges g)) = ran (edge_at g)"
    using stored_values [OF assms] by (auto simp: ran_def)
  have "mi_ok ([] :: adjacency) \<and> (\<forall>x. mi_get ([] :: adjacency) x = [])" by (simp add: mi_ok_def mi_get_def)
  note e = empty_entries [OF this]
  show "mi_ok (build_adjacency g)"
    unfolding build_adjacency_def Let_def using add_adjacents e by blast
  show "set (mi_get (build_adjacency g) x) = neighbours g x"
    unfolding build_adjacency_def Let_def neighbours_def using add_adjacents [OF conjunct1 [OF e]] e v by (simp del: fold_append)
qed

lemma adjacency_cong:
  assumes "ar_inv (edges g)" "ar_inv (edges g')" "neighbours g x = neighbours g' x"
  shows "mi_get (build_adjacency g) x = mi_get (build_adjacency g') x"
proof -
  have "bset_ok (mi_get m x)" if "mi_ok m" for m :: adjacency
    using that by (auto simp: mi_ok_def mi_get_def split: option.split)
  then show ?thesis
    using adjacency_view [OF assms(1)] adjacency_view [OF assms(2)] assms(3)
    by (metis bset_ok_def strict_sorted_equal)
qed

lemma curvature_cong:
  "mi_get adj u = mi_get adj' u \<Longrightarrow> mi_get adj v = mi_get adj' v \<Longrightarrow>
     compute_edge_curvature F adj u v a = compute_edge_curvature F adj' u v a"
  by (simp add: compute_edge_curvature_def)

section \<open>The nodes within two hops\<close>

lemma set_fold_bset_insert: "set (fold bset_insert xs s) = set xs \<union> set s"
  by (induction xs arbitrary: s) auto

lemma hop_fold:
  "set (fold (\<lambda>nbr hood. fold bset_insert (mi_get adj nbr) (bset_insert nbr hood)) ns s) =
     set s \<union> set ns \<union> (\<Union>n \<in> set ns. set (mi_get adj n))"
  by (induction ns arbitrary: s) (auto simp: set_fold_bset_insert)

lemma set_two_hops:
  "set (two_hops adj affected) =
     (\<Union>x \<in> set affected. insert x (set (mi_get adj x) \<union> (\<Union>n \<in> set (mi_get adj x). set (mi_get adj n))))"
proof -
  have "set (fold (\<lambda>node hood. fold (\<lambda>nbr hood. fold bset_insert (mi_get adj nbr) (bset_insert nbr hood))
            (mi_get adj node) (bset_insert node hood)) xs s) =
     set s \<union> (\<Union>x \<in> set xs. insert x (set (mi_get adj x) \<union> (\<Union>n \<in> set (mi_get adj x). set (mi_get adj n))))" for xs s
    by (induction xs arbitrary: s) (auto simp: hop_fold)
  then show ?thesis by (simp add: two_hops_def)
qed

lemma dirty_edges:
  "set (edges_in_2hop_neighborhood g adj affected) =
     {aid. \<exists>e. (aid, e) \<in> set (ar_iter (edges g)) \<and>
        (src_node e \<in> set (two_hops adj affected) \<or> tgt_node e \<in> set (two_hops adj affected))}"
proof -
  have "set (fold (\<lambda>(aid, e) es. if src_node e \<in> H \<or> tgt_node e \<in> H then bset_insert aid es else es) xs s) =
     set s \<union> {aid. \<exists>e. (aid, e) \<in> set xs \<and> (src_node e \<in> H \<or> tgt_node e \<in> H)}" for H and xs :: "(nat \<times> edge) list" and s
    by (induction xs arbitrary: s) (auto split: if_splits)
  then show ?thesis by (simp add: edges_in_2hop_neighborhood_def Let_def)
qed

section \<open>The entries of the two reports\<close>

lemma welford_edges:
  "wf_edges (fold (\<lambda>(aid, e). welford_push F (edge_report aid e (k aid e))) xs s) =
     wf_edges s @ map (\<lambda>(aid, e). edge_report aid e (k aid e)) xs"
  by (induction xs arbitrary: s) (auto simp: welford_push_def Let_def)

lemma incremental_entries:
  "cv_edges (recompute_incremental_with_alpha F g affected prev a) =
     map (\<lambda>(aid, e). edge_report aid e (kappa_of F (build_adjacency g)
            (edges_in_2hop_neighborhood g (build_adjacency g) affected) (previous_kappas prev) a aid e)) (ar_iter (edges g))"
  by (simp add: recompute_incremental_with_alpha_def Let_def welford_edges welford_start_def)

lemma full_entries:
  "cv_edges (compute_all_curvatures F g a) =
     map (\<lambda>(aid, e). edge_report aid e (compute_edge_curvature F (build_adjacency g) (src_node e) (tgt_node e) a))
       (ar_iter (edges g))"
  by (simp add: compute_all_curvatures_def Let_def)

lemma previous_lookup:
  "distinct (map fst xs) \<Longrightarrow>
     bmap_get (fold (\<lambda>ec. bmap_insert (ec_edge_id ec) (ec_kappa ec)) (map (\<lambda>(aid, e). edge_report aid e (k aid e)) xs) m) i =
     (case map_of xs i of Some e \<Rightarrow> Some (k i e) | None \<Rightarrow> bmap_get m i)"
proof (induction xs arbitrary: m)
  case (Cons x xs)
  have "map_of xs (fst x) = None" using Cons.prems by (simp add: map_of_eq_None_iff)
  then show ?case using Cons by (cases x) (auto simp: edge_report_def split: option.split)
qed simp

lemma previous_kappa:
  assumes "ar_inv (edges g)"
  shows "bmap_get (previous_kappas (compute_all_curvatures F g a)) i =
    map_option (\<lambda>e. compute_edge_curvature F (build_adjacency g) (src_node e) (tgt_node e) a) (edge_at g i)"
proof -
  have d: "distinct (map fst (ar_iter (edges g)))" by (rule ar.distinct_entries [OF assms])
  have "map_of (ar_iter (edges g)) i = edge_at g i"
  proof (cases "edge_at g i")
    case None
    then show ?thesis using ar.entries_get [OF assms] by (force simp: map_of_eq_None_iff)
  next
    case (Some e)
    then show ?thesis using ar.entries_get [OF assms] d by simp
  qed
  then show ?thesis unfolding previous_kappas_def full_entries previous_lookup [OF d] by (auto split: option.split)
qed

text \<open>An edit is covered when every node whose neighbourhood it changes is within two hops of the affected ones.\<close>

definition covered_edit :: "type_graph \<Rightarrow> type_graph \<Rightarrow> node_id list \<Rightarrow> bool" where
  "covered_edit g g' affected \<longleftrightarrow>
     (\<forall>x. neighbours g x \<noteq> neighbours g' x \<longrightarrow> x \<in> set (two_hops (build_adjacency g') affected)) \<and>
     (\<forall>i e e'. edge_at g i = Some e \<longrightarrow> edge_at g' i = Some e' \<longrightarrow> src_node e = src_node e' \<and> tgt_node e = tgt_node e')"

lemma covered_entries:
  assumes inv: "ar_inv (edges g)" "ar_inv (edges g')" and cov: "covered_edit g g' affected"
  shows "cv_edges (recompute_incremental_with_alpha F g' affected (compute_all_curvatures F g a) a) =
    cv_edges (compute_all_curvatures F g' a)"
proof -
  let ?adj = "build_adjacency g" and ?adj' = "build_adjacency g'"
  let ?dirty = "edges_in_2hop_neighborhood g' ?adj' affected"
  have "kappa_of F ?adj' ?dirty (previous_kappas (compute_all_curvatures F g a)) a i e =
      compute_edge_curvature F ?adj' (src_node e) (tgt_node e) a" if ie: "(i, e) \<in> set (ar_iter (edges g'))" for i e
  proof (cases "i \<in> set ?dirty \<or> edge_at g i = None")
    case False
    then obtain e0 where e0: "edge_at g i = Some e0" by auto
    have "edge_at g' i = Some e" using ie ar.entries_get [OF inv(2)] by simp
    then have ends: "src_node e0 = src_node e" "tgt_node e0 = tgt_node e" using cov e0 by (auto simp: covered_edit_def)
    have "x \<notin> set (two_hops ?adj' affected)" if "x = src_node e \<or> x = tgt_node e" for x
      using False ie that by (auto simp: dirty_edges)
    then have "neighbours g x = neighbours g' x" if "x = src_node e \<or> x = tgt_node e" for x
      using cov that unfolding covered_edit_def by blast
    then have "compute_edge_curvature F ?adj (src_node e) (tgt_node e) a =
        compute_edge_curvature F ?adj' (src_node e) (tgt_node e) a"
      by (intro curvature_cong adjacency_cong inv) auto
    then show ?thesis using False e0 ends by (simp add: kappa_of_def previous_kappa [OF inv(1)])
  qed (auto simp: kappa_of_def previous_kappa [OF inv(1)])
  then show ?thesis unfolding incremental_entries full_entries by (auto intro!: map_cong)
qed

section \<open>Edits that add or drop edges between affected nodes\<close>

lemma neighbours_upd: "edge_at g' = (edge_at g)(i \<mapsto> e) \<Longrightarrow> edge_at g i = None \<Longrightarrow>
    neighbours g' x = neighbours g x \<union> beside e x"
  by (auto simp: neighbours_def ran_map_upd)

lemma beside_other: "x \<noteq> src_node e \<Longrightarrow> x \<noteq> tgt_node e \<Longrightarrow> beside e x = {}"
  by (auto simp: beside_def)

lemma neighbours_del: "edge_at g' = (edge_at g)(i := None) \<Longrightarrow> edge_at g i = Some e \<Longrightarrow>
    x \<noteq> src_node e \<Longrightarrow> x \<noteq> tgt_node e \<Longrightarrow> neighbours g' x = neighbours g x"
  unfolding neighbours_def
proof (intro equalityI subsetI)
  fix y assume e: "edge_at g i = Some e" and x: "x \<noteq> src_node e" "x \<noteq> tgt_node e"
    and del: "edge_at g' = (edge_at g)(i := None)"
  show "y \<in> (\<Union>e \<in> ran (edge_at g). beside e x)" if "y \<in> (\<Union>e \<in> ran (edge_at g'). beside e x)"
    using that del by (auto simp: ran_def split: if_splits)
  show "y \<in> (\<Union>e \<in> ran (edge_at g'). beside e x)" if y: "y \<in> (\<Union>e \<in> ran (edge_at g). beside e x)"
  proof -
    obtain j e' where j: "edge_at g j = Some e'" "y \<in> beside e' x" using y by (auto simp: ran_def)
    then have "j \<noteq> i" using e beside_other [OF x] by auto
    then have "edge_at g' j = Some e'" using j del by simp
    then show ?thesis using j(2) by (auto simp: ran_def)
  qed
qed

lemma affected_in_hops: "x \<in> set affected \<Longrightarrow> x \<in> set (two_hops adj affected)"
  by (auto simp: set_two_hops)

lemma next_in_hops: "x \<in> set affected \<Longrightarrow> y \<in> set (mi_get adj x) \<Longrightarrow> y \<in> set (two_hops adj affected)"
  by (auto simp: set_two_hops)

lemma covered_add:
  assumes "edge_at g' = (edge_at g)(i \<mapsto> e)" "edge_at g i = None"
    and "src_node e \<in> set affected" "tgt_node e \<in> set affected"
  shows "covered_edit g g' affected"
  unfolding covered_edit_def
proof (intro conjI allI impI)
  show "x \<in> set (two_hops (build_adjacency g') affected)" if "neighbours g x \<noteq> neighbours g' x" for x
    using that assms neighbours_upd [OF assms(1,2), of x] beside_other [of x e] affected_in_hops by auto
qed (use assms in \<open>auto split: if_splits\<close>)

lemma covered_del:
  assumes "edge_at g' = (edge_at g)(i := None)" "edge_at g i = Some e"
    and "src_node e \<in> set affected" "tgt_node e \<in> set affected"
  shows "covered_edit g g' affected"
  unfolding covered_edit_def
proof (intro conjI allI impI)
  show "x \<in> set (two_hops (build_adjacency g') affected)" if "neighbours g x \<noteq> neighbours g' x" for x
    using that assms neighbours_del [OF assms(1,2), of x] affected_in_hops by auto
qed (use assms in \<open>auto split: if_splits\<close>)

section \<open>Operations are covered edits\<close>

lemma create_covered:
  assumes "well_formed g" "next_edge g < EDGE_CAPACITY" "create_file clk g d n u gi p = (Ok i, g')"
  shows "covered_edit g g' (as_slice (affected_nodes_create d i))"
  by (rule covered_add [where i = "next_edge g" and e = "Contains (next_edge g) d i n"])
    (use assms create_file_edges [OF assms(3)] put_edge_fresh(1) edges_okD(1,2) [OF well_formedD(3)] fresh_edge_slot in
      \<open>simp_all add: affected_slice_sets\<close>)

lemma link_covered:
  assumes "well_formed g" "next_edge g < EDGE_CAPACITY" "link clk g d n t = (Ok (), g')"
  shows "covered_edit g g' (as_slice (affected_nodes_link d t))"
  by (rule covered_add [where i = "next_edge g" and e = "Contains (next_edge g) d t n"])
    (use assms link_edges [OF assms(3)] put_edge_fresh(1) edges_okD(1,2) [OF well_formedD(3)] fresh_edge_slot in
      \<open>simp_all add: affected_slice_sets\<close>)

lemma unlink_covered:
  assumes "well_formed g" "unlink clk g d n = (Ok (), g')" "resolve_name g d n = Some i"
    "mi_get (inode_points_to g) i = []"
  shows "covered_edit g g' (as_slice (affected_nodes_unlink d i))"
proof -
  obtain e where e: "edge_at g e = Some (Contains e d i n)" "edge_at g' = (edge_at g)(e := None)"
    by (rule unlink_edges [OF assms])
  show ?thesis by (rule covered_del [OF e(2,1)]) (simp_all add: affected_slice_sets)
qed

text \<open>
  The inode of the parent directory is not in the set of \<open>mkdir\<close>, but it is next to the new directory,
  by the new \<open>..\<close> entry.
\<close>

lemma mkdir_covered:
  assumes wf: "well_formed g" and cap: "next_edge g + 2 < EDGE_CAPACITY"
    and run: "mkdir clk g d n u gi p = (Ok r, g')" and c: "cr_dir_id r = Some c"
  shows "covered_edit g g' (as_slice (affected_nodes_mkdir d (cr_inode_id r) c))"
proof -
  let ?e = "next_edge g" and ?i = "cr_inode_id r"
  let ?affected = "as_slice (affected_nodes_mkdir d ?i c)"
  let ?hops = "set (two_hops (build_adjacency g') ?affected)"
  obtain j where inv: "ar_inv (edges g')" and at: "edge_at g' = (edge_at g)(?e \<mapsto> Contains ?e d ?i n,
      ?e + 1 \<mapsto> Contains (?e + 1) c ?i ''.'', ?e + 2 \<mapsto> Contains (?e + 2) c j ''..'')"
    by (rule mkdir_edge_at [OF assms])
  have fresh: "edge_at g k = None" if "?e \<le> k" for k using fresh_edge_slot [OF wf that] .
  have "NInode j \<in> neighbours g' (NDirectory c)"
    unfolding neighbours_def
    by (rule UN_I [of "Contains (?e + 2) c j ''..''"], rule ranI [of _ "?e + 2"]) (simp_all add: at beside_def)
  then have "NInode j \<in> ?hops"
    by (intro next_in_hops [of "NDirectory c"]) (simp_all add: affected_slice_sets adjacency_view(2) [OF inv])
  moreover have "set ?affected \<subseteq> ?hops" using affected_in_hops by blast
  ultimately have hops: "{NDirectory d, NInode ?i, NDirectory c, NInode j} \<subseteq> ?hops"
    by (simp add: affected_slice_sets)
  have "neighbours g' x = neighbours g x" if "x \<notin> {NDirectory d, NInode ?i, NDirectory c, NInode j}" for x
    unfolding neighbours_def at using fresh that by (simp add: ran_map_upd beside_other)
  then have near: "\<forall>x. neighbours g x \<noteq> neighbours g' x \<longrightarrow> x \<in> ?hops" using hops by (metis subsetD)
  have same: "e = e'" if e: "edge_at g k = Some e" "edge_at g' k = Some e'" for k e e'
  proof -
    have "k < ?e" using fresh [of k] e(1) by (cases "?e \<le> k") auto
    then have "edge_at g' k = edge_at g k" by (simp add: at)
    then show ?thesis using e by simp
  qed
  show ?thesis unfolding covered_edit_def using near same by blast
qed

section \<open>The incremental report after an operation\<close>

text \<open>What a monitor does with the report of a full scan: rescan the new graph from it and the affected nodes.\<close>

definition rescan :: "'f float_ops \<Rightarrow> 'f \<Rightarrow> type_graph \<Rightarrow> type_graph \<Rightarrow> affected_nodes \<Rightarrow> 'f curvature_report" where
  "rescan F alpha g g' affected =
     recompute_incremental_with_alpha F g' (as_slice affected) (compute_all_curvatures F g alpha) alpha"

lemma rescan_entries:
  "well_formed g \<Longrightarrow> well_formed g' \<Longrightarrow> covered_edit g g' (as_slice affected) \<Longrightarrow>
     cv_edges (rescan F alpha g g' affected) = cv_edges (compute_all_curvatures F g' alpha)"
  unfolding rescan_def by (intro covered_entries edges_okD(1) well_formedD(3))

text \<open>The four operations, with what covers them.\<close>

lemma after_create:
  assumes "well_formed g" "canonical d" "next_inode g < NODE_CAPACITY" "next_edge g < EDGE_CAPACITY"
    and "create_file clk g d n u gi p = (Ok i, g')"
  shows "well_formed g'" "covered_edit g g' (as_slice (affected_nodes_create d i))"
  using create_file_contract [OF assms(1-4), where clk = clk and n = n and u = u and gi = gi and p = p] assms(5)
    create_covered [OF assms(1,4,5)] by simp_all

lemma after_link:
  assumes "well_formed g" "canonical t" "fs_dir (fs_of g) d \<noteq> None" "next_edge g < EDGE_CAPACITY"
    and "link clk g d n t = (Ok (), g')"
  shows "well_formed g'" "covered_edit g g' (as_slice (affected_nodes_link d t))"
  using link_contract [OF assms(1-4), where clk = clk and n = n] assms(5) link_covered [OF assms(1,4,5)] by simp_all

lemma after_mkdir:
  assumes "well_formed g" "canonical d" "next_inode g < NODE_CAPACITY" "next_dir g < NODE_CAPACITY"
    "next_edge g + 2 < EDGE_CAPACITY" and "mkdir clk g d n u gi p = (Ok r, g')" "cr_dir_id r = Some c"
  shows "well_formed g'" "covered_edit g g' (as_slice (affected_nodes_mkdir d (cr_inode_id r) c))"
  using mkdir_contract [OF assms(1-5), where clk = clk and n = n and u = u and gi = gi and p = p] assms(6)
    mkdir_covered [OF assms(1,5,6,7)] by simp_all

lemma after_unlink:
  assumes "well_formed g" "unlink clk g d n = (Ok (), g')" "resolve_name g d n = Some i"
    "mi_get (inode_points_to g) i = []"
  shows "well_formed g'" "covered_edit g g' (as_slice (affected_nodes_unlink d i))"
  using unlink_contract [OF assms(1), where clk = clk and d = d and n = n] assms(2) unlink_covered [OF assms] by simp_all

text \<open>
  C35: after a successful \<open>create_file\<close>, \<open>link\<close>, \<open>mkdir\<close>, or \<open>unlink\<close> of a file without extents, the
  incremental scan started from the full report of the old graph and the affected nodes of the
  operation has exactly the entries of a full scan of the new graph, bit for bit and whatever the
  floating-point arithmetic.  That holds although the set of \<open>mkdir\<close> misses the parent's inode.
\<close>

theorem incremental_entries_exact:
  assumes wf: "well_formed g" and c: "canonical d" "canonical t" and dir: "fs_dir (fs_of g) d \<noteq> None"
    and cap: "next_inode g < NODE_CAPACITY" "next_dir g < NODE_CAPACITY" "next_edge g + 2 < EDGE_CAPACITY"
  shows "(\<forall>i g'. create_file clk g d n u gi p = (Ok i, g') \<longrightarrow>
            cv_edges (rescan F a g g' (affected_nodes_create d i)) = cv_edges (compute_all_curvatures F g' a)) \<and>
         (\<forall>g'. link clk g d n t = (Ok (), g') \<longrightarrow>
            cv_edges (rescan F a g g' (affected_nodes_link d t)) = cv_edges (compute_all_curvatures F g' a)) \<and>
         (\<forall>r k g'. mkdir clk g d n u gi p = (Ok r, g') \<longrightarrow> cr_dir_id r = Some k \<longrightarrow>
            cv_edges (rescan F a g g' (affected_nodes_mkdir d (cr_inode_id r) k)) = cv_edges (compute_all_curvatures F g' a)) \<and>
         (\<forall>i g'. unlink clk g d n = (Ok (), g') \<longrightarrow> resolve_name g d n = Some i \<longrightarrow> mi_get (inode_points_to g) i = [] \<longrightarrow>
            cv_edges (rescan F a g g' (affected_nodes_unlink d i)) = cv_edges (compute_all_curvatures F g' a))"
proof -
  have cap': "next_edge g < EDGE_CAPACITY" using cap(3) by simp
  show ?thesis
    by (intro conjI allI impI rescan_entries [OF wf])
      (erule after_create [OF wf c(1) cap(1) cap'] after_link [OF wf c(2) dir cap'] after_mkdir [OF wf c(1) cap]
        after_unlink [OF wf]; assumption?)+
qed

theorem incremental_entries_exact_witness:
  "\<forall>F a. cv_edges (rescan F a root_graph dir_graph (affected_nodes_mkdir 1 2 2)) =
     cv_edges (compute_all_curvatures F dir_graph a)"
proof (intro allI)
  fix F :: "'f float_ops" and a
  show "cv_edges (rescan F a root_graph dir_graph (affected_nodes_mkdir 1 2 2)) = cv_edges (compute_all_curvatures F dir_graph a)"
    using incremental_entries_exact [OF root_graph_ok small_canonical, where clk = "\<lambda>_. 0" and n = "''d''" and u = 0
        and gi = 0 and p = 493 and F = F and a = a] dir_graph_run
    by (simp add: root_graph_facts room del: fs_of_simps One_nat_def)
qed

end
