(* ===== verification/Sotfs_Statistics.thy ===== *)
theory Sotfs_Statistics
  imports Complex_Main Sotfs_Incremental
begin

text \<open>
  The statistics of a curvature report in exact arithmetic: real numbers with the two infinities and a
  not-a-number, and no rounding.  There the running mean and variance of the incremental scan are
  the two-pass ones of the full scan, so the two reports agree in every field.
\<close>

section \<open>Exact arithmetic\<close>

datatype exact = Fin real | PosInf | NegInf | NotNum

fun e_neg :: "exact \<Rightarrow> exact" where
  "e_neg (Fin x) = Fin (- x)" | "e_neg PosInf = NegInf" | "e_neg NegInf = PosInf" | "e_neg NotNum = NotNum"

fun e_add :: "exact \<Rightarrow> exact \<Rightarrow> exact" where
  "e_add (Fin x) (Fin y) = Fin (x + y)"
| "e_add NotNum _ = NotNum" | "e_add _ NotNum = NotNum"
| "e_add PosInf NegInf = NotNum" | "e_add NegInf PosInf = NotNum"
| "e_add PosInf _ = PosInf" | "e_add _ PosInf = PosInf"
| "e_add NegInf _ = NegInf" | "e_add _ NegInf = NegInf"

text \<open>An infinity with the sign of the argument; products and quotients without a sign are not numbers.\<close>

definition e_signed :: "real \<Rightarrow> exact" where
  "e_signed x = (if x > 0 then PosInf else if x < 0 then NegInf else NotNum)"

fun e_sign :: "exact \<Rightarrow> real" where
  "e_sign (Fin x) = sgn x" | "e_sign PosInf = 1" | "e_sign NegInf = - 1" | "e_sign NotNum = 0"

fun e_mul :: "exact \<Rightarrow> exact \<Rightarrow> exact" where
  "e_mul (Fin x) (Fin y) = Fin (x * y)"
| "e_mul a b = e_signed (e_sign a * e_sign b)"

fun e_div :: "exact \<Rightarrow> exact \<Rightarrow> exact" where
  "e_div (Fin x) (Fin y) = (if y = 0 then e_signed x else Fin (x / y))"
| "e_div (Fin x) PosInf = Fin 0" | "e_div (Fin x) NegInf = Fin 0"
| "e_div PosInf (Fin y) = (if y < 0 then NegInf else PosInf)"
| "e_div NegInf (Fin y) = (if y < 0 then PosInf else NegInf)"
| "e_div _ _ = NotNum"

fun e_powi :: "exact \<Rightarrow> nat \<Rightarrow> exact" where
  "e_powi (Fin x) n = Fin (x ^ n)"
| "e_powi a n = (if n = 0 then Fin 1 else if even n then e_mul a a else a)"

fun e_sqrt :: "exact \<Rightarrow> exact" where
  "e_sqrt (Fin x) = (if x < 0 then NotNum else Fin (sqrt x))"
| "e_sqrt PosInf = PosInf" | "e_sqrt _ = NotNum"

fun e_abs :: "exact \<Rightarrow> exact" where
  "e_abs (Fin x) = Fin \<bar>x\<bar>" | "e_abs NotNum = NotNum" | "e_abs _ = PosInf"

fun e_less :: "exact \<Rightarrow> exact \<Rightarrow> bool" where
  "e_less (Fin x) (Fin y) = (x < y)"
| "e_less (Fin _) PosInf = True" | "e_less NegInf (Fin _) = True" | "e_less NegInf PosInf = True"
| "e_less _ _ = False"

definition e_min :: "exact \<Rightarrow> exact \<Rightarrow> exact" where
  "e_min a b = (if a = NotNum then b else if b = NotNum then a else if e_less b a then b else a)"

definition e_max :: "exact \<Rightarrow> exact \<Rightarrow> exact" where
  "e_max a b = (if a = NotNum then b else if b = NotNum then a else if e_less a b then b else a)"

definition exact_ops :: "exact float_ops" where
  "exact_ops =
     \<lparr>f_add = e_add, f_sub = (\<lambda>a b. e_add a (e_neg b)), f_mul = e_mul, f_div = e_div, f_powi = e_powi,
      f_sqrt = e_sqrt, f_abs = e_abs, f_min = e_min, f_max = e_max, f_less = e_less, f_of_nat = (\<lambda>n. Fin (real n)),
      f_half = Fin (1 / 2), f_infinity = PosInf, f_neg_infinity = NegInf,
      f_is_infinite = (\<lambda>a. a = PosInf \<or> a = NegInf), f_sum_zero = Fin 0\<rparr>"

lemma exact_ops_simps [simp]:
  "f_add exact_ops = e_add" "f_sub exact_ops a b = e_add a (e_neg b)" "f_mul exact_ops = e_mul"
  "f_div exact_ops = e_div" "f_powi exact_ops = e_powi" "f_sqrt exact_ops = e_sqrt" "f_abs exact_ops = e_abs"
  "f_min exact_ops = e_min" "f_max exact_ops = e_max" "f_less exact_ops = e_less"
  "f_of_nat exact_ops n = Fin (real n)" "f_infinity exact_ops = PosInf" "f_neg_infinity exact_ops = NegInf"
  "f_is_infinite exact_ops a \<longleftrightarrow> a = PosInf \<or> a = NegInf" "f_sum_zero exact_ops = Fin 0" "f_half exact_ops = Fin (1 / 2)"
  by (simp_all add: exact_ops_def)

lemma curvature_finite: "\<exists>k. compute_edge_curvature exact_ops adj u v (Fin a) = Fin k"
  by (simp add: compute_edge_curvature_def Let_def)

section \<open>Mean and variance\<close>

definition square_dev :: "real list \<Rightarrow> real" where
  "square_dev xs = (\<Sum>x\<leftarrow>xs. x\<^sup>2) - (sum_list xs)\<^sup>2 / length xs"

lemma sum_exact: "f_sum exact_ops (map Fin xs) = Fin (sum_list xs)"
proof -
  have "fold (\<lambda>x acc. e_add acc x) (map Fin xs) (Fin s) = Fin (s + sum_list xs)" for s
    by (induction xs arbitrary: s) simp_all
  then show ?thesis by (simp add: f_sum_def)
qed

lemma mean_exact: "mean_of exact_ops (map Fin xs) = Fin (sum_list xs / length xs)"
  by (simp add: mean_of_def sum_exact)

lemma deviations:
  assumes "xs \<noteq> []"
  shows "(\<Sum>x\<leftarrow>xs. (x - sum_list xs / length xs)\<^sup>2) = square_dev xs"
proof -
  have "(\<Sum>x\<leftarrow>xs. (x - m)\<^sup>2) = (\<Sum>x\<leftarrow>xs. x\<^sup>2) - 2 * m * sum_list xs + length xs * m\<^sup>2" for m :: real
    by (induction xs) (simp_all add: power2_diff algebra_simps)
  from this [of "sum_list xs / length xs"] show ?thesis
    using assms by (simp add: square_dev_def power2_eq_square field_simps)
qed

lemma variance_exact:
  "variance_of exact_ops (map Fin xs) = Fin (if length xs > 1 then square_dev xs / (length xs - 1) else 0)"
proof (cases "length xs > 1")
  case True
  then have ne: "xs \<noteq> []" by auto
  have "map (\<lambda>k. f_powi exact_ops (f_sub exact_ops k (mean_of exact_ops (map Fin xs))) 2) (map Fin xs) =
      map Fin (map (\<lambda>x. (x - sum_list xs / length xs)\<^sup>2) xs)"
    by (simp add: mean_exact)
  then have "f_sum exact_ops (map (\<lambda>k. f_powi exact_ops (f_sub exact_ops k (mean_of exact_ops (map Fin xs))) 2) (map Fin xs)) =
      Fin (square_dev xs)"
    unfolding sum_exact deviations [OF ne] by (simp only: sum_exact deviations [OF ne])
  then show ?thesis using True unfolding variance_of_def by simp
next
  case False
  then show ?thesis by (simp add: variance_of_def)
qed

section \<open>The running statistics\<close>

text \<open>Welford's step keeps the mean and the sum of squared deviations of what was pushed so far.\<close>

lemma square_dev_snoc:
  fixes x :: real
  defines "m \<equiv> \<lambda>xs. sum_list xs / length xs"
  shows "m xs + (x - m xs) / (length xs + 1) = m (xs @ [x])"
    and "square_dev xs + (x - m xs) * (x - m (xs @ [x])) = square_dev (xs @ [x])"
proof -
  define n S Q where "n = real (length xs)" and "S = sum_list xs" and "Q = (\<Sum>x\<leftarrow>xs. x\<^sup>2)"
  have m: "m xs = S / n" "m (xs @ [x]) = (S + x) / (n + 1)" by (simp_all add: m_def S_def n_def add.commute)
  have d: "square_dev xs = Q - S\<^sup>2 / n" "square_dev (xs @ [x]) = Q + x\<^sup>2 - (S + x)\<^sup>2 / (n + 1)"
    by (simp_all add: square_dev_def S_def n_def Q_def add.commute)
  consider "xs = []" | "n > 0" by (auto simp: n_def)
  then have "S / n + (x - S / n) / (n + 1) = (S + x) / (n + 1) \<and>
      Q - S\<^sup>2 / n + (x - S / n) * (x - (S + x) / (n + 1)) = Q + x\<^sup>2 - (S + x)\<^sup>2 / (n + 1)"
  proof cases
    case 1
    then show ?thesis by (simp add: n_def S_def Q_def power2_eq_square)
  next
    case 2
    then have "n \<noteq> 0" "n + 1 \<noteq> 0" by simp_all
    then show ?thesis by (simp add: divide_simps power2_eq_square) (simp add: algebra_simps)
  qed
  then show "m xs + (x - m xs) / (length xs + 1) = m (xs @ [x])"
    and "square_dev xs + (x - m xs) * (x - m (xs @ [x])) = square_dev (xs @ [x])"
    unfolding m d by (simp_all add: n_def add.commute)
qed

lemma extremes_number:
  "acc \<noteq> NotNum \<Longrightarrow> fold (\<lambda>k acc. e_min acc k) (map Fin xs) acc \<noteq> NotNum"
  "acc \<noteq> NotNum \<Longrightarrow> fold (\<lambda>k acc. e_max acc k) (map Fin xs) acc \<noteq> NotNum"
  by (induction xs arbitrary: acc) (simp_all add: e_min_def e_max_def)

lemma welford_state:
  "map ec_kappa es = map Fin xs \<Longrightarrow> fold (welford_push exact_ops) es (welford_start exact_ops) =
     \<lparr>wf_edges = es, wf_count = length xs, wf_mean = Fin (sum_list xs / length xs), wf_m2 = Fin (square_dev xs),
      wf_min = fold (\<lambda>k acc. e_min acc k) (map Fin xs) PosInf, wf_max = fold (\<lambda>k acc. e_max acc k) (map Fin xs) NegInf\<rparr>"
proof (induction es arbitrary: xs rule: rev_induct)
  case Nil
  then show ?case by (simp add: welford_start_def square_dev_def)
next
  case (snoc ec es)
  obtain x ys where xs: "xs = ys @ [x]" "map ec_kappa es = map Fin ys" "ec_kappa ec = Fin x"
    using snoc.prems by (cases xs rule: rev_cases) auto
  note num = extremes_number(1) [of PosInf ys] extremes_number(2) [of NegInf ys]
  show ?case
    using snoc.IH [OF xs(2)] square_dev_snoc [of ys x] num
    by (simp add: xs welford_push_def Let_def e_min_def e_max_def add.commute)
qed

lemma reports_agree:
  assumes entries: "cv_edges (recompute_incremental_with_alpha exact_ops g affected prev (Fin a)) =
    cv_edges (compute_all_curvatures exact_ops g (Fin a))"
  shows "recompute_incremental_with_alpha exact_ops g affected prev (Fin a) = compute_all_curvatures exact_ops g (Fin a)"
proof -
  let ?es = "cv_edges (compute_all_curvatures exact_ops g (Fin a))"
  let ?k = "kappa_of exact_ops (build_adjacency g) (edges_in_2hop_neighborhood g (build_adjacency g) affected)
    (previous_kappas prev) (Fin a)"
  have "\<forall>k \<in> set (map ec_kappa ?es). \<exists>x. k = Fin x"
    using curvature_finite by (auto simp: full_entries edge_report_def)
  then obtain xs where xs: "map ec_kappa ?es = map Fin xs" by (metis ex_map_conv)
  have es: "map (\<lambda>(aid, e). edge_report aid e (?k aid e)) (ar_iter (edges g)) = ?es"
    using entries unfolding incremental_entries .
  have "fold (\<lambda>(aid, e). welford_push exact_ops (edge_report aid e (?k aid e))) (ar_iter (edges g)) (welford_start exact_ops) =
      fold (welford_push exact_ops) (map (\<lambda>(aid, e). edge_report aid e (?k aid e)) (ar_iter (edges g))) (welford_start exact_ops)"
    by (simp add: fold_map o_def case_prod_unfold)
  note state = this [unfolded es welford_state [OF xs]]
  have "recompute_incremental_with_alpha exact_ops g affected prev (Fin a) =
      \<lparr>cv_edges = ?es, cv_mean_kappa = mean_of exact_ops (map ec_kappa ?es),
       cv_min_kappa = finite_or_zero exact_ops (fold (\<lambda>k acc. e_min acc k) (map ec_kappa ?es) PosInf),
       cv_max_kappa = finite_or_zero exact_ops (fold (\<lambda>k acc. e_max acc k) (map ec_kappa ?es) NegInf),
       cv_anomalies = anomalous exact_ops (mean_of exact_ops (map ec_kappa ?es))
         (variance_of exact_ops (map ec_kappa ?es)) ?es\<rparr>"
    unfolding recompute_incremental_with_alpha_def Let_def state xs mean_exact variance_exact
    by (auto simp: of_nat_diff)
  also have "\<dots> = compute_all_curvatures exact_ops g (Fin a)"
    unfolding compute_all_curvatures_def Let_def by simp
  finally show ?thesis .
qed

section \<open>The whole report\<close>

lemma rescan_report:
  "well_formed g \<Longrightarrow> well_formed g' \<Longrightarrow> covered_edit g g' (as_slice affected) \<Longrightarrow>
     rescan exact_ops (Fin a) g g' affected = compute_all_curvatures exact_ops g' (Fin a)"
  using rescan_entries [of g g' affected exact_ops "Fin a"] reports_agree unfolding rescan_def by blast

text \<open>
  C36: in exact arithmetic the incremental report after a \<open>create_file\<close>, \<open>link\<close>, \<open>mkdir\<close>, or
  \<open>unlink\<close> of a file without extents is the report of a full scan in every field: Welford's running mean and
  variance are the two-pass ones, the extremes are those of the scan, and the same edges are anomalous.
\<close>

theorem incremental_report_exact:
  assumes wf: "well_formed g" and c: "canonical d" "canonical t" and dir: "fs_dir (fs_of g) d \<noteq> None"
    and cap: "next_inode g < NODE_CAPACITY" "next_dir g < NODE_CAPACITY" "next_edge g + 2 < EDGE_CAPACITY"
  shows "(\<forall>i g'. create_file clk g d n u gi p = (Ok i, g') \<longrightarrow>
            rescan exact_ops (Fin a) g g' (affected_nodes_create d i) = compute_all_curvatures exact_ops g' (Fin a)) \<and>
         (\<forall>g'. link clk g d n t = (Ok (), g') \<longrightarrow>
            rescan exact_ops (Fin a) g g' (affected_nodes_link d t) = compute_all_curvatures exact_ops g' (Fin a)) \<and>
         (\<forall>r k g'. mkdir clk g d n u gi p = (Ok r, g') \<longrightarrow> cr_dir_id r = Some k \<longrightarrow>
            rescan exact_ops (Fin a) g g' (affected_nodes_mkdir d (cr_inode_id r) k) = compute_all_curvatures exact_ops g' (Fin a)) \<and>
         (\<forall>i g'. unlink clk g d n = (Ok (), g') \<longrightarrow> resolve_name g d n = Some i \<longrightarrow> mi_get (inode_points_to g) i = [] \<longrightarrow>
            rescan exact_ops (Fin a) g g' (affected_nodes_unlink d i) = compute_all_curvatures exact_ops g' (Fin a))"
proof -
  have cap': "next_edge g < EDGE_CAPACITY" using cap(3) by simp
  show ?thesis
    by (intro conjI allI impI rescan_report [OF wf])
      (erule after_create [OF wf c(1) cap(1) cap'] after_link [OF wf c(2) dir cap'] after_mkdir [OF wf c(1) cap]
        after_unlink [OF wf]; assumption?)+
qed

theorem incremental_report_exact_witness:
  "rescan exact_ops (Fin (1 / 2)) root_graph file_graph (affected_nodes_create 1 2) = compute_all_curvatures exact_ops file_graph (Fin (1 / 2))"
  using incremental_report_exact [OF root_graph_ok small_canonical, where clk = "\<lambda>_. 0" and n = "''a''" and u = 0
      and gi = 0 and p = 420 and a = "1 / 2"] file_graph_run
  by (simp add: root_graph_facts room del: fs_of_simps One_nat_def)

end
