(* ===== verification/Sotfs_Calibration.thy ===== *)
theory Sotfs_Calibration
  imports Sotfs_Deception Sotfs_Statistics
begin

text \<open>
  The estimates of \<open>sotfs-monitor/src/deception.rs\<close>: how well a view hides that it is a projection, and the
  timing calibration.  The floating-point operations are a parameter, as in the curvature monitor; the
  property is about exact arithmetic.
\<close>

section \<open>The estimates\<close>

text \<open>\<open>f_lit n k\<close> is the decimal literal \<open>n\<close> over ten to the \<open>k\<close>; \<open>f_to_u64\<close> is the cast \<open>as u64\<close>.\<close>

record 'f float_casts =
  f_lit :: "nat \<Rightarrow> nat \<Rightarrow> 'f"
  f_to_u64 :: "'f \<Rightarrow> u64"

definition f_clamp :: "'f float_ops \<Rightarrow> 'f \<Rightarrow> 'f \<Rightarrow> 'f \<Rightarrow> 'f" where
  "f_clamp F x lo hi = (if f_less F x lo then lo else if f_less F hi x then hi else x)"

text \<open>A quotient of two counts, one when there is nothing to compare with.\<close>

definition ratio :: "'f float_ops \<Rightarrow> nat \<Rightarrow> nat \<Rightarrow> 'f" where
  "ratio F part whole = (if whole > 0 then f_div F (f_of_nat F part) (f_of_nat F whole) else f_of_nat F 1)"

record 'f indistinguishability_result =
  ind_queries :: nat
  ind_invariants_preserved :: bool
  ind_max_curvature_deviation :: 'f
  ind_timing_ratio :: 'f
  ind_estimated_advantage :: 'f

definition visible_edges :: "projected_view \<Rightarrow> nat" where
  "visible_edges view = sum_list (map (\<lambda>(_, es). length es) (visible_entries view))"

definition check_indistinguishability ::
    "'f float_ops \<Rightarrow> 'f float_casts \<Rightarrow> type_graph \<Rightarrow> projected_view \<Rightarrow> 'f \<Rightarrow> 'f indistinguishability_result" where
  "check_indistinguishability F L g view threshold =
     (let invariants_preserved = check_projected_invariants view;
          edge_ratio = (if f_less F (f_of_nat F 0) (f_of_nat F (ar_len (edges g)))
                        then f_div F (f_of_nat F (visible_edges view)) (f_of_nat F (ar_len (edges g)))
                        else f_of_nat F 1);
          synthetic_count = f_of_nat F (length (fabricated_data view));
          max_curvature_deviation =
            f_add F (f_abs F (f_sub F (f_of_nat F 1) edge_ratio)) (f_mul F synthetic_count (f_lit L 1 2));
          size_ratio = (if \<not> ar_is_empty (inodes g)
                        then f_div F (f_of_nat F (length (visible_inodes view))) (f_of_nat F (ar_len (inodes g)))
                        else f_of_nat F 1);
          timing_ratio = f_clamp F size_ratio (f_half F) (f_of_nat F 2);
          advantage = f_of_nat F 0;
          advantage = (if \<not> invariants_preserved then f_add F advantage (f_half F) else advantage);
          advantage = (if f_less F threshold max_curvature_deviation then f_add F advantage (f_lit L 2 1) else advantage);
          advantage = (if f_less F (f_lit L 3 1) (f_abs F (f_sub F timing_ratio (f_of_nat F 1)))
                       then f_add F advantage (f_lit L 1 1) else advantage);
          advantage = f_min F advantage (f_of_nat F 1)
      in \<lparr>ind_queries = length (visible_inodes view) + length (visible_entries view),
          ind_invariants_preserved = invariants_preserved,
          ind_max_curvature_deviation = max_curvature_deviation,
          ind_timing_ratio = timing_ratio, ind_estimated_advantage = advantage\<rparr>)"

record 'f timing_calibration =
  tc_lookup_ratio :: 'f
  tc_readdir_ratio :: 'f
  tc_stat_ratio :: 'f
  tc_needs_delay_injection :: bool
  tc_recommended_delay_ns :: u64

definition calibrate_timing ::
    "'f float_ops \<Rightarrow> 'f float_casts \<Rightarrow> nat \<Rightarrow> nat \<Rightarrow> nat \<Rightarrow> nat \<Rightarrow> 'f timing_calibration" where
  "calibrate_timing F L real_nodes projected_nodes real_edges projected_edges =
     (let lookup_ratio = ratio F projected_nodes real_nodes;
          readdir_ratio = ratio F projected_edges real_edges;
          one = f_of_nat F 1;
          max_deviation = f_max F (f_abs F (f_sub F lookup_ratio one)) (f_abs F (f_sub F readdir_ratio one));
          needs_delay = f_less F (f_lit L 1 1) max_deviation
      in \<lparr>tc_lookup_ratio = lookup_ratio, tc_readdir_ratio = readdir_ratio, tc_stat_ratio = one,
          tc_needs_delay_injection = needs_delay,
          tc_recommended_delay_ns = (if needs_delay then f_to_u64 L (f_mul F max_deviation (f_of_nat F 1000)) else 0)\<rparr>)"

section \<open>Exact arithmetic\<close>

text \<open>A cast to an unsigned integer truncates and saturates, and takes a non-number to zero.\<close>

fun e_to_u64 :: "exact \<Rightarrow> u64" where
  "e_to_u64 (Fin x) = (if x < 0 then 0 else if x \<ge> 2 ^ 64 then - 1 else word_of_int \<lfloor>x\<rfloor>)"
| "e_to_u64 PosInf = - 1" | "e_to_u64 NegInf = 0" | "e_to_u64 NotNum = 0"

definition exact_casts :: "exact float_casts" where
  "exact_casts = \<lparr>f_lit = (\<lambda>n k. Fin (real n / 10 ^ k)), f_to_u64 = e_to_u64\<rparr>"

lemma exact_casts_simps [simp]: "f_lit exact_casts n k = Fin (real n / 10 ^ k)" "f_to_u64 exact_casts = e_to_u64"
  by (simp_all add: exact_casts_def)

section \<open>Counting the edges of a view\<close>

definition name_count :: "type_graph \<Rightarrow> nat" where
  "name_count g = card {e. \<exists>d t n. edge_at g e = Some (Contains e d t n)}"

lemma list_entries_length:
  "\<forall>e \<in> set es. \<exists>i d t n. get_edge g e = Some (Contains i d t n) \<Longrightarrow> length (list_entries g es) = length es"
  by (induction es) auto

lemma sum_list_card:
  "distinct (map fst m) \<Longrightarrow> \<forall>(d, es) \<in> set m. distinct es \<and> (\<forall>e \<in> set es. f e = Some d) \<Longrightarrow>
     sum_list (map (\<lambda>(d, es). length es) m) = card (\<Union>(d, es) \<in> set m. set es)"
proof (induction m)
  case (Cons x m)
  obtain d es where x: "x = (d, es)" by (cases x)
  let ?U = "\<Union>(d, es) \<in> set m. set es"
  have "set es \<inter> ?U = {}" using Cons.prems unfolding x by (force simp: disjoint_iff)
  moreover have "finite ?U" by auto
  ultimately show ?case
    using Cons card_Un_disjoint [of "set es" ?U] by (simp add: x distinct_card)
qed simp

lemma passthrough_entries:
  assumes wf: "well_formed g"
  shows "visible_entries (project_passthrough g) = map (\<lambda>(d, eids). (d, list_entries g eids)) (dir_contains g)"
    (is "_ = ?v")
proof -
  have "bmap_ok (dir_contains g)" using edges_okD(3) [OF well_formedD(3) [OF wf]] by (simp add: mi_ok_def)
  moreover have "map fst ?v = map fst (dir_contains g)" by (simp add: split_def comp_def)
  ultimately have "bmap_collect ?v = ?v" by (intro collect_ordered) (simp only: bmap_ok_def)
  then show ?thesis by (simp add: project_passthrough_def)
qed

lemma passthrough_edges:
  assumes wf: "well_formed g"
  shows "visible_edges (project_passthrough g) = name_count g"
proof -
  note ok = well_formedD(3) [OF wf]
  let ?m = "dir_contains g"
  have mi: "mi_ok ?m" and b: "bmap_ok ?m" using edges_okD(3) [OF ok] by (simp_all add: mi_ok_def)
  have entry: "e \<in> set es \<Longrightarrow> \<exists>t n. edge_at g e = Some (Contains e d t n)" if "(d, es) \<in> set ?m" for d es e
    using that dir_edges_iff [OF ok, of e d] bmap_in_set_iff [OF b, of d es] by (simp add: mi_get_def)
  have "length (list_entries g es) = length es" if "(d, es) \<in> set ?m" for d es
    using entry [OF that] get_edge_at [OF ok] by (intro list_entries_length) blast
  then have same: "map (\<lambda>(d, es). length (list_entries g es)) ?m = map (\<lambda>(d, es). length es) ?m"
    by (intro map_cong) auto
  have "visible_edges (project_passthrough g) = sum_list (map (\<lambda>(d, es). length (list_entries g es)) ?m)"
    unfolding visible_edges_def passthrough_entries [OF wf] by (simp add: comp_def split_def)
  also have "\<dots> = card (\<Union>(d, es) \<in> set ?m. set es)"
    unfolding same
  proof (rule sum_list_card)
    show "distinct (map fst ?m)" by (rule bmap_ok_distinct [OF b])
    show "\<forall>(d, es) \<in> set ?m. distinct es \<and> (\<forall>e \<in> set es. proj contains_src (edge_at g) e = Some d)"
    proof (intro ballI, clarify)
      fix d es assume m: "(d, es) \<in> set ?m"
      then have "bset_ok es" using mi bmap_in_set_iff [OF b, of d es] by (simp add: mi_ok_def)
      moreover have "proj contains_src (edge_at g) e = Some d" if "e \<in> set es" for e
        using entry [OF m that] by (auto simp: proj_eq_Some contains_src_iff)
      ultimately show "distinct es \<and> (\<forall>e \<in> set es. proj contains_src (edge_at g) e = Some d)"
        using bset_ok_distinct by blast
    qed
  qed
  also have "(\<Union>(d, es) \<in> set ?m. set es) = {e. \<exists>d t n. edge_at g e = Some (Contains e d t n)}"
  proof (intro equalityI subsetI)
    fix e assume "e \<in> {e. \<exists>d t n. edge_at g e = Some (Contains e d t n)}"
    then obtain d where "e \<in> set (mi_get ?m d)" using dir_edges_iff [OF ok, of e] by blast
    then obtain es where "bmap_get ?m d = Some es" "e \<in> set es"
      by (cases "bmap_get ?m d") (simp_all add: mi_get_def)
    then show "e \<in> (\<Union>(d, es) \<in> set ?m. set es)" using map_of_SomeD by fastforce
  qed (use entry in blast)
  finally show ?thesis by (simp add: name_count_def)
qed

lemma passthrough_inodes:
  assumes wf: "well_formed g"
  shows "length (visible_inodes (project_passthrough g)) = ar_len (inodes g)" "fabricated_data (project_passthrough g) = []"
proof -
  have inv: "ar_inv (inodes g)" using well_formedD(5) [OF wf] by (simp add: inodes_ok_def)
  have "bmap_ok (ar_iter (inodes g))" using ar.entries_sorted [OF inv] by (simp add: bmap_ok_def)
  moreover have occ: "{i. \<exists>v. inode_at g i = Some v} = {i. ar_state (inodes g) i = Occupied}"
    using inv by (auto simp: ar_get_inv ar_inv_def)
  ultimately have "visible_inodes (project_passthrough g) = ar_iter (inodes g)"
    by (simp add: project_passthrough_def collect_ordered)
  then show "length (visible_inodes (project_passthrough g)) = ar_len (inodes g)"
    using ar.count_entries [OF inv, of "\<lambda>_ _. True"] ar_inv_len [OF inv] occ by simp
  show "fabricated_data (project_passthrough g) = []" by (simp add: project_passthrough_def)
qed

section \<open>Property\<close>

text \<open>The share of the edges that are not names.\<close>

definition other_share :: "type_graph \<Rightarrow> real" where
  "other_share g = (if ar_len (edges g) = 0 then 0 else \<bar>1 - real (name_count g) / real (ar_len (edges g))\<bar>)"

text \<open>
  How the check judges the passthrough view of a well-formed graph, in exact arithmetic: the invariants hold
  and the timing ratio is one, but the curvature deviation is the share of the edges that are not names, so the
  estimated advantage is zero only while that share is within the threshold, and a fifth otherwise, although the
  view is the graph itself.
\<close>

theorem passthrough_advantage:
  assumes wf: "well_formed g"
  shows "check_indistinguishability exact_ops exact_casts g (project g Passthrough) (Fin t) =
    \<lparr>ind_queries = ar_len (inodes g) + length (dir_contains g), ind_invariants_preserved = True,
     ind_max_curvature_deviation = Fin (other_share g), ind_timing_ratio = Fin 1,
     ind_estimated_advantage = Fin (if other_share g > t then 1 / 5 else 0)\<rparr>"
proof -
  have "check_projected_invariants (project_passthrough g)"
    using fabricated_view [OF wf, of "[]" 0 "[]"] unfolding project.simps by (metis list.simps(8) distinct.simps(1) empty_iff list.set(1))
  moreover have "length (visible_entries (project_passthrough g)) = length (dir_contains g)"
    by (simp add: passthrough_entries [OF wf])
  ultimately show ?thesis
    by (simp add: check_indistinguishability_def Let_def passthrough_edges [OF wf] passthrough_inodes [OF wf]
        f_clamp_def ar_is_empty_def other_share_def e_min_def)
qed

theorem passthrough_advantage_witness:
  "ind_estimated_advantage (check_indistinguishability exact_ops exact_casts root_graph (project root_graph Passthrough)
     (Fin (1 / 10))) = Fin 0"
proof -
  have "{e. \<exists>d t n. edge_at root_graph e = Some (Contains e d t n)} = {1}"
    by (auto simp: root_graph_edges split: if_splits)
  then have "name_count root_graph = 1" by (simp add: name_count_def)
  moreover have "ar_len (edges root_graph) = 1"
    by (simp add: root_graph_def new_boxed_def empty_graph_def Let_def id_to_arena_def ar_insert_at_def
        ar_new_def EDGE_CAPACITY_def)
  ultimately have "other_share root_graph = 0" by (simp add: other_share_def)
  then show ?thesis using passthrough_advantage [OF root_graph_ok, of "1 / 10"] by simp
qed

end
