(* ===== verification/Sotfs_Tail.thy ===== *)
theory Sotfs_Tail
  imports Sotfs_Provenance Sotfs_Text
begin

text \<open>
  The streaming exporter, \<open>sotfs-cli/src/bin/export_hunter.rs\<close>: its arguments, the conversion of a line of the
  provenance file, and the loop that follows the file.  The program looks at the file again and again; the model
  takes what it finds each time as an argument, \<open>None\<close> when the file cannot be opened.  The JSON decoder and
  encoder are parameters, the contents are taken to be valid UTF-8, for which reading a line does not fail, and
  writing to the standard output is taken to succeed.
\<close>

section \<open>Arguments\<close>

datatype exit_code = ExitSuccess | ExitFailure nat

text \<open>\<open>str::parse\<close> to a 64-bit number: a sign, at least one digit, and no overflow.\<close>

definition parse_u64 :: "string \<Rightarrow> u64 option" where
  "parse_u64 s =
     (let digits = (case s of c # cs \<Rightarrow> if c = CHR 0x2B then cs else s | [] \<Rightarrow> s)
      in if digits = [] \<or> \<not> list_all (\<lambda>c. digit_value c \<noteq> None) digits then None
         else (let n = fst (read_digits 0 digits) in if n < 2 ^ 64 then Some (word_of_nat n) else None))"

record hunter_args =
  ha_input :: "string option"
  ha_output :: "string option"
  ha_tail :: bool
  ha_once :: bool
  ha_poll_ms :: u64
  ha_max_events :: "u64 option"

definition DEFAULT_POLL_MS :: u64 where "DEFAULT_POLL_MS = 500"

fun hunter_args_loop :: "string list \<Rightarrow> hunter_args \<Rightarrow> exit_code + hunter_args" where
  "hunter_args_loop [] a = Inr a"
| "hunter_args_loop (x # xs) a =
     (if x = ''-h'' \<or> x = ''--help'' then Inl ExitSuccess
      else if x = ''--tail'' then hunter_args_loop xs (a\<lparr>ha_tail := True\<rparr>)
      else if x = ''--once'' then hunter_args_loop xs (a\<lparr>ha_once := True\<rparr>)
      else if x = ''--poll-ms'' then
        (case xs of
           [] \<Rightarrow> Inl (ExitFailure 2)
         | raw # ys \<Rightarrow>
             (case parse_u64 raw of
                None \<Rightarrow> Inl (ExitFailure 2)
              | Some n \<Rightarrow> hunter_args_loop ys (a\<lparr>ha_poll_ms := n\<rparr>)))
      else if x = ''--max-events'' then
        (case xs of
           [] \<Rightarrow> Inl (ExitFailure 2)
         | raw # ys \<Rightarrow>
             (case parse_u64 raw of
                None \<Rightarrow> Inl (ExitFailure 2)
              | Some n \<Rightarrow> hunter_args_loop ys (a\<lparr>ha_max_events := Some n\<rparr>)))
      else if x = ''-o'' \<or> x = ''--output'' then
        (case xs of [] \<Rightarrow> Inl (ExitFailure 2) | path # ys \<Rightarrow> hunter_args_loop ys (a\<lparr>ha_output := Some path\<rparr>))
      else if take 2 x = ''--'' then Inl (ExitFailure 2)
      else if ha_input a \<noteq> None then Inl (ExitFailure 2)
      else hunter_args_loop xs (a\<lparr>ha_input := Some x\<rparr>))"

definition parse_hunter_args :: "string list \<Rightarrow> exit_code + hunter_args" where
  "parse_hunter_args argv =
     (case hunter_args_loop (drop 1 argv)
             \<lparr>ha_input = None, ha_output = None, ha_tail = False, ha_once = False, ha_poll_ms = DEFAULT_POLL_MS,
              ha_max_events = None\<rparr> of
        Inl e \<Rightarrow> Inl e
      | Inr a \<Rightarrow> if ha_input a = None then Inl (ExitFailure 2) else Inr a)"

section \<open>Converting a line\<close>

definition op_name :: "prov_op \<Rightarrow> string" where
  "op_name op =
     (case op of
        PCreate \<Rightarrow> ''Create'' | PMkdir \<Rightarrow> ''Mkdir'' | PUnlink \<Rightarrow> ''Unlink'' | PRmdir \<Rightarrow> ''Rmdir'' | PLink \<Rightarrow> ''Link''
      | PRename \<Rightarrow> ''Rename'' | PWrite \<Rightarrow> ''Write'' | PChmod \<Rightarrow> ''Chmod'' | PChown \<Rightarrow> ''Chown''
      | PSetxattr \<Rightarrow> ''Setxattr'' | PRemovexattr \<Rightarrow> ''Removexattr'' | PSymlink \<Rightarrow> ''Symlink'' | PSetAcl \<Rightarrow> ''SetAcl''
      | PCapDerive \<Rightarrow> ''CapDerive'' | PCapRevoke \<Rightarrow> ''CapRevoke'' | PRead \<Rightarrow> ''Read'' | PStat \<Rightarrow> ''Stat''
      | POpen \<Rightarrow> ''Open'' | PTruncate \<Rightarrow> ''Truncate'')"

text \<open>The fields of a streaming event; \<open>cap\<close> is null when there is none.\<close>

datatype event_value = EvNum u64 | EvId nat | EvStr string | EvNull

definition entry_to_hunter_event :: "provenance_entry \<Rightarrow> (string \<times> event_value) list" where
  "entry_to_hunter_event e =
     [(''t'', EvNum (pe_timestamp e)), (''kind'', EvStr ''prov''), (''op'', EvStr (op_name (pe_op e))),
      (''inode'', EvId (pe_inode_id e)),
      (''cap'', case pe_cap_id e of Some c \<Rightarrow> EvId c | None \<Rightarrow> EvNull),
      (''domain'', EvNum (pe_domain_id e)), (''detail'', EvStr (pe_detail e))]"

text \<open>\<open>trim_end_matches(['\n', '\r'])\<close>\<close>

definition trim_line :: "string \<Rightarrow> string" where
  "trim_line s = rev (dropWhile (\<lambda>c. c = NEWLINE \<or> c = CHR 0x0D) (rev s))"

text \<open>What a line adds to the output: nothing when it is blank or malformed.\<close>

definition emit_line ::
    "(string \<Rightarrow> provenance_entry option) \<Rightarrow> ((string \<times> event_value) list \<Rightarrow> string) \<Rightarrow> string \<Rightarrow> string list" where
  "emit_line decode encode line =
     (let trimmed = trim_line line
      in if trimmed = [] then []
         else (case decode trimmed of
                 None \<Rightarrow> []
               | Some e \<Rightarrow> [encode (entry_to_hunter_event e) @ [NEWLINE]]))"

section \<open>Reading lines\<close>

text \<open>\<open>read_line\<close>: up to and including the next newline, or all that is left.\<close>

definition read_line :: "string \<Rightarrow> string \<times> string" where
  "read_line s =
     (case dropWhile (\<lambda>c. c \<noteq> NEWLINE) s of
        [] \<Rightarrow> (s, [])
      | c # rest \<Rightarrow> (takeWhile (\<lambda>c. c \<noteq> NEWLINE) s @ [c], rest))"

lemma read_line_shorter: "s \<noteq> [] \<Longrightarrow> length (snd (read_line s)) < length s"
  using length_dropWhile_le [of "\<lambda>c. c \<noteq> NEWLINE" s] by (auto simp: read_line_def split: list.split)

definition limit_hit :: "u64 option \<Rightarrow> nat \<Rightarrow> bool" where
  "limit_hit lim emitted = (case lim of Some k \<Rightarrow> emitted \<ge> unat k | None \<Rightarrow> False)"

text \<open>
  The loop over the lines.  With the flag, as when following, it stops before a line that is not finished;
  the loop over the existing content takes such a line too.
\<close>

function emit_lines :: "bool \<Rightarrow> (string \<Rightarrow> string list) \<Rightarrow> u64 option \<Rightarrow> nat \<Rightarrow> string \<Rightarrow> string list \<times> nat" where
  "emit_lines partial emit lim emitted s =
     (if s = [] then ([], emitted)
      else (case read_line s of
              (line, rest) \<Rightarrow>
                if partial \<and> last line \<noteq> NEWLINE then ([], emitted)
                else if limit_hit lim (emitted + 1) then (emit line, emitted + 1)
                else (case emit_lines partial emit lim (emitted + 1) rest of
                        (out, k) \<Rightarrow> (emit line @ out, k))))"
  by pat_completeness auto
termination
  by (relation "measure (\<lambda>(_, _, _, _, s). length s)") (auto dest!: read_line_shorter simp del: length_greater_0_conv, (metis snd_conv)+)

declare emit_lines.simps [simp del]

section \<open>Following the file\<close>

datatype tail_status = Following | Exited exit_code

record tail_state =
  tl_pos :: nat
  tl_emitted :: nat
  tl_status :: tail_status

text \<open>
  The existing content.  Reading to the end leaves the position there; the position is only used when no limit
  was hit, and then the content was read to its end.
\<close>

definition tail_start :: "(string \<Rightarrow> string list) \<Rightarrow> bool \<Rightarrow> u64 option \<Rightarrow> string option \<Rightarrow> string list \<times> tail_state" where
  "tail_start emit once lim content =
     (case content of
        None \<Rightarrow> ([], \<lparr>tl_pos = 0, tl_emitted = 0, tl_status = Exited (ExitFailure 1)\<rparr>)
      | Some s \<Rightarrow>
          (case emit_lines False emit lim 0 s of
             (out, k) \<Rightarrow>
               (out, \<lparr>tl_pos = length s, tl_emitted = k,
                      tl_status = (if once \<or> limit_hit lim k then Exited ExitSuccess else Following)\<rparr>)))"

text \<open>
  One round of the polling loop.  The byte before the position tells whether the file was rewritten.  A
  buffered reader that found the end of the file, also behind an unfinished line, has read to the end.
\<close>

definition tail_poll :: "(string \<Rightarrow> string list) \<Rightarrow> u64 option \<Rightarrow> string option \<Rightarrow> tail_state \<Rightarrow> string list \<times> tail_state" where
  "tail_poll emit lim content st =
     (case content of
        None \<Rightarrow> ([], st\<lparr>tl_status := Exited (ExitFailure 1)\<rparr>)
      | Some s \<Rightarrow>
          (let rewound = (length s < tl_pos st \<or> (tl_pos st > 0 \<and> s ! (tl_pos st - 1) \<noteq> NEWLINE));
               pos = (if rewound then 0 else tl_pos st)
           in if length s = pos \<and> \<not> rewound then ([], st)
              else (case emit_lines True emit lim (tl_emitted st) (drop pos s) of
                      (out, k) \<Rightarrow>
                        (out, \<lparr>tl_pos = length s, tl_emitted = k,
                               tl_status = (if limit_hit lim k then Exited ExitSuccess else Following)\<rparr>))))"

fun tail_polls :: "(string \<Rightarrow> string list) \<Rightarrow> u64 option \<Rightarrow> string option list \<Rightarrow> tail_state \<Rightarrow> string list \<times> tail_state" where
  "tail_polls emit lim [] st = ([], st)"
| "tail_polls emit lim (c # cs) st =
     (if tl_status st \<noteq> Following then ([], st)
      else (case tail_poll emit lim c st of
              (out, st') \<Rightarrow> (case tail_polls emit lim cs st' of (out', st'') \<Rightarrow> (out @ out', st''))))"

definition run_tail ::
    "(string \<Rightarrow> string list) \<Rightarrow> bool \<Rightarrow> u64 option \<Rightarrow> string option \<Rightarrow> string option list \<Rightarrow> string list \<times> tail_state" where
  "run_tail emit once lim content polls =
     (case tail_start emit once lim content of
        (out, st) \<Rightarrow> (case tail_polls emit lim polls st of (out', st') \<Rightarrow> (out @ out', st')))"

section \<open>Lines of a text\<close>

fun finished_lines :: "string list \<Rightarrow> string" where
  "finished_lines ls = concat (map (\<lambda>l. l @ [NEWLINE]) ls)"

declare finished_lines.simps [simp del]

lemma finished_lines_simps [simp]:
  "finished_lines [] = []" "finished_lines (l # ls) = l @ NEWLINE # finished_lines ls"
  "finished_lines (ls @ ms) = finished_lines ls @ finished_lines ms" "finished_lines ls = [] \<longleftrightarrow> ls = []"
  by (simp_all add: finished_lines.simps)

abbreviation one_line :: "string \<Rightarrow> bool" where "one_line l \<equiv> NEWLINE \<notin> set l"

lemma read_line_simps:
  "read_line [] = ([], [])"
  "read_line (c # s) = (if c = NEWLINE then ([c], s) else (c # fst (read_line s), snd (read_line s)))"
proof -
  show "read_line [] = ([], [])" by (simp add: read_line_def)
  show "read_line (c # s) = (if c = NEWLINE then ([c], s) else (c # fst (read_line s), snd (read_line s)))"
    by (cases "dropWhile (\<lambda>c. c \<noteq> NEWLINE) s") (simp_all add: read_line_def del: dropWhile_eq_Nil_conv)
qed

lemma read_line_first: "one_line l \<Longrightarrow> read_line (l @ NEWLINE # s) = (l @ [NEWLINE], s)"
  by (induction l) (auto simp: read_line_simps)

lemma read_line_last: "one_line l \<Longrightarrow> read_line l = (l, [])"
  by (induction l) (auto simp: read_line_simps)

text \<open>One step of the loop: a finished line, an unfinished one, and the end.\<close>

lemma emit_step:
  assumes "one_line l"
  shows "emit_lines partial emit None k (l @ NEWLINE # s) =
           (emit (l @ [NEWLINE]) @ fst (emit_lines partial emit None (k + 1) s),
            snd (emit_lines partial emit None (k + 1) s))"
  by (subst emit_lines.simps) (simp add: read_line_first [OF assms] limit_hit_def case_prod_unfold)

lemma emit_end [simp]: "emit_lines partial emit lim k [] = ([], k)"
  by (subst emit_lines.simps) simp

lemma emit_unfinished:
  assumes "one_line u" "u \<noteq> []"
  shows "fst (emit_lines partial emit None k u) = (if partial then [] else emit u)"
proof -
  have "last u \<noteq> NEWLINE" using assms by (metis last_in_set)
  then show ?thesis
    using assms by (subst emit_lines.simps) (simp add: read_line_last limit_hit_def)
qed

text \<open>Without a limit, the finished lines each once and in order, and the unfinished one unless it waits.\<close>

lemma emit_finished:
  "\<forall>l \<in> set ls. one_line l \<Longrightarrow> one_line u \<Longrightarrow>
     fst (emit_lines partial emit None k (finished_lines ls @ u)) =
       concat (map (\<lambda>l. emit (l @ [NEWLINE])) ls) @ (if partial \<or> u = [] then [] else emit u)"
proof (induction ls arbitrary: k)
  case Nil
  then show ?case by (cases "u = []") (simp_all add: emit_unfinished)
next
  case (Cons l ls)
  then show ?case by (simp add: emit_step)
qed

lemma finished_end: "ls \<noteq> [] \<Longrightarrow> finished_lines ls ! (length (finished_lines ls) - 1) = NEWLINE"
proof (induction ls rule: rev_induct)
  case (snoc l ls)
  have "finished_lines (ls @ [l]) = (finished_lines ls @ l) @ [NEWLINE]" by simp
  then show ?case by (simp add: nth_append)
qed simp

section \<open>What a follower prints\<close>

abbreviation events_of :: "(string \<Rightarrow> string list) \<Rightarrow> string list \<Rightarrow> string list" where
  "events_of emit ls \<equiv> concat (map (\<lambda>l. emit (l @ [NEWLINE])) ls)"

text \<open>The successive contents of a file to which whole lines are appended.\<close>

fun growing :: "string list \<Rightarrow> string list list \<Rightarrow> string option list" where
  "growing ls [] = []"
| "growing ls (ms # mss) = Some (finished_lines (ls @ ms)) # growing (ls @ ms) mss"

lemma no_limit [simp]: "\<not> limit_hit None k"
  by (simp add: limit_hit_def)

lemma start_prints:
  assumes "\<forall>l \<in> set ls. one_line l" "one_line u"
  shows "fst (tail_start emit False None (Some (finished_lines ls @ u))) = events_of emit ls @ (if u = [] then [] else emit u)"
    and "tl_pos (snd (tail_start emit False None (Some (finished_lines ls @ u)))) = length (finished_lines ls @ u)"
    and "tl_status (snd (tail_start emit False None (Some (finished_lines ls @ u)))) = Following"
  using emit_finished [OF assms, of False emit 0] by (simp_all add: tail_start_def case_prod_unfold)

text \<open>Behind a whole line the next round goes on with what is new; behind an unfinished one it starts again.\<close>

lemma poll_prints_new:
  assumes "\<forall>l \<in> set ms. one_line l" "one_line u" "tl_pos st = length (finished_lines ls)" "tl_status st = Following"
  shows "fst (tail_poll emit None (Some (finished_lines (ls @ ms) @ u)) st) = events_of emit ms"
    and "tl_pos (snd (tail_poll emit None (Some (finished_lines (ls @ ms) @ u)) st)) = length (finished_lines (ls @ ms) @ u)"
    and "tl_status (snd (tail_poll emit None (Some (finished_lines (ls @ ms) @ u)) st)) = Following"
proof -
  have probe: "(finished_lines ls @ finished_lines ms @ u) ! (length (finished_lines ls) - Suc 0) = NEWLINE" if "ls \<noteq> []"
    using finished_end [OF that] that by (simp add: nth_append)
  have "fst (emit_lines True emit None (tl_emitted st) (finished_lines ms @ u)) = events_of emit ms"
    using emit_finished [OF assms(1,2), of True] by simp
  then show "fst (tail_poll emit None (Some (finished_lines (ls @ ms) @ u)) st) = events_of emit ms"
    and "tl_pos (snd (tail_poll emit None (Some (finished_lines (ls @ ms) @ u)) st)) = length (finished_lines (ls @ ms) @ u)"
    and "tl_status (snd (tail_poll emit None (Some (finished_lines (ls @ ms) @ u)) st)) = Following"
    using probe assms(3,4) by (auto simp: tail_poll_def Let_def case_prod_unfold)
qed

lemma poll_prints_again:
  assumes "\<forall>l \<in> set ms. one_line l" "0 < tl_pos st" "tl_pos st \<le> length (finished_lines ms)"
    and "finished_lines ms ! (tl_pos st - 1) \<noteq> NEWLINE"
  shows "fst (tail_poll emit None (Some (finished_lines ms)) st) = events_of emit ms"
  using emit_finished [OF assms(1), of "[]" True emit] assms(2-4)
  by (simp add: tail_poll_def Let_def case_prod_unfold)

lemma polls_print_new:
  "\<forall>l \<in> set (concat mss). one_line l \<Longrightarrow> tl_pos st = length (finished_lines ls) \<Longrightarrow> tl_status st = Following \<Longrightarrow>
     fst (tail_polls emit None (growing ls mss) st) = events_of emit (concat mss)"
proof (induction mss arbitrary: ls st)
  case (Cons ms mss)
  then show ?case
    using poll_prints_new [of ms "[]" st ls emit]
    by (simp del: finished_lines_simps add: case_prod_unfold)
qed simp

text \<open>The last byte of an unfinished line, in the content in which it is finished.\<close>

lemma unfinished_byte:
  assumes "one_line u" "u \<noteq> []"
  shows "finished_lines (ls @ [u @ v]) ! (length (finished_lines ls @ u) - 1) \<noteq> NEWLINE"
proof -
  obtain w c where u: "u = w @ [c]" using assms(2) by (cases u rule: rev_cases) auto
  have "finished_lines (ls @ [u @ v]) = (finished_lines ls @ w) @ c # v @ [NEWLINE]" by (simp add: u)
  moreover have "length (finished_lines ls @ u) - 1 = length (finished_lines ls @ w)" by (simp add: u)
  ultimately have "finished_lines (ls @ [u @ v]) ! (length (finished_lines ls @ u) - 1) = c"
    by (simp only: nth_append_length)
  then show ?thesis using assms(1) by (auto simp: u)
qed

section \<open>The property\<close>

text \<open>
  C39: The exporter that follows the provenance file prints each entry once, in the order of the file, as long as
  every look at the file finds whole lines, whatever arrives between two looks.  A look that finds the writer in the
  middle of a line prints nothing for it, as intended, but leaves the position behind the unfinished part; the next
  look takes this for a rewritten file, starts again and prints every entry a second time.
\<close>

theorem tail_prints_once:
  assumes "\<forall>l \<in> set (ls @ concat mss). one_line l" "one_line (u @ v)" "u \<noteq> []"
  shows "fst (run_tail emit False None (Some (finished_lines ls)) (growing ls mss)) = events_of emit (ls @ concat mss)
    \<and> fst (run_tail emit False None (Some (finished_lines ls))
            [Some (finished_lines ls @ u), Some (finished_lines (ls @ [u @ v]))]) =
        events_of emit ls @ events_of emit (ls @ [u @ v])"
proof
  have ls: "\<forall>l \<in> set ls. one_line l" and u: "one_line u" and both: "\<forall>l \<in> set (ls @ [u @ v]). one_line l"
    using assms by auto
  note start = start_prints [OF ls, of "[]" emit, simplified]
  show "fst (run_tail emit False None (Some (finished_lines ls)) (growing ls mss)) = events_of emit (ls @ concat mss)"
    using start polls_print_new [of mss _ ls emit] assms(1) by (simp add: run_tail_def case_prod_unfold)
  let ?st = "snd (tail_start emit False None (Some (finished_lines ls)))"
  note first = poll_prints_new [of "[]" u ?st ls emit, simplified, OF u start(2,3)]
  let ?st' = "snd (tail_poll emit None (Some (finished_lines ls @ u)) ?st)"
  have "fst (tail_poll emit None (Some (finished_lines (ls @ [u @ v]))) ?st') = events_of emit (ls @ [u @ v])"
    using unfinished_byte [OF u assms(3), of ls v] first(2) assms(3)
    by (intro poll_prints_again [OF both]) (auto simp del: finished_lines_simps(3) simp: finished_lines_simps(3))
  then show "fst (run_tail emit False None (Some (finished_lines ls))
      [Some (finished_lines ls @ u), Some (finished_lines (ls @ [u @ v]))]) = events_of emit ls @ events_of emit (ls @ [u @ v])"
    using start first by (simp add: run_tail_def case_prod_unfold)
qed

lemma tail_prints_once_witness:
  "fst (run_tail (\<lambda>l. [trim_line l]) False None (Some (finished_lines [''a'']))
        [Some (finished_lines [''a''] @ ''b''), Some (finished_lines ([''a''] @ [''b'' @ ''c'']))]) = [''a'', ''a'', ''bc'']"
  using tail_prints_once [of "[''a'']" "[]" "''b''" "''c''" "\<lambda>l. [trim_line l]"] by (simp add: trim_line_def)

end
