(* ===== verification/Sotfs_Tools.thy ===== *)
theory Sotfs_Tools
  imports Sotfs_Tail Sotfs_Exported Sotfs_Lifecycle Sotfs_Checks
begin

text \<open>
  The command line tools: \<open>sotfsctl\<close>, \<open>sotfs-dot\<close>, the snapshot mode of \<open>sotfs-export-hunter\<close> and the start of
  \<open>sotfs-fuse\<close>.  A volume is the database at a path, \<open>None\<close> when there is no such file.  \<open>create\<close> is
  \<open>Database::create\<close>, which opens the database or makes an empty one, \<open>None\<close> its error; the codec and the
  transactions are those of the storage backend.  Writing to the terminal is taken to succeed.
\<close>

section \<open>sotfsctl: choosing the command\<close>

datatype ctl_command =
    CtlMkfs string
  | CtlCheck string
  | CtlDump string string
  | CtlProv string "string list"

definition ctl_main :: "string list \<Rightarrow> exit_code + ctl_command" where
  "ctl_main args =
     (case drop 1 args of
        [] \<Rightarrow> Inl (ExitFailure 2)
      | cmd # rest \<Rightarrow>
          if cmd = ''mkfs'' then (case rest of path # _ \<Rightarrow> Inr (CtlMkfs path) | [] \<Rightarrow> Inl (ExitFailure 2))
          else if cmd = ''check'' then (case rest of path # _ \<Rightarrow> Inr (CtlCheck path) | [] \<Rightarrow> Inl (ExitFailure 2))
          else if cmd = ''dump'' then
            (case rest of
               [] \<Rightarrow> Inl (ExitFailure 2)
             | path # more_args \<Rightarrow>
                 Inr (CtlDump path (case more_args of format # _ \<Rightarrow> format | [] \<Rightarrow> ''--dot'')))
          else if cmd = ''prov'' then (case rest of path # flags \<Rightarrow> Inr (CtlProv path flags) | [] \<Rightarrow> Inl (ExitFailure 2))
          else if cmd = ''-h'' \<or> cmd = ''--help'' \<or> cmd = ''help'' then Inl ExitSuccess
          else Inl (ExitFailure 2))"

section \<open>sotfsctl: volumes\<close>

definition mkfs ::
    "(graph_image \<Rightarrow> 'b option) \<Rightarrow> ('b \<Rightarrow> 'db \<Rightarrow> 'db option) \<Rightarrow> ('db option \<Rightarrow> 'db option) \<Rightarrow> clock \<Rightarrow> 'db option \<Rightarrow>
       exit_code \<times> 'db option" where
  "mkfs to_vec put create clk vol =
     (if vol \<noteq> None then (ExitFailure 1, vol)
      else (case create vol of
              None \<Rightarrow> (ExitFailure 1, vol)
            | Some db \<Rightarrow>
                (case save to_vec put (new_boxed clk) db of
                   None \<Rightarrow> (ExitFailure 1, Some db)
                 | Some db' \<Rightarrow> (ExitSuccess, Some db'))))"

definition ctl_load ::
    "('b \<Rightarrow> graph_image option) \<Rightarrow> ('db \<Rightarrow> 'b fetched) \<Rightarrow> ('db option \<Rightarrow> 'db option) \<Rightarrow> 'db option \<Rightarrow>
       type_graph option \<times> 'db option" where
  "ctl_load from_slice fetch create vol =
     (case create vol of
        None \<Rightarrow> (None, vol)
      | Some db \<Rightarrow>
          ((case load from_slice fetch db of
              Some (Some g) \<Rightarrow> Some (rebuild_dir_name_idx g)
            | _ \<Rightarrow> None), Some db))"

record check_report =
  rp_invariants :: "unit res"
  rp_index :: "violation option"
  rp_inodes :: nat
  rp_dirs :: nat

definition ctl_check ::
    "('b \<Rightarrow> graph_image option) \<Rightarrow> ('db \<Rightarrow> 'b fetched) \<Rightarrow> ('db option \<Rightarrow> 'db option) \<Rightarrow> 'db option \<Rightarrow>
       exit_code \<times> check_report option \<times> 'db option" where
  "ctl_check from_slice fetch create vol =
     (case ctl_load from_slice fetch create vol of
        (None, vol) \<Rightarrow> (ExitFailure 1, None, vol)
      | (Some g, vol) \<Rightarrow>
          (let invariants = check_invariants g;
               index = check_dir_name_idx_consistency g;
               failures = (if invariants = Ok () then 0 else 1) + (if index = None then 0 else 1 :: nat)
           in (if failures = 0 then ExitSuccess else ExitFailure 1,
               Some \<lparr>rp_invariants = invariants, rp_index = index, rp_inodes = length (ar_iter (inodes g)),
                     rp_dirs = length (ar_iter (dirs g))\<rparr>, vol)))"

definition ctl_dump ::
    "('b \<Rightarrow> graph_image option) \<Rightarrow> ('db \<Rightarrow> 'b fetched) \<Rightarrow> ('db option \<Rightarrow> 'db option) \<Rightarrow> string \<Rightarrow> 'db option \<Rightarrow>
       exit_code \<times> string \<times> 'db option" where
  "ctl_dump from_slice fetch create format vol =
     (case ctl_load from_slice fetch create vol of
        (None, vol) \<Rightarrow> (ExitFailure 1, [], vol)
      | (Some g, vol) \<Rightarrow>
          if format = ''--dot'' then (ExitSuccess, to_dot g dot_style_default, vol)
          else if format = ''--d3'' then (ExitSuccess, to_d3_json g, vol)
          else (ExitFailure 2, [], vol))"

section \<open>sotfsctl: the provenance file\<close>

fun prov_args :: "string list \<Rightarrow> u64 option \<Rightarrow> exit_code + u64 option" where
  "prov_args [] filter_inode = Inr filter_inode"
| "prov_args (x # xs) filter_inode =
     (if x = ''--inode'' then
        (case xs of
           [] \<Rightarrow> Inl (ExitFailure 2)
         | raw # ys \<Rightarrow>
             (case parse_u64 raw of None \<Rightarrow> Inl (ExitFailure 2) | Some n \<Rightarrow> prov_args ys (Some n)))
      else Inl (ExitFailure 2))"

text \<open>\<open>str::lines\<close>: a line ends with a newline, and a carriage return before it is dropped.\<close>

fun text_lines :: "string \<Rightarrow> string \<Rightarrow> string list" where
  "text_lines cur [] = (if cur = [] then [] else [rev cur])"
| "text_lines cur (c # cs) =
     (if c = NEWLINE
      then rev (case cur of d # ds \<Rightarrow> if d = CHR 0x0D then ds else cur | [] \<Rightarrow> []) # text_lines [] cs
      else text_lines (c # cur) cs)"

text \<open>\<open>str::contains\<close>\<close>

fun contains_text :: "string \<Rightarrow> string \<Rightarrow> bool" where
  "contains_text needle [] \<longleftrightarrow> needle = []"
| "contains_text needle (c # cs) \<longleftrightarrow> take (length needle) (c # cs) = needle \<or> contains_text needle cs"

definition inode_needle :: "nat \<Rightarrow> string" where
  "inode_needle n = quoted ''inode'' @ '':'' @ decimal n"

text \<open>\<open>first\<close> and \<open>second\<close> are the contents of the two files that are tried, \<open>None\<close> when there is no such file.\<close>

definition prov :: "string option \<Rightarrow> string option \<Rightarrow> string list \<Rightarrow> exit_code \<times> string list" where
  "prov first second rest =
     (case (case first of Some s \<Rightarrow> Some s | None \<Rightarrow> second) of
        None \<Rightarrow> (ExitFailure 1, [])
      | Some content \<Rightarrow>
          (case prov_args rest None of
             Inl e \<Rightarrow> (e, [])
           | Inr filter_inode \<Rightarrow>
               (ExitSuccess,
                filter (\<lambda>line. line \<noteq> [] \<and>
                    (case filter_inode of Some n \<Rightarrow> contains_text (inode_needle (unat n)) line | None \<Rightarrow> True))
                  (text_lines [] content))))"

section \<open>sotfs-export-hunter: the snapshot\<close>

text \<open>\<open>write\<close> says whether \<open>fs::write\<close> to a path succeeds.  The result is the exit code, what is printed and what is written.\<close>

definition run_snapshot ::
    "('b \<Rightarrow> graph_image option) \<Rightarrow> ('db \<Rightarrow> 'b fetched) \<Rightarrow> ('db option \<Rightarrow> 'db option) \<Rightarrow> (string \<Rightarrow> bool) \<Rightarrow>
       string option \<Rightarrow> 'db option \<Rightarrow> exit_code \<times> string option \<times> (string \<times> string) option" where
  "run_snapshot from_slice fetch create write output vol =
     (case create vol of
        None \<Rightarrow> (ExitFailure 1, None, None)
      | Some db \<Rightarrow>
          (case load from_slice fetch db of
             Some (Some g) \<Rightarrow>
               (let serialized = to_graph_hunter g
                in case output of
                     Some path \<Rightarrow>
                       if write path then (ExitSuccess, None, Some (path, serialized)) else (ExitFailure 1, None, None)
                   | None \<Rightarrow> (ExitSuccess, Some serialized, None))
           | _ \<Rightarrow> (ExitFailure 1, None, None)))"

section \<open>sotfs-dot\<close>

datatype dot_error = DotUsage string | DotFailed string graph_error | DotStopped

text \<open>\<open>map_err(..)?\<close>; the last case is a run that does not come back.\<close>

fun dot_result :: "string \<Rightarrow> 'a res \<Rightarrow> dot_error + 'a" where
  "dot_result what (Ok a) = Inr a"
| "dot_result what (Err e) = Inl (DotFailed what e)"
| "dot_result what Panic = Inl DotStopped"
| "dot_result what Diverge = Inl DotStopped"

text \<open>The snapshot before, the operation, and the snapshot after when it succeeded; the files are taken to be written.\<close>

definition dot_around ::
    "type_graph \<Rightarrow> string \<Rightarrow> 'a res \<times> type_graph \<Rightarrow> string \<Rightarrow> (dot_error + string) \<times> (string \<times> string) list" where
  "dot_around g what step msg =
     (let before = (''before.dot'', to_dot g dot_style_default)
      in case dot_result what (fst step) of
           Inl e \<Rightarrow> (Inl e, [before])
         | Inr _ \<Rightarrow> (Inr msg, [before, (''after.dot'', to_dot (snd step) dot_style_default)]))"

text \<open>The graph is built with the first clock, a file that must exist with the second, and the operation runs with the third.\<close>

definition dot_run :: "(nat \<Rightarrow> clock) \<Rightarrow> string list \<Rightarrow> (dot_error + string) \<times> (string \<times> string) list" where
  "dot_run clks argv =
     (if length argv < 2 then (Inl (DotUsage ''missing op''), [])
      else
        let g = new_boxed (clks 0); root = root_dir g; oper = argv ! 1; args = drop 2 argv;
            unknown = (Inl (DotUsage ''unknown op or wrong arg count''), [])
        in case args of
             [name] \<Rightarrow>
               if oper = ''create-file'' then
                 dot_around g ''create_file'' (create_file (clks 2) g root name 0 0 FILE_DEFAULT)
                   (''op=create-file name='' @ name)
               else if oper = ''mkdir'' then
                 dot_around g ''mkdir'' (mkdir (clks 2) g root name 0 0 DIR_DEFAULT) (''op=mkdir name='' @ name)
               else if oper = ''unlink'' then
                 (case create_file (clks 1) g root name 0 0 FILE_DEFAULT of
                    (r, g) \<Rightarrow>
                      (case dot_result ''setup create_file'' r of
                         Inl e \<Rightarrow> (Inl e, [])
                       | Inr _ \<Rightarrow> dot_around g ''unlink'' (unlink (clks 2) g root name) (''op=unlink name='' @ name)))
               else unknown
           | [src, dst] \<Rightarrow>
               if oper = ''rename'' then
                 (case create_file (clks 1) g root src 0 0 FILE_DEFAULT of
                    (r, g) \<Rightarrow>
                      (case dot_result ''setup create_file'' r of
                         Inl e \<Rightarrow> (Inl e, [])
                       | Inr _ \<Rightarrow>
                           dot_around g ''rename'' (rename (clks 2) g root src root dst)
                             (''op=rename '' @ src @ '' -> '' @ dst)))
               else if oper = ''link'' then
                 (case create_file (clks 1) g root src 0 0 FILE_DEFAULT of
                    (r, g) \<Rightarrow>
                      (case dot_result ''setup create_file'' r of
                         Inl e \<Rightarrow> (Inl e, [])
                       | Inr t \<Rightarrow>
                           dot_around g ''link'' (link (clks 2) g root dst t) (''op=link '' @ src @ '' -> '' @ dst)))
               else unknown
           | _ \<Rightarrow> unknown)"

section \<open>sotfs-fuse: the start\<close>

fun fuse_args_loop :: "string list \<Rightarrow> string option \<Rightarrow> string option \<Rightarrow> exit_code + string option \<times> string option" where
  "fuse_args_loop [] mountpoint db_path = Inr (mountpoint, db_path)"
| "fuse_args_loop (x # xs) mountpoint db_path =
     (if x = ''-h'' \<or> x = ''--help'' then Inl (ExitFailure 2)
      else if x = ''--db'' then
        (case xs of [] \<Rightarrow> Inl (ExitFailure 2) | path # ys \<Rightarrow> fuse_args_loop ys mountpoint (Some path))
      else if take 2 x = ''--'' then Inl (ExitFailure 2)
      else if mountpoint \<noteq> None then Inl (ExitFailure 2)
      else fuse_args_loop xs (Some x) db_path)"

datatype mount_option = MountRW | MountFSName string | MountAllowOther | MountAutoUnmount

definition mount_options :: "bool \<Rightarrow> mount_option list" where
  "mount_options allow_other =
     [MountRW, MountFSName ''sotfs''] @ (if allow_other then [MountAllowOther, MountAutoUnmount] else [])"

text \<open>
  What \<open>run\<close> hands to \<open>mount2\<close>, or the exit code.  \<open>volumes\<close> gives the database at a path, \<open>quiet\<close> and
  \<open>allow_other\<close> are read from the environment.
\<close>

definition fuse_run ::
    "('b \<Rightarrow> graph_image option) \<Rightarrow> ('db \<Rightarrow> 'b fetched) \<Rightarrow> ('db option \<Rightarrow> 'db option) \<Rightarrow> (string \<Rightarrow> 'db option) \<Rightarrow>
       clock \<Rightarrow> bool \<Rightarrow> bool \<Rightarrow> 'f option \<Rightarrow> string list \<Rightarrow>
       exit_code + ('db, 'f) fuse_fs \<times> string \<times> mount_option list" where
  "fuse_run from_slice fetch create volumes clk quiet allow_other sc args =
     (if length args < 2 then Inl (ExitFailure 2)
      else (case fuse_args_loop (drop 1 args) None None of
              Inl e \<Rightarrow> Inl e
            | Inr (None, _) \<Rightarrow> Inl (ExitFailure 2)
            | Inr (Some mountpoint, None) \<Rightarrow>
                Inr (fuse_new clk quiet sc, mountpoint, mount_options allow_other)
            | Inr (Some mountpoint, Some path) \<Rightarrow>
                (case Option.bind (create (volumes path)) (with_db from_slice fetch clk quiet sc) of
                   None \<Rightarrow> Inl (ExitFailure 1)
                 | Some fs \<Rightarrow> Inr (fs, mountpoint, mount_options allow_other))))"

section \<open>A fresh file system\<close>

lemma new_boxed_fields:
  "next_inode (new_boxed clk) = 2" "next_edge (new_boxed clk) = 2" "quotas (new_boxed clk) = []"
  "cap_parent (new_boxed clk) = []" "require_cap (new_boxed clk) r = Ok ()"
  "edge_at (new_boxed clk) = [1 \<mapsto> Contains 1 1 1 ''.'']" "root_dir (new_boxed clk) = 1"
  by (simp_all add: new_boxed_def empty_graph_def Let_def require_cap_def cap_context_anonymous_def id_to_arena_def
      ar_insert_at_def ar_get_def ar_new_def EDGE_CAPACITY_def fun_eq_iff)

section \<open>Volumes\<close>

text \<open>\<open>Database::create\<close> makes an empty database where there is none and opens one that is there.\<close>

definition create_laws :: "('db option \<Rightarrow> 'db option) \<Rightarrow> ('db \<Rightarrow> 'b fetched) \<Rightarrow> 'db \<Rightarrow> bool" where
  "create_laws create fetch fresh \<longleftrightarrow>
     create None = Some fresh \<and> fetch fresh = NoTable \<and> (\<forall>db. create (Some db) = Some db)"

lemma ar_iter_reload: "ar_inv a \<Longrightarrow> length (ar_iter (reload a)) = card (dom (ar_get a))"
proof -
  assume a: "ar_inv a"
  then have r: "ar_inv (reload a)" "ar_get (reload a) = ar_get a" by simp_all
  have "distinct (map fst (ar_iter (reload a)))"
    using ar_keys_iter [OF r(1)] by (metis ar_keys_def distinct_filter distinct_upt)
  moreover have "set (map fst (ar_iter (reload a))) = dom (ar_get a)"
    using ar.entries_get [OF r(1)] r(2) by force
  ultimately show ?thesis using distinct_card [of "map fst (ar_iter (reload a))"] by simp
qed

text \<open>
  What the check looks for on a volume that is otherwise in order: the ends of the edges, where the number of
  a block is looked up among the inodes, and rights that a capability has and its parent lacks.
\<close>

definition passes :: "type_graph \<Rightarrow> bool" where
  "passes g \<longleftrightarrow>
     (\<forall>k e. ar_get (edges g) k = Some e \<longrightarrow> ends_checked g e) \<and>
     (\<forall>c p x y. bmap_get (cap_parent g) c = Some p \<longrightarrow> get_cap g c = Some x \<longrightarrow> get_cap g p = Some y \<longrightarrow>
        (\<forall>k. bit (cap_rights x) k \<longrightarrow> bit (cap_rights y) k))"

lemma passes_checks:
  assumes wf: "well_formed g" and c: "containers_ok g"
  shows "check_invariants g = Ok () \<longleftrightarrow> passes g"
proof -
  have "self_refs (fs_of g)"
    using fs_ok_dir(2) [OF well_formedD(2) [OF wf]] by (simp add: self_refs_def del: fs_of_simps)
  moreover have "links_ok (fs_of g)" "acyclic (child_rel g)"
    using well_formedD(2) [OF wf] fs_ok_tree(1) by (auto simp: fs_ok_def child_rel_view [OF wf])
  moreover have "no_dangling g \<longleftrightarrow> (\<forall>k e. ar_get (edges g) k = Some e \<longrightarrow> ends_checked g e)"
    by (simp add: no_dangling_def ends_checked_nodes [OF c])
  moreover have "caps_monotone g \<longleftrightarrow>
      (\<forall>c p x y. bmap_get (cap_parent g) c = Some p \<longrightarrow> get_cap g c = Some x \<longrightarrow> get_cap g p = Some y \<longrightarrow>
        (\<forall>k. bit (cap_rights x) k \<longrightarrow> bit (cap_rights y) k))"
    by (simp add: caps_monotone_def subset_bits)
  ultimately show ?thesis
    using no_hard_links [OF well_formedD(2) [OF wf]]
    by (simp add: check_invariants_Ok [OF well_formedD(1) [OF wf] containers_okD(11) [OF c]] passes_def)
qed

lemma reloaded_containers: "containers_ok g \<Longrightarrow> containers_ok (reloaded g)"
  by (simp add: containers_ok_def reloaded_def)

lemma reloaded_passes: "containers_ok g \<Longrightarrow> passes (reloaded g) \<longleftrightarrow> passes g"
  by (simp add: passes_def ends_checked_def ends_stored_def reloaded_def get_inode_def get_dir_def get_cap_def
      get_block_def containers_ok_def cong: edge.case_cong)

lemma checked_graph:
  assumes laws: "storage_laws to_vec from_slice put fetch" "create_laws create fetch fresh"
    and g: "graph_inv g" "containers_ok g" and saved: "save to_vec put g db = Some db'"
  shows "\<exists>verdict. (verdict = Ok () \<longleftrightarrow> passes g) \<and>
     ctl_check from_slice fetch create (Some db') =
       (if passes g then ExitSuccess else ExitFailure 1,
        Some \<lparr>rp_invariants = verdict, rp_index = None, rp_inodes = card (dom (ar_get (inodes g))),
          rp_dirs = card (dom (ar_get (dirs g)))\<rparr>, Some db')"
proof -
  have wf: "well_formed g" using g(1) by (simp add: graph_inv_def)
  note r = reloaded_view(1) [OF wf]
  have same: "h\<lparr>dir_name_idx := dir_name_idx h\<rparr> = h" for h :: type_graph by simp
  have "rebuild_dir_name_idx (reloaded g) = reloaded g"
    using rebuild_idx [OF well_formedD(3) [OF r], of "dir_name_idx (reloaded g)"] by (simp only: same)
  moreover have "check_invariants (reloaded g) = Ok () \<longleftrightarrow> passes g"
    using passes_checks [OF r reloaded_containers [OF g(2)]] reloaded_passes [OF g(2)] by simp
  moreover have "check_dir_name_idx_consistency (reloaded g) = None"
    by (rule check_idx_None [OF well_formedD(3) [OF r]])
  ultimately show ?thesis
    using load_saved [OF laws(1) g(1) saved] laws(2) containers_okD(1,2) [OF g(2)]
    by (intro exI [of _ "check_invariants (reloaded g)"])
      (simp add: ctl_check_def ctl_load_def create_laws_def ar_iter_reload)
qed

lemma fresh_counts: "card (dom (ar_get (inodes (new_boxed clk)))) = 1" "card (dom (ar_get (dirs (new_boxed clk)))) = 1"
proof -
  have "dom (ar_get (inodes (new_boxed clk))) = {1}" "dom (ar_get (dirs (new_boxed clk))) = {1}"
    by (auto simp: new_boxed_def empty_graph_def Let_def id_to_arena_def ar_insert_at_def ar_get_def ar_new_def
        NODE_CAPACITY_def split: if_splits)
  then show "card (dom (ar_get (inodes (new_boxed clk)))) = 1" "card (dom (ar_get (dirs (new_boxed clk)))) = 1"
    by simp_all
qed

lemma fresh_containers: "containers_ok (new_boxed clk)"
  by (rule well_formed_containers [OF new_boxed_well_formed])
    (simp_all add: new_boxed_def empty_graph_def Let_def)

lemma fresh_passes: "passes (new_boxed clk)"
proof -
  have "check_invariants (new_boxed clk) = Ok ()"
    by (rule well_formed_checks [OF new_boxed_well_formed])
      (simp_all add: entry_edges_only_def new_boxed_fields caps_monotone_def)
  then show ?thesis using passes_checks [OF new_boxed_well_formed fresh_containers] by simp
qed

text \<open>
  C40: the commands of \<open>sotfsctl\<close> on a volume.  For every graph in order that was saved, the check succeeds
  exactly when the ends it looks up for every edge are stored and no capability has a right its parent lacks;
  otherwise it exits with 1 and reports an error of the invariants.  The number of a block is looked up among the
  inodes, so healthy volumes with extents can fail.  The name index is always found in order, and the inodes
  and directories are counted.  \<open>mkfs\<close> makes a volume that the check accepts.  Checking a volume that does not
  exist fails, but makes its file, and from then on \<open>mkfs\<close>, which the error message recommends, refuses to
  create the volume.
\<close>

theorem volume_commands:
  assumes "storage_laws to_vec from_slice put fetch" "create_laws create fetch fresh"
    and "save to_vec put (new_boxed clk) fresh \<noteq> None"
  shows "(\<forall>g db db'. graph_inv g \<and> containers_ok g \<and> save to_vec put g db = Some db' \<longrightarrow>
            (\<exists>verdict. (verdict = Ok () \<longleftrightarrow> passes g) \<and>
               ctl_check from_slice fetch create (Some db') =
                 (if passes g then ExitSuccess else ExitFailure 1,
                  Some \<lparr>rp_invariants = verdict, rp_index = None, rp_inodes = card (dom (ar_get (inodes g))),
                    rp_dirs = card (dom (ar_get (dirs g)))\<rparr>, Some db')))
    \<and> (\<exists>vol. mkfs to_vec put create clk None = (ExitSuccess, vol) \<and>
         ctl_check from_slice fetch create vol =
           (ExitSuccess, Some \<lparr>rp_invariants = Ok (), rp_index = None, rp_inodes = 1, rp_dirs = 1\<rparr>, vol))
    \<and> (\<exists>vol. ctl_check from_slice fetch create None = (ExitFailure 1, None, vol) \<and>
         mkfs to_vec put create clk vol = (ExitFailure 1, vol) \<and>
         ctl_check from_slice fetch create vol = (ExitFailure 1, None, vol))"
proof (intro conjI allI impI)
  note checked = checked_graph [OF assms(1,2)]
  show "\<exists>verdict. (verdict = Ok () \<longleftrightarrow> passes g) \<and>
      ctl_check from_slice fetch create (Some db') =
        (if passes g then ExitSuccess else ExitFailure 1,
         Some \<lparr>rp_invariants = verdict, rp_index = None, rp_inodes = card (dom (ar_get (inodes g))),
           rp_dirs = card (dom (ar_get (dirs g)))\<rparr>, Some db')"
    if "graph_inv g \<and> containers_ok g \<and> save to_vec put g db = Some db'" for g db db'
    using that by (intro checked [of g db]) simp_all
  obtain db where "save to_vec put (new_boxed clk) fresh = Some db" using assms(3) by auto
  then show "\<exists>vol. mkfs to_vec put create clk None = (ExitSuccess, vol) \<and>
      ctl_check from_slice fetch create vol =
        (ExitSuccess, Some \<lparr>rp_invariants = Ok (), rp_index = None, rp_inodes = 1, rp_dirs = 1\<rparr>, vol)"
    using checked [OF new_boxed_inv fresh_containers] fresh_passes assms(2) fresh_counts
    by (simp add: mkfs_def create_laws_def)
  show "\<exists>vol. ctl_check from_slice fetch create None = (ExitFailure 1, None, vol) \<and>
      mkfs to_vec put create clk vol = (ExitFailure 1, vol) \<and>
      ctl_check from_slice fetch create vol = (ExitFailure 1, None, vol)"
    using assms(2) by (simp add: ctl_check_def ctl_load_def mkfs_def create_laws_def load_def)
qed

text \<open>
  A volume with one file that has three extents: it is in order, but block 3 has no inode with its number.
\<close>

definition file_volume :: "type_graph \<Rightarrow> nat \<Rightarrow> nat \<Rightarrow> bool" where
  "file_volume g b e \<longleftrightarrow> graph_inv g \<and> containers_ok g \<and> fs_of g = fs_of file_graph \<and> require_cap g WRITE = Ok () \<and>
     next_block g = b \<and> next_edge g = e"

lemma write_block_rest:
  "write_block g i off start cnt = (Ok b, g') \<Longrightarrow>
     side g' = side g \<and> cap_parent g' = cap_parent g \<and> inode_xattrs g' = inode_xattrs g"
  by (auto simp: write_block_def alloc_block_id_def alloc_edge_id_def insert_block_def insert_edge_def Let_def side_def
      dest!: try_res_Ok split: if_splits)

lemma file_volume_grows:
  assumes v: "file_volume g b e" and room: "b < NODE_CAPACITY" "e < EDGE_CAPACITY" and succ: "b' = b + 1" "e' = e + 1"
  shows "\<exists>g'. file_volume g' b' e' \<and> edge_at g' e = Some (PointsTo e 2 b 0)"
proof -
  have g: "graph_inv g" "containers_ok g" "fs_of g = fs_of file_graph" "require_cap g WRITE = Ok ()"
    "next_block g = b" "next_edge g = e"
    using v by (simp_all add: file_volume_def)
  note wf = graph_invD(1) [OF g(1)]
  have leaf: "\<not> is_dir (fs_of g) 2" "fs_inode (fs_of g) 2 \<noteq> None"
    by (simp_all add: g(3) file_graph_leaf file_graph_view(3) del: fs_of_simps)
  have cap: "next_block g < NODE_CAPACITY" "next_edge g < EDGE_CAPACITY" using room g(5,6) by simp_all
  obtain g' where "write_block g 2 0 100 8 = (Ok (next_block g), g')" "well_formed g'" "fs_of g' = fs_of g"
      "edge_at g' (next_edge g) = Some (PointsTo (next_edge g) 2 (next_block g) 0)"
    by (rule write_block_runs [OF wf small_canonical(2) leaf(1) cap leaf(2) g(4)])
  then have w: "write_block g 2 0 100 8 = (Ok b, g')" "well_formed g'" "fs_of g' = fs_of g"
      "edge_at g' e = Some (PointsTo e 2 b 0)"
    by (simp_all only: g(5,6))
  note rest = write_block_rest [OF w(1)] and frame = write_block_frame [OF w(1)]
  have "containers_ok g'"
    using rest containers_okD [OF g(2)] by (intro well_formed_containers [OF w(2)]) (simp_all add: side_def)
  moreover have "succ_u64 b = b'" "succ_u64 e = e'"
    using room succ by (simp_all add: succ_u64_small NODE_CAPACITY_def EDGE_CAPACITY_def)
  moreover have "graph_inv g'" by (rule graph_inv_side [OF g(1) w(2)]) (use rest in simp)
  moreover have "require_cap g' WRITE = Ok ()" by (simp only: frame(9) g(4))
  ultimately have "file_volume g' b' e'"
    unfolding file_volume_def by (simp only: w(3) g(3) frame(2,3) g(5,6) simp_thms)
  then show ?thesis using w(4) by blast
qed

lemma file_graph_volume: "file_volume file_graph 1 3"
proof -
  have "graph_inv root_graph" unfolding root_graph_def by (rule new_boxed_inv)
  then have "graph_inv file_graph"
    using graph_inv_side [OF _ file_graph_ok(1)] create_file_side [of root_graph "\<lambda>_. 0" 1 "''a''" 0 0 420] file_graph_run
    by (auto simp: keeps_side_def)
  moreover have "containers_ok file_graph"
    by (rule well_formed_containers [OF file_graph_ok(1)]) (simp_all add: file_graph_arenas file_graph_facts)
  ultimately show ?thesis by (simp add: file_volume_def file_graph_facts)
qed

lemma no_inode_three:
  assumes "fs_of g = fs_of file_graph"
  shows "get_inode g 3 = None"
proof -
  have "fs_inode (fs_of file_graph) 3 = None"
    using fresh_inode [OF well_formedD(1) [OF file_graph_ok(1)]] by (simp add: file_graph_facts(2))
  moreover have "canonical 3" by (simp add: canonical_def)
  moreover have "inode_at g 3 = fs_inode (fs_of file_graph) 3"
    using arg_cong [OF assms, of fs_inode] by simp
  ultimately show ?thesis using inode_at_canonical [of 3 g] by simp
qed

lemma volume_commands_witness:
  "\<exists>g vol. graph_inv g \<and> fst (ctl_check Some cell_fetch (\<lambda>vol. Some (case vol of Some db \<Rightarrow> db | None \<Rightarrow> None)) (Some (Some (image_of g)))) = ExitFailure 1 \<and>
     ctl_check Some cell_fetch (\<lambda>vol. Some (case vol of Some db \<Rightarrow> db | None \<Rightarrow> None)) None = (ExitFailure 1, None, vol) \<and>
     mkfs Some cell_put (\<lambda>vol. Some (case vol of Some db \<Rightarrow> db | None \<Rightarrow> None)) (\<lambda>_. 0) vol = (ExitFailure 1, vol)"
proof -
  let ?create = "\<lambda>vol. Some (case vol of Some db \<Rightarrow> db | None \<Rightarrow> None)"
  have "create_laws ?create cell_fetch None"
    by (simp add: create_laws_def cell_fetch_def)
  note commands = volume_commands [OF cell_laws this, of "\<lambda>_. 0"]
  have room: "1 < NODE_CAPACITY" "2 < NODE_CAPACITY" "3 < NODE_CAPACITY" "3 < EDGE_CAPACITY" "4 < EDGE_CAPACITY" "5 < EDGE_CAPACITY"
    by (simp_all add: NODE_CAPACITY_def EDGE_CAPACITY_def)
  have "file_volume file_graph 1 3" by (rule file_graph_volume)
  then obtain g1 where "file_volume g1 2 4" using file_volume_grows [of file_graph 1 3 2 4] room by auto
  then obtain g2 where "file_volume g2 3 5" using file_volume_grows [of g1 2 4 3 5] room by auto
  then obtain g where g: "file_volume g 4 6" "edge_at g 5 = Some (PointsTo 5 2 3 0)"
    using file_volume_grows [of g2 3 5 4 6] room by auto
  have "fs_of g = fs_of file_graph" using g(1) by (simp add: file_volume_def)
  then have "get_inode g 3 = None" by (rule no_inode_three)
  then have "\<not> ends_checked g (PointsTo 5 2 3 0)" by (simp add: ends_checked_def)
  then have "\<not> passes g" using g(2) unfolding passes_def by blast
  moreover have "graph_inv g" "containers_ok g" using g(1) by (simp_all add: file_volume_def)
  moreover have "save Some cell_put g None = Some (Some (image_of g))" by (simp add: save_def)
  ultimately have "fst (ctl_check Some cell_fetch ?create (Some (Some (image_of g)))) = ExitFailure 1"
    using commands [THEN conjunct1, rule_format, of g None "Some (image_of g)"] by (auto simp: save_def)
  then show ?thesis using commands \<open>graph_inv g\<close> by (auto simp: save_def)
qed

section \<open>The filter of the provenance listing\<close>

text \<open>
  The filter looks for the number as a text, so the entries of an inode are listed together with those of every
  inode whose number begins with the same digits.
\<close>

lemma contains_text_iff: "contains_text needle s \<longleftrightarrow> (\<exists>xs ys. s = xs @ needle @ ys)"
proof (induction s)
  case (Cons c s)
  have "take (length needle) (c # s) = needle \<longleftrightarrow> (\<exists>ys. c # s = needle @ ys)"
    by (metis append_eq_conv_conj append_take_drop_id)
  then show ?case using Cons by (auto simp: Cons_eq_append_conv)
qed auto

theorem prov_filter_matches_prefix:
  assumes "0 < n" "d < 10" "contains_text (inode_needle (10 * n + d)) line"
  shows "contains_text (inode_needle n) line"
proof -
  have "decimal (10 * n + d) = decimal n @ [digit d]"
    using assms(1,2) decimal.simps [of "10 * n + d"] by (simp add: div_add1_eq mod_add_eq)
  then show ?thesis using assms(3) by (auto simp: contains_text_iff inode_needle_def)
qed

theorem prov_filter_matches_prefix_witness:
  "contains_text (inode_needle 1) (inode_needle 12)"
proof -
  have "contains_text (inode_needle 12) (inode_needle 12)"
    unfolding contains_text_iff by (intro exI [of _ "[]"]) simp
  then show ?thesis using prov_filter_matches_prefix [of 1 2 "inode_needle 12"] by simp
qed

section \<open>sotfs-dot\<close>

lemma dot_create:
  assumes "\<not> bad_name n"
  shows "\<exists>g. create_file clk (new_boxed clk') 1 n 0 0 FILE_DEFAULT = (Ok 2, g) \<and> well_formed g \<and>
    require_cap g WRITE = Ok () \<and>
    fs_of g = fs_create 1 n 2 ((new_file (clk 0) 2 FILE_DEFAULT 0 0)\<lparr>link_count := 1\<rparr>) (fs_of (new_boxed clk'))"
proof -
  note view = new_boxed_view [of clk', THEN conjunct2, THEN conjunct1]
  have n: "fs_name (fs_of (new_boxed clk')) (1, n) = None" "fs_dir (fs_of (new_boxed clk')) 1 \<noteq> None"
    using assms by (simp_all add: view bad_name_def del: fs_of_simps)
  have cap: "next_inode (new_boxed clk') < NODE_CAPACITY" "next_edge (new_boxed clk') < EDGE_CAPACITY"
    by (simp_all add: new_boxed_fields room)
  obtain g where g: "create_file clk (new_boxed clk') 1 n 0 0 FILE_DEFAULT = (Ok 2, g)"
    using create_file_runs [OF new_boxed_well_formed new_boxed_fields(3,5) small_canonical(1) cap assms n,
        where clk = clk and u = 0 and gi = 0 and p = FILE_DEFAULT]
    by (auto simp: new_boxed_fields)
  have "require_cap g WRITE = Ok ()"
    using same_rest_require_cap [OF create_file_frame(1) [OF g]] by (simp add: new_boxed_fields)
  then show ?thesis
    using create_file_contract [OF new_boxed_well_formed small_canonical(1) cap, where clk = clk and n = n
        and u = 0 and gi = 0 and p = FILE_DEFAULT] g
    by (simp add: new_boxed_fields del: fs_of_simps)
qed

text \<open>
  The demonstration of \<open>unlink\<close>: for every name a file can have it prints the graph with the file and the graph
  without it, which stands for the same file system as the fresh one; other names are reported and nothing is
  written.
\<close>

theorem dot_unlink_restores:
  "if bad_name n then dot_run clks [prog, ''unlink'', n] = (Inl (DotFailed ''setup create_file'' (NameNotFound n)), [])
   else (\<exists>g g'. dot_run clks [prog, ''unlink'', n] =
           (Inr (''op=unlink name='' @ n),
            [(''before.dot'', to_dot g dot_style_default), (''after.dot'', to_dot g' dot_style_default)]) \<and>
         fs_name (fs_of g) = (fs_name (fs_of (new_boxed (clks 0))))((1, n) \<mapsto> 2) \<and>
         fs_of g' = fs_of (new_boxed (clks 0)))"
proof (cases "bad_name n")
  case True
  then show ?thesis by (simp add: dot_run_def create_file_def new_boxed_fields)
next
  case False
  note view = new_boxed_view [of "clks 0", THEN conjunct2, THEN conjunct1]
  obtain g where g: "create_file (clks 1) (new_boxed (clks 0)) 1 n 0 0 FILE_DEFAULT = (Ok 2, g)" "well_formed g"
    "require_cap g WRITE = Ok ()"
    "fs_of g = fs_create 1 n 2 ((new_file (clks 1 0) 2 FILE_DEFAULT 0 0)\<lparr>link_count := 1\<rparr>) (fs_of (new_boxed (clks 0)))"
    using dot_create [OF False] by blast
  have user: "user_name n" using False by (simp add: bad_name_def user_name_def)
  have there: "fs_name (fs_of g) (1, n) = Some 2" "\<not> is_dir (fs_of g) 2"
    "fs_inode (fs_of g) 2 = Some ((new_file (clks 1 0) 2 FILE_DEFAULT 0 0)\<lparr>link_count := 1\<rparr>)"
    by (simp_all add: g(4) fs_create_def is_dir_def view new_file_def del: fs_of_simps)
  obtain r g' where u: "unlink (clks 2) g 1 n = (r, g')" by (cases "unlink (clks 2) g 1 n")
  have "r = Ok () \<and> fs_of g' = fs_unlink 1 n 2 ((new_file (clks 1 0) 2 FILE_DEFAULT 0 0)\<lparr>link_count := 1\<rparr>) (fs_of g)"
    using unlink_contract [OF g(2), where clk = "clks 2" and d = 1 and n = n] u there user g(3)
    by (cases r) (auto simp del: fs_of_simps)
  moreover have "fs_unlink 1 n 2 ((new_file (clks 1 0) 2 FILE_DEFAULT 0 0)\<lparr>link_count := 1\<rparr>) (fs_of g) = fs_of (new_boxed (clks 0))"
    using False by (auto simp: g(4) fs_unlink_def fs_create_def view fun_eq_iff bad_name_def simp del: fs_of_simps)
  moreover have "fs_name (fs_of g) = (fs_name (fs_of (new_boxed (clks 0))))((1, n) \<mapsto> 2)"
    by (simp add: g(4) fs_create_def del: fs_of_simps)
  ultimately show ?thesis
    using False g(1) u by (auto simp: dot_run_def dot_around_def Let_def new_boxed_fields simp del: fs_of_simps)
qed

end
