(* ===== verification/Spec2Isabelle.thy ===== *)
theory Spec2Isabelle
  imports Sotfs_Operations Sotfs_Transactions Sotfs_Fsck Sotfs_Affected Sotfs_Rcu Sotfs_Deception Sotfs_Lifecycle Sotfs_Checks Sotfs_Widths Sotfs_Loading
    Sotfs_Exported Sotfs_Depth Sotfs_Typestate Sotfs_Profiles Sotfs_Calibration Sotfs_Tools
begin

text \<open>
  A verification library for sotfs, a file system whose metadata is a typed graph.

  \<^bold>\<open>The program.\<close>  \<open>sotfs-graph\<close> holds the state: a \<open>TypeGraph\<close> of inodes, directories, capabilities,
  blocks, versions, attributes and typed edges, each kind in a slot arena of fixed capacity, with
  secondary indexes from directories, inodes and names to edges.  \<open>sotfs-ops\<close> rewrites the graph: one
  function per file-system operation, guarded by the capability context.  \<open>sotfs-tx\<close> wraps rewriting in
  a snapshot transaction that runs the graph's own invariant checker; \<open>sotfs-storage\<close> saves and loads
  the graph; \<open>sotfs-graph/src/rcu.rs\<close> publishes copies to concurrent readers; \<open>sotfs-fuse\<close> is the mounted
  file system, from the callbacks of the kernel down to the operations; \<open>sotfs-monitor\<close> looks at the
  graph from outside, bounding its treewidth, measuring its curvature and projecting deceptive views of it;
  \<open>sotfs-graph/src/export.rs\<close> writes it as text; \<open>sotfs-cli\<close> has the tools that make, check and print volumes;
  \<open>sotfs-experimental\<close> puts the life cycles of inodes, transactions and directories into types.

  \<^bold>\<open>The model\<close> is a shallow embedding.  A Rust struct is a record, an enum a datatype, a \<open>u64\<close> a 64-bit
  word, a \<open>Result\<close> the type \<open>res\<close>; a function that takes \<open>&mut TypeGraph\<close> returns its result with the
  new graph, so what an early return leaves behind is visible.  \<open>BTreeSet\<close> and \<open>BTreeMap\<close> are sorted
  lists, which fixes the iteration order.  A panic of the FUSE layer or of the treewidth tracker is \<open>None\<close>.
  Every definition computes.

  \<^item> \<open>Sotfs_Prelude\<close>: words, ordered sets and maps.  \<open>Sotfs_Types\<close>: \<open>types.rs\<close> and \<open>error.rs\<close>.
    \<open>Sotfs_Arena\<close>: \<open>arena.rs\<close>, with the interface \<open>slot_store\<close>.  \<open>Sotfs_Index\<close>: the multi-map indexes, interface
    \<open>multi_index\<close>.  \<open>Sotfs_Provenance\<close>: the log of \<open>provenance.rs\<close>.
  \<^item> \<open>Sotfs_Graph\<close>, \<open>Sotfs_Cycles\<close>: \<open>graph.rs\<close>.  The depth-first searches carry fuel, one more than the
    number of directories that have an entry list and one for the start, which is shown to be enough
    on every graph.
  \<^item> \<open>Sotfs_Abstract\<close> is the specification, maps of inodes, directories and names; \<open>Sotfs_View\<close> the abstraction
    function \<open>fs_of\<close> and the consistency of indexes and arenas; \<open>Sotfs_Steps\<close>, \<open>Sotfs_WellFormed\<close> what the
    elementary edits do to both.
  \<^item> \<open>Sotfs_Ops\<close>, \<open>Sotfs_Extents\<close>, \<open>Sotfs_Data\<close>, \<open>Sotfs_Attributes\<close> hold the operations of
    \<open>sotfs-ops/src/lib.rs\<close>; \<open>Sotfs_Namespace\<close>, \<open>Sotfs_Directories\<close>, \<open>Sotfs_Rename\<close>, \<open>Sotfs_Frames\<close> their
    correctness, and \<open>Sotfs_Operations\<close> states it: each operation refines an operation on \<open>fs_of\<close>, and an error
    leaves the graph as it was.
  \<^item> \<open>Sotfs_Invariants\<close>: \<open>check_invariants\<close>, and the healthy graphs it rejects.  \<open>Sotfs_Fsck\<close>: \<open>fsck\<close>.
    \<open>Sotfs_Shape\<close> is the documented graph, its nodes, the ends of its edges and what an edit touches, without
    the source's own helpers; \<open>Sotfs_Checks\<close> states over it what the directory search, \<open>check_invariants\<close> and
    \<open>fsck\<close> decide on every graph whose containers are in order, and \<open>Sotfs_Edits\<close> what the operations do to it.
    \<open>Sotfs_Affected\<close>: the affected-node sets.  \<open>Sotfs_Transactions\<close>: \<open>sotfs-tx\<close>.  \<open>Sotfs_Storage\<close>: saving,
    loading and rebuilding the name index.
  \<^item> \<open>Sotfs_Rcu\<close>: the reader and writer protocol as a step relation, one atomic access a step, any number
    of threads, sequentially consistent.
  \<^item> \<open>Sotfs_Fuse\<close>: every callback of \<open>fs.rs\<close>.  \<open>Sotfs_Side\<close>, \<open>Sotfs_Contracts\<close> give the operations one
    contract, the locales \<open>graph_op\<close> and \<open>tree_op\<close>, interpreted for each; \<open>Sotfs_Mount\<close> uses it for every
    callback, and \<open>Sotfs_Lifecycle\<close> for the reachable states of a mount with saving, crashes and
    remounting.
  \<^item> \<open>Sotfs_Deception\<close>: the four projections of \<open>deception.rs\<close>; \<open>Sotfs_Profiles\<close> its seven built-in profiles;
    \<open>Sotfs_Calibration\<close> the indistinguishability check and the timing calibration.
  \<^item> \<open>Sotfs_Curvature\<close>: \<open>curvature.rs\<close>.  \<open>Sotfs_Incremental\<close> compares the incremental scan with the full one for any
    arithmetic, \<open>Sotfs_Statistics\<close> the statistics of the two in exact arithmetic.
  \<^item> \<open>Sotfs_Text\<close>: decimal numbers and JSON strings, and a reader of JSON.  \<open>Sotfs_Export\<close>: the exporters of
    \<open>export.rs\<close>; \<open>Sotfs_Exported\<close> reads back what they write; \<open>Sotfs_Depth\<close> the depth estimate of the statistics.
  \<^item> \<open>Sotfs_Tail\<close>: following the provenance file, \<open>export_hunter.rs\<close>.  \<open>Sotfs_Tools\<close>: \<open>sotfsctl\<close>, \<open>sotfs-dot\<close>, the
    snapshot export and the start of \<open>sotfs-fuse\<close>.
  \<^item> \<open>Sotfs_Typestate\<close>: the handles of \<open>sotfs-experimental\<close>, their methods at run time and the type checking of
    programs over them.
  \<^item> \<open>Sotfs_Treewidth\<close>, \<open>Sotfs_Dyntree\<close>: \<open>treewidth.rs\<close>.  \<open>Sotfs_Treedec\<close>, \<open>Sotfs_Contraction\<close> are the graph
    theory, tree decompositions and the elimination game; \<open>Sotfs_Links\<close> bounds the names of a file system
    without hard links, and \<open>Sotfs_Widths\<close> carries the bounds of the checker, which sees five kinds of nodes and
    takes blocks for inodes, over to the documented graph; \<open>Sotfs_Dynbound\<close>, \<open>Sotfs_Tracker\<close>, \<open>Sotfs_Loading\<close> prove the incremental tracker.

  \<^bold>\<open>Parameters and hypotheses.\<close>  The clock, the serialiser (its codec law is decoding after encoding), the
  database cell, the closure of a transaction, the requests of the kernel, the floating-point operations of the
  monitor and the successive contents of a followed file are arguments.
  Identifiers are assumed canonical, below \<open>2 ^ 32\<close>, since the arena truncates them, and the arenas to
  have room, since \<open>insert_at\<close> beyond the capacity is silently dropped; the counters then do not wrap.
  The treewidth tracker is proved up to 65 nodes, where no list of neighbours can be full; above that
  it drops fill edges and its bound can be too small.

  \<^bold>\<open>Not modelled.\<close>  Text of messages, \<open>Debug\<close> and \<open>Display\<close>; the weak memory orderings of \<open>rcu.rs\<close> and its
  \<open>active_mut\<close>; redb, serde and fuser behind their interfaces; failures of terminal output; read errors on a followed
  file whose contents are not UTF-8; the rounding of floating-point numbers, which is a parameter.
\<close>

end
